(* ===== verification/Prelude.thy ===== *)
theory Prelude
  imports Main "HOL-Library.Word"
begin

text \<open>
  What every component theory shares: the machine types, the values a C operation
  can fail with, checked integer arithmetic and checked indexing.

  An operation of the code that the C standard leaves undefined (a store past the end
  of an array, a read through a null pointer, a signed overflow) is an explicit branch
  of the model: it returns \<open>Inl\<close> of a \<open>fault\<close>.  A C \<open>int\<close> is an
  \<open>int\<close> of HOL kept in the 32-bit range by the checked operations below; an
  unsigned integer is a word of its width, whose arithmetic wraps as in C.
\<close>

section \<open>Machine types\<close>

type_synonym u8 = "8 word"
type_synonym u16 = "16 word"
type_synonym u32 = "32 word"
type_synonym u64 = "64 word"

datatype fault =
    NullDeref
  | OutOfBounds
  | BufferOverflow
  | SignedOverflow
  | NoReturn

type_synonym 'a res = "fault + 'a"

named_theorems res_simps \<open>unfolding the sequencing of operations that can fault\<close>
named_theorems inv_intros \<open>preservation of the component invariants\<close>

definition bind_res :: "'a res \<Rightarrow> ('a \<Rightarrow> 'b res) \<Rightarrow> 'b res" where
  "bind_res m f = (case m of Inl e \<Rightarrow> Inl e | Inr a \<Rightarrow> f a)"

lemma bind_res_Inr [simp, res_simps]: "bind_res (Inr a) f = f a"
  by (simp add: bind_res_def)

lemma bind_res_Inl [simp, res_simps]: "bind_res (Inl e) f = Inl e"
  by (simp add: bind_res_def)

lemma bind_res_eq_Inr:
  "bind_res m f = Inr b \<longleftrightarrow> (\<exists>a. m = Inr a \<and> f a = Inr b)"
  by (simp add: bind_res_def split: sum.split)

lemma bind_res_eq_Inl:
  "bind_res m f = Inl e \<longleftrightarrow> m = Inl e \<or> (\<exists>a. m = Inr a \<and> f a = Inl e)"
  by (auto simp add: bind_res_def split: sum.split)

lemma bind_res_assoc: "bind_res (bind_res m f) g = bind_res m (\<lambda>a. bind_res (f a) g)"
  by (simp add: bind_res_def split: sum.split)

lemma bind_res_cong [fundef_cong]:
  "m = m' \<Longrightarrow> (\<And>a. m' = Inr a \<Longrightarrow> f a = f' a) \<Longrightarrow> bind_res m f = bind_res m' f'"
  by (simp add: bind_res_def split: sum.split)

definition assert_res :: "bool \<Rightarrow> fault \<Rightarrow> unit res" where
  "assert_res b e = (if b then Inr () else Inl e)"

lemma assert_res_simps [simp, res_simps]:
  "assert_res True e = Inr ()" "assert_res False e = Inl e"
  by (simp_all add: assert_res_def)

lemma assert_res_eq_Inr [simp]: "assert_res b e = Inr u \<longleftrightarrow> b"
  by (simp add: assert_res_def)

text \<open>The part of a result that a caller can observe: no fault happened.\<close>

definition is_ok :: "'a res \<Rightarrow> bool" where
  "is_ok m = (case m of Inl _ \<Rightarrow> False | Inr _ \<Rightarrow> True)"

lemma is_ok_simps [simp]: "is_ok (Inr a)" "\<not> is_ok (Inl e)"
  by (simp_all add: is_ok_def)

lemma is_ok_iff: "is_ok m \<longleftrightarrow> (\<exists>a. m = Inr a)"
  by (cases m) simp_all

lemma is_ok_bind: "is_ok (bind_res m f) \<longleftrightarrow> (\<exists>a. m = Inr a \<and> is_ok (f a))"
  by (cases m) simp_all

section \<open>Signed 32-bit arithmetic\<close>

definition INT_MAX :: int where "INT_MAX = 2147483647"
definition INT_MIN :: int where "INT_MIN = - 2147483648"

definition int_ok :: "int \<Rightarrow> bool" where
  "int_ok x \<longleftrightarrow> INT_MIN \<le> x \<and> x \<le> INT_MAX"

definition to_int :: "int \<Rightarrow> int res" where
  "to_int x = (if int_ok x then Inr x else Inl SignedOverflow)"

definition add_int :: "int \<Rightarrow> int \<Rightarrow> int res" where
  "add_int a b = to_int (a + b)"

definition sub_int :: "int \<Rightarrow> int \<Rightarrow> int res" where
  "sub_int a b = to_int (a - b)"

lemmas int_range_defs = int_ok_def INT_MAX_def INT_MIN_def

lemma to_int_ok [simp]: "int_ok x \<Longrightarrow> to_int x = Inr x"
  by (simp add: to_int_def)

lemma to_int_eq_Inr: "to_int x = Inr y \<longleftrightarrow> int_ok x \<and> y = x"
  by (auto simp add: to_int_def)

lemma to_int_eq_Inl: "to_int x = Inl e \<longleftrightarrow> \<not> int_ok x \<and> e = SignedOverflow"
  by (auto simp add: to_int_def)

text \<open>The conversion of a wider signed integer to \<open>int\<close> keeps the low 32 bits.\<close>

definition cast_int :: "int \<Rightarrow> int" where
  "cast_int x = (x + 2147483648) mod 4294967296 - 2147483648"

lemma cast_int_ok [simp]: "int_ok x \<Longrightarrow> cast_int x = x"
  by (simp add: cast_int_def int_range_defs)

lemma int_ok_cast_int [simp]: "int_ok (cast_int x)"
  using pos_mod_bound [of 4294967296 "x + 2147483648"] pos_mod_sign [of 4294967296 "x + 2147483648"]
  by (auto simp add: cast_int_def int_range_defs)

section \<open>Arrays\<close>

text \<open>An array access outside the array is a fault, never an unspecified value.\<close>

definition nth_res :: "'a list \<Rightarrow> nat \<Rightarrow> 'a res" where
  "nth_res xs i = (if i < length xs then Inr (xs ! i) else Inl OutOfBounds)"

definition upd_res :: "'a list \<Rightarrow> nat \<Rightarrow> 'a \<Rightarrow> 'a list res" where
  "upd_res xs i x = (if i < length xs then Inr (xs[i := x]) else Inl OutOfBounds)"

lemma nth_res_ok [simp]: "i < length xs \<Longrightarrow> nth_res xs i = Inr (xs ! i)"
  by (simp add: nth_res_def)

lemma nth_res_oob [simp]: "length xs \<le> i \<Longrightarrow> nth_res xs i = Inl OutOfBounds"
  by (simp add: nth_res_def)

lemma upd_res_ok [simp]: "i < length xs \<Longrightarrow> upd_res xs i x = Inr (xs[i := x])"
  by (simp add: upd_res_def)

lemma upd_res_oob [simp]: "length xs \<le> i \<Longrightarrow> upd_res xs i x = Inl OutOfBounds"
  by (simp add: upd_res_def)

lemma nth_res_eq_Inr: "nth_res xs i = Inr x \<longleftrightarrow> i < length xs \<and> x = xs ! i"
  by (auto simp add: nth_res_def)

lemma upd_res_eq_Inr: "upd_res xs i x = Inr ys \<longleftrightarrow> i < length xs \<and> ys = xs[i := x]"
  by (auto simp add: upd_res_def)

section \<open>Scanning loops\<close>

text \<open>One iteration of a loop that looks for an index in \<open>i..<n\<close>.\<close>

lemma ex_scan_step:
  "(\<exists>j\<ge>i. j < n \<and> P j) \<longleftrightarrow> i < n \<and> (P i \<or> (\<exists>j\<ge>Suc i. j < n \<and> P j))"
  for i n :: nat
proof
  assume "\<exists>j\<ge>i. j < n \<and> P j"
  then obtain j where j: "i \<le> j" "j < n" "P j" by blast
  then show "i < n \<and> (P i \<or> (\<exists>j\<ge>Suc i. j < n \<and> P j))"
    by (cases "i = j") auto
next
  assume "i < n \<and> (P i \<or> (\<exists>j\<ge>Suc i. j < n \<and> P j))"
  then show "\<exists>j\<ge>i. j < n \<and> P j" by (auto intro: Suc_leD)
qed

section \<open>Ring indices\<close>

text \<open>Two positions less than a ring apart are different slots, and a 16-bit index that wraps
  around selects the slot of the position it counts.\<close>

lemma ring_slots_differ:
  fixes t i k n :: nat
  assumes "i < k" "k - i < n"
  shows "(t + i) mod n \<noteq> (t + k) mod n"
proof
  assume "(t + i) mod n = (t + k) mod n"
  then have "n dvd (t + k) - (t + i)" using assms(1) mod_eq_dvd_iff_nat [of "t + i" "t + k" n] by simp
  then show False using assms dvd_imp_le [of n "k - i"] by simp
qed

lemma ring_slot_u16: "unat (t + of_nat i :: u16) mod 256 = (unat t + i) mod 256"
proof -
  have "unat (t + of_nat i :: u16) = (unat t + i) mod 65536"
    by (simp add: unat_word_ariths unat_of_nat mod_simps)
  then show ?thesis by (simp add: mod_mod_cancel)
qed

section \<open>Lists\<close>

lemma takeWhile_append_stop:
  assumes "\<forall>x\<in>set xs. P x" and "\<not> P y"
  shows "takeWhile P (xs @ y # ys) = xs"
  using assms by (simp add: takeWhile_append)

lemma dropWhile_append_stop:
  assumes "\<forall>x\<in>set xs. P x" and "\<not> P y"
  shows "dropWhile P (xs @ y # ys) = y # ys"
  using assms by (simp add: dropWhile_append)

lemma all_set_update: "\<forall>x\<in>set xs. P x \<Longrightarrow> P y \<Longrightarrow> \<forall>x\<in>set (xs[i := y]). P x"
  using set_update_subset_insert [of xs i y] by auto

lemma take_Suc_conv_snoc: "n < length xs \<Longrightarrow> take (Suc n) xs = take n xs @ [xs ! n]"
  by (rule take_Suc_conv_app_nth)

section \<open>Runs of operations\<close>

text \<open>A component whose operations may fault, and the machine it should behave as: when every
  operation simulates its counterpart, so does every run.\<close>

fun run_ops :: "('s \<Rightarrow> 'op \<Rightarrow> ('s \<times> 'r) res) \<Rightarrow> 's \<Rightarrow> 'op list \<Rightarrow> ('s \<times> 'r list) res" where
  "run_ops step s [] = Inr (s, [])"
| "run_ops step s (c # cs) = bind_res (step s c) (\<lambda>(s, r). bind_res (run_ops step s cs) (\<lambda>(s, rs). Inr (s, r # rs)))"

fun run_spec :: "('m \<Rightarrow> 'op \<Rightarrow> 'm \<times> 'r) \<Rightarrow> 'm \<Rightarrow> 'op list \<Rightarrow> 'm \<times> 'r list" where
  "run_spec spec m [] = (m, [])"
| "run_spec spec m (c # cs) =
     (case spec m c of (m, r) \<Rightarrow> (case run_spec spec m cs of (m, rs) \<Rightarrow> (m, r # rs)))"

text \<open>The caller keeps its side of the contract at every step of the run.\<close>

fun run_allowed :: "('s \<Rightarrow> 'op \<Rightarrow> bool) \<Rightarrow> ('s \<Rightarrow> 'op \<Rightarrow> ('s \<times> 'r) res) \<Rightarrow> 's \<Rightarrow> 'op list \<Rightarrow> bool" where
  "run_allowed ok step s [] \<longleftrightarrow> True"
| "run_allowed ok step s (c # cs) \<longleftrightarrow>
     ok s c \<and> (case step s c of Inl f \<Rightarrow> True | Inr (s, r) \<Rightarrow> run_allowed ok step s cs)"

locale simulated =
  fixes represents :: "'s \<Rightarrow> 'm \<Rightarrow> bool"
    and ok :: "'s \<Rightarrow> 'op \<Rightarrow> bool"
    and step :: "'s \<Rightarrow> 'op \<Rightarrow> ('s \<times> 'r) res"
    and spec :: "'m \<Rightarrow> 'op \<Rightarrow> 'm \<times> 'r"
  assumes step_sim: "represents s m \<Longrightarrow> ok s c \<Longrightarrow>
    \<exists>s'. step s c = Inr (s', snd (spec m c)) \<and> represents s' (fst (spec m c))"
begin

lemma run_sim:
  "represents s m \<Longrightarrow> run_allowed ok step s cs \<Longrightarrow>
   \<exists>s'. run_ops step s cs = Inr (s', snd (run_spec spec m cs)) \<and> represents s' (fst (run_spec spec m cs))"
proof (induction cs arbitrary: s m)
  case Nil
  then show ?case by simp
next
  case (Cons c cs)
  obtain s1 where s1: "step s c = Inr (s1, snd (spec m c))" "represents s1 (fst (spec m c))"
    using step_sim Cons.prems by fastforce
  moreover have "run_allowed ok step s1 cs" using Cons.prems(2) s1(1) by simp
  ultimately show ?case using Cons.IH by (fastforce split: prod.split)
qed

end

end
