(* ===== verification/CString.thy ===== *)
theory CString
  imports Prelude
begin

text \<open>
  The string functions of the C library that the components call, on two
  representations: a \<open>string\<close> is the text a \<open>const char *\<close> points to, without
  its terminator, and a \<open>char list\<close> used as memory is the cells from a pointer to the
  end of its array.  Reading or writing past the end of the array is a fault.
\<close>

abbreviation NUL :: char where "NUL \<equiv> CHR 0x00"

definition is_cstr :: "string \<Rightarrow> bool" where
  "is_cstr s \<longleftrightarrow> NUL \<notin> set s"

lemma is_cstr_simps [simp]:
  "is_cstr []"
  "is_cstr (c # s) \<longleftrightarrow> c \<noteq> NUL \<and> is_cstr s"
  "is_cstr (s @ t) \<longleftrightarrow> is_cstr s \<and> is_cstr t"
  by (auto simp add: is_cstr_def)

section \<open>Strings in memory\<close>

text \<open>The text at a pointer: the cells before the first terminator.\<close>

fun c_str :: "char list \<Rightarrow> string res" where
  "c_str [] = Inl OutOfBounds"
| "c_str (c # cs) =
     (if c = NUL then Inr [] else bind_res (c_str cs) (\<lambda>s. Inr (c # s)))"

text \<open>What a function that looks at no more than \<open>n\<close> bytes of its source reads.\<close>

fun c_str_n :: "nat \<Rightarrow> char list \<Rightarrow> string res" where
  "c_str_n 0 m = Inr []"
| "c_str_n (Suc n) [] = Inl OutOfBounds"
| "c_str_n (Suc n) (c # cs) =
     (if c = NUL then Inr [] else bind_res (c_str_n n cs) (\<lambda>s. Inr (c # s)))"

lemma c_str_n_c_str: "c_str m = Inr s \<Longrightarrow> c_str_n n m = Inr (take n s)"
  by (induction n m arbitrary: s rule: c_str_n.induct) (auto simp add: bind_res_eq_Inr split: if_splits)

lemma c_str_append_NUL [simp]: "is_cstr s \<Longrightarrow> c_str (s @ NUL # m) = Inr s"
  by (induction s) auto

lemma c_str_eq_Inr:
  "c_str m = Inr s \<longleftrightarrow> is_cstr s \<and> (\<exists>r. m = s @ NUL # r)"
proof (induction m arbitrary: s)
  case Nil
  then show ?case by simp
next
  case (Cons c m)
  show ?case
  proof (cases s)
    case Nil
    then show ?thesis by (auto simp add: bind_res_eq_Inr)
  next
    case (Cons a s')
    then show ?thesis using Cons.IH [of s'] by (auto simp add: bind_res_eq_Inr)
  qed
qed

definition has_NUL :: "char list \<Rightarrow> bool" where
  "has_NUL m \<longleftrightarrow> NUL \<in> set m"

lemma has_NUL_simps [simp]:
  "\<not> has_NUL []" "has_NUL (c # m) \<longleftrightarrow> c = NUL \<or> has_NUL m"
  "has_NUL (m @ m') \<longleftrightarrow> has_NUL m \<or> has_NUL m'"
  by (auto simp add: has_NUL_def)

lemma c_str_total: "has_NUL m \<longleftrightarrow> (\<exists>s. c_str m = Inr s)"
  by (induction m) (auto simp add: bind_res_eq_Inr)

definition text_of :: "char list \<Rightarrow> string" where
  "text_of m = takeWhile (\<lambda>c. c \<noteq> NUL) m"

lemma c_str_text_of [simp]: "has_NUL m \<Longrightarrow> c_str m = Inr (text_of m)"
  by (induction m) (auto simp add: text_of_def)

lemma text_of_append_NUL [simp]: "is_cstr s \<Longrightarrow> text_of (s @ NUL # m) = s"
  by (induction s) (auto simp add: text_of_def)

lemma is_cstr_text_of [simp]: "is_cstr (text_of m)"
  by (auto simp add: text_of_def is_cstr_def dest: set_takeWhileD)

section \<open>Copying\<close>

definition strcpy_buf :: "char list \<Rightarrow> string \<Rightarrow> char list res" where
  "strcpy_buf dst s =
     (if length s < length dst then Inr (s @ NUL # drop (Suc (length s)) dst)
      else Inl BufferOverflow)"

lemma strcpy_buf_eq_Inr:
  "strcpy_buf dst s = Inr d \<longleftrightarrow>
     length s < length dst \<and> d = s @ NUL # drop (Suc (length s)) dst"
  by (auto simp add: strcpy_buf_def)

lemma strcpy_buf_length: "strcpy_buf dst s = Inr d \<Longrightarrow> length d = length dst"
  by (auto simp add: strcpy_buf_eq_Inr)

lemma strcpy_buf_c_str: "strcpy_buf dst s = Inr d \<Longrightarrow> is_cstr s \<Longrightarrow> c_str d = Inr s"
  by (auto simp add: strcpy_buf_eq_Inr)

text \<open>\<open>strncpy\<close> copies at most \<open>n\<close> characters and pads with terminators; it writes no
  terminator when the text fills all \<open>n\<close> cells.\<close>

definition strncpy_buf :: "char list \<Rightarrow> string \<Rightarrow> nat \<Rightarrow> char list res" where
  "strncpy_buf dst s n =
     (if n \<le> length dst then Inr (take n (s @ replicate n NUL) @ drop n dst)
      else Inl BufferOverflow)"

lemma strncpy_buf_take [simp]: "strncpy_buf dst (take n s) n = strncpy_buf dst s n"
  by (cases "n \<le> length s") (simp_all add: strncpy_buf_def min_def)

text \<open>\<open>sprintf\<close> of a formatted text and its bounded form; the text is the whole
  formatted output.\<close>

definition sprintf_buf :: "char list \<Rightarrow> string \<Rightarrow> char list res" where
  "sprintf_buf dst s = strcpy_buf dst s"

definition snprintf_buf :: "char list \<Rightarrow> nat \<Rightarrow> string \<Rightarrow> char list res" where
  "snprintf_buf dst n s =
     (if n = 0 then Inr dst
      else if n \<le> length dst then
        Inr (take (n - 1) s @ NUL # drop (Suc (min (n - 1) (length s))) dst)
      else Inl BufferOverflow)"

lemma snprintf_buf_c_str:
  assumes "0 < n" "n \<le> length dst" "is_cstr s"
  shows "\<exists>d. snprintf_buf dst n s = Inr d \<and> length d = length dst \<and>
             c_str d = Inr (take (n - 1) s)"
proof -
  have "is_cstr (take (n - 1) s)"
    using assms(3) by (auto simp add: is_cstr_def dest: in_set_takeD)
  then show ?thesis
    using assms(1,2) by (auto simp add: snprintf_buf_def min_def)
qed

section \<open>Comparing\<close>

definition uchar :: "char \<Rightarrow> int" where
  "uchar c = int (of_char c)"

lemma uchar_bounds: "0 \<le> uchar c" "uchar c < 256"
  by (simp_all add: uchar_def)

lemma uchar_inject [simp]: "uchar a = uchar b \<longleftrightarrow> a = b"
  by (simp add: uchar_def)

lemma uchar_eq_0 [simp]: "uchar c = 0 \<longleftrightarrow> c = NUL"
proof -
  have "uchar c = uchar NUL \<longleftrightarrow> c = NUL" by (rule uchar_inject)
  then show ?thesis by (simp add: uchar_def)
qed

text \<open>\<open>strcmp\<close> of memory against a text, and of two texts.\<close>

fun strcmp_mem :: "char list \<Rightarrow> string \<Rightarrow> int res" where
  "strcmp_mem [] t = Inl OutOfBounds"
| "strcmp_mem (a # m) [] = Inr (uchar a)"
| "strcmp_mem (a # m) (b # t) =
     (if a = b then strcmp_mem m t else Inr (uchar a - uchar b))"

fun strcmp :: "string \<Rightarrow> string \<Rightarrow> int" where
  "strcmp [] [] = 0"
| "strcmp [] (b # t) = - uchar b"
| "strcmp (a # s) [] = uchar a"
| "strcmp (a # s) (b # t) = (if a = b then strcmp s t else uchar a - uchar b)"

lemma strcmp_eq_0 [simp]: "is_cstr s \<Longrightarrow> is_cstr t \<Longrightarrow> strcmp s t = 0 \<longleftrightarrow> s = t"
  by (induction s t rule: strcmp.induct) auto

lemma strcmp_mem_text:
  "is_cstr s \<Longrightarrow> is_cstr t \<Longrightarrow> strcmp_mem (s @ NUL # m) t = Inr (strcmp s t)"
  by (induction s t rule: strcmp.induct) (auto simp add: uchar_def)

lemma strcmp_mem_c_str:
  "c_str m = Inr s \<Longrightarrow> is_cstr t \<Longrightarrow> strcmp_mem m t = Inr (strcmp s t)"
  by (auto simp add: c_str_eq_Inr strcmp_mem_text)

lemma strcmp_mem_text_of:
  "has_NUL m \<Longrightarrow> is_cstr t \<Longrightarrow> strcmp_mem m t = Inr (strcmp (text_of m) t)"
  by (simp add: strcmp_mem_c_str)

section \<open>Tokens\<close>

text \<open>\<open>strtok\<close> with a one-character delimiter set.  Its hidden pointer is the memory
  from the saved position to the end of the array, or \<open>None\<close> when it is null.\<close>

fun strspn_mem :: "char \<Rightarrow> char list \<Rightarrow> char list res" where
  "strspn_mem d [] = Inl OutOfBounds"
| "strspn_mem d (c # m) = (if c = d then strspn_mem d m else Inr (c # m))"

fun strcspn_mem :: "char \<Rightarrow> char list \<Rightarrow> (string \<times> char \<times> char list) res" where
  "strcspn_mem d [] = Inl OutOfBounds"
| "strcspn_mem d (c # m) =
     (if c = d \<or> c = NUL then Inr ([], c, m)
      else bind_res (strcspn_mem d m) (\<lambda>(t, e, r). Inr (c # t, e, r)))"

definition strtok ::
  "char list option \<Rightarrow> char \<Rightarrow> (string option \<times> char list option) res" where
  "strtok p d =
     (case p of
        None \<Rightarrow> Inr (None, None)
      | Some m \<Rightarrow>
          bind_res (strspn_mem d m) (\<lambda>r.
            if hd r = NUL then Inr (None, None)
            else bind_res (strcspn_mem d r) (\<lambda>(t, e, q).
              Inr (Some t, if e = NUL then None else Some q))))"

definition tok_free :: "char \<Rightarrow> string \<Rightarrow> bool" where
  "tok_free d t \<longleftrightarrow> t \<noteq> [] \<and> d \<notin> set t \<and> NUL \<notin> set t"

lemma strspn_mem_tok [simp]: "tok_free d t \<Longrightarrow> strspn_mem d (t @ m) = Inr (t @ m)"
  by (cases t) (auto simp add: tok_free_def)

lemma strcspn_mem_stop:
  "d \<notin> set t \<Longrightarrow> NUL \<notin> set t \<Longrightarrow> e = d \<or> e = NUL \<Longrightarrow>
   strcspn_mem d (t @ e # m) = Inr (t, e, m)"
  by (induction t) auto

lemma tok_free_hd: "tok_free d t \<Longrightarrow> hd (t @ m) \<noteq> NUL"
  by (cases t) (auto simp add: tok_free_def)

lemma strtok_delim:
  "tok_free d t \<Longrightarrow> d \<noteq> NUL \<Longrightarrow> strtok (Some (t @ d # m)) d = Inr (Some t, Some m)"
  using tok_free_hd [of d t "d # m"]
  by (simp add: strtok_def strcspn_mem_stop tok_free_def)

lemma strtok_last:
  "tok_free d t \<Longrightarrow> strtok (Some (t @ NUL # m)) d = Inr (Some t, None)"
  using tok_free_hd [of d t "NUL # m"]
  by (simp add: strtok_def strcspn_mem_stop tok_free_def)

lemma strtok_null [simp]: "strtok None d = Inr (None, None)"
  by (simp add: strtok_def)

lemma strtok_end [simp]: "d \<noteq> NUL \<Longrightarrow> strtok (Some (NUL # m)) d = Inr (None, None)"
  by (simp add: strtok_def)

text \<open>Tokenising memory that holds a terminator never runs off its end, and what it
  saves still holds one.\<close>

lemma strspn_mem_has_NUL:
  assumes "has_NUL m" "d \<noteq> NUL"
  shows "\<exists>r. strspn_mem d m = Inr r \<and> has_NUL r \<and> r \<noteq> []"
  using assms by (induction m) auto

lemma strcspn_mem_has_NUL:
  assumes "has_NUL m"
  shows "\<exists>t e r. strcspn_mem d m = Inr (t, e, r) \<and> (e = NUL \<or> has_NUL r) \<and>
           d \<notin> set t \<and> NUL \<notin> set t"
  using assms by (induction m) force+

lemma strtok_has_NUL:
  assumes "\<And>m. p = Some m \<Longrightarrow> has_NUL m" and "d \<noteq> NUL"
  shows "\<exists>t q. strtok p d = Inr (t, q) \<and> (\<forall>m. q = Some m \<longrightarrow> has_NUL m) \<and>
           (\<forall>s. t = Some s \<longrightarrow> is_cstr s)"
proof (cases p)
  case None
  then show ?thesis by simp
next
  case (Some m)
  with assms have "has_NUL m" by simp
  then obtain r where r: "strspn_mem d m = Inr r" "has_NUL r" "r \<noteq> []"
    using strspn_mem_has_NUL assms(2) by blast
  obtain t e q where t: "strcspn_mem d r = Inr (t, e, q)" "e = NUL \<or> has_NUL q" "NUL \<notin> set t"
    using strcspn_mem_has_NUL [OF r(2)] by blast
  show ?thesis
    using Some r t by (auto simp add: strtok_def is_cstr_def)
qed

section \<open>Decimal numbers\<close>

definition digit_char :: "nat \<Rightarrow> char" where
  "digit_char d = char_of (48 + d)"

definition is_digit :: "char \<Rightarrow> bool" where
  "is_digit c \<longleftrightarrow> 48 \<le> uchar c \<and> uchar c \<le> 57"

definition digit_val :: "char \<Rightarrow> int" where
  "digit_val c = uchar c - 48"

text \<open>\<open>%d\<close> of \<open>printf\<close>.\<close>

fun dec_nat :: "nat \<Rightarrow> string" where
  "dec_nat n = (if n < 10 then [digit_char n] else dec_nat (n div 10) @ [digit_char (n mod 10)])"

declare dec_nat.simps [simp del]

definition dec_int :: "int \<Rightarrow> string" where
  "dec_int x = (if x < 0 then CHR ''-'' # dec_nat (nat (- x)) else dec_nat (nat x))"

text \<open>\<open>atoi\<close>: white space, an optional sign, digits up to the first other character.
  The C standard leaves a value outside \<open>int\<close> undefined.\<close>

definition is_space :: "char \<Rightarrow> bool" where
  "is_space c \<longleftrightarrow> c = CHR '' '' \<or> (9 \<le> uchar c \<and> uchar c \<le> 13)"

fun digits_val :: "int \<Rightarrow> string \<Rightarrow> int" where
  "digits_val n [] = n"
| "digits_val n (c # s) = (if is_digit c then digits_val (10 * n + digit_val c) s else n)"

definition atoi :: "string \<Rightarrow> int res" where
  "atoi s =
     (case dropWhile is_space s of
        [] \<Rightarrow> Inr 0
      | c # t \<Rightarrow>
          to_int (if c = CHR ''-'' then - digits_val 0 t
                  else if c = CHR ''+'' then digits_val 0 t
                  else digits_val 0 (c # t)))"

lemma uchar_digit_char [simp]: "d < 10 \<Longrightarrow> uchar (digit_char d) = 48 + int d"
  by (simp add: uchar_def digit_char_def)

lemma is_digit_digit_char [simp]: "d < 10 \<Longrightarrow> is_digit (digit_char d)"
  by (simp add: is_digit_def)

lemma digit_val_digit_char [simp]: "d < 10 \<Longrightarrow> digit_val (digit_char d) = int d"
  by (simp add: digit_val_def)

lemma digits_val_append:
  "\<forall>c\<in>set s. is_digit c \<Longrightarrow> digits_val n (s @ t) = digits_val (digits_val n s) t"
  by (induction s arbitrary: n) auto

lemma dec_nat_digits: "\<forall>c\<in>set (dec_nat n). is_digit c"
proof (induction n rule: dec_nat.induct)
  case (1 n)
  then show ?case by (subst dec_nat.simps) auto
qed

lemma dec_nat_nonempty [simp]: "dec_nat n \<noteq> []"
  by (subst dec_nat.simps) simp

lemma digits_val_dec_nat: "digits_val 0 (dec_nat n) = int n"
proof (induction n rule: dec_nat.induct)
  case (1 n)
  show ?case
  proof (cases "n < 10")
    case True
    then show ?thesis by (subst dec_nat.simps) simp
  next
    case False
    with 1 have "digits_val 0 (dec_nat (n div 10)) = int (n div 10)" by simp
    moreover have "10 * int (n div 10) + int (n mod 10) = int n"
      by (simp add: zdiv_int zmod_int)
    ultimately show ?thesis using False
      by (subst dec_nat.simps) (simp add: digits_val_append dec_nat_digits)
  qed
qed

lemma is_digit_not:
  assumes "is_digit c"
  shows "\<not> is_space c" "c \<noteq> CHR ''-''" "c \<noteq> CHR ''+''" "c \<noteq> NUL" "c \<noteq> CHR '' ''" "c \<noteq> CHR 0x27"
  using assms by (auto simp add: is_digit_def is_space_def uchar_def)

lemma dec_nat_Cons: "\<exists>c s. dec_nat n = c # s \<and> is_digit c"
  using dec_nat_digits [of n] by (cases "dec_nat n") auto

lemma atoi_dec_int: "int_ok x \<Longrightarrow> atoi (dec_int x) = Inr x"
proof (cases "x < 0")
  case True
  assume "int_ok x"
  have "\<not> is_space (CHR ''-'')" by (simp add: is_space_def uchar_def)
  with True \<open>int_ok x\<close> show ?thesis
    by (simp add: atoi_def dec_int_def digits_val_dec_nat)
next
  case False
  assume "int_ok x"
  obtain c s where c: "dec_nat (nat x) = c # s" "is_digit c"
    using dec_nat_Cons by blast
  have "digits_val 0 (c # s) = x"
    using digits_val_dec_nat [of "nat x"] c(1) False by simp
  with c False \<open>int_ok x\<close> show ?thesis
    by (simp add: atoi_def dec_int_def is_digit_not)
qed

lemma dec_int_chars: "c \<in> set (dec_int x) \<Longrightarrow> is_digit c \<or> c = CHR ''-''"
  using dec_nat_digits by (auto simp add: dec_int_def split: if_splits)

lemma dec_int_nonempty [simp]: "dec_int x \<noteq> []"
  by (simp add: dec_int_def)

lemma is_cstr_dec_int [simp]: "is_cstr (dec_int x)"
  using dec_int_chars [of NUL x] by (auto simp add: is_cstr_def is_digit_def uchar_def)

lemma dec_nat_length: "n < 10 ^ k \<Longrightarrow> 0 < k \<Longrightarrow> length (dec_nat n) \<le> k"
proof (induction n arbitrary: k rule: dec_nat.induct)
  case (1 n)
  show ?case
  proof (cases "n < 10")
    case True
    with 1 show ?thesis by (subst dec_nat.simps) simp
  next
    case False
    with "1.prems" obtain k' where k': "k = Suc k'" "0 < k'"
      by (cases k; cases "k - 1") auto
    with "1.prems" have "n div 10 < 10 ^ k'" by (simp add: less_mult_imp_div_less mult.commute)
    with "1.IH" [of k'] False k' show ?thesis by (subst dec_nat.simps) simp
  qed
qed

lemma dec_int_length:
  assumes "int_ok x"
  shows "length (dec_int x) \<le> 11"
proof -
  have "nat (- x) < 10 ^ 10" "nat x < 10 ^ 10" using assms by (auto simp add: int_range_defs)
  then have "length (dec_nat (nat (- x))) \<le> 10" "length (dec_nat (nat x)) \<le> 10"
    by (simp_all add: dec_nat_length)
  then show ?thesis by (simp add: dec_int_def)
qed

end
