(* ===== verification/AuthServer.thy ===== *)
theory AuthServer
  imports CString
begin

text \<open>
  The authentication server, components/AuthServer/src/auth.c: a table of at most 50
  users, each a pair of 32-byte buffers, and a counter that every successful login
  advances and returns as the session token.
\<close>

section \<open>State and operations\<close>

definition MAX_USERS :: int where "MAX_USERS = 50"

record user_record =
  ur_user :: "char list"
  ur_pin :: "char list"

record auth_state =
  users :: "user_record list"
  num_users :: int
  next_token_id :: int

text \<open>The static initialisers: a zeroed table, no user, the counter at 1000.\<close>

definition empty_record :: user_record where
  "empty_record = \<lparr>ur_user = replicate 32 NUL, ur_pin = replicate 32 NUL\<rparr>"

definition auth_init :: auth_state where
  "auth_init = \<lparr>users = replicate (nat MAX_USERS) empty_record, num_users = 0,
                next_token_id = 1000\<rparr>"

definition auth_register_user ::
  "auth_state \<Rightarrow> string \<Rightarrow> string \<Rightarrow> (auth_state \<times> int) res" where
  "auth_register_user st user pin =
     (if num_users st \<ge> MAX_USERS then Inr (st, -1)
      else bind_res (nth_res (users st) (nat (num_users st))) (\<lambda>r.
        bind_res (strcpy_buf (ur_user r) user) (\<lambda>ub.
        bind_res (strcpy_buf (ur_pin r) pin) (\<lambda>pb.
        bind_res (upd_res (users st) (nat (num_users st)) (r\<lparr>ur_user := ub, ur_pin := pb\<rparr>)) (\<lambda>us.
        bind_res (add_int (num_users st) 1) (\<lambda>n.
          Inr (st\<lparr>users := us, num_users := n\<rparr>, 0)))))))"

text \<open>The loop of \<open>auth_login\<close>: whether some record in \<open>i..<n\<close> matches.\<close>

function login_scan :: "user_record list \<Rightarrow> nat \<Rightarrow> nat \<Rightarrow> string \<Rightarrow> string \<Rightarrow> bool res" where
  "login_scan us i n user pin =
     (if i < n then
        bind_res (nth_res us i) (\<lambda>r.
        bind_res (strcmp_mem (ur_user r) user) (\<lambda>cu.
          if cu = 0 then
            bind_res (strcmp_mem (ur_pin r) pin) (\<lambda>cp.
              if cp = 0 then Inr True else login_scan us (Suc i) n user pin)
          else login_scan us (Suc i) n user pin))
      else Inr False)"
  by pat_completeness auto
termination
  by (relation "measure (\<lambda>(us, i, n, user, pin). n - i)") auto

declare login_scan.simps [simp del]

definition auth_login ::
  "auth_state \<Rightarrow> string \<Rightarrow> string \<Rightarrow> (auth_state \<times> int) res" where
  "auth_login st user pin =
     bind_res (login_scan (users st) 0 (nat (num_users st)) user pin) (\<lambda>found.
       if found then
         bind_res (add_int (next_token_id st) 1) (\<lambda>t. Inr (st\<lparr>next_token_id := t\<rparr>, t))
       else Inr (st, -1))"

section \<open>Invariant and abstraction\<close>

definition record_ok :: "user_record \<Rightarrow> bool" where
  "record_ok r \<longleftrightarrow>
     length (ur_user r) = 32 \<and> length (ur_pin r) = 32 \<and> has_NUL (ur_user r) \<and> has_NUL (ur_pin r)"

definition auth_inv :: "auth_state \<Rightarrow> bool" where
  "auth_inv st \<longleftrightarrow>
     length (users st) = nat MAX_USERS \<and> (\<forall>r\<in>set (users st). record_ok r) \<and>
     0 \<le> num_users st \<and> num_users st \<le> MAX_USERS \<and>
     1000 \<le> next_token_id st \<and> int_ok (next_token_id st)"

definition cred :: "user_record \<Rightarrow> string \<times> string" where
  "cred r = (text_of (ur_user r), text_of (ur_pin r))"

text \<open>The credentials the table holds, oldest first.\<close>

definition creds :: "auth_state \<Rightarrow> (string \<times> string) list" where
  "creds st = map cred (take (nat (num_users st)) (users st))"

text \<open>A text that fits one of the 32-byte buffers.\<close>

definition fits32 :: "string \<Rightarrow> bool" where
  "fits32 s \<longleftrightarrow> is_cstr s \<and> length s < 32"

section \<open>Correctness of the operations\<close>

lemma auth_inv_init [inv_intros]: "auth_inv auth_init"
  by (simp add: auth_inv_def auth_init_def MAX_USERS_def record_ok_def empty_record_def
      int_range_defs has_NUL_def)

lemma creds_init [simp]: "creds auth_init = []"
  by (simp add: creds_def auth_init_def)

lemma login_scan_correct:
  assumes "\<forall>r\<in>set us. record_ok r" "n \<le> length us" "is_cstr u" "is_cstr p"
  shows "login_scan us i n u p = Inr (\<exists>j. i \<le> j \<and> j < n \<and> cred (us ! j) = (u, p))"
  using assms
proof (induction us i n u p rule: login_scan.induct)
  case (1 us i n u p)
  show ?case
  proof (cases "i < n")
    case False
    then show ?thesis by (subst login_scan.simps) auto
  next
    case True
    with "1.prems" have ok: "record_ok (us ! i)" by simp
    have split: "(\<exists>j\<ge>i. j < n \<and> cred (us ! j) = (u, p)) \<longleftrightarrow>
        cred (us ! i) = (u, p) \<or> (\<exists>j\<ge>Suc i. j < n \<and> cred (us ! j) = (u, p))"
      using True by (simp add: ex_scan_step [of i])
    have next_i: "login_scan us (Suc i) n u p =
        Inr (\<exists>j. Suc i \<le> j \<and> j < n \<and> cred (us ! j) = (u, p))"
      if "cred (us ! i) \<noteq> (u, p)"
      using that "1.IH" [OF True] "1.prems" True ok
      by (cases "strcmp (text_of (ur_user (us ! i))) u = 0")
        (auto simp add: strcmp_mem_text_of record_ok_def cred_def)
    show ?thesis
    proof (cases "cred (us ! i) = (u, p)")
      case hit: True
      have "login_scan us i n u p = Inr True"
        using hit True "1.prems" ok
        by (subst login_scan.simps) (simp add: strcmp_mem_text_of record_ok_def cred_def)
      with split hit show ?thesis by simp
    next
      case miss: False
      have "login_scan us i n u p = login_scan us (Suc i) n u p"
        using miss True "1.prems" ok
        by (subst login_scan.simps) (auto simp add: strcmp_mem_text_of record_ok_def cred_def)
      with split miss next_i show ?thesis by simp
    qed
  qed
qed

lemma login_scan_creds:
  assumes "auth_inv st" "is_cstr u" "is_cstr p"
  shows "login_scan (users st) 0 (nat (num_users st)) u p = Inr ((u, p) \<in> set (creds st))"
proof -
  have n: "nat (num_users st) \<le> length (users st)"
    using assms(1) by (simp add: auth_inv_def nat_mono)
  have "(u, p) \<in> set (creds st) \<longleftrightarrow>
      (\<exists>j. j < nat (num_users st) \<and> cred (users st ! j) = (u, p))"
    using n by (force simp add: creds_def in_set_conv_nth image_iff)
  then show ?thesis
    using assms n by (simp add: login_scan_correct auth_inv_def)
qed

text \<open>Every branch of registration.\<close>

lemma register_full:
  "MAX_USERS \<le> num_users st \<Longrightarrow> auth_register_user st u p = Inr (st, -1)"
  by (simp add: auth_register_user_def)

lemma register_step:
  assumes "auth_inv st" "num_users st < MAX_USERS"
  defines "k \<equiv> nat (num_users st)"
  shows "auth_register_user st u p =
    (if length u < 32 \<and> length p < 32 then
       Inr (st\<lparr>users := (users st)[k := \<lparr>ur_user = u @ NUL # drop (Suc (length u)) (ur_user (users st ! k)),
                                      ur_pin = p @ NUL # drop (Suc (length p)) (ur_pin (users st ! k))\<rparr>],
               num_users := num_users st + 1\<rparr>, 0)
     else Inl BufferOverflow)"
proof -
  have k: "k < length (users st)" and r: "record_ok (users st ! k)"
    using assms by (auto simp add: auth_inv_def k_def MAX_USERS_def)
  have n: "int_ok (num_users st + 1)"
    using assms by (simp add: auth_inv_def int_range_defs MAX_USERS_def)
  obtain ub pb where ub: "users st ! k = \<lparr>ur_user = ub, ur_pin = pb\<rparr>" by (cases "users st ! k")
  show ?thesis
    using assms(2) k r n ub
    by (auto simp add: auth_register_user_def k_def [symmetric] strcpy_buf_def record_ok_def add_int_def)
qed

lemma register_ok:
  assumes "auth_inv st" "num_users st < MAX_USERS" "fits32 u" "fits32 p"
  shows "\<exists>st'. auth_register_user st u p = Inr (st', 0) \<and> auth_inv st' \<and>
           creds st' = creds st @ [(u, p)] \<and> next_token_id st' = next_token_id st"
proof -
  define k where "k = nat (num_users st)"
  define r where "r = \<lparr>ur_user = u @ NUL # drop (Suc (length u)) (ur_user (users st ! k)),
                       ur_pin = p @ NUL # drop (Suc (length p)) (ur_pin (users st ! k))\<rparr>"
  have k: "k < length (users st)" "nat (num_users st + 1) = Suc k"
    using assms(1,2) by (auto simp add: auth_inv_def k_def MAX_USERS_def)
  have old: "record_ok (users st ! k)"
    using assms(1) k by (simp add: auth_inv_def)
  have r: "record_ok r" "cred r = (u, p)"
    using old assms(3,4) by (auto simp add: r_def record_ok_def cred_def fits32_def)
  let ?st' = "st\<lparr>users := (users st)[k := r], num_users := num_users st + 1\<rparr>"
  have "auth_register_user st u p = Inr (?st', 0)"
    using register_step [OF assms(1,2)] assms(3,4) by (simp add: fits32_def k_def r_def)
  moreover have "auth_inv ?st'"
    using assms(1,2) r(1) set_update_subset_insert [of "users st" k r]
    by (auto simp add: auth_inv_def)
  moreover have "creds ?st' = creds st @ [(u, p)]"
    using k r(2) by (simp add: creds_def k_def [symmetric] take_Suc_conv_snoc)
  ultimately show ?thesis by auto
qed

text \<open>Every branch of login.\<close>

lemma login_eq:
  assumes "auth_inv st" "is_cstr u" "is_cstr p"
  shows "auth_login st u p =
    (if (u, p) \<in> set (creds st) then
       if next_token_id st = INT_MAX then Inl SignedOverflow
       else Inr (st\<lparr>next_token_id := next_token_id st + 1\<rparr>, next_token_id st + 1)
     else Inr (st, -1))"
  using assms(1)
  by (auto simp add: auth_login_def login_scan_creds [OF assms] add_int_def to_int_def
      auth_inv_def int_range_defs)

lemma auth_inv_token [inv_intros]:
  "auth_inv st \<Longrightarrow> next_token_id st \<le> t \<Longrightarrow> int_ok t \<Longrightarrow> auth_inv (st\<lparr>next_token_id := t\<rparr>)"
  by (simp add: auth_inv_def)

lemma creds_token [simp]: "creds (st\<lparr>next_token_id := t\<rparr>) = creds st"
  by (simp add: creds_def)

lemma creds_length: "auth_inv st \<Longrightarrow> int (length (creds st)) = num_users st"
  by (auto simp add: creds_def auth_inv_def MAX_USERS_def)

section \<open>The contract of the service\<close>

text \<open>What a client of the \<open>Auth\<close> RPC interface may rely on, over any provider: the
  credential list grows by what is registered, a login succeeds exactly on a registered
  pair, and the token is the advanced counter.\<close>

datatype auth_op = Register string string | Login string string

type_synonym 's auth_call = "'s \<Rightarrow> string \<Rightarrow> string \<Rightarrow> ('s \<times> int) res"

fun auth_step :: "'s auth_call \<Rightarrow> 's auth_call \<Rightarrow> 's \<Rightarrow> auth_op \<Rightarrow> ('s \<times> int) res" where
  "auth_step reg log s (Register u p) = reg s u p"
| "auth_step reg log s (Login u p) = log s u p"

fun auth_run :: "'s auth_call \<Rightarrow> 's auth_call \<Rightarrow> 's \<Rightarrow> auth_op list \<Rightarrow> ('s \<times> int list) res" where
  "auth_run reg log s [] = Inr (s, [])"
| "auth_run reg log s (x # xs) =
     bind_res (auth_step reg log s x) (\<lambda>(s', r).
     bind_res (auth_run reg log s' xs) (\<lambda>(s'', rs). Inr (s'', r # rs)))"

fun op_fits :: "auth_op \<Rightarrow> bool" where
  "op_fits (Register u p) \<longleftrightarrow> fits32 u \<and> fits32 p"
| "op_fits (Login u p) \<longleftrightarrow> is_cstr u \<and> is_cstr p"

fun is_login :: "auth_op \<Rightarrow> bool" where
  "is_login (Login u p) \<longleftrightarrow> True"
| "is_login (Register u p) \<longleftrightarrow> False"

text \<open>The tokens a run hands out: the results of its logins that did not fail.\<close>

definition issued_tokens :: "auth_op list \<Rightarrow> int list \<Rightarrow> int list" where
  "issued_tokens xs rs = map snd (filter (\<lambda>(x, r). is_login x \<and> r \<noteq> -1) (zip xs rs))"

lemma issued_tokens_simps [simp]:
  "issued_tokens [] rs = []"
  "issued_tokens (x # xs) (r # rs) =
     (if is_login x \<and> r \<noteq> -1 then r # issued_tokens xs rs else issued_tokens xs rs)"
  by (simp_all add: issued_tokens_def)

text \<open>The abstract service: the registered pairs in order and the last token.\<close>

type_synonym auth_spec = "(string \<times> string) list \<times> int"

fun spec_step :: "nat \<Rightarrow> auth_spec \<Rightarrow> auth_op \<Rightarrow> auth_spec \<times> int" where
  "spec_step cap (cs, n) (Register u p) =
     (if cap \<le> length cs then ((cs, n), -1) else ((cs @ [(u, p)], n), 0))"
| "spec_step cap (cs, n) (Login u p) =
     (if (u, p) \<in> set cs then ((cs, n + 1), n + 1) else ((cs, n), -1))"

fun spec_run :: "nat \<Rightarrow> auth_spec \<Rightarrow> auth_op list \<Rightarrow> auth_spec \<times> int list" where
  "spec_run cap a [] = (a, [])"
| "spec_run cap a (x # xs) =
     (let (a', r) = spec_step cap a x; (a'', rs) = spec_run cap a' xs in (a'', r # rs))"

text \<open>Facts about the abstract service, independent of any provider.\<close>

lemma spec_step_mono:
  "spec_step cap (cs, n) x = ((cs', n'), r) \<Longrightarrow>
     n \<le> n' \<and> (\<exists>zs. cs' = cs @ zs) \<and> (is_login x \<and> r \<noteq> -1 \<longrightarrow> n < r \<and> r \<le> n')"
  by (cases x) (auto split: if_splits)

lemma spec_run_tokens:
  "spec_run cap (cs, n) xs = ((cs', n'), rs) \<Longrightarrow>
     n \<le> n' \<and> (\<exists>zs. cs' = cs @ zs) \<and> length rs = length xs \<and>
     sorted_wrt (<) (issued_tokens xs rs) \<and>
     (\<forall>t\<in>set (issued_tokens xs rs). n < t \<and> t \<le> n')"
proof (induction xs arbitrary: cs n rs cs' n')
  case Nil
  then show ?case by simp
next
  case (Cons x xs)
  obtain c1 n1 r where 1: "spec_step cap (cs, n) x = ((c1, n1), r)"
    by (metis surj_pair)
  obtain c2 n2 rs' where 2: "spec_run cap (c1, n1) xs = ((c2, n2), rs')"
    by (metis surj_pair)
  have eq: "c2 = cs'" "n2 = n'" "rs = r # rs'" using Cons.prems 1 2 by simp_all
  note ih = Cons.IH [OF 2]
  note st = spec_step_mono [OF 1]
  have "sorted_wrt (<) (issued_tokens (x # xs) rs)" using ih st eq by auto
  moreover have "\<forall>t\<in>set (issued_tokens (x # xs) rs). n < t \<and> t \<le> n'"
    using ih st eq by auto
  moreover have "\<exists>zs. cs' = cs @ zs" using ih st eq by auto
  ultimately show ?case using ih st eq by simp
qed

locale auth_service =
  fixes inv :: "'s \<Rightarrow> bool"
    and reg :: "'s auth_call"
    and log :: "'s auth_call"
    and held :: "'s \<Rightarrow> (string \<times> string) list"
    and counter :: "'s \<Rightarrow> int"
    and capacity :: nat
  assumes reg_room: "inv s \<Longrightarrow> fits32 u \<Longrightarrow> fits32 p \<Longrightarrow> length (held s) < capacity \<Longrightarrow>
      \<exists>s'. reg s u p = Inr (s', 0) \<and> inv s' \<and> held s' = held s @ [(u, p)] \<and> counter s' = counter s"
    and reg_full: "inv s \<Longrightarrow> capacity \<le> length (held s) \<Longrightarrow> reg s u p = Inr (s, -1)"
    and log_hit: "inv s \<Longrightarrow> is_cstr u \<Longrightarrow> is_cstr p \<Longrightarrow> (u, p) \<in> set (held s) \<Longrightarrow>
      int_ok (counter s + 1) \<Longrightarrow>
      \<exists>s'. log s u p = Inr (s', counter s + 1) \<and> inv s' \<and> held s' = held s \<and> counter s' = counter s + 1"
    and log_miss: "inv s \<Longrightarrow> is_cstr u \<Longrightarrow> is_cstr p \<Longrightarrow> (u, p) \<notin> set (held s) \<Longrightarrow>
      log s u p = Inr (s, -1)"
    and counter_pos: "inv s \<Longrightarrow> 0 \<le> counter s \<and> int_ok (counter s)"
begin

lemma step_refines:
  assumes "inv s" "op_fits x" "int_ok (counter s + 1)"
  shows "\<exists>s' r. auth_step reg log s x = Inr (s', r) \<and> inv s' \<and>
    spec_step capacity (held s, counter s) x = ((held s', counter s'), r) \<and>
    counter s \<le> counter s' \<and> counter s' \<le> counter s + 1"
proof (cases x)
  case (Register u p)
  then show ?thesis
    using reg_room [of s u p] reg_full [of s u p] assms
    by (cases "length (held s) < capacity") force+
next
  case (Login u p)
  then show ?thesis
    using log_hit [of s u p] log_miss [of s u p] assms
    by (cases "(u, p) \<in> set (held s)") force+
qed

lemma run_refines:
  assumes "inv s" "\<forall>x\<in>set xs. op_fits x" "int_ok (counter s + int (length xs))"
  shows "\<exists>s' rs. auth_run reg log s xs = Inr (s', rs) \<and> inv s' \<and>
    spec_run capacity (held s, counter s) xs = ((held s', counter s'), rs)"
  using assms
proof (induction xs arbitrary: s)
  case Nil
  then show ?case by simp
next
  case (Cons x xs)
  then have one: "int_ok (counter s + 1)"
    using counter_pos [of s] by (auto simp add: int_range_defs)
  obtain s1 r where s1: "auth_step reg log s x = Inr (s1, r)" "inv s1"
    "spec_step capacity (held s, counter s) x = ((held s1, counter s1), r)"
    "counter s \<le> counter s1" "counter s1 \<le> counter s + 1"
    using step_refines [OF Cons.prems(1) _ one, of x] Cons.prems(2) by auto
  have "int_ok (counter s1 + int (length xs))"
    using Cons.prems(3) s1(4,5) counter_pos [OF s1(2)] by (auto simp add: int_range_defs)
  then obtain s2 rs where "auth_run reg log s1 xs = Inr (s2, rs)" "inv s2"
    "spec_run capacity (held s1, counter s1) xs = ((held s2, counter s2), rs)"
    using Cons.IH [OF s1(2)] Cons.prems(2) by auto
  then show ?case using s1 by simp
qed

end

interpretation auth_srv: auth_service auth_inv auth_register_user auth_login creds next_token_id
    "nat MAX_USERS"
proof
  fix s u p
  assume inv: "auth_inv s"
  note len = creds_length [OF inv]
  show "\<exists>s'. auth_register_user s u p = Inr (s', 0) \<and> auth_inv s' \<and>
      creds s' = creds s @ [(u, p)] \<and> next_token_id s' = next_token_id s"
    if "fits32 u" "fits32 p" "length (creds s) < nat MAX_USERS"
    using register_ok [OF inv _ that(1,2)] that(3) len by (simp add: MAX_USERS_def)
  show "auth_register_user s u p = Inr (s, -1)" if "nat MAX_USERS \<le> length (creds s)"
    using register_full that len by (simp add: MAX_USERS_def)
  show "\<exists>s'. auth_login s u p = Inr (s', next_token_id s + 1) \<and> auth_inv s' \<and>
      creds s' = creds s \<and> next_token_id s' = next_token_id s + 1"
    if "is_cstr u" "is_cstr p" "(u, p) \<in> set (creds s)" "int_ok (next_token_id s + 1)"
    using that inv by (auto simp add: login_eq int_range_defs intro: inv_intros)
  show "auth_login s u p = Inr (s, -1)"
    if "is_cstr u" "is_cstr p" "(u, p) \<notin> set (creds s)"
    using that inv by (simp add: login_eq)
  show "0 \<le> next_token_id s \<and> int_ok (next_token_id s)"
    using inv by (auto simp add: auth_inv_def)
qed

lemma auth_run_from_init:
  assumes "\<forall>x\<in>set xs. op_fits x" "length xs \<le> 2147482647"
  shows "\<exists>st rs. auth_run auth_register_user auth_login auth_init xs = Inr (st, rs) \<and>
    auth_inv st \<and> spec_run 50 ([], 1000) xs = ((creds st, next_token_id st), rs)"
proof -
  have "next_token_id auth_init = 1000" by (simp add: auth_init_def)
  then show ?thesis
    using auth_srv.run_refines [OF auth_inv_init assms(1)] assms(2)
    by (simp add: MAX_USERS_def int_range_defs)
qed

section \<open>Properties\<close>

text \<open>C4. A run of RPC calls on the server from its initial state answers exactly as the
  abstract service does: the table holds the first 50 registered pairs, a login succeeds
  exactly on a pair it holds, and no call faults, as long as every text fits its 32-byte
  buffer and the token counter stays in the range of \<open>int\<close>.\<close>

theorem auth_server_refines:
  assumes "\<forall>x\<in>set xs. op_fits x" "length xs \<le> 2147482647"
  shows "\<exists>st rs. auth_run auth_register_user auth_login auth_init xs = Inr (st, rs) \<and>
    auth_inv st \<and> spec_run 50 ([], 1000) xs = ((creds st, next_token_id st), rs)"
  using assms by (rule auth_run_from_init)

theorem auth_server_refines_witness:
  "\<exists>st rs. auth_run auth_register_user auth_login auth_init
       [Register ''alice'' ''1234'', Login ''alice'' ''1234'', Login ''alice'' ''0''] = Inr (st, rs) \<and>
    auth_inv st \<and>
    spec_run 50 ([], 1000)
       [Register ''alice'' ''1234'', Login ''alice'' ''1234'', Login ''alice'' ''0'']
     = ((creds st, next_token_id st), rs)"
  by (rule auth_server_refines) (simp_all add: fits32_def)

text \<open>The session tokens a run of the server hands out are pairwise distinct: they
  increase strictly in the order they are issued, and every one is above 1000.\<close>

theorem auth_tokens_distinct:
  assumes "\<forall>x\<in>set xs. op_fits x" "length xs \<le> 2147482647"
    and "auth_run auth_register_user auth_login auth_init xs = Inr (st, rs)"
  shows "sorted_wrt (<) (issued_tokens xs rs) \<and>
    (\<forall>t\<in>set (issued_tokens xs rs). 1000 < t \<and> t \<le> next_token_id st)"
proof -
  have "spec_run 50 ([], 1000) xs = ((creds st, next_token_id st), rs)"
    using auth_run_from_init [OF assms(1,2)] assms(3) by auto
  then show ?thesis using spec_run_tokens by blast
qed

theorem auth_tokens_distinct_witness:
  "\<exists>st rs. auth_run auth_register_user auth_login auth_init
       [Register ''bob'' ''7'', Login ''bob'' ''7'', Login ''bob'' ''7''] = Inr (st, rs) \<and>
     issued_tokens [Register ''bob'' ''7'', Login ''bob'' ''7'', Login ''bob'' ''7''] rs = [1001, 1002] \<and>
     sorted_wrt (<) (issued_tokens [Register ''bob'' ''7'', Login ''bob'' ''7'', Login ''bob'' ''7''] rs)"
proof -
  let ?xs = "[Register ''bob'' ''7'', Login ''bob'' ''7'', Login ''bob'' ''7'']"
  have fit: "\<forall>x\<in>set ?xs. op_fits x" "length ?xs \<le> 2147482647" by (simp_all add: fits32_def)
  obtain st rs where run: "auth_run auth_register_user auth_login auth_init ?xs = Inr (st, rs)"
    and spec: "spec_run 50 ([], 1000) ?xs = ((creds st, next_token_id st), rs)"
    using auth_run_from_init [OF fit] by blast
  have "rs = [0, 1001, 1002]" using spec by simp
  with run auth_tokens_distinct [OF fit run] show ?thesis by auto
qed

text \<open>Every branch of \<open>auth_register_user\<close> on a well-formed table: -1 and no change when
  50 users are registered; otherwise the pair is appended to the table and the result is 0
  when both texts fit their 32-byte buffers, and the unchecked \<open>strcpy\<close> overflows the
  buffer when one does not.\<close>

theorem auth_register_branches:
  assumes "auth_inv st" "is_cstr u" "is_cstr p"
  shows "(case auth_register_user st u p of
      Inl e \<Rightarrow> e = BufferOverflow \<and> num_users st < 50 \<and> (32 \<le> length u \<or> 32 \<le> length p)
    | Inr (st', r) \<Rightarrow>
        if num_users st = 50 then r = -1 \<and> st' = st
        else r = 0 \<and> length u < 32 \<and> length p < 32 \<and> auth_inv st' \<and>
          creds st' = creds st @ [(u, p)] \<and> next_token_id st' = next_token_id st)"
proof (cases "num_users st < MAX_USERS")
  case False
  then show ?thesis
    using register_full [of st u p] assms(1) by (simp add: auth_inv_def MAX_USERS_def)
next
  case True
  then show ?thesis
    using register_step [OF assms(1) True, of u p] register_ok [OF assms(1) True, of u p] assms(2,3)
    by (cases "length u < 32 \<and> length p < 32") (force simp add: fits32_def MAX_USERS_def)+
qed

theorem auth_register_branches_witness:
  "auth_inv auth_init \<and> (case auth_register_user auth_init (replicate 32 CHR ''a'') ''1'' of
      Inl e \<Rightarrow> e = BufferOverflow | Inr (st', r) \<Rightarrow> False)"
proof -
  have "is_cstr (replicate 32 CHR ''a'')" "is_cstr ''1''" by (simp_all add: is_cstr_def)
  note b = auth_register_branches [OF auth_inv_init this]
  show ?thesis using b auth_inv_init by (auto split: sum.splits if_splits simp add: auth_init_def)
qed

text \<open>Every branch of \<open>auth_login\<close> on a well-formed table: a registered pair advances the
  counter and gets it as its token, any other pair gets -1 and changes nothing, and the
  only fault is the overflow of the counter after the last \<open>int\<close>.\<close>

theorem auth_login_branches:
  assumes "auth_inv st" "is_cstr u" "is_cstr p"
  shows "auth_login st u p =
    (if (u, p) \<in> set (creds st) then
       if next_token_id st = INT_MAX then Inl SignedOverflow
       else Inr (st\<lparr>next_token_id := next_token_id st + 1\<rparr>, next_token_id st + 1)
     else Inr (st, -1))"
  using assms by (rule login_eq)

theorem auth_login_branches_witness:
  "auth_login auth_init ''eve'' ''x'' = Inr (auth_init, -1)"
  using auth_login_branches [OF auth_inv_init, of "''eve''" "''x''"] by simp

end
