(* ===== verification/SqliteOs.thy ===== *)
theory SqliteOs
  imports CString
begin

text \<open>
  The operating-system layer of SQLite, the part of components/Ledger/src/sqlite3.c taken
  from os.c: the method tables of an open file and of a virtual file system (VFS), the
  wrappers through which the database core calls them, and the list of registered file
  systems.  A table is a record of functions over the state \<open>'d\<close> of the device behind
  the file; a method pointer that SQLite tests for null is an \<open>option\<close>.  The build
  defines SQLITE_OMIT_WAL, SQLITE_OMIT_LOAD_EXTENSION and SQLITE_THREADSAFE=0, so the
  shared-memory and extension-loading methods and the mutexes are not compiled.
\<close>

unbundle bit_operations_syntax

section \<open>Result codes\<close>

definition SQLITE_OK :: int where "SQLITE_OK = 0"
definition SQLITE_ERROR :: int where "SQLITE_ERROR = 1"
definition SQLITE_ABORT :: int where "SQLITE_ABORT = 4"
definition SQLITE_NOMEM :: int where "SQLITE_NOMEM = 7"
definition SQLITE_IOERR :: int where "SQLITE_IOERR = 10"
definition SQLITE_NOTFOUND :: int where "SQLITE_NOTFOUND = 12"
definition SQLITE_MISUSE :: int where "SQLITE_MISUSE = 21"
definition SQLITE_ROW :: int where "SQLITE_ROW = 100"
definition SQLITE_DONE :: int where "SQLITE_DONE = 101"
definition SQLITE_IOERR_READ :: int where "SQLITE_IOERR_READ = 266"
definition SQLITE_IOERR_SHORT_READ :: int where "SQLITE_IOERR_SHORT_READ = 522"
definition SQLITE_IOERR_WRITE :: int where "SQLITE_IOERR_WRITE = 778"
definition SQLITE_DEFAULT_SECTOR_SIZE :: int where "SQLITE_DEFAULT_SECTOR_SIZE = 4096"

lemmas sqlite_codes = SQLITE_OK_def SQLITE_ERROR_def SQLITE_ABORT_def SQLITE_NOMEM_def
  SQLITE_IOERR_def SQLITE_NOTFOUND_def SQLITE_MISUSE_def SQLITE_ROW_def SQLITE_DONE_def
  SQLITE_IOERR_READ_def SQLITE_IOERR_SHORT_READ_def SQLITE_IOERR_WRITE_def

section \<open>Method tables\<close>

record 'd io_methods =
  im_iVersion :: int
  im_xClose :: "'d \<Rightarrow> 'd \<times> int"
  im_xRead :: "'d \<Rightarrow> int \<Rightarrow> int \<Rightarrow> (int \<times> u8 list option) res"
  im_xWrite :: "'d \<Rightarrow> u8 list \<Rightarrow> int \<Rightarrow> int \<Rightarrow> ('d \<times> int) res"
  im_xTruncate :: "'d \<Rightarrow> int \<Rightarrow> 'd \<times> int"
  im_xSync :: "'d \<Rightarrow> int \<Rightarrow> 'd \<times> int"
  im_xFileSize :: "'d \<Rightarrow> int \<times> int option"
  im_xLock :: "'d \<Rightarrow> int \<Rightarrow> 'd \<times> int"
  im_xUnlock :: "'d \<Rightarrow> int \<Rightarrow> 'd \<times> int"
  im_xCheckReservedLock :: "'d \<Rightarrow> int \<times> int"
  im_xFileControl :: "'d \<Rightarrow> int \<Rightarrow> int"
  im_xSectorSize :: "('d \<Rightarrow> int) option"
  im_xDeviceCharacteristics :: "'d \<Rightarrow> int"

record 'd sqlite3_file =
  pMethods :: "'d io_methods option"

text \<open>\<open>xOpen\<close> returns the device, the handle it filled in, the output flags and the code.\<close>

record 'd sqlite3_vfs =
  v_iVersion :: int
  v_szOsFile :: int
  v_mxPathname :: int
  v_zName :: string
  v_xOpen :: "'d \<Rightarrow> string option \<Rightarrow> int \<Rightarrow> 'd \<times> 'd sqlite3_file \<times> int \<times> int"
  v_xDelete :: "('d \<Rightarrow> string \<Rightarrow> int \<Rightarrow> 'd \<times> int) option"
  v_xAccess :: "'d \<Rightarrow> string \<Rightarrow> int \<Rightarrow> int \<times> int"
  v_xFullPathname :: "string \<Rightarrow> nat \<Rightarrow> int \<times> string"
  v_xRandomness :: "(int \<Rightarrow> int \<times> u8 list) option"
  v_xSleep :: "(int \<Rightarrow> int) option"
  v_xCurrentTime :: "(int \<times> int) option"
  v_xGetLastError :: "int option"
  v_xCurrentTimeInt64 :: "(int \<times> int) option"

section \<open>Wrappers around the file methods\<close>

definition file_call :: "'d sqlite3_file \<Rightarrow> ('d io_methods \<Rightarrow> 'a res) \<Rightarrow> 'a res" where
  "file_call fh f = (case pMethods fh of None \<Rightarrow> Inl NullDeref | Some m \<Rightarrow> f m)"

definition sqlite3OsClose :: "'d sqlite3_file \<Rightarrow> 'd \<Rightarrow> 'd sqlite3_file \<times> 'd" where
  "sqlite3OsClose fh st =
     (case pMethods fh of
        None \<Rightarrow> (fh, st)
      | Some m \<Rightarrow> (fh\<lparr>pMethods := None\<rparr>, fst (im_xClose m st)))"

definition sqlite3OsRead ::
  "'d sqlite3_file \<Rightarrow> 'd \<Rightarrow> int \<Rightarrow> int \<Rightarrow> (int \<times> u8 list option) res" where
  "sqlite3OsRead fh st amt offset = file_call fh (\<lambda>m. im_xRead m st amt offset)"

definition sqlite3OsWrite ::
  "'d sqlite3_file \<Rightarrow> 'd \<Rightarrow> u8 list \<Rightarrow> int \<Rightarrow> int \<Rightarrow> ('d \<times> int) res" where
  "sqlite3OsWrite fh st buf amt offset = file_call fh (\<lambda>m. im_xWrite m st buf amt offset)"

definition sqlite3OsTruncate :: "'d sqlite3_file \<Rightarrow> 'd \<Rightarrow> int \<Rightarrow> ('d \<times> int) res" where
  "sqlite3OsTruncate fh st sz = file_call fh (\<lambda>m. Inr (im_xTruncate m st sz))"

definition sqlite3OsSync :: "'d sqlite3_file \<Rightarrow> 'd \<Rightarrow> int \<Rightarrow> ('d \<times> int) res" where
  "sqlite3OsSync fh st flags =
     (if flags \<noteq> 0 then file_call fh (\<lambda>m. Inr (im_xSync m st flags)) else Inr (st, SQLITE_OK))"

definition sqlite3OsFileSize :: "'d sqlite3_file \<Rightarrow> 'd \<Rightarrow> (int \<times> int option) res" where
  "sqlite3OsFileSize fh st = file_call fh (\<lambda>m. Inr (im_xFileSize m st))"

definition sqlite3OsLock :: "'d sqlite3_file \<Rightarrow> 'd \<Rightarrow> int \<Rightarrow> ('d \<times> int) res" where
  "sqlite3OsLock fh st lockType = file_call fh (\<lambda>m. Inr (im_xLock m st lockType))"

definition sqlite3OsUnlock :: "'d sqlite3_file \<Rightarrow> 'd \<Rightarrow> int \<Rightarrow> ('d \<times> int) res" where
  "sqlite3OsUnlock fh st lockType = file_call fh (\<lambda>m. Inr (im_xUnlock m st lockType))"

definition sqlite3OsCheckReservedLock :: "'d sqlite3_file \<Rightarrow> 'd \<Rightarrow> (int \<times> int) res" where
  "sqlite3OsCheckReservedLock fh st = file_call fh (\<lambda>m. Inr (im_xCheckReservedLock m st))"

definition sqlite3OsFileControl :: "'d sqlite3_file \<Rightarrow> 'd \<Rightarrow> int \<Rightarrow> int" where
  "sqlite3OsFileControl fh st opc =
     (case pMethods fh of None \<Rightarrow> SQLITE_NOTFOUND | Some m \<Rightarrow> im_xFileControl m st opc)"

definition sqlite3OsSectorSize :: "'d sqlite3_file \<Rightarrow> 'd \<Rightarrow> int res" where
  "sqlite3OsSectorSize fh st =
     file_call fh (\<lambda>m. Inr (case im_xSectorSize m of
         None \<Rightarrow> SQLITE_DEFAULT_SECTOR_SIZE | Some f \<Rightarrow> f st))"

definition sqlite3OsDeviceCharacteristics :: "'d sqlite3_file \<Rightarrow> 'd \<Rightarrow> int" where
  "sqlite3OsDeviceCharacteristics fh st =
     (case pMethods fh of None \<Rightarrow> 0 | Some m \<Rightarrow> im_xDeviceCharacteristics m st)"

section \<open>Wrappers around the file-system methods\<close>

text \<open>The mask keeps the flags a VFS may see, bits 0 to 6, 8 to 14, 19 and 24.\<close>

definition vfs_open_mask :: "int \<Rightarrow> int" where
  "vfs_open_mask flags = uint ((word_of_int flags :: u32) AND 0x1087f7f)"

definition sqlite3OsOpen ::
  "'d sqlite3_vfs \<Rightarrow> 'd \<Rightarrow> string option \<Rightarrow> int \<Rightarrow> 'd \<times> 'd sqlite3_file \<times> int \<times> int" where
  "sqlite3OsOpen v st zPath flags = v_xOpen v st zPath (vfs_open_mask flags)"

definition sqlite3OsDelete :: "'d sqlite3_vfs \<Rightarrow> 'd \<Rightarrow> string \<Rightarrow> int \<Rightarrow> 'd \<times> int" where
  "sqlite3OsDelete v st zPath dirSync =
     (case v_xDelete v of None \<Rightarrow> (st, SQLITE_OK) | Some f \<Rightarrow> f st zPath dirSync)"

definition sqlite3OsAccess :: "'d sqlite3_vfs \<Rightarrow> 'd \<Rightarrow> string \<Rightarrow> int \<Rightarrow> int \<times> int" where
  "sqlite3OsAccess v st zPath flags = v_xAccess v st zPath flags"

definition sqlite3OsFullPathname :: "'d sqlite3_vfs \<Rightarrow> string \<Rightarrow> nat \<Rightarrow> int \<times> string" where
  "sqlite3OsFullPathname v zPath nPathOut = v_xFullPathname v zPath nPathOut"

text \<open>\<open>iPrngSeed\<close> is the test seed of the configuration, zero unless a test sets it.\<close>

definition sqlite3OsRandomness :: "u32 \<Rightarrow> 'd sqlite3_vfs \<Rightarrow> nat \<Rightarrow> (int \<times> u8 list) res" where
  "sqlite3OsRandomness iPrngSeed v nByte =
     (if iPrngSeed \<noteq> 0 then
        Inr (SQLITE_OK,
             take nByte [ucast iPrngSeed, ucast (drop_bit 8 iPrngSeed),
                         ucast (drop_bit 16 iPrngSeed), ucast (drop_bit 24 iPrngSeed)]
             @ replicate (nByte - 4) 0)
      else case v_xRandomness v of None \<Rightarrow> Inl NullDeref | Some f \<Rightarrow> Inr (f (int nByte)))"

definition sqlite3OsSleep :: "'d sqlite3_vfs \<Rightarrow> int \<Rightarrow> int res" where
  "sqlite3OsSleep v nMicro =
     (case v_xSleep v of None \<Rightarrow> Inl NullDeref | Some f \<Rightarrow> Inr (f nMicro))"

definition sqlite3OsGetLastError :: "'d sqlite3_vfs \<Rightarrow> int" where
  "sqlite3OsGetLastError v = (case v_xGetLastError v of None \<Rightarrow> 0 | Some e \<Rightarrow> e)"

text \<open>The second component of \<open>xCurrentTime\<close> is its time already scaled to milliseconds.\<close>

definition sqlite3OsCurrentTimeInt64 :: "'d sqlite3_vfs \<Rightarrow> (int \<times> int) res" where
  "sqlite3OsCurrentTimeInt64 v =
     (if v_iVersion v \<ge> 2 \<and> v_xCurrentTimeInt64 v \<noteq> None then Inr (the (v_xCurrentTimeInt64 v))
      else case v_xCurrentTime v of None \<Rightarrow> Inl NullDeref | Some r \<Rightarrow> Inr r)"

definition sqlite3OsOpenMalloc ::
  "bool \<Rightarrow> 'd sqlite3_vfs \<Rightarrow> 'd \<Rightarrow> string option \<Rightarrow> int \<Rightarrow>
   'd \<times> 'd sqlite3_file option \<times> int \<times> int" where
  "sqlite3OsOpenMalloc granted v st zFile flags =
     (if granted then
        let (st', f, outf, rc) = sqlite3OsOpen v st zFile flags
        in if rc \<noteq> SQLITE_OK then (st', None, outf, rc) else (st', Some f, outf, rc)
      else (st, None, 0, SQLITE_NOMEM))"

definition sqlite3OsCloseFree :: "'d sqlite3_file \<Rightarrow> 'd \<Rightarrow> 'd" where
  "sqlite3OsCloseFree fh st = snd (sqlite3OsClose fh st)"

section \<open>The list of registered file systems\<close>

text \<open>The list is threaded through the objects: a file system is an address, \<open>vfs_next\<close> is
  its \<open>pNext\<close> field and \<open>vfs_name\<close> its \<open>zName\<close>.  A walk of a list that closes on
  itself does not return, which is \<open>None\<close>.\<close>

record vfs_registry =
  vfsList :: "nat option"
  vfs_next :: "nat \<Rightarrow> nat option"
  vfs_name :: "nat \<Rightarrow> string"

partial_function (option) vfs_find_loop ::
  "vfs_registry \<Rightarrow> string option \<Rightarrow> nat option \<Rightarrow> nat option option" where
  "vfs_find_loop R z p =
     (case p of
        None \<Rightarrow> Some None
      | Some v \<Rightarrow>
          (case z of
             None \<Rightarrow> Some (Some v)
           | Some s \<Rightarrow>
               if strcmp s (vfs_name R v) = 0 then Some (Some v)
               else vfs_find_loop R z (vfs_next R v)))"

text \<open>\<open>init_rc\<close> is the result of \<open>sqlite3_initialize\<close>.\<close>

definition sqlite3_vfs_find :: "int \<Rightarrow> vfs_registry \<Rightarrow> string option \<Rightarrow> nat option option" where
  "sqlite3_vfs_find init_rc R zVfs =
     (if init_rc \<noteq> 0 then Some None else vfs_find_loop R zVfs (vfsList R))"

partial_function (option) vfs_unlink_loop ::
  "(nat \<Rightarrow> nat option) \<Rightarrow> nat \<Rightarrow> nat \<Rightarrow> nat option" where
  "vfs_unlink_loop nx v p =
     (case nx p of
        None \<Rightarrow> Some p
      | Some q \<Rightarrow> if q = v then Some p else vfs_unlink_loop nx v q)"

definition vfsUnlink :: "vfs_registry \<Rightarrow> nat \<Rightarrow> vfs_registry option" where
  "vfsUnlink R v =
     (if vfsList R = Some v then Some (R\<lparr>vfsList := vfs_next R v\<rparr>)
      else case vfsList R of
        None \<Rightarrow> Some R
      | Some h \<Rightarrow>
          map_option (\<lambda>p.
            if vfs_next R p = Some v then R\<lparr>vfs_next := (vfs_next R)(p := vfs_next R v)\<rparr> else R)
            (vfs_unlink_loop (vfs_next R) v h))"

definition sqlite3_vfs_register ::
  "int \<Rightarrow> vfs_registry \<Rightarrow> nat \<Rightarrow> bool \<Rightarrow> (vfs_registry \<times> int) option" where
  "sqlite3_vfs_register init_rc R v makeDflt =
     (if init_rc \<noteq> 0 then Some (R, init_rc)
      else map_option (\<lambda>R1.
        (case vfsList R1 of
           None \<Rightarrow> (R1\<lparr>vfs_next := (vfs_next R1)(v := None), vfsList := Some v\<rparr>, SQLITE_OK)
         | Some h \<Rightarrow>
             if makeDflt
             then (R1\<lparr>vfs_next := (vfs_next R1)(v := Some h), vfsList := Some v\<rparr>, SQLITE_OK)
             else (R1\<lparr>vfs_next := (vfs_next R1)(v := vfs_next R1 h, h := Some v)\<rparr>, SQLITE_OK)))
        (vfsUnlink R v))"

definition sqlite3_vfs_unregister ::
  "int \<Rightarrow> vfs_registry \<Rightarrow> nat \<Rightarrow> (vfs_registry \<times> int) option" where
  "sqlite3_vfs_unregister init_rc R v =
     (if init_rc \<noteq> 0 then Some (R, init_rc)
      else map_option (\<lambda>R1. (R1, SQLITE_OK)) (vfsUnlink R v))"

section \<open>The registry refines a list\<close>

fun chain :: "(nat \<Rightarrow> nat option) \<Rightarrow> nat option \<Rightarrow> nat list \<Rightarrow> bool" where
  "chain nx p [] \<longleftrightarrow> p = None"
| "chain nx p (x # xs) \<longleftrightarrow> p = Some x \<and> chain nx (nx x) xs"

definition reg_list :: "vfs_registry \<Rightarrow> nat list \<Rightarrow> bool" where
  "reg_list R xs \<longleftrightarrow> chain (vfs_next R) (vfsList R) xs \<and> distinct xs"

lemma chain_upd [simp]: "p \<notin> set xs \<Longrightarrow> chain (nx(p := q)) h xs = chain nx h xs"
  by (induction xs arbitrary: h) auto

lemma chain_head: "chain nx p xs \<Longrightarrow> p = (case xs of [] \<Rightarrow> None | x # _ \<Rightarrow> Some x)"
  by (cases xs) auto

lemma vfs_find_loop_chain:
  "chain (vfs_next R) p xs \<Longrightarrow>
     vfs_find_loop R z p = Some (case z of
        None \<Rightarrow> p
      | Some s \<Rightarrow> List.find (\<lambda>v. strcmp s (vfs_name R v) = 0) xs)"
proof (induction xs arbitrary: p)
  case Nil
  then show ?case by (subst vfs_find_loop.simps) (simp split: option.split)
next
  case (Cons x xs)
  then show ?case by (subst vfs_find_loop.simps) (auto split: option.split)
qed

lemma vfs_unlink_loop_chain:
  assumes "chain nx (Some h) xs" "v \<noteq> h" "distinct xs"
  shows "\<exists>p. vfs_unlink_loop nx v h = Some p \<and>
     (if v \<in> set xs then nx p = Some v \<and> p \<in> set xs \<and> p \<noteq> v \<and> chain (nx(p := nx v)) (Some h) (remove1 v xs)
      else nx p = None)"
  using assms
proof (induction xs arbitrary: h)
  case Nil
  then show ?case by simp
next
  case (Cons x xs)
  then have x: "x = h" by simp
  show ?case
  proof (cases xs)
    case Nil
    with Cons.prems x show ?thesis by (subst vfs_unlink_loop.simps) auto
  next
    case (Cons y ys)
    have nx: "nx h = Some y" using Cons.prems x Cons by simp
    show ?thesis
    proof (cases "y = v")
      case True
      then show ?thesis
        using Cons.prems x Cons nx by (subst vfs_unlink_loop.simps) (auto simp add: chain_head)
    next
      case False
      have "chain nx (Some y) xs" "v \<noteq> y" "distinct xs"
        using Cons.prems Cons nx False by auto
      from Cons.IH [OF this] obtain p where p: "vfs_unlink_loop nx v y = Some p"
        "if v \<in> set xs then nx p = Some v \<and> p \<in> set xs \<and> p \<noteq> v \<and> chain (nx(p := nx v)) (Some y) (remove1 v xs)
         else nx p = None" by blast
      have "vfs_unlink_loop nx v h = Some p"
        using p(1) nx False by (subst vfs_unlink_loop.simps) simp
      moreover have "p \<in> set xs \<Longrightarrow> p \<noteq> h" using Cons.prems x by auto
      ultimately show ?thesis
        using p(2) x nx Cons.prems by (auto split: if_splits)
    qed
  qed
qed

lemma vfsUnlink_list:
  assumes "reg_list R xs"
  shows "\<exists>R'. vfsUnlink R v = Some R' \<and> reg_list R' (remove1 v xs) \<and> vfs_name R' = vfs_name R"
proof (cases xs)
  case Nil
  then show ?thesis using assms by (simp add: vfsUnlink_def reg_list_def)
next
  case (Cons h ys)
  then have head: "vfsList R = Some h" using assms by (simp add: reg_list_def)
  show ?thesis
  proof (cases "v = h")
    case True
    then show ?thesis using assms Cons head by (simp add: vfsUnlink_def reg_list_def)
  next
    case False
    have "chain (vfs_next R) (Some h) xs" "distinct xs"
      using assms head by (simp_all add: reg_list_def)
    from vfs_unlink_loop_chain [OF this(1) False this(2)]
    obtain p where p: "vfs_unlink_loop (vfs_next R) v h = Some p"
      "if v \<in> set xs then vfs_next R p = Some v \<and> p \<in> set xs \<and> p \<noteq> v \<and>
          chain ((vfs_next R)(p := vfs_next R v)) (Some h) (remove1 v xs)
       else vfs_next R p = None" by blast
    show ?thesis
      using p False head assms
      by (cases "v \<in> set xs") (auto simp add: vfsUnlink_def reg_list_def remove1_idem)
  qed
qed

text \<open>Where the registered file system goes.\<close>

definition registered_list :: "nat \<Rightarrow> bool \<Rightarrow> nat list \<Rightarrow> nat list" where
  "registered_list v makeDflt xs =
     (case remove1 v xs of
        [] \<Rightarrow> [v]
      | h # ys \<Rightarrow> if makeDflt then v # h # ys else h # v # ys)"

lemma sqlite3_vfs_register_list:
  assumes "reg_list R xs"
  shows "\<exists>R'. sqlite3_vfs_register 0 R v makeDflt = Some (R', SQLITE_OK) \<and>
     reg_list R' (registered_list v makeDflt xs) \<and> vfs_name R' = vfs_name R"
proof -
  obtain R1 where R1: "vfsUnlink R v = Some R1" "reg_list R1 (remove1 v xs)" "vfs_name R1 = vfs_name R"
    using vfsUnlink_list [OF assms] by blast
  have fresh: "v \<notin> set (remove1 v xs)" using assms by (simp add: reg_list_def)
  show ?thesis
  proof (cases "remove1 v xs")
    case Nil
    then show ?thesis
      using R1 by (simp add: sqlite3_vfs_register_def reg_list_def registered_list_def)
  next
    case (Cons h ys)
    then have "vfsList R1 = Some h" "v \<noteq> h" "v \<notin> set ys" "h \<notin> set ys"
      using R1(2) fresh by (auto simp add: reg_list_def)
    then show ?thesis
      using R1 Cons
      by (cases makeDflt) (auto simp add: sqlite3_vfs_register_def reg_list_def registered_list_def)
  qed
qed

lemma sqlite3_vfs_find_list:
  assumes "reg_list R xs"
  shows "sqlite3_vfs_find 0 R z = Some (case z of
      None \<Rightarrow> (case xs of [] \<Rightarrow> None | x # _ \<Rightarrow> Some x)
    | Some s \<Rightarrow> List.find (\<lambda>v. strcmp s (vfs_name R v) = 0) xs)"
  using assms vfs_find_loop_chain [of R "vfsList R" xs z] chain_head [of "vfs_next R" "vfsList R" xs]
  by (auto simp add: sqlite3_vfs_find_def reg_list_def split: option.split)

section \<open>Properties\<close>

text \<open>Registering a file system with \<open>makeDflt\<close> moves it, registered before or not, to
  the head of the list and keeps the order of the others, so that it is the one the
  default lookup returns; registering it twice is the same as once; unregistering takes it
  out again.\<close>

theorem vfs_register_default:
  assumes "reg_list R xs"
  shows "\<exists>R' R'' Ru. sqlite3_vfs_register 0 R v True = Some (R', SQLITE_OK) \<and>
     reg_list R' (v # remove1 v xs) \<and>
     sqlite3_vfs_find 0 R' None = Some (Some v) \<and>
     sqlite3_vfs_register 0 R' v True = Some (R'', SQLITE_OK) \<and> reg_list R'' (v # remove1 v xs) \<and>
     sqlite3_vfs_unregister 0 R' v = Some (Ru, SQLITE_OK) \<and> reg_list Ru (remove1 v xs)"
proof -
  have l: "registered_list v True ys = v # remove1 v ys" for ys
    by (simp add: registered_list_def split: list.split)
  obtain R' where 1: "sqlite3_vfs_register 0 R v True = Some (R', SQLITE_OK)"
    "reg_list R' (v # remove1 v xs)"
    using sqlite3_vfs_register_list [OF assms, of v True] by (auto simp add: l)
  obtain R'' where 2: "sqlite3_vfs_register 0 R' v True = Some (R'', SQLITE_OK)"
    "reg_list R'' (v # remove1 v xs)"
    using sqlite3_vfs_register_list [OF 1(2), of v True] by (auto simp add: l)
  obtain Ru where 3: "vfsUnlink R' v = Some Ru" "reg_list Ru (remove1 v xs)"
    using vfsUnlink_list [OF 1(2), of v] by auto
  show ?thesis
    using 1 2 3 sqlite3_vfs_find_list [OF 1(2), of None] by (auto simp add: sqlite3_vfs_unregister_def)
qed

theorem vfs_register_default_witness:
  "\<exists>R'. sqlite3_vfs_register 0
      \<lparr>vfsList = Some 1, vfs_next = (\<lambda>v. if v = 1 then Some 2 else None), vfs_name = (\<lambda>_. [])\<rparr> 2 True
      = Some (R', SQLITE_OK) \<and> reg_list R' [2, 1]"
  using vfs_register_default [of "\<lparr>vfsList = Some 1, vfs_next = (\<lambda>v. if v = 1 then Some 2 else None),
      vfs_name = (\<lambda>_. [])\<rparr>" "[1, 2]" 2]
  by (auto simp add: reg_list_def)

end
