(* ===== verification/SqliteCtype.thy ===== *)
theory SqliteCtype
  imports CString
begin

text \<open>
  Character classes and case folding of SQLite, the parts of
  components/Ledger/src/sqlite3.c taken from global.c and util.c: the two lookup tables,
  the character tests built on them, the case-insensitive comparisons and hash, and the
  value of a hexadecimal digit.  The build is an ASCII one.  A text is a \<open>string\<close>
  without its terminator; the end of the list is the terminating zero byte, and a byte is
  its value \<open>uchar c\<close>.
\<close>

unbundle bit_operations_syntax

section \<open>Tables\<close>

definition sqlite3UpperToLower :: "int list" where
  "sqlite3UpperToLower =
    [0, 1, 2, 3, 4, 5, 6, 7, 8, 9, 10, 11, 12, 13, 14, 15, 16, 17,
     18, 19, 20, 21, 22, 23, 24, 25, 26, 27, 28, 29, 30, 31, 32, 33, 34, 35,
     36, 37, 38, 39, 40, 41, 42, 43, 44, 45, 46, 47, 48, 49, 50, 51, 52, 53,
     54, 55, 56, 57, 58, 59, 60, 61, 62, 63, 64, 97, 98, 99, 100, 101, 102, 103,
     104, 105, 106, 107, 108, 109, 110, 111, 112, 113, 114, 115, 116, 117, 118, 119, 120, 121,
     122, 91, 92, 93, 94, 95, 96, 97, 98, 99, 100, 101, 102, 103, 104, 105, 106, 107,
     108, 109, 110, 111, 112, 113, 114, 115, 116, 117, 118, 119, 120, 121, 122, 123, 124, 125,
     126, 127, 128, 129, 130, 131, 132, 133, 134, 135, 136, 137, 138, 139, 140, 141, 142, 143,
     144, 145, 146, 147, 148, 149, 150, 151, 152, 153, 154, 155, 156, 157, 158, 159, 160, 161,
     162, 163, 164, 165, 166, 167, 168, 169, 170, 171, 172, 173, 174, 175, 176, 177, 178, 179,
     180, 181, 182, 183, 184, 185, 186, 187, 188, 189, 190, 191, 192, 193, 194, 195, 196, 197,
     198, 199, 200, 201, 202, 203, 204, 205, 206, 207, 208, 209, 210, 211, 212, 213, 214, 215,
     216, 217, 218, 219, 220, 221, 222, 223, 224, 225, 226, 227, 228, 229, 230, 231, 232, 233,
     234, 235, 236, 237, 238, 239, 240, 241, 242, 243, 244, 245, 246, 247, 248, 249, 250, 251,
     252, 253, 254, 255]"

definition sqlite3CtypeMap :: "int list" where
  "sqlite3CtypeMap =
    [0, 0, 0, 0, 0, 0, 0, 0, 0, 1, 1, 1, 1, 1, 0, 0,
     0, 0, 0, 0, 0, 0, 0, 0, 0, 0, 0, 0, 0, 0, 0, 0,
     1, 0, 128, 0, 64, 0, 0, 128, 0, 0, 0, 0, 0, 0, 0, 0,
     12, 12, 12, 12, 12, 12, 12, 12, 12, 12, 0, 0, 0, 0, 0, 0,
     0, 10, 10, 10, 10, 10, 10, 2, 2, 2, 2, 2, 2, 2, 2, 2,
     2, 2, 2, 2, 2, 2, 2, 2, 2, 2, 2, 128, 0, 0, 0, 64,
     128, 42, 42, 42, 42, 42, 42, 34, 34, 34, 34, 34, 34, 34, 34, 34,
     34, 34, 34, 34, 34, 34, 34, 34, 34, 34, 34, 0, 0, 0, 0, 0,
     64, 64, 64, 64, 64, 64, 64, 64, 64, 64, 64, 64, 64, 64, 64, 64,
     64, 64, 64, 64, 64, 64, 64, 64, 64, 64, 64, 64, 64, 64, 64, 64,
     64, 64, 64, 64, 64, 64, 64, 64, 64, 64, 64, 64, 64, 64, 64, 64,
     64, 64, 64, 64, 64, 64, 64, 64, 64, 64, 64, 64, 64, 64, 64, 64,
     64, 64, 64, 64, 64, 64, 64, 64, 64, 64, 64, 64, 64, 64, 64, 64,
     64, 64, 64, 64, 64, 64, 64, 64, 64, 64, 64, 64, 64, 64, 64, 64,
     64, 64, 64, 64, 64, 64, 64, 64, 64, 64, 64, 64, 64, 64, 64, 64,
     64, 64, 64, 64, 64, 64, 64, 64, 64, 64, 64, 64, 64, 64, 64, 64]"

definition at_byte :: "int list \<Rightarrow> char \<Rightarrow> int" where
  "at_byte tab c = tab ! nat (uchar c)"

text \<open>A statement about every entry of a table, checked by running through it once.\<close>

fun each_entry :: "(int \<Rightarrow> int \<Rightarrow> bool) \<Rightarrow> int \<Rightarrow> int list \<Rightarrow> bool" where
  "each_entry P n [] \<longleftrightarrow> True"
| "each_entry P n (x # xs) \<longleftrightarrow> P n x \<and> each_entry P (n + 1) xs"

lemma each_entry_nth: "each_entry P n xs \<Longrightarrow> i < length xs \<Longrightarrow> P (n + int i) (xs ! i)"
proof (induction xs arbitrary: n i)
  case (Cons x xs)
  show ?case
  proof (cases i)
    case 0
    then show ?thesis using Cons.prems by simp
  next
    case (Suc j)
    then show ?thesis using Cons.IH [of "n + 1" j] Cons.prems by (simp add: add.assoc)
  qed
qed simp

lemma each_entry_byte:
  assumes "each_entry P 0 tab" "length tab = 256"
  shows "P (uchar c) (at_byte tab c)"
proof -
  have "nat (uchar c) < length tab" using uchar_bounds(2) [of c] assms(2) by simp
  from each_entry_nth [OF assms(1) this] show ?thesis
    using uchar_bounds(1) [of c] by (simp add: at_byte_def)
qed

definition ctype :: "char \<Rightarrow> int \<Rightarrow> bool" where
  "ctype c m \<longleftrightarrow> at_byte sqlite3CtypeMap c AND m \<noteq> 0"

definition sqlite3Toupper :: "char \<Rightarrow> int" where
  "sqlite3Toupper c = uchar c AND NOT (at_byte sqlite3CtypeMap c AND 0x20)"

definition sqlite3Isspace :: "char \<Rightarrow> bool" where "sqlite3Isspace c = ctype c 0x01"
definition sqlite3Isalnum :: "char \<Rightarrow> bool" where "sqlite3Isalnum c = ctype c 0x06"
definition sqlite3Isalpha :: "char \<Rightarrow> bool" where "sqlite3Isalpha c = ctype c 0x02"
definition sqlite3Isdigit :: "char \<Rightarrow> bool" where "sqlite3Isdigit c = ctype c 0x04"
definition sqlite3Isxdigit :: "char \<Rightarrow> bool" where "sqlite3Isxdigit c = ctype c 0x08"
definition sqlite3Isquote :: "char \<Rightarrow> bool" where "sqlite3Isquote c = ctype c 0x80"

definition sqlite3Tolower :: "char \<Rightarrow> int" where
  "sqlite3Tolower c = at_byte sqlite3UpperToLower c"

lemmas ctype_defs = ctype_def sqlite3Isspace_def sqlite3Isalnum_def sqlite3Isalpha_def
  sqlite3Isdigit_def sqlite3Isxdigit_def sqlite3Isquote_def

lemma length_tables [simp]:
  "length sqlite3UpperToLower = 256" "length sqlite3CtypeMap = 256"
  by (simp_all add: sqlite3UpperToLower_def sqlite3CtypeMap_def)

text \<open>The classes of the table, as ranges of bytes.\<close>

definition upper_byte :: "int \<Rightarrow> bool" where "upper_byte n \<longleftrightarrow> 65 \<le> n \<and> n \<le> 90"
definition lower_byte :: "int \<Rightarrow> bool" where "lower_byte n \<longleftrightarrow> 97 \<le> n \<and> n \<le> 122"
definition digit_byte :: "int \<Rightarrow> bool" where "digit_byte n \<longleftrightarrow> 48 \<le> n \<and> n \<le> 57"
definition xdigit_byte :: "int \<Rightarrow> bool" where
  "xdigit_byte n \<longleftrightarrow> digit_byte n \<or> 65 \<le> n \<and> n \<le> 70 \<or> 97 \<le> n \<and> n \<le> 102"
definition quote_byte :: "int \<Rightarrow> bool" where
  "quote_byte n \<longleftrightarrow> n = 34 \<or> n = 39 \<or> n = 91 \<or> n = 96"
definition space_byte :: "int \<Rightarrow> bool" where
  "space_byte n \<longleftrightarrow> n = 32 \<or> 9 \<le> n \<and> n \<le> 13"
definition idextra_byte :: "int \<Rightarrow> bool" where
  "idextra_byte n \<longleftrightarrow> n = 36 \<or> n = 95 \<or> 128 \<le> n"

lemmas byte_class_defs = upper_byte_def lower_byte_def digit_byte_def xdigit_byte_def
  quote_byte_def space_byte_def idextra_byte_def

definition ctype_entry :: "int \<Rightarrow> int \<Rightarrow> bool" where
  "ctype_entry n m \<longleftrightarrow>
     ((m AND 1 \<noteq> 0) = space_byte n) \<and>
     ((m AND 2 \<noteq> 0) = (upper_byte n \<or> lower_byte n)) \<and>
     ((m AND 4 \<noteq> 0) = digit_byte n) \<and>
     ((m AND 6 \<noteq> 0) = (upper_byte n \<or> lower_byte n \<or> digit_byte n)) \<and>
     ((m AND 8 \<noteq> 0) = xdigit_byte n) \<and>
     (m AND 0x20 = (if lower_byte n then 32 else 0)) \<and>
     ((m AND 0x46 \<noteq> 0) = (upper_byte n \<or> lower_byte n \<or> digit_byte n \<or> idextra_byte n)) \<and>
     ((m AND 0x80 \<noteq> 0) = quote_byte n)"

lemma ctype_table: "each_entry ctype_entry 0 sqlite3CtypeMap"
  by code_simp

lemma ctype_at: "ctype_entry (uchar c) (at_byte sqlite3CtypeMap c)"
  by (rule each_entry_byte [OF ctype_table]) simp

lemma upper_table:
  "each_entry (\<lambda>n m. m = (if upper_byte n then n + 32 else n)) 0 sqlite3UpperToLower"
  by code_simp

lemma Isspace_byte: "sqlite3Isspace c \<longleftrightarrow> space_byte (uchar c)"
  and Isalpha_byte: "sqlite3Isalpha c \<longleftrightarrow> upper_byte (uchar c) \<or> lower_byte (uchar c)"
  and Isdigit_byte: "sqlite3Isdigit c \<longleftrightarrow> digit_byte (uchar c)"
  and Isalnum_byte:
    "sqlite3Isalnum c \<longleftrightarrow> upper_byte (uchar c) \<or> lower_byte (uchar c) \<or> digit_byte (uchar c)"
  and Isxdigit_byte: "sqlite3Isxdigit c \<longleftrightarrow> xdigit_byte (uchar c)"
  and Isquote_byte: "sqlite3Isquote c \<longleftrightarrow> quote_byte (uchar c)"
  and ctype46_byte: "ctype c 0x46 \<longleftrightarrow>
    upper_byte (uchar c) \<or> lower_byte (uchar c) \<or> digit_byte (uchar c) \<or> idextra_byte (uchar c)"
  using ctype_at [of c] by (simp_all add: ctype_defs ctype_entry_def)

lemmas ctype_bytes = Isspace_byte Isalpha_byte Isdigit_byte Isalnum_byte Isxdigit_byte
  Isquote_byte ctype46_byte

lemma Tolower_eq:
  "sqlite3Tolower c = (if upper_byte (uchar c) then uchar c + 32 else uchar c)"
  unfolding sqlite3Tolower_def by (rule each_entry_byte [OF upper_table]) simp

definition toupper_entry :: "int \<Rightarrow> int \<Rightarrow> bool" where
  "toupper_entry n m \<longleftrightarrow> n AND NOT (m AND 0x20) = (if lower_byte n then n - 32 else n)"

lemma toupper_table: "each_entry toupper_entry 0 sqlite3CtypeMap"
  by code_simp

lemma Toupper_eq:
  "sqlite3Toupper c = (if lower_byte (uchar c) then uchar c - 32 else uchar c)"
  using each_entry_byte [OF toupper_table, of c] by (simp add: sqlite3Toupper_def toupper_entry_def)

lemma Tolower_bounds: "0 \<le> sqlite3Tolower c" "sqlite3Tolower c < 256"
  using uchar_bounds [of c] by (auto simp add: Tolower_eq upper_byte_def)

lemma Tolower_eq_0 [simp]: "sqlite3Tolower c = 0 \<longleftrightarrow> c = NUL"
proof -
  have "uchar c = 0 \<longleftrightarrow> c = NUL" by (rule uchar_eq_0)
  moreover have "\<not> upper_byte (uchar NUL)" by (simp add: upper_byte_def uchar_def)
  ultimately show ?thesis by (auto simp add: Tolower_eq upper_byte_def)
qed

lemma Tolower_NUL [simp]: "sqlite3Tolower NUL = 0"
  by simp

text \<open>The lower-case letter of a character, as a character.\<close>

definition lower_char :: "char \<Rightarrow> char" where
  "lower_char c = char_of (nat (sqlite3Tolower c))"

lemma uchar_lower_char [simp]: "uchar (lower_char c) = sqlite3Tolower c"
  using Tolower_bounds [of c] by (simp add: lower_char_def uchar_def)

lemma lower_char_eq_iff [simp]: "lower_char a = lower_char b \<longleftrightarrow> sqlite3Tolower a = sqlite3Tolower b"
  using uchar_inject [of "lower_char a" "lower_char b"] by simp

lemma lower_char_eq_NUL [simp]: "lower_char a = NUL \<longleftrightarrow> a = NUL"
  using uchar_eq_0 [of "lower_char a"] by simp

section \<open>Comparison without regard to case\<close>

text \<open>The byte at a pointer.\<close>

definition at :: "string \<Rightarrow> char" where
  "at z = (case z of [] \<Rightarrow> NUL | c # _ \<Rightarrow> c)"

lemma at_simps [simp]: "at [] = NUL" "at (c # z) = c"
  by (simp_all add: at_def)

function sqlite3StrICmp :: "string \<Rightarrow> string \<Rightarrow> int" where
  "sqlite3StrICmp a b =
     (if at a = at b then if at a = NUL then 0 else sqlite3StrICmp (tl a) (tl b)
      else if sqlite3Tolower (at a) - sqlite3Tolower (at b) \<noteq> 0
           then sqlite3Tolower (at a) - sqlite3Tolower (at b)
      else sqlite3StrICmp (tl a) (tl b))"
  by pat_completeness auto

termination
proof (relation "measure (\<lambda>(a, b). length a)", goal_cases)
  case (2 a b)
  then show ?case by (cases a) auto
next
  case (3 a b)
  have "a \<noteq> []"
  proof
    assume "a = []"
    with 3 have "sqlite3Tolower (at b) = 0" by simp
    with 3 \<open>a = []\<close> show False by simp
  qed
  then show ?case by (cases a) auto
qed simp

declare sqlite3StrICmp.simps [simp del]

definition sqlite3_stricmp :: "string option \<Rightarrow> string option \<Rightarrow> int" where
  "sqlite3_stricmp zLeft zRight =
     (case (zLeft, zRight) of
        (None, None) \<Rightarrow> 0 | (None, Some _) \<Rightarrow> -1 | (Some _, None) \<Rightarrow> 1
      | (Some a, Some b) \<Rightarrow> sqlite3StrICmp a b)"

text \<open>The counter of the loop is the number of characters still to compare.\<close>

fun strnicmp_loop :: "string \<Rightarrow> string \<Rightarrow> nat \<Rightarrow> int" where
  "strnicmp_loop a b 0 = 0"
| "strnicmp_loop a b (Suc n) =
     (if at a \<noteq> NUL \<and> sqlite3Tolower (at a) = sqlite3Tolower (at b)
      then strnicmp_loop (tl a) (tl b) n
      else sqlite3Tolower (at a) - sqlite3Tolower (at b))"

definition sqlite3_strnicmp :: "string option \<Rightarrow> string option \<Rightarrow> int \<Rightarrow> int" where
  "sqlite3_strnicmp zLeft zRight N =
     (case (zLeft, zRight) of
        (None, None) \<Rightarrow> 0 | (None, Some _) \<Rightarrow> -1 | (Some _, None) \<Rightarrow> 1
      | (Some a, Some b) \<Rightarrow> strnicmp_loop a b (nat N))"

fun StrIHash_loop :: "u8 \<Rightarrow> string \<Rightarrow> u8" where
  "StrIHash_loop h [] = h"
| "StrIHash_loop h (c # z) = StrIHash_loop (h + word_of_int (sqlite3Tolower c)) z"

definition sqlite3StrIHash :: "string option \<Rightarrow> u8" where
  "sqlite3StrIHash z = (case z of None \<Rightarrow> 0 | Some s \<Rightarrow> StrIHash_loop 0 s)"

definition sqlite3HexToInt :: "char \<Rightarrow> int" where
  "sqlite3HexToInt h = (uchar h + 9 * (1 AND drop_bit 6 (uchar h))) AND 0xf"

section \<open>Lemmas\<close>

definition fold_case :: "string \<Rightarrow> string" where
  "fold_case s = map lower_char s"

lemma fold_case_simps [simp]:
  "fold_case [] = []" "fold_case (c # s) = lower_char c # fold_case s"
  by (simp_all add: fold_case_def)

lemma is_cstr_fold_case [simp]: "is_cstr (fold_case s) \<longleftrightarrow> is_cstr s"
  by (induction s) simp_all

lemma StrICmp_strcmp:
  "is_cstr a \<Longrightarrow> is_cstr b \<Longrightarrow> sqlite3StrICmp a b = strcmp (fold_case a) (fold_case b)"
proof (induction a arbitrary: b)
  case Nil
  then show ?case by (cases b) (simp_all add: sqlite3StrICmp.simps)
next
  case (Cons c s)
  show ?case
  proof (cases b)
    case Nil
    then show ?thesis using Cons.prems by (simp add: sqlite3StrICmp.simps)
  next
    case (Cons e t)
    then have "sqlite3StrICmp s t = strcmp (fold_case s) (fold_case t)"
      using Cons.IH [of t] Cons.prems by simp
    then show ?thesis
      using Cons Cons.prems by (subst sqlite3StrICmp.simps) simp
  qed
qed

lemma strnicmp_strcmp:
  "is_cstr a \<Longrightarrow> is_cstr b \<Longrightarrow>
   strnicmp_loop a b n = strcmp (fold_case (take n a)) (fold_case (take n b))"
proof (induction n arbitrary: a b)
  case (Suc n)
  then show ?case by (cases a; cases b) simp_all
qed simp

lemma is_cstr_take: "is_cstr a \<Longrightarrow> is_cstr (take n a)"
  by (auto simp add: is_cstr_def dest: in_set_takeD)

lemma strnicmp_take:
  "is_cstr a \<Longrightarrow> is_cstr b \<Longrightarrow> strnicmp_loop a b n = sqlite3StrICmp (take n a) (take n b)"
  by (simp add: strnicmp_strcmp StrICmp_strcmp is_cstr_take)

lemma StrICmp_eq_0:
  "is_cstr a \<Longrightarrow> is_cstr b \<Longrightarrow> sqlite3StrICmp a b = 0 \<longleftrightarrow> fold_case a = fold_case b"
  by (simp add: StrICmp_strcmp)

lemma StrIHash_fold: "fold_case a = fold_case b \<Longrightarrow> StrIHash_loop h a = StrIHash_loop h b"
proof (induction a arbitrary: b h)
  case Nil
  then show ?case by (cases b) simp_all
next
  case (Cons c s)
  then obtain e t where b: "b = e # t" "sqlite3Tolower c = sqlite3Tolower e" "fold_case s = fold_case t"
    by (cases b) auto
  show ?case
    unfolding b(1) StrIHash_loop.simps b(2) by (rule Cons.IH [OF b(3)])
qed

lemma strcmp_antisym: "strcmp b a = - strcmp a b"
  by (induction a b rule: strcmp.induct) auto

lemma strcmp_trans:
  "strcmp a b \<le> 0 \<Longrightarrow> strcmp b c \<le> 0 \<Longrightarrow> is_cstr a \<Longrightarrow> is_cstr b \<Longrightarrow> is_cstr c \<Longrightarrow> strcmp a c \<le> 0"
proof (induction a arbitrary: b c)
  case Nil
  then show ?case using uchar_bounds(1) by (cases c) simp_all
next
  case (Cons x a)
  have x: "uchar x > 0" using Cons.prems(3) uchar_bounds(1) [of x] uchar_eq_0 [of x]
    by (simp del: uchar_eq_0 add: order.strict_iff_order)
  show ?case
  proof (cases b)
    case Nil
    then show ?thesis using Cons.prems(1) x by simp
  next
    case b: (Cons y b')
    have y: "uchar y > 0" using b Cons.prems(4) uchar_bounds(1) [of y] uchar_eq_0 [of y]
      by (simp del: uchar_eq_0 add: order.strict_iff_order)
    show ?thesis
    proof (cases c)
      case Nil
      then show ?thesis using Cons.prems(2) b y by simp
    next
      case (Cons z c')
      have neq: "\<And>u v. u \<noteq> v \<Longrightarrow> uchar u \<noteq> uchar v" by simp
      show ?thesis
        using Cons.IH [of b' c'] Cons.prems b Cons neq [of x y] neq [of y z] neq [of x z]
        by (auto split: if_splits)
    qed
  qed
qed

section \<open>Properties\<close>

text \<open>Identifiers are compared by one total preorder: the case-insensitive comparison of
  SQLite equals the byte comparison of the texts with their ASCII letters folded, so it is
  zero exactly on texts equal up to ASCII case, reversing the arguments reverses the sign,
  it is transitive, and texts it identifies have one hash.  The length-limited form compares
  the prefixes.\<close>

theorem identifier_order:
  assumes "is_cstr a" "is_cstr b" "is_cstr c"
  shows "sqlite3StrICmp a b = strcmp (fold_case a) (fold_case b) \<and>
    sqlite3StrICmp b a = - sqlite3StrICmp a b \<and>
    (sqlite3StrICmp a b \<le> 0 \<longrightarrow> sqlite3StrICmp b c \<le> 0 \<longrightarrow> sqlite3StrICmp a c \<le> 0) \<and>
    (sqlite3StrICmp a b = 0 \<longrightarrow> sqlite3StrIHash (Some a) = sqlite3StrIHash (Some b)) \<and>
    sqlite3_strnicmp (Some a) (Some b) (int n) = sqlite3_stricmp (Some (take n a)) (Some (take n b))"
proof (intro conjI impI)
  have f: "is_cstr (fold_case a)" "is_cstr (fold_case b)" "is_cstr (fold_case c)"
    using assms by simp_all
  show "sqlite3StrICmp a b = strcmp (fold_case a) (fold_case b)"
    using assms by (simp add: StrICmp_strcmp)
  show "sqlite3StrICmp b a = - sqlite3StrICmp a b"
    using assms strcmp_antisym [of "fold_case b" "fold_case a"] by (simp add: StrICmp_strcmp)
  show "sqlite3StrICmp a c \<le> 0" if "sqlite3StrICmp a b \<le> 0" "sqlite3StrICmp b c \<le> 0"
    using that assms f strcmp_trans [of "fold_case a" "fold_case b" "fold_case c"]
    by (simp add: StrICmp_strcmp)
  show "sqlite3StrIHash (Some a) = sqlite3StrIHash (Some b)" if "sqlite3StrICmp a b = 0"
  proof -
    have "fold_case a = fold_case b" using that assms by (simp add: StrICmp_eq_0)
    from StrIHash_fold [OF this, of 0] show ?thesis by (simp add: sqlite3StrIHash_def)
  qed
  show "sqlite3_strnicmp (Some a) (Some b) (int n) = sqlite3_stricmp (Some (take n a)) (Some (take n b))"
    using assms by (simp add: sqlite3_strnicmp_def sqlite3_stricmp_def strnicmp_take)
qed

theorem identifier_order_witness:
  "sqlite3StrICmp ''Users'' ''uSERS'' = 0 \<and> sqlite3StrICmp ''a'' ''B'' = - sqlite3StrICmp ''B'' ''a'' \<and>
   sqlite3StrIHash (Some ''Users'') = sqlite3StrIHash (Some ''uSERS'')"
proof -
  have "sqlite3StrICmp ''Users'' ''uSERS'' = 0"
    using identifier_order [of "''Users''" "''uSERS''" "[]"]
    by (simp add: fold_case_def Tolower_eq uchar_def upper_byte_def)
  then show ?thesis
    using identifier_order [of "''B''" "''a''" "[]"] identifier_order [of "''Users''" "''uSERS''" "[]"]
    by simp
qed

text \<open>A hexadecimal digit in either case has its value, and folding a character to upper
  case and to lower case changes exactly the ASCII letters.\<close>

lemma hex_digit_value:
  "(sqlite3Isxdigit c \<longrightarrow>
     sqlite3HexToInt c = (if is_digit c then digit_val c else sqlite3Tolower c - uchar CHR ''a'' + 10)) \<and>
   (sqlite3Isalpha c \<longrightarrow> \<bar>sqlite3Toupper c - sqlite3Tolower c\<bar> = 32) \<and>
   (\<not> sqlite3Isalpha c \<longrightarrow> sqlite3Toupper c = uchar c \<and> sqlite3Tolower c = uchar c)"
proof -
  have "each_entry (\<lambda>n m. xdigit_byte n \<longrightarrow> (n + 9 * (1 AND drop_bit 6 n)) AND 0xf =
      (if digit_byte n then n - 48 else (if upper_byte n then n + 32 else n) - 87)) 0 sqlite3CtypeMap"
    by code_simp
  from each_entry_byte [OF this, of c] show ?thesis
    by (auto simp add: sqlite3HexToInt_def ctype_bytes Tolower_eq Toupper_eq is_digit_def digit_val_def
        digit_byte_def upper_byte_def lower_byte_def uchar_def)
qed

lemma hex_digit_value_example: "sqlite3HexToInt CHR ''B'' = 11 \<and> sqlite3HexToInt CHR ''7'' = 7"
  using hex_digit_value [of "CHR ''B''"] hex_digit_value [of "CHR ''7''"]
  by (simp add: ctype_bytes byte_class_defs uchar_def is_digit_def digit_val_def Tolower_eq)

end
