(* ===== verification/SqliteExec.thy ===== *)
theory SqliteExec
  imports SqliteOs SqliteCtype
begin

text \<open>
  \<open>sqlite3_exec\<close>, the part of components/Ledger/src/sqlite3.c taken from legacy.c: the
  loop that prepares, steps and finalizes the statements of a script and hands their rows
  to a callback.  The engine below it (compiler, virtual machine, error state) is the
  record \<open>sql_core\<close>, whose fields are the calls the function makes; a database handle
  has type \<open>'d\<close>, a prepared statement type \<open>'s\<close> and the callback's context type \<open>'c\<close>.
  A script need not end (a statement may produce rows for ever), so the loops are partial
  functions and \<open>None\<close> is not returning.
\<close>

section \<open>The calls into the engine\<close>

record ('d, 's) sql_core =
  core_ok :: "'d \<Rightarrow> bool"
  core_error :: "'d \<Rightarrow> int \<Rightarrow> 'd"
  core_prepare :: "'d \<Rightarrow> string \<Rightarrow> 'd \<times> int \<times> 's option \<times> string"
  core_step :: "'d \<Rightarrow> 's \<Rightarrow> 'd \<times> 's \<times> int"
  core_finalize :: "'d \<Rightarrow> 's \<Rightarrow> 'd \<times> int"
  core_columns :: "'s \<Rightarrow> string list"
  core_text :: "'s \<Rightarrow> nat \<Rightarrow> string option"
  core_is_null :: "'s \<Rightarrow> nat \<Rightarrow> bool"
  core_cols_granted :: "'d \<Rightarrow> nat \<Rightarrow> bool"
  core_oom :: "'d \<Rightarrow> 'd"
  core_null_callback :: "'d \<Rightarrow> bool"
  core_api_exit :: "'d \<Rightarrow> int \<Rightarrow> 'd \<times> int"
  core_errmsg :: "'d \<Rightarrow> string option"

text \<open>A callback gets its context, the number of columns, the values (a null array when the
  query has no row) and the names; it returns its context and whether to stop.\<close>

type_synonym 'c callback =
  "'c \<Rightarrow> nat \<Rightarrow> string option list option \<Rightarrow> string list \<Rightarrow> 'c \<times> int"

section \<open>The loops\<close>

definition row_vals :: "('d, 's) sql_core \<Rightarrow> 's \<Rightarrow> nat \<Rightarrow> string option list option" where
  "row_vals core s n =
     (if list_ex (\<lambda>i. core_text core s i = None \<and> \<not> core_is_null core s i) [0..<n] then None
      else Some (map (core_text core s) [0..<n]))"

text \<open>One callback.  \<open>Inl\<close> is the jump to the exit with the handle, the context, the code and
  the statement still to finalize; \<open>cols\<close> is the array of names once it is filled.\<close>

definition exec_callback ::
  "('d, 's) sql_core \<Rightarrow> 'c callback option \<Rightarrow> 'd \<Rightarrow> 'c \<Rightarrow> 's \<Rightarrow> string list option \<Rightarrow> int \<Rightarrow>
   ('d \<times> 'c \<times> int \<times> 's option) + ('c \<times> string list option)" where
  "exec_callback core cb d c s cols rc =
     (case cb of
        None \<Rightarrow> Inr (c, cols)
      | Some f \<Rightarrow>
          if rc = SQLITE_ROW \<or> rc = SQLITE_DONE \<and> cols = None \<and> core_null_callback core d then
            (case (case cols of
                     Some ns \<Rightarrow> Some ns
                   | None \<Rightarrow>
                       if core_cols_granted core d (2 * length (core_columns core s) + 1)
                       then Some (core_columns core s) else None) of
               None \<Rightarrow> Inl (d, c, rc, Some s)
             | Some ns \<Rightarrow>
                 (case (if rc = SQLITE_ROW then map_option Some (row_vals core s (length ns))
                        else Some None) of
                    None \<Rightarrow> Inl (core_oom core d, c, rc, Some s)
                  | Some vals \<Rightarrow>
                      let (c', stop) = f c (length ns) vals ns
                      in if stop \<noteq> 0
                         then Inl (core_error core (fst (core_finalize core d s)) SQLITE_ABORT,
                                   c', SQLITE_ABORT, None)
                         else Inr (c', Some ns)))
          else Inr (c, cols))"

partial_function (option) exec_stmt ::
  "('d, 's) sql_core \<Rightarrow> 'c callback option \<Rightarrow> 'd \<Rightarrow> 'c \<Rightarrow> 's \<Rightarrow> string list option \<Rightarrow>
   (('d \<times> 'c \<times> int \<times> 's option) + ('d \<times> 'c \<times> int)) option" where
  "exec_stmt core cb d c s cols =
     (case core_step core d s of (d1, s1, rc) \<Rightarrow>
        (case exec_callback core cb d1 c s1 cols rc of
           Inl out \<Rightarrow> Some (Inl out)
         | Inr (c', cols') \<Rightarrow>
             if rc \<noteq> SQLITE_ROW
             then (case core_finalize core d1 s1 of (d2, rc2) \<Rightarrow> Some (Inr (d2, c', rc2)))
             else exec_stmt core cb d1 c' s1 cols'))"

partial_function (option) exec_loop ::
  "('d, 's) sql_core \<Rightarrow> 'c callback option \<Rightarrow> 'd \<Rightarrow> 'c \<Rightarrow> int \<Rightarrow> string \<Rightarrow>
   ('d \<times> 'c \<times> int \<times> 's option) option" where
  "exec_loop core cb d c rc z =
     (if rc = SQLITE_OK \<and> z \<noteq> [] then
        (case core_prepare core d z of (d1, rc1, ps, left) \<Rightarrow>
           if rc1 \<noteq> SQLITE_OK then exec_loop core cb d1 c rc1 z
           else (case ps of
              None \<Rightarrow> exec_loop core cb d1 c rc1 left
            | Some s \<Rightarrow>
                Option.bind (exec_stmt core cb d1 c s None) (\<lambda>r.
                  case r of
                    Inl out \<Rightarrow> Some out
                  | Inr (d2, c2, rc2) \<Rightarrow>
                      exec_loop core cb d2 c2 rc2 (dropWhile sqlite3Isspace left))))
      else Some (d, c, rc, None))"

definition sqlite3_exec ::
  "('d, 's) sql_core \<Rightarrow> 'd \<Rightarrow> string option \<Rightarrow> 'c callback option \<Rightarrow> 'c \<Rightarrow> bool \<Rightarrow>
   ('d \<times> 'c \<times> int \<times> string option) option" where
  "sqlite3_exec core d zSql cb c wantErr =
     (if \<not> core_ok core d then Some (d, c, SQLITE_MISUSE, None)
      else Option.bind
        (exec_loop core cb (core_error core d SQLITE_OK) c SQLITE_OK
           (case zSql of None \<Rightarrow> [] | Some z \<Rightarrow> z))
        (\<lambda>(d1, c1, rc1, ps).
          case core_api_exit core
                 (case ps of None \<Rightarrow> d1 | Some s \<Rightarrow> fst (core_finalize core d1 s)) rc1 of
            (d2, rc2) \<Rightarrow>
              if rc2 \<noteq> SQLITE_OK \<and> wantErr then
                (case core_errmsg core d2 of
                   None \<Rightarrow> Some (core_error core d2 SQLITE_NOMEM, c1, SQLITE_NOMEM, None)
                 | Some m \<Rightarrow> Some (d2, c1, rc2, Some m))
              else Some (d2, c1, rc2, None)))"

section \<open>What a script does\<close>

text \<open>A statement produces its rows, each the values of the columns, and ends with the code
  of its finalization; a script runs its statements up to the first that fails.\<close>

type_synonym row = "string list \<times> string option list"

definition row_of :: "('d, 's) sql_core \<Rightarrow> 's \<Rightarrow> row" where
  "row_of core s =
     (core_columns core s, map (core_text core s) [0..<length (core_columns core s)])"

inductive stmt_run ::
  "('d, 's) sql_core \<Rightarrow> 'd \<Rightarrow> 's \<Rightarrow> row list \<Rightarrow> 'd \<Rightarrow> int \<Rightarrow> bool"
  for core :: "('d, 's) sql_core" where
  stmt_last: "core_step core d s = (d1, s1, rc) \<Longrightarrow> rc \<noteq> SQLITE_ROW \<Longrightarrow>
     core_finalize core d1 s1 = (d2, rc2) \<Longrightarrow> stmt_run core d s [] d2 rc2"
| stmt_row: "core_step core d s = (d1, s1, SQLITE_ROW) \<Longrightarrow> stmt_run core d1 s1 rs d2 rc2 \<Longrightarrow>
     stmt_run core d s (row_of core s1 # rs) d2 rc2"

inductive script_run ::
  "('d, 's) sql_core \<Rightarrow> 'd \<Rightarrow> string \<Rightarrow> row list \<Rightarrow> 'd \<Rightarrow> int \<Rightarrow> bool"
  for core :: "('d, 's) sql_core" where
  script_end: "script_run core d [] [] d SQLITE_OK"
| script_bad: "z \<noteq> [] \<Longrightarrow> core_prepare core d z = (d1, rc, ps, left) \<Longrightarrow> rc \<noteq> SQLITE_OK \<Longrightarrow>
     script_run core d z [] d1 rc"
| script_blank: "z \<noteq> [] \<Longrightarrow> core_prepare core d z = (d1, SQLITE_OK, None, left) \<Longrightarrow>
     script_run core d1 left rs d2 rc \<Longrightarrow> script_run core d z rs d2 rc"
| script_fail: "z \<noteq> [] \<Longrightarrow> core_prepare core d z = (d1, SQLITE_OK, Some s, left) \<Longrightarrow>
     stmt_run core d1 s rs d2 rc \<Longrightarrow> rc \<noteq> SQLITE_OK \<Longrightarrow> script_run core d z rs d2 rc"
| script_next: "z \<noteq> [] \<Longrightarrow> core_prepare core d z = (d1, SQLITE_OK, Some s, left) \<Longrightarrow>
     stmt_run core d1 s rs d2 SQLITE_OK \<Longrightarrow>
     script_run core d2 (dropWhile sqlite3Isspace left) rs' d3 rc \<Longrightarrow>
     script_run core d z (rs @ rs') d3 rc"

inductive_cases stmt_runE: "stmt_run core d s rs d2 rc2"

text \<open>What the engine keeps while it hands out rows: a statement's columns do not change from
  step to step, a value without text is an SQL null, the array of names is allocated, and
  the flag that asks for a callback on an empty result is off.\<close>

definition steady :: "('d, 's) sql_core \<Rightarrow> bool" where
  "steady core \<longleftrightarrow>
     (\<forall>d s. core_columns core (fst (snd (core_step core d s))) = core_columns core s) \<and>
     (\<forall>s i. core_text core s i = None \<longrightarrow> core_is_null core s i) \<and>
     (\<forall>d n. core_cols_granted core d n) \<and> (\<forall>d. \<not> core_null_callback core d)"

definition goes_on :: "'c callback \<Rightarrow> bool" where
  "goes_on f \<longleftrightarrow> (\<forall>c n vals ns. snd (f c n vals ns) = 0)"

definition feed :: "'c callback \<Rightarrow> 'c \<Rightarrow> row list \<Rightarrow> 'c" where
  "feed f c rows = foldl (\<lambda>c (ns, vals). fst (f c (length ns) (Some vals) ns)) c rows"

lemma feed_simps [simp]:
  "feed f c [] = c"
  "feed f c ((ns, vals) # rows) = feed f (fst (f c (length ns) (Some vals) ns)) rows"
  "feed f c (rows @ rows') = feed f (feed f c rows) rows'"
  by (simp_all add: feed_def)

definition feed_opt :: "'c callback option \<Rightarrow> 'c \<Rightarrow> row list \<Rightarrow> 'c" where
  "feed_opt cb c rows = (case cb of None \<Rightarrow> c | Some f \<Rightarrow> feed f c rows)"

lemma feed_opt_append [simp]: "feed_opt cb c (rows @ rows') = feed_opt cb (feed_opt cb c rows) rows'"
  by (simp add: feed_opt_def split: option.split)

lemma feed_opt_Nil [simp]: "feed_opt cb c [] = c"
  by (simp add: feed_opt_def split: option.split)

definition cb_ready :: "('d, 's) sql_core \<Rightarrow> 'c callback option \<Rightarrow> bool" where
  "cb_ready core cb \<longleftrightarrow> (case cb of None \<Rightarrow> True | Some f \<Rightarrow> steady core \<and> goes_on f)"

lemma row_vals_steady:
  "steady core \<Longrightarrow> row_vals core s n = Some (map (core_text core s) [0..<n])"
  unfolding row_vals_def steady_def list_ex_iff by (metis (no_types, lifting))

text \<open>One row and the end of a statement, under a callback that goes on.\<close>

lemma exec_callback_row:
  assumes "cb_ready core cb" "cols \<in> {None, Some (core_columns core s)}"
  shows "\<exists>cols'\<in>{None, Some (core_columns core s)}.
    exec_callback core cb d c s cols SQLITE_ROW = Inr (feed_opt cb c [row_of core s], cols')"
proof (cases cb)
  case None
  then show ?thesis using assms(2) by (auto simp add: exec_callback_def feed_opt_def)
next
  case (Some f)
  then have st: "steady core" and stop: "\<And>n vals ns. snd (f c n vals ns) = 0"
    using assms(1) by (auto simp add: cb_ready_def goes_on_def)
  let ?n = "length (core_columns core s)"
  obtain c' where f: "f c ?n (Some (map (core_text core s) [0..<?n])) (core_columns core s) = (c', 0)"
    using stop [of ?n "Some (map (core_text core s) [0..<?n])" "core_columns core s"]
    by (metis prod.collapse)
  have granted: "core_cols_granted core d n" for d n using st by (simp add: steady_def)
  show ?thesis
    using assms(2) Some f row_vals_steady [OF st] granted
    by (auto simp add: exec_callback_def feed_opt_def row_of_def)
qed

lemma exec_callback_end:
  assumes "cb_ready core cb" "rc \<noteq> SQLITE_ROW"
  shows "exec_callback core cb d c s cols rc = Inr (c, cols)"
  using assms by (auto simp add: exec_callback_def cb_ready_def steady_def split: option.split)

lemma step_columns:
  "steady core \<Longrightarrow> core_step core d s = (d1, s1, rc) \<Longrightarrow> core_columns core s1 = core_columns core s"
  unfolding steady_def by (metis fst_conv snd_conv)

lemma exec_stmt_run:
  assumes "stmt_run core d s rows d2 rc2" "cb_ready core cb"
    and "cb \<noteq> None \<Longrightarrow> cols \<in> {None, Some (core_columns core s)}" "cb = None \<Longrightarrow> cols = None"
  shows "exec_stmt core cb d c s cols = Some (Inr (d2, feed_opt cb c rows, rc2))"
  using assms
proof (induction arbitrary: c cols rule: stmt_run.induct)
  case (stmt_last d s d1 s1 rc d2 rc2)
  then show ?case by (subst exec_stmt.simps) (simp add: exec_callback_end)
next
  case (stmt_row d s d1 s1 rs d2 rc2)
  have cols: "cols \<in> {None, Some (core_columns core s1)}"
    using stmt_row.prems stmt_row.hyps(1) step_columns [of core d s d1 s1 SQLITE_ROW]
    by (cases cb) (auto simp add: cb_ready_def)
  obtain cols' where cols': "cols' \<in> {None, Some (core_columns core s1)}"
    "exec_callback core cb d1 c s1 cols SQLITE_ROW = Inr (feed_opt cb c [row_of core s1], cols')"
    using exec_callback_row [OF stmt_row.prems(1) cols] by blast
  have "cb = None \<Longrightarrow> cols' = None"
    using cols'(2) stmt_row.prems(3) by (auto simp add: exec_callback_def)
  with stmt_row.IH [of cols' "feed_opt cb c [row_of core s1]"] stmt_row.prems(1) cols'(1)
  have "exec_stmt core cb d1 (feed_opt cb c [row_of core s1]) s1 cols' =
      Some (Inr (d2, feed_opt cb (feed_opt cb c [row_of core s1]) rs, rc2))"
    by blast
  moreover have "feed_opt cb (feed_opt cb c [row_of core s1]) rs = feed_opt cb c (row_of core s1 # rs)"
    using feed_opt_append [of cb c "[row_of core s1]" rs] by simp
  ultimately show ?case
    using stmt_row.hyps(1) cols'(2) by (subst exec_stmt.simps) simp
qed

lemma exec_loop_done [simp]: "rc \<noteq> SQLITE_OK \<Longrightarrow> exec_loop core cb d c rc z = Some (d, c, rc, None)"
  by (subst exec_loop.simps) simp

lemma exec_loop_run:
  assumes "script_run core d z rows d' rc" "cb_ready core cb"
  shows "exec_loop core cb d c SQLITE_OK z = Some (d', feed_opt cb c rows, rc, None)"
  using assms
proof (induction arbitrary: c rule: script_run.induct)
  case (script_end d)
  then show ?case by (subst exec_loop.simps) simp
next
  case (script_bad z d d1 rc ps left)
  then show ?case by (subst exec_loop.simps) simp
next
  case (script_blank z d d1 left rs d2 rc)
  then show ?case by (subst exec_loop.simps) simp
next
  case (script_fail z d d1 s left rs d2 rc)
  then show ?case
    by (subst exec_loop.simps) (simp add: exec_stmt_run [OF script_fail.hyps(3)])
next
  case (script_next z d d1 s left rs d2 rs' d3 rc)
  then show ?case
    by (subst exec_loop.simps) (simp add: exec_stmt_run [OF script_next.hyps(3)])
qed

text \<open>Without a callback the converse holds: what the loops return is a run of the script.\<close>

lemma exec_stmt_sound:
  "exec_stmt core cb d c s cols = Some r \<Longrightarrow> cb = None \<Longrightarrow>
   \<exists>rows d2 rc2. r = Inr (d2, c, rc2) \<and> stmt_run core d s rows d2 rc2"
proof (induction rule: exec_stmt.raw_induct [rotated, consumes 1])
  case (1 self core cb d c s cols r)
  note body = 1(2) and IH = 1(1)
  obtain d1 s1 rc where st: "core_step core d s = (d1, s1, rc)" by (metis prod_cases3)
  have cbk: "exec_callback core cb d1 c s1 cols rc = Inr (c, cols)"
    using \<open>cb = None\<close> by (simp add: exec_callback_def)
  show ?case
  proof (cases "rc = SQLITE_ROW")
    case True
    with body st cbk have "self core cb d1 c s1 cols = Some r" by simp
    then obtain rows d2 rc2 where "r = Inr (d2, c, rc2)" "stmt_run core d1 s1 rows d2 rc2"
      using IH \<open>cb = None\<close> by blast
    then show ?thesis using st True by (blast intro: stmt_row)
  next
    case False
    obtain d2 rc2 where fin: "core_finalize core d1 s1 = (d2, rc2)" by (metis surj_pair)
    with body st cbk False have "r = Inr (d2, c, rc2)" by simp
    then show ?thesis using st False fin by (blast intro: stmt_last)
  qed
qed

lemma exec_loop_sound:
  "exec_loop core cb d c rc z = Some r \<Longrightarrow> cb = None \<Longrightarrow>
   if rc = SQLITE_OK then \<exists>rows d' rc'. r = (d', c, rc', None) \<and> script_run core d z rows d' rc'
   else r = (d, c, rc, None)"
proof (induction rule: exec_loop.raw_induct [rotated, consumes 1])
  case (1 self core cb d c rc z r)
  note body = 1(2) and IH = 1(1)
  show ?case
  proof (cases "rc = SQLITE_OK \<and> z \<noteq> []")
    case False
    with body show ?thesis by (auto intro: script_end)
  next
    case nz: True
    obtain d1 rc1 ps left where p: "core_prepare core d z = (d1, rc1, ps, left)"
      by (metis prod_cases4)
    show ?thesis
    proof (cases "rc1 = SQLITE_OK")
      case False
      with body nz p have "self core cb d1 c rc1 z = Some r" by simp
      from IH [OF this \<open>cb = None\<close>] False have "r = (d1, c, rc1, None)" by simp
      then show ?thesis using nz p False by (auto intro: script_bad)
    next
      case ok: True
      show ?thesis
      proof (cases ps)
        case None
        with body nz p ok have "self core cb d1 c SQLITE_OK left = Some r" by simp
        from IH [OF this \<open>cb = None\<close>] show ?thesis using nz p None ok by (auto intro: script_blank)
      next
        case (Some s)
        with body nz p ok obtain x where x: "exec_stmt core cb d1 c s None = Some x"
          "(case x of Inl out \<Rightarrow> Some out
            | Inr (d2, c2, rc2) \<Rightarrow> self core cb d2 c2 rc2 (dropWhile sqlite3Isspace left)) = Some r"
          by (auto simp add: bind_eq_Some_conv)
        from exec_stmt_sound [OF x(1) \<open>cb = None\<close>] obtain rows d2 rc2 where
          r: "x = Inr (d2, c, rc2)" "stmt_run core d1 s rows d2 rc2" by blast
        with x(2) have "self core cb d2 c rc2 (dropWhile sqlite3Isspace left) = Some r" by simp
        from IH [OF this \<open>cb = None\<close>] r(2) nz p Some ok show ?thesis
          by (cases "rc2 = SQLITE_OK") (auto intro: script_fail script_next)
      qed
    qed
  qed
qed

section \<open>A recording engine\<close>

text \<open>The smallest engine of the interface, on which the properties are evaluated: a statement
  is the text up to a semicolon, compiling it fails when \<open>bad\<close> holds of it, running it
  appends it to the record that is the database, and it yields one row of its text when
  \<open>query\<close> holds of it.\<close>

definition log_core ::
  "(string \<Rightarrow> bool) \<Rightarrow> (string \<Rightarrow> bool) \<Rightarrow> (string list, string \<times> bool) sql_core" where
  "log_core bad query =
     \<lparr>core_ok = (\<lambda>d. True), core_error = (\<lambda>d rc. d),
      core_prepare = (\<lambda>d z.
        let s = takeWhile (\<lambda>c. c \<noteq> CHR '';'') z; left = tl (dropWhile (\<lambda>c. c \<noteq> CHR '';'') z)
        in if bad s then (d, SQLITE_ERROR, None, z) else (d, SQLITE_OK, Some (s, query s), left)),
      core_step = (\<lambda>d (s, pending).
        if pending then (d, (s, False), SQLITE_ROW) else (d @ [s], (s, False), SQLITE_DONE)),
      core_finalize = (\<lambda>d s. (d, SQLITE_OK)),
      core_columns = (\<lambda>s. [''text'']), core_text = (\<lambda>s i. Some (fst s)),
      core_is_null = (\<lambda>s i. False), core_cols_granted = (\<lambda>d n. True), core_oom = (\<lambda>d. d),
      core_null_callback = (\<lambda>d. False), core_api_exit = (\<lambda>d rc. (d, rc)),
      core_errmsg = (\<lambda>d. Some ''error'')\<rparr>"

lemma log_core_ok [simp]: "core_ok (log_core bad query) d"
  by (simp add: log_core_def)

lemma log_core_steady: "steady (log_core bad query)"
  by (auto simp add: steady_def log_core_def)

lemma log_core_error [simp]: "core_error (log_core bad query) d rc = d"
  by (simp add: log_core_def)

lemma log_core_api_exit [simp]: "core_api_exit (log_core bad query) d rc = (d, rc)"
  by (simp add: log_core_def)

lemma log_core_errmsg [simp]: "core_errmsg (log_core bad query) d = Some ''error''"
  by (simp add: log_core_def)

lemma log_stmt:
  "stmt_run (log_core bad query) d (s, q) (if q then [([''text''], [Some s])] else [])
     (d @ [s]) SQLITE_OK"
proof -
  let ?c = "log_core bad query"
  have fin: "stmt_run ?c d (s, False) [] (d @ [s]) SQLITE_OK"
    by (rule stmt_last [of _ _ _ "d @ [s]" "(s, False)" SQLITE_DONE])
      (simp_all add: log_core_def sqlite_codes)
  have "stmt_run ?c d (s, True) [row_of ?c (s, False)] (d @ [s]) SQLITE_OK"
    by (rule stmt_row [OF _ fin]) (simp add: log_core_def)
  with fin show ?thesis by (simp add: row_of_def log_core_def)
qed

text \<open>A script of texts without semicolons is recorded statement by statement.\<close>

lemma log_script_one:
  assumes "\<not> bad s" "CHR '';'' \<notin> set s"
    and "script_run (log_core bad query) (d @ [s]) (dropWhile sqlite3Isspace z) rows d' rc"
  shows "script_run (log_core bad query) d (s @ CHR '';'' # z)
    ((if query s then [([''text''], [Some s])] else []) @ rows) d' rc"
proof (rule script_next)
  have "takeWhile (\<lambda>c. c \<noteq> CHR '';'') (s @ CHR '';'' # z) = s"
    "dropWhile (\<lambda>c. c \<noteq> CHR '';'') (s @ CHR '';'' # z) = CHR '';'' # z"
    using assms(2) by (auto intro!: takeWhile_append_stop dropWhile_append_stop)
  then show "core_prepare (log_core bad query) d (s @ CHR '';'' # z) =
      (d, SQLITE_OK, Some (s, query s), z)"
    using assms(1) by (simp add: log_core_def Let_def)
qed (use assms(3) log_stmt in auto)

lemma log_script_bad:
  assumes "bad s" "CHR '';'' \<notin> set s"
  shows "script_run (log_core bad query) d (s @ CHR '';'' # z) [] d SQLITE_ERROR"
proof (rule script_bad)
  have "takeWhile (\<lambda>c. c \<noteq> CHR '';'') (s @ CHR '';'' # z) = s"
    using assms(2) by (auto intro!: takeWhile_append_stop)
  then show "core_prepare (log_core bad query) d (s @ CHR '';'' # z) =
      (d, SQLITE_ERROR, None, s @ CHR '';'' # z)"
    using assms(1) by (simp add: log_core_def Let_def)
qed (simp_all add: sqlite_codes)

text \<open>The statements the recording engine cuts a script into, up to the first bad one.\<close>

lemma dropWhile_tl_shorter:
  "z \<noteq> [] \<Longrightarrow> length (dropWhile P (tl (dropWhile Q z))) < length z"
  using length_dropWhile_le [of P "tl (dropWhile Q z)"] length_dropWhile_le [of Q z]
  by (cases z) (auto simp add: less_Suc_eq_le)

function log_split :: "(string \<Rightarrow> bool) \<Rightarrow> string \<Rightarrow> string list \<times> int" where
  "log_split bad z =
     (if z = [] then ([], SQLITE_OK)
      else let s = takeWhile (\<lambda>c. c \<noteq> CHR '';'') z
           in if bad s then ([], SQLITE_ERROR)
              else case log_split bad (dropWhile sqlite3Isspace (tl (dropWhile (\<lambda>c. c \<noteq> CHR '';'') z))) of
                (ss, rc) \<Rightarrow> (s # ss, rc))"
  by pat_completeness auto

termination
  by (relation "measure (\<lambda>(bad, z). length z)") (simp_all add: dropWhile_tl_shorter)

declare log_split.simps [simp del]

lemma log_script:
  "script_run (log_core bad (\<lambda>_. False)) d z [] (d @ fst (log_split bad z)) (snd (log_split bad z))"
proof (induction bad z arbitrary: d rule: log_split.induct)
  case (1 bad z)
  let ?s = "takeWhile (\<lambda>c. c \<noteq> CHR '';'') z" and ?r = "tl (dropWhile (\<lambda>c. c \<noteq> CHR '';'') z)"
  let ?c = "log_core bad (\<lambda>_. False)"
  consider "z = []" | "z \<noteq> []" "bad ?s" | "z \<noteq> []" "\<not> bad ?s" by blast
  then show ?case
  proof cases
    case 1
    then show ?thesis by (simp add: log_split.simps script_end)
  next
    case 2
    then have "script_run ?c d z [] d SQLITE_ERROR"
      by (intro script_bad [of _ _ _ _ _ None z]) (simp_all add: log_core_def Let_def sqlite_codes)
    then show ?thesis using 2 by (simp add: log_split.simps [of bad z] Let_def)
  next
    case 3
    have prep: "core_prepare ?c d z = (d, SQLITE_OK, Some (?s, False), ?r)"
      using 3 by (simp add: log_core_def Let_def)
    have "stmt_run ?c d (?s, False) [] (d @ [?s]) SQLITE_OK"
      using log_stmt [of bad "\<lambda>_. False" d ?s False] by simp
    from script_next [OF 3(1) prep this 1 [OF 3(1) refl 3(2)]] show ?thesis
      using 3 by (simp add: log_split.simps [of bad z] Let_def case_prod_unfold)
  qed
qed

section \<open>Properties\<close>

text \<open>C10. \<open>sqlite3_exec\<close> refines the run of a script: it returns exactly when the run of the
  script ends, and then it has run the statements in order, each to its last row, up to the
  first one that fails to compile or to finish, and its code is the code of that failure.\<close>

theorem exec_without_callback:
  assumes "core_ok core d"
  shows "sqlite3_exec core d (Some z) None c False = Some r \<longleftrightarrow>
    (\<exists>rows d1 rc1. script_run core (core_error core d SQLITE_OK) z rows d1 rc1 \<and>
       r = (case core_api_exit core d1 rc1 of (d2, rc2) \<Rightarrow> (d2, c, rc2, None)))"
    (is "?l \<longleftrightarrow> ?r")
proof
  assume ?l
  then obtain x where x: "exec_loop core None (core_error core d SQLITE_OK) c SQLITE_OK z = Some x"
    "(case x of (d1, c1, rc1, ps) \<Rightarrow> (case core_api_exit core
        (case ps of None \<Rightarrow> d1 | Some s \<Rightarrow> fst (core_finalize core d1 s)) rc1 of
       (d2, rc2) \<Rightarrow> Some (d2, c1, rc2, None))) = Some r"
    using assms by (auto simp add: sqlite3_exec_def bind_eq_Some_conv)
  from exec_loop_sound [OF x(1) refl] obtain rows d1 rc1 where
    "x = (d1, c, rc1, None)" "script_run core (core_error core d SQLITE_OK) z rows d1 rc1"
    by auto
  with x(2) show ?r by (intro exI [of _ rows] exI [of _ d1] exI [of _ rc1]) (auto split: prod.splits)
next
  assume ?r
  then obtain rows d1 rc1 where run: "script_run core (core_error core d SQLITE_OK) z rows d1 rc1"
    and r: "r = (case core_api_exit core d1 rc1 of (d2, rc2) \<Rightarrow> (d2, c, rc2, None))"
    by blast
  have "exec_loop core None (core_error core d SQLITE_OK) c SQLITE_OK z = Some (d1, c, rc1, None)"
    using exec_loop_run [OF run, of None c] by (simp add: cb_ready_def feed_opt_def)
  then show ?l using assms r by (simp add: sqlite3_exec_def split: prod.split)
qed

theorem exec_without_callback_witness:
  "sqlite3_exec (log_core (\<lambda>s. s = ''b'') (\<lambda>_. False)) [] (Some ''a;b;c;'') None () False =
     Some ([''a''], (), SQLITE_ERROR, None)"
proof -
  let ?c = "log_core (\<lambda>s. s = ''b'') (\<lambda>_. False)"
  have "script_run ?c [''a''] ''b;c;'' [] [''a''] SQLITE_ERROR"
    using log_script_bad [of "\<lambda>s. s = ''b''" "''b''" _ "[''a'']" "''c;''"] by simp
  from log_script_one [of "\<lambda>s. s = ''b''" "''a''" "\<lambda>_. False" "[]" "''b;c;''"] this
  have "script_run ?c [] ''a;b;c;'' [] [''a''] SQLITE_ERROR"
    by (simp add: Isspace_byte space_byte_def uchar_def)
  then show ?thesis using exec_without_callback [of ?c "[]" "''a;b;c;''" "()"] by auto
qed

text \<open>With a callback that never asks to stop, on an engine whose columns are steady, every
  row of every statement reaches the callback once, in order, and the script runs as it does
  without one.\<close>

theorem exec_feeds_callback:
  assumes "core_ok core d" "steady core" "goes_on f"
    and "script_run core (core_error core d SQLITE_OK) z rows d1 rc1"
  shows "sqlite3_exec core d (Some z) (Some f) c False =
    (case core_api_exit core d1 rc1 of (d2, rc2) \<Rightarrow> Some (d2, feed f c rows, rc2, None))"
proof -
  have "exec_loop core (Some f) (core_error core d SQLITE_OK) c SQLITE_OK z =
      Some (d1, feed f c rows, rc1, None)"
    using exec_loop_run [OF assms(4), of "Some f" c] assms(2,3)
    by (simp add: cb_ready_def feed_opt_def)
  then show ?thesis using assms(1) by (simp add: sqlite3_exec_def split: prod.split)
qed

theorem exec_feeds_callback_witness:
  "sqlite3_exec (log_core (\<lambda>s. False) (\<lambda>_. True)) [] (Some ''a;'')
     (Some (\<lambda>c n vals ns. (c + n, 0))) (0::nat) False = Some ([''a''], 1, SQLITE_OK, None)"
proof -
  let ?c = "log_core (\<lambda>s. False) (\<lambda>_. True)"
  have "script_run ?c [] ''a;'' [([''text''], [Some ''a''])] [''a''] SQLITE_OK"
    using log_script_one [of "\<lambda>s. False" "''a''" "\<lambda>_. True" "[]" "[]"] script_end [of ?c "[''a'']"]
    by simp
  then show ?thesis
    using exec_feeds_callback [of ?c "[]" "\<lambda>c n vals ns. (c + n, 0)" "''a;''" _ _ _ 0] log_core_steady
    by (simp add: goes_on_def)
qed

end
