(* ===== verification/ByteFile.thy ===== *)
theory ByteFile
  imports Prelude
begin

text \<open>
  Byte files: what the layers of the storage path (the Storage component, the virtual
  file system of the ledger, the in-memory journal of SQLite) promise to the layer above.
  The contract is a locale over the successful outcomes of the operations, so that
  providers with different calling conventions can discharge it.
\<close>

section \<open>Slices and patches\<close>

definition slice :: "'a list \<Rightarrow> nat \<Rightarrow> nat \<Rightarrow> 'a list" where
  "slice xs off n = take n (drop off xs)"

definition splice :: "'a list \<Rightarrow> nat \<Rightarrow> 'a list \<Rightarrow> 'a list" where
  "splice xs off b = take off xs @ b @ drop (off + length b) xs"

lemma length_slice [simp]: "off + n \<le> length xs \<Longrightarrow> length (slice xs off n) = n"
  by (simp add: slice_def)

lemma length_splice [simp]:
  "off \<le> length xs \<Longrightarrow> length (splice xs off b) = max (length xs) (off + length b)"
  by (simp add: splice_def)

lemma slice_splice_same [simp]:
  "off \<le> length xs \<Longrightarrow> slice (splice xs off b) off (length b) = b"
  by (simp add: slice_def splice_def)

lemma slice_splice_before:
  "p + n \<le> off \<Longrightarrow> off \<le> length xs \<Longrightarrow> slice (splice xs off b) p n = slice xs p n"
  by (simp add: slice_def splice_def drop_take min_absorb1)

lemma slice_splice_after:
  assumes "off + length b \<le> p" "off \<le> length xs"
  shows "slice (splice xs off b) p n = slice xs p n"
proof -
  have "p = off + (length b + (p - (off + length b)))" using assms(1) by simp
  then have "drop p (splice xs off b) = drop (p - (off + length b)) (drop (off + length b) xs)"
    using assms by (simp add: splice_def)
  then show ?thesis using assms(1) by (simp add: slice_def)
qed

lemma splice_append: "off = length xs \<Longrightarrow> splice xs off b = xs @ b"
  by (simp add: splice_def)

lemma nth_splice:
  "off \<le> length xs \<Longrightarrow> i < max (length xs) (off + length b) \<Longrightarrow>
   splice xs off b ! i = (if off \<le> i \<and> i < off + length b then b ! (i - off) else xs ! i)"
  by (auto simp add: splice_def nth_append min_def)

lemma slice_all: "slice xs 0 (length xs) = xs"
  by (simp add: slice_def)

section \<open>The contract\<close>

datatype file_op = ReadOp nat nat "u8 list" | WriteOp nat "u8 list"

text \<open>A sequence of successful operations, and what it does to the bytes.\<close>

fun performs ::
  "('s \<Rightarrow> u8 list) \<Rightarrow> ('s \<Rightarrow> nat \<Rightarrow> nat \<Rightarrow> 's \<Rightarrow> u8 list \<Rightarrow> bool) \<Rightarrow>
   ('s \<Rightarrow> nat \<Rightarrow> u8 list \<Rightarrow> 's \<Rightarrow> bool) \<Rightarrow> 's \<Rightarrow> file_op list \<Rightarrow> 's \<Rightarrow> bool" where
  "performs bytes reads writes s [] t \<longleftrightarrow> t = s"
| "performs bytes reads writes s (ReadOp off n d # xs) t \<longleftrightarrow>
     off + n \<le> length (bytes s) \<and>
     (\<exists>s'. reads s off n s' d \<and> performs bytes reads writes s' xs t)"
| "performs bytes reads writes s (WriteOp off b # xs) t \<longleftrightarrow>
     off \<le> length (bytes s) \<and>
     (\<exists>s'. writes s off b s' \<and> performs bytes reads writes s' xs t)"

fun replay :: "u8 list \<Rightarrow> file_op list \<Rightarrow> u8 list" where
  "replay f [] = f"
| "replay f (ReadOp off n d # xs) = replay f xs"
| "replay f (WriteOp off b # xs) = replay (splice f off b) xs"

fun reads_agree :: "u8 list \<Rightarrow> file_op list \<Rightarrow> bool" where
  "reads_agree f [] \<longleftrightarrow> True"
| "reads_agree f (ReadOp off n d # xs) \<longleftrightarrow> d = slice f off n \<and> reads_agree f xs"
| "reads_agree f (WriteOp off b # xs) \<longleftrightarrow> reads_agree (splice f off b) xs"

locale byte_file =
  fixes inv :: "'s \<Rightarrow> bool"
    and bytes :: "'s \<Rightarrow> u8 list"
    and reads :: "'s \<Rightarrow> nat \<Rightarrow> nat \<Rightarrow> 's \<Rightarrow> u8 list \<Rightarrow> bool"
    and writes :: "'s \<Rightarrow> nat \<Rightarrow> u8 list \<Rightarrow> 's \<Rightarrow> bool"
  assumes read_law: "inv s \<Longrightarrow> reads s off n s' d \<Longrightarrow> off + n \<le> length (bytes s) \<Longrightarrow>
      inv s' \<and> bytes s' = bytes s \<and> d = slice (bytes s) off n"
    and write_law: "inv s \<Longrightarrow> writes s off b s' \<Longrightarrow> off \<le> length (bytes s) \<Longrightarrow>
      inv s' \<and> bytes s' = splice (bytes s) off b"
begin

lemma read_after_write:
  assumes "inv s" "writes s off b s1" "off \<le> length (bytes s)" "reads s1 off (length b) s2 d"
  shows "d = b"
  using write_law [OF assms(1-3)] read_law [of s1 off "length b" s2 d] assms(3,4) by auto

lemma read_elsewhere:
  assumes "inv s" "writes s off b s1" "off \<le> length (bytes s)" "reads s1 p n s2 d"
    and "p + n \<le> length (bytes s)" "p + n \<le> off \<or> off + length b \<le> p"
  shows "d = slice (bytes s) p n"
  using write_law [OF assms(1-3)] read_law [of s1 p n s2 d] assms(3-6)
  by (auto simp add: slice_splice_before slice_splice_after)

lemma performs_refines:
  "inv s \<Longrightarrow> performs bytes reads writes s xs t \<Longrightarrow>
     inv t \<and> bytes t = replay (bytes s) xs \<and> reads_agree (bytes s) xs"
proof (induction xs arbitrary: s)
  case Nil
  then show ?case by simp
next
  case (Cons x xs)
  show ?case
  proof (cases x)
    case (ReadOp off n d)
    with Cons.prems obtain s' where "off + n \<le> length (bytes s)" "reads s off n s' d" "performs bytes reads writes s' xs t"
      by auto
    with read_law [OF Cons.prems(1)] Cons.IH [of s'] ReadOp show ?thesis by auto
  next
    case (WriteOp off b)
    with Cons.prems obtain s' where "off \<le> length (bytes s)" "writes s off b s'" "performs bytes reads writes s' xs t"
      by auto
    with write_law [OF Cons.prems(1)] Cons.IH [of s'] WriteOp show ?thesis by auto
  qed
qed

end

end
