(* ===== verification/StorageDisk.thy ===== *)
theory StorageDisk
  imports ByteFile
begin

text \<open>
  The storage component, components/Storage/src/storage.c: a simulated block device of
  1 MB and the size of the one file it holds.  The C heap is a parameter: \<open>grants n\<close>
  says whether \<open>malloc\<close> or \<open>calloc\<close> returns a block of \<open>n\<close> bytes.
\<close>

section \<open>State and operations\<close>

definition DISK_SIZE :: int where "DISK_SIZE = 1048576"

record disk_state =
  physical_disk :: "nat \<Rightarrow> u8"
  current_file_size :: int

definition disk_init :: disk_state where
  "disk_init = \<lparr>physical_disk = (\<lambda>_. 0), current_file_size = 0\<rparr>"

text \<open>The conversion of an \<open>int\<close> argument to the 64-bit \<open>size_t\<close>.\<close>

definition size_t :: "int \<Rightarrow> int" where
  "size_t n = n mod 2 ^ 64"

definition disk_open :: "disk_state \<Rightarrow> string \<Rightarrow> disk_state \<times> int" where
  "disk_open st filename = (st, 0)"

definition disk_close :: "disk_state \<Rightarrow> disk_state \<times> int" where
  "disk_close st = (st, 0)"

text \<open>\<open>memcpy\<close> from and to the device: any byte outside the array is a fault.\<close>

definition disk_load :: "disk_state \<Rightarrow> int \<Rightarrow> int \<Rightarrow> u8 list res" where
  "disk_load st off n =
     (if 0 \<le> off \<and> off + n \<le> DISK_SIZE
      then Inr (map (physical_disk st) [nat off ..< nat off + nat n]) else Inl OutOfBounds)"

definition disk_store :: "disk_state \<Rightarrow> int \<Rightarrow> u8 list \<Rightarrow> disk_state res" where
  "disk_store st off b =
     (if 0 \<le> off \<and> off + int (length b) \<le> DISK_SIZE
      then Inr (st\<lparr>physical_disk := (\<lambda>i. if nat off \<le> i \<and> i < nat off + length b
                                       then b ! (i - nat off) else physical_disk st i)\<rparr>)
      else Inl OutOfBounds)"

text \<open>\<open>disk_read\<close>: the result code, \<open>*buf_sz\<close> and \<open>*buf\<close>.\<close>

definition disk_read ::
  "(int \<Rightarrow> bool) \<Rightarrow> disk_state \<Rightarrow> int \<Rightarrow> int \<Rightarrow> (int \<times> int \<times> u8 list option) res" where
  "disk_read grants st offset amount =
     (if offset \<ge> current_file_size st then
        Inr (0, size_t amount,
             if grants (size_t amount) then Some (replicate (nat (size_t amount)) 0) else None)
      else
        bind_res (add_int offset amount) (\<lambda>end_off.
        bind_res (if end_off > current_file_size st
                  then sub_int (current_file_size st) offset else Inr amount) (\<lambda>bytes_to_read.
          if \<not> grants (size_t amount) then Inr (-1, 0, None)
          else if size_t bytes_to_read > size_t amount then Inl BufferOverflow
          else
            bind_res (disk_load st offset (size_t bytes_to_read)) (\<lambda>d.
              Inr (0, size_t amount,
                   Some (d @ replicate (nat (size_t amount) - length d) 0))))))"

text \<open>\<open>disk_write\<close>: the bytes at \<open>buf\<close> are the list \<open>buf\<close>, \<open>buf_sz\<close> is the
  separate length argument of the RPC.\<close>

definition disk_write ::
  "disk_state \<Rightarrow> int \<Rightarrow> int \<Rightarrow> nat \<Rightarrow> u8 list \<Rightarrow> (disk_state \<times> int) res" where
  "disk_write st offset amount buf_sz buf =
     bind_res (add_int offset amount) (\<lambda>end_off.
       if end_off > DISK_SIZE then Inr (st, -1)
       else if length buf < buf_sz then Inl OutOfBounds
       else
         bind_res (disk_store st offset (take buf_sz buf)) (\<lambda>st'.
           Inr (if end_off > current_file_size st'
                then st'\<lparr>current_file_size := end_off\<rparr> else st', 0)))"

definition disk_get_size :: "disk_state \<Rightarrow> int \<times> int" where
  "disk_get_size st = (0, current_file_size st)"

definition disk_sync :: "disk_state \<Rightarrow> disk_state \<times> int" where
  "disk_sync st = (st, 0)"

section \<open>Invariant and abstraction\<close>

text \<open>The file lies inside the device and everything past its end is still zero.\<close>

definition disk_inv :: "disk_state \<Rightarrow> bool" where
  "disk_inv st \<longleftrightarrow> 0 \<le> current_file_size st \<and> current_file_size st \<le> DISK_SIZE \<and>
     (\<forall>i. current_file_size st \<le> int i \<longrightarrow> physical_disk st i = 0)"

definition file_bytes :: "disk_state \<Rightarrow> u8 list" where
  "file_bytes st = map (physical_disk st) [0 ..< nat (current_file_size st)]"

text \<open>The file extended with zeroes, which is what a read past the end returns.\<close>

definition zslice :: "disk_state \<Rightarrow> nat \<Rightarrow> nat \<Rightarrow> u8 list" where
  "zslice st off n = map (physical_disk st) [off ..< off + n]"

lemma disk_inv_init [inv_intros]: "disk_inv disk_init"
  by (simp add: disk_inv_def disk_init_def DISK_SIZE_def)

lemma length_file_bytes [simp]: "length (file_bytes st) = nat (current_file_size st)"
  by (simp add: file_bytes_def)

lemma length_zslice [simp]: "length (zslice st off n) = n"
  by (simp add: zslice_def)

lemma zslice_in_file:
  "off + n \<le> nat (current_file_size st) \<Longrightarrow> zslice st off n = slice (file_bytes st) off n"
  by (rule nth_equalityI) (auto simp add: zslice_def slice_def file_bytes_def)

lemma zslice_past_end:
  assumes "disk_inv st" "nat (current_file_size st) \<le> off"
  shows "zslice st off n = replicate n 0"
  using assms by (intro nth_equalityI) (auto simp add: zslice_def disk_inv_def)

lemma zslice_split: "m \<le> n \<Longrightarrow> zslice st off n = zslice st off m @ zslice st (off + m) (n - m)"
proof -
  assume "m \<le> n"
  then have "[off ..< off + n] = [off ..< off + m] @ [off + m ..< off + n]"
    using upt_add_eq_append [of off "off + m" "n - m"] by simp
  then show ?thesis using \<open>m \<le> n\<close> by (simp add: zslice_def)
qed

lemma size_t_nonneg [simp]: "0 \<le> n \<Longrightarrow> int_ok n \<Longrightarrow> size_t n = n"
  by (simp add: size_t_def int_range_defs)

section \<open>Correctness of reads and writes\<close>

lemma disk_read_ok:
  assumes inv: "disk_inv st" and n: "int_ok (int off + int n)" and g: "grants (int n)"
  shows "disk_read grants st (int off) (int n) = Inr (0, int n, Some (zslice st off n))"
proof (cases "int off \<ge> current_file_size st")
  case True
  have "int_ok (int n)" using n by (auto simp add: int_range_defs)
  moreover have "zslice st off n = replicate n 0"
    using zslice_past_end [OF inv, of off n] True by simp
  ultimately show ?thesis using True g by (simp add: disk_read_def)
next
  case False
  let ?m = "min n (nat (current_file_size st) - off)"
  have okn: "int_ok (int n)" using n by (auto simp add: int_range_defs)
  have bnd: "0 \<le> current_file_size st" "current_file_size st \<le> DISK_SIZE"
    using inv by (auto simp add: disk_inv_def)
  have m: "int off + int ?m \<le> DISK_SIZE" "int_ok (int ?m)"
    using bnd False okn by (auto simp add: int_range_defs)
  have tl: "zslice st (off + ?m) (n - ?m) = replicate (n - ?m) 0"
    using zslice_past_end [OF inv, of "off + ?m" "n - ?m"] by (cases "n = ?m") (auto simp add: zslice_def)
  have read: "(if int off + int n > current_file_size st
      then sub_int (current_file_size st) (int off) else Inr (int n)) = Inr (int ?m)"
    using False bnd okn by (auto simp add: sub_int_def int_range_defs DISK_SIZE_def)
  show ?thesis
    using False n g okn m tl zslice_split [of ?m n st off]
    by (simp add: disk_read_def add_int_def read disk_load_def zslice_def [symmetric])
qed

lemma disk_write_ok:
  assumes inv: "disk_inv st" and room: "int off + int (length b) \<le> DISK_SIZE"
  shows "\<exists>st'. disk_write st (int off) (int (length b)) (length b) b = Inr (st', 0) \<and> disk_inv st' \<and>
    current_file_size st' = max (current_file_size st) (int off + int (length b)) \<and>
    physical_disk st' = (\<lambda>i. if off \<le> i \<and> i < off + length b then b ! (i - off) else physical_disk st i)"
  using assms
  by (auto simp add: disk_write_def add_int_def int_range_defs DISK_SIZE_def disk_store_def disk_inv_def)

lemma disk_write_full:
  assumes "int off + n > DISK_SIZE" "int_ok (int off + n)"
  shows "disk_write st (int off) n k b = Inr (st, -1)"
  using assms by (simp add: disk_write_def add_int_def)

lemma file_bytes_write:
  assumes "disk_inv st" "off \<le> length (file_bytes st)"
    and "current_file_size st' = max (current_file_size st) (int off + int (length b))"
    and "physical_disk st' = (\<lambda>i. if off \<le> i \<and> i < off + length b then b ! (i - off) else physical_disk st i)"
  shows "file_bytes st' = splice (file_bytes st) off b"
proof (rule nth_equalityI)
  show "length (file_bytes st') = length (splice (file_bytes st) off b)"
    using assms by (auto simp add: disk_inv_def max_def)
next
  fix i
  assume "i < length (file_bytes st')"
  with assms show "file_bytes st' ! i = splice (file_bytes st) off b ! i"
    by (auto simp add: nth_splice file_bytes_def disk_inv_def max_def split: if_splits)
qed

section \<open>The storage provides a byte file\<close>

definition disk_reads ::
  "disk_state \<Rightarrow> nat \<Rightarrow> nat \<Rightarrow> disk_state \<Rightarrow> u8 list \<Rightarrow> bool" where
  "disk_reads st off n st' d \<longleftrightarrow> st' = st \<and>
     disk_read (\<lambda>_. True) st (int off) (int n) = Inr (0, int n, Some d)"

definition disk_writes :: "disk_state \<Rightarrow> nat \<Rightarrow> u8 list \<Rightarrow> disk_state \<Rightarrow> bool" where
  "disk_writes st off b st' \<longleftrightarrow>
     disk_write st (int off) (int (length b)) (length b) b = Inr (st', 0)"

lemma disk_writes_room: "disk_writes st off b st' \<Longrightarrow> int off + int (length b) \<le> DISK_SIZE"
  by (auto simp add: disk_writes_def disk_write_def bind_res_eq_Inr add_int_def to_int_eq_Inr
      split: if_splits)

interpretation disk_file: byte_file disk_inv file_bytes disk_reads disk_writes
proof
  fix st st' :: disk_state and off n and d :: "u8 list"
  assume inv: "disk_inv st" and r: "disk_reads st off n st' d" and len: "off + n \<le> length (file_bytes st)"
  have "int_ok (int off + int n)"
    using len inv by (auto simp add: disk_inv_def DISK_SIZE_def int_range_defs)
  then have "disk_read (\<lambda>_. True) st (int off) (int n) = Inr (0, int n, Some (zslice st off n))"
    using disk_read_ok [OF inv, of off n "\<lambda>_. True"] by simp
  with r len inv show "disk_inv st' \<and> file_bytes st' = file_bytes st \<and> d = slice (file_bytes st) off n"
    by (simp add: disk_reads_def zslice_in_file)
next
  fix st st' :: disk_state and off and b :: "u8 list"
  assume inv: "disk_inv st" and w: "disk_writes st off b st'" and len: "off \<le> length (file_bytes st)"
  from disk_write_ok [OF inv disk_writes_room [OF w]] w
  show "disk_inv st' \<and> file_bytes st' = splice (file_bytes st) off b"
    using file_bytes_write [OF inv len] by (auto simp add: disk_writes_def)
qed

section \<open>Refinement of an abstract file\<close>

text \<open>The abstract file is its list of bytes.  A read past the end returns zeroes and a write
  past the end fills the gap with zeroes; a write that would pass the end of the device is
  refused.\<close>

datatype disk_op = DRead nat nat | DWrite nat "u8 list" | DSize

datatype disk_out = Data "u8 list" | Code int

definition file_read :: "u8 list \<Rightarrow> nat \<Rightarrow> nat \<Rightarrow> u8 list" where
  "file_read f off n = take n (drop off f @ replicate n 0)"

definition file_write :: "u8 list \<Rightarrow> nat \<Rightarrow> u8 list \<Rightarrow> u8 list" where
  "file_write f off b = splice (f @ replicate (off - length f) 0) off b"

fun file_step :: "u8 list \<Rightarrow> disk_op \<Rightarrow> u8 list \<times> disk_out" where
  "file_step f (DRead off n) = (f, Data (file_read f off n))"
| "file_step f (DWrite off b) =
     (if off + length b \<le> 1048576 then (file_write f off b, Code 0) else (f, Code (-1)))"
| "file_step f DSize = (f, Code (int (length f)))"

fun disk_step :: "(int \<Rightarrow> bool) \<Rightarrow> disk_state \<Rightarrow> disk_op \<Rightarrow> (disk_state \<times> disk_out) res" where
  "disk_step grants st (DRead off n) =
     bind_res (disk_read grants st (int off) (int n)) (\<lambda>(rc, sz, b).
       Inr (st, case b of None \<Rightarrow> Code rc | Some d \<Rightarrow> Data d))"
| "disk_step grants st (DWrite off b) =
     bind_res (disk_write st (int off) (int (length b)) (length b) b) (\<lambda>(st', rc). Inr (st', Code rc))"
| "disk_step grants st DSize = Inr (st, Code (snd (disk_get_size st)))"

fun disk_run :: "(int \<Rightarrow> bool) \<Rightarrow> disk_state \<Rightarrow> disk_op list \<Rightarrow> (disk_state \<times> disk_out list) res" where
  "disk_run grants st [] = Inr (st, [])"
| "disk_run grants st (x # xs) =
     bind_res (disk_step grants st x) (\<lambda>(st', r).
     bind_res (disk_run grants st' xs) (\<lambda>(st'', rs). Inr (st'', r # rs)))"

fun file_run :: "u8 list \<Rightarrow> disk_op list \<Rightarrow> u8 list \<times> disk_out list" where
  "file_run f [] = (f, [])"
| "file_run f (x # xs) =
     (let (f', r) = file_step f x; (f'', rs) = file_run f' xs in (f'', r # rs))"

text \<open>The arguments an \<open>int\<close> caller can pass without overflowing the end offset.\<close>

fun in_int_range :: "disk_op \<Rightarrow> bool" where
  "in_int_range (DRead off n) \<longleftrightarrow> int_ok (int off + int n)"
| "in_int_range (DWrite off b) \<longleftrightarrow> int_ok (int off + int (length b))"
| "in_int_range DSize \<longleftrightarrow> True"

lemma nth_file_read:
  "i < n \<Longrightarrow> file_read f off n ! i = (if off + i < length f then f ! (off + i) else 0)"
  by (auto simp add: file_read_def nth_append less_diff_conv add.commute)

lemma length_file_read [simp]: "length (file_read f off n) = n"
  by (simp add: file_read_def)

lemma zslice_file_read: "disk_inv st \<Longrightarrow> zslice st off n = file_read (file_bytes st) off n"
  by (rule nth_equalityI)
    (auto simp add: nth_file_read zslice_def file_bytes_def disk_inv_def)

lemma file_bytes_file_write:
  assumes "disk_inv st"
    and "current_file_size st' = max (current_file_size st) (int off + int (length b))"
    and "physical_disk st' = (\<lambda>i. if off \<le> i \<and> i < off + length b then b ! (i - off) else physical_disk st i)"
  shows "file_bytes st' = file_write (file_bytes st) off b"
proof (rule nth_equalityI)
  show "length (file_bytes st') = length (file_write (file_bytes st) off b)"
    using assms by (auto simp add: disk_inv_def max_def file_write_def)
next
  fix i
  assume "i < length (file_bytes st')"
  with assms show "file_bytes st' ! i = file_write (file_bytes st) off b ! i"
    by (auto simp add: file_write_def nth_splice nth_append file_bytes_def disk_inv_def max_def
        split: if_splits)
qed

lemma disk_step_refines:
  assumes "disk_inv st" "in_int_range x"
  shows "\<exists>st' r. disk_step (\<lambda>_. True) st x = Inr (st', r) \<and> disk_inv st' \<and>
    file_step (file_bytes st) x = (file_bytes st', r)"
proof (cases x)
  case (DRead off n)
  then show ?thesis
    using assms disk_read_ok [OF assms(1), of off n "\<lambda>_. True"] by (simp add: zslice_file_read)
next
  case (DWrite off b)
  show ?thesis
  proof (cases "off + length b \<le> 1048576")
    case True
    then show ?thesis
      using disk_write_ok [OF assms(1), of off b] file_bytes_file_write [OF assms(1)] DWrite
      by (auto simp add: DISK_SIZE_def)
  next
    case False
    then show ?thesis
      using DWrite assms by (simp add: disk_write_full DISK_SIZE_def)
  qed
next
  case DSize
  then show ?thesis using assms by (simp add: disk_get_size_def disk_inv_def)
qed

lemma disk_run_refines:
  "disk_inv st \<Longrightarrow> \<forall>x\<in>set xs. in_int_range x \<Longrightarrow>
   \<exists>st' rs. disk_run (\<lambda>_. True) st xs = Inr (st', rs) \<and> disk_inv st' \<and>
     file_run (file_bytes st) xs = (file_bytes st', rs)"
proof (induction xs arbitrary: st)
  case Nil
  then show ?case by simp
next
  case (Cons x xs)
  obtain st1 r where 1: "disk_step (\<lambda>_. True) st x = Inr (st1, r)" "disk_inv st1"
    "file_step (file_bytes st) x = (file_bytes st1, r)"
    using disk_step_refines [OF Cons.prems(1), of x] Cons.prems(2) by auto
  then show ?case using Cons.IH [OF 1(2)] Cons.prems(2) by auto
qed

section \<open>Properties\<close>

text \<open>C6. Any sequence of reads, writes and size queries with end offsets in the range of
  \<open>int\<close> runs on the storage component without a fault and answers exactly as the abstract
  file does: writes persist, later writes win, gaps and the space past the end read as
  zeroes, and a write past 1 MB is refused and changes nothing.\<close>

theorem storage_refines_file:
  assumes "\<forall>x\<in>set xs. in_int_range x"
  shows "\<exists>st rs. disk_run (\<lambda>_. True) disk_init xs = Inr (st, rs) \<and> disk_inv st \<and>
    file_run [] xs = (file_bytes st, rs)"
proof -
  have "file_bytes disk_init = []" by (simp add: file_bytes_def disk_init_def)
  then show ?thesis using disk_run_refines [OF disk_inv_init assms] by simp
qed

theorem storage_refines_file_witness:
  "\<exists>st rs. disk_run (\<lambda>_. True) disk_init [DWrite 2 [7, 8], DRead 0 6, DWrite 1048575 [1, 2], DSize]
       = Inr (st, rs) \<and> disk_inv st \<and>
     file_run [] [DWrite 2 [7, 8], DRead 0 6, DWrite 1048575 [1, 2], DSize] = (file_bytes st, rs)"
  by (rule storage_refines_file) (simp add: int_range_defs)

text \<open>When \<open>disk_write\<close> goes wrong: exactly when the end offset overflows, or when the
  check of \<open>offset + amount\<close> passes although the copy of \<open>buf_sz\<close> bytes leaves the
  device (\<open>offset\<close> negative or \<open>buf_sz\<close> larger than the room left) or reads past
  the caller's buffer.\<close>

theorem disk_write_fault_iff:
  "disk_write st offset amount buf_sz buf = Inl e \<longleftrightarrow>
     (if int_ok (offset + amount) then
        e = OutOfBounds \<and> offset + amount \<le> DISK_SIZE \<and>
        (length buf < buf_sz \<or> offset < 0 \<or> offset + int buf_sz > DISK_SIZE)
      else e = SignedOverflow)"
  by (auto simp add: disk_write_def bind_res_eq_Inl add_int_def to_int_def disk_store_def)

end
