(* ===== verification/LedgerVfs.thy ===== *)
theory LedgerVfs
  imports SqliteOs StorageDisk
begin

text \<open>
  The virtual file system that components/Ledger/src/ledger.c gives to SQLite: every
  method forwards to the Storage component over the \<open>Disk\<close> RPC interface.  The state
  behind a handle is therefore the state of the storage component; \<open>grants\<close> is its heap.
\<close>

section \<open>The file methods\<close>

definition sel4_xRead ::
  "(int \<Rightarrow> bool) \<Rightarrow> disk_state \<Rightarrow> int \<Rightarrow> int \<Rightarrow> (int \<times> u8 list option) res" where
  "sel4_xRead grants st iAmt iOfst =
     bind_res (disk_read grants st (cast_int iOfst) iAmt) (\<lambda>(rc, out_sz, out_buf).
       case out_buf of
         None \<Rightarrow> Inr (SQLITE_IOERR_READ, None)
       | Some b \<Rightarrow>
           if rc \<noteq> 0 then Inr (SQLITE_IOERR_READ, None)
           else if int (length b) < size_t iAmt then Inl OutOfBounds
           else Inr (SQLITE_OK, Some (take (nat (size_t iAmt)) b)))"

definition sel4_xWrite ::
  "disk_state \<Rightarrow> u8 list \<Rightarrow> int \<Rightarrow> int \<Rightarrow> (disk_state \<times> int) res" where
  "sel4_xWrite st buf iAmt iOfst =
     bind_res (disk_write st (cast_int iOfst) iAmt (nat (size_t iAmt)) buf) (\<lambda>(st', rc).
       Inr (st', if rc = 0 then SQLITE_OK else SQLITE_IOERR_WRITE))"

definition sel4_xFileSize :: "disk_state \<Rightarrow> int \<times> int option" where
  "sel4_xFileSize st =
     (let (rc, size) = disk_get_size st
      in if rc = 0 then (SQLITE_OK, Some size) else (SQLITE_IOERR, None))"

definition sel4_xTruncate :: "disk_state \<Rightarrow> int \<Rightarrow> disk_state \<times> int" where
  "sel4_xTruncate st sz = (st, SQLITE_OK)"

definition sel4_xSync :: "disk_state \<Rightarrow> int \<Rightarrow> disk_state \<times> int" where
  "sel4_xSync st flags = (fst (disk_sync st), SQLITE_OK)"

definition sel4_xClose :: "disk_state \<Rightarrow> disk_state \<times> int" where
  "sel4_xClose st = (fst (disk_close st), SQLITE_OK)"

definition sel4_xLock :: "disk_state \<Rightarrow> int \<Rightarrow> disk_state \<times> int" where
  "sel4_xLock st lockType = (st, SQLITE_OK)"

definition sel4_xUnlock :: "disk_state \<Rightarrow> int \<Rightarrow> disk_state \<times> int" where
  "sel4_xUnlock st lockType = (st, SQLITE_OK)"

definition sel4_xCheckReservedLock :: "disk_state \<Rightarrow> int \<times> int" where
  "sel4_xCheckReservedLock st = (SQLITE_OK, 0)"

definition sel4_xFileControl :: "disk_state \<Rightarrow> int \<Rightarrow> int" where
  "sel4_xFileControl st opc = SQLITE_NOTFOUND"

definition sel4_xSectorSize :: "disk_state \<Rightarrow> int" where
  "sel4_xSectorSize st = 4096"

definition sel4_xDeviceCharacteristics :: "disk_state \<Rightarrow> int" where
  "sel4_xDeviceCharacteristics st = 0"

definition sel4_io_methods :: "(int \<Rightarrow> bool) \<Rightarrow> disk_state io_methods" where
  "sel4_io_methods grants =
     \<lparr>im_iVersion = 1, im_xClose = sel4_xClose, im_xRead = sel4_xRead grants,
      im_xWrite = sel4_xWrite, im_xTruncate = sel4_xTruncate, im_xSync = sel4_xSync,
      im_xFileSize = sel4_xFileSize, im_xLock = sel4_xLock, im_xUnlock = sel4_xUnlock,
      im_xCheckReservedLock = sel4_xCheckReservedLock, im_xFileControl = sel4_xFileControl,
      im_xSectorSize = Some sel4_xSectorSize,
      im_xDeviceCharacteristics = sel4_xDeviceCharacteristics\<rparr>"

section \<open>The file-system methods\<close>

definition sel4_xOpen ::
  "(int \<Rightarrow> bool) \<Rightarrow> disk_state \<Rightarrow> string option \<Rightarrow> int \<Rightarrow>
   disk_state \<times> disk_state sqlite3_file \<times> int \<times> int" where
  "sel4_xOpen grants st zName flags =
     (fst (disk_open st (case zName of None \<Rightarrow> ''main_db'' | Some s \<Rightarrow> s)),
      \<lparr>pMethods = Some (sel4_io_methods grants)\<rparr>, flags, SQLITE_OK)"

definition sel4_xDelete :: "disk_state \<Rightarrow> string \<Rightarrow> int \<Rightarrow> disk_state \<times> int" where
  "sel4_xDelete st zName syncDir = (st, SQLITE_OK)"

definition sel4_xAccess :: "disk_state \<Rightarrow> string \<Rightarrow> int \<Rightarrow> int \<times> int" where
  "sel4_xAccess st zName flags = (SQLITE_OK, 1)"

text \<open>\<open>sqlite3_snprintf\<close> with the format \<open>%s\<close> keeps what fits with the terminator.\<close>

definition sel4_xFullPathname :: "string \<Rightarrow> nat \<Rightarrow> int \<times> string" where
  "sel4_xFullPathname zName nOut = (SQLITE_OK, take (nOut - 1) zName)"

definition sel4_vfs :: "(int \<Rightarrow> bool) \<Rightarrow> disk_state sqlite3_vfs" where
  "sel4_vfs grants =
     \<lparr>v_iVersion = 1, v_szOsFile = 8, v_mxPathname = 32, v_zName = ''sel4_vfs'',
      v_xOpen = sel4_xOpen grants, v_xDelete = Some sel4_xDelete, v_xAccess = sel4_xAccess,
      v_xFullPathname = sel4_xFullPathname, v_xRandomness = None, v_xSleep = None,
      v_xCurrentTime = None, v_xGetLastError = None, v_xCurrentTimeInt64 = None\<rparr>"

section \<open>Handles\<close>

text \<open>The handles the file system hands out, whatever the name and the flags.\<close>

definition sel4_handle :: "(int \<Rightarrow> bool) \<Rightarrow> disk_state sqlite3_file" where
  "sel4_handle grants = \<lparr>pMethods = Some (sel4_io_methods grants)\<rparr>"

lemma open_handle:
  "sqlite3OsOpen (sel4_vfs grants) st zName flags =
     (st, sel4_handle grants, vfs_open_mask flags, SQLITE_OK)"
  by (simp add: sqlite3OsOpen_def sel4_vfs_def sel4_xOpen_def disk_open_def sel4_handle_def)

lemma os_read_handle [simp]:
  "sqlite3OsRead (sel4_handle grants) st amt off = sel4_xRead grants st amt off"
  by (simp add: sqlite3OsRead_def file_call_def sel4_handle_def sel4_io_methods_def)

lemma os_write_handle [simp]:
  "sqlite3OsWrite (sel4_handle grants) st buf amt off = sel4_xWrite st buf amt off"
  by (simp add: sqlite3OsWrite_def file_call_def sel4_handle_def sel4_io_methods_def)

lemma os_size_handle [simp]:
  "sqlite3OsFileSize (sel4_handle grants) st = Inr (SQLITE_OK, Some (current_file_size st))"
  by (simp add: sqlite3OsFileSize_def file_call_def sel4_handle_def sel4_io_methods_def
      sel4_xFileSize_def disk_get_size_def)

section \<open>The handles refine one abstract file\<close>

datatype vfs_out = VData "u8 list" | VSize int | VCode int

text \<open>One call of the database core through a handle.\<close>

fun vfs_step ::
  "disk_state sqlite3_file \<Rightarrow> disk_state \<Rightarrow> disk_op \<Rightarrow> (disk_state \<times> vfs_out) res" where
  "vfs_step fh st (DRead off n) =
     bind_res (sqlite3OsRead fh st (int n) (int off)) (\<lambda>(rc, b).
       Inr (st, case b of None \<Rightarrow> VCode rc | Some d \<Rightarrow> VData d))"
| "vfs_step fh st (DWrite off b) =
     bind_res (sqlite3OsWrite fh st b (int (length b)) (int off)) (\<lambda>(st', rc). Inr (st', VCode rc))"
| "vfs_step fh st DSize =
     bind_res (sqlite3OsFileSize fh st) (\<lambda>(rc, s).
       Inr (st, case s of None \<Rightarrow> VCode rc | Some n \<Rightarrow> VSize n))"

fun vfs_run ::
  "disk_state \<Rightarrow> (disk_state sqlite3_file \<times> disk_op) list \<Rightarrow> (disk_state \<times> vfs_out list) res" where
  "vfs_run st [] = Inr (st, [])"
| "vfs_run st ((fh, x) # xs) =
     bind_res (vfs_step fh st x) (\<lambda>(st', r).
     bind_res (vfs_run st' xs) (\<lambda>(st'', rs). Inr (st'', r # rs)))"

text \<open>How SQLite sees the answers of the abstract file.\<close>

fun vfs_view :: "disk_op \<Rightarrow> disk_out \<Rightarrow> vfs_out" where
  "vfs_view DSize (Code n) = VSize n"
| "vfs_view x (Data d) = VData d"
| "vfs_view x (Code n) = VCode (if n = 0 then SQLITE_OK else SQLITE_IOERR_WRITE)"

lemma vfs_step_refines:
  assumes inv: "disk_inv st" and "in_int_range x"
  shows "\<exists>st' r. vfs_step (sel4_handle (\<lambda>_. True)) st x = Inr (st', vfs_view x r) \<and> disk_inv st' \<and>
    file_step (file_bytes st) x = (file_bytes st', r)"
proof (cases x)
  case (DRead off n)
  then have "int_ok (int off + int n)" "int_ok (int off)" "int_ok (int n)"
    using assms(2) by (auto simp add: int_range_defs)
  then show ?thesis
    using DRead inv disk_read_ok [OF inv, of off n "\<lambda>_. True"]
    by (simp add: sel4_xRead_def zslice_file_read)
next
  case (DWrite off b)
  then have ok: "int_ok (int off + int (length b))" "int_ok (int off)" "int_ok (int (length b))"
    using assms(2) by (auto simp add: int_range_defs)
  from disk_step_refines [OF inv, of x] assms(2) DWrite
  obtain st' rc where "disk_write st (int off) (int (length b)) (length b) b = Inr (st', rc)"
    "disk_inv st'" "file_step (file_bytes st) x = (file_bytes st', Code rc)"
    by (auto simp add: bind_res_eq_Inr)
  then show ?thesis using DWrite ok by (auto simp add: sel4_xWrite_def)
next
  case DSize
  then show ?thesis using inv by (simp add: disk_inv_def)
qed

lemma vfs_run_refines:
  "disk_inv st \<Longrightarrow> \<forall>(fh, x)\<in>set xs. fh = sel4_handle (\<lambda>_. True) \<and> in_int_range x \<Longrightarrow>
   \<exists>st' rs. vfs_run st xs = Inr (st', map2 vfs_view (map snd xs) rs) \<and> disk_inv st' \<and>
     length rs = length xs \<and> file_run (file_bytes st) (map snd xs) = (file_bytes st', rs)"
proof (induction xs arbitrary: st)
  case Nil
  then show ?case by simp
next
  case (Cons fx xs)
  obtain fh x where fx: "fx = (fh, x)" by (cases fx)
  with Cons.prems have fh: "fh = sel4_handle (\<lambda>_. True)" "in_int_range x" by auto
  from vfs_step_refines [OF Cons.prems(1) fh(2)] obtain st1 r where 1:
    "vfs_step fh st x = Inr (st1, vfs_view x r)" "disk_inv st1"
    "file_step (file_bytes st) x = (file_bytes st1, r)"
    unfolding fh(1) by blast
  obtain st2 rs where "vfs_run st1 xs = Inr (st2, map2 vfs_view (map snd xs) rs)" "disk_inv st2"
    "length rs = length xs" "file_run (file_bytes st1) (map snd xs) = (file_bytes st2, rs)"
    using Cons.IH [OF 1(2)] Cons.prems(2) by auto
  then show ?case using 1 fx by (auto intro!: exI [of _ "r # rs"])
qed

section \<open>Properties\<close>

text \<open>C5. Reads, writes and size queries of SQLite, each through a handle the seL4 file system
  opened, answer as one zero-extended file does: data is read back as written, and only a
  write past the end of the device fails.  The names the handles were opened under do not
  occur in the answer: all files of the file system are the same bytes.\<close>

theorem sel4_vfs_refines_one_file:
  assumes "\<forall>(fh, x)\<in>set xs. in_int_range x \<and>
      (\<exists>s zName flags. fh = fst (snd (sqlite3OsOpen (sel4_vfs (\<lambda>_. True)) s zName flags)))"
  shows "\<exists>st rs. vfs_run disk_init xs = Inr (st, map2 vfs_view (map snd xs) rs) \<and>
    length rs = length xs \<and> file_run [] (map snd xs) = (file_bytes st, rs)"
proof -
  have "\<forall>(fh, x)\<in>set xs. fh = sel4_handle (\<lambda>_. True) \<and> in_int_range x"
    using assms by (auto simp add: open_handle)
  moreover have "file_bytes disk_init = []" by (simp add: file_bytes_def disk_init_def)
  ultimately show ?thesis using vfs_run_refines [OF disk_inv_init, of xs] by auto
qed

theorem sel4_vfs_refines_one_file_witness:
  "\<exists>st rs. vfs_run disk_init [(sel4_handle (\<lambda>_. True), DWrite 0 [1, 2, 3]),
        (sel4_handle (\<lambda>_. True), DRead 1 4)]
      = Inr (st, map2 vfs_view [DWrite 0 [1, 2, 3], DRead 1 4] rs) \<and> length rs = 2 \<and>
    file_run [] [DWrite 0 [1, 2, 3], DRead 1 4] = (file_bytes st, rs)"
  using sel4_vfs_refines_one_file [of "[(sel4_handle (\<lambda>_. True), DWrite 0 [1, 2, 3]),
        (sel4_handle (\<lambda>_. True), DRead 1 4)]"]
  by (auto simp add: open_handle int_range_defs)

text \<open>C11. A rollback journal is not kept apart from the database: bytes written through the
  handle of one name are what the handle of any other name reads at that offset, deleting
  the first name reports success, and the name is still reported to exist with its bytes
  unchanged.\<close>

theorem sel4_vfs_files_alias:
  assumes "disk_inv st" "off + length b \<le> 1048576"
    and "sqlite3OsOpen (sel4_vfs (\<lambda>_. True)) st (Some jname) jflags = (st, jfd, jout, SQLITE_OK)"
    and "sqlite3OsOpen (sel4_vfs (\<lambda>_. True)) st (Some dbname) dbflags = (st, fd, dbout, SQLITE_OK)"
  shows "\<exists>st'. sqlite3OsWrite jfd st b (int (length b)) (int off) = Inr (st', SQLITE_OK) \<and>
    sqlite3OsRead fd st' (int (length b)) (int off) = Inr (SQLITE_OK, Some b) \<and>
    sqlite3OsDelete (sel4_vfs (\<lambda>_. True)) st' jname 0 = (st', SQLITE_OK) \<and>
    sqlite3OsAccess (sel4_vfs (\<lambda>_. True)) st' jname 0 = (SQLITE_OK, 1)"
proof -
  have h: "jfd = sel4_handle (\<lambda>_. True)" "fd = sel4_handle (\<lambda>_. True)"
    using assms(3,4) by (auto simp add: open_handle)
  have ok: "int_ok (int off + int (length b))" "int_ok (int off)" "int_ok (int (length b))"
    using assms(2) by (auto simp add: int_range_defs)
  from disk_write_ok [OF assms(1), of off b] assms(2) obtain st' where st':
    "disk_write st (int off) (int (length b)) (length b) b = Inr (st', 0)" "disk_inv st'"
    "physical_disk st' = (\<lambda>i. if off \<le> i \<and> i < off + length b then b ! (i - off) else physical_disk st i)"
    by (auto simp add: DISK_SIZE_def)
  have "zslice st' off (length b) = b"
    using st'(3) by (intro nth_equalityI) (simp_all add: zslice_def)
  then show ?thesis
    using h ok st'(1) disk_read_ok [OF st'(2) ok(1), of "\<lambda>_. True"]
    by (simp add: sel4_xWrite_def sel4_xRead_def sqlite3OsDelete_def sqlite3OsAccess_def sel4_vfs_def
        sel4_xDelete_def sel4_xAccess_def)
qed

theorem sel4_vfs_files_alias_witness:
  "\<exists>st'. sqlite3OsWrite (sel4_handle (\<lambda>_. True)) disk_init [42] 1 0 = Inr (st', SQLITE_OK) \<and>
    sqlite3OsRead (sel4_handle (\<lambda>_. True)) st' 1 0 = Inr (SQLITE_OK, Some [42])"
  using sel4_vfs_files_alias [OF disk_inv_init, of 0 "[42]" "''db-journal''" 0
      "sel4_handle (\<lambda>_. True)" "vfs_open_mask 0" "''db''" 0 "sel4_handle (\<lambda>_. True)" "vfs_open_mask 0"]
  by (auto simp add: open_handle)

end
