(* ===== verification/Ledger.thy ===== *)
theory Ledger
  imports SqliteExec LedgerVfs
begin

text \<open>
  The Ledger component, components/Ledger/src/ledger.c: the redirection of \<open>printf\<close> to the
  kernel console, the callback that prints query rows, the initialisation that registers the
  file system and creates the schema, and the handler of the \<open>Bank\<close> interface.  SQLite below
  \<open>sqlite3_exec\<close> is the engine \<open>core\<close>; the bytes on the stack under the local buffer
  \<open>sql\<close> are the argument \<open>junk\<close>.
\<close>

section \<open>State and console\<close>

record 'd ledger_state =
  db :: "'d option"
  console :: string

definition ledger_init :: "'d ledger_state" where
  "ledger_init = \<lparr>db = None, console = []\<rparr>"

abbreviation NEWLINE :: char where "NEWLINE \<equiv> CHR 0x0A"

text \<open>\<open>write\<close>: every byte goes to the debug console and the count is returned.\<close>

fun put_chars :: "string \<Rightarrow> string \<Rightarrow> string" where
  "put_chars con [] = con"
| "put_chars con (c # s) = put_chars (con @ [c]) s"

definition ledger_write :: "string \<Rightarrow> string \<Rightarrow> string \<times> int" where
  "ledger_write con data = (put_chars con data, int (length data))"

definition print :: "string \<Rightarrow> string \<Rightarrow> string" where
  "print con s = fst (ledger_write con s)"

lemma put_chars_append [simp]: "put_chars con s = con @ s"
  by (induction s arbitrary: con) simp_all

lemma print_append [simp]: "print con s = con @ s"
  by (simp add: print_def ledger_write_def)

section \<open>The row callback\<close>

definition shown :: "string option \<Rightarrow> string" where
  "shown v = (case v of None \<Rightarrow> ''NULL'' | Some s \<Rightarrow> s)"

text \<open>The loop over the columns from \<open>i\<close>.\<close>

function log_columns ::
  "string \<Rightarrow> nat \<Rightarrow> nat \<Rightarrow> string option list \<Rightarrow> string list \<Rightarrow> string res" where
  "log_columns con i argc argv azColName =
     (if i < argc then
        bind_res (nth_res azColName i) (\<lambda>name.
        bind_res (nth_res argv i) (\<lambda>v.
        let con1 = print con (name @ '': '' @ shown v);
            con2 = (if i < argc - 1 then print con1 '' | '' else con1)
        in log_columns con2 (Suc i) argc argv azColName))
      else Inr con)"
  by pat_completeness auto
termination by (relation "measure (\<lambda>(con, i, argc, argv, names). argc - i)") auto

declare log_columns.simps [simp del]

definition log_viewer_callback :: "string res callback" where
  "log_viewer_callback data argc argv azColName =
     (bind_res data (\<lambda>con.
        bind_res (log_columns (print con ''[Ledger] Transaction Log Entry -> '') 0 argc
            (case argv of None \<Rightarrow> [] | Some vals \<Rightarrow> vals) azColName) (\<lambda>con'.
        Inr (print con' [NEWLINE]))),
      0)"

section \<open>Running SQL\<close>

text \<open>A call of \<open>sqlite3_exec\<close> with or without the callback; a script that does not end is
  the fault \<open>NoReturn\<close>.\<close>

definition ledger_exec ::
  "('d, 's) sql_core \<Rightarrow> 'd \<Rightarrow> string \<Rightarrow> string \<Rightarrow> bool \<Rightarrow> bool \<Rightarrow>
   ('d \<times> string \<times> int \<times> string option) res" where
  "ledger_exec core d con sql viewer wantErr =
     (case sqlite3_exec core d (Some sql) (if viewer then Some log_viewer_callback else None)
             (Inr con) wantErr of
        None \<Rightarrow> Inl NoReturn
      | Some (d', ctx, rc, err) \<Rightarrow> bind_res ctx (\<lambda>con'. Inr (d', con', rc, err)))"

definition quoted :: "string \<Rightarrow> string" where
  "quoted s = CHR 0x27 # s @ [CHR 0x27]"

definition schema_sql :: string where
  "schema_sql =
     ''CREATE TABLE IF NOT EXISTS accounts (username TEXT PRIMARY KEY, balance INTEGER);'' @
     ''CREATE TABLE IF NOT EXISTS transactions (id INTEGER PRIMARY KEY AUTOINCREMENT, type TEXT, src TEXT, dest TEXT, amount INTEGER, status TEXT);''"

definition audit_sql :: "string \<Rightarrow> string \<Rightarrow> string \<Rightarrow> int \<Rightarrow> string \<Rightarrow> string" where
  "audit_sql src dest tx_type amount status =
     ''INSERT INTO transactions (src, dest, type, amount, status) VALUES ('' @ quoted src @
     '', '' @ quoted dest @ '', '' @ quoted tx_type @ '', '' @ dec_int amount @ '', '' @
     quoted status @ '');''"

definition account_sql :: "string \<Rightarrow> string" where
  "account_sql user =
     ''INSERT OR IGNORE INTO accounts (user, balance) VALUES ('' @ quoted user @ '', 0);''"

definition credit_sql :: "int \<Rightarrow> string \<Rightarrow> string" where
  "credit_sql amount user =
     ''UPDATE accounts SET balance = balance + '' @ dec_int amount @ '' WHERE user = '' @
     quoted user @ '';''"

definition debit_sql :: "int \<Rightarrow> string \<Rightarrow> string" where
  "debit_sql amount user =
     ''UPDATE accounts SET balance = balance - '' @ dec_int amount @ '' WHERE user = '' @
     quoted user @ '';''"

definition last_record_sql :: string where
  "last_record_sql =
     ''SELECT id, type, src, dest, amount, status FROM transactions ORDER BY id DESC LIMIT 1;''"

definition accounts_dump_sql :: string where
  "accounts_dump_sql = ''SELECT user, balance FROM accounts;''"

section \<open>Initialisation\<close>

text \<open>\<open>open_db\<close> is \<open>sqlite3_open_v2\<close>: from the registered file systems, the file name, the
  flags and the name of the file system it gives the handle (null when none was allocated)
  and the code.\<close>

definition pre_init ::
  "('d, 's) sql_core \<Rightarrow> int \<Rightarrow> (vfs_registry \<Rightarrow> string \<Rightarrow> int \<Rightarrow> string \<Rightarrow> 'd option \<times> int) \<Rightarrow>
   nat \<Rightarrow> vfs_registry \<Rightarrow> 'd ledger_state \<Rightarrow> (vfs_registry \<times> 'd ledger_state) res" where
  "pre_init core init_rc open_db vfs_addr R L =
     (let con0 = print (console L) (''[Ledger] Registering secure seL4 VFS...'' @ [NEWLINE])
      in case sqlite3_vfs_register init_rc R vfs_addr True of
           None \<Rightarrow> Inl NoReturn
         | Some (R', _) \<Rightarrow>
             (case open_db R' ''bank_ledger.db'' 6 ''sel4_vfs'' of (h, rc) \<Rightarrow>
               if rc \<noteq> SQLITE_OK then Inl NoReturn
               else (case h of
                  None \<Rightarrow> Inl NullDeref
                | Some d \<Rightarrow>
                    bind_res (ledger_exec core d con0 schema_sql False True) (\<lambda>(d', con1, rc', err).
                      if rc' \<noteq> SQLITE_OK then
                        (case err of
                           None \<Rightarrow> Inl NullDeref
                         | Some m \<Rightarrow>
                             Inr (R', \<lparr>db = Some d',
                               console = print con1 (''[Ledger] SQL Error during schema creation: '' @
                                 m @ [NEWLINE])\<rparr>))
                      else Inr (R', \<lparr>db = Some d',
                             console = print con1 (''[Ledger] SQLite DB mounted over IPC successfully.'' @
                               [NEWLINE])\<rparr>)))))"

section \<open>Transactions\<close>

definition dump_live_contents ::
  "('d, 's) sql_core \<Rightarrow> 'd \<Rightarrow> string \<Rightarrow> int \<Rightarrow> ('d ledger_state \<times> int) res" where
  "dump_live_contents core d con token =
     bind_res (ledger_exec core d
         (print con ([NEWLINE] @ ''[SQLite Engine] >>> DUMPING LATEST LOG AUDIT RECORD <<<'' @ [NEWLINE]))
         last_record_sql True False) (\<lambda>(d1, con1, _, _).
     bind_res (ledger_exec core d1
         (print con1 (''[SQLite Engine] >>> DUMPING CURRENT STATE ACCOUNT MATRICES <<<'' @ [NEWLINE]))
         accounts_dump_sql True False) (\<lambda>(d2, con2, _, _).
     Inr (\<lparr>db = Some d2, console = print con2
            (''================================================================='' @ [NEWLINE])\<rparr>,
          if token \<ge> 1000 then 0 else -1)))"

text \<open>The statement of the business logic, left in \<open>sql\<close> as it was for any other type.\<close>

definition business_sql :: "string \<Rightarrow> string \<Rightarrow> string \<Rightarrow> int \<Rightarrow> string option" where
  "business_sql src dest tx_type amount =
     (if strcmp tx_type ''TRANSFER'' = 0 then Some (debit_sql amount src @ credit_sql amount dest)
      else if strcmp tx_type ''DEPOSIT'' = 0 then Some (credit_sql amount dest)
      else if strcmp tx_type ''WITHDRAWAL'' = 0 then Some (debit_sql amount src)
      else None)"

definition bank_execute_transaction ::
  "('d, 's) sql_core \<Rightarrow> char list \<Rightarrow> 'd ledger_state \<Rightarrow> int \<Rightarrow> string \<Rightarrow> string \<Rightarrow> string \<Rightarrow> int \<Rightarrow>
   ('d ledger_state \<times> int) res" where
  "bank_execute_transaction core junk L token src dest tx_type amount =
     (case db L of
        None \<Rightarrow>
          Inr (L\<lparr>console := print (console L)
                 (''[Ledger] ERR: Cannot execute transaction. Database is not initialized.'' @ [NEWLINE])\<rparr>,
               -1)
      | Some d \<Rightarrow>
          if token < 1000 then
            bind_res (sprintf_buf junk (audit_sql src dest tx_type amount ''BLOCKED_INVALID_CAPABILITY'')) (\<lambda>sql.
            bind_res (c_str sql) (\<lambda>z.
            bind_res (ledger_exec core d
                (print (console L)
                  (''[Ledger] SECURITY ALERT: Unauthorized Token. Intercepting action.'' @ [NEWLINE]))
                z False False) (\<lambda>(d1, con1, _, _).
            dump_live_contents core d1 con1 token)))
          else
            bind_res (sprintf_buf junk (account_sql src @ account_sql dest)) (\<lambda>sql.
            bind_res (c_str sql) (\<lambda>z.
            bind_res (ledger_exec core d (console L) z False False) (\<lambda>(d1, con1, _, _).
            bind_res (case business_sql src dest tx_type amount of
                        None \<Rightarrow> Inr sql | Some t \<Rightarrow> sprintf_buf sql t) (\<lambda>sql'.
            bind_res (c_str sql') (\<lambda>z'.
            bind_res (ledger_exec core d1 con1 z' False True) (\<lambda>(d2, con2, rc, _).
            if rc \<noteq> SQLITE_OK then Inr (\<lparr>db = Some d2, console = con2\<rparr>, -1)
            else
              bind_res (sprintf_buf sql' (audit_sql src dest tx_type amount ''APPROVED'')) (\<lambda>sql''.
              bind_res (c_str sql'') (\<lambda>z''.
              bind_res (ledger_exec core d2 con2 z'' False False) (\<lambda>(d3, con3, _, _).
              dump_live_contents core d3 con3 token))))))))))"

section \<open>What the callback prints\<close>

fun render_columns :: "string list \<Rightarrow> string option list \<Rightarrow> string" where
  "render_columns (n # ns) (v # vs) =
     n @ '': '' @ shown v @ (if ns = [] then [] else '' | '') @ render_columns ns vs"
| "render_columns ns vs = []"

definition render_row :: "row \<Rightarrow> string" where
  "render_row r = ''[Ledger] Transaction Log Entry -> '' @ render_columns (fst r) (snd r) @ [NEWLINE]"

lemma log_columns_render:
  "length vals = length ns \<Longrightarrow> i \<le> length ns \<Longrightarrow>
   log_columns con i (length ns) vals ns = Inr (con @ render_columns (drop i ns) (drop i vals))"
proof (induction "length ns - i" arbitrary: i con)
  case 0
  then show ?case by (subst log_columns.simps) simp
next
  case (Suc n)
  then have i: "i < length ns" "i < length vals" by auto
  then have d: "drop i ns = ns ! i # drop (Suc i) ns" "drop i vals = vals ! i # drop (Suc i) vals"
    by (simp_all add: Cons_nth_drop_Suc)
  have "i < length ns - 1 \<longleftrightarrow> drop (Suc i) ns \<noteq> []" using i by auto
  then show ?case
    using Suc i d by (subst log_columns.simps) (simp add: Let_def)
qed

lemma log_viewer_row:
  assumes "length vals = length ns"
  shows "log_viewer_callback (Inr con) (length ns) (Some vals) ns = (Inr (con @ render_row (ns, vals)), 0)"
  using log_columns_render [OF assms, of 0] by (simp add: log_viewer_callback_def render_row_def)

lemma log_viewer_goes_on: "goes_on log_viewer_callback"
  by (simp add: goes_on_def log_viewer_callback_def)

definition full_row :: "row \<Rightarrow> bool" where
  "full_row r \<longleftrightarrow> length (snd r) = length (fst r)"

lemma feed_log_viewer:
  "\<forall>r\<in>set rows. full_row r \<Longrightarrow>
   feed log_viewer_callback (Inr con) rows = Inr (con @ concat (map render_row rows))"
proof (induction rows arbitrary: con)
  case (Cons r rows)
  obtain ns vals where r: "r = (ns, vals)" by (cases r)
  with Cons.prems have "length vals = length ns" by (simp add: full_row_def)
  then show ?case using Cons r by (simp add: log_viewer_row)
qed simp

lemma stmt_run_rows: "stmt_run core d s rows d' rc \<Longrightarrow> \<forall>r\<in>set rows. full_row r"
  by (induction rule: stmt_run.induct) (auto simp add: row_of_def full_row_def)

lemma script_run_rows: "script_run core d z rows d' rc \<Longrightarrow> \<forall>r\<in>set rows. full_row r"
  by (induction rule: script_run.induct) (auto dest: stmt_run_rows)

section \<open>Scripts as the handler runs them\<close>

text \<open>A script that ends, with the rows it produced, the handle after it and its code.\<close>

definition db_exec ::
  "('d, 's) sql_core \<Rightarrow> 'd \<Rightarrow> string \<Rightarrow> row list \<Rightarrow> 'd \<Rightarrow> int \<Rightarrow> bool" where
  "db_exec core d z rows d' rc \<longleftrightarrow> core_ok core d \<and>
     (\<exists>d1 rc1. script_run core (core_error core d SQLITE_OK) z rows d1 rc1 \<and>
        core_api_exit core d1 rc1 = (d', rc))"

definition engine_ok :: "('d, 's) sql_core \<Rightarrow> bool" where
  "engine_ok core \<longleftrightarrow> steady core \<and> (\<forall>d. core_errmsg core d \<noteq> None)"

lemma ledger_exec_run:
  assumes "engine_ok core" "db_exec core d z rows d' rc"
  shows "\<exists>err. ledger_exec core d con z viewer wantErr =
    Inr (d', con @ (if viewer then concat (map render_row rows) else []), rc, err) \<and>
    (wantErr \<longrightarrow> rc \<noteq> SQLITE_OK \<longrightarrow> err \<noteq> None)"
proof -
  obtain d1 rc1 where run: "script_run core (core_error core d SQLITE_OK) z rows d1 rc1"
    and ex: "core_api_exit core d1 rc1 = (d', rc)" and ok: "core_ok core d"
    using assms(2) by (auto simp add: db_exec_def)
  let ?cb = "if viewer then Some log_viewer_callback else None"
  have "cb_ready core ?cb"
    using assms(1) log_viewer_goes_on by (simp add: cb_ready_def engine_ok_def)
  from exec_loop_run [OF run this]
  have "exec_loop core ?cb (core_error core d SQLITE_OK) (Inr con) SQLITE_OK z =
      Some (d1, feed_opt ?cb (Inr con) rows, rc1, None)" .
  moreover have "feed_opt ?cb (Inr con) rows =
      Inr (con @ (if viewer then concat (map render_row rows) else []))"
    using feed_log_viewer [OF script_run_rows [OF run]] by (simp add: feed_opt_def)
  moreover obtain m where "core_errmsg core d' = Some m"
    using assms(1) by (auto simp add: engine_ok_def)
  ultimately show ?thesis
    using ok ex by (simp add: ledger_exec_def sqlite3_exec_def)
qed

lemma sprintf_c_str:
  "is_cstr t \<Longrightarrow> length t < length buf \<Longrightarrow> \<exists>m. sprintf_buf buf t = Inr m \<and> c_str m = Inr t \<and> length m = length buf"
  by (auto simp add: sprintf_buf_def strcpy_buf_def)

lemma is_cstr_quoted [simp]: "is_cstr (quoted s) \<longleftrightarrow> is_cstr s"
  by (simp add: quoted_def)

lemma is_cstr_sql [simp]:
  "is_cstr (audit_sql src dest ty amt st) \<longleftrightarrow> is_cstr src \<and> is_cstr dest \<and> is_cstr ty \<and> is_cstr st"
  "is_cstr (account_sql s) \<longleftrightarrow> is_cstr s"
  "is_cstr (credit_sql amt s) \<longleftrightarrow> is_cstr s" "is_cstr (debit_sql amt s) \<longleftrightarrow> is_cstr s"
  by (auto simp add: audit_sql_def account_sql_def credit_sql_def debit_sql_def)

lemma length_quoted [simp]: "length (quoted s) = length s + 2"
  by (simp add: quoted_def)

lemma length_sql [simp]:
  "length (audit_sql src dest ty amt st) =
     85 + length src + length dest + length ty + length (dec_int amt) + length st"
  "length (account_sql s) = 62 + length s"
  "length (credit_sql amt s) = 57 + length (dec_int amt) + length s"
  "length (debit_sql amt s) = 57 + length (dec_int amt) + length s"
  by (simp_all add: audit_sql_def account_sql_def credit_sql_def debit_sql_def)

text \<open>A script in the middle of the handler, whose code is not looked at.\<close>

lemma ledger_exec_bind:
  assumes "engine_ok core" "db_exec core d z rows d' rc"
  shows "bind_res (ledger_exec core d con z viewer False) (\<lambda>(d1, con1, _, _). k d1 con1) =
    k d' (con @ (if viewer then concat (map render_row rows) else []))"
  using ledger_exec_run [OF assms, of con viewer False] by auto

text \<open>The two queries at the end of the handler and what they print.\<close>

definition dump_text :: "row list \<Rightarrow> row list \<Rightarrow> string" where
  "dump_text records accounts =
     [NEWLINE] @ ''[SQLite Engine] >>> DUMPING LATEST LOG AUDIT RECORD <<<'' @ [NEWLINE] @
     concat (map render_row records) @
     ''[SQLite Engine] >>> DUMPING CURRENT STATE ACCOUNT MATRICES <<<'' @ [NEWLINE] @
     concat (map render_row accounts) @
     ''================================================================='' @ [NEWLINE]"

lemma dump_runs:
  assumes "engine_ok core" "db_exec core d last_record_sql rows1 d1 rc1"
    and "db_exec core d1 accounts_dump_sql rows2 d2 rc2"
  shows "dump_live_contents core d con token =
    Inr (\<lparr>db = Some d2, console = con @ dump_text rows1 rows2\<rparr>, if token \<ge> 1000 then 0 else -1)"
  unfolding dump_live_contents_def dump_text_def
  by (simp add: ledger_exec_bind [OF assms(1,2)] ledger_exec_bind [OF assms(1,3)])

definition alert_text :: string where
  "alert_text = ''[Ledger] SECURITY ALERT: Unauthorized Token. Intercepting action.'' @ [NEWLINE]"

text \<open>On an engine on which every script ends, every transaction whose texts fit the buffer ends
  with 0 or -1, and with -1 when the token is below 1000.\<close>

definition engine_total :: "('d, 's) sql_core \<Rightarrow> bool" where
  "engine_total core \<longleftrightarrow> engine_ok core \<and> (\<forall>d z. \<exists>rows d' rc. db_exec core d z rows d' rc)"

lemma dump_total:
  assumes "engine_total core"
  shows "\<exists>L' d'. dump_live_contents core d con token = Inr (L', if token \<ge> 1000 then 0 else -1) \<and> db L' = Some d'"
proof -
  obtain rows1 d1 rc1 rows2 d2 rc2 where "db_exec core d last_record_sql rows1 d1 rc1"
    "db_exec core d1 accounts_dump_sql rows2 d2 rc2"
    using assms unfolding engine_total_def by metis
  from dump_runs [OF _ this] show ?thesis using assms by (auto simp add: engine_total_def)
qed

lemma bank_total:
  assumes "engine_total core" "length junk = 512" "is_cstr src" "is_cstr dest" "is_cstr tx_type"
    and "length src + length dest + length tx_type + 2 * length (dec_int amount) < 388"
  shows "\<exists>L' r. bank_execute_transaction core junk L token src dest tx_type amount = Inr (L', r) \<and>
    r \<in> {0, -1} \<and> (token < 1000 \<longrightarrow> r = -1) \<and> (db L' = None \<longleftrightarrow> db L = None)"
proof (cases "db L")
  case None
  then show ?thesis by (simp add: bank_execute_transaction_def)
next
  case (Some d)
  have ok: "engine_ok core" using assms(1) by (simp add: engine_total_def)
  have run: "\<exists>rows d' rc. db_exec core d z rows d' rc" for d z
    using assms(1) by (simp add: engine_total_def)
  let ?b = "audit_sql src dest tx_type amount ''BLOCKED_INVALID_CAPABILITY''"
  let ?j = "account_sql src @ account_sql dest" and ?a = "audit_sql src dest tx_type amount ''APPROVED''"
  show ?thesis
  proof (cases "token < 1000")
    case True
    obtain m where m: "sprintf_buf junk ?b = Inr m" "c_str m = Inr ?b"
      using sprintf_c_str [of ?b junk] assms by auto
    obtain rows d1 rc where e: "db_exec core d ?b rows d1 rc" using run by blast
    show ?thesis
      using m Some True dump_total [OF assms(1), of d1 "print (console L)
          (''[Ledger] SECURITY ALERT: Unauthorized Token. Intercepting action.'' @ [NEWLINE])" token]
      by (auto simp add: bank_execute_transaction_def ledger_exec_bind [OF ok e])
  next
    case False
    let ?t = "case business_sql src dest tx_type amount of None \<Rightarrow> ?j | Some t \<Rightarrow> t"
    have t: "is_cstr ?t" "length ?t < 512"
      using assms by (auto simp add: business_sql_def split: option.split if_splits)
    obtain rows1 d1 rc1 where e1: "db_exec core d ?j rows1 d1 rc1" using run by blast
    obtain rows2 d2 rc2 where e2: "db_exec core d1 ?t rows2 d2 rc2" using run by blast
    obtain rows3 d3 rc3 where e3: "db_exec core d2 ?a rows3 d3 rc3" using run by blast
    obtain m where m: "sprintf_buf junk ?j = Inr m" "c_str m = Inr ?j" "length m = 512"
      using sprintf_c_str [of ?j junk] assms by auto
    obtain m' where m': "(case business_sql src dest tx_type amount of None \<Rightarrow> Inr m
        | Some t \<Rightarrow> sprintf_buf m t) = Inr m'" "c_str m' = Inr ?t" "length m' = 512"
      using sprintf_c_str [of ?t m] t m by (cases "business_sql src dest tx_type amount") auto
    obtain m'' where m'': "sprintf_buf m' ?a = Inr m''" "c_str m'' = Inr ?a"
      using sprintf_c_str [of ?a m'] assms m' by auto
    obtain err where e: "ledger_exec core d1 (console L) ?t False True = Inr (d2, console L, rc2, err)"
      using ledger_exec_run [OF ok e2, of "console L" False True] by auto
    obtain L' d' where L': "dump_live_contents core d3 (console L) token = Inr (L', 0)" "db L' = Some d'"
      using dump_total [OF assms(1), of d3 "console L" token] False by auto
    show ?thesis
      using m m' m'' e L' Some False
      by (simp add: bank_execute_transaction_def ledger_exec_bind [OF ok e1] ledger_exec_bind [OF ok e3])
  qed
qed

lemma log_engine_ok: "engine_ok (log_core bad query)"
  by (simp add: engine_ok_def log_core_steady)

lemma log_db_exec:
  "db_exec (log_core bad (\<lambda>_. False)) d z [] (d @ fst (log_split bad z)) (snd (log_split bad z))"
  using log_script [of bad d z] by (simp add: db_exec_def)

text \<open>With nothing bad every script of the recording engine succeeds.\<close>

lemma log_split_ok: "snd (log_split (\<lambda>_. False) z) = SQLITE_OK"
  by (induction "\<lambda>_ :: string. False" z rule: log_split.induct)
    (subst log_split.simps, simp add: Let_def case_prod_unfold)

section \<open>The two paths of the handler\<close>

text \<open>A refused token: the audit script and the two queries, with their rows.\<close>

lemma blocked_run:
  assumes "engine_ok core" "db L = Some d" "token < 1000" "length junk = 512"
    and "is_cstr src" "is_cstr dest" "is_cstr tx_type"
    and "length src + length dest + length tx_type + length (dec_int amount) < 401"
    and "db_exec core d (audit_sql src dest tx_type amount ''BLOCKED_INVALID_CAPABILITY'') rows1 d1 rc1"
    and "db_exec core d1 last_record_sql rows2 d2 rc2" "db_exec core d2 accounts_dump_sql rows3 d3 rc3"
  shows "bank_execute_transaction core junk L token src dest tx_type amount =
    Inr (\<lparr>db = Some d3, console = console L @ alert_text @ dump_text rows2 rows3\<rparr>, -1)"
proof -
  let ?t = "audit_sql src dest tx_type amount ''BLOCKED_INVALID_CAPABILITY''"
  obtain m where m: "sprintf_buf junk ?t = Inr m" "c_str m = Inr ?t"
    using sprintf_c_str [of ?t junk] assms by auto
  show ?thesis
    using m dump_runs [OF assms(1,10,11)] assms(2,3)
    by (simp add: bank_execute_transaction_def ledger_exec_bind [OF assms(1,9)] alert_text_def)
qed

text \<open>An authorised token whose business script fails; the script of an unknown type is the one
  that creates the accounts.\<close>

lemma rejected_run:
  assumes "engine_ok core" "db L = Some d" "1000 \<le> token" "length junk = 512"
    and "is_cstr src" "is_cstr dest" "is_cstr tx_type"
    and "length src + length dest + length tx_type + 2 * length (dec_int amount) < 388"
    and "db_exec core d (account_sql src @ account_sql dest) rows1 d1 rc1"
    and "db_exec core d1 (case business_sql src dest tx_type amount of None \<Rightarrow> account_sql src @ account_sql dest
      | Some t \<Rightarrow> t) rows2 d2 rc2" "rc2 \<noteq> SQLITE_OK"
  shows "bank_execute_transaction core junk L token src dest tx_type amount =
    Inr (\<lparr>db = Some d2, console = console L\<rparr>, -1)"
proof -
  let ?j = "account_sql src @ account_sql dest"
  let ?t = "case business_sql src dest tx_type amount of None \<Rightarrow> ?j | Some t \<Rightarrow> t"
  have t: "is_cstr ?t" "length ?t < 512"
    using assms(5,6,8) by (auto simp add: business_sql_def split: option.split if_splits)
  obtain m where m: "sprintf_buf junk ?j = Inr m" "c_str m = Inr ?j" "length m = 512"
    using sprintf_c_str [of ?j junk] assms by auto
  obtain m' where m': "(case business_sql src dest tx_type amount of None \<Rightarrow> Inr m
      | Some t \<Rightarrow> sprintf_buf m t) = Inr m'" "c_str m' = Inr ?t"
    using sprintf_c_str [of ?t m] t m by (cases "business_sql src dest tx_type amount") auto
  obtain err where e: "ledger_exec core d1 (console L) ?t False True = Inr (d2, console L, rc2, err)"
    using ledger_exec_run [OF assms(1,10), of "console L" False True] by auto
  show ?thesis
    using m m' e assms(2,3,11)
    by (simp add: bank_execute_transaction_def ledger_exec_bind [OF assms(1,9)])
qed

text \<open>Initialisation when the file is opened and the schema script succeeds.\<close>

lemma pre_init_ok:
  assumes "engine_ok core" "sqlite3_vfs_register init_rc R v True = Some (R', x)"
    and "open_db R' ''bank_ledger.db'' 6 ''sel4_vfs'' = (Some d, SQLITE_OK)"
    and "db_exec core d schema_sql rows d' SQLITE_OK"
  shows "\<exists>con. pre_init core init_rc open_db v R L = Inr (R', \<lparr>db = Some d', console = con\<rparr>)"
proof -
  let ?con = "print (console L) (''[Ledger] Registering secure seL4 VFS...'' @ [NEWLINE])"
  obtain err where "ledger_exec core d ?con schema_sql False True = Inr (d', ?con, SQLITE_OK, err)"
    using ledger_exec_run [OF assms(1,4), of ?con False True] by auto
  then show ?thesis using assms(2,3) by (simp add: pre_init_def Let_def)
qed

section \<open>Properties\<close>

text \<open>C2. A transaction with a token of 1000 or more: the account rows are created, the
  business statements of the type are run, and if their script succeeds the action is
  recorded as approved, the tables are printed and 0 is returned; if it fails -1 is returned
  at once, with nothing recorded and nothing printed.\<close>

theorem bank_runs_high_tokens:
  assumes "engine_ok core" "db L = Some d" "1000 \<le> token" "length junk = 512"
    and "is_cstr src" "is_cstr dest" "is_cstr tx_type" "business_sql src dest tx_type amount = Some t"
    and "length src + length dest + length tx_type + 2 * length (dec_int amount) < 388"
    and "db_exec core d (account_sql src @ account_sql dest) rows1 d1 rc1"
    and "db_exec core d1 t rows2 d2 rc2"
    and "rc2 = SQLITE_OK \<Longrightarrow>
      db_exec core d2 (audit_sql src dest tx_type amount ''APPROVED'') rows3 d3 rc3 \<and>
      db_exec core d3 last_record_sql rows4 d4 rc4 \<and> db_exec core d4 accounts_dump_sql rows5 d5 rc5"
  shows "bank_execute_transaction core junk L token src dest tx_type amount =
    (if rc2 = SQLITE_OK
     then Inr (\<lparr>db = Some d5, console = console L @ dump_text rows4 rows5\<rparr>, 0)
     else Inr (\<lparr>db = Some d2, console = console L\<rparr>, -1))"
proof -
  let ?j = "account_sql src @ account_sql dest" and ?a = "audit_sql src dest tx_type amount ''APPROVED''"
  have t: "is_cstr t" "length t < 512"
    using assms(5,6,8,9) by (auto simp add: business_sql_def split: if_splits)
  obtain m where m: "sprintf_buf junk ?j = Inr m" "c_str m = Inr ?j" "length m = 512"
    using sprintf_c_str [of ?j junk] assms by auto
  obtain m' where m': "sprintf_buf m t = Inr m'" "c_str m' = Inr t" "length m' = 512"
    using sprintf_c_str [of t m] t m by auto
  obtain m'' where m'': "sprintf_buf m' ?a = Inr m''" "c_str m'' = Inr ?a"
    using sprintf_c_str [of ?a m'] assms m' by auto
  obtain err where e: "ledger_exec core d1 (console L) t False True = Inr (d2, console L, rc2, err)"
    using ledger_exec_run [OF assms(1,11), of "console L" False True] by auto
  have "bank_execute_transaction core junk L token src dest tx_type amount =
      (if rc2 \<noteq> SQLITE_OK then Inr (\<lparr>db = Some d2, console = console L\<rparr>, -1)
       else bind_res (ledger_exec core d2 (console L) ?a False False) (\<lambda>(d3, con3, _, _).
          dump_live_contents core d3 con3 token))"
    using m m' m'' e assms(2,3,8)
    by (simp add: bank_execute_transaction_def ledger_exec_bind [OF assms(1,10)])
  moreover have "bind_res (ledger_exec core d2 (console L) ?a False False) (\<lambda>(d3, con3, _, _).
      dump_live_contents core d3 con3 token) =
      Inr (\<lparr>db = Some d5, console = console L @ dump_text rows4 rows5\<rparr>, 0)" if "rc2 = SQLITE_OK"
    using assms(12) [OF that] assms(1,3)
    by (simp add: ledger_exec_bind [OF assms(1), of d2 ?a rows3 d3 rc3]
        dump_runs [of core d3 rows4 d4 rc4 rows5 d5 rc5])
  ultimately show ?thesis by simp
qed

theorem bank_runs_high_tokens_witness:
  "\<exists>L. bank_execute_transaction (log_core (\<lambda>_. False) (\<lambda>_. False)) (replicate 512 NUL)
     \<lparr>db = Some [], console = []\<rparr> 1001 ''Alice'' ''Bob'' ''DEPOSIT'' 100 = Inr (L, 0)"
proof -
  note run = log_db_exec [where bad = "\<lambda>_. False", unfolded log_split_ok]
  let ?L = "\<lparr>db = Some ([] :: string list), console = []\<rparr>"
  have t: "business_sql ''Alice'' ''Bob'' ''DEPOSIT'' 100 = Some (credit_sql 100 ''Bob'')"
    by (simp add: business_sql_def)
  have len: "length ''Alice'' + length ''Bob'' + length ''DEPOSIT'' + 2 * length (dec_int 100) < 388"
    using dec_int_length [of 100] by (simp add: int_range_defs)
  show ?thesis
    using bank_runs_high_tokens [of _ ?L "[]" 1001 "replicate 512 NUL", OF log_engine_ok _ _ _ _ _ _ t len run run
        conjI [OF run conjI [OF run run]]]
    by simp
qed

text \<open>C12. A transaction type other than TRANSFER, DEPOSIT and WITHDRAWAL is no error: the
  buffer still holds the statements that create the accounts, they are run a second time, and
  when that succeeds the action is recorded as approved and 0 is returned.\<close>

theorem bank_unknown_type_reruns:
  assumes "engine_ok core" "db L = Some d" "1000 \<le> token" "length junk = 512"
    and "is_cstr src" "is_cstr dest" "is_cstr tx_type"
    and "tx_type \<notin> {''TRANSFER'', ''DEPOSIT'', ''WITHDRAWAL''}"
    and "length src + length dest + length tx_type + length (dec_int amount) < 388"
    and "db_exec core d (account_sql src @ account_sql dest) rows1 d1 rc1"
    and "db_exec core d1 (account_sql src @ account_sql dest) rows2 d2 SQLITE_OK"
    and "db_exec core d2 (audit_sql src dest tx_type amount ''APPROVED'') rows3 d3 rc3"
    and "db_exec core d3 last_record_sql rows4 d4 rc4" "db_exec core d4 accounts_dump_sql rows5 d5 rc5"
  shows "bank_execute_transaction core junk L token src dest tx_type amount =
    Inr (\<lparr>db = Some d5, console = console L @ dump_text rows4 rows5\<rparr>, 0)"
proof -
  let ?j = "account_sql src @ account_sql dest" and ?a = "audit_sql src dest tx_type amount ''APPROVED''"
  have none: "business_sql src dest tx_type amount = None"
    using assms(7,8) by (simp add: business_sql_def)
  obtain m where m: "sprintf_buf junk ?j = Inr m" "c_str m = Inr ?j" "length m = 512"
    using sprintf_c_str [of ?j junk] assms by auto
  obtain m'' where m'': "sprintf_buf m ?a = Inr m''" "c_str m'' = Inr ?a"
    using sprintf_c_str [of ?a m] assms m by auto
  obtain err where e: "ledger_exec core d1 (console L) ?j False True =
      Inr (d2, console L, SQLITE_OK, err)"
    using ledger_exec_run [OF assms(1,11), of "console L" False True] by auto
  show ?thesis
    using m m'' e assms(2,3) none
    by (simp add: bank_execute_transaction_def ledger_exec_bind [OF assms(1,10)]
        ledger_exec_bind [OF assms(1,12)] dump_runs [OF assms(1,13,14)])
qed

theorem bank_unknown_type_reruns_witness:
  "\<exists>L. bank_execute_transaction (log_core (\<lambda>_. False) (\<lambda>_. False)) (replicate 512 NUL)
     \<lparr>db = Some [], console = []\<rparr> 1001 ''Alice'' ''Bob'' ''PAY'' 100 = Inr (L, 0)"
proof -
  note run = log_db_exec [where bad = "\<lambda>_. False", unfolded log_split_ok]
  let ?L = "\<lparr>db = Some ([] :: string list), console = []\<rparr>"
  have len: "length ''Alice'' + length ''Bob'' + length ''PAY'' + length (dec_int 100) < 388"
    using dec_int_length [of 100] by (simp add: int_range_defs)
  show ?thesis
    using bank_unknown_type_reruns [of _ ?L "[]" 1001 "replicate 512 NUL", OF log_engine_ok _ _ _ _ _ _ _ len
        run run run run run]
    by simp
qed

text \<open>C13. The local buffer of 512 bytes is written without a bound: a blocked action overflows
  it when its names, type and amount together have more than 400 characters, and an
  authorised one when the two names alone have more than 387.\<close>

theorem bank_buffer_overflow:
  assumes "db L = Some d" "length junk = 512"
  shows "(token < 1000 \<longrightarrow> 400 < length src + length dest + length tx_type + length (dec_int amount) \<longrightarrow>
      bank_execute_transaction core junk L token src dest tx_type amount = Inl BufferOverflow) \<and>
    (1000 \<le> token \<longrightarrow> 387 < length src + length dest \<longrightarrow>
      bank_execute_transaction core junk L token src dest tx_type amount = Inl BufferOverflow)"
  using assms by (auto simp add: bank_execute_transaction_def sprintf_buf_def strcpy_buf_def)

theorem bank_buffer_overflow_witness:
  "bank_execute_transaction (log_core (\<lambda>_. False) (\<lambda>_. False)) (replicate 512 NUL)
     \<lparr>db = Some [], console = []\<rparr> 7 (replicate 401 CHR ''a'') [] [] 0 = Inl BufferOverflow"
  using bank_buffer_overflow [of "\<lparr>db = Some [], console = []\<rparr>" "[]" "replicate 512 NUL" 7
      "replicate 401 CHR ''a''" "[]" "[]" 0]
  by simp

text \<open>Initialisation puts the seL4 file system at the head of the list of file systems, where
  SQLite takes its default from, before it opens the database; when the open fails it never
  returns; when the schema script fails it returns all the same, with the handle set, so that
  transactions are accepted afterwards.\<close>

theorem pre_init_branches:
  assumes "engine_ok core" "reg_list R xs"
  shows "\<exists>R'. sqlite3_vfs_register 0 R v True = Some (R', SQLITE_OK) \<and> reg_list R' (v # remove1 v xs) \<and>
    (snd (open_db R' ''bank_ledger.db'' 6 ''sel4_vfs'') \<noteq> SQLITE_OK \<longrightarrow>
       pre_init core 0 open_db v R L = Inl NoReturn) \<and>
    (open_db R' ''bank_ledger.db'' 6 ''sel4_vfs'' = (Some d, SQLITE_OK) \<longrightarrow>
     db_exec core d schema_sql rows d' rc \<longrightarrow>
       (\<exists>con. pre_init core 0 open_db v R L = Inr (R', \<lparr>db = Some d', console = con\<rparr>)))"
proof -
  obtain R' where R': "sqlite3_vfs_register 0 R v True = Some (R', SQLITE_OK)"
    "reg_list R' (registered_list v True xs)"
    using sqlite3_vfs_register_list [OF assms(2), of v True] by auto
  have l: "registered_list v True xs = v # remove1 v xs"
    by (simp add: registered_list_def split: list.split)
  have fail: "pre_init core 0 open_db v R L = Inl NoReturn"
    if "snd (open_db R' ''bank_ledger.db'' 6 ''sel4_vfs'') \<noteq> SQLITE_OK"
    using that R'(1) by (cases "open_db R' ''bank_ledger.db'' 6 ''sel4_vfs''") (simp add: pre_init_def Let_def)
  have ok: "\<exists>con. pre_init core 0 open_db v R L = Inr (R', \<lparr>db = Some d', console = con\<rparr>)"
    if o: "open_db R' ''bank_ledger.db'' 6 ''sel4_vfs'' = (Some d, SQLITE_OK)"
      and e: "db_exec core d schema_sql rows d' rc"
  proof -
    let ?con = "print (console L) (''[Ledger] Registering secure seL4 VFS...'' @ [NEWLINE])"
    obtain err where "ledger_exec core d ?con schema_sql False True = Inr (d', ?con, rc, err)"
      "rc \<noteq> SQLITE_OK \<longrightarrow> err \<noteq> None"
      using ledger_exec_run [OF assms(1) e, of ?con False True] by auto
    then show ?thesis using o R'(1)
      by (cases err) (auto simp add: pre_init_def Let_def)
  qed
  show ?thesis using R' l fail ok by auto
qed

theorem pre_init_branches_witness:
  "\<exists>R' con. pre_init (log_core (\<lambda>_. False) (\<lambda>_. False)) 0 (\<lambda>R z fl v. (Some [], SQLITE_OK)) 1
      \<lparr>vfsList = None, vfs_next = (\<lambda>_. None), vfs_name = (\<lambda>_. ''sel4_vfs'')\<rparr> ledger_init =
    Inr (R', \<lparr>db = Some (fst (log_split (\<lambda>_. False) schema_sql)), console = con\<rparr>) \<and> reg_list R' [1]"
proof -
  let ?R = "\<lparr>vfsList = None, vfs_next = (\<lambda>_. None), vfs_name = (\<lambda>_. ''sel4_vfs'')\<rparr>"
  have "reg_list ?R []" by (simp add: reg_list_def)
  note init = pre_init_branches [OF log_engine_ok this, of 1 "\<lambda>R z fl v. (Some [], SQLITE_OK)" "\<lambda>_. False"
      "\<lambda>_. False" ledger_init "[]" "[]"]
  show ?thesis using init [of "fst (log_split (\<lambda>_. False) schema_sql)" "snd (log_split (\<lambda>_. False) schema_sql)"]
      log_db_exec [of "\<lambda>_. False" "[]" schema_sql] by auto
qed

end
