(* ===== verification/Gateway.thy ===== *)
theory Gateway
  imports CString
begin

text \<open>
  The API gateway, components/APIGateway/src/gateway.c: one iteration of its loop copies the
  request out of the shared buffer, cuts it into words, calls the authentication or the bank
  interface and writes the reply back.  The components behind the two interfaces are the
  record \<open>backend\<close> over their joint state \<open>'w\<close>; the bytes on the stack under the local copy
  of the request are the argument \<open>junk\<close>.
\<close>

section \<open>The handler\<close>

record 'w backend =
  be_login :: "'w \<Rightarrow> string \<Rightarrow> string \<Rightarrow> ('w \<times> int) res"
  be_register :: "'w \<Rightarrow> string \<Rightarrow> string \<Rightarrow> ('w \<times> int) res"
  be_transact :: "'w \<Rightarrow> int \<Rightarrow> string \<Rightarrow> string \<Rightarrow> string \<Rightarrow> int \<Rightarrow> ('w \<times> int) res"

abbreviation SPACE :: char where "SPACE \<equiv> CHR '' ''"

definition say :: "'w \<Rightarrow> string \<Rightarrow> ('w \<times> string) res" where
  "say w s = Inr (w, s)"

text \<open>The dispatch on the command, from the copy of the request to the text given to
  \<open>snprintf\<close>.\<close>

definition gateway_dispatch ::
  "'w backend \<Rightarrow> 'w \<Rightarrow> char list \<Rightarrow> ('w \<times> string) res" where
  "gateway_dispatch be w local_buf =
     bind_res (strtok (Some local_buf) SPACE) (\<lambda>(cmd, p).
     case cmd of
       None \<Rightarrow> say w ''ERROR: Empty command''
     | Some c \<Rightarrow>
         if strcmp c ''login'' = 0 then
           bind_res (strtok p SPACE) (\<lambda>(user, p1).
           bind_res (strtok p1 SPACE) (\<lambda>(pin, p2).
           case (user, pin) of
             (Some u, Some k) \<Rightarrow>
               bind_res (be_login be w u k) (\<lambda>(w', r). say w' (''LOGIN_RESULT: '' @ dec_int r))
           | _ \<Rightarrow> say w ''ERROR: Usage: login <user> <pin>''))
         else if strcmp c ''register'' = 0 then
           bind_res (strtok p SPACE) (\<lambda>(user, p1).
           bind_res (strtok p1 SPACE) (\<lambda>(pin, p2).
           case (user, pin) of
             (Some u, Some k) \<Rightarrow>
               bind_res (be_register be w u k) (\<lambda>(w', r). say w' (''REGISTER_RESULT: '' @ dec_int r))
           | _ \<Rightarrow> say w ''ERROR: Usage: register <user> <pin>''))
         else if strcmp c ''tx'' = 0 then
           bind_res (strtok p SPACE) (\<lambda>(token_str, p1).
           bind_res (strtok p1 SPACE) (\<lambda>(src, p2).
           bind_res (strtok p2 SPACE) (\<lambda>(dest, p3).
           bind_res (strtok p3 SPACE) (\<lambda>(type, p4).
           bind_res (strtok p4 SPACE) (\<lambda>(amt_str, p5).
           case (token_str, src, dest, type, amt_str) of
             (Some t, Some s, Some d, Some ty, Some a) \<Rightarrow>
               bind_res (atoi t) (\<lambda>token.
               bind_res (atoi a) (\<lambda>amount.
               bind_res (be_transact be w token s d ty amount) (\<lambda>(w', r).
               say w' (''TX_RESULT: '' @ dec_int r))))
           | _ \<Rightarrow> say w ''ERROR: Usage: tx <token> <src> <dest> <type> <amt>'')))))
         else say w (''ERROR: Unknown command: '' @ c))"

text \<open>An iteration after \<open>data_ready_wait\<close>, in its two accesses to the shared buffer: the copy
  of the request, for which \<open>strncpy\<close> looks at 511 bytes of the buffer at most, then the dispatch and the copy of the reply into the buffer.\<close>

definition gateway_copy :: "char list \<Rightarrow> char list \<Rightarrow> char list res" where
  "gateway_copy junk net_buffer =
     bind_res (c_str_n 511 net_buffer) (\<lambda>request. strncpy_buf junk request 511)"

definition gateway_serve ::
  "'w backend \<Rightarrow> 'w \<Rightarrow> char list \<Rightarrow> char list \<Rightarrow> ('w \<times> char list \<times> string) res" where
  "gateway_serve be w local_buf net_buffer =
     bind_res (gateway_dispatch be w local_buf) (\<lambda>(w', ans).
     bind_res (snprintf_buf (replicate 512 NUL) 512 ans) (\<lambda>reply_buf.
     bind_res (c_str reply_buf) (\<lambda>reply.
     bind_res (strcpy_buf net_buffer reply) (\<lambda>net_buffer'.
     Inr (w', net_buffer', reply)))))"

definition gateway_step ::
  "'w backend \<Rightarrow> char list \<Rightarrow> 'w \<Rightarrow> char list \<Rightarrow> ('w \<times> char list \<times> string) res" where
  "gateway_step be junk w net_buffer =
     bind_res (gateway_copy junk net_buffer) (\<lambda>local_buf. gateway_serve be w local_buf net_buffer)"

lemmas gateway_step_defs = gateway_step_def gateway_serve_def

section \<open>The words of a request\<close>

function words :: "string \<Rightarrow> string list" where
  "words s =
     (let r = dropWhile (\<lambda>c. c = SPACE) s
      in if r = [] then []
         else takeWhile (\<lambda>c. c \<noteq> SPACE) r # words (dropWhile (\<lambda>c. c \<noteq> SPACE) r))"
  by pat_completeness auto

termination
proof (relation "measure length", goal_cases)
  case (2 s r)
  then obtain c r' where r: "r = c # r'" using list.exhaust [of r] by metis
  have "hd r \<noteq> SPACE" using hd_dropWhile [of "\<lambda>c. c = SPACE" s] 2 by metis
  then have "c \<noteq> SPACE" using r by simp
  then have "length (dropWhile (\<lambda>c. c \<noteq> SPACE) r) < length r"
    using r length_dropWhile_le [of "\<lambda>c. c \<noteq> SPACE" r'] by (simp add: less_Suc_eq_le)
  then show ?case using 2 length_dropWhile_le [of "\<lambda>c. c = SPACE" s] by simp
qed simp

declare words.simps [simp del]

lemma words_space [simp]: "words (SPACE # s) = words s"
  by (subst (1 2) words.simps) simp

lemma words_Nil [simp]: "words [] = []"
  by (subst words.simps) simp

lemma words_append:
  assumes "t \<noteq> []" "SPACE \<notin> set t"
  shows "words (t @ SPACE # s) = t # words s" "words t = [t]"
proof -
  have d: "dropWhile (\<lambda>c. c = SPACE) (t @ x) = t @ x" for x
    using assms by (cases t) auto
  have "takeWhile (\<lambda>c. c \<noteq> SPACE) (t @ SPACE # s) = t" "dropWhile (\<lambda>c. c \<noteq> SPACE) (t @ SPACE # s) = SPACE # s"
    using assms(2) by (auto intro!: takeWhile_append_stop dropWhile_append_stop)
  with d assms(1) show "words (t @ SPACE # s) = t # words s"
    by (subst words.simps) (simp add: Let_def)
  have "takeWhile (\<lambda>c. c \<noteq> SPACE) t = t" "dropWhile (\<lambda>c. c \<noteq> SPACE) t = []"
    using assms(2) by (auto simp add: takeWhile_eq_all_conv)
  with d [of "[]"] assms(1) show "words t = [t]"
    by (subst words.simps) (simp add: Let_def del: dropWhile_eq_Nil_conv)
qed

lemma words_cstr: "is_cstr s \<Longrightarrow> \<forall>t\<in>set (words s). is_cstr t \<and> SPACE \<notin> set t"
proof (induction s rule: words.induct)
  case (1 s)
  let ?r = "dropWhile (\<lambda>c. c = SPACE) s"
  have r: "is_cstr ?r" using 1(2) by (auto simp add: is_cstr_def dest: set_dropWhileD)
  then have a: "is_cstr (takeWhile (\<lambda>c. c \<noteq> SPACE) ?r)" "SPACE \<notin> set (takeWhile (\<lambda>c. c \<noteq> SPACE) ?r)"
    "is_cstr (dropWhile (\<lambda>c. c \<noteq> SPACE) ?r)"
    by (auto simp add: is_cstr_def dest: set_takeWhileD set_dropWhileD)
  show ?case
  proof (cases "?r = []")
    case True
    then show ?thesis by (subst words.simps) (simp add: Let_def)
  next
    case False
    with 1(1) [OF refl False a(3)] a show ?thesis by (subst words.simps) (simp add: Let_def)
  qed
qed

text \<open>The state \<open>strtok\<close> keeps between calls, as the words it still has to give.\<close>

definition tok_state :: "char list option \<Rightarrow> string list \<Rightarrow> bool" where
  "tok_state p ws \<longleftrightarrow>
     p = None \<and> ws = [] \<or> (\<exists>s m. p = Some (s @ NUL # m) \<and> is_cstr s \<and> words s = ws)"

lemma strspn_space:
  "is_cstr s \<Longrightarrow> strspn_mem SPACE (s @ NUL # m) = Inr (dropWhile (\<lambda>c. c = SPACE) s @ NUL # m)"
  by (induction s) auto

lemma strtok_words:
  assumes "tok_state p ws"
  shows "\<exists>p'. strtok p SPACE = Inr (case ws of [] \<Rightarrow> None | w # _ \<Rightarrow> Some w, p') \<and> tok_state p' (tl ws)"
proof (cases p)
  case None
  with assms show ?thesis by (auto simp add: tok_state_def)
next
  case (Some m0)
  with assms obtain s m where m0: "m0 = s @ NUL # m" and s: "is_cstr s" "words s = ws"
    by (auto simp add: tok_state_def)
  let ?r = "dropWhile (\<lambda>c. c = SPACE) s"
  have span: "strspn_mem SPACE m0 = Inr (?r @ NUL # m)" using m0 strspn_space [OF s(1)] by simp
  show ?thesis
  proof (cases "?r = []")
    case True
    then have "ws = []" using s(2) by (subst (asm) words.simps) (simp add: Let_def)
    moreover have "strspn_mem SPACE m0 = Inr (NUL # m)" using span unfolding True by simp
    ultimately show ?thesis using Some by (simp add: strtok_def tok_state_def)
  next
    case False
    have rc: "is_cstr ?r" using s(1) by (auto simp add: is_cstr_def dest: set_dropWhileD)
    obtain r t d where r: "r = ?r" "t = takeWhile (\<lambda>c. c \<noteq> SPACE) r" "d = dropWhile (\<lambda>c. c \<noteq> SPACE) r"
      by blast
    have ws: "ws = t # words d"
      using False unfolding r s(2) [symmetric] words.simps [of s] Let_def by (simp only: if_False)
    have tc: "SPACE \<notin> set t" "NUL \<notin> set t"
      using rc unfolding r by (auto simp add: is_cstr_def dest: set_takeWhileD)
    have hd: "hd (r @ NUL # m) \<noteq> NUL" using False rc unfolding r by (cases ?r) auto
    have split: "r = t @ d" unfolding r(2,3) by (rule takeWhile_dropWhile_id [symmetric])
    have dc: "is_cstr d" using rc unfolding r by (auto simp add: is_cstr_def dest: set_dropWhileD)
    have d_hd: "d \<noteq> [] \<Longrightarrow> hd d = SPACE" unfolding r(3) using hd_dropWhile [of "\<lambda>c. c \<noteq> SPACE" r] by blast
    have tok: "strtok p SPACE =
        bind_res (strcspn_mem SPACE (r @ NUL # m)) (\<lambda>(t, e, q). Inr (Some t, if e = NUL then None else Some q))"
      using span hd Some unfolding r(1) [symmetric] by (simp add: strtok_def)
    show ?thesis
    proof (cases d)
      case Nil
      then have "strcspn_mem SPACE (r @ NUL # m) = Inr (t, NUL, m)"
        using strcspn_mem_stop [OF tc, of NUL m] split by simp
      with tok ws Nil show ?thesis by (simp add: tok_state_def)
    next
      case (Cons e d')
      then have "r @ NUL # m = t @ SPACE # (d' @ NUL # m)" "d = SPACE # d'" "is_cstr d'"
        using d_hd dc split by auto
      then show ?thesis
        using tok ws strcspn_mem_stop [OF tc, of SPACE "d' @ NUL # m"] by (auto simp add: tok_state_def)
    qed
  qed
qed

section \<open>The specification of the dispatch\<close>

definition spec_dispatch :: "'w backend \<Rightarrow> 'w \<Rightarrow> string list \<Rightarrow> ('w \<times> string) res" where
  "spec_dispatch be w ws =
     (case ws of
        [] \<Rightarrow> Inr (w, ''ERROR: Empty command'')
      | c # args \<Rightarrow>
          if c = ''login'' then
            (case args of
               u # k # _ \<Rightarrow> bind_res (be_login be w u k) (\<lambda>(w', r). Inr (w', ''LOGIN_RESULT: '' @ dec_int r))
             | _ \<Rightarrow> Inr (w, ''ERROR: Usage: login <user> <pin>''))
          else if c = ''register'' then
            (case args of
               u # k # _ \<Rightarrow> bind_res (be_register be w u k) (\<lambda>(w', r). Inr (w', ''REGISTER_RESULT: '' @ dec_int r))
             | _ \<Rightarrow> Inr (w, ''ERROR: Usage: register <user> <pin>''))
          else if c = ''tx'' then
            (case args of
               t # s # d # ty # a # _ \<Rightarrow>
                 bind_res (atoi t) (\<lambda>token. bind_res (atoi a) (\<lambda>amount.
                 bind_res (be_transact be w token s d ty amount) (\<lambda>(w', r).
                 Inr (w', ''TX_RESULT: '' @ dec_int r))))
             | _ \<Rightarrow> Inr (w, ''ERROR: Usage: tx <token> <src> <dest> <type> <amt>''))
          else Inr (w, ''ERROR: Unknown command: '' @ c))"

lemma strtok_bind:
  assumes "tok_state p ws"
  obtains p' where "strtok p SPACE = Inr (case ws of [] \<Rightarrow> None | w # _ \<Rightarrow> Some w, p')" "tok_state p' (tl ws)"
  using strtok_words [OF assms] by blast

lemma dispatch_words:
  assumes "is_cstr s"
  shows "gateway_dispatch be w (s @ NUL # m) = spec_dispatch be w (words s)"
proof -
  have "tok_state (Some (s @ NUL # m)) (words s)" using assms by (auto simp add: tok_state_def)
  then obtain p where p: "strtok (Some (s @ NUL # m)) SPACE =
      Inr (case words s of [] \<Rightarrow> None | w # _ \<Rightarrow> Some w, p)" and st: "tok_state p (tl (words s))"
    by (rule strtok_bind)
  show ?thesis
  proof (cases "words s")
    case Nil
    then show ?thesis using p by (simp add: gateway_dispatch_def spec_dispatch_def say_def)
  next
    case (Cons c args)
    have c: "is_cstr c" using words_cstr [OF assms] Cons by simp
    have st1: "tok_state p args" using st Cons by simp
    obtain p1 where p1: "strtok p SPACE = Inr (case args of [] \<Rightarrow> None | w # _ \<Rightarrow> Some w, p1)"
      "tok_state p1 (tl args)" using st1 by (rule strtok_bind)
    obtain p2 where p2: "strtok p1 SPACE = Inr (case tl args of [] \<Rightarrow> None | w # _ \<Rightarrow> Some w, p2)"
      "tok_state p2 (tl (tl args))" using p1(2) by (rule strtok_bind)
    obtain p3 where p3: "strtok p2 SPACE = Inr (case tl (tl args) of [] \<Rightarrow> None | w # _ \<Rightarrow> Some w, p3)"
      "tok_state p3 (tl (tl (tl args)))" using p2(2) by (rule strtok_bind)
    obtain p4 where p4: "strtok p3 SPACE = Inr (case tl (tl (tl args)) of [] \<Rightarrow> None | w # _ \<Rightarrow> Some w, p4)"
      "tok_state p4 (tl (tl (tl (tl args))))" using p3(2) by (rule strtok_bind)
    obtain p5 where p5: "strtok p4 SPACE =
        Inr (case tl (tl (tl (tl args))) of [] \<Rightarrow> None | w # _ \<Rightarrow> Some w, p5)"
      using p4(2) by (rule strtok_bind)
    note toks = p p1(1) p2(1) p3(1) p4(1) p5
    have cmp: "strcmp c t = 0 \<longleftrightarrow> c = t" if "is_cstr t" for t
      using c that by simp
    show ?thesis
      unfolding gateway_dispatch_def spec_dispatch_def say_def
      by (simp add: toks Cons cmp split: list.split)
  qed
qed

lemma few_words:
  "length args < 2 \<Longrightarrow> (case args of u # k # _ \<Rightarrow> f u k | _ \<Rightarrow> z) = z"
  "length args < 5 \<Longrightarrow> (case args of t # s # d # ty # a # _ \<Rightarrow> g t s d ty a | _ \<Rightarrow> z) = z"
  by (auto split: list.split)

section \<open>Requests in the shared buffer\<close>

definition local_copy :: "char list \<Rightarrow> string \<Rightarrow> char list" where
  "local_copy junk request = take 511 (request @ replicate 511 NUL) @ drop 511 junk"

lemma strncpy_local:
  "length junk = 512 \<Longrightarrow> strncpy_buf junk request 511 = Inr (local_copy junk request)"
  by (simp add: strncpy_buf_def local_copy_def)

lemma gateway_copy_local:
  assumes "c_str net_buffer = Inr request" "length junk = 512"
  shows "gateway_copy junk net_buffer = Inr (local_copy junk request)"
  using c_str_n_c_str [OF assms(1), of 511] strncpy_local [OF assms(2), of request] by (simp add: gateway_copy_def)

text \<open>The copy ends with a terminator when the request is short enough, or when the byte of the
  stack that the copy leaves alone happens to be one.\<close>

lemma local_copy_text:
  assumes "length junk = 512" "length request < 511 \<or> junk ! 511 = NUL"
  shows "\<exists>m. local_copy junk request = take 511 request @ NUL # m"
proof (cases "length request < 511")
  case True
  then have "511 - length request = Suc (510 - length request)" by simp
  then show ?thesis using True by (simp add: local_copy_def)
next
  case False
  have "drop 511 junk = [junk ! 511]" using assms(1) Cons_nth_drop_Suc [of 511 junk] by simp
  then show ?thesis using False assms(2) by (simp add: local_copy_def)
qed

lemma snprintf_reply:
  assumes "is_cstr t"
  obtains m where "snprintf_buf (replicate 512 NUL) 512 t = Inr m" "c_str m = Inr (take 511 t)"
  using snprintf_buf_c_str [of 512 "replicate 512 NUL" t] assms by auto

text \<open>What the gateway relies on: the components behind it answer with an \<open>int\<close> and keep an
  invariant.  The invariant counts the calls that are still safe, since a counter behind the
  interface may run out.\<close>

locale gateway_backend =
  fixes be :: "'w backend" and inv :: "nat \<Rightarrow> 'w \<Rightarrow> bool" and fits :: "string list \<Rightarrow> bool"
  assumes login_ok: "inv (Suc n) w \<Longrightarrow> is_cstr u \<Longrightarrow> is_cstr k \<Longrightarrow>
      \<exists>w' r. be_login be w u k = Inr (w', r) \<and> inv n w' \<and> int_ok r"
    and register_ok: "inv (Suc n) w \<Longrightarrow> is_cstr u \<Longrightarrow> is_cstr k \<Longrightarrow> fits [u, k] \<Longrightarrow>
      \<exists>w' r. be_register be w u k = Inr (w', r) \<and> inv n w' \<and> int_ok r"
    and transact_ok: "inv (Suc n) w \<Longrightarrow> is_cstr s \<Longrightarrow> is_cstr d \<Longrightarrow> is_cstr ty \<Longrightarrow> fits [s, d, ty] \<Longrightarrow>
      int_ok a \<Longrightarrow> \<exists>w' r. be_transact be w t s d ty a = Inr (w', r) \<and> inv n w' \<and> int_ok r"
    and spare: "inv (Suc n) w \<Longrightarrow> inv n w"
begin

text \<open>A request whose names fit the component it goes to, and whose numbers are numbers.\<close>

definition acceptable :: "string list \<Rightarrow> bool" where
  "acceptable ws \<longleftrightarrow>
     (case ws of
        c # u # k # rest \<Rightarrow>
          (c = ''register'' \<longrightarrow> fits [u, k]) \<and>
          (c = ''tx'' \<longrightarrow> (case rest of
             d # ty # a # _ \<Rightarrow> fits [k, d, ty] \<and> is_ok (atoi u) \<and> is_ok (atoi a)
           | _ \<Rightarrow> True))
      | _ \<Rightarrow> True)"

lemma atoi_int_ok: "atoi t = Inr n \<Longrightarrow> int_ok n"
  by (auto simp add: atoi_def to_int_eq_Inr int_range_defs split: list.splits if_splits)

lemma spec_dispatch_ok:
  assumes "inv (Suc n) w" "\<forall>t\<in>set ws. is_cstr t" "acceptable ws"
  shows "\<exists>w' ans. spec_dispatch be w ws = Inr (w', ans) \<and> inv n w' \<and> is_cstr ans"
proof -
  consider (login) u k rest where "ws = ''login'' # u # k # rest"
    | (register) u k rest where "ws = ''register'' # u # k # rest"
    | (tx) t s d ty a rest where "ws = ''tx'' # t # s # d # ty # a # rest"
    | (empty) "ws = []"
    | (usage) c args where "ws = c # args" "c \<in> {''login'', ''register'', ''tx''}" "length args < 2 \<or> c = ''tx'' \<and> length args < 5"
    | (unknown) c args where "ws = c # args" "c \<notin> {''login'', ''register'', ''tx''}"
  proof (cases ws)
    case (Cons c args)
    show thesis
    proof (cases "c \<in> {''login'', ''register''}")
      case True
      then show thesis using Cons that(1,2,5)
        by (cases args; cases "tl args") auto
    next
      case False
      show thesis
      proof (cases "c = ''tx'' \<and> 5 \<le> length args")
        case True
        then obtain t s d ty a rest where "args = t # s # d # ty # a # rest"
          by (auto simp add: numeral_eq_Suc Suc_le_length_iff)
        with True Cons that(3) show thesis by blast
      next
        case nf: False
        then show thesis using Cons False that(5,6) by (cases "c = ''tx''") auto
      qed
    qed
  qed
  then show ?thesis
  proof cases
    case login
    then show ?thesis using login_ok [OF assms(1), of u k] assms(2)
      by (auto simp add: spec_dispatch_def)
  next
    case register
    then show ?thesis using register_ok [OF assms(1), of u k] assms(2,3)
      by (auto simp add: spec_dispatch_def acceptable_def)
  next
    case tx
    then obtain token amount where n: "atoi t = Inr token" "atoi a = Inr amount" "fits [s, d, ty]"
      using assms(3) by (auto simp add: acceptable_def is_ok_iff)
    from transact_ok [OF assms(1), of s d ty amount token] assms(2) tx n atoi_int_ok
    show ?thesis by (auto simp add: spec_dispatch_def)
  next
    case empty
    then show ?thesis using spare [OF assms(1)] by (simp add: spec_dispatch_def)
  next
    case usage
    then consider "c = ''login''" "length args < 2" | "c = ''register''" "length args < 2"
      | "c = ''tx''" "length args < 5"
      by fastforce
    then have "spec_dispatch be w ws = Inr (w, ''ERROR: Usage: login <user> <pin>'') \<or>
        spec_dispatch be w ws = Inr (w, ''ERROR: Usage: register <user> <pin>'') \<or>
        spec_dispatch be w ws = Inr (w, ''ERROR: Usage: tx <token> <src> <dest> <type> <amt>'')"
      by cases (simp_all add: usage(1) spec_dispatch_def few_words)
    moreover have "is_cstr ''ERROR: Usage: login <user> <pin>''" "is_cstr ''ERROR: Usage: register <user> <pin>''"
      "is_cstr ''ERROR: Usage: tx <token> <src> <dest> <type> <amt>''" by simp_all
    ultimately show ?thesis using spare [OF assms(1)] by metis
  next
    case unknown
    then show ?thesis using spare [OF assms(1)] assms(2) by (simp add: spec_dispatch_def)
  qed
qed

text \<open>One iteration on an acceptable request.\<close>

lemma gateway_step_ok:
  assumes "inv (Suc n) w" "length junk = 512" "junk ! 511 = NUL \<or> length request < 511"
    and "is_cstr request" "acceptable (words (take 511 request))"
    and "length net_buffer \<ge> 512" "c_str net_buffer = Inr request"
  shows "\<exists>w' ans net'. gateway_step be junk w net_buffer = Inr (w', net', take 511 ans) \<and> inv n w' \<and>
    spec_dispatch be w (words (take 511 request)) = Inr (w', ans) \<and>
    c_str net' = Inr (take 511 ans) \<and> length net' = length net_buffer"
proof -
  have cs: "is_cstr (take 511 request)"
    using assms(4) by (auto simp add: is_cstr_def dest: in_set_takeD)
  obtain m where m: "local_copy junk request = take 511 request @ NUL # m"
    using local_copy_text assms(2,3) by blast
  obtain w' ans where sp: "spec_dispatch be w (words (take 511 request)) = Inr (w', ans)"
    "inv n w'" "is_cstr ans"
    using spec_dispatch_ok [OF assms(1) _ assms(5)] words_cstr [OF cs] by auto
  obtain buf where buf: "snprintf_buf (replicate 512 NUL) 512 ans = Inr buf" "c_str buf = Inr (take 511 ans)"
    using sp(3) by (rule snprintf_reply)
  have tc: "is_cstr (take 511 ans)" using sp(3) by (auto simp add: is_cstr_def dest: in_set_takeD)
  obtain net' where net': "strcpy_buf net_buffer (take 511 ans) = Inr net'" "c_str net' = Inr (take 511 ans)"
    "length net' = length net_buffer"
  proof
    have "min (length ans) 511 < length net_buffer" using assms(6) by (simp add: min_def)
    then show "strcpy_buf net_buffer (take 511 ans) =
        Inr (take 511 ans @ NUL # drop (Suc (length (take 511 ans))) net_buffer)"
      by (simp add: strcpy_buf_def)
  qed (use assms(6) tc in auto)
  show ?thesis
    using sp buf net' assms(2,7) dispatch_words [OF cs, of be w m] m
    by (auto simp add: gateway_step_defs gateway_copy_local)
qed

end

section \<open>Properties\<close>

text \<open>C7. The dispatch by repeated \<open>strtok\<close> equals the dispatch on the list of words of the
  request: any number of blanks separates words, missing words give the usage message, extra
  words are ignored, and the numbers and names reach the component as they were written.\<close>

theorem gateway_parses_words:
  assumes "is_cstr request" "length request < 511" "length junk = 512"
  shows "gateway_dispatch be w (local_copy junk request) = spec_dispatch be w (words request)"
proof -
  obtain m where "local_copy junk request = take 511 request @ NUL # m"
    using local_copy_text [OF assms(3), of request] assms(2) by blast
  then show ?thesis using assms(1,2) dispatch_words [of request be w m] by simp
qed

theorem gateway_parses_words_witness:
  "gateway_dispatch
     \<lparr>be_login = (\<lambda>w u k. Inr (w, int (length u) + w)), be_register = (\<lambda>w u k. Inr (w, -1)),
      be_transact = (\<lambda>w t s d ty a. Inr (w + a, t))\<rparr> (5::int)
     (local_copy (replicate 512 CHR ''x'') ''  login  Bob 1234 now'') = Inr (5, ''LOGIN_RESULT: '' @ dec_int 8)"
proof -
  have "words ''  login  Bob 1234 now'' = [''login'', ''Bob'', ''1234'', ''now'']"
    by (simp add: words.simps Let_def)
  then show ?thesis
    using gateway_parses_words [of "''  login  Bob 1234 now''" "replicate 512 CHR ''x''"
        "\<lparr>be_login = (\<lambda>w u k. Inr (w, int (length u) + w)), be_register = (\<lambda>w u k. Inr (w, -1)),
         be_transact = (\<lambda>w t s d ty a. Inr (w + a, t))\<rparr>" 5]
    by (simp add: spec_dispatch_def)
qed

text \<open>C14. A request of 511 characters or more without a blank is read past the end of the local
  buffer: the copy of 511 bytes leaves the last byte of the buffer as it was on the stack, and
  unless that byte happens to be zero, or a blank, there is no terminator.\<close>

theorem gateway_reads_past_buffer:
  assumes "c_str net_buffer = Inr request" "SPACE \<notin> set (take 511 request)" "511 \<le> length request"
    and "length junk = 512" "junk ! 511 \<noteq> NUL" "junk ! 511 \<noteq> SPACE"
  shows "gateway_step be junk w net_buffer = Inl OutOfBounds"
proof -
  have "drop 511 junk = [junk ! 511]" using assms(4) Cons_nth_drop_Suc [of 511 junk] by simp
  then have l: "local_copy junk request = take 511 request @ [junk ! 511]"
    using assms(3) by (simp add: local_copy_def)
  have nul: "NUL \<notin> set (take 511 request @ [junk ! 511])"
    using assms(1,5) by (auto simp add: c_str_eq_Inr is_cstr_def dest: in_set_takeD)
  have sp: "SPACE \<notin> set (take 511 request @ [junk ! 511])" using assms(2,6) by simp
  have run: "strcspn_mem SPACE m = Inl OutOfBounds" if "NUL \<notin> set m" "SPACE \<notin> set m" for m
    using that by (induction m) auto
  obtain c m where cm: "take 511 request @ [junk ! 511] = c # m" by (cases "take 511 request") auto
  have "strspn_mem SPACE (c # m) = Inr (c # m)" using sp cm by auto
  then have "strtok (Some (c # m)) SPACE = Inl OutOfBounds"
    using run [of "c # m"] nul sp cm by (auto simp add: strtok_def)
  then show ?thesis
    using assms(1,4) l cm by (simp add: gateway_step_defs gateway_dispatch_def gateway_copy_local)
qed

theorem gateway_reads_past_buffer_witness:
  "gateway_step
     \<lparr>be_login = (\<lambda>w u k. Inr (w, 0)), be_register = (\<lambda>w u k. Inr (w, 0)),
      be_transact = (\<lambda>w t s d ty a. Inr (w, 0))\<rparr> (replicate 512 CHR ''x'') ()
     (replicate 600 CHR ''a'' @ replicate 3496 NUL) = Inl OutOfBounds"
proof -
  have "c_str (replicate 600 CHR ''a'' @ NUL # replicate 3495 NUL) = Inr (replicate 600 CHR ''a'')"
    by (rule c_str_append_NUL) (simp add: is_cstr_def)
  moreover have "replicate 3496 NUL = NUL # replicate 3495 NUL"
    using replicate_Suc [of 3495 NUL] by (simp del: replicate_Suc)
  ultimately have "c_str (replicate 600 CHR ''a'' @ replicate 3496 NUL) = Inr (replicate 600 CHR ''a'')"
    by simp
  from gateway_reads_past_buffer [OF this, of "replicate 512 CHR ''x''"] show ?thesis
    by (simp add: take_replicate)
qed

end
