(* ===== verification/ClientApp.thy ===== *)
theory ClientApp
  imports CString
begin

text \<open>
  The client, components/Client/src/client.c: the mock of the user's input and the two
  accesses of its loop to the buffer it shares with the gateway.  The loops that yield the
  processor have no effect on the state.
\<close>

definition mock_data :: string where
  "mock_data = ''tx 1001 Alice Bob TRANSFER 100''"

definition read_input :: "char list \<Rightarrow> nat \<Rightarrow> char list res" where
  "read_input buffer max_len =
     bind_res (strncpy_buf buffer mock_data (max_len - 1)) (\<lambda>b. upd_res b (max_len - 1) NUL)"

text \<open>The first half of an iteration: the input is copied into the shared buffer with its
  terminator; \<open>junk\<close> is the content of \<open>input_buffer\<close> on the stack.\<close>

definition client_write :: "char list \<Rightarrow> char list \<Rightarrow> char list res" where
  "client_write junk net_buffer =
     bind_res (read_input junk 512) (\<lambda>input_buffer.
     bind_res (c_str input_buffer) (\<lambda>s. strcpy_buf net_buffer s))"

text \<open>The second half: what it prints as the response.\<close>

definition client_read :: "char list \<Rightarrow> string res" where
  "client_read net_buffer = c_str net_buffer"

lemma is_cstr_mock [simp]: "is_cstr mock_data"
  by (simp add: mock_data_def)

lemma length_mock: "length mock_data = 30"
  by (simp add: mock_data_def)

lemma read_input_ok:
  assumes "length junk = 512"
  shows "\<exists>m. read_input junk 512 = Inr (mock_data @ NUL # m)"
proof -
  have "strncpy_buf junk mock_data 511 = Inr (mock_data @ replicate 481 NUL @ drop 511 junk)"
    using assms length_mock by (simp add: strncpy_buf_def)
  moreover have "upd_res (mock_data @ replicate 481 NUL @ drop 511 junk) 511 NUL =
      Inr (mock_data @ (replicate 481 NUL @ drop 511 junk)[481 := NUL])"
    using assms length_mock by (simp add: list_update_append)
  moreover have "(replicate 481 NUL @ drop 511 junk)[481 := NUL] =
      NUL # tl ((replicate 481 NUL @ drop 511 junk)[481 := NUL])"
  proof -
    have "replicate 481 NUL = NUL # replicate 480 NUL"
      using replicate_Suc [of 480 NUL] by (simp del: replicate_Suc)
    then show ?thesis by simp
  qed
  ultimately show ?thesis by (auto simp add: read_input_def)
qed

lemma client_write_ok:
  assumes "length junk = 512" "512 \<le> length net_buffer"
  shows "client_write junk net_buffer = Inr (mock_data @ NUL # drop 31 net_buffer)"
  using read_input_ok [OF assms(1)] assms(2) length_mock
  by (auto simp add: client_write_def strcpy_buf_def)

end
