(* ===== verification/BankSystem.thy ===== *)
theory BankSystem
  imports AuthServer Ledger Gateway ClientApp
begin

text \<open>
  The assembly of banking_system.camkes: the client and the gateway share a buffer and a
  notification, the gateway calls the authentication server and the ledger.  The accesses of
  the two threads to the shared buffer are the steps of an interleaving; one copy into or out
  of the buffer is taken to be one step.  The notification is binary, as an seL4 notification
  is: a second signal before the gateway waits is lost.
\<close>

section \<open>The components behind the gateway\<close>

type_synonym 'd bank_world = "auth_state \<times> 'd ledger_state"

definition bank_backend :: "('d, 's) sql_core \<Rightarrow> char list \<Rightarrow> 'd bank_world backend" where
  "bank_backend core junk =
     \<lparr>be_login = (\<lambda>(a, l) u k. bind_res (auth_login a u k) (\<lambda>(a', r). Inr ((a', l), r))),
      be_register = (\<lambda>(a, l) u k. bind_res (auth_register_user a u k) (\<lambda>(a', r). Inr ((a', l), r))),
      be_transact = (\<lambda>(a, l) t s d ty amt.
        bind_res (bank_execute_transaction core junk l t s d ty amt) (\<lambda>(l', r). Inr ((a, l'), r)))\<rparr>"

text \<open>The invariant of the two components with \<open>n\<close> calls to go, and the sizes they accept.\<close>

definition world_inv :: "('d, 's) sql_core \<Rightarrow> char list \<Rightarrow> nat \<Rightarrow> 'd bank_world \<Rightarrow> bool" where
  "world_inv core junk n w \<longleftrightarrow> engine_total core \<and> length junk = 512 \<and> auth_inv (fst w) \<and>
     int_ok (next_token_id (fst w) + int n)"

definition world_fits :: "string list \<Rightarrow> bool" where
  "world_fits ws \<longleftrightarrow>
     (case ws of
        [u, k] \<Rightarrow> fits32 u \<and> fits32 k
      | _ \<Rightarrow> length (concat ws) < 366)"

interpretation bank_sys: gateway_backend "bank_backend core junk" "world_inv core junk" world_fits
  for core :: "('d, 's) sql_core" and junk :: "char list"
proof
  fix n and w :: "'d bank_world" and u k s d ty :: string and t amt :: int
  obtain a l where w: "w = (a, l)" by (cases w)
  assume inv: "world_inv core junk (Suc n) w"
  then have a: "auth_inv a" "int_ok (next_token_id a + int n + 1)" "engine_total core" "length junk = 512"
    by (auto simp add: world_inv_def w algebra_simps)
  have lo: "1000 \<le> next_token_id a" using a(1) by (simp add: auth_inv_def)
  have n: "int_ok (next_token_id a + int n)" "next_token_id a \<noteq> INT_MAX" "int_ok (next_token_id a + 1)"
    using a(2) lo by (auto simp add: int_range_defs)
  show "world_inv core junk n w" using a n w by (simp add: world_inv_def)
  show "\<exists>w' r. be_login (bank_backend core junk) w u k = Inr (w', r) \<and> world_inv core junk n w' \<and> int_ok r"
    if "is_cstr u" "is_cstr k"
    using login_eq [OF a(1) that] a n auth_inv_token [OF a(1), of "next_token_id a + 1"] w
    by (auto simp add: bank_backend_def world_inv_def algebra_simps int_range_defs)
  show "\<exists>w' r. be_register (bank_backend core junk) w u k = Inr (w', r) \<and> world_inv core junk n w' \<and> int_ok r"
    if "world_fits [u, k]"
  proof (cases "num_users a < MAX_USERS")
    case True
    from register_ok [OF a(1) True, of u k] that show ?thesis
      using a n w by (auto simp add: bank_backend_def world_inv_def world_fits_def int_range_defs)
  next
    case False
    then show ?thesis using register_full [of a u k] a n w
      by (auto simp add: bank_backend_def world_inv_def int_range_defs)
  qed
  show "\<exists>w' r. be_transact (bank_backend core junk) w t s d ty amt = Inr (w', r) \<and> world_inv core junk n w' \<and> int_ok r"
    if "is_cstr s" "is_cstr d" "is_cstr ty" "world_fits [s, d, ty]" "int_ok amt"
  proof -
    have "length s + length d + length ty + 2 * length (dec_int amt) < 388"
      using that(4) dec_int_length [OF that(5)] by (simp add: world_fits_def)
    from bank_total [OF a(3,4) that(1,2,3) this, of l t] show ?thesis
      using a n w by (auto simp add: bank_backend_def world_inv_def int_range_defs)
  qed
qed

section \<open>The interleaving of the client and the gateway\<close>

datatype client_pc = CWrite | CEmit | CRead

record 'w system =
  net :: "char list"
  pending :: bool
  client_at :: client_pc
  gw_local :: "char list option"
  world :: 'w
  heard :: "string list"

text \<open>\<open>gw_local\<close> is the gateway's copy of a request while it works on it and \<open>None\<close> while it
  waits; \<open>heard\<close> is what the client has printed as responses.  The \<open>junk\<close> arguments are the
  bytes on the stacks under the local buffers, the same in every iteration.\<close>

inductive sys_step ::
  "'w backend \<Rightarrow> char list \<Rightarrow> char list \<Rightarrow> 'w system \<Rightarrow> 'w system \<Rightarrow> bool"
  for be :: "'w backend" and junkG junkC :: "char list" where
  c_write: "client_at s = CWrite \<Longrightarrow> client_write junkC (net s) = Inr m \<Longrightarrow>
     sys_step be junkG junkC s (s\<lparr>net := m, client_at := CEmit\<rparr>)"
| c_emit: "client_at s = CEmit \<Longrightarrow>
     sys_step be junkG junkC s (s\<lparr>pending := True, client_at := CRead\<rparr>)"
| c_read: "client_at s = CRead \<Longrightarrow> client_read (net s) = Inr t \<Longrightarrow>
     sys_step be junkG junkC s (s\<lparr>heard := heard s @ [t], client_at := CWrite\<rparr>)"
| g_wake: "gw_local s = None \<Longrightarrow> pending s \<Longrightarrow> gateway_copy junkG (net s) = Inr b \<Longrightarrow>
     sys_step be junkG junkC s (s\<lparr>pending := False, gw_local := Some b\<rparr>)"
| g_reply: "gw_local s = Some b \<Longrightarrow> gateway_serve be (world s) b (net s) = Inr (w, m, r) \<Longrightarrow>
     sys_step be junkG junkC s (s\<lparr>net := m, world := w, gw_local := None\<rparr>)"

text \<open>A call that faults has no step: the component is gone.  The fault is a fact of the state
  before it.\<close>

definition gateway_faults :: "'w backend \<Rightarrow> char list \<Rightarrow> 'w system \<Rightarrow> bool" where
  "gateway_faults be junkG s \<longleftrightarrow>
     (case gw_local s of
        None \<Rightarrow> pending s \<and> \<not> is_ok (gateway_copy junkG (net s))
      | Some b \<Rightarrow> \<not> is_ok (gateway_serve be (world s) b (net s)))"

definition client_faults :: "char list \<Rightarrow> 'w system \<Rightarrow> bool" where
  "client_faults junkC s \<longleftrightarrow>
     (case client_at s of
        CWrite \<Rightarrow> \<not> is_ok (client_write junkC (net s))
      | CEmit \<Rightarrow> False
      | CRead \<Rightarrow> \<not> is_ok (client_read (net s)))"

inductive reaches :: "'w backend \<Rightarrow> char list \<Rightarrow> char list \<Rightarrow> 'w system \<Rightarrow> nat \<Rightarrow> 'w system \<Rightarrow> bool"
  for be :: "'w backend" and junkG junkC :: "char list" and s0 :: "'w system" where
  reach_start: "reaches be junkG junkC s0 0 s0"
| reach_step: "reaches be junkG junkC s0 n s \<Longrightarrow> sys_step be junkG junkC s s' \<Longrightarrow>
     reaches be junkG junkC s0 (Suc n) s'"

text \<open>Boot: the buffer of 4096 bytes is zero, nobody has signalled, the server has no user.\<close>

definition boot :: "'d ledger_state \<Rightarrow> 'd bank_world system" where
  "boot l = \<lparr>net = replicate 4096 NUL, pending = False, client_at = CWrite, gw_local = None,
             world = (auth_init, l), heard = []\<rparr>"

section \<open>What passes through the buffer\<close>

text \<open>The texts of the mock client's runs: its request, the reply to it, and the gateway's
  complaints about replies it took for requests.\<close>

definition tx_answer :: "int \<Rightarrow> string" where
  "tx_answer r = ''TX_RESULT: '' @ dec_int r"

inductive_set traffic :: "string set" where
  "mock_data \<in> traffic"
| "int_ok r \<Longrightarrow> tx_answer r \<in> traffic"
| "''ERROR: Unknown command: TX_RESULT:'' \<in> traffic"
| "''ERROR: Unknown command: ERROR:'' \<in> traffic"

lemma words_mock:
  "words mock_data = [''tx'', ''1001'', ''Alice'', ''Bob'', ''TRANSFER'', ''100'']"
  by (simp add: mock_data_def words.simps Let_def)

lemma words_result: "words (tx_answer r) = [''TX_RESULT:'', dec_int r]"
proof -
  have "SPACE \<notin> set (dec_int r)" using dec_int_chars [of SPACE r] by (auto simp add: is_digit_def uchar_def)
  then show ?thesis
    using words_append(1) [of "''TX_RESULT:''" "dec_int r"] words_append(2) [of "dec_int r"]
    by (simp add: tx_answer_def)
qed

lemma words_error:
  "words ''ERROR: Unknown command: TX_RESULT:'' = [''ERROR:'', ''Unknown'', ''command:'', ''TX_RESULT:'']"
  "words ''ERROR: Unknown command: ERROR:'' = [''ERROR:'', ''Unknown'', ''command:'', ''ERROR:'']"
  by (simp_all add: words.simps Let_def)

lemma traffic_cstr:
  assumes "t \<in> traffic"
  shows "is_cstr t" "length t < 64"
  using assms
proof (induction rule: traffic.induct)
  case (2 r)
  {
    case 1
    show ?case by (simp add: tx_answer_def)
  next
    case 2
    show ?case using dec_int_length [OF \<open>int_ok r\<close>] by (simp add: tx_answer_def)
  }
qed (simp_all add: mock_data_def)

definition spec_1001 :: "'w backend \<Rightarrow> 'w \<Rightarrow> ('w \<times> int) res" where
  "spec_1001 be w = be_transact be w 1001 ''Alice'' ''Bob'' ''TRANSFER'' 100"

lemma atoi_mock: "atoi ''1001'' = Inr 1001" "atoi ''100'' = Inr 100"
  by (simp_all add: atoi_def is_space_def uchar_def is_digit_def digit_val_def int_range_defs to_int_def)

text \<open>The dispatch on a text of the traffic.\<close>

lemma dispatch_mock:
  "spec_dispatch be w (words mock_data) = bind_res (spec_1001 be w) (\<lambda>(w', r). Inr (w', tx_answer r))"
  by (simp add: words_mock spec_dispatch_def atoi_mock spec_1001_def tx_answer_def)

lemma dispatch_result:
  "spec_dispatch be w (words (tx_answer r)) = Inr (w, ''ERROR: Unknown command: TX_RESULT:'')"
  unfolding words_result by (simp add: spec_dispatch_def)

lemma dispatch_error:
  "spec_dispatch be w (words ''ERROR: Unknown command: TX_RESULT:'') = Inr (w, ''ERROR: Unknown command: ERROR:'')"
  "spec_dispatch be w (words ''ERROR: Unknown command: ERROR:'') = Inr (w, ''ERROR: Unknown command: ERROR:'')"
  by (simp_all add: words_error spec_dispatch_def)

lemma copy_traffic:
  assumes "t \<in> traffic" "length junk = 512" "c_str m = Inr t"
  shows "\<exists>r. gateway_copy junk m = Inr (t @ NUL # r)"
proof -
  have "length t < 511" using traffic_cstr(2) [OF assms(1)] by simp
  then show ?thesis
    using local_copy_text [OF assms(2), of t] assms(2,3) by (auto simp add: gateway_copy_local)
qed

lemma serve_traffic:
  assumes "t \<in> traffic" "512 \<le> length m" "spec_dispatch be w (words t) = Inr (w', ans)" "ans \<in> traffic"
  shows "gateway_serve be w (t @ NUL # r) m = Inr (w', ans @ NUL # drop (Suc (length ans)) m, ans)"
proof -
  have a: "is_cstr ans" "length ans < 64" using traffic_cstr [OF assms(4)] by simp_all
  obtain b where "snprintf_buf (replicate 512 NUL) 512 ans = Inr b" "c_str b = Inr ans"
  proof (rule snprintf_reply [OF a(1)])
    have "take 511 ans = ans" using a(2) by simp
    then show thesis if "snprintf_buf (replicate 512 NUL) 512 ans = Inr m"
      "c_str m = Inr (take 511 ans)" for m
      using that \<open>\<And>b. snprintf_buf (replicate 512 NUL) 512 ans = Inr b \<Longrightarrow> c_str b = Inr ans \<Longrightarrow> thesis\<close>
      by simp
  qed
  then show ?thesis
    using assms(2,3) a dispatch_words [OF traffic_cstr(1) [OF assms(1)], of be w r]
    by (simp add: gateway_serve_def strcpy_buf_def)
qed

lemma serve_traffic_total:
  assumes "t \<in> traffic" "world_inv core junk (Suc k) w"
  shows "\<exists>w' ans. spec_dispatch (bank_backend core junk) w (words t) = Inr (w', ans) \<and> ans \<in> traffic \<and>
    world_inv core junk k w' \<and> fst w' = fst w"
  using assms(1)
proof cases
  case 1
  have f: "world_fits [''Alice'', ''Bob'', ''TRANSFER'']" by (simp add: world_fits_def)
  obtain w' r where r: "spec_1001 (bank_backend core junk) w = Inr (w', r)" "world_inv core junk k w'" "int_ok r"
    using bank_sys.transact_ok [OF assms(2) _ _ _ f, of 100 1001] by (auto simp add: spec_1001_def int_range_defs)
  have "fst w' = fst w"
    using r(1) by (cases w) (auto simp add: spec_1001_def bank_backend_def bind_res_eq_Inr)
  moreover have "spec_dispatch (bank_backend core junk) w (words t) = Inr (w', tx_answer r)"
    unfolding 1 dispatch_mock using r(1) by simp
  ultimately show ?thesis using r(2,3) traffic.intros(2) by blast
next
  case (2 r)
  have "spec_dispatch (bank_backend core junk) w (words t) = Inr (w, ''ERROR: Unknown command: TX_RESULT:'')"
    unfolding 2 by (rule dispatch_result)
  then show ?thesis using bank_sys.spare [OF assms(2)] traffic.intros(3) by blast
next
  case 3
  have "spec_dispatch (bank_backend core junk) w (words t) = Inr (w, ''ERROR: Unknown command: ERROR:'')"
    unfolding 3 by (rule dispatch_error)
  then show ?thesis using bank_sys.spare [OF assms(2)] traffic.intros(4) by blast
next
  case 4
  have "spec_dispatch (bank_backend core junk) w (words t) = Inr (w, ''ERROR: Unknown command: ERROR:'')"
    unfolding 4 by (rule dispatch_error)
  then show ?thesis using bank_sys.spare [OF assms(2)] traffic.intros(4) by blast
qed

definition sys_inv :: "('d, 's) sql_core \<Rightarrow> char list \<Rightarrow> nat \<Rightarrow> 'd bank_world system \<Rightarrow> bool" where
  "sys_inv core junk k s \<longleftrightarrow>
     length (net s) = 4096 \<and> fst (world s) = auth_init \<and> world_inv core junk k (world s) \<and>
     (\<exists>t. c_str (net s) = Inr t \<and>
        (t \<in> traffic \<or> client_at s = CWrite \<and> \<not> pending s \<and> gw_local s = None)) \<and>
     (\<forall>b. gw_local s = Some b \<longrightarrow> (\<exists>t\<in>traffic. \<exists>r. b = t @ NUL # r)) \<and>
     set (heard s) \<subseteq> traffic"

lemma sys_inv_step:
  assumes "sys_step (bank_backend core junk) junkG junkC s s'" "sys_inv core junk (Suc k) s"
    and "length junkG = 512" "length junkC = 512"
  shows "sys_inv core junk k s'"
proof -
  have spare: "world_inv core junk k (world s)"
    using assms(2) bank_sys.spare unfolding sys_inv_def by blast
  show ?thesis
    using assms(1)
proof cases
  case (c_write m)
  then have "m = mock_data @ NUL # drop 31 (net s)"
    using client_write_ok [of junkC "net s"] assms(2,4) by (simp add: sys_inv_def)
  moreover have "length m = 4096"
    using calculation length_mock assms(2) by (simp add: sys_inv_def)
  ultimately show ?thesis
    using c_write(1) assms(2) spare by (auto simp add: sys_inv_def intro: traffic.intros)
next
  case c_emit
  then show ?thesis using assms(2) spare by (auto simp add: sys_inv_def)
next
  case (c_read t)
  then show ?thesis using assms(2) spare by (auto simp add: sys_inv_def client_read_def)
next
  case (g_wake b)
  then obtain t where t: "t \<in> traffic" "c_str (net s) = Inr t" using assms(2) by (auto simp add: sys_inv_def)
  then obtain r where "b = t @ NUL # r" using copy_traffic [OF t(1) assms(3) t(2)] g_wake(4) by auto
  then show ?thesis using g_wake t assms(2) spare by (auto simp add: sys_inv_def)
next
  case (g_reply b w m r)
  then obtain t q where t: "t \<in> traffic" "b = t @ NUL # q" using assms(2) by (auto simp add: sys_inv_def)
  have inv: "world_inv core junk (Suc k) (world s)" and len: "length (net s) = 4096"
    using assms(2) by (auto simp add: sys_inv_def)
  obtain w' ans where a: "spec_dispatch (bank_backend core junk) (world s) (words t) = Inr (w', ans)"
    "ans \<in> traffic" "world_inv core junk k w'" "fst w' = fst (world s)"
    using serve_traffic_total [OF t(1) inv] by blast
  have "gateway_serve (bank_backend core junk) (world s) b (net s) =
      Inr (w', ans @ NUL # drop (Suc (length ans)) (net s), ans)"
    using serve_traffic [OF t(1) _ a(1,2), of "net s" q] len t(2) by simp
  with g_reply have m: "w = w'" "m = ans @ NUL # drop (Suc (length ans)) (net s)" by auto
  have "length ans < 64" "is_cstr ans" using traffic_cstr [OF a(2)] by auto
  then show ?thesis using g_reply(1) m a assms(2) by (auto simp add: sys_inv_def)
qed
qed

lemma world_inv_boot:
  "engine_total core \<Longrightarrow> length junk = 512 \<Longrightarrow> k \<le> 2147482647 \<Longrightarrow> world_inv core junk k (auth_init, l)"
  using auth_inv_init by (simp add: world_inv_def auth_init_def int_range_defs)

lemma sys_inv_boot:
  assumes "engine_total core" "length junk = 512" "k \<le> 2147482647"
  shows "sys_inv core junk k (boot l)"
proof -
  have "c_str (replicate 4096 NUL) = Inr []"
    using c_str_append_NUL [of "[]" "replicate 4095 NUL"] replicate_Suc [of 4095 NUL] by (simp del: replicate_Suc)
  then show ?thesis using world_inv_boot [OF assms] by (simp add: sys_inv_def boot_def)
qed

lemma reaches_inv:
  assumes "reaches (bank_backend core junk) junkG junkC (boot l) n s"
    and "engine_total core" "length junk = 512" "length junkG = 512" "length junkC = 512"
  shows "n + k \<le> 2147482647 \<Longrightarrow> sys_inv core junk k s"
  using assms(1)
proof (induction arbitrary: k rule: reaches.induct)
  case reach_start
  then show ?case using sys_inv_boot assms by simp
next
  case (reach_step n s s')
  then show ?case using sys_inv_step [OF reach_step.hyps(2) _ assms(4,5)] by simp
qed

lemma sys_inv_no_fault:
  assumes "sys_inv core junk (Suc k) s" "length junkG = 512"
  shows "\<not> gateway_faults (bank_backend core junk) junkG s"
proof (cases "gw_local s")
  case None
  then show ?thesis
    using assms copy_traffic by (fastforce simp add: gateway_faults_def sys_inv_def)
next
  case (Some b)
  then obtain t q where t: "t \<in> traffic" "b = t @ NUL # q" using assms(1) by (auto simp add: sys_inv_def)
  have inv: "world_inv core junk (Suc k) (world s)" and len: "length (net s) = 4096"
    using assms(1) by (auto simp add: sys_inv_def)
  obtain w' ans where "spec_dispatch (bank_backend core junk) (world s) (words t) = Inr (w', ans)" "ans \<in> traffic"
    using serve_traffic_total [OF t(1) inv] by blast
  from serve_traffic [OF t(1) _ this, of "net s" q] show ?thesis
    using len t(2) Some by (simp add: gateway_faults_def)
qed

lemma sys_inv_client:
  assumes "sys_inv core junk k s" "length junkC = 512"
  shows "\<not> client_faults junkC s"
  using assms client_write_ok [OF assms(2), of "net s"]
  by (auto simp add: client_faults_def sys_inv_def client_read_def split: client_pc.split)

text \<open>A client that does not fault can take its next step.\<close>

lemma client_moves: "\<not> client_faults junkC s \<Longrightarrow> \<exists>s'. sys_step be junkG junkC s s' \<and> client_at s' \<noteq> client_at s"
proof (cases "client_at s")
  case CWrite
  then show "\<not> client_faults junkC s \<Longrightarrow> ?thesis"
    using c_write [OF CWrite, of junkC] by (fastforce simp add: client_faults_def is_ok_iff)
next
  case CEmit
  then show ?thesis using c_emit [OF CEmit] by fastforce
next
  case CRead
  then show "\<not> client_faults junkC s \<Longrightarrow> ?thesis"
    using c_read [OF CRead] by (fastforce simp add: client_faults_def is_ok_iff)
qed

text \<open>A gateway that does not fault serves what it has copied, and copies when it is signalled.\<close>

lemma gateway_moves:
  assumes "\<not> gateway_faults be junkG s" "gw_local s \<noteq> None \<or> pending s"
  shows "\<exists>s'. sys_step be junkG junkC s s' \<and> (gw_local s' = None \<longleftrightarrow> gw_local s \<noteq> None)"
proof (cases "gw_local s")
  case None
  then show ?thesis
    using assms g_wake [OF None, of junkG] by (fastforce simp add: gateway_faults_def is_ok_iff)
next
  case (Some b)
  then obtain w m r where "gateway_serve be (world s) b (net s) = Inr (w, m, r)"
    using assms(1) by (auto simp add: gateway_faults_def is_ok_iff)
  from g_reply [OF Some this, of junkG junkC] show ?thesis using Some by fastforce
qed

section \<open>Properties\<close>

text \<open>C1. In every interleaving of the client and the gateway from boot, on an engine whose
  scripts end, with local buffers of the sizes in the code and for as many steps as the token
  counter allows, neither the client nor the gateway, nor a component the gateway calls, faults:
  the client can always take its next step, and the gateway can always serve the request it
  has copied, or copy one when it was signalled.  Everything the client prints as a response is its own
  request, a transaction result or a complaint about an unknown command, and the state of the
  authentication server never changes: every transfer runs under the token 1001 although no
  user is registered and no token has been issued.\<close>

theorem system_safe:
  assumes "reaches (bank_backend core junk) junkG junkC (boot l) n s" "engine_total core"
    and "length junk = 512" "length junkG = 512" "length junkC = 512" "n \<le> 2147482646"
  shows "\<not> client_faults junkC s \<and> \<not> gateway_faults (bank_backend core junk) junkG s \<and>
    (\<exists>s'. sys_step (bank_backend core junk) junkG junkC s s' \<and> client_at s' \<noteq> client_at s) \<and>
    (gw_local s \<noteq> None \<or> pending s \<longrightarrow>
      (\<exists>s'. sys_step (bank_backend core junk) junkG junkC s s' \<and> (gw_local s' = None \<longleftrightarrow> gw_local s \<noteq> None))) \<and>
    set (heard s) \<subseteq> traffic \<and> fst (world s) = auth_init"
proof -
  have inv: "sys_inv core junk (Suc 0) s" using reaches_inv [OF assms(1-5)] assms(6) by simp
  then have "set (heard s) \<subseteq> traffic" "fst (world s) = auth_init" by (simp_all add: sys_inv_def)
  then show ?thesis
    using sys_inv_no_fault [OF inv assms(4)] sys_inv_client [OF inv assms(5)] client_moves gateway_moves by blast
qed

lemma log_engine_total: "engine_total (log_core bad (\<lambda>_. False))"
  using log_engine_ok log_db_exec unfolding engine_total_def by blast

theorem system_safe_witness:
  "\<exists>s. reaches (bank_backend (log_core (\<lambda>_. False) (\<lambda>_. False)) (replicate 512 NUL)) (replicate 512 NUL)
      (replicate 512 NUL) (boot \<lparr>db = Some [], console = []\<rparr>) 1 s \<and>
    \<not> gateway_faults (bank_backend (log_core (\<lambda>_. False) (\<lambda>_. False)) (replicate 512 NUL)) (replicate 512 NUL) s \<and>
    \<not> client_faults (replicate 512 NUL) s"
proof -
  let ?be = "bank_backend (log_core (\<lambda>_. False) (\<lambda>_. False)) (replicate 512 NUL)"
  let ?b = "boot \<lparr>db = Some [], console = []\<rparr>"
  have "client_write (replicate 512 NUL) (net ?b) = Inr (mock_data @ NUL # drop 31 (net ?b))"
    using client_write_ok [of "replicate 512 NUL" "net ?b"] by (simp add: boot_def)
  from c_write [OF _ this, of ?be "replicate 512 NUL"] reach_start [of ?be "replicate 512 NUL"]
  have "\<exists>s. reaches ?be (replicate 512 NUL) (replicate 512 NUL) ?b (Suc 0) s"
    by (auto simp add: boot_def intro: reach_step)
  then obtain s where s: "reaches ?be (replicate 512 NUL) (replicate 512 NUL) ?b 1 s" by auto
  from system_safe [OF s log_engine_total] s show ?thesis by auto
qed

text \<open>C9. The client's polling is a race: there is a run in which it prints its own request as
  the response, and, after the gateway has written a reply over the next request and then
  taken that reply for a request, a complaint about the command TX_RESULT: in place of the
  second result.\<close>

theorem reply_taken_for_request:
  assumes "engine_total core" "length junk = 512" "length junkG = 512" "length junkC = 512"
  shows "\<exists>s. reaches (bank_backend core junk) junkG junkC (boot l) 10 s \<and>
    heard s = [mock_data, ''ERROR: Unknown command: TX_RESULT:'']"
proof -
  let ?be = "bank_backend core junk" and ?R = "reaches (bank_backend core junk) junkG junkC (boot l)"
  define err where "err = ''ERROR: Unknown command: TX_RESULT:''"
  have errt: "err \<in> traffic" unfolding err_def by (rule traffic.intros)
  define req where "req m = mock_data @ NUL # drop 31 m" for m :: "char list"
  have req: "client_write junkC m = Inr (req m)" "c_str (req m) = Inr mock_data" "length (req m) = 4096"
    if "length m = 4096" for m
    using that client_write_ok [OF assms(4), of m] length_mock by (simp_all add: req_def)
  note mt = traffic.intros(1)
  let ?n0 = "replicate 4096 NUL :: char list"
  define n1 where "n1 = req ?n0"
  have n1: "client_write junkC ?n0 = Inr n1" "c_str n1 = Inr mock_data" "length n1 = 4096"
    unfolding n1_def by (rule req, simp)+
  obtain q where q: "gateway_copy junkG n1 = Inr (mock_data @ NUL # q)"
    using copy_traffic [OF mt assms(3) n1(2)] by blast
  define n2 where "n2 = req n1"
  have n2: "client_write junkC n1 = Inr n2" "c_str n2 = Inr mock_data" "length n2 = 4096"
    unfolding n2_def by (rule req, rule n1(3))+
  have inv: "world_inv core junk (Suc 1) (auth_init, l)" using world_inv_boot [OF assms(1,2)] by simp
  obtain w r where w: "spec_1001 ?be (auth_init, l) = Inr (w, r)" "int_ok r"
    using bank_sys.transact_ok [OF inv _ _ _ _, of "''Alice''" "''Bob''" "''TRANSFER''" 100 1001]
    by (auto simp add: spec_1001_def world_fits_def int_range_defs)
  define ans where "ans = tx_answer r"
  have anst: "ans \<in> traffic" unfolding ans_def using w(2) by (rule traffic.intros)
  have d1: "spec_dispatch ?be (auth_init, l) (words mock_data) = Inr (w, ans)"
    unfolding dispatch_mock ans_def using w(1) by simp
  have d2: "spec_dispatch ?be w (words ans) = Inr (w, err)"
    unfolding ans_def err_def by (rule dispatch_result)
  obtain n3 where n3: "gateway_serve ?be (auth_init, l) (mock_data @ NUL # q) n2 = Inr (w, n3, ans)"
    "c_str n3 = Inr ans" "512 \<le> length n3"
    using serve_traffic [OF mt _ d1 anst, of n2 q] n2(3) traffic_cstr [OF anst] by auto
  obtain q' where q': "gateway_copy junkG n3 = Inr (ans @ NUL # q')"
    using copy_traffic [OF anst assms(3) n3(2)] by blast
  obtain n4 where n4: "gateway_serve ?be w (ans @ NUL # q') n3 = Inr (w, n4, err)" "c_str n4 = Inr err"
    using serve_traffic [OF anst n3(3) d2 errt, of q'] traffic_cstr [OF errt] by auto
  let ?S = "\<lambda>m p c g w h. \<lparr>net = m, pending = p, client_at = c, gw_local = g, world = w, heard = h\<rparr>"
  let ?w0 = "(auth_init, l)" and ?g = "Some (mock_data @ NUL # q)" and ?g' = "Some (ans @ NUL # q')"
  have nxt: "?R (Suc n) t" if "?R n s" "sys_step ?be junkG junkC s u" "u = t" for n s t u
    using that by (auto intro: reach_step)
  have "?R 0 (?S ?n0 False CWrite None ?w0 [])" using reach_start [of ?be junkG junkC "boot l"] by (simp add: boot_def)
  then have "?R (Suc 0) (?S n1 False CEmit None ?w0 [])"
    by (rule nxt [OF _ c_write]) (use n1 in simp_all)
  then have "?R (Suc (Suc 0)) (?S n1 True CRead None ?w0 [])" by (rule nxt [OF _ c_emit]) simp_all
  then have "?R (Suc (Suc (Suc 0))) (?S n1 False CRead ?g ?w0 [])"
    by (rule nxt [OF _ g_wake]) (use q in simp_all)
  then have "?R (Suc (Suc (Suc (Suc 0)))) (?S n1 False CWrite ?g ?w0 [mock_data])"
    by (rule nxt [OF _ c_read]) (use n1 in \<open>simp_all add: client_read_def\<close>)
  then have "?R (Suc (Suc (Suc (Suc (Suc 0))))) (?S n2 False CEmit ?g ?w0 [mock_data])"
    by (rule nxt [OF _ c_write]) (use n2 in simp_all)
  then have "?R (Suc (Suc (Suc (Suc (Suc (Suc 0)))))) (?S n2 True CRead ?g ?w0 [mock_data])"
    by (rule nxt [OF _ c_emit]) simp_all
  then have "?R (Suc (Suc (Suc (Suc (Suc (Suc (Suc 0))))))) (?S n3 True CRead None w [mock_data])"
    by (rule nxt [OF _ g_reply]) (use n3 in simp_all)
  then have "?R (Suc (Suc (Suc (Suc (Suc (Suc (Suc (Suc 0)))))))) (?S n3 False CRead ?g' w [mock_data])"
    by (rule nxt [OF _ g_wake]) (use q' in simp_all)
  then have "?R (Suc (Suc (Suc (Suc (Suc (Suc (Suc (Suc (Suc 0))))))))) (?S n4 False CRead None w [mock_data])"
    by (rule nxt [OF _ g_reply]) (use n4 in simp_all)
  then have "?R (Suc (Suc (Suc (Suc (Suc (Suc (Suc (Suc (Suc (Suc 0)))))))))) (?S n4 False CWrite None w [mock_data, err])"
    by (rule nxt [OF _ c_read]) (use n4 in \<open>simp_all add: client_read_def\<close>)
  then show ?thesis unfolding err_def by (auto simp add: numeral_eq_Suc)
qed

theorem reply_taken_for_request_witness:
  "\<exists>s. reaches (bank_backend (log_core (\<lambda>_. False) (\<lambda>_. False)) (replicate 512 NUL)) (replicate 512 NUL)
      (replicate 512 NUL) (boot \<lparr>db = Some [], console = []\<rparr>) 10 s \<and>
    heard s = [mock_data, ''ERROR: Unknown command: TX_RESULT:'']"
  by (rule reply_taken_for_request) (simp_all add: log_engine_total)

end
