(* ===== verification/SqlitePrng.thy ===== *)
theory SqlitePrng
  imports LedgerVfs
begin

text \<open>
  The random number generator of SQLite, the part of components/Ledger/src/sqlite3.c
  taken from random.c: the ChaCha20 block function and \<open>sqlite3_randomness\<close>, which
  seeds itself from the default VFS the first time it is called.  The pager calls it for
  the header of every rollback journal.
\<close>

unbundle bit_operations_syntax

section \<open>The block function\<close>

definition rotl :: "u32 \<Rightarrow> nat \<Rightarrow> u32" where
  "rotl a b = push_bit b a OR drop_bit (32 - b) a"

definition chacha_qr :: "u32 \<Rightarrow> u32 \<Rightarrow> u32 \<Rightarrow> u32 \<Rightarrow> u32 \<times> u32 \<times> u32 \<times> u32" where
  "chacha_qr a0 b0 c0 d0 =
     (let a1 = a0 + b0; d1 = rotl (d0 XOR a1) 16;
          c1 = c0 + d1; b1 = rotl (b0 XOR c1) 12;
          a2 = a1 + b1; d2 = rotl (d1 XOR a2) 8;
          c2 = c1 + d2; b2 = rotl (b1 XOR c2) 7
      in (a2, b2, c2, d2))"

definition qr_at :: "nat \<Rightarrow> nat \<Rightarrow> nat \<Rightarrow> nat \<Rightarrow> u32 list \<Rightarrow> u32 list" where
  "qr_at i j k l x =
     (let (a, b, c, d) = chacha_qr (x ! i) (x ! j) (x ! k) (x ! l)
      in x[i := a, j := b, k := c, l := d])"

definition chacha_round :: "u32 list \<Rightarrow> u32 list" where
  "chacha_round x =
     (let x = qr_at 0 4 8 12 x; x = qr_at 1 5 9 13 x; x = qr_at 2 6 10 14 x; x = qr_at 3 7 11 15 x;
          x = qr_at 0 5 10 15 x; x = qr_at 1 6 11 12 x; x = qr_at 2 7 8 13 x
      in qr_at 3 4 9 14 x)"

definition chacha_block :: "u32 list \<Rightarrow> u32 list" where
  "chacha_block x = map2 (+) ((chacha_round ^^ 10) x) x"

lemma length_qr_at [simp]: "length (qr_at i j k l x) = length x"
  by (simp add: qr_at_def split: prod.split)

lemma length_chacha_round [simp]: "length (chacha_round x) = length x"
  by (simp add: chacha_round_def Let_def)

lemma length_chacha_rounds [simp]: "length ((chacha_round ^^ n) x) = length x"
  by (induction n) simp_all

lemma length_chacha_block [simp]: "length (chacha_block x) = length x"
  by (simp add: chacha_block_def)

text \<open>The quarter-round test vector of RFC 7539, section 2.1.1.\<close>

lemma chacha_qr_rfc7539:
  "chacha_qr 0x11111111 0x01020304 0x9b8d6f43 0x01234567
   = (0xea2a92f4, 0xcb1cf8ce, 0x4581472e, 0x5881c4bb)"
  by (simp add: chacha_qr_def rotl_def push_bit_eq_mult drop_bit_eq_div)

section \<open>The generator\<close>

record prng =
  prng_s :: "u32 list"
  prng_out :: "u8 list"
  prng_n :: nat

definition prng_init :: prng where
  "prng_init = \<lparr>prng_s = replicate 16 0, prng_out = replicate 64 0, prng_n = 0\<rparr>"

text \<open>Words as the bytes of a little-endian machine, and back.\<close>

definition word_bytes :: "u32 \<Rightarrow> u8 list" where
  "word_bytes w = [ucast w, ucast (drop_bit 8 w), ucast (drop_bit 16 w), ucast (drop_bit 24 w)]"

fun words_of_bytes :: "u8 list \<Rightarrow> u32 list" where
  "words_of_bytes (a # b # c # d # bs) =
     (ucast a OR push_bit 8 (ucast b) OR push_bit 16 (ucast c) OR push_bit 24 (ucast d)) # words_of_bytes bs"
| "words_of_bytes _ = []"

definition prng_refill :: "prng \<Rightarrow> prng" where
  "prng_refill p =
     (let s = (prng_s p)[12 := prng_s p ! 12 + 1]
      in p\<lparr>prng_s := s, prng_out := concat (map word_bytes (chacha_block s)), prng_n := 64\<rparr>)"

text \<open>The loop that copies out of the block and refills it until \<open>N\<close> bytes are written.\<close>

function prng_fill :: "prng \<Rightarrow> nat \<Rightarrow> prng \<times> u8 list" where
  "prng_fill p N =
     (if N \<le> prng_n p then
        (p\<lparr>prng_n := prng_n p - N\<rparr>, take N (drop (prng_n p - N) (prng_out p)))
      else
        let (p', rest) = prng_fill (prng_refill p) (N - prng_n p)
        in (p', take (prng_n p) (prng_out p) @ rest))"
  by pat_completeness auto
termination
  by (relation "measure (\<lambda>(p, N). 2 * N + (if prng_n p = 0 then 1 else 0))")
    (auto simp add: prng_refill_def Let_def)

declare prng_fill.simps [simp del]

text \<open>Seeding: the constant words, then 44 bytes of the default VFS, if there is one.\<close>

definition chacha20_init :: "u32 list" where
  "chacha20_init = [0x61707865, 0x3320646e, 0x79622d32, 0x6b206574]"

definition prng_seed :: "prng \<Rightarrow> u8 list \<Rightarrow> prng" where
  "prng_seed p key =
     (let s = chacha20_init @ take 11 (words_of_bytes key @ drop 4 (prng_s p)) @ drop 15 (prng_s p);
          s = s[15 := s ! 12]; s = s[12 := 0]
      in p\<lparr>prng_s := s, prng_n := 0\<rparr>)"

text \<open>\<open>pBuf\<close> tells whether there is a buffer for the bytes; without one the generator forgets
  its seed.\<close>

definition sqlite3_randomness ::
  "int \<Rightarrow> u32 \<Rightarrow> vfs_registry \<Rightarrow> (nat \<Rightarrow> 'd sqlite3_vfs) \<Rightarrow> prng \<Rightarrow> int \<Rightarrow> bool \<Rightarrow>
    (prng \<times> u8 list) res" where
  "sqlite3_randomness init_rc iPrngSeed R vfs_at p N pBuf =
     (if init_rc \<noteq> 0 then Inr (p, [])
      else if N \<le> 0 \<or> \<not> pBuf then Inr (p\<lparr>prng_s := (prng_s p)[0 := 0]\<rparr>, [])
      else
        bind_res
          (if prng_s p ! 0 = 0 then
             (case sqlite3_vfs_find init_rc R None of
                None \<Rightarrow> Inl NoReturn
              | Some None \<Rightarrow> Inr (prng_seed p (replicate 44 0))
              | Some (Some v) \<Rightarrow>
                  bind_res (sqlite3OsRandomness iPrngSeed (vfs_at v) 44) (\<lambda>(rc, key).
                    Inr (prng_seed p key)))
           else Inr p)
          (\<lambda>p1. Inr (prng_fill p1 (nat N))))"

section \<open>Output length\<close>

definition prng_inv :: "prng \<Rightarrow> bool" where
  "prng_inv p \<longleftrightarrow> length (prng_s p) = 16 \<and> length (prng_out p) = 64 \<and> prng_n p \<le> 64"

lemma prng_inv_init [inv_intros]: "prng_inv prng_init"
  by (simp add: prng_inv_def prng_init_def)

lemma length_concat_word_bytes [simp]: "length (concat (map word_bytes ws)) = 4 * length ws"
  by (induction ws) (simp_all add: word_bytes_def)

lemma prng_inv_refill [inv_intros]: "prng_inv p \<Longrightarrow> prng_inv (prng_refill p)"
  by (simp add: prng_inv_def prng_refill_def Let_def)

lemma length_words_of_bytes [simp]: "length (words_of_bytes bs) = length bs div 4"
  by (induction bs rule: words_of_bytes.induct) auto

lemma prng_inv_seed [inv_intros]: "prng_inv p \<Longrightarrow> prng_inv (prng_seed p key)"
  by (simp add: prng_inv_def prng_seed_def Let_def chacha20_init_def)

lemma prng_fill_length:
  "prng_inv p \<Longrightarrow> prng_inv (fst (prng_fill p N)) \<and> length (snd (prng_fill p N)) = N"
proof (induction p N rule: prng_fill.induct)
  case (1 p N)
  show ?case
  proof (cases "N \<le> prng_n p")
    case True
    with "1.prems" show ?thesis by (subst (1 2) prng_fill.simps) (auto simp add: prng_inv_def)
  next
    case False
    have "prng_inv (fst (prng_fill (prng_refill p) (N - prng_n p))) \<and>
        length (snd (prng_fill (prng_refill p) (N - prng_n p))) = N - prng_n p"
      using "1.IH" [OF False] "1.prems" by (simp add: prng_inv_refill)
    with False "1.prems" show ?thesis
      by (subst (1 2) prng_fill.simps) (auto simp add: prng_inv_def split: prod.split)
  qed
qed

section \<open>Properties\<close>

text \<open>C15. \<open>sqlite3_randomness\<close> with the file systems that \<open>pre_init\<close> leaves registered: as
  long as the test seed is zero, the first request for random bytes calls the null
  \<open>xRandomness\<close> of the seL4 file system, the default one; a generator that is already
  seeded returns exactly the number of bytes asked for and stays well-formed; a call without a
  buffer reaches no file system and makes the generator forget its seed.\<close>

theorem randomness_null_vfs_method:
  assumes "reg_list R xs" "sqlite3_vfs_register 0 R v True = Some (R', SQLITE_OK)"
    and "vfs_at v = sel4_vfs grants" "prng_inv p" "0 < N"
  shows "sqlite3_randomness 0 0 R' vfs_at p N True =
      (if prng_s p ! 0 = 0 then Inl NullDeref else Inr (prng_fill p (nat N))) \<and>
    prng_inv (fst (prng_fill p (nat N))) \<and> length (snd (prng_fill p (nat N))) = nat N \<and>
    sqlite3_randomness 0 0 R' vfs_at p N False = Inr (p\<lparr>prng_s := (prng_s p)[0 := 0]\<rparr>, [])"
proof -
  have "registered_list v True xs = v # remove1 v xs"
    by (simp add: registered_list_def split: list.split)
  with sqlite3_vfs_register_list [OF assms(1), of v True] assms(2)
  have "reg_list R' (v # remove1 v xs)" by auto
  then have "sqlite3_vfs_find 0 R' None = Some (Some v)"
    using sqlite3_vfs_find_list by fastforce
  then show ?thesis
    using assms(3,5) prng_fill_length [OF assms(4), of "nat N"]
    by (simp add: sqlite3_randomness_def sqlite3OsRandomness_def sel4_vfs_def)
qed

theorem randomness_null_vfs_method_witness:
  "sqlite3_randomness 0 0 \<lparr>vfsList = Some 0, vfs_next = (\<lambda>_. None), vfs_name = (\<lambda>_. ''sel4_vfs'')\<rparr>
     (\<lambda>_. sel4_vfs (\<lambda>_. True)) prng_init 4 True = Inl NullDeref"
proof -
  let ?R = "\<lparr>vfsList = None, vfs_next = (\<lambda>_. None), vfs_name = (\<lambda>_. ''sel4_vfs'')\<rparr> :: vfs_registry"
  let ?R' = "\<lparr>vfsList = Some 0, vfs_next = (\<lambda>_. None), vfs_name = (\<lambda>_. ''sel4_vfs'')\<rparr> :: vfs_registry"
  have nx: "(\<lambda>_. None)(0 := None) = (\<lambda>_::nat. None :: nat option)" by auto
  have "reg_list ?R []" "sqlite3_vfs_register 0 ?R 0 True = Some (?R', SQLITE_OK)"
    by (simp_all add: reg_list_def sqlite3_vfs_register_def vfsUnlink_def nx)
  from randomness_null_vfs_method [OF this, of "\<lambda>_. sel4_vfs (\<lambda>_. True)" "\<lambda>_. True" prng_init 4]
  show ?thesis by (simp add: prng_inv_init) (simp add: prng_init_def)
qed

end
