(* ===== verification/SysArch.thy ===== *)
theory SysArch
  imports Prelude
begin

text \<open>
  The port layer of lwIP, components/NetworkStack/include/arch/sys_arch.h: semaphores and
  mutexes on seL4 notifications, and mailboxes of 32 messages.  A semaphore variable is the
  pointer it holds (\<open>None\<close> is null) and \<open>malloc\<close> is the argument \<open>granted\<close>.  The
  system calls a function makes are the list of events it returns.
\<close>

section \<open>Semaphores and mutexes\<close>

datatype sys_event = Signal nat | Wait nat

record sys_sem =
  signal_cap :: nat

definition seL4_CapNull :: nat where "seL4_CapNull = 0"
definition ERR_OK :: int where "ERR_OK = 0"
definition ERR_MEM :: int where "ERR_MEM = -1"
definition SYS_ARCH_TIMEOUT :: u32 where "SYS_ARCH_TIMEOUT = 0xffffffff"

definition sys_sem_new :: "bool \<Rightarrow> sys_sem option \<times> int" where
  "sys_sem_new granted =
     (if granted then (Some \<lparr>signal_cap = seL4_CapNull\<rparr>, ERR_OK) else (None, ERR_MEM))"

text \<open>The argument of the next operations is what \<open>*sem\<close> holds; the test of the code is on
  the address of the variable, which is never null in its callers.\<close>

definition sys_sem_signal :: "sys_sem option \<Rightarrow> sys_event list res" where
  "sys_sem_signal s =
     (case s of
        None \<Rightarrow> Inl NullDeref
      | Some m \<Rightarrow> Inr (if signal_cap m \<noteq> seL4_CapNull then [Signal (signal_cap m)] else []))"

definition sys_arch_sem_wait :: "sys_sem option \<Rightarrow> u32 \<Rightarrow> (sys_event list \<times> u32) res" where
  "sys_arch_sem_wait s timeout =
     (case s of
        None \<Rightarrow> Inl NullDeref
      | Some m \<Rightarrow>
          if signal_cap m = seL4_CapNull then Inr ([], SYS_ARCH_TIMEOUT)
          else Inr ([Wait (signal_cap m)], 0))"

definition sys_sem_free :: "sys_sem option \<Rightarrow> sys_sem option" where
  "sys_sem_free s = None"

definition sys_mutex_new :: "bool \<Rightarrow> sys_sem option \<times> int" where
  "sys_mutex_new granted = sys_sem_new granted"

definition sys_mutex_lock :: "sys_sem option \<Rightarrow> sys_event list res" where
  "sys_mutex_lock m = bind_res (sys_arch_sem_wait m 0) (\<lambda>(ev, _). Inr ev)"

definition sys_mutex_unlock :: "sys_sem option \<Rightarrow> sys_event list res" where
  "sys_mutex_unlock m = sys_sem_signal m"

definition sys_mutex_free :: "sys_sem option \<Rightarrow> sys_sem option" where
  "sys_mutex_free m = sys_sem_free m"

section \<open>Mailboxes\<close>

definition SYS_MBOX_SIZE :: nat where "SYS_MBOX_SIZE = 32"

record 'm sys_mbox =
  msgs :: "'m list"
  mb_head :: nat
  mb_tail :: nat
  mb_count :: int
  sem_read :: "sys_sem option"
  mb_lock :: "sys_sem option"

text \<open>\<open>junk\<close> is what the allocated memory holds; the three flags are the three allocations.
  The results of the two inner allocations are not looked at.\<close>

definition sys_mbox_new :: "'m list \<Rightarrow> bool \<Rightarrow> bool \<Rightarrow> bool \<Rightarrow> int \<Rightarrow> 'm sys_mbox option \<times> int" where
  "sys_mbox_new junk granted g_read g_lock sz =
     (if \<not> granted then (None, ERR_MEM)
      else (Some \<lparr>msgs = junk, mb_head = 0, mb_tail = 0, mb_count = 0,
                  sem_read = fst (sys_sem_new g_read), mb_lock = fst (sys_mutex_new g_lock)\<rparr>, ERR_OK))"

definition sys_mbox_post :: "'m sys_mbox option \<Rightarrow> 'm \<Rightarrow> ('m sys_mbox option \<times> sys_event list) res" where
  "sys_mbox_post mbox msg =
     (case mbox of
        None \<Rightarrow> Inl NullDeref
      | Some b \<Rightarrow>
          bind_res (sys_mutex_lock (mb_lock b)) (\<lambda>e1.
          bind_res (upd_res (msgs b) (mb_head b) msg) (\<lambda>ms.
          bind_res (add_int (mb_count b) 1) (\<lambda>n.
          bind_res (sys_mutex_unlock (mb_lock b)) (\<lambda>e2.
          bind_res (sys_sem_signal (sem_read b)) (\<lambda>e3.
          Inr (Some (b\<lparr>msgs := ms, mb_head := (mb_head b + 1) mod SYS_MBOX_SIZE, mb_count := n\<rparr>),
               e1 @ e2 @ e3)))))))"

definition sys_arch_mbox_fetch ::
  "'m sys_mbox option \<Rightarrow> u32 \<Rightarrow> ('m sys_mbox option \<times> 'm \<times> sys_event list \<times> u32) res" where
  "sys_arch_mbox_fetch mbox timeout =
     (case mbox of
        None \<Rightarrow> Inl NullDeref
      | Some b \<Rightarrow>
          bind_res (sys_arch_sem_wait (sem_read b) timeout) (\<lambda>(e1, _).
          bind_res (sys_mutex_lock (mb_lock b)) (\<lambda>e2.
          bind_res (nth_res (msgs b) (mb_tail b)) (\<lambda>msg.
          bind_res (sub_int (mb_count b) 1) (\<lambda>n.
          bind_res (sys_mutex_unlock (mb_lock b)) (\<lambda>e3.
          Inr (Some (b\<lparr>mb_tail := (mb_tail b + 1) mod SYS_MBOX_SIZE, mb_count := n\<rparr>), msg,
               e1 @ e2 @ e3, 0)))))))"

text \<open>The clock: microseconds of the timer component, as a 32-bit count of milliseconds.\<close>

definition sys_now :: "u64 \<Rightarrow> u32" where
  "sys_now timer_get_time = ucast (timer_get_time div 1000)"

section \<open>The contract of a bounded queue\<close>

datatype 'm mbox_op = Post 'm | Fetch

text \<open>A run of posts and fetches, with the messages the fetches return.\<close>

fun q_run ::
  "('q \<Rightarrow> 'm \<Rightarrow> 'q res) \<Rightarrow> ('q \<Rightarrow> ('q \<times> 'm) res) \<Rightarrow> 'q \<Rightarrow> 'm mbox_op list \<Rightarrow> ('q \<times> 'm list) res" where
  "q_run post fetch q [] = Inr (q, [])"
| "q_run post fetch q (Post m # xs) = bind_res (post q m) (\<lambda>q'. q_run post fetch q' xs)"
| "q_run post fetch q (Fetch # xs) =
     bind_res (fetch q) (\<lambda>(q', m).
     bind_res (q_run post fetch q' xs) (\<lambda>(q'', ms). Inr (q'', m # ms)))"

locale bounded_queue =
  fixes inv :: "'q \<Rightarrow> bool" and held :: "'q \<Rightarrow> 'm list" and capacity :: nat
    and post :: "'q \<Rightarrow> 'm \<Rightarrow> 'q res" and fetch :: "'q \<Rightarrow> ('q \<times> 'm) res"
  assumes post_room: "inv q \<Longrightarrow> length (held q) < capacity \<Longrightarrow>
      \<exists>q'. post q m = Inr q' \<and> inv q' \<and> held q' = held q @ [m]"
    and fetch_some: "inv q \<Longrightarrow> held q \<noteq> [] \<Longrightarrow>
      \<exists>q'. fetch q = Inr (q', hd (held q)) \<and> inv q' \<and> held q' = tl (held q)"

text \<open>The abstract run on a list, \<open>None\<close> when it is full or empty at the wrong moment.\<close>

fun fifo :: "nat \<Rightarrow> 'm list \<Rightarrow> 'm mbox_op list \<Rightarrow> ('m list \<times> 'm list) option" where
  "fifo cap q [] = Some (q, [])"
| "fifo cap q (Post m # xs) = (if length q < cap then fifo cap (q @ [m]) xs else None)"
| "fifo cap q (Fetch # xs) =
     (case q of [] \<Rightarrow> None | m # q' \<Rightarrow> map_option (\<lambda>(r, ms). (r, m # ms)) (fifo cap q' xs))"

context bounded_queue begin

lemma run_fifo:
  "inv q \<Longrightarrow> fifo capacity (held q) xs = Some (r, ms) \<Longrightarrow>
   \<exists>q'. q_run post fetch q xs = Inr (q', ms) \<and> inv q' \<and> held q' = r"
proof (induction xs arbitrary: q ms)
  case Nil
  then show ?case by simp
next
  case (Cons x xs)
  show ?case
  proof (cases x)
    case (Post m)
    with Cons.prems have len: "length (held q) < capacity" by (auto split: if_splits)
    then obtain q1 where q1: "post q m = Inr q1" "inv q1" "held q1 = held q @ [m]"
      using post_room [OF Cons.prems(1)] by blast
    then show ?thesis using Cons.IH [OF q1(2)] Cons.prems(2) Post len by simp
  next
    case Fetch
    with Cons.prems(2) obtain m q0 where h: "held q = m # q0" by (cases "held q") auto
    with Cons.prems(2) Fetch obtain ms' where ms: "ms = m # ms'" "fifo capacity q0 xs = Some (r, ms')"
      by auto
    obtain q1 where q1: "fetch q = Inr (q1, m)" "inv q1" "held q1 = q0"
      using fetch_some [OF Cons.prems(1)] h by auto
    then show ?thesis using Cons.IH [OF q1(2)] ms Fetch by auto
  qed
qed

end

section \<open>Mailboxes are bounded queues\<close>

definition null_sem :: "sys_sem option" where
  "null_sem = Some \<lparr>signal_cap = seL4_CapNull\<rparr>"

lemma null_sem_ops [simp]:
  "sys_sem_signal null_sem = Inr []" "sys_arch_sem_wait null_sem t = Inr ([], SYS_ARCH_TIMEOUT)"
  "sys_mutex_lock null_sem = Inr []" "sys_mutex_unlock null_sem = Inr []"
  by (simp_all add: null_sem_def sys_sem_signal_def sys_arch_sem_wait_def sys_mutex_lock_def
      sys_mutex_unlock_def)

definition mbox_inv :: "'m sys_mbox option \<Rightarrow> bool" where
  "mbox_inv mbox \<longleftrightarrow>
     (\<exists>b. mbox = Some b \<and> length (msgs b) = 32 \<and> mb_tail b < 32 \<and>
        0 \<le> mb_count b \<and> mb_count b \<le> 32 \<and>
        mb_head b = (mb_tail b + nat (mb_count b)) mod 32 \<and>
        sem_read b = null_sem \<and> mb_lock b = null_sem)"

definition mbox_held :: "'m sys_mbox option \<Rightarrow> 'm list" where
  "mbox_held mbox =
     (case mbox of
        None \<Rightarrow> []
      | Some b \<Rightarrow> map (\<lambda>i. msgs b ! ((mb_tail b + i) mod 32)) [0..<nat (mb_count b)])"

definition mbox_put :: "'m sys_mbox option \<Rightarrow> 'm \<Rightarrow> 'm sys_mbox option res" where
  "mbox_put mbox m = bind_res (sys_mbox_post mbox m) (\<lambda>(mbox', _). Inr mbox')"

definition mbox_get :: "'m sys_mbox option \<Rightarrow> ('m sys_mbox option \<times> 'm) res" where
  "mbox_get mbox = bind_res (sys_arch_mbox_fetch mbox 0) (\<lambda>(mbox', m, _, _). Inr (mbox', m))"

lemma post_steps:
  assumes "mbox_inv mbox" "length (mbox_held mbox) < 32"
  shows "\<exists>mbox'. mbox_put mbox m = Inr mbox' \<and> mbox_inv mbox' \<and> mbox_held mbox' = mbox_held mbox @ [m]"
proof -
  obtain b where b: "mbox = Some b" "length (msgs b) = 32" "mb_tail b < 32" "0 \<le> mb_count b"
    "mb_head b = (mb_tail b + nat (mb_count b)) mod 32" "sem_read b = null_sem" "mb_lock b = null_sem"
    using assms(1) by (auto simp add: mbox_inv_def)
  have n: "nat (mb_count b) < 32" using assms(2) b(1) by (simp add: mbox_held_def)
  then have ok: "int_ok (mb_count b + 1)" using b(4) by (simp add: int_range_defs)
  let ?b = "b\<lparr>msgs := (msgs b)[mb_head b := m], mb_head := (mb_head b + 1) mod 32, mb_count := mb_count b + 1\<rparr>"
  have h: "mb_head b < 32" using b(5) by simp
  have put: "mbox_put mbox m = Inr (Some ?b)"
    using b h ok by (simp add: mbox_put_def sys_mbox_post_def add_int_def SYS_MBOX_SIZE_def)
  have c: "nat (mb_count b + 1) = Suc (nat (mb_count b))" using b(4) by simp
  have "mbox_inv (Some ?b)"
    using b n c by (simp add: mbox_inv_def mod_Suc_eq)
  moreover have "mbox_held (Some ?b) = mbox_held mbox @ [m]"
  proof -
    have "(msgs b)[mb_head b := m] ! ((mb_tail b + i) mod 32) = msgs b ! ((mb_tail b + i) mod 32)"
      if "i < nat (mb_count b)" for i
    proof -
      have "mb_head b \<noteq> (mb_tail b + i) mod 32"
        using ring_slots_differ [of i "nat (mb_count b)" 32 "mb_tail b"] diff_le_self [of "nat (mb_count b)" i] that n b(5) by simp
      then show ?thesis by (rule nth_list_update_neq)
    qed
    moreover have "(msgs b)[mb_head b := m] ! ((mb_tail b + nat (mb_count b)) mod 32) = m"
      using b h by (metis nth_list_update_eq)
    ultimately show ?thesis using b(1) c by (simp add: mbox_held_def)
  qed
  ultimately show ?thesis using put by blast
qed

lemma fetch_steps:
  assumes "mbox_inv mbox" "mbox_held mbox \<noteq> []"
  shows "\<exists>mbox'. mbox_get mbox = Inr (mbox', hd (mbox_held mbox)) \<and> mbox_inv mbox' \<and>
    mbox_held mbox' = tl (mbox_held mbox)"
proof -
  obtain b where b: "mbox = Some b" "length (msgs b) = 32" "mb_tail b < 32" "0 \<le> mb_count b" "mb_count b \<le> 32"
    "mb_head b = (mb_tail b + nat (mb_count b)) mod 32" "sem_read b = null_sem" "mb_lock b = null_sem"
    using assms(1) by (auto simp add: mbox_inv_def)
  have "nat (mb_count b) \<noteq> 0" using assms(2) b(1) by (simp add: mbox_held_def)
  then obtain k where k: "nat (mb_count b) = Suc k" by (cases "nat (mb_count b)") auto
  then have c: "nat (mb_count b - 1) = k" "1 \<le> mb_count b" by simp_all
  have ok: "int_ok (mb_count b - 1)" using b(5) c(2) by (simp add: int_range_defs)
  let ?b = "b\<lparr>mb_tail := (mb_tail b + 1) mod 32, mb_count := mb_count b - 1\<rparr>"
  have held: "mbox_held mbox = msgs b ! mb_tail b # map (\<lambda>i. msgs b ! ((mb_tail b + Suc i) mod 32)) [0..<k]"
    using b(1,3) k by (simp add: mbox_held_def map_upt_Suc del: upt_Suc)
  have get: "mbox_get mbox = Inr (Some ?b, msgs b ! mb_tail b)"
    using b ok by (simp add: mbox_get_def sys_arch_mbox_fetch_def sub_int_def SYS_MBOX_SIZE_def)
  have "mbox_inv (Some ?b)"
    using b k c by (simp add: mbox_inv_def mod_Suc_eq mod_simps)
  moreover have "mbox_held (Some ?b) = map (\<lambda>i. msgs b ! ((mb_tail b + Suc i) mod 32)) [0..<k]"
    using c by (simp add: mbox_held_def mod_simps)
  ultimately show ?thesis using get held by auto
qed

interpretation mailbox: bounded_queue mbox_inv mbox_held 32 mbox_put mbox_get
  using post_steps fetch_steps by unfold_locales auto

lemma mbox_inv_new:
  assumes "length junk = 32"
  shows "mbox_inv (fst (sys_mbox_new junk True True True sz))"
    "mbox_held (fst (sys_mbox_new junk True True True sz)) = []"
  using assms
  by (simp_all add: sys_mbox_new_def mbox_inv_def mbox_held_def null_sem_def sys_sem_new_def sys_mutex_new_def)

section \<open>Properties\<close>

text \<open>C18. Mailboxes deliver in order: for every sequence of posts and fetches that never has more
  than 32 messages waiting and never fetches from an empty mailbox, a new mailbox gives the
  messages in the order they were posted, without a fault.\<close>

theorem mailbox_fifo:
  assumes "length junk = 32" "fifo 32 [] xs = Some (r, ms)"
  shows "\<exists>mbox. q_run mbox_put mbox_get (fst (sys_mbox_new junk True True True sz)) xs = Inr (mbox, ms) \<and>
    mbox_held mbox = r"
  using mailbox.run_fifo [OF mbox_inv_new(1) [OF assms(1), of sz], of xs r ms]
    mbox_inv_new(2) [OF assms(1), of sz] assms(2) by auto

theorem mailbox_fifo_witness:
  "\<exists>mbox. q_run mbox_put mbox_get (fst (sys_mbox_new (replicate 32 0) True True True 8))
      [Post 1, Post 2, Fetch, Post 3, Fetch] = Inr (mbox, [1::int, 2]) \<and> mbox_held mbox = [3]"
  by (rule mailbox_fifo) simp_all

text \<open>Neither bound is checked, and the semaphore that should stop the caller never does: a
  post to a full mailbox succeeds and overwrites the oldest message, a fetch from an empty one
  succeeds and returns what the slot held, and both leave a count outside 0 to 32.\<close>

theorem mailbox_unchecked_bounds:
  assumes "mbox_inv (Some b)"
  shows "(mb_count b = 32 \<longrightarrow> (\<exists>b'. sys_mbox_post (Some b) m = Inr (Some b', []) \<and>
      msgs b' = (msgs b)[mb_tail b := m] \<and> mb_count b' = 33)) \<and>
    (mb_count b = 0 \<longrightarrow> (\<exists>b'. sys_arch_mbox_fetch (Some b) t = Inr (Some b', msgs b ! mb_tail b, [], 0) \<and>
      mb_count b' = -1))"
proof -
  have b: "length (msgs b) = 32" "mb_tail b < 32" "mb_head b = (mb_tail b + nat (mb_count b)) mod 32"
    "sem_read b = null_sem" "mb_lock b = null_sem"
    using assms by (auto simp add: mbox_inv_def)
  have "mb_count b = 32 \<Longrightarrow> mb_head b = mb_tail b" using b(2,3) by simp
  with b show ?thesis
    by (auto simp add: sys_mbox_post_def sys_arch_mbox_fetch_def add_int_def sub_int_def int_range_defs
        to_int_def)
qed

theorem mailbox_unchecked_bounds_witness:
  "\<exists>b'. sys_arch_mbox_fetch (fst (sys_mbox_new (replicate 32 (7::int)) True True True 8)) 0 =
     Inr (Some b', 7, [], 0) \<and> mb_count b' = -1"
proof -
  let ?b = "\<lparr>msgs = replicate 32 (7::int), mb_head = 0, mb_tail = 0, mb_count = 0,
    sem_read = null_sem, mb_lock = null_sem\<rparr>"
  have new: "fst (sys_mbox_new (replicate 32 (7::int)) True True True 8) = Some ?b"
    by (simp add: sys_mbox_new_def sys_sem_new_def sys_mutex_new_def null_sem_def)
  have "mbox_inv (Some ?b)" by (simp add: mbox_inv_def)
  from mailbox_unchecked_bounds [OF this] show ?thesis unfolding new by simp
qed

text \<open>The locks exclude nobody and no semaphore blocks: the capability of a semaphore that
  \<open>sys_sem_new\<close> made is null, so waiting returns the timeout at once and locking, unlocking
  and signalling make no system call; and when its allocation failed, which
  \<open>sys_mbox_new\<close> does not notice, using the mailbox goes through a null pointer.\<close>

lemma locks_are_no_ops:
  "sys_arch_sem_wait (fst (sys_sem_new True)) timeout = Inr ([], SYS_ARCH_TIMEOUT) \<and>
   sys_mutex_lock (fst (sys_mutex_new True)) = Inr [] \<and>
   sys_mutex_unlock (fst (sys_mutex_new True)) = Inr [] \<and>
   sys_sem_signal (fst (sys_sem_new True)) = Inr [] \<and>
   snd (sys_mbox_new junk True g False sz) = ERR_OK \<and>
   sys_mbox_post (fst (sys_mbox_new junk True g False sz)) msg = Inl NullDeref"
  by (simp add: sys_sem_new_def sys_mutex_new_def sys_arch_sem_wait_def sys_mutex_lock_def
      sys_mutex_unlock_def sys_sem_signal_def sys_mbox_new_def sys_mbox_post_def)

end
