(* ===== verification/VirtioNet.thy ===== *)
theory VirtioNet
  imports Prelude
begin

text \<open>
  The network stack, components/NetworkStack/src/network_stack.c with
  include/virtio_mmio.h: the registers of the virtio device, its initialisation, the transmit
  path, the interrupt handler and the RPC stubs.  The rings are shared with the device: what
  the device writes (the used ring, the receive buffers, the registers) is part of the state
  and is not constrained unless a theorem says so.  lwIP and the virtio library are not in
  the repository; the functions of theirs the code calls are the record \<open>net_env\<close>.
\<close>

unbundle bit_operations_syntax

section \<open>Registers\<close>

text \<open>The fields of \<open>virtio_mmio_regs_t\<close> with their sizes in 32-bit words.\<close>

definition virtio_mmio_regs :: "(string \<times> nat) list" where
  "virtio_mmio_regs =
     [(''MagicValue'', 1), (''Version'', 1), (''DeviceID'', 1), (''VendorID'', 1),
      (''DeviceFeatures'', 1), (''DeviceFeaturesSel'', 1), (''_reserved1'', 2),
      (''DriverFeatures'', 1), (''DriverFeaturesSel'', 1), (''_reserved2'', 2),
      (''QueueSel'', 1), (''QueueNumMax'', 1), (''QueueNum'', 1), (''_reserved3'', 3),
      (''QueueReady'', 1), (''_reserved4'', 2), (''QueueNotify'', 1), (''_reserved5'', 3),
      (''InterruptStatus'', 1), (''InterruptACK'', 1), (''_reserved6'', 2), (''Status'', 1),
      (''_reserved7'', 3), (''QueueDescLow'', 1), (''QueueDescHigh'', 1), (''_reserved8'', 2),
      (''QueueAvailLow'', 1), (''QueueAvailHigh'', 1), (''_reserved9'', 2),
      (''QueueUsedLow'', 1), (''QueueUsedHigh'', 1)]"

fun field_offset :: "nat \<Rightarrow> (string \<times> nat) list \<Rightarrow> string \<Rightarrow> nat option" where
  "field_offset off [] name = None"
| "field_offset off ((f, n) # fs) name =
     (if f = name then Some off else field_offset (off + 4 * n) fs name)"

definition VIRTIO_MAGIC_VALUE :: u32 where "VIRTIO_MAGIC_VALUE = 0x74726976"

datatype vreg =
    MagicValue | Version | DeviceID | VendorID | DeviceFeatures | DeviceFeaturesSel
  | DriverFeatures | DriverFeaturesSel | QueueSel | QueueNumMax | QueueNum | QueueReady
  | QueueNotify | InterruptStatus | InterruptACK | Status | QueueDescLow | QueueDescHigh
  | QueueAvailLow | QueueAvailHigh | QueueUsedLow | QueueUsedHigh

section \<open>State\<close>

definition RING_SIZE :: nat where "RING_SIZE = 256"
definition BUF_SIZE :: nat where "BUF_SIZE = 1536"

record vring_desc =
  d_addr :: u64
  d_len :: u32
  d_flags :: u16

record vring =
  desc_at :: u64
  avail_at :: u64
  used_at :: u64
  desc :: "vring_desc list"
  avail_idx :: u16
  avail_ring :: "u16 list"
  used_idx :: u16
  used_ring :: "(u32 \<times> u32) list"

text \<open>An element of the used ring is its \<open>id\<close> and its \<open>len\<close>.  A ring is \<open>None\<close> while its
  pointers are still null.  \<open>reg_log\<close> is the sequence of register writes, \<open>delivered\<close> the
  frames handed to \<open>netif.input\<close>, \<open>irq_acks\<close> the calls of \<open>hardware_irq_acknowledge\<close>.\<close>

record net_state =
  regs :: "(vreg \<Rightarrow> u32) option"
  reg_log :: "(vreg \<times> u32) list"
  rx_buffer :: "u8 list list"
  tx_buffer :: "u8 list list"
  last_rx_idx :: u16
  tx_idx :: u16
  rx_ring :: "vring option"
  tx_ring :: "vring option"
  data_available :: bool
  delivered :: "u8 list list"
  irq_acks :: nat

definition net_init :: net_state where
  "net_init =
     \<lparr>regs = None, reg_log = [], rx_buffer = replicate RING_SIZE (replicate BUF_SIZE 0),
      tx_buffer = replicate RING_SIZE (replicate BUF_SIZE 0), last_rx_idx = 0, tx_idx = 0,
      rx_ring = None, tx_ring = None, data_available = False, delivered = [], irq_acks = 0\<rparr>"

text \<open>What the code takes from outside: \<open>vring_init\<close> gives the addresses of the three parts of
  a ring, \<open>pbuf_alloc\<close> gives the size of the payload of the first buffer of the chain it
  returns, if any (from the pool, lwIP may answer with several buffers); the rest are the addresses of the static arrays and a flag of the virtio header.\<close>

record net_env =
  vring_init :: "nat \<Rightarrow> u64 \<Rightarrow> u64 \<Rightarrow> u64 \<times> u64 \<times> u64"
  pbuf_alloc :: "u32 \<Rightarrow> nat option"
  VRING_DESC_F_WRITE :: u16
  rx_buffer_at :: u64
  tx_buffer_at :: u64
  rx_ring_mem_at :: u64
  tx_ring_mem_at :: u64

definition write_reg :: "vreg \<Rightarrow> u32 \<Rightarrow> net_state \<Rightarrow> net_state res" where
  "write_reg r v st =
     (case regs st of
        None \<Rightarrow> Inl NullDeref
      | Some f \<Rightarrow> Inr (st\<lparr>regs := Some (f(r := v)), reg_log := reg_log st @ [(r, v)]\<rparr>))"

definition read_reg :: "vreg \<Rightarrow> net_state \<Rightarrow> u32 res" where
  "read_reg r st = (case regs st of None \<Rightarrow> Inl NullDeref | Some f \<Rightarrow> Inr (f r))"

definition or_reg :: "vreg \<Rightarrow> u32 \<Rightarrow> net_state \<Rightarrow> net_state res" where
  "or_reg r v st = bind_res (read_reg r st) (\<lambda>x. write_reg r (x OR v) st)"

fun write_regs :: "(vreg \<times> u32) list \<Rightarrow> net_state \<Rightarrow> net_state res" where
  "write_regs [] st = Inr st"
| "write_regs ((r, v) # ws) st = bind_res (write_reg r v st) (write_regs ws)"

section \<open>Transmit\<close>

definition row_write :: "u8 list list \<Rightarrow> nat \<Rightarrow> u8 list \<Rightarrow> u8 list list res" where
  "row_write rows i b =
     bind_res (nth_res rows i) (\<lambda>row.
       if length b \<le> length row then Inr (rows[i := b @ drop (length b) row]) else Inl BufferOverflow)"

text \<open>The body the two output functions share; \<open>payload\<close> is the data of the first buffer of the
  chain, \<open>p->len\<close> bytes.\<close>

definition tx_enqueue :: "net_env \<Rightarrow> net_state \<Rightarrow> u8 list \<Rightarrow> (net_state \<times> int) res" where
  "tx_enqueue env st payload =
     (let desc_idx = unat (tx_idx st) mod RING_SIZE
      in bind_res (row_write (tx_buffer st) desc_idx payload) (\<lambda>tx'.
         case tx_ring st of
           None \<Rightarrow> Inl NullDeref
         | Some ring \<Rightarrow>
             bind_res (upd_res (desc ring) desc_idx
                 \<lparr>d_addr = tx_buffer_at env + of_nat (BUF_SIZE * desc_idx),
                  d_len = of_nat (length payload), d_flags = 0\<rparr>) (\<lambda>ds.
             bind_res (upd_res (avail_ring ring) (unat (avail_idx ring) mod RING_SIZE) (of_nat desc_idx)) (\<lambda>av.
             bind_res (write_reg QueueNotify 1
                 (st\<lparr>tx_buffer := tx',
                     tx_ring := Some (ring\<lparr>desc := ds, avail_ring := av, avail_idx := avail_idx ring + 1\<rparr>)\<rparr>))
               (\<lambda>st'. Inr (st'\<lparr>tx_idx := tx_idx st' + 1\<rparr>, 0))))))"

definition netif_output :: "net_env \<Rightarrow> net_state \<Rightarrow> u8 list \<Rightarrow> u32 \<Rightarrow> (net_state \<times> int) res" where
  "netif_output env st payload ipaddr = tx_enqueue env st payload"

definition low_level_output :: "net_env \<Rightarrow> net_state \<Rightarrow> u8 list \<Rightarrow> (net_state \<times> int) res" where
  "low_level_output env st payload = tx_enqueue env st payload"

section \<open>Initialisation\<close>

definition fresh_ring :: "u64 \<times> u64 \<times> u64 \<Rightarrow> vring" where
  "fresh_ring a = (case a of (d, av, u) \<Rightarrow>
     \<lparr>desc_at = d, avail_at = av, used_at = u,
      desc = replicate RING_SIZE \<lparr>d_addr = 0, d_len = 0, d_flags = 0\<rparr>, avail_idx = 0,
      avail_ring = replicate RING_SIZE 0, used_idx = 0, used_ring = replicate RING_SIZE (0, 0)\<rparr>)"

definition queue_setup :: "u32 \<Rightarrow> vring \<Rightarrow> (vreg \<times> u32) list" where
  "queue_setup q ring =
     [(QueueSel, q), (QueueNum, of_nat RING_SIZE), (QueueDescLow, ucast (desc_at ring)),
      (QueueDescHigh, 0), (QueueAvailLow, ucast (avail_at ring)), (QueueAvailHigh, 0),
      (QueueUsedLow, ucast (used_at ring)), (QueueUsedHigh, 0), (QueueReady, 1)]"

definition fill_rx :: "net_env \<Rightarrow> vring \<Rightarrow> vring" where
  "fill_rx env ring =
     ring\<lparr>desc := map (\<lambda>i. \<lparr>d_addr = rx_buffer_at env + of_nat (BUF_SIZE * i), d_len = of_nat BUF_SIZE,
                            d_flags = VRING_DESC_F_WRITE env\<rparr>) [0..<RING_SIZE],
          avail_ring := map of_nat [0..<RING_SIZE], avail_idx := of_nat RING_SIZE\<rparr>"

text \<open>\<open>mmio\<close> is what the dataport \<open>virtio_mmio\<close> maps, if anything.\<close>

definition virtio_init_hardware ::
  "net_env \<Rightarrow> (vreg \<Rightarrow> u32) option \<Rightarrow> net_state \<Rightarrow> net_state res" where
  "virtio_init_hardware env mmio st =
     (case mmio of
        None \<Rightarrow> Inr st
      | Some f \<Rightarrow>
          let st = st\<lparr>regs := Some f\<rparr>
          in if f MagicValue \<noteq> 0x74726976 then Inr st
             else if f MagicValue \<noteq> VIRTIO_MAGIC_VALUE then Inr st
             else
               bind_res (write_reg Status 0 st) (\<lambda>st.
               bind_res (or_reg Status 0x1 st) (\<lambda>st.
               bind_res (or_reg Status 0x2 st) (\<lambda>st.
               bind_res (write_reg DeviceFeaturesSel 0 st) (\<lambda>st.
               bind_res (read_reg DeviceFeatures st) (\<lambda>feat.
               bind_res (write_reg DriverFeatures feat st) (\<lambda>st.
               bind_res (or_reg Status 0x8 st) (\<lambda>st.
               let rx = fresh_ring (vring_init env RING_SIZE (rx_ring_mem_at env) 4096);
                   tx = fresh_ring (vring_init env RING_SIZE (tx_ring_mem_at env) 4096)
               in bind_res (write_regs (queue_setup 0 rx @ queue_setup 1 tx) st) (\<lambda>st.
                  let st = st\<lparr>rx_ring := Some (fill_rx env rx), tx_ring := Some tx\<rparr>
                  in bind_res (write_reg QueueNotify 0 st) (or_reg Status 0x4))))))))))"

section \<open>Receive\<close>

text \<open>One used descriptor: the frame is copied out of the receive buffer and given to lwIP, the
  buffer goes back to the device.  What \<open>netif.input\<close> returns only decides who frees the
  copy.\<close>

definition rx_one :: "net_env \<Rightarrow> vring \<Rightarrow> net_state \<Rightarrow> net_state res" where
  "rx_one env ring st =
     bind_res (nth_res (used_ring ring) (unat (last_rx_idx st) mod RING_SIZE)) (\<lambda>(bid, len).
     bind_res
       (case pbuf_alloc env len of
          None \<Rightarrow> Inr st
        | Some cap \<Rightarrow>
            bind_res (nth_res (rx_buffer st) (unat bid)) (\<lambda>row.
              if length row < unat len then Inl OutOfBounds
              else if cap < unat len then Inl BufferOverflow
              else Inr (st\<lparr>delivered := delivered st @ [take (unat len) row], data_available := True\<rparr>)))
       (\<lambda>st1.
     bind_res (upd_res (avail_ring ring) (unat (avail_idx ring) mod RING_SIZE) (ucast bid)) (\<lambda>av.
     Inr (st1\<lparr>rx_ring := Some (ring\<lparr>avail_ring := av, avail_idx := avail_idx ring + 1\<rparr>),
              last_rx_idx := last_rx_idx st1 + 1\<rparr>))))"

text \<open>The loop, with the number of descriptors processed.  The index of the device is read from
  the ring; \<open>n\<close> bounds the distance to it, which is below 65536.\<close>

fun rx_loop :: "nat \<Rightarrow> net_env \<Rightarrow> net_state \<Rightarrow> u16 \<Rightarrow> (net_state \<times> u16) res" where
  "rx_loop 0 env st k = Inr (st, k)"
| "rx_loop (Suc n) env st k =
     (case rx_ring st of
        None \<Rightarrow> Inl NullDeref
      | Some ring \<Rightarrow>
          if last_rx_idx st = used_idx ring then Inr (st, k)
          else bind_res (rx_one env ring st) (\<lambda>st'. rx_loop n env st' (k + 1)))"

definition hardware_irq_handle :: "net_env \<Rightarrow> net_state \<Rightarrow> net_state res" where
  "hardware_irq_handle env st =
     (case regs st of
        None \<Rightarrow> Inr (st\<lparr>irq_acks := irq_acks st + 1\<rparr>)
      | Some f \<Rightarrow>
          let isr = f InterruptStatus
          in if isr AND 0x1 \<noteq> 0 then
               bind_res (rx_loop 65536 env st 0) (\<lambda>(st1, num_processed).
               bind_res (if num_processed > 0 then write_reg QueueNotify 0 st1 else Inr st1) (\<lambda>st2.
               bind_res (write_reg InterruptACK isr st2) (\<lambda>st3.
               Inr (st3\<lparr>irq_acks := irq_acks st3 + 1\<rparr>))))
             else Inr (st\<lparr>irq_acks := irq_acks st + 1\<rparr>))"

section \<open>The other entry points\<close>

text \<open>\<open>sys_now\<close> with its static counter, one look of \<open>net_wait_for_data\<close> at the flag (the
  thread yields and looks again on \<open>None\<close>), and the stub \<open>net_send\<close>.\<close>

definition sys_now_mock :: "u32 \<Rightarrow> u32 \<times> u32" where
  "sys_now_mock mock_ticks = (mock_ticks + 1, mock_ticks)"

definition net_wait_for_data :: "net_state \<Rightarrow> net_state option" where
  "net_wait_for_data st =
     (if \<not> data_available st then None else Some (st\<lparr>data_available := False\<rparr>))"

definition net_send :: "net_state \<Rightarrow> string \<Rightarrow> net_state \<times> int" where
  "net_send st buffer = (st, 0)"

text \<open>What \<open>m_netif_init\<close> sets; the values of the flags are those of lwIP.\<close>

datatype out_fn = etharp_output | low_level_output_fn

record netif_cfg =
  if_name :: string
  if_output :: out_fn
  if_linkoutput :: out_fn
  if_mtu :: nat
  if_flags :: u8
  if_hwaddr :: "u8 list"

definition m_netif_init :: "u8 \<Rightarrow> u8 \<Rightarrow> u8 \<Rightarrow> netif_cfg \<Rightarrow> netif_cfg \<times> int" where
  "m_netif_init f_broadcast f_etharp f_link_up nif =
     (nif\<lparr>if_name := ''en'', if_output := etharp_output, if_linkoutput := low_level_output_fn,
          if_mtu := 1500, if_flags := f_broadcast OR f_etharp OR f_link_up,
          if_hwaddr := [2, 0, 0, 0, 0, 1]\<rparr>, 0)"

section \<open>The transmit ring\<close>

definition rows_ok :: "u8 list list \<Rightarrow> bool" where
  "rows_ok rows \<longleftrightarrow> length rows = 256 \<and> (\<forall>row\<in>set rows. length row = 1536)"

lemma rows_ok_update:
  "rows_ok rows \<Longrightarrow> length row = 1536 \<Longrightarrow> rows_ok (rows[i := row])"
  unfolding rows_ok_def using all_set_update [of rows "\<lambda>row. length row = 1536" row i] by simp

lemma rows_ok_nth: "rows_ok rows \<Longrightarrow> i < 256 \<Longrightarrow> length (rows ! i) = 1536"
  by (simp add: rows_ok_def)

lemma rows_ok_length: "rows_ok rows \<Longrightarrow> length rows = 256"
  by (simp add: rows_ok_def)

definition tx_ok :: "net_state \<Rightarrow> bool" where
  "tx_ok st \<longleftrightarrow>
     (\<exists>f ring. regs st = Some f \<and> tx_ring st = Some ring \<and> rows_ok (tx_buffer st) \<and>
        length (desc ring) = 256 \<and> length (avail_ring ring) = 256 \<and> avail_idx ring = tx_idx st)"

text \<open>What slot \<open>j\<close> offers to the device: its buffer, its descriptor and its entry of the
  available ring.\<close>

definition slot :: "net_state \<Rightarrow> nat \<Rightarrow> u8 list \<times> vring_desc \<times> u16" where
  "slot st j = (tx_buffer st ! j, desc (the (tx_ring st)) ! j, avail_ring (the (tx_ring st)) ! j)"

definition offers :: "net_env \<Rightarrow> net_state \<Rightarrow> nat \<Rightarrow> u8 list \<Rightarrow> bool" where
  "offers env st j frame \<longleftrightarrow>
     (case slot st j of (buf, d, a) \<Rightarrow>
        take (length frame) buf = frame \<and>
        d = \<lparr>d_addr = tx_buffer_at env + of_nat (1536 * j), d_len = of_nat (length frame), d_flags = 0\<rparr> \<and>
        a = of_nat j)"

lemma tx_enqueue_ok:
  assumes "tx_ok st" "length frame \<le> 1536"
  defines "j \<equiv> unat (tx_idx st) mod 256"
  shows "\<exists>st'. tx_enqueue env st frame = Inr (st', 0) \<and> tx_ok st' \<and> tx_idx st' = tx_idx st + 1 \<and>
    reg_log st' = reg_log st @ [(QueueNotify, 1)] \<and> offers env st' j frame \<and>
    (\<forall>i. i \<noteq> j \<longrightarrow> slot st' i = slot st i)"
proof -
  obtain f ring where st: "regs st = Some f" "tx_ring st = Some ring" "rows_ok (tx_buffer st)"
    "length (desc ring) = 256" "length (avail_ring ring) = 256" "avail_idx ring = tx_idx st"
    using assms(1) by (auto simp add: tx_ok_def)
  have j: "j < 256" by (simp add: j_def)
  have row: "length (tx_buffer st ! j) = 1536" "length (tx_buffer st) = 256"
    using rows_ok_nth [OF st(3) j] rows_ok_length [OF st(3)] by simp_all
  let ?row = "frame @ drop (length frame) (tx_buffer st ! j)"
  let ?ring = "ring\<lparr>desc := (desc ring)[j := \<lparr>d_addr = tx_buffer_at env + of_nat (1536 * j),
      d_len = of_nat (length frame), d_flags = 0\<rparr>], avail_ring := (avail_ring ring)[j := of_nat j],
      avail_idx := avail_idx ring + 1\<rparr>"
  let ?st = "st\<lparr>tx_buffer := (tx_buffer st)[j := ?row], tx_ring := Some ?ring,
      regs := Some (f(QueueNotify := 1)), reg_log := reg_log st @ [(QueueNotify, 1)], tx_idx := tx_idx st + 1\<rparr>"
  have "tx_enqueue env st frame = Inr (?st, 0)"
    using st j row assms(2)
    by (simp add: tx_enqueue_def Let_def RING_SIZE_def BUF_SIZE_def j_def [symmetric] row_write_def write_reg_def)
  moreover have "tx_ok ?st"
  proof -
    have "length ?row = 1536" using row assms(2) by simp
    then have "rows_ok ((tx_buffer st)[j := ?row])" by (rule rows_ok_update [OF st(3)])
    then show ?thesis using st by (simp add: tx_ok_def)
  qed
  moreover have "offers env ?st j frame" using st row j by (simp add: offers_def slot_def)
  moreover have "\<forall>i. i \<noteq> j \<longrightarrow> slot ?st i = slot st i" using st by (auto simp add: slot_def)
  ultimately show ?thesis by (intro exI [of _ ?st]) simp
qed

fun send_all :: "net_env \<Rightarrow> net_state \<Rightarrow> u8 list list \<Rightarrow> net_state res" where
  "send_all env st [] = Inr st"
| "send_all env st (p # ps) = bind_res (low_level_output env st p) (\<lambda>(st', _). send_all env st' ps)"

lemma send_all_snoc:
  "send_all env st (ps @ [p]) =
     bind_res (send_all env st ps) (\<lambda>st'. bind_res (low_level_output env st' p) (\<lambda>(st'', _). Inr st''))"
  by (induction ps arbitrary: st) (simp_all add: bind_res_assoc case_prod_unfold)

lemma send_all_ok:
  assumes "tx_ok st" "\<forall>p\<in>set ps. length p \<le> 1536"
  shows "\<exists>st'. send_all env st ps = Inr st' \<and> tx_ok st' \<and> tx_idx st' = tx_idx st + of_nat (length ps) \<and>
    reg_log st' = reg_log st @ replicate (length ps) (QueueNotify, 1) \<and>
    (\<forall>i < length ps. length ps - i \<le> 256 \<longrightarrow> offers env st' ((unat (tx_idx st) + i) mod 256) (ps ! i))"
  using assms(2)
proof (induction ps rule: rev_induct)
  case Nil
  then show ?case using assms(1) by simp
next
  case (snoc p ps)
  then obtain st1 where s1: "send_all env st ps = Inr st1" "tx_ok st1"
    "tx_idx st1 = tx_idx st + of_nat (length ps)"
    "reg_log st1 = reg_log st @ replicate (length ps) (QueueNotify, 1)"
    "\<forall>i < length ps. length ps - i \<le> 256 \<longrightarrow> offers env st1 ((unat (tx_idx st) + i) mod 256) (ps ! i)"
    by auto
  let ?j = "\<lambda>i. (unat (tx_idx st) + i) mod 256"
  have j: "unat (tx_idx st1) mod 256 = ?j (length ps)" using s1(3) by (simp add: ring_slot_u16)
  obtain st2 where s2: "tx_enqueue env st1 p = Inr (st2, 0)" "tx_ok st2" "tx_idx st2 = tx_idx st1 + 1"
    "reg_log st2 = reg_log st1 @ [(QueueNotify, 1)]" "offers env st2 (?j (length ps)) p"
    "\<forall>i. i \<noteq> ?j (length ps) \<longrightarrow> slot st2 i = slot st1 i"
    using tx_enqueue_ok [OF s1(2), of p env] snoc.prems unfolding j by auto
  have "offers env st2 (?j i) ((ps @ [p]) ! i)"
    if i: "i < length (ps @ [p])" "length (ps @ [p]) - i \<le> 256" for i
  proof (cases "i = length ps")
    case True
    then show ?thesis using s2(5) by simp
  next
    case False
    then have lt: "i < length ps" using i by simp
    have "?j i \<noteq> ?j (length ps)" using ring_slots_differ [OF lt, of 256 "unat (tx_idx st)"] i(2) by simp
    then have "slot st2 (?j i) = slot st1 (?j i)" using s2(6) by blast
    then show ?thesis using s1(5) lt i by (simp add: offers_def nth_append)
  qed
  then show ?case
    using s1 s2 by (intro exI [of _ st2])
      (simp add: send_all_snoc low_level_output_def add.commute replicate_append_same)
qed

section \<open>The receive ring\<close>







text \<open>The available ring after the buffers of the elements were put back from index \<open>a\<close> on, and
  what becomes of its slots: the last 256 of them are found where they were written, the slots
  not written keep their entry.\<close>

fun returned :: "u16 list \<Rightarrow> u16 \<Rightarrow> (u32 \<times> u32) list \<Rightarrow> u16 list" where
  "returned av a [] = av"
| "returned av a (e # es) = returned (av[unat a mod 256 := ucast (fst e)]) (a + 1) es"


lemma length_returned [simp]: "length (returned av a es) = length av"
  by (induction es arbitrary: av a) simp_all







lemma rx_loop_unfold:
  "0 < n \<Longrightarrow> rx_loop n env st k =
     (case rx_ring st of
        None \<Rightarrow> Inl NullDeref
      | Some ring \<Rightarrow>
          if last_rx_idx st = used_idx ring then Inr (st, k)
          else bind_res (rx_one env ring st) (\<lambda>st'. rx_loop (n - 1) env st' (k + 1)))"
  by (cases n) (auto split: option.split)


section \<open>Properties\<close>

text \<open>The transmit path on a ring that is ready: frames of at most 1536 bytes are accepted
  without limit, each with one notification of queue 1, and exactly the last 256 of them are
  guaranteed to be where their descriptors say; nothing looks at what the device has taken, so
  sending frame number 256 after a frame overwrites that frame.\<close>

theorem tx_ring_keeps_last_256:
  assumes "tx_ok st" "\<forall>p\<in>set ps. length p \<le> 1536"
  shows "\<exists>st'. send_all env st ps = Inr st' \<and> tx_idx st' = tx_idx st + of_nat (length ps) \<and>
    reg_log st' = reg_log st @ replicate (length ps) (QueueNotify, 1) \<and>
    (\<forall>i < length ps. length ps - i \<le> 256 \<longrightarrow> offers env st' ((unat (tx_idx st) + i) mod 256) (ps ! i))"
  using send_all_ok [OF assms, of env] by blast

definition demo_env :: net_env where
  "demo_env = \<lparr>vring_init = (\<lambda>n m a. (m, m + 16 * of_nat n,
        (m + 16 * of_nat n + 2 * (3 + of_nat n) + a - 1) AND NOT (a - 1))),
     pbuf_alloc = (\<lambda>len. if len \<le> 1536 then Some 1536 else None), VRING_DESC_F_WRITE = 2,
     rx_buffer_at = 0x100000, tx_buffer_at = 0x200000, rx_ring_mem_at = 0x300000, tx_ring_mem_at = 0x302000\<rparr>"

definition demo_ring :: "u16 \<Rightarrow> (u32 \<times> u32) list \<Rightarrow> vring" where
  "demo_ring u es = (fresh_ring (0, 0, 0))\<lparr>used_idx := u, used_ring := es @ replicate (256 - length es) (0, 0)\<rparr>"

definition demo_state :: "vring \<Rightarrow> net_state" where
  "demo_state ring = net_init\<lparr>regs := Some (\<lambda>r. 1), rx_ring := Some ring, tx_ring := Some (demo_ring 0 [])\<rparr>"

lemma rows_ok_init: "rows_ok (replicate 256 (replicate 1536 0))"
  by (simp add: rows_ok_def)

theorem tx_ring_keeps_last_256_witness:
  "\<exists>st'. send_all demo_env (demo_state (demo_ring 0 [])) (replicate 257 [7]) = Inr st' \<and> tx_idx st' = 257 \<and>
     offers demo_env st' 0 [7]"
proof -
  have "tx_ok (demo_state (demo_ring 0 []))"
    using rows_ok_init
    by (simp add: tx_ok_def demo_state_def demo_ring_def fresh_ring_def net_init_def RING_SIZE_def BUF_SIZE_def)
  from tx_ring_keeps_last_256 [OF this, of "replicate 257 [7]" demo_env] obtain st' where
    st': "send_all demo_env (demo_state (demo_ring 0 [])) (replicate 257 [7]) = Inr st'" "tx_idx st' = 257"
    "\<forall>i < 257. 257 - i \<le> 256 \<longrightarrow> offers demo_env st' (i mod 256) (replicate 257 [7] ! i)"
    by (auto simp add: demo_state_def net_init_def)
  have "offers demo_env st' (256 mod 256) (replicate 257 [7] ! 256)"
    using spec [OF st'(3), of 256] by simp
  then have "offers demo_env st' 0 [7]" by simp
  with st' show ?thesis by blast
qed



text \<open>A device that does not keep to the protocol reaches the driver's memory: a used
  element whose \<open>id\<close> is 256 or more is used as an index into the receive buffers unchecked,
  and one whose length exceeds a buffer is copied out of it in full.\<close>

theorem irq_trusts_device:
  assumes "regs st = Some f" "f InterruptStatus AND 1 \<noteq> 0" "rx_ring st = Some ring"
    and "last_rx_idx st \<noteq> used_idx ring" "length (used_ring ring) = 256" "rows_ok (rx_buffer st)"
    and "used_ring ring ! (unat (last_rx_idx st) mod 256) = (bid, len)"
    and "256 \<le> unat bid \<or> 1536 < unat len" "pbuf_alloc env len = Some cap"
  shows "hardware_irq_handle env st = Inl OutOfBounds"
proof -
  have "rx_one env ring st = Inl OutOfBounds"
    using assms(5,7,8,9) rows_ok_length [OF assms(6)] rows_ok_nth [OF assms(6), of "unat bid"]
    by (cases "unat bid < 256") (auto simp add: rx_one_def RING_SIZE_def)
  then have "rx_loop 65536 env st 0 = Inl OutOfBounds" using assms(3,4) by (simp add: rx_loop_unfold)
  then show ?thesis using assms(1,2) by (simp add: hardware_irq_handle_def Let_def)
qed

theorem irq_trusts_device_witness:
  "hardware_irq_handle demo_env (demo_state (demo_ring 1 [(256, 64)])) = Inl OutOfBounds"
proof -
  let ?ring = "demo_ring 1 [(256, 64)]"
  have st: "regs (demo_state ?ring) = Some (\<lambda>r. 1)" "rx_ring (demo_state ?ring) = Some ?ring"
    "rx_buffer (demo_state ?ring) = replicate 256 (replicate 1536 0)" "last_rx_idx (demo_state ?ring) = 0"
    "used_idx ?ring = 1" "used_ring ?ring = (256, 64) # replicate 255 (0, 0)"
    by (simp_all add: demo_state_def net_init_def demo_ring_def RING_SIZE_def BUF_SIZE_def)
  have "rows_ok (rx_buffer (demo_state ?ring))" unfolding st by (rule rows_ok_init)
  then show ?thesis
    using irq_trusts_device [OF st(1) _ st(2), of 256 64 demo_env 1536] st by (simp add: demo_env_def)
qed




text \<open>The layout the virtio specification prescribes for a queue of n descriptors.\<close>

definition spec_layout :: "(nat \<Rightarrow> u64 \<Rightarrow> u64 \<Rightarrow> u64 \<times> u64 \<times> u64) \<Rightarrow> bool" where
  "spec_layout vinit \<longleftrightarrow>
     (\<forall>n m. (4096 :: nat) dvd unat m \<longrightarrow> unat m + 65536 < 2 ^ 64 \<longrightarrow> n \<le> 1024 \<longrightarrow>
        vinit n m 4096 =
          (m, m + of_nat (16 * n),
           m + of_nat ((16 * n + 2 * (3 + n) + 4095) div 4096 * 4096)))"

text \<open>The memory given to a ring is too small: with the layout the virtio specification
  prescribes, the used ring of a queue of 256 starts 8192 bytes into it, which is where the
  array of 8192 bytes ends, so the device writes behind it.\<close>

theorem ring_memory_too_small:
  assumes "spec_layout (vring_init env)" "4096 dvd unat (rx_ring_mem_at env)"
    and "unat (rx_ring_mem_at env) + 65536 < 2 ^ 64" "f MagicValue = 0x74726976"
  shows "\<exists>st' ring. virtio_init_hardware env (Some f) net_init = Inr st' \<and> rx_ring st' = Some ring \<and>
    unat (used_at ring) = unat (rx_ring_mem_at env) + 8192 \<and>
    (QueueUsedLow, ucast (rx_ring_mem_at env + 8192)) \<in> set (reg_log st')"
proof -
  have v: "vring_init env 256 (rx_ring_mem_at env) 4096 =
      (rx_ring_mem_at env, rx_ring_mem_at env + 4096, rx_ring_mem_at env + 8192)"
    using assms(1-3) unfolding spec_layout_def by simp
  have "unat (rx_ring_mem_at env + 8192) = unat (rx_ring_mem_at env) + 8192"
    using assms(3) by (simp add: unat_word_ariths)
  then show ?thesis
    using assms(4) v
    by (simp add: virtio_init_hardware_def VIRTIO_MAGIC_VALUE_def Let_def write_reg_def read_reg_def or_reg_def
        net_init_def queue_setup_def fresh_ring_def fill_rx_def RING_SIZE_def split: prod.split)
qed

theorem ring_memory_too_small_witness:
  "\<exists>env st' ring. virtio_init_hardware env (Some (\<lambda>r. 0x74726976)) net_init = Inr st' \<and> rx_ring st' = Some ring \<and>
    unat (used_at ring) = 0x300000 + 8192"
proof -
  let ?env = "demo_env\<lparr>vring_init := (\<lambda>n m a. (m, m + of_nat (16 * n),
      m + of_nat ((16 * n + 2 * (3 + n) + 4095) div 4096 * 4096)))\<rparr>"
  have "spec_layout (vring_init ?env)" by (simp add: spec_layout_def)
  from ring_memory_too_small [OF this, of "\<lambda>r. 0x74726976"] show ?thesis
    by (intro exI [of _ ?env]) (auto simp add: demo_env_def)
qed

text \<open>The register structure does not match the device: the gap before \<open>QueueReady\<close> has
  three words where the specification, and the comments on the fields, leave room for two, so
  every register up to \<open>QueueNum\<close> is where its comment says and every later one is four bytes
  further on.  The driver reads its interrupt status from the acknowledge register and writes
  its status, its notifications and its queue addresses beside the registers.\<close>

theorem register_offsets_shifted:
  "map (field_offset 0 virtio_mmio_regs)
     [''MagicValue'', ''Version'', ''DeviceID'', ''VendorID'', ''DeviceFeatures'', ''DeviceFeaturesSel'',
      ''DriverFeatures'', ''DriverFeaturesSel'', ''QueueSel'', ''QueueNumMax'', ''QueueNum''] =
   map Some [0x000, 0x004, 0x008, 0x00c, 0x010, 0x014, 0x020, 0x024, 0x030, 0x034, 0x038] \<and>
   map (field_offset 0 virtio_mmio_regs)
     [''QueueReady'', ''QueueNotify'', ''InterruptStatus'', ''InterruptACK'', ''Status'', ''QueueDescLow'',
      ''QueueDescHigh'', ''QueueAvailLow'', ''QueueAvailHigh'', ''QueueUsedLow'', ''QueueUsedHigh''] =
   map (\<lambda>doc. Some (doc + 4))
     [0x044, 0x050, 0x060, 0x064, 0x070, 0x080, 0x084, 0x090, 0x094, 0x0A0, 0x0A4]"
  by (simp add: virtio_mmio_regs_def)

end
