(* ===== verification/SqliteVarint.thy ===== *)
theory SqliteVarint
  imports Prelude
begin

text \<open>
  The integer encodings of SQLite's file format, from util.c in
  components/Ledger/src/sqlite3.c: the variable-length integers of 1 to 9 bytes, and the
  four-byte big-endian integers.  Memory is the list of the bytes from the pointer on; a
  read or a write behind its end is a fault.  The target is little-endian and compiled with
  gcc, so the four-byte accesses go through a byte swap.
\<close>

unbundle bit_operations_syntax

section \<open>Writing\<close>

text \<open>The loop over i from 7 down to 0 of the nine-byte case; the argument is i + 1.\<close>

primrec put_high :: "nat \<Rightarrow> u8 list \<Rightarrow> u64 \<Rightarrow> u8 list res" where
  "put_high 0 p v = Inr p"
| "put_high (Suc i) p v =
     bind_res (upd_res p i (ucast ((v AND 0x7f) OR 0x80))) (\<lambda>p'. put_high i p' (drop_bit 7 v))"

text \<open>The loop that fills \<open>buf[10]\<close>, seven bits at a time; \<open>buf\<close> is the part written.\<close>

function put_groups :: "u8 list \<Rightarrow> u64 \<Rightarrow> u8 list res" where
  "put_groups buf v =
     (if length buf < 10 then
        let buf' = buf @ [ucast ((v AND 0x7f) OR 0x80)]; v' = drop_bit 7 v
        in if v' \<noteq> 0 then put_groups buf' v' else Inr buf'
      else Inl BufferOverflow)"
  by pat_completeness auto
termination by (relation "measure (\<lambda>(buf, v). 10 - length buf)") auto

declare put_groups.simps [simp del]

text \<open>The copying loop: \<open>p[i] = buf[j]\<close>, with j going down.\<close>

fun put_back :: "u8 list \<Rightarrow> nat \<Rightarrow> u8 list \<Rightarrow> u8 list res" where
  "put_back p i [] = Inr p"
| "put_back p i (b # bs) = bind_res (upd_res p i b) (\<lambda>p'. put_back p' (Suc i) bs)"

definition putVarint64 :: "u8 list \<Rightarrow> u64 \<Rightarrow> (u8 list \<times> nat) res" where
  "putVarint64 p v =
     (if v AND push_bit 32 0xff000000 \<noteq> 0 then
        bind_res (upd_res p 8 (ucast v)) (\<lambda>p.
        bind_res (put_high 8 p (drop_bit 8 v)) (\<lambda>p. Inr (p, 9)))
      else
        bind_res (put_groups [] v) (\<lambda>buf.
        bind_res (put_back p 0 (rev (buf[0 := buf ! 0 AND 0x7f]))) (\<lambda>p. Inr (p, length buf))))"

definition sqlite3PutVarint :: "u8 list \<Rightarrow> u64 \<Rightarrow> (u8 list \<times> nat) res" where
  "sqlite3PutVarint p v =
     (if v \<le> 0x7f then bind_res (upd_res p 0 (ucast (v AND 0x7f))) (\<lambda>p. Inr (p, 1))
      else if v \<le> 0x3fff then
        bind_res (upd_res p 0 (ucast ((drop_bit 7 v AND 0x7f) OR 0x80))) (\<lambda>p.
        bind_res (upd_res p 1 (ucast (v AND 0x7f))) (\<lambda>p. Inr (p, 2)))
      else putVarint64 p v)"

function varint_len_loop :: "nat \<Rightarrow> u64 \<Rightarrow> nat" where
  "varint_len_loop i v = (let v' = drop_bit 7 v in if v' \<noteq> 0 then varint_len_loop (Suc i) v' else i)"
  by pat_completeness auto
termination
proof (relation "measure (\<lambda>(i, v). unat v)")
  fix i :: nat and v v' :: u64
  assume v': "v' = drop_bit 7 v" and nz: "v' \<noteq> 0"
  have "unat v' = unat v div 128" using v' by (simp only: unat_drop_bit_eq) (simp add: drop_bit_eq_div)
  moreover have "unat v' \<noteq> 0" using nz by (simp add: unat_eq_0)
  ultimately show "((Suc i, v'), (i, v)) \<in> measure (\<lambda>(i, v). unat v)" by simp
qed simp

declare varint_len_loop.simps [simp del]

definition sqlite3VarintLen :: "u64 \<Rightarrow> nat" where
  "sqlite3VarintLen v = varint_len_loop 1 v"

section \<open>Reading\<close>

definition SLOT_2_0 :: u32 where "SLOT_2_0 = 0x001fc07f"
definition SLOT_4_2_0 :: u32 where "SLOT_4_2_0 = 0xf01fc07f"

definition sqlite3GetVarint :: "u8 list \<Rightarrow> (u64 \<times> nat) res" where
  "sqlite3GetVarint p =
     bind_res (nth_res p 0) (\<lambda>p0.
     if 0 \<le> sint p0 then Inr (ucast p0, 1) else
     bind_res (nth_res p 1) (\<lambda>p1.
     if 0 \<le> sint p1 then Inr (ucast (push_bit 7 (ucast (p0 AND 0x7f)) OR ucast p1 :: u32), 2) else
     let a = push_bit 14 (ucast p0) :: u32; b = ucast p1 :: u32 in
     bind_res (nth_res p 2) (\<lambda>p2.
     let a = a OR ucast p2 in
     if a AND 0x80 = 0 then
       let a = a AND SLOT_2_0; b = push_bit 7 (b AND 0x7f) in Inr (ucast (a OR b), 3)
     else
     let a = a AND SLOT_2_0 in
     bind_res (nth_res p 3) (\<lambda>p3.
     let b = push_bit 14 b OR ucast p3 in
     if b AND 0x80 = 0 then
       let b = b AND SLOT_2_0; a = push_bit 7 a in Inr (ucast (a OR b), 4)
     else
     let b = b AND SLOT_2_0; s = a in
     bind_res (nth_res p 4) (\<lambda>p4.
     let a = push_bit 14 a OR ucast p4 in
     if a AND 0x80 = 0 then
       let b = push_bit 7 b; a = a OR b; s = drop_bit 18 s
       in Inr (push_bit 32 (ucast s) OR ucast a, 5)
     else
     let s = push_bit 7 s OR b in
     bind_res (nth_res p 5) (\<lambda>p5.
     let b = push_bit 14 b OR ucast p5 in
     if b AND 0x80 = 0 then
       let a = push_bit 7 (a AND SLOT_2_0) OR b; s = drop_bit 18 s
       in Inr (push_bit 32 (ucast s) OR ucast a, 6)
     else
     bind_res (nth_res p 6) (\<lambda>p6.
     let a = push_bit 14 a OR ucast p6 in
     if a AND 0x80 = 0 then
       let a = a AND SLOT_4_2_0; b = push_bit 7 (b AND SLOT_2_0); a = a OR b; s = drop_bit 11 s
       in Inr (push_bit 32 (ucast s) OR ucast a, 7)
     else
     let a = a AND SLOT_2_0 in
     bind_res (nth_res p 7) (\<lambda>p7.
     let b = push_bit 14 b OR ucast p7 in
     if b AND 0x80 = 0 then
       let b = b AND SLOT_4_2_0; a = push_bit 7 a OR b; s = drop_bit 4 s
       in Inr (push_bit 32 (ucast s) OR ucast a, 8)
     else
     bind_res (nth_res p 8) (\<lambda>p8.
     let a = push_bit 15 a OR ucast p8; b = push_bit 8 (b AND SLOT_2_0); a = a OR b;
         s = push_bit 4 s; b = drop_bit 3 (ucast p4 AND 0x7f); s = s OR b
     in Inr (push_bit 32 (ucast s) OR ucast a, 9))))))))))"

definition sqlite3GetVarint32 :: "u8 list \<Rightarrow> (u32 \<times> nat) res" where
  "sqlite3GetVarint32 p =
     bind_res (nth_res p 1) (\<lambda>p1.
     if p1 AND 0x80 = 0 then
       bind_res (nth_res p 0) (\<lambda>p0. Inr (push_bit 7 (ucast (p0 AND 0x7f)) OR ucast p1, 2))
     else
     bind_res (nth_res p 2) (\<lambda>p2.
     if p2 AND 0x80 = 0 then
       bind_res (nth_res p 0) (\<lambda>p0.
         Inr (push_bit 14 (ucast (p0 AND 0x7f)) OR push_bit 7 (ucast (p1 AND 0x7f)) OR ucast p2, 3))
     else
       bind_res (sqlite3GetVarint p) (\<lambda>(v64, n).
         if v64 AND 0xffffffff \<noteq> v64 then Inr (0xffffffff, n) else Inr (ucast v64, n))))"

section \<open>Four-byte integers\<close>

text \<open>A word copied from or to memory on a little-endian machine, and gcc's byte swap.\<close>

definition load_le32 :: "u8 list \<Rightarrow> u32 res" where
  "load_le32 p =
     bind_res (nth_res p 0) (\<lambda>b0. bind_res (nth_res p 1) (\<lambda>b1.
     bind_res (nth_res p 2) (\<lambda>b2. bind_res (nth_res p 3) (\<lambda>b3.
     Inr (ucast b0 OR push_bit 8 (ucast b1) OR push_bit 16 (ucast b2) OR push_bit 24 (ucast b3))))))"

definition store_le32 :: "u8 list \<Rightarrow> u32 \<Rightarrow> u8 list res" where
  "store_le32 p x =
     put_back p 0 [ucast x, ucast (drop_bit 8 x), ucast (drop_bit 16 x), ucast (drop_bit 24 x)]"

definition bswap32 :: "u32 \<Rightarrow> u32" where
  "bswap32 x =
     push_bit 24 (x AND 0xff) OR push_bit 8 (x AND 0xff00) OR
     (drop_bit 8 x AND 0xff00) OR (drop_bit 24 x AND 0xff)"

definition sqlite3Get4byte :: "u8 list \<Rightarrow> u32 res" where
  "sqlite3Get4byte p = bind_res (load_le32 p) (\<lambda>x. Inr (bswap32 x))"

definition sqlite3Put4byte :: "u8 list \<Rightarrow> u32 \<Rightarrow> u8 list res" where
  "sqlite3Put4byte p v = store_le32 p (bswap32 v)"

section \<open>The reader against a reference\<close>

lemma all_less_numeral:
  "(\<forall>k<numeral n. P k) \<longleftrightarrow> (\<forall>k<pred_numeral n. P k) \<and> P (pred_numeral n)"
  by (auto simp: numeral_eq_Suc less_Suc_eq)

lemma no_high_bit_u8 [simp]: "8 \<le> k \<Longrightarrow> \<not> bit w k" for w :: u8
  using bit_imp_le_length [of w k] by auto

lemma no_high_bit_u64 [simp]: "64 \<le> k \<Longrightarrow> \<not> bit w k" for w :: u64
  using bit_imp_le_length [of w k] by auto

lemma no_high_bit_u32 [simp]: "32 \<le> k \<Longrightarrow> \<not> bit w k" for w :: u32
  using bit_imp_le_length [of w k] by auto

text \<open>Words are compared bit by bit, at every position: the bits are evaluated, not the words.\<close>

definition bits64 :: "(nat \<Rightarrow> bool) \<Rightarrow> bool" where
  "bits64 P \<longleftrightarrow> P 0 \<and> P 1 \<and> P 2 \<and> P 3 \<and> P 4 \<and> P 5 \<and> P 6 \<and> P 7 \<and>
    P 8 \<and> P 9 \<and> P 10 \<and> P 11 \<and> P 12 \<and> P 13 \<and> P 14 \<and> P 15 \<and> P 16 \<and> P 17 \<and> P 18 \<and> P 19 \<and> P 20 \<and>
    P 21 \<and> P 22 \<and> P 23 \<and> P 24 \<and> P 25 \<and> P 26 \<and> P 27 \<and> P 28 \<and> P 29 \<and> P 30 \<and> P 31 \<and> P 32 \<and>
    P 33 \<and> P 34 \<and> P 35 \<and> P 36 \<and> P 37 \<and> P 38 \<and> P 39 \<and> P 40 \<and> P 41 \<and> P 42 \<and> P 43 \<and> P 44 \<and>
    P 45 \<and> P 46 \<and> P 47 \<and> P 48 \<and> P 49 \<and> P 50 \<and> P 51 \<and> P 52 \<and> P 53 \<and> P 54 \<and> P 55 \<and> P 56 \<and>
    P 57 \<and> P 58 \<and> P 59 \<and> P 60 \<and> P 61 \<and> P 62 \<and> P 63"

lemma bits64_all: "bits64 P \<longleftrightarrow> (\<forall>k<64. P k)"
  by (simp add: bits64_def all_less_numeral conj_ac)

lemma word_eq_bitwise: "bits64 (\<lambda>k. bit v k = bit w k) \<Longrightarrow> v = w" for v w :: u64
  by (rule bit_word_eqI) (simp add: bits64_all)

lemma sint_u8_nonneg: "0 \<le> sint p \<longleftrightarrow> \<not> bit p 7" for p :: u8
  using bit_last_iff [of p] by auto

text \<open>The format, byte by byte: seven bits each while the high bit is set, eight from the ninth.\<close>

fun varint_ref :: "nat \<Rightarrow> u64 \<Rightarrow> u8 list \<Rightarrow> (u64 \<times> nat) res" where
  "varint_ref k acc [] = Inl OutOfBounds"
| "varint_ref k acc (b # bs) =
     (if k = 8 then Inr (push_bit 8 acc OR ucast b, 9)
      else if bit b 7 then varint_ref (Suc k) (push_bit 7 acc OR ucast (b AND 0x7f)) bs
      else Inr (push_bit 7 acc OR ucast b, Suc k))"

lemma varint_ref_drop:
  "varint_ref k acc (drop k p) =
     bind_res (nth_res p k) (\<lambda>b.
       if k = 8 then Inr (push_bit 8 acc OR ucast b, 9)
       else if bit b 7 then varint_ref (Suc k) (push_bit 7 acc OR ucast (b AND 0x7f)) (drop (Suc k) p)
       else Inr (push_bit 7 acc OR ucast b, Suc k))"
proof (cases "k < length p")
  case True
  then have "drop k p = p ! k # drop (Suc k) p" by (rule Cons_nth_drop_Suc [symmetric])
  then show ?thesis using True by simp
qed simp

lemma and_0x80: "w AND 0x80 = 0 \<longleftrightarrow> \<not> bit w 7" for w :: "'a::len word"
  using and_exp_eq_0_iff_not_bit [of w 7] by simp

lemma varint_ref_step:
  assumes "\<And>b. C b \<longleftrightarrow> \<not> bit b 7" and "k' = Suc k" "k \<noteq> 8"
    and "\<And>b. \<not> bit b 7 \<Longrightarrow> f b = push_bit 7 acc OR ucast b"
    and "\<And>b. bit b 7 \<Longrightarrow> g b = varint_ref k' (push_bit 7 acc OR ucast (b AND 0x7f)) (drop k' p)"
  shows "bind_res (nth_res p k) (\<lambda>b. if C b then Inr (f b, k') else g b) = varint_ref k acc (drop k p)"
  unfolding varint_ref_drop [of k] by (rule arg_cong [of _ _ "bind_res _"], rule ext) (simp add: assms)

lemma varint_ref_final:
  assumes "\<And>b. f b = push_bit 8 acc OR ucast b"
  shows "bind_res (nth_res p 8) (\<lambda>b. Inr (f b, 9)) = varint_ref 8 acc (drop 8 p)"
  unfolding varint_ref_drop [of 8] by (simp add: assms)

lemma get_varint_ref: "sqlite3GetVarint p = varint_ref 0 0 p"
proof -
  have "sqlite3GetVarint p = varint_ref 0 0 (drop 0 p)"
    unfolding sqlite3GetVarint_def Let_def SLOT_2_0_def SLOT_4_2_0_def
    apply (rule varint_ref_step, simp add: sint_u8_nonneg, simp, simp, simp)
    apply (rule varint_ref_step, simp add: sint_u8_nonneg, simp, simp,
        rule word_eq_bitwise, simp only: bits64_def bit_simps, simp add: bit_simps)
    apply (rule varint_ref_step, simp add: and_0x80 bit_simps, simp, simp,
        rule word_eq_bitwise, simp only: bits64_def bit_simps, simp add: bit_simps)+
    apply (rule varint_ref_final, rule word_eq_bitwise, simp only: bits64_def bit_simps, simp add: bit_simps)
    done
  then show ?thesis by simp
qed

section \<open>Round trip\<close>

text \<open>Reading a variable-length integer: the unrolled code, with its masks and its three
  accumulators, reads what the byte-by-byte definition of the format reads, the same value and
  the same number of bytes, and leaves the memory exactly where that does.\<close>

theorem varint_reader_equivalence: "sqlite3GetVarint p = varint_ref 0 0 p"
  by (rule get_varint_ref)

text \<open>The bytes of an integer: \<open>n\<close> groups of seven bits with the continuation bit, high ones
  first.\<close>

definition more_byte :: "u64 \<Rightarrow> u8" where "more_byte v = ucast ((v AND 0x7f) OR 0x80)"
definition end_byte :: "u64 \<Rightarrow> u8" where "end_byte v = ucast (v AND 0x7f)"

primrec high_groups :: "nat \<Rightarrow> u64 \<Rightarrow> u8 list" where
  "high_groups 0 v = []"
| "high_groups (Suc n) v = high_groups n (drop_bit 7 v) @ [more_byte v]"

lemma length_high_groups [simp]: "length (high_groups n v) = n"
  by (induction n arbitrary: v) simp_all

lemma more_byte_bits: "bit (more_byte v) 7" "ucast (more_byte v AND 0x7f) = v AND 0x7f"
  by (simp add: more_byte_def bit_simps,
      rule word_eq_bitwise, simp only: bits64_def more_byte_def bit_simps, simp add: bit_simps)

lemma end_byte_bits: "\<not> bit (end_byte v) 7" "ucast (end_byte v) = v AND 0x7f"
  by (simp add: end_byte_def bit_simps,
      rule word_eq_bitwise, simp only: bits64_def end_byte_def bit_simps, simp add: bit_simps)

lemma u8_eq_bitwise: "\<forall>k<8. bit v k = bit w k \<Longrightarrow> v = w" for v w :: u8
  by (rule bit_word_eqI) simp

lemma u32_eq_bitwise: "\<forall>k<32. bit v k = bit w k \<Longrightarrow> v = w" for v w :: u32
  by (rule bit_word_eqI) simp

lemma more_to_end: "more_byte v AND 0x7f = end_byte v"
  by (rule u8_eq_bitwise) (simp add: all_less_numeral more_byte_def end_byte_def bit_simps)

lemma join7: "push_bit 7 (drop_bit 7 v) OR (v AND 0x7f) = v" for v :: u64
  by (rule word_eq_bitwise, simp only: bits64_def bit_simps, simp add: bit_simps)

lemma join8: "push_bit 8 (drop_bit 8 v) OR ucast (ucast v :: u8) = v" for v :: u64
  by (rule word_eq_bitwise, simp only: bits64_def bit_simps, simp add: bit_simps)

lemma high_groups_first: "0 < n \<Longrightarrow> bit (high_groups n v ! 0) 7"
proof (induction n arbitrary: v)
  case (Suc n)
  then show ?case by (cases "n = 0") (simp_all add: more_byte_bits nth_append del: high_groups.simps(2), simp_all add: more_byte_bits nth_append)
qed simp

lemma read_high_groups:
  "drop_bit (7 * n) v = 0 \<Longrightarrow> n \<le> 8 \<Longrightarrow> varint_ref 0 0 (high_groups n v @ bs) = varint_ref n v bs"
proof (induction n arbitrary: v bs)
  case (Suc n)
  then have "drop_bit (7 * n) (drop_bit 7 v) = 0" by (simp add: add.commute)
  with Suc show ?case by (simp add: more_byte_bits join7)
qed simp

text \<open>What the writer produces, and where it stops.\<close>

lemma varint_len_loop_Suc: "varint_len_loop (Suc i) v = Suc (varint_len_loop i v)"
proof (induction i v rule: varint_len_loop.induct)
  case (1 i v)
  then show ?case
    by (subst (1 2) varint_len_loop.simps) (simp add: Let_def)
qed

lemma varint_len_rec:
  "sqlite3VarintLen v = (if drop_bit 7 v = 0 then 1 else Suc (sqlite3VarintLen (drop_bit 7 v)))"
  unfolding sqlite3VarintLen_def
  by (subst varint_len_loop.simps) (simp add: Let_def varint_len_loop_Suc)

lemma varint_len_enough: "drop_bit (7 * sqlite3VarintLen v) v = 0"
proof (induction "unat v" arbitrary: v rule: less_induct)
  case less
  show ?case
  proof (cases "drop_bit 7 v = 0")
    case True
    then show ?thesis by (simp add: varint_len_rec [of v])
  next
    case False
    have "unat (drop_bit 7 v) = unat v div 128" by (simp only: unat_drop_bit_eq) (simp add: drop_bit_eq_div)
    moreover have "unat (drop_bit 7 v) \<noteq> 0" using False by (simp add: unat_eq_0)
    ultimately have "drop_bit (7 * sqlite3VarintLen (drop_bit 7 v)) (drop_bit 7 v) = 0"
      by (intro less) simp
    with False show ?thesis by (simp add: varint_len_rec [of v] add.commute)
  qed
qed

lemma varint_len_least: "drop_bit (7 * Suc n) v = 0 \<Longrightarrow> sqlite3VarintLen v \<le> Suc n"
proof (induction n arbitrary: v)
  case (Suc n)
  then have "drop_bit (7 * Suc n) (drop_bit 7 v) = 0" by (simp add: add.commute)
  then have "sqlite3VarintLen (drop_bit 7 v) \<le> Suc n" by (rule Suc.IH)
  then show ?case by (simp add: varint_len_rec [of v])
qed (simp add: varint_len_rec)

lemma varint_len_pos: "1 \<le> sqlite3VarintLen v"
  by (simp add: varint_len_rec [of v])

lemma varint_len_8: "sqlite3VarintLen v \<le> 8 \<longleftrightarrow> drop_bit 56 v = 0"
proof
  assume "sqlite3VarintLen v \<le> 8"
  then have "drop_bit (56 - 7 * sqlite3VarintLen v) (drop_bit (7 * sqlite3VarintLen v) v) = 0"
    by (simp only: varint_len_enough) simp
  then show "drop_bit 56 v = 0" using \<open>sqlite3VarintLen v \<le> 8\<close> by simp
qed (use varint_len_least [of 7 v] in simp)

lemma put_groups_result:
  "length buf + sqlite3VarintLen v \<le> 10 \<Longrightarrow>
     put_groups buf v = Inr (buf @ rev (high_groups (sqlite3VarintLen v) v))"
proof (induction buf v rule: put_groups.induct)
  case (1 buf v)
  have "length buf < 10" using "1.prems" varint_len_pos [of v] by simp
  with 1 show ?case
    by (subst put_groups.simps)
       (auto simp: Let_def varint_len_rec [of v] more_byte_def [symmetric])
qed

lemma put_back_result:
  "i + length bs \<le> length p \<Longrightarrow> put_back p i bs = Inr (take i p @ bs @ drop (i + length bs) p)"
proof (induction bs arbitrary: p i)
  case (Cons b bs)
  then show ?case by (simp add: take_Suc_conv_app_nth upd_conv_take_nth_drop drop_update_cancel add.commute)
qed simp

lemma put_high_result:
  "n \<le> length p \<Longrightarrow> put_high n p v = Inr (high_groups n v @ drop n p)"
proof (induction n arbitrary: p v)
  case (Suc n)
  have "drop n (p[n := more_byte v]) = more_byte v # drop (Suc n) p"
    using Suc.prems by (simp add: upd_conv_take_nth_drop)
  with Suc show ?case by (simp add: more_byte_def [symmetric])
qed simp

text \<open>The encoding: how many bytes, and which.\<close>

definition varint_size :: "u64 \<Rightarrow> nat" where
  "varint_size v = min 9 (sqlite3VarintLen v)"

definition varint_bytes :: "u64 \<Rightarrow> u8 list" where
  "varint_bytes v =
     (if varint_size v \<le> 8
      then high_groups (varint_size v - 1) (drop_bit 7 v) @ [end_byte v]
      else high_groups 8 (drop_bit 8 v) @ [ucast v])"

lemma varint_size_bounds: "1 \<le> varint_size v" "varint_size v \<le> 9"
  using varint_len_pos [of v] by (simp_all add: varint_size_def)

lemma varint_size_8: "varint_size v \<le> 8 \<longleftrightarrow> drop_bit 56 v = 0"
  by (auto simp: varint_size_def min_def simp flip: varint_len_8)

lemma length_varint_bytes: "length (varint_bytes v) = varint_size v"
  using varint_size_bounds [of v] by (auto simp: varint_bytes_def)

lemma read_varint_bytes: "sqlite3GetVarint (varint_bytes v @ bs) = Inr (v, varint_size v)"
proof (cases "varint_size v \<le> 8")
  case True
  then have n: "sqlite3VarintLen v = Suc (varint_size v - 1)" and le: "varint_size v - 1 \<le> 8"
    using varint_len_pos [of v] by (simp_all add: varint_size_def)
  have "drop_bit (7 * (varint_size v - 1)) (drop_bit 7 v) = 0"
    using varint_len_enough [of v] n by (simp add: add.commute)
  from read_high_groups [OF this le] show ?thesis
    using True n varint_size_bounds [of v]
    by (simp add: get_varint_ref varint_bytes_def end_byte_bits join7)
next
  case False
  have "drop_bit (7 * 8) (drop_bit 8 v) = 0"
    by (rule bit_word_eqI) (simp add: bit_simps)
  from read_high_groups [OF this] show ?thesis
    using False varint_size_bounds [of v] by (simp add: get_varint_ref varint_bytes_def join8)
qed

lemma high_byte_mask: "v AND 0xff00000000000000 = 0 \<longleftrightarrow> drop_bit 56 v = 0" for v :: u64
proof -
  have "v AND 0xff00000000000000 = push_bit 56 (drop_bit 56 v)"
    by (rule word_eq_bitwise, simp only: bits64_def bit_simps, simp add: bit_simps)
  moreover have "drop_bit 56 (push_bit 56 (drop_bit 56 v)) = drop_bit 56 v"
    by (rule word_eq_bitwise, simp only: bits64_def bit_simps, simp add: bit_simps)
  ultimately show ?thesis by (metis drop_bit_of_0 push_bit_of_0)
qed

lemma drop_bit_0_iff: "drop_bit n v = 0 \<longleftrightarrow> unat v < 2 ^ n" for v :: u64
proof -
  have "drop_bit n v = 0 \<longleftrightarrow> unat (drop_bit n v) = 0" by (simp add: unat_eq_0)
  also have "\<dots> \<longleftrightarrow> unat v < 2 ^ n"
    by (simp only: unat_drop_bit_eq) (simp add: drop_bit_eq_div div_eq_0_iff)
  finally show ?thesis .
qed

lemma u64_le: "v \<le> 0x7f \<longleftrightarrow> drop_bit 7 v = 0" "v \<le> 0x3fff \<longleftrightarrow> drop_bit 14 v = 0" for v :: u64
  by (auto simp: drop_bit_0_iff word_le_nat_alt)

lemma put_varint_bytes:
  assumes "varint_size v \<le> length p"
  shows "sqlite3PutVarint p v = Inr (varint_bytes v @ drop (varint_size v) p, varint_size v)"
proof -
  have len: "length p > 0" using assms varint_size_bounds [of v] by auto
  consider (one) "v \<le> 0x7f" | (two) "\<not> v \<le> 0x7f" "v \<le> 0x3fff"
    | (more) "\<not> v \<le> 0x7f" "\<not> v \<le> 0x3fff" "drop_bit 56 v = 0" | (nine) "\<not> v \<le> 0x7f" "\<not> v \<le> 0x3fff" "drop_bit 56 v \<noteq> 0"
    by blast
  then show ?thesis
  proof cases
    case one
    then have "drop_bit 7 v = 0" by (simp add: u64_le)
    then have n: "varint_size v = 1" by (simp add: varint_size_def varint_len_rec [of v])
    show ?thesis using one len
      by (simp add: sqlite3PutVarint_def varint_bytes_def n end_byte_def upd_conv_take_nth_drop)
  next
    case two
    then have "drop_bit 7 v \<noteq> 0" "drop_bit 14 v = 0" by (simp_all add: u64_le)
    then have n: "varint_size v = 2" by (simp add: varint_size_def varint_len_rec [of v] varint_len_rec [of "drop_bit 7 v"])
    then obtain x y q where "p = x # y # q"
      using assms by (auto simp: numeral_2_eq_2 Suc_le_length_iff)
    then show ?thesis using two n
      by (simp add: sqlite3PutVarint_def varint_bytes_def end_byte_def more_byte_def)
  next
    case more
    then have "sqlite3VarintLen v \<le> 8" by (simp add: varint_len_8)
    then have n: "sqlite3VarintLen v = varint_size v" by (simp add: varint_size_def)
    obtain k where k: "varint_size v = Suc k" using varint_size_bounds(1) [of v] by (cases "varint_size v") auto
    have "rev ((rev (high_groups (Suc k) v))[0 := rev (high_groups (Suc k) v) ! 0 AND 0x7f]) = varint_bytes v"
      using \<open>sqlite3VarintLen v \<le> 8\<close> by (simp add: varint_bytes_def n k more_to_end)
    then show ?thesis
      using more \<open>sqlite3VarintLen v \<le> 8\<close> assms put_groups_result [of "[]" v] put_back_result [of 0 "varint_bytes v" p]
      by (simp add: sqlite3PutVarint_def putVarint64_def high_byte_mask n k length_varint_bytes)
  next
    case nine
    then have "\<not> varint_size v \<le> 8" by (simp add: varint_size_8)
    then have n: "varint_size v = 9" using varint_size_bounds [of v] by simp
    have "drop 8 (p[8 := ucast v]) = ucast v # drop 9 p"
      using assms n by (simp add: upd_conv_take_nth_drop)
    then show ?thesis
      using nine assms n put_high_result [of 8 "p[8 := ucast v]" "drop_bit 8 v"]
      by (simp add: sqlite3PutVarint_def putVarint64_def high_byte_mask varint_bytes_def)
  qed
qed

lemma get_varint32:
  assumes "bit (p ! 0) 7" "p \<noteq> []"
  shows "sqlite3GetVarint32 p =
    bind_res (sqlite3GetVarint p) (\<lambda>(v, n).
       if \<not> unat v < 2 ^ 32 then Inr (0xffffffff, n) else Inr (ucast v, n))"
proof -
  have fits: "v AND 0xffffffff \<noteq> v \<longleftrightarrow> \<not> unat v < 2 ^ 32" for v :: u64
  proof -
    have "v AND 0xffffffff = take_bit 32 v"
      by (simp add: take_bit_eq_mask mask_eq_exp_minus_1)
    moreover have "take_bit 32 v = v \<longleftrightarrow> drop_bit 32 v = 0"
      by (metis take_bit_eq_self_iff_drop_bit_eq_0)
    ultimately show ?thesis by (simp add: drop_bit_0_iff)
  qed
  have small: "unat (push_bit 7 (ucast (a AND 0x7f)) OR ucast b :: u64) < 2 ^ 32"
    "unat (push_bit 7 (push_bit 7 (ucast (a AND 0x7f)) OR ucast (b AND 0x7f)) OR ucast c :: u64) < 2 ^ 32"
    for a b c :: u8
    unfolding drop_bit_0_iff [symmetric]
    by (rule word_eq_bitwise, simp only: bits64_def bit_simps, simp add: bit_simps)+
  have same: "ucast (push_bit 7 (ucast (a AND 0x7f)) OR ucast b :: u64) =
      (push_bit 7 (ucast (a AND 0x7f)) OR ucast b :: u32)"
    "ucast (push_bit 7 (push_bit 7 (ucast (a AND 0x7f)) OR ucast (b AND 0x7f)) OR ucast c :: u64) =
      (push_bit 14 (ucast (a AND 0x7f)) OR push_bit 7 (ucast (b AND 0x7f)) OR ucast c :: u32)"
    for a b c :: u8
    by (rule bit_word_eqI, auto simp: bit_simps)+
  obtain p0 q where p: "p = p0 # q" using assms(2) by (cases p) auto
  note eqs = p sqlite3GetVarint32_def get_varint_ref and_0x80 fits small [simplified] same [simplified]
  show ?thesis
  proof (cases q)
    case Nil
    then show ?thesis using assms by (simp add: eqs)
  next
    case (Cons p1 r)
    then show ?thesis using assms by (cases r) (simp_all add: eqs)
  qed
qed

text \<open>The four-byte integers, high byte first.\<close>

lemma four_bytes_roundtrip:
  assumes "4 \<le> length p"
  shows "\<exists>q. sqlite3Put4byte p v = Inr q \<and> length q = length p \<and> drop 4 q = drop 4 p \<and>
    take 4 q = [ucast (drop_bit 24 v), ucast (drop_bit 16 v), ucast (drop_bit 8 v), ucast v] \<and>
    sqlite3Get4byte q = Inr v"
proof -
  have bytes: "ucast (bswap32 v) = (ucast (drop_bit 24 v) :: u8)"
    "ucast (drop_bit 8 (bswap32 v)) = (ucast (drop_bit 16 v) :: u8)"
    "ucast (drop_bit 16 (bswap32 v)) = (ucast (drop_bit 8 v) :: u8)"
    "ucast (drop_bit 24 (bswap32 v)) = (ucast v :: u8)"
    by (rule u8_eq_bitwise, simp add: all_less_numeral bswap32_def bit_simps)+
  have whole: "bswap32 (ucast (ucast (drop_bit 24 v) :: u8) OR push_bit 8 (ucast (ucast (drop_bit 16 v) :: u8))
      OR push_bit 16 (ucast (ucast (drop_bit 8 v) :: u8)) OR push_bit 24 (ucast (ucast v :: u8))) = v"
    by (rule u32_eq_bitwise, simp add: all_less_numeral bswap32_def bit_simps)
  obtain a b c d r where "p = a # b # c # d # r"
    using assms by (auto simp: Suc_le_length_iff numeral_eq_Suc)
  then show ?thesis
    by (simp add: sqlite3Put4byte_def store_le32_def sqlite3Get4byte_def load_le32_def bytes whole)
qed

text \<open>The length function is the number of bytes written below \<open>2 ^ 63\<close>, and one too many
  from there on.\<close>

lemma varint_len_top_bit:
  "unat v < 2 ^ 63 \<Longrightarrow> sqlite3VarintLen v = varint_size v"
  "\<not> unat v < 2 ^ 63 \<Longrightarrow> sqlite3VarintLen v = 10 \<and> varint_size v = 9"
proof -
  assume "unat v < 2 ^ 63"
  then have "drop_bit 63 v = 0" by (simp add: drop_bit_0_iff)
  then have "sqlite3VarintLen v \<le> 9" using varint_len_least [of 8 v] by simp
  then show "sqlite3VarintLen v = varint_size v" by (simp add: varint_size_def)
next
  assume big: "\<not> unat v < 2 ^ 63"
  have "\<not> sqlite3VarintLen v \<le> 9"
  proof
    assume le: "sqlite3VarintLen v \<le> 9"
    then have "drop_bit (63 - 7 * sqlite3VarintLen v) (drop_bit (7 * sqlite3VarintLen v) v) = 0"
      by (simp only: varint_len_enough) simp
    then show False using big le by (simp add: drop_bit_0_iff)
  qed
  moreover have "drop_bit 70 v = 0" by (rule bit_word_eqI) (simp add: bit_simps)
  then have "sqlite3VarintLen v \<le> 10" using varint_len_least [of 9 v] by simp
  ultimately show "sqlite3VarintLen v = 10 \<and> varint_size v = 9" by (simp add: varint_size_def)
qed

text \<open>C22. Integers survive their encoding: \<open>sqlite3PutVarint\<close> writes between one and nine
  bytes at the pointer, leaves the memory behind them as it was, and \<open>sqlite3GetVarint\<close> reads
  back the integer and the number of bytes written; \<open>sqlite3GetVarint32\<close> reads the same integer
  when it fits 32 bits and the largest one otherwise.\<close>

theorem varint_roundtrip:
  assumes "varint_size v \<le> length p"
  shows "\<exists>q. sqlite3PutVarint p v = Inr (q, varint_size v) \<and> length q = length p \<and>
     drop (varint_size v) q = drop (varint_size v) p \<and>
     sqlite3GetVarint q = Inr (v, varint_size v) \<and>
     (128 \<le> unat v \<longrightarrow> sqlite3GetVarint32 q =
        Inr (if unat v < 2 ^ 32 then ucast v else 0xffffffff, varint_size v))"
proof (intro exI conjI impI)
  let ?q = "varint_bytes v @ drop (varint_size v) p"
  show "sqlite3PutVarint p v = Inr (?q, varint_size v)" by (rule put_varint_bytes [OF assms])
  show "length ?q = length p" "drop (varint_size v) ?q = drop (varint_size v) p"
    using assms by (simp_all add: length_varint_bytes)
  show get: "sqlite3GetVarint ?q = Inr (v, varint_size v)" by (rule read_varint_bytes)
  assume "128 \<le> unat v"
  then have "drop_bit 7 v \<noteq> 0" by (simp add: drop_bit_0_iff)
  then have "varint_size v \<noteq> 1"
    using varint_len_pos [of "drop_bit 7 v"] by (simp add: varint_size_def varint_len_rec [of v] min_def)
  then have "varint_size v = Suc (Suc (varint_size v - 2))"
    using varint_size_bounds(1) [of v] by simp
  then obtain k where k: "varint_size v = Suc (Suc k)" by blast
  have "bit (?q ! 0) 7"
    using high_groups_first [of "Suc k" "drop_bit 7 v"] high_groups_first [of 8 "drop_bit 8 v"] k
    by (simp add: varint_bytes_def nth_append del: high_groups.simps)
  moreover have "?q \<noteq> []" using k length_varint_bytes [of v] by auto
  ultimately show "sqlite3GetVarint32 ?q =
      Inr (if unat v < 2 ^ 32 then ucast v else 0xffffffff, varint_size v)"
    by (simp add: get_varint32 get)
qed

theorem varint_roundtrip_witness:
  "\<exists>q. sqlite3PutVarint [1, 2, 3] 300 = Inr (q, 2) \<and> drop 2 q = [3] \<and> sqlite3GetVarint q = Inr (300, 2)"
proof -
  have n: "varint_size 300 = 2"
    by (simp add: varint_size_def varint_len_rec [of 300] varint_len_rec [of 2])
  from varint_roundtrip [of 300 "[1, 2, 3]"] show ?thesis by (auto simp: n)
qed

end
