(* ===== verification/SqliteHash.thy ===== *)
theory SqliteHash
  imports SqliteCtype
begin

text \<open>
  The hash table of SQLite's symbol tables, hash.c and hash.h inside
  components/Ledger/src/sqlite3.c: the elements are one doubly linked list in memory, and the
  table of buckets points to the first element of each bucket's stretch of the list and counts
  it.  The state is the structure together with the memory of the elements.  The counters are
  32 bits wide.  Allocation is an argument: the address of a fresh element, or the number of
  buckets that really fit an allocated table.
\<close>

section \<open>State\<close>

record 'd hash_elem =
  he_next :: "nat option"
  he_prev :: "nat option"
  he_data :: "'d option"
  pKey :: string

type_synonym 'd elems = "nat \<rightharpoonup> 'd hash_elem"

record 'd hash =
  htsize :: nat
  hcount :: nat
  hfirst :: "nat option"
  ht :: "(nat \<times> nat option) list option"
  heap :: "'d elems"

definition inc32 :: "nat \<Rightarrow> nat" where "inc32 n = (n + 1) mod 4294967296"
definition dec32 :: "nat \<Rightarrow> nat" where "dec32 n = (if n = 0 then 4294967295 else n - 1)"
definition dbl32 :: "nat \<Rightarrow> nat" where "dbl32 n = (n * 2) mod 4294967296"

text \<open>Access through a pointer.\<close>

definition deref :: "'d elems \<Rightarrow> nat option \<Rightarrow> 'd hash_elem res" where
  "deref h p = (case p of None \<Rightarrow> Inl NullDeref
     | Some a \<Rightarrow> (case h a of None \<Rightarrow> Inl OutOfBounds | Some e \<Rightarrow> Inr e))"

definition put_elem :: "'d elems \<Rightarrow> nat option \<Rightarrow> ('d hash_elem \<Rightarrow> 'd hash_elem) \<Rightarrow> 'd elems res" where
  "put_elem h p f = bind_res (deref h p) (\<lambda>e. Inr (h(the p \<mapsto> f e)))"

section \<open>Operations\<close>

definition sqlite3HashInit :: "'d elems \<Rightarrow> 'd hash" where
  "sqlite3HashInit mem = \<lparr>htsize = 0, hcount = 0, hfirst = None, ht = None, heap = mem\<rparr>"

partial_function (option) clear_loop :: "'d elems \<Rightarrow> nat option \<Rightarrow> 'd elems res option" where
  "clear_loop h elem =
     (case elem of
        None \<Rightarrow> Some (Inr h)
      | Some a \<Rightarrow> (case h a of
            None \<Rightarrow> Some (Inl OutOfBounds)
          | Some e \<Rightarrow> clear_loop (h(a := None)) (he_next e)))"

text \<open>A loop that does not end is the fault \<open>NoReturn\<close>.\<close>

definition returns :: "'a res option \<Rightarrow> 'a res" where
  "returns r = (case r of None \<Rightarrow> Inl NoReturn | Some x \<Rightarrow> x)"

definition sqlite3HashClear :: "'d hash \<Rightarrow> 'd hash res" where
  "sqlite3HashClear H =
     bind_res (returns (clear_loop (heap H) (hfirst H))) (\<lambda>h.
     Inr (H\<lparr>hfirst := None, ht := None, htsize := 0, hcount := 0, heap := h\<rparr>))"

fun strHash_loop :: "u32 \<Rightarrow> string \<Rightarrow> u32" where
  "strHash_loop h [] = h"
| "strHash_loop h (c # z) = strHash_loop ((h + word_of_int (sqlite3Tolower c)) * 0x9e3779b1) z"

definition strHash :: "string \<Rightarrow> nat" where
  "strHash z = unat (strHash_loop 0 z)"

text \<open>The list half of \<open>insertElement\<close>: \<open>a\<close> goes before \<open>p\<close>, or to the front \<open>f\<close> of the list;
  memory and front afterwards.\<close>

definition link_before :: "'d elems \<Rightarrow> nat option \<Rightarrow> nat \<Rightarrow> nat option \<Rightarrow> ('d elems \<times> nat option) res" where
  "link_before h p a f =
     (if p \<noteq> None then
       bind_res (deref h p) (\<lambda>e.
       bind_res (put_elem h (Some a) (\<lambda>n. n\<lparr>he_next := p, he_prev := he_prev e\<rparr>)) (\<lambda>h.
       bind_res (if he_prev e \<noteq> None
                 then bind_res (put_elem h (he_prev e) (\<lambda>n. n\<lparr>he_next := Some a\<rparr>)) (\<lambda>h. Inr (h, f))
                 else Inr (h, Some a)) (\<lambda>(h, f).
       bind_res (put_elem h p (\<lambda>n. n\<lparr>he_prev := Some a\<rparr>)) (\<lambda>h. Inr (h, f)))))
      else
       bind_res (put_elem h (Some a) (\<lambda>n. n\<lparr>he_next := f\<rparr>)) (\<lambda>h.
       bind_res (if f \<noteq> None then put_elem h f (\<lambda>n. n\<lparr>he_prev := Some a\<rparr>) else Inr h) (\<lambda>h.
       bind_res (put_elem h (Some a) (\<lambda>n. n\<lparr>he_prev := None\<rparr>)) (\<lambda>h. Inr (h, Some a)))))"

definition insertElement :: "'d hash \<Rightarrow> nat option \<Rightarrow> nat \<Rightarrow> 'd hash res" where
  "insertElement H pEntry pNew =
     bind_res (case pEntry of
         None \<Rightarrow> Inr (H, None)
       | Some b \<Rightarrow> (case ht H of
           None \<Rightarrow> Inl NullDeref
         | Some T \<Rightarrow> bind_res (nth_res T b) (\<lambda>(cnt, chain).
             Inr (H\<lparr>ht := Some (T[b := (inc32 cnt, Some pNew)])\<rparr>, if cnt \<noteq> 0 then chain else None)))) (\<lambda>(H, pHead).
     bind_res (link_before (heap H) pHead pNew (hfirst H)) (\<lambda>(h, f).
     Inr (H\<lparr>heap := h, hfirst := f\<rparr>)))"

definition SQLITE_MALLOC_SOFT_LIMIT :: nat where "SQLITE_MALLOC_SOFT_LIMIT = 1024"
definition sizeof_ht :: nat where "sizeof_ht = 16"

partial_function (option) rehash_loop :: "'d hash \<Rightarrow> nat option \<Rightarrow> 'd hash res option" where
  "rehash_loop H elem =
     (case elem of
        None \<Rightarrow> Some (Inr H)
      | Some a \<Rightarrow> (case heap H a of
            None \<Rightarrow> Some (Inl OutOfBounds)
          | Some e \<Rightarrow>
              (case insertElement H (Some (strHash (pKey e) mod htsize H)) a of
                 Inl f \<Rightarrow> Some (Inl f)
               | Inr H' \<Rightarrow> rehash_loop H' (he_next e))))"

definition rehash :: "(nat \<Rightarrow> nat option) \<Rightarrow> 'd hash \<Rightarrow> nat \<Rightarrow> ('d hash \<times> bool) res" where
  "rehash grow H new_size =
     (let new_size = (if new_size * sizeof_ht > SQLITE_MALLOC_SOFT_LIMIT
                      then SQLITE_MALLOC_SOFT_LIMIT div sizeof_ht else new_size)
      in if new_size = htsize H then Inr (H, False)
         else (case grow new_size of
                 None \<Rightarrow> Inr (H, False)
               | Some n \<Rightarrow>
                   bind_res (returns (rehash_loop
                       (H\<lparr>ht := Some (replicate n (0, None)), htsize := n, hfirst := None\<rparr>) (hfirst H))) (\<lambda>H'.
                   Inr (H', True))))"

fun find_loop :: "'d elems \<Rightarrow> string \<Rightarrow> nat option \<Rightarrow> nat \<Rightarrow> nat option res" where
  "find_loop h key elem 0 = Inr None"
| "find_loop h key elem (Suc count) =
     bind_res (deref h elem) (\<lambda>e.
       if sqlite3StrICmp (pKey e) key = 0 then Inr elem else find_loop h key (he_next e) count)"

text \<open>No element stands for the static null element, whose data is null.\<close>

definition findElementWithHash :: "'d hash \<Rightarrow> string \<Rightarrow> (nat option \<times> nat) res" where
  "findElementWithHash H key =
     (case ht H of
        Some T \<Rightarrow>
          (let h = strHash key mod htsize H in
           bind_res (nth_res T h) (\<lambda>(count, chain).
           bind_res (find_loop (heap H) key chain count) (\<lambda>elem. Inr (elem, h))))
      | None \<Rightarrow> bind_res (find_loop (heap H) key (hfirst H) (hcount H)) (\<lambda>elem. Inr (elem, 0)))"

definition elem_data :: "'d hash \<Rightarrow> nat option \<Rightarrow> 'd option res" where
  "elem_data H elem = (if elem = None then Inr None else bind_res (deref (heap H) elem) (\<lambda>e. Inr (he_data e)))"

text \<open>The list half of \<open>removeElementGivenHash\<close>: the neighbours of the element skip it; memory and
  front \<open>f\<close> of the list afterwards.\<close>

definition unlink :: "'d elems \<Rightarrow> 'd hash_elem \<Rightarrow> nat option \<Rightarrow> ('d elems \<times> nat option) res" where
  "unlink h e f =
     bind_res (if he_prev e \<noteq> None
               then bind_res (put_elem h (he_prev e) (\<lambda>p. p\<lparr>he_next := he_next e\<rparr>)) (\<lambda>m. Inr (m, f))
               else Inr (h, he_next e)) (\<lambda>(m, f).
     bind_res (if he_next e \<noteq> None then put_elem m (he_next e) (\<lambda>n. n\<lparr>he_prev := he_prev e\<rparr>) else Inr m) (\<lambda>m.
     Inr (m, f)))"

definition removeElementGivenHash :: "'d hash \<Rightarrow> nat \<Rightarrow> nat \<Rightarrow> 'd hash res" where
  "removeElementGivenHash H elem h =
     bind_res (deref (heap H) (Some elem)) (\<lambda>e.
     bind_res (unlink (heap H) e (hfirst H)) (\<lambda>(m, f).
     bind_res (case ht H of
         None \<Rightarrow> Inr None
       | Some T \<Rightarrow> bind_res (nth_res T h) (\<lambda>(cnt, chain).
           Inr (Some (T[h := (dec32 cnt, if chain = Some elem then he_next e else chain)])))) (\<lambda>T.
     let H = H\<lparr>heap := m(elem := None), hfirst := f, ht := T, hcount := dec32 (hcount H)\<rparr>
     in if hcount H = 0 then sqlite3HashClear H else Inr H)))"

definition sqlite3HashFind :: "'d hash \<Rightarrow> string \<Rightarrow> 'd option res" where
  "sqlite3HashFind H key = bind_res (findElementWithHash H key) (\<lambda>(elem, _). elem_data H elem)"

text \<open>\<open>alloc\<close> is the address of the new element, if there is one.\<close>

definition sqlite3HashInsert ::
  "nat option \<Rightarrow> (nat \<Rightarrow> nat option) \<Rightarrow> 'd hash \<Rightarrow> string \<Rightarrow> 'd option \<Rightarrow> ('d hash \<times> 'd option) res" where
  "sqlite3HashInsert alloc grow H key data =
     bind_res (findElementWithHash H key) (\<lambda>(elem, h).
     bind_res (elem_data H elem) (\<lambda>old_data.
     if old_data \<noteq> None then
       (if data = None
        then bind_res (removeElementGivenHash H (the elem) h) (\<lambda>H. Inr (H, old_data))
        else bind_res (put_elem (heap H) elem (\<lambda>e. e\<lparr>he_data := data, pKey := key\<rparr>)) (\<lambda>m.
             Inr (H\<lparr>heap := m\<rparr>, old_data)))
     else if data = None then Inr (H, None)
     else (case alloc of
        None \<Rightarrow> Inr (H, data)
      | Some a \<Rightarrow>
          let H = H\<lparr>heap := (heap H)(a \<mapsto> \<lparr>he_next = None, he_prev = None, he_data = data, pKey = key\<rparr>),
                    hcount := inc32 (hcount H)\<rparr> in
          bind_res (if hcount H \<ge> 10 \<and> hcount H > dbl32 (htsize H)
                    then bind_res (rehash grow H (dbl32 (hcount H))) (\<lambda>(H, did).
                         Inr (H, if did then strHash key mod htsize H else h))
                    else Inr (H, h)) (\<lambda>(H, h).
          bind_res (insertElement H (if ht H = None then None else Some h) a) (\<lambda>H. Inr (H, None))))))"

section \<open>The list in memory\<close>

fun head_ptr :: "nat list \<Rightarrow> nat option \<Rightarrow> nat option" where
  "head_ptr [] q = q"
| "head_ptr (x # xs) q = Some x"

fun last_ptr :: "nat option \<Rightarrow> nat list \<Rightarrow> nat option" where
  "last_ptr p [] = p"
| "last_ptr p (x # xs) = last_ptr (Some x) xs"

text \<open>\<open>dll h p xs q\<close>: the elements at the addresses \<open>xs\<close> are linked both ways, \<open>p\<close> before
  them and \<open>q\<close> behind.  \<open>chain h xs\<close> only follows the forward links to the end.\<close>

fun dll :: "'d elems \<Rightarrow> nat option \<Rightarrow> nat list \<Rightarrow> nat option \<Rightarrow> bool" where
  "dll h p [] q \<longleftrightarrow> True"
| "dll h p (x # xs) q \<longleftrightarrow>
     (\<exists>e. h x = Some e \<and> he_prev e = p \<and> he_next e = head_ptr xs q) \<and> dll h (Some x) xs q"

fun chain :: "'d elems \<Rightarrow> nat list \<Rightarrow> bool" where
  "chain h [] \<longleftrightarrow> True"
| "chain h (x # xs) \<longleftrightarrow> (\<exists>e. h x = Some e \<and> he_next e = head_ptr xs None) \<and> chain h xs"

lemma head_ptr_append [simp]: "head_ptr (xs @ ys) q = head_ptr xs (head_ptr ys q)"
  by (cases xs) simp_all

lemma last_ptr_append [simp]: "last_ptr p (xs @ ys) = last_ptr (last_ptr p xs) ys"
  by (induction xs arbitrary: p) simp_all

lemma last_ptr_snoc_cases: "xs = [] \<or> (\<exists>ys y. xs = ys @ [y])"
  by (cases xs rule: rev_cases) simp_all

lemma dll_append [simp]:
  "dll h p (xs @ ys) q \<longleftrightarrow> dll h p xs (head_ptr ys q) \<and> dll h (last_ptr p xs) ys q"
  by (induction xs arbitrary: p) auto

lemma dll_frame: "(\<And>x. x \<in> set xs \<Longrightarrow> h' x = h x) \<Longrightarrow> dll h' p xs q = dll h p xs q"
  by (induction xs arbitrary: p) auto

lemma chain_frame: "(\<And>x. x \<in> set xs \<Longrightarrow> h' x = h x) \<Longrightarrow> chain h' xs = chain h xs"
  by (induction xs) auto

lemma dll_upd [simp]: "x \<notin> set xs \<Longrightarrow> dll (h(x := v)) p xs q = dll h p xs q"
  by (rule dll_frame) auto

lemma links_upd [simp]: "x \<notin> set xs \<Longrightarrow> chain (h(x := v)) xs = chain h xs"
  by (rule chain_frame) auto

lemma dll_chain: "dll h p xs None \<Longrightarrow> chain h xs"
  by (induction xs arbitrary: p) auto

lemma dll_alloc: "dll h p xs q \<Longrightarrow> x \<in> set xs \<Longrightarrow> h x \<noteq> None"
  by (induction xs arbitrary: p) auto

text \<open>Key and data of the elements, which linking does not change.\<close>

definition payload :: "'d elems \<Rightarrow> nat \<Rightarrow> (string \<times> 'd option) option" where
  "payload h x = map_option (\<lambda>e. (pKey e, he_data e)) (h x)"

lemma payload_upd_link:
  "h x = Some e \<Longrightarrow> pKey e' = pKey e \<Longrightarrow> he_data e' = he_data e \<Longrightarrow> payload (h(x \<mapsto> e')) = payload h"
  by (auto simp add: payload_def fun_eq_iff)

section \<open>Linking and unlinking\<close>

text \<open>A new element before the rest of the list.\<close>

lemma deref_Some [simp]: "h a = Some e \<Longrightarrow> deref h (Some a) = Inr e"
  by (simp add: deref_def)

lemma put_elem_Some [simp]: "h a = Some e \<Longrightarrow> put_elem h (Some a) f = Inr (h(a \<mapsto> f e))"
  by (simp add: put_elem_def)

text \<open>What linking promises: the list grows by one, everything else in memory stays.\<close>

definition linked :: "'d elems \<Rightarrow> nat list \<Rightarrow> nat \<Rightarrow> nat list \<Rightarrow> 'd elems \<Rightarrow> nat option \<Rightarrow> bool" where
  "linked h A a B h' f' \<longleftrightarrow> dll h' None (A @ a # B) None \<and> f' = head_ptr (A @ a # B) None \<and>
     payload h' = payload h \<and> (\<forall>y. y \<noteq> a \<longrightarrow> y \<notin> set (A @ B) \<longrightarrow> h' y = h y)"

lemma link_before_front:
  assumes "dll h None L None" "h a = Some e" "a \<notin> set L" "distinct L"
  shows "\<exists>h' f'. link_before h None a (head_ptr L None) = Inr (h', f') \<and> linked h [] a L h' f'"
proof (cases L)
  case Nil
  then show ?thesis using assms by (auto simp add: link_before_def linked_def payload_upd_link)
next
  case (Cons b B)
  obtain eb where b: "h b = Some eb" "he_prev eb = None" "he_next eb = head_ptr B None"
    using assms(1) Cons by auto
  show ?thesis
    using assms b Cons by (auto simp add: link_before_def linked_def payload_upd_link)
qed

lemma link_before_inner:
  assumes "dll h None (A @ b # B) None" "h a = Some e" "a \<notin> set (A @ b # B)" "distinct (A @ b # B)"
  shows "\<exists>h' f'. link_before h (Some b) a (head_ptr (A @ b # B) None) = Inr (h', f') \<and>
    linked h A a (b # B) h' f'"
proof -
  obtain eb where b: "h b = Some eb" "he_prev eb = last_ptr None A" "he_next eb = head_ptr B None"
    using assms(1) by auto
  show ?thesis
  proof (cases A rule: rev_cases)
    case Nil
    then show ?thesis
      using assms b by (auto simp add: link_before_def linked_def payload_upd_link)
  next
    case (snoc ys y)
    obtain ey where y: "h y = Some ey" "he_prev ey = last_ptr None ys" "he_next ey = Some b"
      using assms(1) snoc by auto
    show ?thesis
      using assms b y snoc by (auto simp add: link_before_def linked_def payload_upd_link)
  qed
qed

section \<open>Buckets\<close>

text \<open>The elements of a bucket are one stretch of the list; the bucket holds its length and,
  unless it is empty, its first element.\<close>

definition block :: "(nat \<Rightarrow> nat) \<Rightarrow> nat \<Rightarrow> nat list \<Rightarrow> nat \<times> nat option \<Rightarrow> bool" where
  "block f b L e \<longleftrightarrow> (\<exists>A B C. L = A @ B @ C \<and> (\<forall>x\<in>set B. f x = b) \<and> (\<forall>x\<in>set A \<union> set C. f x \<noteq> b) \<and>
     fst e = length B \<and> (B \<noteq> [] \<longrightarrow> snd e = head_ptr B None))"

lemma blockI:
  "L = A @ B @ C \<Longrightarrow> (\<And>x. x \<in> set B \<Longrightarrow> f x = b) \<Longrightarrow> (\<And>x. x \<in> set A \<Longrightarrow> f x \<noteq> b) \<Longrightarrow>
   (\<And>x. x \<in> set C \<Longrightarrow> f x \<noteq> b) \<Longrightarrow> fst e = length B \<Longrightarrow> (B \<noteq> [] \<Longrightarrow> snd e = head_ptr B None) \<Longrightarrow>
   block f b L e"
  unfolding block_def by blast

lemma blockE:
  assumes "block f b L e"
  obtains A B C where "L = A @ B @ C" "\<forall>x\<in>set B. f x = b" "\<forall>x\<in>set A. f x \<noteq> b"
    "\<forall>x\<in>set C. f x \<noteq> b" "fst e = length B" "B \<noteq> [] \<Longrightarrow> snd e = head_ptr B None"
  using assms unfolding block_def by blast

lemma block_insert_empty:
  assumes "block f b L (0, c)" "f a = b"
  shows "block f b (a # L) (Suc 0, Some a)"
  using assms(1)
proof (rule blockE)
  fix A B C
  assume "L = A @ B @ C" "\<forall>x\<in>set A. f x \<noteq> b" "\<forall>x\<in>set C. f x \<noteq> b"
    "fst (0, c) = length B"
  then show ?thesis using assms(2) by (intro blockI [of _ "[]" "[a]" L]) auto
qed

lemma block_insert_other:
  assumes "block f b (X @ Y) e" "f a \<noteq> b" "X = [] \<or> (\<exists>y Z. Y = y # Z \<and> f y \<noteq> b)"
  shows "block f b (X @ a # Y) e"
  using assms(1)
proof (rule blockE)
  fix A B C
  assume l: "X @ Y = A @ B @ C" and B: "\<forall>x\<in>set B. f x = b" "\<forall>x\<in>set A. f x \<noteq> b"
    "\<forall>x\<in>set C. f x \<noteq> b" and e: "fst e = length B" "B \<noteq> [] \<Longrightarrow> snd e = head_ptr B None"
  show ?thesis
  proof (cases "X = []")
    case True
    then show ?thesis using l B e assms(2) by (intro blockI [of _ "a # A" B C]) auto
  next
    case False
    then obtain y Z where Y: "Y = y # Z" "f y \<noteq> b" using assms(3) by blast
    from l obtain us where
      "X @ us = A \<and> Y = us @ B @ C \<or> X = A @ us \<and> us @ Y = B @ C"
      unfolding append_eq_append_conv2 by metis
    then show ?thesis
    proof (elim disjE conjE)
      assume "X @ us = A" "Y = us @ B @ C"
      then show ?thesis using B e assms(2) by (intro blockI [of _ "X @ a # us" B C]) auto
    next
      assume X: "X = A @ us" "us @ Y = B @ C"
      then obtain vs where
        "us @ vs = B \<and> Y = vs @ C \<or> us = B @ vs \<and> vs @ Y = C"
        unfolding append_eq_append_conv2 by metis
      then show ?thesis
      proof (elim disjE conjE)
        assume v: "us @ vs = B" "Y = vs @ C"
        have "vs = []" using v Y B(1) by (cases vs) auto
        then show ?thesis using X v B e assms(2) by (intro blockI [of _ A B "a # C"]) auto
      next
        assume "us = B @ vs" "vs @ Y = C"
        then show ?thesis using X B e assms(2) by (intro blockI [of _ A B "vs @ a # Y"]) auto
      qed
    qed
  qed
qed

lemma block_cong:
  assumes "block f b L e" "\<And>x. x \<in> set L \<Longrightarrow> g x = f x"
  shows "block g b L e"
  using assms(1) by (rule blockE) (rule blockI, auto simp add: assms(2))

section \<open>The table\<close>

definition key_at :: "'d elems \<Rightarrow> nat \<Rightarrow> string" where
  "key_at h x = fst (the (payload h x))"

definition bucket_of :: "'d elems \<Rightarrow> nat \<Rightarrow> nat \<Rightarrow> nat" where
  "bucket_of h n x = strHash (key_at h x) mod n"

lemma bucket_of_payload: "payload h' = payload h \<Longrightarrow> bucket_of h' = bucket_of h"
  by (simp add: bucket_of_def key_at_def fun_eq_iff)

definition table_ok :: "'d hash \<Rightarrow> nat list \<Rightarrow> bool" where
  "table_ok H L \<longleftrightarrow> dll (heap H) None L None \<and> hfirst H = head_ptr L None \<and> distinct L \<and>
     (case ht H of None \<Rightarrow> htsize H = 0
      | Some T \<Rightarrow> htsize H = length T \<and> T \<noteq> [] \<and>
          (\<forall>b<length T. block (bucket_of (heap H) (length T)) b L (T ! b)))"

definition entry_for :: "'d hash \<Rightarrow> string \<Rightarrow> nat option" where
  "entry_for H key = (if ht H = None then None else Some (strHash key mod htsize H))"

lemma insertElement_ok:
  assumes "table_ok H L" "heap H a = Some e" "a \<notin> set L" "length L < 4294967295"
  shows "\<exists>H' A B. insertElement H (entry_for H (pKey e)) a = Inr H' \<and> L = A @ B \<and>
    table_ok H' (A @ a # B) \<and> payload (heap H') = payload (heap H) \<and> hcount H' = hcount H \<and>
    (ht H' = None) = (ht H = None) \<and> htsize H' = htsize H \<and>
    (\<forall>y. y \<noteq> a \<longrightarrow> y \<notin> set L \<longrightarrow> heap H' y = heap H y)"
proof (cases "ht H")
  case None
  have L: "dll (heap H) None L None" "hfirst H = head_ptr L None" "distinct L" "htsize H = 0"
    using assms(1) None by (simp_all add: table_ok_def)
  obtain h' f' where l: "link_before (heap H) None a (head_ptr L None) = Inr (h', f')"
    "linked (heap H) [] a L h' f'"
    using link_before_front [OF L(1) assms(2,3) L(3)] by blast
  have "insertElement H (entry_for H (pKey e)) a = Inr (H\<lparr>heap := h', hfirst := f'\<rparr>)"
    using l(1) L(2) None by (simp add: insertElement_def entry_for_def)
  moreover have "table_ok (H\<lparr>heap := h', hfirst := f'\<rparr>) ([] @ a # L)"
    using l(2) L assms(3) None by (simp add: table_ok_def linked_def)
  ultimately show ?thesis
    using l(2) by (intro exI [of _ "H\<lparr>heap := h', hfirst := f'\<rparr>"] exI [of _ "[]"] exI [of _ L])
      (simp add: linked_def)
next
  case (Some T)
  define n b where "n = length T" and "b = strHash (pKey e) mod n"
  have L: "dll (heap H) None L None" "hfirst H = head_ptr L None" "distinct L" "htsize H = n" "0 < n"
    and T: "\<And>c. c < n \<Longrightarrow> block (bucket_of (heap H) n) c L (T ! c)"
    using assms(1) Some by (simp_all add: table_ok_def n_def)
  have b: "b < n" "bucket_of (heap H) n a = b"
    using L(5) assms(2) by (simp_all add: b_def bucket_of_def key_at_def payload_def)
  have en: "entry_for H (pKey e) = Some b" using Some L(4) by (simp add: entry_for_def b_def)
  obtain cnt c where tb: "T ! b = (cnt, c)" by fastforce
  define T' where "T' = T[b := (inc32 cnt, Some a)]"
  have len: "length T' = n" by (simp add: T'_def n_def)
  have core: "\<exists>h' f' A B. link_before (heap H) (if cnt \<noteq> 0 then c else None) a (hfirst H) = Inr (h', f') \<and>
      L = A @ B \<and> linked (heap H) A a B h' f' \<and> block (bucket_of (heap H) n) b (A @ a # B) (inc32 cnt, Some a) \<and>
      (A = [] \<or> (\<exists>y Z. B = y # Z \<and> bucket_of (heap H) n y = b))"
    using T [OF b(1)]
  proof (rule blockE)
    fix A B C
    assume bl: "L = A @ B @ C" "\<forall>x\<in>set B. bucket_of (heap H) n x = b"
      "\<forall>x\<in>set A. bucket_of (heap H) n x \<noteq> b" "\<forall>x\<in>set C. bucket_of (heap H) n x \<noteq> b"
      "fst (T ! b) = length B" "B \<noteq> [] \<Longrightarrow> snd (T ! b) = head_ptr B None"
    have inc: "inc32 cnt = Suc cnt" using bl(1,5) assms(4) tb by (simp add: inc32_def)
    show ?thesis
    proof (cases B)
      case Nil
      then have cnt: "cnt = 0" using bl(5) tb by simp
      have "block (bucket_of (heap H) n) b (a # L) (Suc 0, Some a)"
        using T [OF b(1)] tb cnt b(2) by (intro block_insert_empty) auto
      then show ?thesis
        using link_before_front [OF L(1) assms(2,3) L(3)] cnt inc L(2) by fastforce
    next
      case (Cons x B')
      then have cnt: "cnt = length B" "cnt \<noteq> 0" "c = Some x" using bl(5,6) tb by simp_all
      obtain h' f' where l: "link_before (heap H) (Some x) a (head_ptr L None) = Inr (h', f')"
          "linked (heap H) A a (B @ C) h' f'"
        using link_before_inner [of "heap H" A x "B' @ C" a e] L(1,3) assms(2,3) bl(1) Cons by auto
      have "block (bucket_of (heap H) n) b (A @ a # B @ C) (inc32 cnt, Some a)"
        using bl b(2) cnt inc by (intro blockI [of _ A "a # B" C]) auto
      then show ?thesis
        using l cnt L(2) bl(1,2) Cons by (intro exI [of _ h'] exI [of _ f'] exI [of _ A] exI [of _ "B @ C"]) simp
    qed
  qed
  then obtain h' f' A B where k: "link_before (heap H) (if cnt \<noteq> 0 then c else None) a (hfirst H) = Inr (h', f')"
      "L = A @ B" "linked (heap H) A a B h' f'" "block (bucket_of (heap H) n) b (A @ a # B) (inc32 cnt, Some a)"
      "A = [] \<or> (\<exists>y Z. B = y # Z \<and> bucket_of (heap H) n y = b)" by blast
  define H' where "H' = H\<lparr>ht := Some T', heap := h', hfirst := f'\<rparr>"
  have "insertElement H (entry_for H (pKey e)) a = Inr H'"
    using k(1) b(1) Some tb en by (simp add: insertElement_def n_def T'_def H'_def)
  moreover have "block (bucket_of h' n) d (A @ a # B) (T' ! d)" if d: "d < n" for d
  proof -
    have eq: "bucket_of h' n = bucket_of (heap H) n" using k(3) bucket_of_payload by (metis linked_def)
    show ?thesis
    proof (cases "d = b")
      case True
      then show ?thesis using k(4) d unfolding eq by (simp add: T'_def n_def)
    next
      case False
      have "block (bucket_of (heap H) n) d (A @ a # B) (T ! d)"
        using T [OF d] k(2,5) b(2) False by (intro block_insert_other) auto
      then show ?thesis using False by (simp add: eq T'_def)
    qed
  qed
  then have "table_ok H' (A @ a # B)"
    using k(2,3) L assms(3) len by (auto simp add: table_ok_def linked_def H'_def)
  ultimately show ?thesis
    using k(2,3) Some by (intro exI [of _ H'] exI [of _ A] exI [of _ B]) (auto simp add: linked_def H'_def)
qed

section \<open>Rebuilding, searching and removing\<close>

lemma rehash_loop_ok:
  assumes "table_ok H N" "ht H \<noteq> None" "chain (heap H) R" "distinct R" "set R \<inter> set N = {}"
    "length N + length R < 4294967295"
  shows "\<exists>H' L. rehash_loop H (head_ptr R None) = Some (Inr H') \<and> table_ok H' L \<and> ht H' \<noteq> None \<and>
    set L = set N \<union> set R \<and> length L = length N + length R \<and> payload (heap H') = payload (heap H) \<and>
    hcount H' = hcount H \<and> htsize H' = htsize H \<and>
    (\<forall>y. y \<notin> set N \<union> set R \<longrightarrow> heap H' y = heap H y)"
  using assms
proof (induction R arbitrary: H N)
  case Nil
  then show ?case by (subst rehash_loop.simps) auto
next
  case (Cons a R)
  obtain e where e: "heap H a = Some e" "he_next e = head_ptr R None" "chain (heap H) R"
    using Cons.prems(3) by auto
  have n: "a \<notin> set N" "length N < 4294967295" using Cons.prems(5,6) by auto
  obtain H1 A B where i: "insertElement H (entry_for H (pKey e)) a = Inr H1" "N = A @ B"
      "table_ok H1 (A @ a # B)" "payload (heap H1) = payload (heap H)" "hcount H1 = hcount H"
      "(ht H1 = None) = (ht H = None)" "htsize H1 = htsize H"
      "\<forall>y. y \<noteq> a \<longrightarrow> y \<notin> set N \<longrightarrow> heap H1 y = heap H y"
    using insertElement_ok [OF Cons.prems(1) e(1) n] by (elim exE conjE) (rule that)
  have "heap H1 x = heap H x" if "x \<in> set R" for x
  proof -
    have "x \<noteq> a" "x \<notin> set N" using that Cons.prems(4,5) by auto
    then show ?thesis using i(8) by simp
  qed
  with e(3) have c: "chain (heap H1) R" using chain_frame [of R "heap H1" "heap H"] by simp
  have disj: "set R \<inter> set (A @ a # B) = {}" "distinct R" "ht H1 \<noteq> None"
      "length (A @ a # B) + length R < 4294967295"
    using Cons.prems(2,4,5,6) i(2,6) by auto
  have "\<exists>H' L. rehash_loop H1 (head_ptr R None) = Some (Inr H') \<and> table_ok H' L \<and> ht H' \<noteq> None \<and>
      set L = set (A @ a # B) \<union> set R \<and> length L = length (A @ a # B) + length R \<and>
      payload (heap H') = payload (heap H1) \<and> hcount H' = hcount H1 \<and> htsize H' = htsize H1 \<and>
      (\<forall>y. y \<notin> set (A @ a # B) \<union> set R \<longrightarrow> heap H' y = heap H1 y)"
    by (rule Cons.IH [OF i(3) disj(3) c disj(2,1,4)])
  then obtain H' L where r: "rehash_loop H1 (head_ptr R None) = Some (Inr H')" "table_ok H' L" "ht H' \<noteq> None"
      "set L = set (A @ a # B) \<union> set R" "length L = length (A @ a # B) + length R"
      "payload (heap H') = payload (heap H1)" "hcount H' = hcount H1" "htsize H' = htsize H1"
      "\<forall>y. y \<notin> set (A @ a # B) \<union> set R \<longrightarrow> heap H' y = heap H1 y" by blast
  have "rehash_loop H (head_ptr (a # R) None) = Some (Inr H')"
    using e(1,2) i(1) r(1) Cons.prems(2) by (subst rehash_loop.simps) (simp add: entry_for_def)
  moreover have "set L = set N \<union> set (a # R)" "length L = length N + length (a # R)"
      "payload (heap H') = payload (heap H)" "hcount H' = hcount H" "htsize H' = htsize H"
    using r(4-8) i(2,4,5,7) by auto
  moreover have "heap H' y = heap H y" if "y \<notin> set N \<union> set (a # R)" for y
    using that r(9) i(2,8) by auto
  ultimately show ?case using r(2,3) by blast
qed

lemma find_append: "find P (xs @ ys) = (case find P xs of None \<Rightarrow> find P ys | Some x \<Rightarrow> Some x)"
  by (induction xs) simp_all

lemma find_loop_ok:
  "dll h p (B @ C) q \<Longrightarrow> is_cstr key \<Longrightarrow> \<forall>x\<in>set B. is_cstr (key_at h x) \<Longrightarrow>
   find_loop h key (head_ptr (B @ C) q) (length B) = Inr (find (\<lambda>x. fold_case (key_at h x) = fold_case key) B)"
proof (induction B arbitrary: p)
  case (Cons x B)
  then obtain e where e: "h x = Some e" "he_next e = head_ptr (B @ C) q" by auto
  have "key_at h x = pKey e" using e by (simp add: key_at_def payload_def)
  moreover have "dll h (Some x) (B @ C) q" using Cons.prems(1) by simp
  ultimately show ?case using Cons.IH [of "Some x"] Cons.prems e by (simp add: StrICmp_eq_0)
qed simp

lemma strHash_fold: "fold_case a = fold_case b \<Longrightarrow> strHash a = strHash b"
proof -
  have "fold_case a = fold_case b \<Longrightarrow> strHash_loop h a = strHash_loop h b" for h
  proof (induction a arbitrary: b h)
    case Nil
    then show ?case by (cases b) simp_all
  next
    case (Cons c s)
    then obtain e t where b: "b = e # t" "sqlite3Tolower c = sqlite3Tolower e" "fold_case s = fold_case t"
      by (cases b) auto
    show ?case unfolding b(1) strHash_loop.simps b(2) by (rule Cons.IH [OF b(3)])
  qed
  then show "fold_case a = fold_case b \<Longrightarrow> strHash a = strHash b" by (simp add: strHash_def)
qed

lemma findElementWithHash_ok:
  assumes "table_ok H L" "hcount H = length L" "is_cstr key" "\<forall>x\<in>set L. is_cstr (key_at (heap H) x)"
  shows "\<exists>h. findElementWithHash H key =
      Inr (find (\<lambda>x. fold_case (key_at (heap H) x) = fold_case key) L, h) \<and>
    (ht H \<noteq> None \<longrightarrow> h = strHash key mod htsize H)"
proof (cases "ht H")
  case None
  then show ?thesis
    using find_loop_ok [of "heap H" None L "[]" None key] assms
    by (simp add: findElementWithHash_def table_ok_def)
next
  case (Some T)
  define b where "b = strHash key mod length T"
  have b: "b < length T" "htsize H = length T" "dll (heap H) None L None"
    and bl: "block (bucket_of (heap H) (length T)) b L (T ! b)"
    using assms(1) Some by (auto simp add: table_ok_def b_def)
  obtain cnt c where tb: "T ! b = (cnt, c)" by fastforce
  from bl show ?thesis
  proof (rule blockE)
    fix A B C
    let ?P = "\<lambda>x. fold_case (key_at (heap H) x) = fold_case key"
    assume l: "L = A @ B @ C" "\<forall>x\<in>set A. bucket_of (heap H) (length T) x \<noteq> b"
      "\<forall>x\<in>set C. bucket_of (heap H) (length T) x \<noteq> b" "fst (T ! b) = length B"
      "B \<noteq> [] \<Longrightarrow> snd (T ! b) = head_ptr B None"
    have "?P x \<Longrightarrow> bucket_of (heap H) (length T) x = b" for x
      using strHash_fold [of "key_at (heap H) x" key] by (simp add: bucket_of_def b_def)
    then have "find ?P A = None" "find ?P C = None" using l(2,3) by (auto simp add: find_None_iff)
    then have L: "find ?P L = find ?P B" by (simp add: l(1) find_append split: option.split)
    have "find_loop (heap H) key c cnt = Inr (find ?P B)"
    proof (cases B)
      case Nil
      then show ?thesis using l(4) tb by simp
    next
      case (Cons x B')
      then show ?thesis
        using find_loop_ok [of "heap H" "last_ptr None A" B C None key] l(1,4,5) b(3) tb assms(3,4) by auto
    qed
    then show ?thesis
      using Some b tb L by (simp add: findElementWithHash_def b_def)
  qed
qed

lemma clear_loop_ok:
  "chain h L \<Longrightarrow> distinct L \<Longrightarrow>
   clear_loop h (head_ptr L None) = Some (Inr (\<lambda>x. if x \<in> set L then None else h x))"
proof (induction L arbitrary: h)
  case Nil
  then show ?case by (subst clear_loop.simps) simp
next
  case (Cons x L)
  then obtain e where e: "h x = Some e" "he_next e = head_ptr L None" by auto
  have c: "chain (h(x := None)) L" "distinct L" using Cons.prems by simp_all
  have "clear_loop (h(x := None)) (head_ptr L None) =
      Some (Inr (\<lambda>y. if y \<in> set L then None else (h(x := None)) y))"
    by (rule Cons.IH [OF c])
  moreover have "clear_loop h (head_ptr (x # L) None) = clear_loop (h(x := None)) (head_ptr L None)"
    using e by (subst clear_loop.simps) simp
  ultimately show ?case by (simp add: fun_eq_iff)
qed

text \<open>Clearing frees every element of the table and nothing else.\<close>

lemma sqlite3HashClear_ok:
  assumes "table_ok H L"
  shows "sqlite3HashClear H = Inr (sqlite3HashInit (\<lambda>x. if x \<in> set L then None else heap H x))"
  using assms clear_loop_ok [of "heap H" L] dll_chain [of "heap H" None L]
  by (cases H) (simp add: table_ok_def sqlite3HashClear_def sqlite3HashInit_def returns_def)

lemma table_ok_empty: "table_ok (sqlite3HashInit h) []"
  by (simp add: table_ok_def sqlite3HashInit_def)

lemma unlink_ok:
  assumes "dll h None (A @ x # B) None" "distinct (A @ x # B)" "h x = Some e"
  shows "\<exists>m f. unlink h e (head_ptr (A @ x # B) None) = Inr (m, f) \<and> dll (m(x := None)) None (A @ B) None \<and>
    f = head_ptr (A @ B) None \<and> payload m = payload h \<and> (\<forall>y. y \<notin> set (A @ B) \<longrightarrow> m y = h y)"
proof -
  have x: "he_prev e = last_ptr None A" "he_next e = head_ptr B None" using assms by auto
  show ?thesis
  proof (cases A rule: rev_cases)
    case Nil
    then show ?thesis using assms x by (cases B) (auto simp add: unlink_def payload_upd_link)
  next
    case (snoc ys y)
    then show ?thesis using assms x by (cases B) (auto simp add: unlink_def payload_upd_link)
  qed
qed

lemma block_remove_other:
  assumes "block f b (A @ x # B) e" "f x \<noteq> b" "distinct (A @ x # B)"
  shows "block f b (A @ B) e"
  using assms(1)
proof (rule blockE)
  fix A' B' C'
  assume l: "A @ x # B = A' @ B' @ C'" "\<forall>x\<in>set B'. f x = b" "\<forall>x\<in>set A'. f x \<noteq> b"
    "\<forall>x\<in>set C'. f x \<noteq> b" "fst e = length B'" "B' \<noteq> [] \<Longrightarrow> snd e = head_ptr B' None"
  have r: "filter (\<lambda>y. y \<noteq> x) B' = B'" using l(2) assms(2) by (auto simp add: filter_id_conv)
  have "filter (\<lambda>y. y \<noteq> x) A = A" "filter (\<lambda>y. y \<noteq> x) B = B"
    using assms(3) by (auto simp add: filter_id_conv)
  then have "A @ B = filter (\<lambda>y. y \<noteq> x) (A @ x # B)" by simp
  also have "\<dots> = filter (\<lambda>y. y \<noteq> x) A' @ B' @ filter (\<lambda>y. y \<noteq> x) C'" by (simp add: l(1) r)
  finally show ?thesis by (rule blockI) (use l in auto)
qed

lemma block_remove_same:
  assumes "block f b (A @ x # B) (cnt, c)" "f x = b" "distinct (A @ x # B)"
  shows "block f b (A @ B) (cnt - 1, if c = Some x then head_ptr B None else c)" "0 < cnt"
proof -
  from assms(1) have "block f b (A @ B) (cnt - 1, if c = Some x then head_ptr B None else c) \<and> 0 < cnt"
  proof (rule blockE)
    fix A' B' C'
    assume l: "A @ x # B = A' @ B' @ C'" "\<forall>x\<in>set B'. f x = b" "\<forall>x\<in>set A'. f x \<noteq> b"
      "\<forall>x\<in>set C'. f x \<noteq> b" "fst (cnt, c) = length B'" "B' \<noteq> [] \<Longrightarrow> snd (cnt, c) = head_ptr B' None"
    have "x \<in> set (A' @ B' @ C')" by (simp flip: l(1))
    then have "x \<in> set B'" using l(3,4) assms(2) by auto
    then obtain P Q where B': "B' = P @ x # Q" by (meson split_list)
    have "A @ x # B = (A' @ P) @ x # (Q @ C')" by (simp add: l(1) B')
    then have eq: "A = A' @ P" "B = Q @ C'"
      using assms(3) by (metis append_Cons_eq_iff distinct_append distinct.simps(2) disjoint_insert(2) list.simps(15))+
    have "snd (cnt - 1, if c = Some x then head_ptr B None else c) = head_ptr (P @ Q) None" if "P @ Q \<noteq> []"
    proof (cases P)
      case Nil
      then have "Q \<noteq> []" "c = Some x" using that l(6) B' by simp_all
      then show ?thesis using Nil eq(2) by (cases Q) simp_all
    next
      case (Cons y P')
      then have "c = Some y" "y \<noteq> x" using l(6) B' assms(3) eq by auto
      then show ?thesis using Cons by simp
    qed
    then have "block f b (A @ B) (cnt - 1, if c = Some x then head_ptr B None else c)"
      using l(2-5) eq B' by (intro blockI [of _ A' "P @ Q" C']) simp_all
    moreover have "0 < cnt" using l(5) B' by simp
    ultimately show ?thesis ..
  qed
  then show "block f b (A @ B) (cnt - 1, if c = Some x then head_ptr B None else c)" "0 < cnt" by blast+
qed

lemma removeElementGivenHash_ok:
  assumes "table_ok H (A @ x # B)" "hcount H = Suc (length (A @ B))" "heap H x = Some e"
    "ht H \<noteq> None \<longrightarrow> i = strHash (pKey e) mod htsize H"
  shows "\<exists>H'. removeElementGivenHash H x i = Inr H' \<and> table_ok H' (A @ B) \<and> hcount H' = length (A @ B) \<and>
    payload (heap H') = (payload (heap H))(x := None) \<and> (\<forall>y. y \<notin> set (A @ x # B) \<longrightarrow> heap H' y = heap H y)"
proof -
  have L: "dll (heap H) None (A @ x # B) None" "hfirst H = head_ptr (A @ x # B) None" "distinct (A @ x # B)"
    using assms(1) by (simp_all add: table_ok_def)
  obtain m f where u: "unlink (heap H) e (head_ptr (A @ x # B) None) = Inr (m, f)" "dll (m(x := None)) None (A @ B) None"
      "f = head_ptr (A @ B) None" "payload m = payload (heap H)" "\<forall>y. y \<notin> set (A @ B) \<longrightarrow> m y = heap H y"
    using unlink_ok [OF L(1,3) assms(3)] by (elim exE conjE) (rule that)
  define m' where "m' = m(x := None)"
  have p: "payload m' = (payload (heap H))(x := None)"
    using u(4) by (auto simp add: m'_def payload_def fun_eq_iff)
  have fr: "y \<notin> set (A @ x # B) \<Longrightarrow> m' y = heap H y" for y using u(5) by (simp add: m'_def)
  have d: "dec32 (hcount H) = length (A @ B)" using assms(2) by (simp add: dec32_def)
  have "\<exists>T. (case ht H of
         None \<Rightarrow> Inr None
       | Some T \<Rightarrow> bind_res (nth_res T i) (\<lambda>(cnt, chain).
           Inr (Some (T[i := (dec32 cnt, if chain = Some x then he_next e else chain)])))) = Inr T \<and>
      table_ok (H\<lparr>heap := m', hfirst := f, ht := T, hcount := dec32 (hcount H)\<rparr>) (A @ B)"
  proof (cases "ht H")
    case None
    then show ?thesis using assms(1) u(2,3) L(3) by (simp add: table_ok_def m'_def)
  next
    case (Some T)
    define n where "n = length T"
    obtain cnt c where tb: "T ! i = (cnt, c)" by fastforce
    have n: "htsize H = n" "T \<noteq> []" and bl: "\<And>b. b < n \<Longrightarrow> block (bucket_of (heap H) n) b (A @ x # B) (T ! b)"
      using assms(1) Some by (simp_all add: table_ok_def n_def)
    have i: "i < n" "bucket_of (heap H) n x = i"
      using n assms(3,4) Some by (simp_all add: bucket_of_def key_at_def payload_def n_def)
    have rs: "block (bucket_of (heap H) n) i (A @ B) (cnt - 1, if c = Some x then head_ptr B None else c)"
        "0 < cnt"
      using block_remove_same [OF bl [OF i(1), unfolded tb] i(2) L(3)] by simp_all
    have nx: "he_next e = head_ptr B None" using L(1) assms(3) by simp
    define T' where "T' = T[i := (dec32 cnt, if c = Some x then he_next e else c)]"
    have len: "length T' = n" "0 < n" using n(2) by (simp_all add: T'_def n_def)
    have "block (bucket_of m' n) b (A @ B) (T' ! b)" if b: "b < n" for b
    proof (rule block_cong)
      show "block (bucket_of (heap H) n) b (A @ B) (T' ! b)"
      proof (cases "b = i")
        case True
        then show ?thesis using rs nx b by (simp add: T'_def dec32_def n_def split: if_splits)
      next
        case False
        then show ?thesis using block_remove_other [OF bl [OF b] _ L(3)] i(2) by (simp add: T'_def)
      qed
      show "y \<in> set (A @ B) \<Longrightarrow> bucket_of m' n y = bucket_of (heap H) n y" for y
        using L(3) p by (auto simp add: bucket_of_def key_at_def)
    qed
    then have "table_ok (H\<lparr>heap := m', hfirst := f, ht := Some T', hcount := dec32 (hcount H)\<rparr>) (A @ B)"
      using u(2,3) L(3) n len by (auto simp add: table_ok_def m'_def)
    then show ?thesis
      using Some i(1) tb by (intro exI [of _ "Some T'"]) (simp add: T'_def n_def)
  qed
  then obtain T where T: "(case ht H of
         None \<Rightarrow> Inr None
       | Some T \<Rightarrow> bind_res (nth_res T i) (\<lambda>(cnt, chain).
           Inr (Some (T[i := (dec32 cnt, if chain = Some x then he_next e else chain)])))) = Inr T"
      "table_ok (H\<lparr>heap := m', hfirst := f, ht := T, hcount := dec32 (hcount H)\<rparr>) (A @ B)" (is "table_ok ?H' _")
    by blast
  have rm: "removeElementGivenHash H x i = (if hcount ?H' = 0 then sqlite3HashClear ?H' else Inr ?H')"
    using u(1) T(1) assms(3) by (simp add: L(2) removeElementGivenHash_def m'_def Let_def)
  show ?thesis
  proof (cases "A @ B = []")
    case True
    then have "removeElementGivenHash H x i = Inr (sqlite3HashInit m')"
      using rm d sqlite3HashClear_ok [OF T(2)] by (simp add: fun_eq_iff)
    then show ?thesis using True p fr table_ok_empty [of m'] by (simp add: sqlite3HashInit_def)
  next
    case False
    then have "hcount ?H' \<noteq> 0" using d by auto
    then have "removeElementGivenHash H x i = Inr ?H'" using rm by (simp only: if_False)
    then show ?thesis using T(2) p fr d by simp
  qed
qed

section \<open>Refinement to a map\<close>

definition data_at :: "'d elems \<Rightarrow> nat \<Rightarrow> 'd option" where
  "data_at h x = snd (the (payload h x))"

text \<open>The elements at \<open>L\<close> hold exactly the map \<open>m\<close> from folded keys to data.\<close>

definition content :: "'d elems \<Rightarrow> nat list \<Rightarrow> (string \<rightharpoonup> 'd) \<Rightarrow> bool" where
  "content h L m \<longleftrightarrow> (\<forall>x\<in>set L. is_cstr (key_at h x) \<and> data_at h x \<noteq> None) \<and>
     inj_on (\<lambda>x. fold_case (key_at h x)) (set L) \<and>
     (\<forall>k d. m k = Some d \<longleftrightarrow> (\<exists>x\<in>set L. fold_case (key_at h x) = k \<and> data_at h x = Some d))"

lemma content_empty: "content h [] Map.empty"
  by (simp add: content_def)

lemma content_at:
  assumes "content h L m" "x \<in> set L"
  shows "m (fold_case (key_at h x)) = data_at h x"
proof -
  obtain d where d: "data_at h x = Some d" using assms by (auto simp add: content_def)
  then have "m (fold_case (key_at h x)) = Some d" using assms unfolding content_def by blast
  then show ?thesis by (simp add: d)
qed

lemma content_find:
  assumes "content h L m"
  shows "case find (\<lambda>x. fold_case (key_at h x) = fold_case k) L of
      None \<Rightarrow> m (fold_case k) = None
    | Some x \<Rightarrow> x \<in> set L \<and> fold_case (key_at h x) = fold_case k \<and>
        data_at h x = m (fold_case k) \<and> m (fold_case k) \<noteq> None"
proof (cases "find (\<lambda>x. fold_case (key_at h x) = fold_case k) L")
  case None
  then have "\<forall>x\<in>set L. fold_case (key_at h x) \<noteq> fold_case k" by (simp add: find_None_iff)
  then have "m (fold_case k) \<noteq> Some d" for d using assms unfolding content_def by metis
  then have "m (fold_case k) = None" by (metis not_Some_eq)
  then show ?thesis using None by simp
next
  case (Some x)
  then have x: "x \<in> set L" "fold_case (key_at h x) = fold_case k"
    unfolding find_Some_iff by (auto intro: nth_mem)
  moreover have "data_at h x \<noteq> None" using assms x(1) by (simp add: content_def)
  ultimately show ?thesis using Some content_at [OF assms x(1)] by simp
qed

lemma content_insert:
  assumes "content h L m" "set L' = insert x (set L)" "\<And>y. y \<in> set L \<Longrightarrow> payload h' y = payload h y"
    "payload h' x = Some (k, Some d)" "is_cstr k" "m (fold_case k) = None"
  shows "content h' L' (m(fold_case k \<mapsto> d))"
proof -
  have same: "key_at h' y = key_at h y" "data_at h' y = data_at h y" if "y \<in> set L" for y
    using assms(3) [OF that] by (simp_all add: key_at_def data_at_def)
  have new: "key_at h' x = k" "data_at h' x = Some d" using assms(4) by (simp_all add: key_at_def data_at_def)
  have diff: "fold_case (key_at h y) \<noteq> fold_case k" if "y \<in> set L" for y
    using content_at [OF assms(1) that] assms(1,6) that by (auto simp add: content_def)
  show ?thesis
    unfolding content_def
  proof (intro conjI ballI allI)
    fix y
    assume "y \<in> set L'"
    then have "y = x \<or> y \<in> set L" using assms(2) by auto
    then show "is_cstr (key_at h' y)" "data_at h' y \<noteq> None"
      using new assms(1,5) same [of y] by (auto simp add: content_def)
  next
    show "inj_on (\<lambda>x. fold_case (key_at h' x)) (set L')"
      using assms(1,2) same new diff unfolding content_def inj_on_def by (metis insertE)
  next
    fix k' d'
    show "((m(fold_case k \<mapsto> d)) k' = Some d') =
        (\<exists>y\<in>set L'. fold_case (key_at h' y) = k' \<and> data_at h' y = Some d')"
    proof (cases "k' = fold_case k")
      case True
      then show ?thesis using new same diff assms(2) by fastforce
    next
      case False
      then have "(\<exists>y\<in>set L'. fold_case (key_at h' y) = k' \<and> data_at h' y = Some d') =
          (\<exists>y\<in>set L. fold_case (key_at h y) = k' \<and> data_at h y = Some d')"
        using new same assms(2) by auto
      then show ?thesis using False assms(1) by (simp add: content_def)
    qed
  qed
qed

lemma content_remove:
  assumes "content h (A @ x # B) m" "distinct (A @ x # B)" "payload h' = (payload h)(x := None)"
  shows "content h' (A @ B) (m(fold_case (key_at h x) := None))"
proof -
  have same: "key_at h' y = key_at h y" "data_at h' y = data_at h y" if "y \<in> set (A @ B)" for y
    using assms(2,3) that by (auto simp add: key_at_def data_at_def)
  have diff: "fold_case (key_at h y) \<noteq> fold_case (key_at h x)" if "y \<in> set (A @ B)" for y
    using assms(1,2) that by (auto simp add: content_def inj_on_def)
  show ?thesis
    unfolding content_def
  proof (intro conjI ballI allI)
    show "is_cstr (key_at h' y)" "data_at h' y \<noteq> None" if "y \<in> set (A @ B)" for y
      using that same [OF that] assms(1) by (auto simp add: content_def)
    show "inj_on (\<lambda>x. fold_case (key_at h' x)) (set (A @ B))"
      using assms(1) same unfolding content_def inj_on_def by auto
  next
    fix k' d'
    show "((m(fold_case (key_at h x) := None)) k' = Some d') =
        (\<exists>y\<in>set (A @ B). fold_case (key_at h' y) = k' \<and> data_at h' y = Some d')"
    proof (cases "k' = fold_case (key_at h x)")
      case True
      then show ?thesis using same diff by fastforce
    next
      case False
      then have "(\<exists>y\<in>set (A @ x # B). fold_case (key_at h y) = k' \<and> data_at h y = Some d') =
          (\<exists>y\<in>set (A @ B). fold_case (key_at h' y) = k' \<and> data_at h' y = Some d')"
        using same by auto
      then show ?thesis using False assms(1) by (simp add: content_def)
    qed
  qed
qed

lemma content_update:
  assumes "content h L m" "x \<in> set L" "fold_case (key_at h x) = fold_case k" "is_cstr k"
    "payload h' = (payload h)(x \<mapsto> (k, Some d))"
  shows "content h' L (m(fold_case k \<mapsto> d))"
proof -
  have new: "fold_case (key_at h' y) = fold_case (key_at h y)" if "y \<in> set L" for y
    using assms(3,5) by (simp add: key_at_def)
  have data: "data_at h' y = (if y = x then Some d else data_at h y)" for y
    using assms(5) by (simp add: data_at_def)
  have key: "is_cstr (key_at h' y)" if "y \<in> set L" for y
    using assms(1,4,5) that by (auto simp add: content_def key_at_def)
  have inj: "y = x" if "y \<in> set L" "fold_case (key_at h y) = fold_case k" for y
    using assms(1-3) that by (auto simp add: content_def inj_on_def)
  show ?thesis
    unfolding content_def
  proof (intro conjI ballI allI)
    show "is_cstr (key_at h' y)" "data_at h' y \<noteq> None" if "y \<in> set L" for y
      using that key data assms(1) by (simp_all add: content_def)
    show "inj_on (\<lambda>x. fold_case (key_at h' x)) (set L)"
      using assms(1) new unfolding content_def inj_on_def by auto
  next
    fix k' d'
    show "((m(fold_case k \<mapsto> d)) k' = Some d') =
        (\<exists>y\<in>set L. fold_case (key_at h' y) = k' \<and> data_at h' y = Some d')"
    proof (cases "k' = fold_case k")
      case True
      have "(\<exists>y\<in>set L. fold_case (key_at h' y) = k' \<and> data_at h' y = Some d') = (Some d = Some d')"
      proof
        assume "\<exists>y\<in>set L. fold_case (key_at h' y) = k' \<and> data_at h' y = Some d'"
        then obtain y where "y \<in> set L" "fold_case (key_at h' y) = k'" "data_at h' y = Some d'" by blast
        then show "Some d = Some d'" using inj [of y] new [of y] data [of y] True by simp
      next
        assume "Some d = Some d'"
        then show "\<exists>y\<in>set L. fold_case (key_at h' y) = k' \<and> data_at h' y = Some d'"
          using assms(2,3) new data True by (intro bexI [of _ x]) simp_all
      qed
      then show ?thesis using True by simp
    next
      case False
      then have "(\<exists>y\<in>set L. fold_case (key_at h' y) = k' \<and> data_at h' y = Some d') =
          (\<exists>y\<in>set L. fold_case (key_at h y) = k' \<and> data_at h y = Some d')"
        using new data assms(3) by (intro bex_cong refl) auto
      then show ?thesis using False assms(1) by (simp add: content_def)
    qed
  qed
qed

definition rep :: "'d hash \<Rightarrow> (string \<rightharpoonup> 'd) \<Rightarrow> bool" where
  "rep H m \<longleftrightarrow> (\<exists>L. table_ok H L \<and> hcount H = length L \<and> length L < 4294967296 \<and> content (heap H) L m)"

lemma repI:
  "table_ok H L \<Longrightarrow> hcount H = length L \<Longrightarrow> length L < 4294967296 \<Longrightarrow> content (heap H) L m \<Longrightarrow> rep H m"
  unfolding rep_def by blast

lemma rep_init: "rep (sqlite3HashInit h) Map.empty"
  by (rule repI [OF table_ok_empty]) (simp_all add: content_empty sqlite3HashInit_def)

lemma table_ok_heap:
  assumes "table_ok H L" "\<And>x. x \<in> set L \<Longrightarrow> h x = heap H x"
  shows "table_ok (H\<lparr>heap := h, hcount := c\<rparr>) L"
proof -
  have "dll h None L None = dll (heap H) None L None" by (rule dll_frame) (rule assms(2))
  moreover have "bucket_of h n x = bucket_of (heap H) n x" if "x \<in> set L" for n x
    using assms(2) [OF that] by (simp add: bucket_of_def key_at_def payload_def)
  ultimately show ?thesis
    using assms(1) by (auto simp add: table_ok_def split: option.splits intro: block_cong)
qed

lemma rehash_ok:
  assumes "table_ok H L" "length L < 4294967295" "\<forall>k n. grow k = Some n \<longrightarrow> 0 < n"
  shows "\<exists>H' L' did. rehash grow H k = Inr (H', did) \<and> table_ok H' L' \<and> set L' = set L \<and>
    length L' = length L \<and> payload (heap H') = payload (heap H) \<and> hcount H' = hcount H \<and>
    (\<not> did \<longrightarrow> H' = H) \<and> (did \<longrightarrow> ht H' \<noteq> None) \<and> (\<forall>y. y \<notin> set L \<longrightarrow> heap H' y = heap H y)"
proof -
  define k' where "k' = (if k * sizeof_ht > SQLITE_MALLOC_SOFT_LIMIT
    then SQLITE_MALLOC_SOFT_LIMIT div sizeof_ht else k)"
  show ?thesis
  proof (cases "k' = htsize H \<or> grow k' = None")
    case True
    then have "rehash grow H k = Inr (H, False)"
      unfolding rehash_def Let_def k'_def [symmetric] by auto
    then show ?thesis using assms(1) by blast
  next
    case False
    then obtain n where n: "k' \<noteq> htsize H" "grow k' = Some n" "0 < n" using assms(3) by auto
    define H0 where "H0 = H\<lparr>ht := Some (replicate n (0, None)), htsize := n, hfirst := None\<rparr>"
    have r: "rehash grow H k = bind_res (returns (rehash_loop H0 (hfirst H))) (\<lambda>H'. Inr (H', True))"
      unfolding rehash_def Let_def k'_def [symmetric] using n by (simp add: H0_def)
    have L: "dll (heap H) None L None" "hfirst H = head_ptr L None" "distinct L"
      using assms(1) by (simp_all add: table_ok_def)
    have t: "table_ok H0 []" using n(3) by (auto simp add: table_ok_def H0_def intro: blockI [of _ "[]" "[]" "[]"])
    have e: "ht H0 \<noteq> None" "chain (heap H0) L" "set L \<inter> set ([] :: nat list) = {}" "length ([] :: nat list) + length L < 4294967295"
      using L(1) assms(2) by (simp_all add: H0_def dll_chain)
    obtain H' L' where q: "rehash_loop H0 (head_ptr L None) = Some (Inr H')" "table_ok H' L'" "ht H' \<noteq> None"
        "set L' = set ([] :: nat list) \<union> set L" "length L' = length ([] :: nat list) + length L" "payload (heap H') = payload (heap H0)"
        "hcount H' = hcount H0" "htsize H' = htsize H0"
        "\<forall>y. y \<notin> set ([] :: nat list) \<union> set L \<longrightarrow> heap H' y = heap H0 y"
      using rehash_loop_ok [OF t e(1,2) L(3) e(3,4)] by (elim exE conjE) (rule that)
    have "rehash grow H k = Inr (H', True)" using r q(1) L(2) by (simp add: returns_def)
    then show ?thesis using q(2-9) by (intro exI [of _ H'] exI [of _ L'] exI [of _ True]) (simp add: H0_def)
  qed
qed

lemma find_rep:
  assumes "rep H m" "is_cstr k"
  obtains L i where "table_ok H L" "hcount H = length L" "length L < 4294967296" "content (heap H) L m"
    "findElementWithHash H k = Inr (find (\<lambda>x. fold_case (key_at (heap H) x) = fold_case k) L, i)"
    "ht H \<noteq> None \<longrightarrow> i = strHash k mod htsize H"
proof -
  obtain L where L: "table_ok H L" "hcount H = length L" "length L < 4294967296" "content (heap H) L m"
    using assms(1) by (auto simp add: rep_def)
  have "\<forall>x\<in>set L. is_cstr (key_at (heap H) x)" using L(4) by (simp add: content_def)
  from findElementWithHash_ok [OF L(1,2) assms(2) this] show ?thesis
    using that [OF L] by blast
qed

lemma elem_data_at: "heap H x = Some e \<Longrightarrow> elem_data H (Some x) = Inr (data_at (heap H) x)"
  by (simp add: elem_data_def data_at_def payload_def)

lemma elem_data_None [simp]: "elem_data H None = Inr None"
  by (simp add: elem_data_def)

lemma table_ok_alloc: "table_ok H L \<Longrightarrow> x \<in> set L \<Longrightarrow> \<exists>e. heap H x = Some e"
  using dll_alloc [of "heap H" None L None x] by (auto simp add: table_ok_def)

lemma elem_data_find:
  assumes "table_ok H L" "content (heap H) L m"
  shows "elem_data H (find (\<lambda>x. fold_case (key_at (heap H) x) = fold_case k) L) = Inr (m (fold_case k))"
proof (cases "find (\<lambda>x. fold_case (key_at (heap H) x) = fold_case k) L")
  case None
  then show ?thesis using content_find [OF assms(2), of k] by simp
next
  case (Some x)
  have x: "x \<in> set L" "data_at (heap H) x = m (fold_case k)" using content_find [OF assms(2), of k] Some by simp_all
  then show ?thesis using elem_data_at table_ok_alloc [OF assms(1) x(1)] Some by fastforce
qed

lemma sqlite3HashFind_ok:
  assumes "rep H m" "is_cstr k"
  shows "sqlite3HashFind H k = Inr (m (fold_case k))"
proof -
  obtain L i where L: "table_ok H L" "hcount H = length L" "length L < 4294967296" "content (heap H) L m"
    "findElementWithHash H k = Inr (find (\<lambda>x. fold_case (key_at (heap H) x) = fold_case k) L, i)"
    using find_rep [OF assms] by metis
  show ?thesis using L(5) elem_data_find [OF L(1,4)] by (simp add: sqlite3HashFind_def)
qed

text \<open>The state in which \<open>sqlite3HashInsert\<close> leaves its search.\<close>

lemma insert_after_find:
  assumes "table_ok H L" "content (heap H) L m"
    "findElementWithHash H k = Inr (find (\<lambda>x. fold_case (key_at (heap H) x) = fold_case k) L, i)"
  shows "m (fold_case k) = Some old \<Longrightarrow> \<exists>x e. find (\<lambda>x. fold_case (key_at (heap H) x) = fold_case k) L = Some x \<and>
      x \<in> set L \<and> heap H x = Some e \<and> fold_case (pKey e) = fold_case k \<and> fold_case (key_at (heap H) x) = fold_case k"
    and "m (fold_case k) = None \<Longrightarrow> find (\<lambda>x. fold_case (key_at (heap H) x) = fold_case k) L = None"
proof -
  note c = content_find [OF assms(2), of k]
  show "\<exists>x e. find (\<lambda>x. fold_case (key_at (heap H) x) = fold_case k) L = Some x \<and>
      x \<in> set L \<and> heap H x = Some e \<and> fold_case (pKey e) = fold_case k \<and> fold_case (key_at (heap H) x) = fold_case k"
    if old: "m (fold_case k) = Some old"
  proof -
    obtain x where x: "find (\<lambda>x. fold_case (key_at (heap H) x) = fold_case k) L = Some x" "x \<in> set L"
        "fold_case (key_at (heap H) x) = fold_case k"
      using c old by (auto split: option.splits)
    then show ?thesis using table_ok_alloc [OF assms(1) x(2)] by (auto simp add: key_at_def payload_def)
  qed
  show "find (\<lambda>x. fold_case (key_at (heap H) x) = fold_case k) L = None" if "m (fold_case k) = None"
    using c that by (auto split: option.splits)
qed

lemma insert_replace:
  assumes "rep H m" "is_cstr k" "m (fold_case k) = Some old"
  shows "\<exists>H'. sqlite3HashInsert al grow H k (Some d) = Inr (H', Some old) \<and> rep H' (m(fold_case k \<mapsto> d))"
proof -
  obtain L i where L: "table_ok H L" "hcount H = length L" "length L < 4294967296" "content (heap H) L m"
    and f: "findElementWithHash H k = Inr (find (\<lambda>x. fold_case (key_at (heap H) x) = fold_case k) L, i)"
    using find_rep [OF assms(1,2)] by metis
  obtain x e where x: "find (\<lambda>x. fold_case (key_at (heap H) x) = fold_case k) L = Some x" "x \<in> set L"
      "heap H x = Some e" "fold_case (pKey e) = fold_case k" "fold_case (key_at (heap H) x) = fold_case k"
    using insert_after_find(1) [OF L(1,4) f assms(3)] by (elim exE conjE) (rule that)
  define h where "h = (heap H)(x \<mapsto> e\<lparr>he_data := Some d, pKey := k\<rparr>)"
  have r: "sqlite3HashInsert al grow H k (Some d) = Inr (H\<lparr>heap := h\<rparr>, Some old)"
    using f x elem_data_find [OF L(1,4), of k] assms(3) by (simp add: sqlite3HashInsert_def h_def)
  have d: "dll h p M q = dll (heap H) p M q" for p M q
    using x(3) by (induction M arbitrary: p) (auto simp add: h_def)
  have p: "payload h = (payload (heap H))(x \<mapsto> (k, Some d))"
    by (auto simp add: h_def payload_def fun_eq_iff)
  have b: "bucket_of h n = bucket_of (heap H) n" for n
    using strHash_fold [OF x(4)] x(3) by (auto simp add: bucket_of_def key_at_def p fun_eq_iff payload_def)
  have "table_ok (H\<lparr>heap := h\<rparr>) L" using L(1) by (cases "ht H") (simp_all add: table_ok_def d b)
  moreover have "content h L (m(fold_case k \<mapsto> d))"
    by (rule content_update [OF L(4) x(2,5) assms(2) p])
  ultimately have "rep (H\<lparr>heap := h\<rparr>) (m(fold_case k \<mapsto> d))" using L(2,3) by (intro repI [of _ L]) simp_all
  then show ?thesis using r by blast
qed

lemma insert_delete:
  assumes "rep H m" "is_cstr k" "m (fold_case k) = Some old"
  shows "\<exists>H'. sqlite3HashInsert al grow H k None = Inr (H', Some old) \<and> rep H' (m(fold_case k := None))"
proof -
  obtain L i where L: "table_ok H L" "hcount H = length L" "length L < 4294967296" "content (heap H) L m"
    and f: "findElementWithHash H k = Inr (find (\<lambda>x. fold_case (key_at (heap H) x) = fold_case k) L, i)"
    and i: "ht H \<noteq> None \<longrightarrow> i = strHash k mod htsize H"
    using find_rep [OF assms(1,2)] by metis
  obtain x e where x: "find (\<lambda>x. fold_case (key_at (heap H) x) = fold_case k) L = Some x" "x \<in> set L"
      "heap H x = Some e" "fold_case (pKey e) = fold_case k" "fold_case (key_at (heap H) x) = fold_case k"
    using insert_after_find(1) [OF L(1,4) f assms(3)] by (elim exE conjE) (rule that)
  obtain A B where AB: "L = A @ x # B" using x(2) by (meson split_list)
  have i': "ht H \<noteq> None \<longrightarrow> i = strHash (pKey e) mod htsize H" using i strHash_fold [OF x(4)] by simp
  have c: "hcount H = Suc (length (A @ B))" using L(2) AB by simp
  obtain H' where r: "removeElementGivenHash H x i = Inr H'" "table_ok H' (A @ B)" "hcount H' = length (A @ B)"
      "payload (heap H') = (payload (heap H))(x := None)"
    using removeElementGivenHash_ok [OF L(1) [unfolded AB] c x(3) i'] by blast
  have "sqlite3HashInsert al grow H k None = Inr (H', Some old)"
    using f x(1) r(1) elem_data_find [OF L(1,4), of k] assms(3) by (simp add: sqlite3HashInsert_def)
  moreover have "distinct (A @ x # B)" using L(1) by (simp add: table_ok_def AB)
  then have "content (heap H') (A @ B) (m(fold_case k := None))"
    using content_remove [OF L(4) [unfolded AB] _ r(4)] x(5) by simp
  then have "rep H' (m(fold_case k := None))" using r(2,3) L(3) AB by (intro repI) simp_all
  ultimately show ?thesis by blast
qed

lemma insert_absent:
  assumes "rep H m" "is_cstr k" "m (fold_case k) = None"
  shows "sqlite3HashInsert al grow H k None = Inr (H, None)"
    and "sqlite3HashInsert None grow H k (Some d) = Inr (H, Some d)"
proof -
  obtain L i where L: "table_ok H L" "hcount H = length L" "length L < 4294967296" "content (heap H) L m"
    and f: "findElementWithHash H k = Inr (find (\<lambda>x. fold_case (key_at (heap H) x) = fold_case k) L, i)"
    using find_rep [OF assms(1,2)] by metis
  show "sqlite3HashInsert al grow H k None = Inr (H, None)" "sqlite3HashInsert None grow H k (Some d) = Inr (H, Some d)"
    using f elem_data_find [OF L(1,4), of k] assms(3) by (simp_all add: sqlite3HashInsert_def)
qed

lemma insert_new:
  assumes "rep H m" "is_cstr k" "m (fold_case k) = None" "heap H a = None" "hcount H < 4294967294"
    "\<forall>k n. grow k = Some n \<longrightarrow> 0 < n"
  shows "\<exists>H'. sqlite3HashInsert (Some a) grow H k (Some d) = Inr (H', None) \<and> rep H' (m(fold_case k \<mapsto> d))"
proof -
  obtain L i where L: "table_ok H L" "hcount H = length L" "length L < 4294967296" "content (heap H) L m"
    and f: "findElementWithHash H k = Inr (find (\<lambda>x. fold_case (key_at (heap H) x) = fold_case k) L, i)"
    and i: "ht H \<noteq> None \<longrightarrow> i = strHash k mod htsize H"
    using find_rep [OF assms(1,2)] by metis
  define e where "e = \<lparr>he_next = None, he_prev = None, he_data = Some d, pKey = k\<rparr>"
  define h where "h = (heap H)(a \<mapsto> e)"
  define H1 where "H1 = H\<lparr>heap := h, hcount := inc32 (hcount H)\<rparr>"
  have a: "a \<notin> set L" using table_ok_alloc [OF L(1), of a] assms(4) by auto
  have len: "length L < 4294967295" "length L < 4294967294" using L(2) assms(5) by simp_all
  have t1: "table_ok H1 L" unfolding H1_def by (rule table_ok_heap [OF L(1)]) (use a in \<open>auto simp add: h_def\<close>)
  have H1: "heap H1 = h" "hcount H1 = Suc (length L)" "ht H1 = ht H" "htsize H1 = htsize H"
    using L(2) len by (simp_all add: H1_def inc32_def)
  \<comment> \<open>the table after the attempt to grow\<close>
  obtain H2 L2 i2 where g: "(if hcount H1 \<ge> 10 \<and> hcount H1 > dbl32 (htsize H1)
        then bind_res (rehash grow H1 (dbl32 (hcount H1))) (\<lambda>(H, did).
             Inr (H, if did then strHash k mod htsize H else i)) else Inr (H1, i)) = Inr (H2, i2)"
      "table_ok H2 L2" "set L2 = set L" "length L2 = length L" "payload (heap H2) = payload h"
      "hcount H2 = Suc (length L)" "heap H2 a = Some e" "(if ht H2 = None then None else Some i2) = entry_for H2 k"
  proof (cases "hcount H1 \<ge> 10 \<and> hcount H1 > dbl32 (htsize H1)")
    case True
    obtain H2 L2 did where r: "rehash grow H1 (dbl32 (hcount H1)) = Inr (H2, did)" "table_ok H2 L2"
        "set L2 = set L" "length L2 = length L" "payload (heap H2) = payload (heap H1)" "hcount H2 = hcount H1"
        "\<not> did \<longrightarrow> H2 = H1" "did \<longrightarrow> ht H2 \<noteq> None" "\<forall>y. y \<notin> set L \<longrightarrow> heap H2 y = heap H1 y"
      using rehash_ok [OF t1 len(1) assms(6), of "dbl32 (hcount H1)"] by (elim exE conjE) (rule that)
    have "heap H2 a = Some e" using r(9) a by (simp add: H1(1) h_def)
    moreover have "(if ht H2 = None then None else Some (if did then strHash k mod htsize H2 else i)) = entry_for H2 k"
      using r(7) i H1(3,4) by (auto simp add: entry_for_def)
    ultimately show ?thesis
      using True r(1-6) by (intro that [of H2 "if did then strHash k mod htsize H2 else i" L2]) (simp_all add: H1)
  next
    case False
    have "(if ht H1 = None then None else Some i) = entry_for H1 k" using i H1(3,4) by (simp add: entry_for_def)
    then show ?thesis using False t1 by (intro that [of H1 i L]) (auto simp add: H1 h_def)
  qed
  have b: "a \<notin> set L2" "length L2 < 4294967295" using a g(3,4) len by simp_all
  obtain H' A B where n: "insertElement H2 (entry_for H2 (pKey e)) a = Inr H'" "L2 = A @ B"
      "table_ok H' (A @ a # B)" "payload (heap H') = payload (heap H2)" "hcount H' = hcount H2"
    using insertElement_ok [OF g(2,7) b] by (elim exE conjE) (rule that)
  have "sqlite3HashInsert (Some a) grow H k (Some d) = Inr (H', None)"
  proof -
    have "sqlite3HashInsert (Some a) grow H k (Some d) =
        bind_res (if hcount H1 \<ge> 10 \<and> hcount H1 > dbl32 (htsize H1)
          then bind_res (rehash grow H1 (dbl32 (hcount H1))) (\<lambda>(H, did).
               Inr (H, if did then strHash k mod htsize H else i)) else Inr (H1, i)) (\<lambda>(H, h).
        bind_res (insertElement H (if ht H = None then None else Some h) a) (\<lambda>H. Inr (H, None)))"
      using f elem_data_find [OF L(1,4), of k] assms(3)
      unfolding sqlite3HashInsert_def Let_def H1_def h_def e_def by simp
    also have "\<dots> = Inr (H', None)" unfolding g(1) using g(8) n(1) by (simp add: e_def)
    finally show ?thesis .
  qed
  moreover have "content (heap H') (A @ a # B) (m(fold_case k \<mapsto> d))"
  proof (rule content_insert [OF L(4)])
    show "set (A @ a # B) = insert a (set L)" using n(2) g(3) by auto
    show "payload (heap H') y = payload (heap H) y" if "y \<in> set L" for y
      using that a n(4) g(5) by (auto simp add: h_def payload_def)
    show "payload (heap H') a = Some (k, Some d)" using n(4) g(5) by (simp add: h_def payload_def e_def)
  qed (use assms in simp_all)
  then have "rep H' (m(fold_case k \<mapsto> d))"
    using n(2,3,5) g(4,6) len by (intro repI [of _ "A @ a # B"]) simp_all
  ultimately show ?thesis by blast
qed

section \<open>Runs of operations\<close>

datatype 'd hash_op = Find string | Insert "nat option" string "'d option" | Clear

text \<open>\<open>Insert\<close> carries the address that the allocator gives if it is asked.\<close>

fun hash_step :: "(nat \<Rightarrow> nat option) \<Rightarrow> 'd hash \<Rightarrow> 'd hash_op \<Rightarrow> ('d hash \<times> 'd option) res" where
  "hash_step grow H (Find k) = bind_res (sqlite3HashFind H k) (\<lambda>r. Inr (H, r))"
| "hash_step grow H (Insert al k d) = sqlite3HashInsert al grow H k d"
| "hash_step grow H Clear = bind_res (sqlite3HashClear H) (\<lambda>H. Inr (H, None))"

fun map_step :: "(string \<rightharpoonup> 'd) \<Rightarrow> 'd hash_op \<Rightarrow> (string \<rightharpoonup> 'd) \<times> 'd option" where
  "map_step m (Find k) = (m, m (fold_case k))"
| "map_step m (Insert al k d) =
     (if m (fold_case k) = None \<and> d \<noteq> None \<and> al = None then (m, d)
      else (m(fold_case k := d), m (fold_case k)))"
| "map_step m Clear = (Map.empty, None)"

text \<open>The caller passes C strings, the allocator returns memory that is not in use, and the
  counter has room.\<close>

fun hash_ok :: "'d hash \<Rightarrow> 'd hash_op \<Rightarrow> bool" where
  "hash_ok H (Find k) \<longleftrightarrow> is_cstr k"
| "hash_ok H (Insert al k d) \<longleftrightarrow> is_cstr k \<and> hcount H < 4294967294 \<and>
     (case al of None \<Rightarrow> True | Some a \<Rightarrow> heap H a = None)"
| "hash_ok H Clear \<longleftrightarrow> True"

lemma hash_step_sim:
  assumes "rep H m" "hash_ok H c" "\<forall>k n. grow k = Some n \<longrightarrow> 0 < n"
  shows "\<exists>H'. hash_step grow H c = Inr (H', snd (map_step m c)) \<and> rep H' (fst (map_step m c))"
proof (cases c)
  case (Find k)
  then show ?thesis using assms by (simp add: sqlite3HashFind_ok)
next
  case (Insert al k d)
  have k: "is_cstr k" using assms(2) Insert by simp
  show ?thesis
  proof (cases "m (fold_case k)")
    case (Some old)
    then show ?thesis
      using insert_replace [OF assms(1) k Some, of al grow] insert_delete [OF assms(1) k Some, of al grow] Insert
      by (cases d) simp_all
  next
    case None
    have same: "m(fold_case k := None) = m" using None by (simp add: fun_eq_iff)
    show ?thesis
    proof (cases "d = None \<or> al = None")
      case True
      then show ?thesis
        using insert_absent [OF assms(1) k None] Insert None assms(1) same by (cases d) (auto simp del: fun_upd_apply)
    next
      case False
      then obtain a d' where "al = Some a" "d = Some d'" by auto
      then show ?thesis
        using insert_new [OF assms(1) k None, of a grow d'] assms(2,3) Insert None by simp
    qed
  qed
next
  case Clear
  obtain L where "table_ok H L" using assms(1) by (auto simp add: rep_def)
  then show ?thesis using Clear by (simp add: sqlite3HashClear_ok rep_init)
qed

text \<open>An allocator of tables: whatever it is asked for, a table it returns has a bucket.\<close>

definition growing :: "(nat \<Rightarrow> nat option) \<Rightarrow> nat \<Rightarrow> nat option" where
  "growing grow k = (if grow k = Some 0 then None else grow k)"

interpretation hash_map: simulated rep hash_ok "hash_step (growing grow)" map_step for grow
  by unfold_locales (rule hash_step_sim, auto simp add: growing_def split: if_splits)

section \<open>A run that grows the table\<close>

definition sample_ops :: "nat hash_op list" where
  "sample_ops = [Insert (Some 0) ''a'' (Some 1), Insert (Some 1) ''b'' (Some 2), Insert (Some 2) ''c'' (Some 3),
     Insert (Some 3) ''d'' (Some 4), Insert (Some 4) ''e'' (Some 5), Insert (Some 5) ''f'' (Some 6),
     Insert (Some 6) ''g'' (Some 7), Insert (Some 7) ''h'' (Some 8), Insert (Some 8) ''i'' (Some 9),
     Insert (Some 9) ''j'' (Some 10), Find ''C'', Insert None ''D'' None, Find ''d'']"

lemmas hash_eval = sample_ops_def sqlite3HashInsert_def findElementWithHash_def sqlite3HashInit_def
  insertElement_def link_before_def deref_def put_elem_def elem_data_def inc32_def dec32_def dbl32_def
  removeElementGivenHash_def unlink_def sqlite3HashFind_def growing_def StrICmp_eq_0 fold_case_def Tolower_eq
  uchar_def upper_byte_def rehash_def returns_def rehash_loop.simps strHash_def SQLITE_MALLOC_SOFT_LIMIT_def
  sizeof_ht_def

lemma find_loop_numeral [simp]:
  "find_loop h key elem (numeral n) = bind_res (deref h elem) (\<lambda>e.
     if sqlite3StrICmp (pKey e) key = 0 then Inr elem else find_loop h key (he_next e) (pred_numeral n))"
  by (simp add: numeral_eq_Suc)

lemma sample_grows:
  "(case run_ops (hash_step (growing Some)) (sqlite3HashInit Map.empty) sample_ops of
      Inl f \<Rightarrow> False | Inr (H, rs) \<Rightarrow> htsize H = 20 \<and> hcount H = 9)"
  by (simp add: hash_eval)

lemma sample_allowed: "run_allowed hash_ok (hash_step (growing Some)) (sqlite3HashInit Map.empty) sample_ops"
  by (simp add: hash_eval)

section \<open>Properties\<close>

text \<open>C32. The hash table of SQLite is a map.  Whatever finds, insertions, deletions and clears
  run on a fresh table, each operation returns what a map on keys folded to one case returns,
  no operation follows a stray pointer or loops for ever, and the table that remains holds the
  final map: over collisions, growth of the table, failed allocations of an element (which
  answer with the new data and change nothing) and of a table.  The caller passes C strings and
  fresh memory and stays below the range of the counter.\<close>

theorem hash_table_is_map:
  assumes "run_allowed hash_ok (hash_step (growing grow)) (sqlite3HashInit mem) ops"
  shows "\<exists>H. run_ops (hash_step (growing grow)) (sqlite3HashInit mem) ops =
      Inr (H, snd (run_spec map_step Map.empty ops)) \<and>
    (\<forall>k. is_cstr k \<longrightarrow> sqlite3HashFind H k = Inr (fst (run_spec map_step Map.empty ops) (fold_case k)))"
  using hash_map.run_sim [OF rep_init assms] sqlite3HashFind_ok by metis

lemma sample_answers:
  "snd (run_spec map_step Map.empty sample_ops) = [None, None, None, None, None, None, None, None, None, None, Some 3, Some 4, None]"
  by (simp add: sample_ops_def fold_case_def Tolower_eq uchar_def upper_byte_def)

theorem hash_table_is_map_witness:
  "\<exists>H. run_ops (hash_step (growing Some)) (sqlite3HashInit Map.empty) sample_ops =
      Inr (H, [None, None, None, None, None, None, None, None, None, None, Some 3, Some 4, None])"
  using hash_table_is_map [OF sample_allowed] unfolding sample_answers by blast

end
