(* ===== verification/SqliteInt.thy ===== *)
theory SqliteInt
  imports SqliteCtype "HOL-Library.Signed_Division"
begin

text \<open>
  Integers of SQLite, util.c inside components/Ledger/src/sqlite3.c: reading them from text, in
  decimal and hexadecimal, and the 64-bit and logarithmic arithmetic.  A signed 64-bit value is
  an integer; every signed operation of the code checks its range, and a result outside is the
  fault \<open>SignedOverflow\<close>.  Unsigned values are words and wrap.
\<close>

section \<open>Signed 64-bit values\<close>

definition LARGEST_INT64 :: int where "LARGEST_INT64 = 9223372036854775807"
definition SMALLEST_INT64 :: int where "SMALLEST_INT64 = - 1 - LARGEST_INT64"

definition i64_ok :: "int \<Rightarrow> bool" where
  "i64_ok x \<longleftrightarrow> SMALLEST_INT64 \<le> x \<and> x \<le> LARGEST_INT64"

definition to_i64 :: "int \<Rightarrow> int res" where
  "to_i64 x = (if i64_ok x then Inr x else Inl SignedOverflow)"

lemmas i64_defs = i64_ok_def LARGEST_INT64_def SMALLEST_INT64_def

lemma to_i64_ok [simp]: "i64_ok x \<Longrightarrow> to_i64 x = Inr x"
  by (simp add: to_i64_def)

text \<open>The value that a store of the low 64 bits leaves.\<close>

definition wrap64 :: "int \<Rightarrow> int" where
  "wrap64 x = (x + 9223372036854775808) mod 18446744073709551616 - 9223372036854775808"

lemma wrap64_ok [simp]: "i64_ok x \<Longrightarrow> wrap64 x = x"
  by (simp add: wrap64_def i64_defs)

section \<open>Arithmetic\<close>

text \<open>The overflow builtins of the compiler, as documented: the exact result is stored cut to
  the type, and the answer says whether that changed it.\<close>

definition overflow_builtin :: "int \<Rightarrow> int \<times> int" where
  "overflow_builtin x = (if i64_ok x then 0 else 1, wrap64 x)"

text \<open>Return value and \<open>*pA\<close> afterwards.  The first argument is the condition of the
  preprocessor that selects the builtins.\<close>

definition sqlite3AddInt64 :: "bool \<Rightarrow> int \<Rightarrow> int \<Rightarrow> (int \<times> int) res" where
  "sqlite3AddInt64 gcc iA iB =
     (if gcc then Inr (overflow_builtin (iA + iB))
      else
        bind_res
          (if iB \<ge> 0
           then (if iA > 0 then bind_res (to_i64 (LARGEST_INT64 - iA)) (\<lambda>d. Inr (d < iB)) else Inr False)
           else (if iA < 0
                 then bind_res (to_i64 (iA + LARGEST_INT64)) (\<lambda>s. bind_res (to_i64 (- s)) (\<lambda>d.
                      bind_res (to_i64 (iB + 1)) (\<lambda>b. Inr (d > b))))
                 else Inr False)) (\<lambda>overflow.
        if overflow then Inr (1, iA) else bind_res (to_i64 (iA + iB)) (\<lambda>r. Inr (0, r))))"

definition sqlite3SubInt64 :: "bool \<Rightarrow> int \<Rightarrow> int \<Rightarrow> (int \<times> int) res" where
  "sqlite3SubInt64 gcc iA iB =
     (if gcc then Inr (overflow_builtin (iA - iB))
      else if iB = SMALLEST_INT64
           then (if iA \<ge> 0 then Inr (1, iA) else bind_res (to_i64 (iA - iB)) (\<lambda>r. Inr (0, r)))
      else bind_res (to_i64 (- iB)) (\<lambda>b. sqlite3AddInt64 gcc iA b))"

definition sqlite3MulInt64 :: "bool \<Rightarrow> int \<Rightarrow> int \<Rightarrow> (int \<times> int) res" where
  "sqlite3MulInt64 gcc iA iB =
     (if gcc then Inr (overflow_builtin (iA * iB))
      else
        bind_res
          (if iB > 0 then Inr (iA > LARGEST_INT64 sdiv iB \<or> iA < SMALLEST_INT64 sdiv iB)
           else if iB < 0 then
             (if iA > 0 then Inr (iB < SMALLEST_INT64 sdiv iA)
              else if iA < 0 then
                (if iB = SMALLEST_INT64 \<or> iA = SMALLEST_INT64 then Inr True
                 else bind_res (to_i64 (- iA)) (\<lambda>a. bind_res (to_i64 (- iB)) (\<lambda>b.
                      Inr (a > LARGEST_INT64 sdiv b))))
              else Inr False)
           else Inr False) (\<lambda>overflow.
        if overflow then Inr (1, iA) else bind_res (to_i64 (iA * iB)) (\<lambda>r. Inr (0, r))))"

definition sqlite3AbsInt32 :: "int \<Rightarrow> int res" where
  "sqlite3AbsInt32 x =
     (if x \<ge> 0 then Inr x else if x = cast_int 0x80000000 then Inr 0x7fffffff else to_int (- x))"

lemma add_portable:
  assumes "i64_ok a" "i64_ok b"
  shows "sqlite3AddInt64 False a b = Inr (if i64_ok (a + b) then (0, a + b) else (1, a))"
  using assms by (simp add: sqlite3AddInt64_def i64_defs to_i64_def)

lemma sub_portable:
  assumes "i64_ok a" "i64_ok b"
  shows "sqlite3SubInt64 False a b = Inr (if i64_ok (a - b) then (0, a - b) else (1, a))"
proof (cases "b = SMALLEST_INT64")
  case True
  then show ?thesis using assms by (simp add: sqlite3SubInt64_def i64_defs to_i64_def)
next
  case False
  then have "i64_ok (- b)" using assms(2) by (simp add: i64_defs)
  then show ?thesis using False add_portable [OF assms(1), of "- b"] by (simp add: sqlite3SubInt64_def)
qed

lemma le_div_iff: fixes x y b :: int assumes "0 < b" shows "x \<le> y div b \<longleftrightarrow> x * b \<le> y"
proof
  assume "x \<le> y div b"
  then have "x * b \<le> y div b * b" using assms by simp
  also have "\<dots> \<le> y" using assms by (simp add: minus_mod_eq_div_mult [symmetric])
  finally show "x * b \<le> y" .
next
  assume "x * b \<le> y"
  from zdiv_mono1 [OF this assms] show "x \<le> y div b" using assms by simp
qed

lemma sdiv_bounds:
  fixes b :: int assumes "0 < b"
  shows "9223372036854775807 sdiv b = 9223372036854775807 div b" "9223372036854775808 sdiv b = 9223372036854775808 div b"
  using assms by (simp_all add: signed_divide_int_def)

lemma mul_portable:
  assumes "i64_ok a" "i64_ok b"
  shows "sqlite3MulInt64 False a b = Inr (if i64_ok (a * b) then (0, a * b) else (1, a))"
proof -
  consider "b > 0" | "b < 0" "a > 0" | "b < 0" "a < 0" | "b = 0 \<or> b < 0 \<and> a = 0" by linarith
  then show ?thesis
  proof cases
    case 1
    have "a \<le> LARGEST_INT64 div b \<longleftrightarrow> a * b \<le> LARGEST_INT64" by (rule le_div_iff [OF 1])
    moreover have "- a \<le> 9223372036854775808 div b \<longleftrightarrow> (- a) * b \<le> 9223372036854775808" by (rule le_div_iff [OF 1])
    ultimately show ?thesis using 1
      by (auto simp add: sqlite3MulInt64_def sdiv_bounds not_less to_i64_def i64_defs)
  next
    case 2
    have "- b \<le> 9223372036854775808 div a \<longleftrightarrow> (- b) * a \<le> 9223372036854775808" by (rule le_div_iff [OF 2(2)])
    moreover have "a * b \<le> 0" using 2 by (simp add: mult_pos_neg less_imp_le)
    ultimately show ?thesis using 2
      by (auto simp add: sqlite3MulInt64_def sdiv_bounds not_less to_i64_def i64_defs mult.commute)
  next
    case 3
    have ab: "a * b > 0" using 3 by (simp add: mult_neg_neg)
    show ?thesis
    proof (cases "b = SMALLEST_INT64 \<or> a = SMALLEST_INT64")
      case True
      then have "\<not> i64_ok (a * b)" using 3 by (auto simp add: i64_defs)
      then show ?thesis using True 3 by (simp add: sqlite3MulInt64_def)
    next
      case False
      have ok: "i64_ok (- a)" "i64_ok (- b)" using False assms by (auto simp add: i64_defs)
      have b: "0 < - b" using 3 by simp
      have "- a \<le> LARGEST_INT64 div (- b) \<longleftrightarrow> (- a) * (- b) \<le> LARGEST_INT64" by (rule le_div_iff [OF b])
      moreover have "9223372036854775807 sdiv b = - (9223372036854775807 div (- b))"
        using 3 by (simp add: signed_divide_int_def)
      ultimately show ?thesis using 3 False ok ab
        by (auto simp add: sqlite3MulInt64_def not_less to_i64_def i64_defs)
    qed
  next
    case 4
    then show ?thesis by (elim disjE conjE) (simp_all add: sqlite3MulInt64_def to_i64_def i64_defs)
  qed
qed

lemma abs_int32: "int_ok x \<Longrightarrow> sqlite3AbsInt32 x = Inr (min \<bar>x\<bar> INT_MAX)"
  by (auto simp add: sqlite3AbsInt32_def int_range_defs cast_int_def to_int_def)

section \<open>Decimal integers\<close>

definition SQLITE_UTF8 :: nat where "SQLITE_UTF8 = 1"

text \<open>The bytes that the pointer visits from the start of the text up to \<open>zEnd\<close>: every byte of a
  UTF-8 text, every second byte of a UTF-16 text, up to the first character whose high byte is
  not zero.  The flag tells whether there is such a character.\<close>

fun every_second :: "char list \<Rightarrow> char list" where
  "every_second [] = []"
| "every_second [c] = [c]"
| "every_second (c # d # s) = c # every_second s"

function utf16_high :: "char list \<Rightarrow> nat \<Rightarrow> nat \<Rightarrow> nat res" where
  "utf16_high z len i =
     (if i < len then bind_res (nth_res z i) (\<lambda>c. if c = NUL then utf16_high z len (i + 2) else Inr i)
      else Inr i)"
  by pat_completeness auto
termination by (relation "measure (\<lambda>(z, len, i). len - i)") auto

declare utf16_high.simps [simp del]

definition atoi64_bytes :: "char list \<Rightarrow> nat \<Rightarrow> nat \<Rightarrow> (char list \<times> bool) res" where
  "atoi64_bytes z len enc =
     (if length z < len then Inl OutOfBounds
      else if enc = SQLITE_UTF8 then Inr (take len z, False)
      else let len = len - len mod 2 in
        bind_res (utf16_high z len (3 - enc)) (\<lambda>i.
        let zEnd = (if even i then i + 1 else i - 1)
        in Inr (every_second (drop (enc mod 2) (take zEnd z)), i < len)))"

fun compare_pow63 :: "char list \<Rightarrow> string \<Rightarrow> int res" where
  "compare_pow63 [] p = Inl OutOfBounds"
| "compare_pow63 (z # zs) [] = Inr (uchar z - uchar CHR ''8'')"
| "compare_pow63 (z # zs) (p # ps) =
     (let c = (uchar z - uchar p) * 10 in if c = 0 then compare_pow63 zs ps else Inr c)"

definition compare2pow63 :: "char list \<Rightarrow> int res" where
  "compare2pow63 zNum = compare_pow63 zNum ''922337203685477580''"

fun atoi64_digits :: "u64 \<Rightarrow> char list \<Rightarrow> u64 \<times> char list" where
  "atoi64_digits u [] = (u, [])"
| "atoi64_digits u (c # s) =
     (if uchar c \<ge> uchar CHR ''0'' \<and> uchar c \<le> uchar CHR ''9''
      then atoi64_digits (u * 10 + word_of_int (uchar c) - word_of_int (uchar CHR ''0'')) s
      else (u, c # s))"

fun trailing_rc :: "char list \<Rightarrow> int" where
  "trailing_rc [] = 0"
| "trailing_rc (c # s) = (if \<not> sqlite3Isspace c then 1 else trailing_rc s)"

definition strip_sign :: "char list \<Rightarrow> bool \<times> char list" where
  "strip_sign s = (case s of [] \<Rightarrow> (False, [])
     | c # t \<Rightarrow> if c = CHR ''-'' then (True, t) else if c = CHR ''+'' then (False, t) else (False, s))"

text \<open>Return code and \<open>*pNum\<close>.  The three texts are what is left at \<open>zStart\<close>, behind the leading
  zeros and behind the digits.\<close>

definition sqlite3Atoi64 :: "char list \<Rightarrow> nat \<Rightarrow> nat \<Rightarrow> (int \<times> int) res" where
  "sqlite3Atoi64 z len enc =
     bind_res (atoi64_bytes z len enc) (\<lambda>(view, nonNum).
     let (neg, zStart) = strip_sign (dropWhile sqlite3Isspace view);
         zNum = dropWhile (\<lambda>c. c = CHR ''0'') zStart;
         (u, rest) = atoi64_digits 0 zNum;
         i = length zNum - length rest;
         num = (if uint u > LARGEST_INT64 then (if neg then SMALLEST_INT64 else LARGEST_INT64)
                else if neg then - uint u else uint u);
         rc = (if i = 0 \<and> length zStart = length zNum then -1
               else if nonNum then 1
               else trailing_rc rest)
     in if i < 19 then Inr (rc, num)
        else bind_res (if i > 19 then Inr 1 else compare2pow63 zNum) (\<lambda>c.
          if c < 0 then Inr (rc, num)
          else let num = (if neg then SMALLEST_INT64 else LARGEST_INT64)
               in if c > 0 then Inr (2, num) else Inr (if neg then rc else 3, num)))"

section \<open>Hexadecimal integers and 32-bit integers\<close>

text \<open>A C string is the list of its characters; \<open>at\<close> reads the terminator behind it.\<close>

fun hex_value :: "('a::len) word \<Rightarrow> string \<Rightarrow> 'a word" where
  "hex_value u [] = u"
| "hex_value u (c # s) = hex_value (u * 16 + word_of_int (sqlite3HexToInt c)) s"

definition sqlite3DecOrHexToI64 :: "string \<Rightarrow> (int \<times> int) res" where
  "sqlite3DecOrHexToI64 z =
     (if at z = CHR ''0'' \<and> (at (tl z) = CHR ''x'' \<or> at (tl z) = CHR ''X'')
      then let s = dropWhile (\<lambda>c. c = CHR ''0'') (drop 2 z);
               digits = takeWhile sqlite3Isxdigit s;
               u = hex_value (0 :: u64) digits
           in Inr (if length digits > 16 then 2
                   else if at (drop (length digits) s) \<noteq> NUL then 1 else 0, sint u)
      else let n = (0x3fffffff :: nat) AND length (takeWhile (\<lambda>c. c \<in> set (''+- '' @ [CHR 0x0A, CHR 0x09] @ ''0123456789'')) z);
               n = (if at (drop n z) \<noteq> NUL then n + 1 else n)
           in sqlite3Atoi64 (z @ [NUL]) n SQLITE_UTF8)"

fun int32_digits :: "nat \<Rightarrow> int \<Rightarrow> string \<Rightarrow> int \<times> nat" where
  "int32_digits 0 v z = (v, 0)"
| "int32_digits (Suc n) v z =
     (let c = uchar (at z) - uchar CHR ''0'' in
      if c \<ge> 0 \<and> c \<le> 9 then (case int32_digits n (v * 10 + c) (tl z) of (v, i) \<Rightarrow> (v, Suc i)) else (v, 0))"

text \<open>Return value and \<open>*pValue\<close>, which starts as \<open>x\<close>.\<close>

definition sqlite3GetInt32 :: "string \<Rightarrow> int \<Rightarrow> int \<times> int" where
  "sqlite3GetInt32 z x =
     (let hex = (at z = CHR ''0'' \<and> (at (tl z) = CHR ''x'' \<or> at (tl z) = CHR ''X'') \<and> sqlite3Isxdigit (at (drop 2 z)));
          neg = (at z = CHR ''-'');
          zNum = (if at z = CHR ''-'' \<or> at z = CHR ''+'' then tl z else z)
      in if hex
         then let s = dropWhile (\<lambda>c. c = CHR ''0'') (drop 2 z);
                  digits = takeWhile sqlite3Isxdigit (take 8 s);
                  u = hex_value (0 :: u32) digits
              in if u AND 0x80000000 = 0 \<and> \<not> sqlite3Isxdigit (at (drop (length digits) s))
                 then (1, sint u) else (0, x)
         else if \<not> sqlite3Isdigit (at zNum) then (0, x)
         else case int32_digits 11 0 (dropWhile (\<lambda>c. c = CHR ''0'') zNum) of (v, i) \<Rightarrow>
           if i > 10 then (0, x)
           else if v - (if neg then 1 else 0) > 2147483647 then (0, x)
           else (1, cast_int (if neg then - v else v)))"

definition sqlite3Atoi :: "string \<Rightarrow> int" where
  "sqlite3Atoi z = snd (sqlite3GetInt32 z 0)"

section \<open>Values of digit texts\<close>

definition stops_digits :: "string \<Rightarrow> bool" where
  "stops_digits s \<longleftrightarrow> (s = [] \<or> \<not> is_digit (hd s))"

definition all_digits :: "string \<Rightarrow> bool" where
  "all_digits s \<longleftrightarrow> (\<forall>c\<in>set s. is_digit c)"

lemma all_digits_simps [simp]:
  "all_digits []" "all_digits (c # s) \<longleftrightarrow> is_digit c \<and> all_digits s"
  "all_digits (s @ t) \<longleftrightarrow> all_digits s \<and> all_digits t"
  by (auto simp add: all_digits_def)

lemma digit_val_bounds: "is_digit c \<Longrightarrow> 0 \<le> digit_val c \<and> digit_val c \<le> 9"
  by (simp add: is_digit_def digit_val_def)

lemma digits_val_bounds:
  "all_digits s \<Longrightarrow> n * 10 ^ length s \<le> digits_val n s \<and> digits_val n s < (n + 1) * 10 ^ length s"
proof (induction s arbitrary: n)
  case (Cons c s)
  have d: "0 \<le> digit_val c" "digit_val c \<le> 9" using Cons.prems digit_val_bounds [of c] by simp_all
  have ih: "(10 * n + digit_val c) * 10 ^ length s \<le> digits_val (10 * n + digit_val c) s"
      "digits_val (10 * n + digit_val c) s < (10 * n + digit_val c + 1) * 10 ^ length s"
    using Cons.IH [of "10 * n + digit_val c"] Cons.prems by simp_all
  have "n * 10 ^ length (c # s) = 10 * n * 10 ^ length s" by simp
  also have "\<dots> \<le> (10 * n + digit_val c) * 10 ^ length s"
    using d by (intro mult_right_mono) simp_all
  also note ih(1)
  finally have lo: "n * 10 ^ length (c # s) \<le> digits_val (10 * n + digit_val c) s" .
  note ih(2)
  also have "(10 * n + digit_val c + 1) * 10 ^ length s \<le> (10 * n + 10) * 10 ^ length s"
    using d by (intro mult_right_mono) simp_all
  also have "\<dots> = (n + 1) * 10 ^ length (c # s)" by (simp add: algebra_simps)
  finally show ?case using lo Cons.prems by simp
qed simp

lemma digit_zero: "is_digit c \<Longrightarrow> digit_val c = 0 \<longleftrightarrow> c = CHR ''0''"
  using uchar_inject [of c "CHR ''0''"] by (simp add: digit_val_def uchar_def)

lemma skip_zeros:
  assumes "all_digits s" "stops_digits t"
  shows "\<exists>s'. dropWhile (\<lambda>c. c = CHR ''0'') (s @ t) = s' @ t \<and> all_digits s' \<and> digits_val 0 s' = digits_val 0 s \<and>
    length s' \<le> length s \<and> (s' = [] \<or> 10 ^ (length s' - 1) \<le> digits_val 0 s')"
  using assms(1)
proof (induction s)
  case Nil
  have "dropWhile (\<lambda>c. c = CHR ''0'') t = t"
    using assms(2) by (cases t) (auto simp add: stops_digits_def is_digit_def uchar_def)
  then show ?case by (intro exI [of _ "[]"]) simp
next
  case (Cons c s)
  have z: "is_digit CHR ''0''" "digit_val CHR ''0'' = 0" by (simp_all add: is_digit_def digit_val_def uchar_def)
  show ?case
  proof (cases "c = CHR ''0''")
    case True
    then show ?thesis using Cons z by fastforce
  next
    case False
    then have "1 \<le> digit_val c" using Cons.prems digit_zero [of c] digit_val_bounds [of c] by force
    then have "1 * 10 ^ length s \<le> digit_val c * 10 ^ length s" by (intro mult_right_mono) simp_all
    also have "\<dots> \<le> digits_val 0 (c # s)" using digits_val_bounds [of s "digit_val c"] Cons.prems by simp
    finally show ?thesis using False Cons.prems by (intro exI [of _ "c # s"]) simp
  qed
qed

lemma atoi64_digits_val:
  "all_digits s \<Longrightarrow> stops_digits t \<Longrightarrow>
   atoi64_digits (word_of_int n) (s @ t) = (word_of_int (digits_val n s), t)"
proof (induction s arbitrary: n)
  case Nil
  then show ?case by (cases t) (auto simp add: stops_digits_def is_digit_def uchar_def)
next
  case (Cons c s)
  have w: "word_of_int n * 10 + word_of_int (uchar c) - word_of_int (uchar CHR ''0'') = (word_of_int (10 * n + digit_val c) :: u64)"
    by (simp add: digit_val_def uchar_def algebra_simps)
  have d: "uchar c \<ge> uchar CHR ''0'' \<and> uchar c \<le> uchar CHR ''9''" "is_digit c"
    using Cons.prems(1) by (simp_all add: is_digit_def uchar_def)
  have "atoi64_digits (word_of_int n) ((c # s) @ t) = atoi64_digits (word_of_int (10 * n + digit_val c)) (s @ t)"
    using d(1) by (simp only: append_Cons atoi64_digits.simps simp_thms if_True w)
  also have "\<dots> = (word_of_int (digits_val (10 * n + digit_val c) s), t)"
    by (rule Cons.IH) (use Cons.prems in simp_all)
  finally show ?case using d(2) by (simp only: digits_val.simps if_True)
qed

lemma sgn_diff_heads:
  fixes a b x y m :: int
  assumes "a * m \<le> x" "x < (a + 1) * m" "b * m \<le> y" "y < (b + 1) * m" "a \<noteq> b" "0 < m"
  shows "sgn (x - y) = sgn (a - b)"
proof (cases "a < b")
  case True
  then have "(a + 1) * m \<le> b * m" using assms(6) by (intro mult_right_mono) simp_all
  then have "x < y" using assms(2,3) by linarith
  then show ?thesis using True by (simp add: sgn_if)
next
  case False
  then have "(b + 1) * m \<le> a * m" using assms(5,6) by (intro mult_right_mono) simp_all
  then have "y < x" using assms(1,4) by linarith
  then show ?thesis using False assms(5) by (simp add: sgn_if)
qed

lemma compare_pow63_sgn:
  "all_digits s \<Longrightarrow> all_digits p \<Longrightarrow> length s = Suc (length p) \<Longrightarrow>
   \<exists>c. compare_pow63 (s @ t) p = Inr c \<and> sgn c = sgn (digits_val n s - digits_val n (p @ ''8''))"
proof (induction p arbitrary: s n)
  case Nil
  then obtain c where "s = [c]" by (cases s) auto
  moreover have "is_digit CHR ''8''" by (simp add: is_digit_def uchar_def)
  ultimately show ?case using Nil by (simp add: digit_val_def uchar_def)
next
  case (Cons d p)
  obtain c s' where s: "s = c # s'" "length s' = Suc (length p)" using Cons.prems(3) by (cases s) auto
  have e: "is_digit CHR ''8''" by (simp add: is_digit_def uchar_def)
  show ?case
  proof (cases "c = d")
    case True
    then show ?thesis using Cons.IH [of s' "10 * n + digit_val c"] Cons.prems s by simp
  next
    case False
    then have d: "digit_val c \<noteq> digit_val d" by (simp add: digit_val_def)
    have "sgn (digits_val n s - digits_val n ((d # p) @ ''8'')) = sgn ((10 * n + digit_val c) - (10 * n + digit_val d))"
      using digits_val_bounds [of s' "10 * n + digit_val c"] digits_val_bounds [of "p @ ''8''" "10 * n + digit_val d"]
        Cons.prems s e d
      by (intro sgn_diff_heads [where m = "10 ^ length s'"]) simp_all
    also have "\<dots> = sgn ((uchar c - uchar d) * 10)" by (simp add: digit_val_def sgn_if)
    finally show ?thesis using s(1) False by simp
  qed
qed

lemma compare2pow63_sgn:
  assumes "all_digits s" "length s = 19"
  shows "\<exists>c. compare2pow63 (s @ t) = Inr c \<and> sgn c = sgn (digits_val 0 s - 9223372036854775808)"
proof -
  have "all_digits ''922337203685477580''" by (simp add: is_digit_def uchar_def)
  moreover have "digits_val 0 (''922337203685477580'' @ ''8'') = 9223372036854775808"
    by (simp add: is_digit_def digit_val_def uchar_def)
  ultimately show ?thesis
    using compare_pow63_sgn [of s "''922337203685477580''" t 0] assms by (simp add: compare2pow63_def)
qed

lemma trailing_rc_eq: "trailing_rc s = (if list_all sqlite3Isspace s then 0 else 1)"
  by (induction s) simp_all

definition sign_text :: "string \<Rightarrow> bool" where
  "sign_text sg \<longleftrightarrow> sg = [] \<or> sg = ''-'' \<or> sg = ''+''"

text \<open>The integer a decimal text stands for.\<close>

definition decimal :: "string \<Rightarrow> string \<Rightarrow> int" where
  "decimal sg ds = (if sg = ''-'' then - digits_val 0 ds else digits_val 0 ds)"

lemma not_digits: "\<not> is_digit CHR ''-''" "\<not> is_digit CHR ''+''" "\<not> sqlite3Isspace CHR ''-''" "\<not> sqlite3Isspace CHR ''+''"
  by (simp_all add: is_digit_def uchar_def Isspace_byte space_byte_def)

lemma digit_not_space: "is_digit c \<Longrightarrow> \<not> sqlite3Isspace c"
  by (auto simp add: is_digit_def Isspace_byte space_byte_def)

lemma strip_sign_text:
  assumes "sign_text sg" "all_digits ds" "ds \<noteq> []"
  shows "strip_sign (sg @ ds @ rest) = (sg = ''-'', ds @ rest)"
proof -
  obtain c s where "ds = c # s" "is_digit c" using assms(2,3) by (cases ds) auto
  then have "c \<noteq> CHR ''-''" "c \<noteq> CHR ''+''" using not_digits by auto
  then show ?thesis using assms(1) \<open>ds = c # s\<close> by (auto simp add: sign_text_def strip_sign_def)
qed

lemma skip_space_text:
  assumes "\<forall>c\<in>set ws. sqlite3Isspace c" "sign_text sg" "all_digits ds" "ds \<noteq> []"
  shows "dropWhile sqlite3Isspace (ws @ sg @ ds @ rest) = sg @ ds @ rest"
proof -
  obtain c s where c: "ds = c # s" "is_digit c" using assms(3,4) by (cases ds) auto
  have "\<not> sqlite3Isspace (hd (sg @ ds @ rest))" "sg @ ds @ rest \<noteq> []"
    using assms(2) c digit_not_space not_digits by (auto simp add: sign_text_def)
  then have "dropWhile sqlite3Isspace (sg @ ds @ rest) = sg @ ds @ rest" by (cases "sg @ ds @ rest") auto
  then show ?thesis using assms(1) by simp
qed

lemma uint_word_of_small: "0 \<le> n \<Longrightarrow> n < 18446744073709551616 \<Longrightarrow> uint (word_of_int n :: u64) = n"
  by (simp add: uint_word_of_int)

lemma atoi64_text:
  assumes "\<forall>c\<in>set ws. sqlite3Isspace c" "sign_text sg" "all_digits ds" "ds \<noteq> []" "stops_digits rest"
    "z = ws @ sg @ ds @ rest"
  shows "sqlite3Atoi64 (z @ more) (length z) SQLITE_UTF8 =
    Inr (if i64_ok (decimal sg ds) then (if list_all sqlite3Isspace rest then 0 else 1, decimal sg ds)
      else (if decimal sg ds = 9223372036854775808 then 3 else 2, if sg = ''-'' then SMALLEST_INT64 else LARGEST_INT64))"
proof -
  obtain s where s: "dropWhile (\<lambda>c. c = CHR ''0'') (ds @ rest) = s @ rest" "all_digits s"
      "digits_val 0 s = digits_val 0 ds" "length s \<le> length ds" "s = [] \<or> 10 ^ (length s - 1) \<le> digits_val 0 s"
    using skip_zeros [OF assms(3,5)] by blast
  define v where "v = digits_val 0 ds"
  have v: "0 \<le> v" "v < 10 ^ length s" using digits_val_bounds [OF s(2), of 0] s(3) by (simp_all add: v_def)
  have dg: "atoi64_digits 0 (s @ rest) = (word_of_int v, rest)"
    using atoi64_digits_val [OF s(2) assms(5), of 0] s(3) by (simp add: v_def)
  have dec: "decimal sg ds = (if sg = ''-'' then - v else v)" by (simp add: decimal_def v_def)
  have rc: "(length s = 0 \<and> length ds + length rest = length s + length rest) = False"
    using assms(4) by (cases ds) auto
  have bytes: "atoi64_bytes (z @ more) (length z) SQLITE_UTF8 = Inr (z, False)"
    by (simp add: atoi64_bytes_def)
  define num where "num = (if uint (word_of_int v :: u64) > LARGEST_INT64
    then (if sg = ''-'' then SMALLEST_INT64 else LARGEST_INT64)
    else if sg = ''-'' then - uint (word_of_int v :: u64) else uint (word_of_int v :: u64))"
  have fits: "num = decimal sg ds" if "v \<le> LARGEST_INT64"
    using that v(1) by (simp add: num_def dec uint_word_of_small LARGEST_INT64_def)
  have r: "sqlite3Atoi64 (z @ more) (length z) SQLITE_UTF8 =
      (if length s < 19 then Inr (trailing_rc rest, num)
        else bind_res (if length s > 19 then Inr 1 else compare2pow63 (s @ rest)) (\<lambda>c.
          if c < 0 then Inr (trailing_rc rest, num)
          else let num = (if sg = ''-'' then SMALLEST_INT64 else LARGEST_INT64)
               in if c > 0 then Inr (2, num) else Inr (if sg = ''-'' then trailing_rc rest else 3, num)))"
    unfolding sqlite3Atoi64_def bytes bind_res_Inr prod.case Let_def
    unfolding assms(6) skip_space_text [OF assms(1-4)] strip_sign_text [OF assms(2-4)] prod.case s(1) dg
    by (simp only: prod.case length_append rc if_False num_def [symmetric] add_diff_cancel_right')
  consider "length s < 19" | "length s = 19" | "length s > 19" by linarith
  then show ?thesis
  proof cases
    case 1
    then have "(10::int) ^ length s \<le> 10 ^ 18" by (intro power_increasing) simp_all
    then have "v \<le> LARGEST_INT64" using v(2) by (simp add: LARGEST_INT64_def)
    then show ?thesis using r 1 fits v(1) by (auto simp add: trailing_rc_eq dec i64_defs)
  next
    case 2
    obtain c where c: "compare2pow63 (s @ rest) = Inr c" "sgn c = sgn (v - 9223372036854775808)"
      using compare2pow63_sgn [OF s(2) 2, of rest] s(3) by (auto simp add: v_def)
    have sg: "c < 0 \<longleftrightarrow> v < 9223372036854775808" "c > 0 \<longleftrightarrow> v > 9223372036854775808"
      using c(2) by (auto simp add: sgn_if split: if_splits)
    consider "v < 9223372036854775808" | "v = 9223372036854775808" | "v > 9223372036854775808" by linarith
    then show ?thesis
      using r 2 c(1) sg fits v(1) by cases (auto simp add: trailing_rc_eq dec i64_defs)
  next
    case 3
    then have "(10000000000000000000::int) \<le> 10 ^ (length s - 1)"
      using power_increasing [of 19 "length s - 1" "10 :: int"] by simp
    moreover have "10 ^ (length s - 1) \<le> v" using s(3,5) 3 by (auto simp add: v_def)
    ultimately have "v > 9223372036854775808" by linarith
    then show ?thesis using r 3 by (auto simp add: dec i64_defs)
  qed
qed


lemma at_stops: "stops_digits t \<Longrightarrow> \<not> is_digit (at t)"
  by (cases t) (auto simp add: stops_digits_def is_digit_def uchar_def)

lemma int32_digits_val:
  "all_digits s \<Longrightarrow> stops_digits t \<Longrightarrow>
   int32_digits k v (s @ t) = (digits_val v (take k s), min k (length s))"
proof (induction k arbitrary: s v)
  case (Suc k)
  have z: "uchar CHR ''0'' = 48" by (simp add: uchar_def)
  show ?case
  proof (cases s)
    case Nil
    then show ?thesis using at_stops [OF Suc.prems(2)] by (auto simp add: z is_digit_def Let_def)
  next
    case (Cons c s')
    have d: "is_digit c" "all_digits s'" using Suc.prems(1) Cons by simp_all
    then have "uchar c - 48 \<ge> 0 \<and> uchar c - 48 \<le> 9" by (simp add: is_digit_def)
    then show ?thesis
      using Suc.IH [OF d(2) Suc.prems(2), of "v * 10 + (uchar c - 48)"] d(1) Cons
      by (simp add: z Let_def digit_val_def mult.commute)
  qed
qed simp

lemma Isdigit_eq: "sqlite3Isdigit c = is_digit c"
  by (simp add: Isdigit_byte digit_byte_def is_digit_def)

lemma getint32_text:
  assumes "sign_text sg" "all_digits ds" "ds \<noteq> []" "stops_digits rest"
    "at rest \<noteq> CHR ''x'' \<and> at rest \<noteq> CHR ''X''"
  shows "sqlite3GetInt32 (sg @ ds @ rest) x =
    (if int_ok (decimal sg ds) then (1, decimal sg ds) else (0, x))"
proof -
  let ?z = "sg @ ds @ rest"
  obtain s where s: "dropWhile (\<lambda>c. c = CHR ''0'') (ds @ rest) = s @ rest" "all_digits s"
      "digits_val 0 s = digits_val 0 ds" "s = [] \<or> 10 ^ (length s - 1) \<le> digits_val 0 s"
    using skip_zeros [OF assms(2,4)] by blast
  define v where "v = digits_val 0 ds"
  have v: "0 \<le> v" "v < 10 ^ length s" using digits_val_bounds [OF s(2), of 0] s(3) by (simp_all add: v_def)
  have dec: "decimal sg ds = (if sg = ''-'' then - v else v)" by (simp add: decimal_def v_def)
  obtain d ds' where ds: "ds = d # ds'" "is_digit d" using assms(2,3) by (cases ds) auto
  have signs: "d \<noteq> CHR ''-''" "d \<noteq> CHR ''+''" using ds(2) not_digits by auto
  have nox: "at (ds' @ rest) \<noteq> CHR ''x''" "at (ds' @ rest) \<noteq> CHR ''X''"
    using assms(2,5) ds by (cases ds'; auto simp add: is_digit_def uchar_def)+
  have zNum: "(if at ?z = CHR ''-'' \<or> at ?z = CHR ''+'' then tl ?z else ?z) = ds @ rest" "(at ?z = CHR ''-'') = (sg = ''-'')"
    using assms(1) ds signs by (auto simp add: sign_text_def)
  have hex: "(at ?z = CHR ''0'' \<and> (at (tl ?z) = CHR ''x'' \<or> at (tl ?z) = CHR ''X'') \<and> sqlite3Isxdigit (at (drop 2 ?z))) = False"
    using assms(1) ds nox by (auto simp add: sign_text_def)
  have dig: "sqlite3Isdigit (at (ds @ rest))" using ds by (simp add: Isdigit_eq)
  have r: "sqlite3GetInt32 ?z x =
      (if min 11 (length s) > 10 then (0, x)
       else if digits_val 0 (take 11 s) - (if sg = ''-'' then 1 else 0) > 2147483647 then (0, x)
       else (1, cast_int (if sg = ''-'' then - digits_val 0 (take 11 s) else digits_val 0 (take 11 s))))"
    unfolding sqlite3GetInt32_def Let_def hex zNum(1) unfolding zNum(2) if_False using dig
    by (simp add: s(1) int32_digits_val [OF s(2) assms(4)])
  show ?thesis
  proof (cases "length s > 10")
    case True
    then have "(10000000000::int) \<le> 10 ^ (length s - 1)"
      using power_increasing [of 10 "length s - 1" "10 :: int"] by simp
    moreover have "10 ^ (length s - 1) \<le> v" using s(3,4) True by (auto simp add: v_def)
    ultimately have "v > 2147483648" by linarith
    then have "\<not> int_ok (decimal sg ds)" by (simp add: dec int_range_defs)
    then show ?thesis using r True by simp
  next
    case False
    then have "digits_val 0 (take 11 s) = v" using s(3) by (simp add: v_def)
    then show ?thesis using r False v(1) by (auto simp add: dec int_range_defs cast_int_def)
  qed
qed

section \<open>Printed integers\<close>

lemma all_digits_dec_nat: "all_digits (dec_nat n)"
  using dec_nat_digits by (simp add: all_digits_def)

lemma dec_int_text:
  "\<exists>sg ds. dec_int x = sg @ ds \<and> sign_text sg \<and> all_digits ds \<and> ds \<noteq> [] \<and> decimal sg ds = x"
proof (cases "x < 0")
  case True
  then show ?thesis
    by (intro exI [of _ "''-''"] exI [of _ "dec_nat (nat (- x))"])
      (simp add: dec_int_def sign_text_def all_digits_dec_nat decimal_def digits_val_dec_nat)
next
  case False
  then show ?thesis
    by (intro exI [of _ "[]"] exI [of _ "dec_nat (nat x)"])
      (simp add: dec_int_def sign_text_def all_digits_dec_nat decimal_def digits_val_dec_nat)
qed

lemma stops_Nil [simp]: "stops_digits []"
  by (simp add: stops_digits_def)

lemma dec_nat_no_x:
  "is_digit c \<Longrightarrow> c \<noteq> CHR ''x'' \<and> c \<noteq> CHR ''X''"
  by (auto simp add: is_digit_def uchar_def)

lemma atoi_printed: "int_ok x \<Longrightarrow> sqlite3Atoi (dec_int x) = x"
proof -
  assume x: "int_ok x"
  obtain sg ds where d: "dec_int x = sg @ ds" "sign_text sg" "all_digits ds" "ds \<noteq> []" "decimal sg ds = x"
    using dec_int_text by blast
  show ?thesis
    using getint32_text [OF d(2-4), of "[]" 0] x by (simp add: sqlite3Atoi_def d(1,5))
qed

lemma decimal_chars: "is_digit c \<Longrightarrow> c \<in> set ''0123456789''"
proof -
  assume "is_digit c"
  then have "48 \<le> uchar c" "uchar c \<le> 57" by (simp_all add: is_digit_def)
  then have "uchar c = 48 \<or> uchar c = 49 \<or> uchar c = 50 \<or> uchar c = 51 \<or> uchar c = 52 \<or>
    uchar c = 53 \<or> uchar c = 54 \<or> uchar c = 55 \<or> uchar c = 56 \<or> uchar c = 57" by arith
  moreover have "uchar CHR ''0'' = 48" "uchar CHR ''1'' = 49" "uchar CHR ''2'' = 50" "uchar CHR ''3'' = 51"
    "uchar CHR ''4'' = 52" "uchar CHR ''5'' = 53" "uchar CHR ''6'' = 54" "uchar CHR ''7'' = 55"
    "uchar CHR ''8'' = 56" "uchar CHR ''9'' = 57" by (simp_all add: uchar_def)
  ultimately have "uchar c = uchar CHR ''0'' \<or> uchar c = uchar CHR ''1'' \<or> uchar c = uchar CHR ''2'' \<or>
    uchar c = uchar CHR ''3'' \<or> uchar c = uchar CHR ''4'' \<or> uchar c = uchar CHR ''5'' \<or>
    uchar c = uchar CHR ''6'' \<or> uchar c = uchar CHR ''7'' \<or> uchar c = uchar CHR ''8'' \<or> uchar c = uchar CHR ''9''"
    by (simp only:)
  then show ?thesis unfolding uchar_inject by auto
qed

lemma literal_printed:
  assumes "i64_ok x"
  shows "sqlite3DecOrHexToI64 (dec_int x) = Inr (0, x)"
proof -
  obtain sg ds where d: "dec_int x = sg @ ds" "sign_text sg" "all_digits ds" "ds \<noteq> []" "decimal sg ds = x"
    using dec_int_text by blast
  have len: "length (dec_int x) \<le> 20"
  proof -
    have "length (dec_nat (nat (- x))) \<le> 19" "length (dec_nat (nat x)) \<le> 19"
      using assms by (auto simp add: i64_defs intro!: dec_nat_length)
    then show ?thesis by (simp add: dec_int_def)
  qed
  have nohex: "\<not> (at (dec_int x) = CHR ''0'' \<and> (at (tl (dec_int x)) = CHR ''x'' \<or> at (tl (dec_int x)) = CHR ''X''))"
  proof -
    have "c \<noteq> CHR ''x'' \<and> c \<noteq> CHR ''X''" if "c \<in> set (dec_int x)" for c
      using dec_int_chars [OF that] dec_nat_no_x by auto
    then show ?thesis by (cases "dec_int x"; cases "tl (dec_int x)") (auto simp add: at_def)
  qed
  let ?P = "\<lambda>c. c \<in> set (''+- '' @ [CHR 0x0A, CHR 0x09] @ ''0123456789'')"
  have "\<forall>c\<in>set (dec_int x). ?P c"
  proof
    fix c
    assume "c \<in> set (dec_int x)"
    then have "is_digit c \<or> c = CHR ''-''" by (rule dec_int_chars)
    then show "?P c"
    proof
      assume "is_digit c"
      from decimal_chars [OF this] show ?thesis by (simp only: set_append Un_iff simp_thms)
    next
      assume "c = CHR ''-''"
      then show ?thesis by simp
    qed
  qed
  then have t: "takeWhile ?P (dec_int x) = dec_int x" by (simp only: takeWhile_eq_all_conv)
  have m: "(0x3fffffff :: nat) AND length (dec_int x) = length (dec_int x)"
  proof -
    have "(0x3fffffff :: nat) AND length (dec_int x) = take_bit 30 (length (dec_int x))"
      unfolding take_bit_eq_mask by (simp add: mask_eq_exp_minus_1 and.commute)
    also have "\<dots> = length (dec_int x)" using len by (simp add: take_bit_nat_eq_self)
    finally show ?thesis .
  qed
  have "sqlite3DecOrHexToI64 (dec_int x) = sqlite3Atoi64 (dec_int x @ [NUL]) (length (dec_int x)) SQLITE_UTF8"
    unfolding sqlite3DecOrHexToI64_def if_not_P [OF nohex] t m Let_def by simp
  also have "\<dots> = Inr (0, x)"
    using atoi64_text [of "[]" sg ds "[]" "dec_int x" "[NUL]"] d assms by simp
  finally show ?thesis .
qed

section \<open>Properties\<close>

text \<open>The 64-bit additions, subtractions and multiplications of the virtual machine are exact
  or refused.  For any two 64-bit values the portable code never overflows itself, answers 0 with
  the exact result when that fits and 1 with the operand unchanged when it does not.  With the
  builtins of the compiler the answers are the same, but on overflow the operand is overwritten
  with the cut result.\<close>

theorem int64_arithmetic:
  assumes "i64_ok a" "i64_ok b"
  shows "sqlite3AddInt64 False a b = Inr (if i64_ok (a + b) then (0, a + b) else (1, a)) \<and>
    sqlite3SubInt64 False a b = Inr (if i64_ok (a - b) then (0, a - b) else (1, a)) \<and>
    sqlite3MulInt64 False a b = Inr (if i64_ok (a * b) then (0, a * b) else (1, a)) \<and>
    sqlite3AddInt64 True a b = Inr (if i64_ok (a + b) then (0, a + b) else (1, wrap64 (a + b))) \<and>
    sqlite3SubInt64 True a b = Inr (if i64_ok (a - b) then (0, a - b) else (1, wrap64 (a - b))) \<and>
    sqlite3MulInt64 True a b = Inr (if i64_ok (a * b) then (0, a * b) else (1, wrap64 (a * b))) \<and>
    (\<not> i64_ok (a + b) \<longrightarrow> wrap64 (a + b) \<noteq> a)"
proof -
  have "wrap64 (a + b) \<noteq> a" if "\<not> i64_ok (a + b)"
  proof
    assume "wrap64 (a + b) = a"
    then have "(a + b + 9223372036854775808) mod 18446744073709551616 = (a + 9223372036854775808) mod 18446744073709551616"
      using assms(1) by (simp add: wrap64_def i64_defs)
    then have "18446744073709551616 dvd b" by (simp add: mod_eq_dvd_iff)
    then have "b = 0" using assms(2) zdvd_imp_le [of 18446744073709551616 b] zdvd_imp_le [of 18446744073709551616 "- b"]
      by (auto simp add: i64_defs)
    then show False using that assms(1) by simp
  qed
  then show ?thesis
    using add_portable [OF assms] sub_portable [OF assms] mul_portable [OF assms]
    by (simp add: sqlite3AddInt64_def [of True] sqlite3SubInt64_def [of True] sqlite3MulInt64_def [of True]
        overflow_builtin_def)
qed

theorem int64_arithmetic_witness:
  "sqlite3AddInt64 False 9223372036854775807 1 = Inr (1, 9223372036854775807) \<and>
   sqlite3AddInt64 True 9223372036854775807 1 = Inr (1, - 9223372036854775808)"
  using int64_arithmetic [of 9223372036854775807 1] by (simp add: i64_defs wrap64_def)

text \<open>C39. Integers written in decimal are read exactly or refused.  For white space, an optional
  sign, digits and whatever follows, \<open>sqlite3Atoi64\<close> returns the value with code 0, or 1 when
  something other than white space follows, whenever the value fits 64 bits, and otherwise the
  nearest 64-bit value with code 3 for exactly 2 to the 63 and 2 beyond; \<open>sqlite3GetInt32\<close>
  accepts the value exactly when it fits 32 bits.  An integer printed with \<open>%d\<close>, as the ledger
  prints its amounts, is read back unchanged by all three readers.\<close>

theorem decimal_integers:
  assumes "\<forall>c\<in>set ws. sqlite3Isspace c" "sign_text sg" "all_digits ds" "ds \<noteq> []" "stops_digits rest"
    "at rest \<noteq> CHR ''x'' \<and> at rest \<noteq> CHR ''X''" "z = ws @ sg @ ds @ rest" "int_ok n"
  shows "sqlite3Atoi64 (z @ more) (length z) SQLITE_UTF8 =
      Inr (if i64_ok (decimal sg ds) then (if list_all sqlite3Isspace rest then 0 else 1, decimal sg ds)
        else (if decimal sg ds = 9223372036854775808 then 3 else 2, if sg = ''-'' then SMALLEST_INT64 else LARGEST_INT64)) \<and>
    sqlite3GetInt32 (sg @ ds @ rest) x = (if int_ok (decimal sg ds) then (1, decimal sg ds) else (0, x)) \<and>
    sqlite3DecOrHexToI64 (dec_int n) = Inr (0, n) \<and> sqlite3Atoi (dec_int n) = n"
proof -
  have "i64_ok n" using assms(8) by (simp add: int_range_defs i64_defs)
  then show ?thesis
    using atoi64_text [OF assms(1-5,7)] getint32_text [OF assms(2-6)] literal_printed atoi_printed [OF assms(8)]
    by blast
qed

theorem decimal_integers_witness:
  "sqlite3Atoi64 (''-9223372036854775808'' @ [NUL]) 20 SQLITE_UTF8 = Inr (0, - 9223372036854775808) \<and>
   sqlite3GetInt32 ''-9223372036854775808'' 5 = (0, 5) \<and> sqlite3Atoi (dec_int 500) = 500"
proof -
  have d: "all_digits ''9223372036854775808''" "decimal ''-'' ''9223372036854775808'' = - 9223372036854775808"
    by (simp_all add: is_digit_def uchar_def decimal_def digit_val_def)
  have l: "length ''-9223372036854775808'' = 20" by simp
  show ?thesis
    using decimal_integers [of "[]" "''-''" "''9223372036854775808''" "[]" "''-9223372036854775808''" 500 "[NUL]" 5] d
    unfolding l by (simp add: sign_text_def int_range_defs i64_defs)
qed

end
