(* ===== verification/SqliteRowSet.thy ===== *)
theory SqliteRowSet
  imports Prelude "HOL-Library.Tree"
begin

text \<open>
  Sets of row numbers, rowset.c inside components/Ledger/src/sqlite3.c: values are collected in a
  list, handed out in order without duplicates, or moved batch by batch into a forest of search
  trees and tested for membership.  No entry is ever part of two structures, so a list of entries
  is the list of its values, a tree of entries a tree of values, and the forest the list of its
  trees, with \<open>Leaf\<close> for a null pointer.  A null pointer that the code would follow is a fault.
\<close>

section \<open>State\<close>

definition ROWSET_ALLOCATION_SIZE :: nat where "ROWSET_ALLOCATION_SIZE = 1024"

text \<open>An entry has 24 bytes.\<close>

definition ROWSET_ENTRY_PER_CHUNK :: nat where
  "ROWSET_ENTRY_PER_CHUNK = (ROWSET_ALLOCATION_SIZE - 8) div 24"

text \<open>The bits \<open>ROWSET_SORTED\<close> and \<open>ROWSET_NEXT\<close> of \<open>rsFlags\<close> are two flags.  \<open>mallocFailed\<close> is the
  flag of the connection.\<close>

record rowset =
  pEntry :: "int list"
  pLast :: "int option"
  pForest :: "int tree list"
  nFresh :: nat
  nChunk :: nat
  ROWSET_SORTED :: bool
  ROWSET_NEXT :: bool
  iBatch :: int
  mallocFailed :: bool

definition sqlite3RowSetInit :: "nat \<Rightarrow> rowset" where
  "sqlite3RowSetInit n =
     \<lparr>pEntry = [], pLast = None, pForest = [], nFresh = n, nChunk = 0, ROWSET_SORTED = True,
      ROWSET_NEXT = False, iBatch = 0, mallocFailed = False\<rparr>"

definition sqlite3RowSetClear :: "rowset \<Rightarrow> rowset" where
  "sqlite3RowSetClear p =
     p\<lparr>nChunk := 0, nFresh := 0, pEntry := [], pLast := None, pForest := [],
       ROWSET_SORTED := True, ROWSET_NEXT := False\<rparr>"

section \<open>Operations\<close>

text \<open>\<open>mem\<close> tells whether the allocator grants a chunk.  The answer tells whether there is an entry.\<close>

definition rowSetEntryAlloc :: "bool \<Rightarrow> rowset \<Rightarrow> rowset \<times> bool" where
  "rowSetEntryAlloc mem p =
     (if nFresh p = 0 \<and> \<not> mem then (p\<lparr>mallocFailed := True\<rparr>, False)
      else
        let p = (if nFresh p = 0 then p\<lparr>nChunk := nChunk p + 1, nFresh := ROWSET_ENTRY_PER_CHUNK\<rparr> else p)
        in (p\<lparr>nFresh := nFresh p - 1\<rparr>, True))"

definition sqlite3RowSetInsert :: "bool \<Rightarrow> rowset \<Rightarrow> int \<Rightarrow> rowset" where
  "sqlite3RowSetInsert mem p rowid =
     (case rowSetEntryAlloc mem p of
        (p, False) \<Rightarrow> p
      | (p, True) \<Rightarrow>
          (case pLast p of
             Some v \<Rightarrow> p\<lparr>ROWSET_SORTED := ROWSET_SORTED p \<and> \<not> rowid \<le> v,
                          pEntry := pEntry p @ [rowid], pLast := Some rowid\<rparr>
           | None \<Rightarrow> p\<lparr>pEntry := [rowid], pLast := Some rowid\<rparr>))"

fun merge_entries :: "int list \<Rightarrow> int list \<Rightarrow> int list" where
  "merge_entries [] B = B"
| "merge_entries A [] = A"
| "merge_entries (a # A) (b # B) =
     (if a \<le> b then (if a < b then a # merge_entries A (b # B) else merge_entries A (b # B))
      else b # merge_entries (a # A) B)"

text \<open>The merge follows both pointers before it looks whether a list has ended.\<close>

definition rowSetEntryMerge :: "int list \<Rightarrow> int list \<Rightarrow> int list res" where
  "rowSetEntryMerge pA pB = (if pA = [] \<or> pB = [] then Inl NullDeref else Inr (merge_entries pA pB))"

text \<open>The inner loop of the sort; the array of buckets has 40 entries.\<close>

function sort_place :: "int list list \<Rightarrow> nat \<Rightarrow> int list \<Rightarrow> int list list res" where
  "sort_place aBucket i pIn =
     (if i < length aBucket
      then (if aBucket ! i \<noteq> []
            then bind_res (rowSetEntryMerge (aBucket ! i) pIn) (\<lambda>p. sort_place (aBucket[i := []]) (i + 1) p)
            else Inr (aBucket[i := pIn]))
      else Inl OutOfBounds)"
  by pat_completeness auto
termination by (relation "measure (\<lambda>(bs, i, _). length bs - i)") auto

declare sort_place.simps [simp del]

fun sort_distribute :: "int list list \<Rightarrow> int list \<Rightarrow> int list list res" where
  "sort_distribute aBucket [] = Inr aBucket"
| "sort_distribute aBucket (v # pNext) = bind_res (sort_place aBucket 0 [v]) (\<lambda>bs. sort_distribute bs pNext)"

fun sort_collect :: "int list \<Rightarrow> int list list \<Rightarrow> int list res" where
  "sort_collect pIn [] = Inr pIn"
| "sort_collect pIn (b # bs) =
     (if b = [] then sort_collect pIn bs
      else bind_res (if pIn \<noteq> [] then rowSetEntryMerge pIn b else Inr b) (\<lambda>p. sort_collect p bs))"

definition rowSetEntrySort :: "int list \<Rightarrow> int list res" where
  "rowSetEntrySort pIn =
     bind_res (sort_distribute (replicate 40 []) pIn) (\<lambda>aBucket. sort_collect (hd aBucket) (tl aBucket))"

fun rowSetTreeToList :: "int tree \<Rightarrow> int list" where
  "rowSetTreeToList \<langle>\<rangle> = []"
| "rowSetTreeToList \<langle>l, v, r\<rangle> =
     (if l \<noteq> \<langle>\<rangle> then rowSetTreeToList l @ [v] else [v]) @ (if r \<noteq> \<langle>\<rangle> then rowSetTreeToList r else [])"

text \<open>The tree and the entries left.\<close>

fun rowSetNDeepTree :: "int list \<Rightarrow> nat \<Rightarrow> int tree \<times> int list" where
  "rowSetNDeepTree [] iDepth = (\<langle>\<rangle>, [])"
| "rowSetNDeepTree (v # vs) iDepth =
     (if iDepth > 1
      then (case rowSetNDeepTree (v # vs) (iDepth - 1) of (l, rest) \<Rightarrow>
         (case rest of
            [] \<Rightarrow> (l, [])
          | x # rest \<Rightarrow> (case rowSetNDeepTree rest (iDepth - 1) of (r, rest) \<Rightarrow> (\<langle>l, x, r\<rangle>, rest))))
      else (\<langle>\<langle>\<rangle>, v, \<langle>\<rangle>\<rangle>, vs))"

lemma rowSetNDeepTree_list:
  "inorder (fst (rowSetNDeepTree vs d)) @ snd (rowSetNDeepTree vs d) = vs"
proof (induction vs d rule: rowSetNDeepTree.induct)
  case (2 v vs d)
  show ?case
  proof (cases "d > 1")
    case True
    obtain l rest where l: "rowSetNDeepTree (v # vs) (d - 1) = (l, rest)" by fastforce
    have il: "inorder l @ rest = v # vs" using "2.IH"(1) [OF True] l by simp
    show ?thesis
    proof (cases rest)
      case Nil
      then show ?thesis using True l il by simp
    next
      case (Cons x ys)
      obtain r rest' where r: "rowSetNDeepTree ys (d - 1) = (r, rest')" by fastforce
      have "inorder r @ rest' = ys" using "2.IH"(2) [OF True l [symmetric] Cons] r by simp
      then show ?thesis using True l il Cons r by auto
    qed
  next
    case False
    then show ?thesis by simp
  qed
qed simp

lemma rowSetNDeepTree_length: "length (snd (rowSetNDeepTree vs d)) \<le> length vs"
  using rowSetNDeepTree_list [of vs d] by (metis length_append le_add2)

function list_to_tree_loop :: "int tree \<Rightarrow> int list \<Rightarrow> nat \<Rightarrow> int tree" where
  "list_to_tree_loop p [] iDepth = p"
| "list_to_tree_loop p (v # pList) iDepth =
     (case rowSetNDeepTree pList iDepth of (r, rest) \<Rightarrow> list_to_tree_loop \<langle>p, v, r\<rangle> rest (iDepth + 1))"
  by pat_completeness auto
termination
proof (relation "measure (\<lambda>(_, vs, _). length vs)", goal_cases)
  case (2 p v pList d r rest)
  then show ?case using rowSetNDeepTree_length [of pList d] by (simp add: 2 [symmetric])
qed simp

definition rowSetListToTree :: "int list \<Rightarrow> int tree res" where
  "rowSetListToTree pList =
     (case pList of [] \<Rightarrow> Inl NullDeref | v # vs \<Rightarrow> Inr (list_to_tree_loop \<langle>\<langle>\<rangle>, v, \<langle>\<rangle>\<rangle> vs 1))"

text \<open>The row number is returned when the answer is 1.\<close>

definition sqlite3RowSetNext :: "rowset \<Rightarrow> (rowset \<times> int option) res" where
  "sqlite3RowSetNext p =
     bind_res (if ROWSET_NEXT p then Inr p
               else bind_res (if ROWSET_SORTED p then Inr (pEntry p) else rowSetEntrySort (pEntry p)) (\<lambda>es.
                    Inr (p\<lparr>pEntry := es, ROWSET_SORTED := True, ROWSET_NEXT := True\<rparr>))) (\<lambda>p.
     Inr (case pEntry p of
        [] \<Rightarrow> (p, None)
      | v # es \<Rightarrow> (let p = p\<lparr>pEntry := es\<rparr> in (if es = [] then sqlite3RowSetClear p else p, Some v))))"

text \<open>The batch goes into the first free place of the forest, together with the trees in front of
  it.  The second component is what finds no place.\<close>

fun forest_add :: "int tree list \<Rightarrow> int list \<Rightarrow> (int tree list \<times> int list option) res" where
  "forest_add [] p = Inr ([], Some p)"
| "forest_add (t # ts) p =
     (if t = \<langle>\<rangle> then bind_res (rowSetListToTree p) (\<lambda>t'. Inr (t' # ts, None))
      else bind_res (rowSetEntryMerge (rowSetTreeToList t) p) (\<lambda>p'.
           bind_res (forest_add ts p') (\<lambda>(ts', left). Inr (\<langle>\<rangle> # ts', left))))"

definition rowset_new_batch :: "bool \<Rightarrow> rowset \<Rightarrow> rowset res" where
  "rowset_new_batch mem p =
     bind_res (if ROWSET_SORTED p then Inr (pEntry p) else rowSetEntrySort (pEntry p)) (\<lambda>es.
     bind_res (forest_add (pForest p) es) (\<lambda>(ts, left).
     bind_res (case left of
         None \<Rightarrow> Inr (p\<lparr>pForest := ts\<rparr>)
       | Some es \<Rightarrow>
           (case rowSetEntryAlloc mem p of
              (p, False) \<Rightarrow> Inr (p\<lparr>pForest := ts\<rparr>)
            | (p, True) \<Rightarrow> bind_res (rowSetListToTree es) (\<lambda>t. Inr (p\<lparr>pForest := ts @ [t]\<rparr>)))) (\<lambda>p.
     Inr (p\<lparr>pEntry := [], pLast := None, ROWSET_SORTED := True\<rparr>))))"

fun tree_search :: "int tree \<Rightarrow> int \<Rightarrow> bool" where
  "tree_search \<langle>\<rangle> x = False"
| "tree_search \<langle>l, v, r\<rangle> x = (if v < x then tree_search r x else if v > x then tree_search l x else True)"

definition sqlite3RowSetTest :: "bool \<Rightarrow> rowset \<Rightarrow> int \<Rightarrow> int \<Rightarrow> (rowset \<times> bool) res" where
  "sqlite3RowSetTest mem p batch iRowid =
     bind_res (if batch \<noteq> iBatch p
               then bind_res (if pEntry p \<noteq> [] then rowset_new_batch mem p else Inr p) (\<lambda>p.
                    Inr (p\<lparr>iBatch := batch\<rparr>))
               else Inr p) (\<lambda>p.
     Inr (p, list_ex (\<lambda>t. tree_search t iRowid) (pForest p)))"

section \<open>Lists and trees\<close>

abbreviation ordered :: "int list \<Rightarrow> bool" where
  "ordered \<equiv> sorted_wrt (<)"

lemma merge_entries_ordered:
  "ordered A \<Longrightarrow> ordered B \<Longrightarrow>
   ordered (merge_entries A B) \<and> set (merge_entries A B) = set A \<union> set B"
proof (induction A B rule: merge_entries.induct)
  case (3 a A b B)
  show ?case
  proof (cases a b rule: linorder_cases)
    case less
    then show ?thesis using 3 by auto
  next
    case equal
    then show ?thesis using 3 by auto
  next
    case greater
    then show ?thesis using 3 by auto
  qed
qed simp_all

lemma merge_entries_nonempty: "A \<noteq> [] \<or> B \<noteq> [] \<Longrightarrow> merge_entries A B \<noteq> []"
  by (induction A B rule: merge_entries.induct) auto

lemma tree_to_list_inorder: "rowSetTreeToList t = inorder t"
  by (induction t) auto

lemma list_to_tree_loop_inorder: "inorder (list_to_tree_loop p vs d) = inorder p @ vs"
proof (induction p vs d rule: list_to_tree_loop.induct)
  case (2 p v vs d)
  obtain r rest where r: "rowSetNDeepTree vs d = (r, rest)" by fastforce
  have "inorder r @ rest = vs" using rowSetNDeepTree_list [of vs d] r by simp
  then show ?case using "2.IH" [OF r [symmetric]] r by auto
qed simp

lemma rowSetListToTree_ok:
  "vs \<noteq> [] \<Longrightarrow> \<exists>t. rowSetListToTree vs = Inr t \<and> inorder t = vs"
  by (cases vs) (simp_all add: rowSetListToTree_def list_to_tree_loop_inorder)

lemma tree_search_bst: "ordered (inorder t) \<Longrightarrow> tree_search t x \<longleftrightarrow> x \<in> set_tree t"
  by (induction t) (auto simp add: sorted_wrt_append)

section \<open>Sorting\<close>

text \<open>The buckets in use count in binary the entries that have been distributed.\<close>

fun weight :: "int list list \<Rightarrow> nat" where
  "weight [] = 0"
| "weight (b # bs) = (if b = [] then 0 else 1) + 2 * weight bs"

lemma weight_update:
  "i < length bs \<Longrightarrow> weight (bs[i := x]) + (if bs ! i = [] then 0 else 2 ^ i) = weight bs + (if x = [] then 0 else 2 ^ i)"
proof (induction bs arbitrary: i)
  case (Cons b bs)
  show ?case
  proof (cases i)
    case 0
    then show ?thesis by simp
  next
    case (Suc j)
    then show ?thesis using Cons.IH [of j] Cons.prems by (auto split: if_splits)
  qed
qed simp

lemma set_concat_update:
  "i < length bs \<Longrightarrow> set (concat (bs[i := x])) \<union> set (bs ! i) = set (concat bs) \<union> set x \<or> x \<noteq> [] \<and> bs ! i \<noteq> []"
proof (induction bs arbitrary: i)
  case (Cons b bs)
  show ?case
  proof (cases i)
    case 0
    then show ?thesis by auto
  next
    case (Suc j)
    then show ?thesis using Cons.IH [of j] Cons.prems by auto
  qed
qed simp

definition all_ordered :: "int list list \<Rightarrow> bool" where
  "all_ordered bs \<longleftrightarrow> (\<forall>b\<in>set bs. ordered b)"

lemma sort_place_ok:
  "all_ordered bs \<Longrightarrow> ordered p \<Longrightarrow> p \<noteq> [] \<Longrightarrow> weight bs + 2 ^ i < 2 ^ length bs \<Longrightarrow>
   \<exists>bs'. sort_place bs i p = Inr bs' \<and> length bs' = length bs \<and> all_ordered bs' \<and>
     set (concat bs') = set (concat bs) \<union> set p \<and> weight bs' = weight bs + 2 ^ i"
proof (induction bs i p rule: sort_place.induct)
  case (1 bs i p)
  have i: "i < length bs"
  proof (rule ccontr)
    assume "\<not> i < length bs"
    then have "(2::nat) ^ length bs \<le> 2 ^ i" by (intro power_increasing) simp_all
    then show False using "1.prems"(4) by linarith
  qed
  have o': "ordered (bs ! i)" using "1.prems"(1) i by (simp add: all_ordered_def)
  have upd: "all_ordered (bs[i := x])" if "ordered x" for x
    using all_set_update [of bs ordered x i] that "1.prems"(1) by (simp add: all_ordered_def)
  show ?case
  proof (cases "bs ! i = []")
    case True
    have "set (concat (bs[i := p])) = set (concat bs) \<union> set p" "weight (bs[i := p]) = weight bs + 2 ^ i"
      using set_concat_update [OF i, of p] weight_update [OF i, of p] True "1.prems"(3) by auto
    then show ?thesis using True i upd [OF "1.prems"(2)] by (subst sort_place.simps) simp
  next
    case False
    let ?m = "merge_entries (bs ! i) p"
    have m: "rowSetEntryMerge (bs ! i) p = Inr ?m" using False "1.prems"(3) by (simp add: rowSetEntryMerge_def)
    have mo: "ordered ?m" "set ?m = set (bs ! i) \<union> set p" "?m \<noteq> []"
      using merge_entries_ordered [OF o' "1.prems"(2)] merge_entries_nonempty "1.prems"(3) by auto
    have w: "weight (bs[i := []]) + 2 ^ i = weight bs" using weight_update [OF i, of "[]"] False by simp
    have s: "set (concat (bs[i := []])) \<union> set (bs ! i) = set (concat bs)"
      using set_concat_update [OF i, of "[]"] by auto
    have "weight (bs[i := []]) + 2 ^ (i + 1) < 2 ^ length (bs[i := []])" using w "1.prems"(4) by simp
    then obtain bs' where "sort_place (bs[i := []]) (i + 1) ?m = Inr bs'" "length bs' = length bs" "all_ordered bs'"
        "set (concat bs') = set (concat (bs[i := []])) \<union> set ?m" "weight bs' = weight (bs[i := []]) + 2 ^ (i + 1)"
      using "1.IH" [OF i False m upd mo(1,3)] by auto
    then show ?thesis using i False m mo(2) s w by (subst sort_place.simps) auto
  qed
qed

lemma sort_distribute_ok:
  "all_ordered bs \<Longrightarrow> weight bs + length vs < 2 ^ length bs \<Longrightarrow>
   \<exists>bs'. sort_distribute bs vs = Inr bs' \<and> length bs' = length bs \<and> all_ordered bs' \<and>
     set (concat bs') = set (concat bs) \<union> set vs"
proof (induction vs arbitrary: bs)
  case (Cons v vs)
  have w: "weight bs + 2 ^ 0 < 2 ^ length bs" using Cons.prems(2) by simp
  obtain bs1 where b: "sort_place bs 0 [v] = Inr bs1" "length bs1 = length bs" "all_ordered bs1"
      "set (concat bs1) = set (concat bs) \<union> set [v]" "weight bs1 = weight bs + 2 ^ 0"
    using sort_place_ok [OF Cons.prems(1) _ _ w, of "[v]"] by auto
  then have "weight bs1 + length vs < 2 ^ length bs1" using Cons.prems(2) by simp
  then obtain bs' where "sort_distribute bs1 vs = Inr bs'" "length bs' = length bs1" "all_ordered bs'"
      "set (concat bs') = set (concat bs1) \<union> set vs"
    using Cons.IH [OF b(3)] by blast
  then show ?case using b by auto
qed simp

lemma sort_collect_ok:
  "ordered p \<Longrightarrow> all_ordered bs \<Longrightarrow>
   \<exists>es. sort_collect p bs = Inr es \<and> ordered es \<and> set es = set p \<union> set (concat bs)"
proof (induction bs arbitrary: p)
  case (Cons b bs)
  have o': "ordered b" "all_ordered bs" using Cons.prems(2) by (simp_all add: all_ordered_def)
  show ?case
  proof (cases "b = []")
    case True
    then show ?thesis using Cons.IH [OF Cons.prems(1) o'(2)] by simp
  next
    case False
    let ?q = "if p \<noteq> [] then merge_entries p b else b"
    have q: "(if p \<noteq> [] then rowSetEntryMerge p b else Inr b) = Inr ?q"
      using False by (simp add: rowSetEntryMerge_def)
    have "ordered ?q" "set ?q = set p \<union> set b"
      using merge_entries_ordered [OF Cons.prems(1) o'(1)] o'(1) by auto
    then show ?thesis using Cons.IH [of ?q] o'(2) False q by auto
  qed
qed simp

lemma rowSetEntrySort_ok:
  assumes "length vs < 2 ^ 40"
  shows "\<exists>es. rowSetEntrySort vs = Inr es \<and> ordered es \<and> set es = set vs"
proof -
  have zero: "weight (replicate n []) = 0" for n by (induction n) simp_all
  have a: "all_ordered (replicate 40 [])" by (simp add: all_ordered_def)
  have "weight (replicate 40 []) + length vs < 2 ^ length (replicate 40 ([] :: int list))"
    using assms zero by simp
  then obtain bs where b: "sort_distribute (replicate 40 []) vs = Inr bs" "length bs = 40" "all_ordered bs"
      "set (concat bs) = set (concat (replicate 40 [])) \<union> set vs"
    using sort_distribute_ok [OF a] by (metis length_replicate)
  obtain c cs where c: "bs = c # cs" using b(2) by (cases bs) auto
  have "ordered c" "all_ordered cs" using b(3) c by (simp_all add: all_ordered_def)
  then show ?thesis using sort_collect_ok [of c cs] b(1,4) c by (auto simp add: rowSetEntrySort_def)
qed

section \<open>Refinement to sets\<close>

lemma forest_add_ok:
  "\<forall>t\<in>set ts. ordered (inorder t) \<Longrightarrow> ordered p \<Longrightarrow> p \<noteq> [] \<Longrightarrow>
   \<exists>ts' left. forest_add ts p = Inr (ts', left) \<and> (\<forall>t\<in>set ts'. ordered (inorder t)) \<and>
     (case left of None \<Rightarrow> \<Union> (set_tree ` set ts') = \<Union> (set_tree ` set ts) \<union> set p
      | Some q \<Rightarrow> ordered q \<and> q \<noteq> [] \<and> \<Union> (set_tree ` set ts') \<union> set q = \<Union> (set_tree ` set ts) \<union> set p)"
proof (induction ts arbitrary: p)
  case Nil
  then show ?case by simp
next
  case (Cons t ts)
  show ?case
  proof (cases "t = \<langle>\<rangle>")
    case True
    obtain t' where "rowSetListToTree p = Inr t'" "inorder t' = p"
      using rowSetListToTree_ok [OF Cons.prems(3)] by blast
    then show ?thesis using True Cons.prems by (auto simp flip: set_inorder)
  next
    case False
    let ?m = "merge_entries (inorder t) p"
    have ne: "inorder t \<noteq> []" using False by simp
    have m: "ordered ?m" "set ?m = set_tree t \<union> set p" "?m \<noteq> []"
      using merge_entries_ordered [of "inorder t" p] merge_entries_nonempty Cons.prems by auto
    obtain ts' left where IH: "forest_add ts ?m = Inr (ts', left)" "\<forall>t\<in>set ts'. ordered (inorder t)"
        "case left of None \<Rightarrow> \<Union> (set_tree ` set ts') = \<Union> (set_tree ` set ts) \<union> set ?m
         | Some q \<Rightarrow> ordered q \<and> q \<noteq> [] \<and> \<Union> (set_tree ` set ts') \<union> set q = \<Union> (set_tree ` set ts) \<union> set ?m"
      using Cons.IH [OF _ m(1,3)] Cons.prems(1) by auto
    have "forest_add (t # ts) p = Inr (\<langle>\<rangle> # ts', left)"
      using False IH(1) ne Cons.prems(3) by (simp add: rowSetEntryMerge_def tree_to_list_inorder)
    then show ?thesis using IH(2,3) m(2) by (auto split: option.splits)
  qed
qed

definition last_entry :: "int list \<Rightarrow> int option" where
  "last_entry es = (if es = [] then None else Some (last es))"

text \<open>The abstract state: what has been added to the current batch, what earlier batches added, and
  the number of the batch.\<close>

type_synonym batch_sets = "int set \<times> int set \<times> int"

definition rep_rowset :: "rowset \<Rightarrow> batch_sets \<Rightarrow> bool" where
  "rep_rowset p m \<longleftrightarrow> (case m of (pend, old, b) \<Rightarrow>
     set (pEntry p) = pend \<and> \<Union> (set_tree ` set (pForest p)) = old \<and> iBatch p = b \<and>
     (\<forall>t\<in>set (pForest p). ordered (inorder t)) \<and> (ROWSET_SORTED p \<longrightarrow> ordered (pEntry p)) \<and>
     (\<not> ROWSET_NEXT p \<longrightarrow> pLast p = last_entry (pEntry p)) \<and> (ROWSET_NEXT p \<longrightarrow> ROWSET_SORTED p))"

datatype rowset_op = Add bool int | Test bool int int | Next

fun rowset_step :: "rowset \<Rightarrow> rowset_op \<Rightarrow> (rowset \<times> int option) res" where
  "rowset_step p (Add mem v) = Inr (sqlite3RowSetInsert mem p v, None)"
| "rowset_step p (Test mem b x) =
     bind_res (sqlite3RowSetTest mem p b x) (\<lambda>(p, r). Inr (p, Some (if r then 1 else 0)))"
| "rowset_step p Next = sqlite3RowSetNext p"

fun set_step :: "batch_sets \<Rightarrow> rowset_op \<Rightarrow> batch_sets \<times> int option" where
  "set_step (pend, old, b) (Add mem v) = ((insert v pend, old, b), None)"
| "set_step (pend, old, b) (Test mem b' x) =
     (if b' = b then ((pend, old, b), Some (if x \<in> old then 1 else 0))
      else (({}, old \<union> pend, b'), Some (if x \<in> old \<union> pend then 1 else 0)))"
| "set_step (pend, old, b) Next =
     (if pend = {} then ((pend, old, b), None) else ((pend - {Min pend}, old, b), Some (Min pend)))"

text \<open>The conditions the code asserts, memory for the entries, and fewer entries than the buckets
  of the sort can take.\<close>

definition rowset_ok :: "rowset \<Rightarrow> rowset_op \<Rightarrow> bool" where
  "rowset_ok p c = (case c of
      Add mem v \<Rightarrow> \<not> ROWSET_NEXT p \<and> (mem \<or> 0 < nFresh p)
    | Test mem b x \<Rightarrow> \<not> ROWSET_NEXT p \<and> (mem \<or> 0 < nFresh p) \<and> length (pEntry p) < 2 ^ 40
    | Next \<Rightarrow> pForest p = [] \<and> length (pEntry p) < 2 ^ 40)"

lemma alloc_ok:
  assumes "mem \<or> 0 < nFresh p"
  shows "\<exists>n k. rowSetEntryAlloc mem p = (p\<lparr>nChunk := n, nFresh := k\<rparr>, True)"
  using assms by (cases p) (auto simp add: rowSetEntryAlloc_def Let_def)

lemma rep_rowset_init: "rep_rowset (sqlite3RowSetInit n) ({}, {}, 0)"
  by (simp add: rep_rowset_def sqlite3RowSetInit_def last_entry_def)

lemma ordered_snoc: "ordered (es @ [x]) \<longleftrightarrow> ordered es \<and> (\<forall>e\<in>set es. e < x)"
  by (auto simp add: sorted_wrt_append)

lemma ordered_le_last: "ordered es \<Longrightarrow> e \<in> set es \<Longrightarrow> e \<le> last es"
  by (induction es rule: rev_induct) (auto simp add: sorted_wrt_append less_imp_le)

lemma insert_sim:
  assumes "rep_rowset p (pend, old, b)" "mem \<or> 0 < nFresh p" "\<not> ROWSET_NEXT p"
  shows "rep_rowset (sqlite3RowSetInsert mem p v) (insert v pend, old, b)"
proof -
  obtain n k where a: "rowSetEntryAlloc mem p = (p\<lparr>nChunk := n, nFresh := k\<rparr>, True)" using alloc_ok [OF assms(2)] by blast
  show ?thesis
  proof (cases "pEntry p = []")
    case True
    then show ?thesis using assms(1,3) a by (auto simp add: rep_rowset_def sqlite3RowSetInsert_def last_entry_def)
  next
    case False
    have "ordered (pEntry p) \<Longrightarrow> last (pEntry p) < v \<Longrightarrow> ordered (pEntry p @ [v])"
      using ordered_le_last [of "pEntry p"] by (force simp add: ordered_snoc)
    then show ?thesis using False assms(1,3) a by (auto simp add: rep_rowset_def sqlite3RowSetInsert_def last_entry_def)
  qed
qed

lemma sorted_entries:
  assumes "rep_rowset p (pend, old, b)" "length (pEntry p) < 2 ^ 40"
  shows "\<exists>es. (if ROWSET_SORTED p then Inr (pEntry p) else rowSetEntrySort (pEntry p)) = Inr es \<and>
    ordered es \<and> set es = pend"
  using rowSetEntrySort_ok [OF assms(2)] assms(1) by (auto simp add: rep_rowset_def)

lemma new_batch_sim:
  assumes "rep_rowset p (pend, old, b)" "mem \<or> 0 < nFresh p" "length (pEntry p) < 2 ^ 40" "pEntry p \<noteq> []"
    "\<not> ROWSET_NEXT p"
  shows "\<exists>p'. rowset_new_batch mem p = Inr p' \<and> rep_rowset p' ({}, old \<union> pend, b)"
proof -
  obtain es where es: "(if ROWSET_SORTED p then Inr (pEntry p) else rowSetEntrySort (pEntry p)) = Inr es"
      "ordered es" "set es = pend"
    using sorted_entries [OF assms(1,3)] by blast
  have pend: "pend = set (pEntry p)" using assms(1) by (simp add: rep_rowset_def)
  then have ne: "es \<noteq> []" using es(3) assms(4) by auto
  have f: "\<forall>t\<in>set (pForest p). ordered (inorder t)" "\<Union> (set_tree ` set (pForest p)) = old" "iBatch p = b"
    using assms(1) by (simp_all add: rep_rowset_def)
  obtain ts left where fa: "forest_add (pForest p) es = Inr (ts, left)" "\<forall>t\<in>set ts. ordered (inorder t)"
      "case left of None \<Rightarrow> \<Union> (set_tree ` set ts) = old \<union> pend
       | Some q \<Rightarrow> ordered q \<and> q \<noteq> [] \<and> \<Union> (set_tree ` set ts) \<union> set q = old \<union> pend"
    using forest_add_ok [OF f(1) es(2) ne] unfolding f(2) es(3) by blast
  show ?thesis
  proof (cases left)
    case None
    then show ?thesis
      using es(1) fa f(3) assms(5) unfolding rowset_new_batch_def
      by (simp add: rep_rowset_def last_entry_def)
  next
    case (Some q)
    obtain n k where a: "rowSetEntryAlloc mem p = (p\<lparr>nChunk := n, nFresh := k\<rparr>, True)" using alloc_ok [OF assms(2)] by blast
    have q: "ordered q" "q \<noteq> []" "\<Union> (set_tree ` set ts) \<union> set q = old \<union> pend"
      using fa(3) Some by simp_all
    obtain t where t: "rowSetListToTree q = Inr t" "inorder t = q"
      using rowSetListToTree_ok [OF q(2)] by blast
    have "set_tree t = set q" using t(2) set_inorder [of t] by simp
    then have u: "\<Union> (set_tree ` set (ts @ [t])) = old \<union> pend" using q(3) by auto
    have o': "\<forall>x\<in>set (ts @ [t]). ordered (inorder x)" using fa(2) t(2) q(1) by simp
    let ?p = "p\<lparr>nChunk := n, nFresh := k, pForest := ts @ [t], pEntry := [], pLast := None, ROWSET_SORTED := True\<rparr>"
    have "rowset_new_batch mem p = Inr ?p"
      unfolding rowset_new_batch_def es(1) by (simp add: fa(1) Some a t(1))
    moreover have "rep_rowset ?p ({}, old \<union> pend, b)"
      using u o' f(3) by (simp add: rep_rowset_def last_entry_def)
    ultimately show ?thesis by blast
  qed
qed

lemma Min_ordered: "ordered (v # es) \<Longrightarrow> Min (set (v # es)) = v \<and> set (v # es) - {v} = set es"
proof -
  assume "ordered (v # es)"
  then have l: "\<forall>e\<in>set es. v < e" by simp
  have "Min (set (v # es)) = v" by (rule Min_eqI) (use l less_imp_le in auto)
  moreover have "v \<notin> set es" using l by blast
  ultimately show ?thesis by simp
qed

lemma rowset_step_sim:
  assumes "rep_rowset p m" "rowset_ok p c"
  shows "\<exists>p'. rowset_step p c = Inr (p', snd (set_step m c)) \<and> rep_rowset p' (fst (set_step m c))"
proof -
  obtain pend old b where m: "m = (pend, old, b)" by (cases m)
  note r = assms(1) [unfolded m]
  show ?thesis
  proof (cases c)
    case (Add mem v)
    then show ?thesis using insert_sim [OF r] assms(2) by (simp add: m rowset_ok_def)
  next
    case (Test mem b' x)
    have ok: "\<not> ROWSET_NEXT p" "mem \<or> 0 < nFresh p" "length (pEntry p) < 2 ^ 40"
      using assms(2) Test by (simp_all add: rowset_ok_def)
    have search: "list_ex (\<lambda>t. tree_search t x) (pForest q) \<longleftrightarrow> x \<in> old'" if "rep_rowset q (pend', old', d)" for q pend' old' d
      using that tree_search_bst by (auto simp add: rep_rowset_def list_ex_iff)
    show ?thesis
    proof (cases "b' = b")
      case True
      then show ?thesis using r search [OF r] Test by (simp add: m sqlite3RowSetTest_def rep_rowset_def)
    next
      case False
      have "\<exists>q. (if pEntry p \<noteq> [] then rowset_new_batch mem p else Inr p) = Inr q \<and> rep_rowset q ({}, old \<union> pend, b)"
      proof (cases "pEntry p = []")
        case True
        then have "pend = {}" using r by (simp add: rep_rowset_def)
        then show ?thesis using True r by simp
      next
        case nonempty: False
        then show ?thesis using new_batch_sim [OF r ok(2,3) nonempty ok(1)] by simp
      qed
      then obtain q where q: "(if pEntry p \<noteq> [] then rowset_new_batch mem p else Inr p) = Inr q"
          "rep_rowset q ({}, old \<union> pend, b)" by blast
      have b: "iBatch p = b" using r by (simp add: rep_rowset_def)
      have q': "rep_rowset (q\<lparr>iBatch := b'\<rparr>) ({}, old \<union> pend, b')" using q(2) by (simp add: rep_rowset_def)
      have "sqlite3RowSetTest mem p b' x = Inr (q\<lparr>iBatch := b'\<rparr>, list_ex (\<lambda>t. tree_search t x) (pForest (q\<lparr>iBatch := b'\<rparr>)))"
        unfolding sqlite3RowSetTest_def q(1) b using False by simp
      then show ?thesis using q' search [OF q'] False Test by (simp add: m)
    qed
  next
    case Next
    have ok: "pForest p = []" "length (pEntry p) < 2 ^ 40" using assms(2) Next by (simp_all add: rowset_ok_def)
    then have old: "old = {}" using r by (simp add: rep_rowset_def)
    obtain es where es: "(if ROWSET_SORTED p then Inr (pEntry p) else rowSetEntrySort (pEntry p)) = Inr es"
        "ordered es" "set es = pend"
      using sorted_entries [OF r ok(2)] by blast
    let ?p = "p\<lparr>pEntry := es, ROWSET_SORTED := True, ROWSET_NEXT := True\<rparr>"
    have first: "(if ROWSET_NEXT p then Inr p
        else bind_res (if ROWSET_SORTED p then Inr (pEntry p) else rowSetEntrySort (pEntry p)) (\<lambda>es.
             Inr (p\<lparr>pEntry := es, ROWSET_SORTED := True, ROWSET_NEXT := True\<rparr>))) = Inr ?p"
    proof (cases "ROWSET_NEXT p")
      case True
      then have "pEntry p = es" "ROWSET_SORTED p" using r es(1) by (auto simp add: rep_rowset_def)
      then have "?p = p" using True by (cases p) simp
      then show ?thesis using True by simp
    next
      case False
      then show ?thesis by (simp only: es(1) if_False bind_res_Inr)
    qed
    show ?thesis
    proof (cases es)
      case Nil
      then have "pend = {}" using es(3) by simp
      moreover have "sqlite3RowSetNext p = Inr (?p, None)" unfolding sqlite3RowSetNext_def first using Nil by simp
      moreover have "rep_rowset ?p ({}, old, b)" using r Nil by (simp add: rep_rowset_def)
      ultimately show ?thesis using Next by (simp add: m)
    next
      case (Cons v vs)
      have v: "Min pend = v" "pend - {v} = set vs" "pend \<noteq> {}"
        using Min_ordered [of v vs] es(2,3) Cons by auto
      let ?q = "if vs = [] then sqlite3RowSetClear (?p\<lparr>pEntry := vs\<rparr>) else ?p\<lparr>pEntry := vs\<rparr>"
      have "sqlite3RowSetNext p = Inr (?q, Some v)" unfolding sqlite3RowSetNext_def first using Cons by (simp add: Let_def)
      moreover have "rep_rowset ?q (pend - {Min pend}, old, b)"
        using r v(1,2) es(2) Cons ok(1) old by (auto simp add: rep_rowset_def sqlite3RowSetClear_def last_entry_def)
      ultimately show ?thesis using Next v(1,3) by (simp add: m)
    qed
  qed
qed

interpretation rowset: simulated rep_rowset rowset_ok rowset_step set_step
  by unfold_locales (rule rowset_step_sim)

lemma replicate_40: "replicate 40 x =
  [x, x, x, x, x, x, x, x, x, x, x, x, x, x, x, x, x, x, x, x, x, x, x, x, x, x, x, x, x, x, x, x, x, x, x, x, x, x, x, x]"
  by (simp add: numeral_eq_Suc)

section \<open>Properties\<close>

text \<open>C33. A row set behaves as sets of integers.  Whatever values are added in any order and with
  any repetitions, \<open>sqlite3RowSetNext\<close> hands out the least one left and then removes it, so each
  value once and in increasing order, and \<open>sqlite3RowSetTest\<close> answers whether the value was added
  in a batch before the current one; merging, the bucket sort, the building and flattening of the
  search trees and the forest never lose, invent or misplace a value, never follow a null pointer
  and never leave the array of buckets.  The caller keeps the asserted order of calls, memory is
  granted and fewer than 2 to the 40 entries are sorted at once.\<close>

theorem rowset_is_sets:
  assumes "run_allowed rowset_ok rowset_step (sqlite3RowSetInit n) ops"
  shows "\<exists>p. run_ops rowset_step (sqlite3RowSetInit n) ops = Inr (p, snd (run_spec set_step ({}, {}, 0) ops))"
  using rowset.run_sim [OF rep_rowset_init assms] by blast

theorem rowset_is_sets_witness:
  "\<exists>p. run_ops rowset_step (sqlite3RowSetInit 2)
      [Add False 7, Add True 3, Add True 7, Test True 1 3, Add True 5, Test True 1 5, Test True 2 5] =
    Inr (p, [None, None, None, Some 1, None, Some 0, Some 1])"
proof -
  let ?ops = "[Add False 7, Add True 3, Add True 7, Test True 1 3, Add True 5, Test True 1 5, Test True 2 5]"
  have "run_allowed rowset_ok rowset_step (sqlite3RowSetInit 2) ?ops"
    by (simp add: rowset_ok_def sqlite3RowSetInit_def sqlite3RowSetInsert_def rowSetEntryAlloc_def
        ROWSET_ENTRY_PER_CHUNK_def ROWSET_ALLOCATION_SIZE_def sqlite3RowSetTest_def rowset_new_batch_def
        rowSetEntrySort_def sort_place.simps rowSetEntryMerge_def rowSetListToTree_def replicate_40)
  from rowset_is_sets [OF this] show ?thesis by simp
qed

end
