(* ===== verification/SqlTokens.thy ===== *)
theory SqlTokens
  imports SqliteCtype
begin

text \<open>
  The codes of SQL tokens and their fallbacks, from the generated headers parse.h and parse.c
  inside components/Ledger/src/sqlite3.c: one constant per token, and the table that says
  which keywords the parser may read as identifiers.
\<close>

named_theorems tk_vals \<open>the numbers of the token codes\<close>

section \<open>Tables\<close>

text \<open>An entry of a constant array; the index is an \<open>int\<close> of the code.\<close>

fun tab_walk :: "'a list \<Rightarrow> int \<Rightarrow> 'a res" where
  "tab_walk [] i = Inl OutOfBounds"
| "tab_walk (x # xs) i = (if i = 0 then Inr x else tab_walk xs (i - 1))"

definition tab_at :: "'a list \<Rightarrow> int \<Rightarrow> 'a res" where
  "tab_at xs i = (if i < 0 then Inl OutOfBounds else tab_walk xs i)"

lemma tab_walk_nth: "0 \<le> i \<Longrightarrow> tab_walk xs i = nth_res xs (nat i)"
proof (induction xs arbitrary: i)
  case (Cons x xs)
  show ?case
  proof (cases "i = 0")
    case False
    then have "nat i = Suc (nat (i - 1))" using Cons.prems by simp
    then show ?thesis using False Cons by (simp add: nth_res_def)
  qed simp
qed simp

lemma tab_at_nth: "tab_at xs i = (if i < 0 then Inl OutOfBounds else nth_res xs (nat i))"
  by (simp add: tab_at_def tab_walk_nth)

lemma tab_at_ok: "0 \<le> i \<Longrightarrow> i < int (length xs) \<Longrightarrow> tab_at xs i = Inr (xs ! nat i)"
  by (simp add: tab_at_nth nth_res_def nat_less_iff)

lemma each_entry_tab_at:
  "each_entry P 0 xs \<Longrightarrow> tab_at xs i = Inr x \<Longrightarrow> P i x"
  using each_entry_nth [of P 0 xs "nat i"]
  by (auto simp: tab_at_nth nth_res_def split: if_splits)

section \<open>Token codes\<close>

definition TK_SEMI :: int where [tk_vals]: "TK_SEMI = 1"
definition TK_EXPLAIN :: int where [tk_vals]: "TK_EXPLAIN = 2"
definition TK_QUERY :: int where [tk_vals]: "TK_QUERY = 3"
definition TK_PLAN :: int where [tk_vals]: "TK_PLAN = 4"
definition TK_BEGIN :: int where [tk_vals]: "TK_BEGIN = 5"
definition TK_TRANSACTION :: int where [tk_vals]: "TK_TRANSACTION = 6"
definition TK_DEFERRED :: int where [tk_vals]: "TK_DEFERRED = 7"
definition TK_IMMEDIATE :: int where [tk_vals]: "TK_IMMEDIATE = 8"
definition TK_EXCLUSIVE :: int where [tk_vals]: "TK_EXCLUSIVE = 9"
definition TK_COMMIT :: int where [tk_vals]: "TK_COMMIT = 10"
definition TK_END :: int where [tk_vals]: "TK_END = 11"
definition TK_ROLLBACK :: int where [tk_vals]: "TK_ROLLBACK = 12"
definition TK_SAVEPOINT :: int where [tk_vals]: "TK_SAVEPOINT = 13"
definition TK_RELEASE :: int where [tk_vals]: "TK_RELEASE = 14"
definition TK_TO :: int where [tk_vals]: "TK_TO = 15"
definition TK_TABLE :: int where [tk_vals]: "TK_TABLE = 16"
definition TK_CREATE :: int where [tk_vals]: "TK_CREATE = 17"
definition TK_IF :: int where [tk_vals]: "TK_IF = 18"
definition TK_NOT :: int where [tk_vals]: "TK_NOT = 19"
definition TK_EXISTS :: int where [tk_vals]: "TK_EXISTS = 20"
definition TK_TEMP :: int where [tk_vals]: "TK_TEMP = 21"
definition TK_LP :: int where [tk_vals]: "TK_LP = 22"
definition TK_RP :: int where [tk_vals]: "TK_RP = 23"
definition TK_AS :: int where [tk_vals]: "TK_AS = 24"
definition TK_COMMA :: int where [tk_vals]: "TK_COMMA = 25"
definition TK_WITHOUT :: int where [tk_vals]: "TK_WITHOUT = 26"
definition TK_ABORT :: int where [tk_vals]: "TK_ABORT = 27"
definition TK_ACTION :: int where [tk_vals]: "TK_ACTION = 28"
definition TK_AFTER :: int where [tk_vals]: "TK_AFTER = 29"
definition TK_ANALYZE :: int where [tk_vals]: "TK_ANALYZE = 30"
definition TK_ASC :: int where [tk_vals]: "TK_ASC = 31"
definition TK_ATTACH :: int where [tk_vals]: "TK_ATTACH = 32"
definition TK_BEFORE :: int where [tk_vals]: "TK_BEFORE = 33"
definition TK_BY :: int where [tk_vals]: "TK_BY = 34"
definition TK_CASCADE :: int where [tk_vals]: "TK_CASCADE = 35"
definition TK_CAST :: int where [tk_vals]: "TK_CAST = 36"
definition TK_CONFLICT :: int where [tk_vals]: "TK_CONFLICT = 37"
definition TK_DATABASE :: int where [tk_vals]: "TK_DATABASE = 38"
definition TK_DESC :: int where [tk_vals]: "TK_DESC = 39"
definition TK_DETACH :: int where [tk_vals]: "TK_DETACH = 40"
definition TK_EACH :: int where [tk_vals]: "TK_EACH = 41"
definition TK_FAIL :: int where [tk_vals]: "TK_FAIL = 42"
definition TK_OR :: int where [tk_vals]: "TK_OR = 43"
definition TK_AND :: int where [tk_vals]: "TK_AND = 44"
definition TK_IS :: int where [tk_vals]: "TK_IS = 45"
definition TK_MATCH :: int where [tk_vals]: "TK_MATCH = 46"
definition TK_LIKE_KW :: int where [tk_vals]: "TK_LIKE_KW = 47"
definition TK_BETWEEN :: int where [tk_vals]: "TK_BETWEEN = 48"
definition TK_IN :: int where [tk_vals]: "TK_IN = 49"
definition TK_ISNULL :: int where [tk_vals]: "TK_ISNULL = 50"
definition TK_NOTNULL :: int where [tk_vals]: "TK_NOTNULL = 51"
definition TK_NE :: int where [tk_vals]: "TK_NE = 52"
definition TK_EQ :: int where [tk_vals]: "TK_EQ = 53"
definition TK_GT :: int where [tk_vals]: "TK_GT = 54"
definition TK_LE :: int where [tk_vals]: "TK_LE = 55"
definition TK_LT :: int where [tk_vals]: "TK_LT = 56"
definition TK_GE :: int where [tk_vals]: "TK_GE = 57"
definition TK_ESCAPE :: int where [tk_vals]: "TK_ESCAPE = 58"
definition TK_ID :: int where [tk_vals]: "TK_ID = 59"
definition TK_COLUMNKW :: int where [tk_vals]: "TK_COLUMNKW = 60"
definition TK_DO :: int where [tk_vals]: "TK_DO = 61"
definition TK_FOR :: int where [tk_vals]: "TK_FOR = 62"
definition TK_IGNORE :: int where [tk_vals]: "TK_IGNORE = 63"
definition TK_INITIALLY :: int where [tk_vals]: "TK_INITIALLY = 64"
definition TK_INSTEAD :: int where [tk_vals]: "TK_INSTEAD = 65"
definition TK_NO :: int where [tk_vals]: "TK_NO = 66"
definition TK_KEY :: int where [tk_vals]: "TK_KEY = 67"
definition TK_OF :: int where [tk_vals]: "TK_OF = 68"
definition TK_OFFSET :: int where [tk_vals]: "TK_OFFSET = 69"
definition TK_PRAGMA :: int where [tk_vals]: "TK_PRAGMA = 70"
definition TK_RAISE :: int where [tk_vals]: "TK_RAISE = 71"
definition TK_RECURSIVE :: int where [tk_vals]: "TK_RECURSIVE = 72"
definition TK_REPLACE :: int where [tk_vals]: "TK_REPLACE = 73"
definition TK_RESTRICT :: int where [tk_vals]: "TK_RESTRICT = 74"
definition TK_ROW :: int where [tk_vals]: "TK_ROW = 75"
definition TK_ROWS :: int where [tk_vals]: "TK_ROWS = 76"
definition TK_TRIGGER :: int where [tk_vals]: "TK_TRIGGER = 77"
definition TK_VACUUM :: int where [tk_vals]: "TK_VACUUM = 78"
definition TK_VIEW :: int where [tk_vals]: "TK_VIEW = 79"
definition TK_VIRTUAL :: int where [tk_vals]: "TK_VIRTUAL = 80"
definition TK_WITH :: int where [tk_vals]: "TK_WITH = 81"
definition TK_NULLS :: int where [tk_vals]: "TK_NULLS = 82"
definition TK_FIRST :: int where [tk_vals]: "TK_FIRST = 83"
definition TK_LAST :: int where [tk_vals]: "TK_LAST = 84"
definition TK_CURRENT :: int where [tk_vals]: "TK_CURRENT = 85"
definition TK_FOLLOWING :: int where [tk_vals]: "TK_FOLLOWING = 86"
definition TK_PARTITION :: int where [tk_vals]: "TK_PARTITION = 87"
definition TK_PRECEDING :: int where [tk_vals]: "TK_PRECEDING = 88"
definition TK_RANGE :: int where [tk_vals]: "TK_RANGE = 89"
definition TK_UNBOUNDED :: int where [tk_vals]: "TK_UNBOUNDED = 90"
definition TK_EXCLUDE :: int where [tk_vals]: "TK_EXCLUDE = 91"
definition TK_GROUPS :: int where [tk_vals]: "TK_GROUPS = 92"
definition TK_OTHERS :: int where [tk_vals]: "TK_OTHERS = 93"
definition TK_TIES :: int where [tk_vals]: "TK_TIES = 94"
definition TK_GENERATED :: int where [tk_vals]: "TK_GENERATED = 95"
definition TK_ALWAYS :: int where [tk_vals]: "TK_ALWAYS = 96"
definition TK_MATERIALIZED :: int where [tk_vals]: "TK_MATERIALIZED = 97"
definition TK_REINDEX :: int where [tk_vals]: "TK_REINDEX = 98"
definition TK_RENAME :: int where [tk_vals]: "TK_RENAME = 99"
definition TK_CTIME_KW :: int where [tk_vals]: "TK_CTIME_KW = 100"
definition TK_ANY :: int where [tk_vals]: "TK_ANY = 101"
definition TK_BITAND :: int where [tk_vals]: "TK_BITAND = 102"
definition TK_BITOR :: int where [tk_vals]: "TK_BITOR = 103"
definition TK_LSHIFT :: int where [tk_vals]: "TK_LSHIFT = 104"
definition TK_RSHIFT :: int where [tk_vals]: "TK_RSHIFT = 105"
definition TK_PLUS :: int where [tk_vals]: "TK_PLUS = 106"
definition TK_MINUS :: int where [tk_vals]: "TK_MINUS = 107"
definition TK_STAR :: int where [tk_vals]: "TK_STAR = 108"
definition TK_SLASH :: int where [tk_vals]: "TK_SLASH = 109"
definition TK_REM :: int where [tk_vals]: "TK_REM = 110"
definition TK_CONCAT :: int where [tk_vals]: "TK_CONCAT = 111"
definition TK_PTR :: int where [tk_vals]: "TK_PTR = 112"
definition TK_COLLATE :: int where [tk_vals]: "TK_COLLATE = 113"
definition TK_BITNOT :: int where [tk_vals]: "TK_BITNOT = 114"
definition TK_ON :: int where [tk_vals]: "TK_ON = 115"
definition TK_INDEXED :: int where [tk_vals]: "TK_INDEXED = 116"
definition TK_STRING :: int where [tk_vals]: "TK_STRING = 117"
definition TK_JOIN_KW :: int where [tk_vals]: "TK_JOIN_KW = 118"
definition TK_CONSTRAINT :: int where [tk_vals]: "TK_CONSTRAINT = 119"
definition TK_DEFAULT :: int where [tk_vals]: "TK_DEFAULT = 120"
definition TK_NULL :: int where [tk_vals]: "TK_NULL = 121"
definition TK_PRIMARY :: int where [tk_vals]: "TK_PRIMARY = 122"
definition TK_UNIQUE :: int where [tk_vals]: "TK_UNIQUE = 123"
definition TK_CHECK :: int where [tk_vals]: "TK_CHECK = 124"
definition TK_REFERENCES :: int where [tk_vals]: "TK_REFERENCES = 125"
definition TK_AUTOINCR :: int where [tk_vals]: "TK_AUTOINCR = 126"
definition TK_INSERT :: int where [tk_vals]: "TK_INSERT = 127"
definition TK_DELETE :: int where [tk_vals]: "TK_DELETE = 128"
definition TK_UPDATE :: int where [tk_vals]: "TK_UPDATE = 129"
definition TK_SET :: int where [tk_vals]: "TK_SET = 130"
definition TK_DEFERRABLE :: int where [tk_vals]: "TK_DEFERRABLE = 131"
definition TK_FOREIGN :: int where [tk_vals]: "TK_FOREIGN = 132"
definition TK_DROP :: int where [tk_vals]: "TK_DROP = 133"
definition TK_UNION :: int where [tk_vals]: "TK_UNION = 134"
definition TK_ALL :: int where [tk_vals]: "TK_ALL = 135"
definition TK_EXCEPT :: int where [tk_vals]: "TK_EXCEPT = 136"
definition TK_INTERSECT :: int where [tk_vals]: "TK_INTERSECT = 137"
definition TK_SELECT :: int where [tk_vals]: "TK_SELECT = 138"
definition TK_VALUES :: int where [tk_vals]: "TK_VALUES = 139"
definition TK_DISTINCT :: int where [tk_vals]: "TK_DISTINCT = 140"
definition TK_DOT :: int where [tk_vals]: "TK_DOT = 141"
definition TK_FROM :: int where [tk_vals]: "TK_FROM = 142"
definition TK_JOIN :: int where [tk_vals]: "TK_JOIN = 143"
definition TK_USING :: int where [tk_vals]: "TK_USING = 144"
definition TK_ORDER :: int where [tk_vals]: "TK_ORDER = 145"
definition TK_GROUP :: int where [tk_vals]: "TK_GROUP = 146"
definition TK_HAVING :: int where [tk_vals]: "TK_HAVING = 147"
definition TK_LIMIT :: int where [tk_vals]: "TK_LIMIT = 148"
definition TK_WHERE :: int where [tk_vals]: "TK_WHERE = 149"
definition TK_RETURNING :: int where [tk_vals]: "TK_RETURNING = 150"
definition TK_INTO :: int where [tk_vals]: "TK_INTO = 151"
definition TK_NOTHING :: int where [tk_vals]: "TK_NOTHING = 152"
definition TK_FLOAT :: int where [tk_vals]: "TK_FLOAT = 153"
definition TK_BLOB :: int where [tk_vals]: "TK_BLOB = 154"
definition TK_INTEGER :: int where [tk_vals]: "TK_INTEGER = 155"
definition TK_VARIABLE :: int where [tk_vals]: "TK_VARIABLE = 156"
definition TK_CASE :: int where [tk_vals]: "TK_CASE = 157"
definition TK_WHEN :: int where [tk_vals]: "TK_WHEN = 158"
definition TK_THEN :: int where [tk_vals]: "TK_THEN = 159"
definition TK_ELSE :: int where [tk_vals]: "TK_ELSE = 160"
definition TK_INDEX :: int where [tk_vals]: "TK_INDEX = 161"
definition TK_ALTER :: int where [tk_vals]: "TK_ALTER = 162"
definition TK_ADD :: int where [tk_vals]: "TK_ADD = 163"
definition TK_WINDOW :: int where [tk_vals]: "TK_WINDOW = 164"
definition TK_OVER :: int where [tk_vals]: "TK_OVER = 165"
definition TK_FILTER :: int where [tk_vals]: "TK_FILTER = 166"
definition TK_COLUMN :: int where [tk_vals]: "TK_COLUMN = 167"
definition TK_AGG_FUNCTION :: int where [tk_vals]: "TK_AGG_FUNCTION = 168"
definition TK_AGG_COLUMN :: int where [tk_vals]: "TK_AGG_COLUMN = 169"
definition TK_TRUEFALSE :: int where [tk_vals]: "TK_TRUEFALSE = 170"
definition TK_ISNOT :: int where [tk_vals]: "TK_ISNOT = 171"
definition TK_FUNCTION :: int where [tk_vals]: "TK_FUNCTION = 172"
definition TK_UMINUS :: int where [tk_vals]: "TK_UMINUS = 173"
definition TK_UPLUS :: int where [tk_vals]: "TK_UPLUS = 174"
definition TK_TRUTH :: int where [tk_vals]: "TK_TRUTH = 175"
definition TK_REGISTER :: int where [tk_vals]: "TK_REGISTER = 176"
definition TK_VECTOR :: int where [tk_vals]: "TK_VECTOR = 177"
definition TK_SELECT_COLUMN :: int where [tk_vals]: "TK_SELECT_COLUMN = 178"
definition TK_IF_NULL_ROW :: int where [tk_vals]: "TK_IF_NULL_ROW = 179"
definition TK_ASTERISK :: int where [tk_vals]: "TK_ASTERISK = 180"
definition TK_SPAN :: int where [tk_vals]: "TK_SPAN = 181"
definition TK_ERROR :: int where [tk_vals]: "TK_ERROR = 182"
definition TK_SPACE :: int where [tk_vals]: "TK_SPACE = 183"
definition TK_ILLEGAL :: int where [tk_vals]: "TK_ILLEGAL = 184"

section \<open>Fallback\<close>

definition yyFallback :: "int list" where
  "yyFallback =
    [0, 0, 59, 59, 59, 59, 0, 59, 59, 59, 0, 59, 59, 59, 59, 0, 0, 0, 59, 0, 0, 59, 0, 0,
     0, 0, 59, 59, 59, 59, 59, 59, 59, 59, 59, 59, 59, 59, 59, 59, 59, 59, 59, 0, 0, 0, 59, 59,
     0, 0, 0, 0, 0, 0, 0, 0, 0, 0, 0, 0, 59, 59, 59, 59, 59, 59, 59, 59, 59, 59, 59, 59,
     59, 59, 59, 59, 59, 59, 59, 59, 59, 59, 59, 59, 59, 59, 59, 59, 59, 59, 59, 59, 59, 59, 59, 59,
     59, 59, 59, 59, 59, 0, 0, 0, 0, 0, 0, 0, 0, 0, 0, 0, 0, 0, 0, 0, 0, 0, 0, 0,
     0, 0, 0, 0, 0, 0, 0, 0, 0, 0, 0, 0, 0, 0, 0, 0, 0, 0, 0, 0, 0, 0, 0, 0,
     0, 0, 0, 0, 0, 0, 0, 0, 0, 0, 0, 0, 0, 0, 0, 0, 0, 0, 0, 0, 0, 0, 0, 0,
     0, 0, 0, 0, 0, 0, 0, 0, 0, 0, 0, 0, 0, 0, 0, 0, 0]"

definition sqlite3ParserFallback :: "int \<Rightarrow> int res" where
  "sqlite3ParserFallback iToken = tab_at yyFallback iToken"

text \<open>The comment at the table: a fallback has no fallback.\<close>

lemma length_yyFallback [simp]: "length yyFallback = 185"
  by (simp add: yyFallback_def)

lemma fallback_identifier:
  assumes "0 \<le> t" "t < 185"
  shows "sqlite3ParserFallback t = Inr 0 \<or> sqlite3ParserFallback t = Inr TK_ID"
proof -
  have all: "each_entry (\<lambda>n f. f = 0 \<or> f = 59) 0 yyFallback" by code_simp
  have "tab_at yyFallback t = Inr (yyFallback ! nat t)" using assms by (intro tab_at_ok) simp_all
  with each_entry_tab_at [OF all this] show ?thesis
    by (auto simp: sqlite3ParserFallback_def TK_ID_def)
qed

end
