(* ===== verification/SqlKeywords.thy ===== *)
theory SqlKeywords
  imports SqlTokens
begin

text \<open>
  The keyword recogniser of SQLite, keywordhash.h inside components/Ledger/src/sqlite3.c: the
  tables of its perfect hash, the search, and the functions built on it, with the list of
  keywords it stands for.
\<close>

unbundle bit_operations_syntax

section \<open>Tables\<close>

definition zKWText :: string where
  "zKWText =
    ''REINDEXEDESCAPEACHECKEYBEFOREIGNOREGEXPLAINSTEADDATABASELECT'' @
    ''ABLEFTHENDEFERRABLELSEXCLUDELETEMPORARYISNULLSAVEPOINTERSECT'' @
    ''IESNOTNULLIKEXCEPTRANSACTIONATURALTERAISEXCLUSIVEXISTSCONSTR'' @
    ''AINTOFFSETRIGGERANGENERATEDETACHAVINGLOBEGINNEREFERENCESUNIQ'' @
    ''UERYWITHOUTERELEASEATTACHBETWEENOTHINGROUPSCASCADEFAULTCASEC'' @
    ''OLLATECREATECURRENT_DATEIMMEDIATEJOINSERTMATCHPLANALYZEPRAGM'' @
    ''ATERIALIZEDEFERREDISTINCTUPDATEVALUESVIRTUALWAYSWHENWHERECUR'' @
    ''SIVEABORTAFTERENAMEANDROPARTITIONAUTOINCREMENTCASTCOLUMNCOMM'' @
    ''ITCONFLICTCROSSCURRENT_TIMESTAMPRECEDINGFAILASTFILTEREPLACEF'' @
    ''IRSTFOLLOWINGFROMFULLIMITIFORDERESTRICTOTHERSOVERETURNINGRIG'' @
    ''HTROLLBACKROWSUNBOUNDEDUNIONUSINGVACUUMVIEWINDOWBYINITIALLYP'' @
    ''RIMARY''"

definition aKWHash :: "int list" where
  "aKWHash =
    [84, 92, 134, 82, 105, 29, 0, 0, 94, 0, 85, 72, 0, 53, 35, 86, 15, 0, 42,
     97, 54, 89, 135, 19, 0, 0, 140, 0, 40, 129, 0, 22, 107, 0, 9, 0, 0, 123,
     80, 0, 78, 6, 0, 65, 103, 147, 0, 136, 115, 0, 0, 48, 0, 90, 24, 0, 17,
     0, 27, 70, 23, 26, 5, 60, 142, 110, 122, 0, 73, 91, 71, 145, 61, 120, 74, 0,
     49, 0, 11, 41, 0, 113, 0, 0, 0, 109, 10, 111, 116, 125, 14, 50, 124, 0, 100,
     0, 18, 121, 144, 56, 130, 139, 88, 83, 37, 30, 126, 0, 0, 108, 51, 131, 128, 0,
     34, 0, 0, 132, 0, 98, 38, 39, 0, 20, 45, 117, 93]"

definition aKWNext :: "int list" where
  "aKWNext =
    [0, 0, 0, 0, 0, 4, 0, 43, 0, 0, 106, 114, 0, 0, 0, 2, 0, 0, 143,
     0, 0, 0, 13, 0, 0, 0, 0, 141, 0, 0, 119, 52, 0, 0, 137, 12, 0, 0,
     62, 0, 138, 0, 133, 0, 0, 36, 0, 0, 28, 77, 0, 0, 0, 0, 59, 0, 47,
     0, 0, 0, 0, 0, 0, 0, 0, 0, 0, 69, 0, 0, 0, 0, 0, 146, 3, 0,
     58, 0, 1, 75, 0, 0, 0, 31, 0, 0, 0, 0, 0, 127, 0, 104, 0, 64, 66,
     63, 0, 0, 0, 0, 0, 46, 0, 16, 8, 0, 0, 0, 0, 0, 0, 0, 0, 0,
     0, 81, 101, 0, 112, 21, 7, 67, 0, 79, 96, 118, 0, 0, 68, 0, 0, 99, 44,
     0, 55, 0, 76, 0, 95, 32, 33, 57, 25, 0, 102, 0, 0, 87]"

definition aKWLen :: "int list" where
  "aKWLen =
    [0, 7, 7, 5, 4, 6, 4, 5, 3, 6, 7, 3, 6, 6, 7, 7, 3, 8, 2,
     6, 5, 4, 4, 3, 10, 4, 7, 6, 9, 4, 2, 6, 5, 9, 9, 4, 7, 3,
     2, 4, 4, 6, 11, 6, 2, 7, 5, 5, 9, 6, 10, 4, 6, 2, 3, 7, 5,
     9, 6, 6, 4, 5, 5, 10, 6, 5, 7, 4, 5, 7, 6, 7, 7, 6, 5, 7,
     3, 7, 4, 7, 6, 12, 9, 4, 6, 5, 4, 7, 6, 12, 8, 8, 2, 6, 6,
     7, 6, 4, 5, 9, 5, 5, 6, 3, 4, 9, 13, 2, 2, 4, 6, 6, 8, 5,
     17, 12, 7, 9, 4, 4, 6, 7, 5, 9, 4, 4, 5, 2, 5, 8, 6, 4, 9,
     5, 8, 4, 3, 9, 5, 5, 6, 4, 6, 2, 2, 9, 3, 7]"

definition aKWOffset :: "int list" where
  "aKWOffset =
    [0, 0, 2, 2, 8, 9, 14, 16, 20, 23, 25, 25, 29, 33, 36, 41, 46, 48, 53,
     54, 59, 62, 65, 67, 69, 78, 81, 86, 90, 90, 94, 99, 101, 105, 111, 119, 123, 123,
     123, 126, 129, 132, 137, 142, 146, 147, 152, 156, 160, 168, 174, 181, 184, 184, 187, 189, 195,
     198, 206, 211, 216, 219, 222, 226, 236, 239, 244, 244, 248, 252, 259, 265, 271, 277, 277, 283,
     284, 288, 295, 299, 306, 312, 324, 333, 335, 341, 346, 348, 355, 359, 370, 377, 378, 385, 391,
     397, 402, 408, 412, 415, 424, 429, 433, 439, 441, 444, 453, 455, 457, 466, 470, 476, 482, 490,
     495, 495, 495, 511, 520, 523, 527, 532, 539, 544, 553, 557, 560, 565, 567, 571, 579, 585, 588,
     597, 602, 610, 610, 614, 623, 628, 633, 639, 642, 645, 648, 650, 655, 659]"

definition aKWCode :: "int list" where
  "aKWCode =
    [0, TK_REINDEX, TK_INDEXED, TK_INDEX, TK_DESC, TK_ESCAPE,
     TK_EACH, TK_CHECK, TK_KEY, TK_BEFORE, TK_FOREIGN, TK_FOR,
     TK_IGNORE, TK_LIKE_KW, TK_EXPLAIN, TK_INSTEAD, TK_ADD, TK_DATABASE,
     TK_AS, TK_SELECT, TK_TABLE, TK_JOIN_KW, TK_THEN, TK_END,
     TK_DEFERRABLE, TK_ELSE, TK_EXCLUDE, TK_DELETE, TK_TEMP, TK_TEMP,
     TK_OR, TK_ISNULL, TK_NULLS, TK_SAVEPOINT, TK_INTERSECT, TK_TIES,
     TK_NOTNULL, TK_NOT, TK_NO, TK_NULL, TK_LIKE_KW, TK_EXCEPT,
     TK_TRANSACTION, TK_ACTION, TK_ON, TK_JOIN_KW, TK_ALTER, TK_RAISE,
     TK_EXCLUSIVE, TK_EXISTS, TK_CONSTRAINT, TK_INTO, TK_OFFSET, TK_OF,
     TK_SET, TK_TRIGGER, TK_RANGE, TK_GENERATED, TK_DETACH, TK_HAVING,
     TK_LIKE_KW, TK_BEGIN, TK_JOIN_KW, TK_REFERENCES, TK_UNIQUE, TK_QUERY,
     TK_WITHOUT, TK_WITH, TK_JOIN_KW, TK_RELEASE, TK_ATTACH, TK_BETWEEN,
     TK_NOTHING, TK_GROUPS, TK_GROUP, TK_CASCADE, TK_ASC, TK_DEFAULT,
     TK_CASE, TK_COLLATE, TK_CREATE, TK_CTIME_KW, TK_IMMEDIATE, TK_JOIN,
     TK_INSERT, TK_MATCH, TK_PLAN, TK_ANALYZE, TK_PRAGMA, TK_MATERIALIZED,
     TK_DEFERRED, TK_DISTINCT, TK_IS, TK_UPDATE, TK_VALUES, TK_VIRTUAL,
     TK_ALWAYS, TK_WHEN, TK_WHERE, TK_RECURSIVE, TK_ABORT, TK_AFTER,
     TK_RENAME, TK_AND, TK_DROP, TK_PARTITION, TK_AUTOINCR, TK_TO,
     TK_IN, TK_CAST, TK_COLUMNKW, TK_COMMIT, TK_CONFLICT, TK_JOIN_KW,
     TK_CTIME_KW, TK_CTIME_KW, TK_CURRENT, TK_PRECEDING, TK_FAIL, TK_LAST,
     TK_FILTER, TK_REPLACE, TK_FIRST, TK_FOLLOWING, TK_FROM, TK_JOIN_KW,
     TK_LIMIT, TK_IF, TK_ORDER, TK_RESTRICT, TK_OTHERS, TK_OVER,
     TK_RETURNING, TK_JOIN_KW, TK_ROLLBACK, TK_ROWS, TK_ROW, TK_UNBOUNDED,
     TK_UNION, TK_USING, TK_VACUUM, TK_VIEW, TK_WINDOW, TK_DO,
     TK_BY, TK_INITIALLY, TK_ALL, TK_PRIMARY]"

text \<open>The keywords and their codes, in the order of the tables.\<close>

definition keyword_list :: "(string \<times> int) list" where
  "keyword_list =
    [(''REINDEX'', TK_REINDEX), (''INDEXED'', TK_INDEXED), (''INDEX'', TK_INDEX),
     (''DESC'', TK_DESC), (''ESCAPE'', TK_ESCAPE), (''EACH'', TK_EACH),
     (''CHECK'', TK_CHECK), (''KEY'', TK_KEY), (''BEFORE'', TK_BEFORE),
     (''FOREIGN'', TK_FOREIGN), (''FOR'', TK_FOR), (''IGNORE'', TK_IGNORE),
     (''REGEXP'', TK_LIKE_KW), (''EXPLAIN'', TK_EXPLAIN), (''INSTEAD'', TK_INSTEAD),
     (''ADD'', TK_ADD), (''DATABASE'', TK_DATABASE), (''AS'', TK_AS),
     (''SELECT'', TK_SELECT), (''TABLE'', TK_TABLE), (''LEFT'', TK_JOIN_KW),
     (''THEN'', TK_THEN), (''END'', TK_END), (''DEFERRABLE'', TK_DEFERRABLE),
     (''ELSE'', TK_ELSE), (''EXCLUDE'', TK_EXCLUDE), (''DELETE'', TK_DELETE),
     (''TEMPORARY'', TK_TEMP), (''TEMP'', TK_TEMP), (''OR'', TK_OR),
     (''ISNULL'', TK_ISNULL), (''NULLS'', TK_NULLS), (''SAVEPOINT'', TK_SAVEPOINT),
     (''INTERSECT'', TK_INTERSECT), (''TIES'', TK_TIES), (''NOTNULL'', TK_NOTNULL),
     (''NOT'', TK_NOT), (''NO'', TK_NO), (''NULL'', TK_NULL),
     (''LIKE'', TK_LIKE_KW), (''EXCEPT'', TK_EXCEPT), (''TRANSACTION'', TK_TRANSACTION),
     (''ACTION'', TK_ACTION), (''ON'', TK_ON), (''NATURAL'', TK_JOIN_KW),
     (''ALTER'', TK_ALTER), (''RAISE'', TK_RAISE), (''EXCLUSIVE'', TK_EXCLUSIVE),
     (''EXISTS'', TK_EXISTS), (''CONSTRAINT'', TK_CONSTRAINT), (''INTO'', TK_INTO),
     (''OFFSET'', TK_OFFSET), (''OF'', TK_OF), (''SET'', TK_SET),
     (''TRIGGER'', TK_TRIGGER), (''RANGE'', TK_RANGE), (''GENERATED'', TK_GENERATED),
     (''DETACH'', TK_DETACH), (''HAVING'', TK_HAVING), (''GLOB'', TK_LIKE_KW),
     (''BEGIN'', TK_BEGIN), (''INNER'', TK_JOIN_KW), (''REFERENCES'', TK_REFERENCES),
     (''UNIQUE'', TK_UNIQUE), (''QUERY'', TK_QUERY), (''WITHOUT'', TK_WITHOUT),
     (''WITH'', TK_WITH), (''OUTER'', TK_JOIN_KW), (''RELEASE'', TK_RELEASE),
     (''ATTACH'', TK_ATTACH), (''BETWEEN'', TK_BETWEEN), (''NOTHING'', TK_NOTHING),
     (''GROUPS'', TK_GROUPS), (''GROUP'', TK_GROUP), (''CASCADE'', TK_CASCADE),
     (''ASC'', TK_ASC), (''DEFAULT'', TK_DEFAULT), (''CASE'', TK_CASE),
     (''COLLATE'', TK_COLLATE), (''CREATE'', TK_CREATE), (''CURRENT_DATE'', TK_CTIME_KW),
     (''IMMEDIATE'', TK_IMMEDIATE), (''JOIN'', TK_JOIN), (''INSERT'', TK_INSERT),
     (''MATCH'', TK_MATCH), (''PLAN'', TK_PLAN), (''ANALYZE'', TK_ANALYZE),
     (''PRAGMA'', TK_PRAGMA), (''MATERIALIZED'', TK_MATERIALIZED), (''DEFERRED'', TK_DEFERRED),
     (''DISTINCT'', TK_DISTINCT), (''IS'', TK_IS), (''UPDATE'', TK_UPDATE),
     (''VALUES'', TK_VALUES), (''VIRTUAL'', TK_VIRTUAL), (''ALWAYS'', TK_ALWAYS),
     (''WHEN'', TK_WHEN), (''WHERE'', TK_WHERE), (''RECURSIVE'', TK_RECURSIVE),
     (''ABORT'', TK_ABORT), (''AFTER'', TK_AFTER), (''RENAME'', TK_RENAME),
     (''AND'', TK_AND), (''DROP'', TK_DROP), (''PARTITION'', TK_PARTITION),
     (''AUTOINCREMENT'', TK_AUTOINCR), (''TO'', TK_TO), (''IN'', TK_IN),
     (''CAST'', TK_CAST), (''COLUMN'', TK_COLUMNKW), (''COMMIT'', TK_COMMIT),
     (''CONFLICT'', TK_CONFLICT), (''CROSS'', TK_JOIN_KW), (''CURRENT_TIMESTAMP'', TK_CTIME_KW),
     (''CURRENT_TIME'', TK_CTIME_KW), (''CURRENT'', TK_CURRENT), (''PRECEDING'', TK_PRECEDING),
     (''FAIL'', TK_FAIL), (''LAST'', TK_LAST), (''FILTER'', TK_FILTER),
     (''REPLACE'', TK_REPLACE), (''FIRST'', TK_FIRST), (''FOLLOWING'', TK_FOLLOWING),
     (''FROM'', TK_FROM), (''FULL'', TK_JOIN_KW), (''LIMIT'', TK_LIMIT),
     (''IF'', TK_IF), (''ORDER'', TK_ORDER), (''RESTRICT'', TK_RESTRICT),
     (''OTHERS'', TK_OTHERS), (''OVER'', TK_OVER), (''RETURNING'', TK_RETURNING),
     (''RIGHT'', TK_JOIN_KW), (''ROLLBACK'', TK_ROLLBACK), (''ROWS'', TK_ROWS),
     (''ROW'', TK_ROW), (''UNBOUNDED'', TK_UNBOUNDED), (''UNION'', TK_UNION),
     (''USING'', TK_USING), (''VACUUM'', TK_VACUUM), (''VIEW'', TK_VIEW),
     (''WINDOW'', TK_WINDOW), (''DO'', TK_DO), (''BY'', TK_BY),
     (''INITIALLY'', TK_INITIALLY), (''ALL'', TK_ALL), (''PRIMARY'', TK_PRIMARY)]"

text \<open>How far an entry is from the end of its collision chain.\<close>

definition kw_depth :: "int list" where
  "kw_depth =
    [0, 1, 1, 1, 1, 2, 1, 2, 1, 1, 2, 2, 1, 1, 1, 2, 1, 1, 2, 1, 1, 1, 2, 1, 1, 1, 1, 3, 1, 1,
     3, 2, 1, 1, 2, 2, 1, 1, 2, 1, 4, 1, 2, 1, 1, 2, 1, 1, 2, 2, 1, 1, 1, 1, 2, 1, 2, 1, 1, 1,
     1, 1, 1, 1, 1, 1, 1, 2, 1, 1, 1, 1, 1, 2, 2, 1, 2, 1, 2, 2, 1, 1, 1, 3, 1, 1, 1, 1, 1, 2,
     1, 3, 1, 2, 2, 2, 1, 1, 1, 1, 1, 2, 1, 2, 2, 1, 1, 1, 1, 1, 1, 1, 1, 1, 1, 2, 3, 1, 2, 2,
     3, 3, 1, 3, 2, 3, 1, 1, 2, 1, 1, 2, 2, 1, 2, 1, 3, 1, 3, 2, 2, 2, 2, 1, 2, 1, 1, 2]"

lemma length_kw_tables [simp]:
  "length aKWHash = 127" "length aKWNext = 148" "length aKWLen = 148" "length aKWOffset = 148"
  "length aKWCode = 148" "length kw_depth = 148" "length keyword_list = 147"
  by (simp_all add: aKWHash_def aKWNext_def aKWLen_def aKWOffset_def aKWCode_def kw_depth_def keyword_list_def)

section \<open>Search\<close>

definition charMap :: "char \<Rightarrow> int" where
  "charMap c = at_byte sqlite3UpperToLower c"

text \<open>The cells of a constant text from an offset on.\<close>

fun text_from :: "string \<Rightarrow> int \<Rightarrow> string res" where
  "text_from [] i = (if i = 0 then Inr [] else Inl OutOfBounds)"
| "text_from (c # t) i = (if i = 0 then Inr (c # t) else text_from t (i - 1))"

definition kw_char :: "char \<Rightarrow> int" where
  "kw_char c = uchar c AND NOT 0x20"

text \<open>The loop on j, with the number of characters left.\<close>

fun kw_loop :: "nat \<Rightarrow> string \<Rightarrow> string \<Rightarrow> bool res" where
  "kw_loop 0 z zKW = Inr True"
| "kw_loop (Suc n) z zKW =
     bind_res (nth_res z 0) (\<lambda>c. bind_res (nth_res zKW 0) (\<lambda>k.
       if kw_char c = uchar k then kw_loop n (tl z) (tl zKW) else Inr False))"

definition kw_match :: "string \<Rightarrow> string \<Rightarrow> nat \<Rightarrow> bool res" where
  "kw_match z zKW n =
     bind_res (nth_res z 0) (\<lambda>c. bind_res (nth_res zKW 0) (\<lambda>k.
     if kw_char c \<noteq> uchar k then Inr False else
     bind_res (nth_res z 1) (\<lambda>c. bind_res (nth_res zKW 1) (\<lambda>k.
     if kw_char c \<noteq> uchar k then Inr False else
     kw_loop (n - 2) (drop 2 z) (drop 2 zKW)))))"

lemma kw_chain_ends: "0 < i \<Longrightarrow> tab_at aKWNext i = Inr j \<Longrightarrow>
    0 \<le> j \<and> j < 148 \<and> kw_depth ! nat j < kw_depth ! nat i \<and> 0 \<le> kw_depth ! nat j"
proof -
  assume i: "0 < i" and j: "tab_at aKWNext i = Inr j"
  have "each_entry (\<lambda>n x. n = 0 \<or> 0 \<le> x \<and> x < 148 \<and>
      (case (tab_at kw_depth x, tab_at kw_depth n) of (Inr a, Inr b) \<Rightarrow> 0 \<le> a \<and> a < b | _ \<Rightarrow> False)) 0 aKWNext"
    by code_simp
  from each_entry_tab_at [OF this j] show ?thesis
    using i j by (auto simp: tab_at_nth nth_res_def split: if_splits)
qed

function kw_search :: "string \<Rightarrow> nat \<Rightarrow> int \<Rightarrow> int option res" where
  "kw_search z n i =
     (if \<not> i > 0 then Inr None else
      bind_res (tab_at aKWLen i) (\<lambda>len.
      if len \<noteq> int n then bind_res (tab_at aKWNext i) (\<lambda>i. kw_search z n i) else
      bind_res (tab_at aKWOffset i) (\<lambda>off.
      bind_res (text_from zKWText off) (\<lambda>zKW.
      bind_res (kw_match z zKW n) (\<lambda>same.
      if \<not> same then bind_res (tab_at aKWNext i) (\<lambda>i. kw_search z n i) else
      bind_res (tab_at aKWCode i) (\<lambda>code. Inr (Some code)))))))"
  by pat_completeness auto
termination
  by (relation "measure (\<lambda>(z, n, i). nat (kw_depth ! nat i))") (auto dest: kw_chain_ends)

declare kw_search.simps [simp del]

text \<open>The token type is left as it was when the text is not a keyword.\<close>

definition keywordCode :: "string \<Rightarrow> nat \<Rightarrow> int \<Rightarrow> (nat \<times> int) res" where
  "keywordCode z n pType =
     bind_res (nth_res z 0) (\<lambda>c0. bind_res (nth_res z (n - 1)) (\<lambda>c1.
     bind_res (tab_at aKWHash (((charMap c0 * 4) XOR (charMap c1 * 3) XOR (int n * 1)) mod 127)) (\<lambda>i.
     bind_res (kw_search z n i) (\<lambda>r.
     Inr (n, case r of None \<Rightarrow> pType | Some code \<Rightarrow> code)))))"

definition sqlite3KeywordCode :: "string \<Rightarrow> nat \<Rightarrow> int res" where
  "sqlite3KeywordCode z n =
     (if n \<ge> 2 then bind_res (keywordCode z n TK_ID) (\<lambda>(_, id). Inr id) else Inr TK_ID)"

definition SQLITE_N_KEYWORD :: int where "SQLITE_N_KEYWORD = 147"

definition sqlite3_keyword_name :: "int \<Rightarrow> (string \<times> int) option res" where
  "sqlite3_keyword_name i =
     (if i < 0 \<or> i \<ge> SQLITE_N_KEYWORD then Inr None else
      bind_res (tab_at aKWOffset (i + 1)) (\<lambda>off. bind_res (text_from zKWText off) (\<lambda>z.
      bind_res (tab_at aKWLen (i + 1)) (\<lambda>n. Inr (Some (z, n))))))"

definition sqlite3_keyword_count :: int where "sqlite3_keyword_count = SQLITE_N_KEYWORD"

definition sqlite3_keyword_check :: "string \<Rightarrow> nat \<Rightarrow> bool res" where
  "sqlite3_keyword_check zName nName = bind_res (sqlite3KeywordCode zName nName) (\<lambda>id. Inr (TK_ID \<noteq> id))"

section \<open>The tables hold the keywords\<close>

text \<open>The words of the tables, in one pass over the text: offsets never decrease.\<close>

fun words_at :: "string \<Rightarrow> int \<Rightarrow> (int \<times> string) list \<Rightarrow> bool" where
  "words_at t pos [] \<longleftrightarrow> True"
| "words_at t pos ((off, w) # ws) \<longleftrightarrow>
     pos \<le> off \<and> (case text_from t (off - pos) of Inl _ \<Rightarrow> False
       | Inr u \<Rightarrow> take (length w) u = w \<and> words_at u off ws)"

lemma text_from_add:
  "text_from t i = Inr u \<Longrightarrow> 0 \<le> i \<Longrightarrow> 0 \<le> j \<Longrightarrow> text_from u j = text_from t (i + j)"
proof (induction t i rule: text_from.induct)
  case (2 c t i)
  then show ?case by (cases "i = 0") (auto simp: diff_add_eq)
qed (simp split: if_splits)

lemma words_at_sound:
  "words_at u pos ws \<Longrightarrow> text_from t pos = Inr u \<Longrightarrow> 0 \<le> pos \<Longrightarrow> k < length ws \<Longrightarrow>
     \<exists>v. text_from t (fst (ws ! k)) = Inr v \<and> take (length (snd (ws ! k))) v = snd (ws ! k)"
proof (induction ws arbitrary: u pos k)
  case (Cons w ws)
  obtain off word where w: "w = (off, word)" by (cases w)
  with Cons.prems(1) obtain v where v: "text_from u (off - pos) = Inr v" "pos \<le> off"
    "take (length word) v = word" "words_at v off ws" by (auto split: sum.splits)
  have "text_from t off = Inr v"
    using text_from_add [OF Cons.prems(2,3), of "off - pos"] v(1,2) by simp
  then show ?case
    using Cons.IH [OF v(4), of k] Cons.IH [OF v(4), of "k - 1"] Cons.prems w v(2,3)
    by (cases k) auto
qed simp

lemma kw_words: "words_at zKWText 0 (zip (tl aKWOffset) (map fst keyword_list))"
  by code_simp

lemma kw_lengths: "map (\<lambda>w. int (length w)) (map fst keyword_list) = tl aKWLen"
  by (simp add: keyword_list_def aKWLen_def)

lemma kw_codes: "map snd keyword_list = tl aKWCode"
  by (simp add: keyword_list_def aKWCode_def)

lemma tab_at_tl:
  "length xs = Suc n \<Longrightarrow> k < n \<Longrightarrow> tab_at xs (int k + 1) = Inr (tl xs ! k)"
  by (cases xs) (simp_all add: tab_at_nth nat_add_distrib)

text \<open>The k-th keyword, as the tables give it.\<close>

lemma kw_entry:
  assumes "k < 147"
  shows "tab_at aKWLen (int k + 1) = Inr (int (length (fst (keyword_list ! k))))"
    and "tab_at aKWCode (int k + 1) = Inr (snd (keyword_list ! k))"
    and "\<exists>off v. tab_at aKWOffset (int k + 1) = Inr off \<and> text_from zKWText off = Inr v \<and>
           take (length (fst (keyword_list ! k))) v = fst (keyword_list ! k)"
proof -
  show "tab_at aKWLen (int k + 1) = Inr (int (length (fst (keyword_list ! k))))"
    using assms by (simp add: tab_at_tl [of _ 147] flip: kw_lengths)
  show "tab_at aKWCode (int k + 1) = Inr (snd (keyword_list ! k))"
    using assms by (simp add: tab_at_tl [of _ 147] flip: kw_codes)
  have "text_from zKWText 0 = Inr zKWText" by (simp add: zKWText_def)
  from words_at_sound [OF kw_words this, of k] assms
  show "\<exists>off v. tab_at aKWOffset (int k + 1) = Inr off \<and> text_from zKWText off = Inr v \<and>
           take (length (fst (keyword_list ! k))) v = fst (keyword_list ! k)"
    by (simp add: tab_at_tl [of _ 147])
qed

definition kw_shape :: "string \<Rightarrow> bool" where
  "kw_shape w \<longleftrightarrow> 2 \<le> length w \<and> upper_byte (uchar (hd w)) \<and> upper_byte (uchar (List.last w)) \<and>
     list_all (\<lambda>c. upper_byte (uchar c) \<or> uchar c = 95) w"

definition kw_bucket :: "string \<Rightarrow> int" where
  "kw_bucket w = (((uchar (hd w) + 32) * 4) XOR ((uchar (List.last w) + 32) * 3) XOR int (length w)) mod 127"

function chain_has :: "int \<Rightarrow> int \<Rightarrow> bool" where
  "chain_has j i =
     (if \<not> i > 0 then False else if i = j then True
      else (case tab_at aKWNext i of Inl _ \<Rightarrow> False | Inr i' \<Rightarrow> chain_has j i'))"
  by pat_completeness auto
termination
  by (relation "measure (\<lambda>(j, i). nat (kw_depth ! nat i))") (auto dest: kw_chain_ends)

declare chain_has.simps [simp del]

fun each_word :: "(int \<Rightarrow> string \<Rightarrow> bool) \<Rightarrow> int \<Rightarrow> string list \<Rightarrow> bool" where
  "each_word P k [] \<longleftrightarrow> True"
| "each_word P k (w # ws) \<longleftrightarrow> P k w \<and> each_word P (k + 1) ws"

lemma each_word_nth: "each_word P k ws \<Longrightarrow> n < length ws \<Longrightarrow> P (int n + k) (ws ! n)"
proof (induction ws arbitrary: k n)
  case (Cons w ws)
  then show ?case
    using Cons.IH [of "k + 1" "n - 1"] by (cases n) (auto simp: algebra_simps)
qed simp

text \<open>Every keyword is on the chain of its bucket.\<close>

lemma kw_shapes: "list_all kw_shape (map fst keyword_list)"
  by code_simp

lemma kw_buckets: "each_word (\<lambda>k w. case tab_at aKWHash (kw_bucket w) of
    Inl _ \<Rightarrow> False | Inr i \<Rightarrow> chain_has k i) 1 (map fst keyword_list)"
  by code_simp

lemma kw_distinct: "distinct (map fst keyword_list)"
  by code_simp

section \<open>The search against the list\<close>

lemma kw_loop_eq:
  "n \<le> length z \<Longrightarrow> n \<le> length v \<Longrightarrow>
     kw_loop n z v = Inr (map kw_char (take n z) = map uchar (take n v))"
proof (induction n arbitrary: z v)
  case (Suc n)
  then obtain c z' k v' where "z = c # z'" "v = k # v'" by (auto simp: Suc_le_length_iff)
  with Suc show ?case by simp
qed simp

lemma kw_match_eq:
  assumes "2 \<le> n" "n \<le> length z" "n \<le> length v"
  shows "kw_match z v n = Inr (map kw_char (take n z) = map uchar (take n v))"
proof -
  have "n = Suc (Suc (n - 2))" using assms(1) by simp
  then obtain m where n: "n = Suc (Suc m)" by blast
  obtain a b z' where z: "z = a # b # z'" using assms n by (auto simp: Suc_le_length_iff)
  obtain c d v' where v: "v = c # d # v'" using assms n by (auto simp: Suc_le_length_iff)
  show ?thesis using assms by (simp add: kw_match_def n z v kw_loop_eq)
qed

text \<open>What a text is compared as: its characters with the bit of lower case cleared.\<close>

definition kw_key :: "string \<Rightarrow> int list" where "kw_key s = map kw_char s"

definition kw_word :: "nat \<Rightarrow> int list" where "kw_word k = map uchar (fst (keyword_list ! k))"

lemma kw_search_step:
  assumes "k < 147" "2 \<le> n" "n \<le> length z"
  shows "kw_search z n (int k + 1) =
     (if kw_key (take n z) = kw_word k then Inr (Some (snd (keyword_list ! k)))
      else bind_res (tab_at aKWNext (int k + 1)) (\<lambda>i. kw_search z n i))"
proof -
  obtain off v where v: "tab_at aKWOffset (int k + 1) = Inr off" "text_from zKWText off = Inr v"
    "take (length (fst (keyword_list ! k))) v = fst (keyword_list ! k)"
    using kw_entry(3) [OF assms(1)] by auto
  have len: "length (kw_key (take n z)) = n" using assms(3) by (simp add: kw_key_def)
  show ?thesis
  proof (cases "length (fst (keyword_list ! k)) = n")
    case True
    then have "n \<le> length v" using arg_cong [OF v(3), of length] by simp
    then have "kw_match z v n = Inr (kw_key (take n z) = kw_word k)"
      using kw_match_eq [OF assms(2,3), of v] v(3) True by (simp add: kw_key_def kw_word_def)
    then show ?thesis
      using kw_entry(1,2) [OF assms(1)] v(1,2) True by (subst kw_search.simps) simp
  next
    case False
    then have "kw_key (take n z) \<noteq> kw_word k" using len by (metis kw_word_def length_map)
    then show ?thesis
      using kw_entry(1) [OF assms(1)] False by (subst kw_search.simps) simp
  qed
qed

lemma kw_search_result:
  assumes "0 \<le> i" "i \<le> 147" "2 \<le> n" "n \<le> length z"
  shows "\<exists>r. kw_search z n i = Inr r \<and>
     (r = None \<longrightarrow> (\<forall>k<147. chain_has (int k + 1) i \<longrightarrow> kw_key (take n z) \<noteq> kw_word k)) \<and>
     (\<forall>c. r = Some c \<longrightarrow> (\<exists>k<147. kw_key (take n z) = kw_word k \<and> c = snd (keyword_list ! k)))"
  using assms
proof (induction "nat (kw_depth ! nat i)" arbitrary: i rule: less_induct)
  case less
  show ?case
  proof (cases "i = 0")
    case True
    then show ?thesis by (simp add: kw_search.simps chain_has.simps)
  next
    case False
    define k where "k = nat (i - 1)"
    have k: "k < 147" "i = int k + 1" using False less.prems by (auto simp: k_def)
    obtain j where j: "tab_at aKWNext i = Inr j" using less.prems by (auto simp: tab_at_ok)
    have jb: "0 \<le> j" "j \<le> 147" "nat (kw_depth ! nat j) < nat (kw_depth ! nat i)"
      using kw_chain_ends [OF _ j] False less.prems(1) by auto
    have chain: "chain_has m i \<longleftrightarrow> i = m \<or> chain_has m j" for m
      using False less.prems(1) j by (subst chain_has.simps) simp
    obtain r where r: "kw_search z n j = Inr r"
      "r = None \<longrightarrow> (\<forall>k<147. chain_has (int k + 1) j \<longrightarrow> kw_key (take n z) \<noteq> kw_word k)"
      "\<forall>c. r = Some c \<longrightarrow> (\<exists>k<147. kw_key (take n z) = kw_word k \<and> c = snd (keyword_list ! k))"
      using less.hyps [OF jb(3) jb(1,2) less.prems(3,4)] by blast
    show ?thesis
    proof (cases "kw_key (take n z) = kw_word k")
      case True
      then show ?thesis using kw_search_step [OF k(1) less.prems(3,4)] k by auto
    next
      case False
      then have "kw_search z n i = Inr r"
        using kw_search_step [OF k(1) less.prems(3,4)] k(2) j r(1) by simp
      moreover have "kw_key (take n z) \<noteq> kw_word m" if "r = None" "m < 147" "chain_has (int m + 1) i" for m
        using that r(2) chain [of "int m + 1"] False k(2) by auto
      ultimately show ?thesis using r(3) by blast
    qed
  qed
qed

lemma kw_char_table:
  "each_entry (\<lambda>n m. upper_byte (n AND NOT 0x20) \<longrightarrow> m = (n AND NOT 0x20) + 32) 0 sqlite3UpperToLower"
  by code_simp

lemma charMap_upper: "kw_char c = u \<Longrightarrow> upper_byte u \<Longrightarrow> charMap c = u + 32"
  using each_entry_byte [OF kw_char_table, of c] by (simp add: kw_char_def charMap_def)

lemma kw_word_shape: "k < 147 \<Longrightarrow> kw_shape (fst (keyword_list ! k))"
  using kw_shapes by (simp add: list_all_length)

text \<open>A text that reads as a keyword falls into the keyword's bucket.\<close>

lemma kw_bucket_eq:
  assumes "k < 147" "kw_key (take n z) = kw_word k" "n \<le> length z"
  shows "((charMap (z ! 0) * 4) XOR (charMap (z ! (n - 1)) * 3) XOR (int n * 1)) mod 127 =
    kw_bucket (fst (keyword_list ! k))"
proof -
  let ?w = "fst (keyword_list ! k)"
  have n: "length ?w = n" using arg_cong [OF assms(2), of length] assms(3) by (simp add: kw_key_def kw_word_def)
  have shape: "2 \<le> length ?w" "upper_byte (uchar (hd ?w))" "upper_byte (uchar (List.last ?w))"
    using kw_word_shape [OF assms(1)] by (simp_all add: kw_shape_def)
  have eq: "kw_char (z ! i) = uchar (?w ! i)" if "i < n" for i
    using arg_cong [OF assms(2), of "\<lambda>l. l ! i"] that assms(3) n by (simp add: kw_key_def kw_word_def)
  have "charMap (z ! 0) = uchar (hd ?w) + 32"
    using eq [of 0] shape n by (intro charMap_upper) (cases ?w, auto)
  moreover have "charMap (z ! (n - 1)) = uchar (List.last ?w) + 32"
    using eq [of "n - 1"] shape n by (intro charMap_upper) (cases "?w = []", auto simp: last_conv_nth)
  ultimately show ?thesis by (simp add: kw_bucket_def n)
qed

lemma kw_hash_range: "each_entry (\<lambda>n x. 0 \<le> x \<and> x \<le> 147) 0 aKWHash"
  by code_simp

text \<open>The recogniser in terms of the list of keywords.\<close>

definition keyword_value :: "int list \<Rightarrow> int option" where
  "keyword_value key = map_of (map (\<lambda>(w, c). (map uchar w, c)) keyword_list) key"

lemma inj_uchar: "inj uchar"
  by (rule injI) simp

lemma keyword_value_Some:
  "keyword_value key = Some c \<longleftrightarrow> (\<exists>k<147. key = kw_word k \<and> c = snd (keyword_list ! k))"
proof -
  have "distinct (map (map uchar) (map fst keyword_list))"
    unfolding distinct_map [of "map uchar"] using kw_distinct
    by (auto intro: inj_onI simp: inj_map_eq_map inj_uchar)
  then have "distinct (map fst (map (\<lambda>(w, c). (map uchar w, c)) keyword_list))"
    by (simp add: comp_def case_prod_unfold)
  then have "keyword_value key = Some c \<longleftrightarrow> (key, c) \<in> set (map (\<lambda>(w, c). (map uchar w, c)) keyword_list)"
    unfolding keyword_value_def by (rule map_of_eq_Some_iff)
  also have "\<dots> \<longleftrightarrow> (\<exists>k<147. key = kw_word k \<and> c = snd (keyword_list ! k))"
    by (auto simp: in_set_conv_nth kw_word_def split_def simp del: set_map)
  finally show ?thesis .
qed

lemma keywordCode_value:
  assumes "2 \<le> n" "n \<le> length z"
  shows "keywordCode z n t =
    Inr (n, case keyword_value (kw_key (take n z)) of None \<Rightarrow> t | Some c \<Rightarrow> c)"
proof -
  let ?h = "((charMap (z ! 0) * 4) XOR (charMap (z ! (n - 1)) * 3) XOR (int n * 1)) mod 127"
  have h: "tab_at aKWHash ?h = Inr (aKWHash ! nat ?h)" by (rule tab_at_ok) simp_all
  let ?i = "aKWHash ! nat ?h"
  have i: "0 \<le> ?i" "?i \<le> 147" using each_entry_tab_at [OF kw_hash_range h] by simp_all
  obtain r where r: "kw_search z n ?i = Inr r"
    "r = None \<longrightarrow> (\<forall>k<147. chain_has (int k + 1) ?i \<longrightarrow> kw_key (take n z) \<noteq> kw_word k)"
    "\<forall>c. r = Some c \<longrightarrow> (\<exists>k<147. kw_key (take n z) = kw_word k \<and> c = snd (keyword_list ! k))"
    using kw_search_result [OF i assms] by blast
  have "r = keyword_value (kw_key (take n z))"
  proof (cases r)
    case (Some c)
    then show ?thesis using r(3) keyword_value_Some by (metis)
  next
    case None
    have "kw_key (take n z) \<noteq> kw_word k" if "k < 147" for k
    proof
      assume "kw_key (take n z) = kw_word k"
      then have "?h = kw_bucket (fst (keyword_list ! k))" using kw_bucket_eq assms that by blast
      moreover have "case tab_at aKWHash (kw_bucket (fst (keyword_list ! k))) of
          Inl _ \<Rightarrow> False | Inr i \<Rightarrow> chain_has (int k + 1) i"
        using each_word_nth [OF kw_buckets, of k] that by simp
      ultimately have "chain_has (int k + 1) ?i" using h by simp
      then show False using r(2) None that \<open>kw_key (take n z) = kw_word k\<close> by blast
    qed
    then have "keyword_value (kw_key (take n z)) = None"
      using keyword_value_Some [of "kw_key (take n z)"] by (metis option.exhaust)
    then show ?thesis using None by simp
  qed
  moreover have "nth_res z 0 = Inr (z ! 0)" "nth_res z (n - 1) = Inr (z ! (n - 1))"
    using assms by (auto intro!: nth_res_ok)
  ultimately show ?thesis using h r(1) by (simp add: keywordCode_def)
qed

lemma kw_key_table: "list_all (\<lambda>u. each_entry (\<lambda>n m. n = 127 \<or> (n AND NOT 0x20 = u) = (m = u + (if u = 95 then 0 else 32)))
    0 sqlite3UpperToLower) (95 # [65..90])"
  by code_simp

lemma kw_char_lower:
  assumes "uchar c \<noteq> 127" "upper_byte (uchar k) \<or> uchar k = 95"
  shows "kw_char c = uchar k \<longleftrightarrow> lower_char c = lower_char k"
proof -
  have "uchar k = 95 \<or> uchar k \<in> {65..90}" using assms(2) by (auto simp: upper_byte_def)
  then have "uchar k \<in> set (95 # [65..90])" unfolding list.set set_upto by blast
  with kw_key_table have "each_entry (\<lambda>n m. n = 127 \<or> (n AND NOT 0x20 = uchar k) =
      (m = uchar k + (if uchar k = 95 then 0 else 32))) 0 sqlite3UpperToLower"
    unfolding list_all_iff by blast
  from each_entry_byte [OF this, of c] assms show ?thesis
    by (auto simp: kw_char_def Tolower_eq [of k] upper_byte_def simp flip: sqlite3Tolower_def)
qed

lemma kw_key_fold:
  "\<forall>c\<in>set s. uchar c \<noteq> 127 \<Longrightarrow> list_all (\<lambda>c. upper_byte (uchar c) \<or> uchar c = 95) w \<Longrightarrow>
     kw_key s = map uchar w \<longleftrightarrow> fold_case s = fold_case w"
proof (induction s arbitrary: w)
  case (Cons c s)
  then show ?case by (cases w) (simp_all add: kw_key_def kw_char_lower del: lower_char_eq_iff)
qed (simp add: kw_key_def fold_case_def)

section \<open>Properties\<close>

text \<open>C27. The perfect hash is the list of keywords: for every text without a DEL character, of
  whatever length, the search through the tables ends, stays inside them, and returns the code of
  the keyword the text equals up to ASCII case, or the code of an identifier when there is
  none.\<close>

theorem keyword_recognition:
  assumes "n \<le> length z" "CHR 0x7f \<notin> set (take n z)"
  shows "sqlite3KeywordCode z n = Inr
    (case find (\<lambda>(w, _). fold_case w = fold_case (take n z)) keyword_list of
       None \<Rightarrow> TK_ID | Some (_, c) \<Rightarrow> c)"
proof -
  let ?P = "\<lambda>(w, _ :: int). fold_case w = fold_case (take n z)"
  have del: "\<forall>c\<in>set (take n z). uchar c \<noteq> 127"
  proof
    fix c assume "c \<in> set (take n z)"
    with assms(2) have "c \<noteq> CHR 0x7f" by auto
    then have "uchar c \<noteq> uchar (CHR 0x7f)" by simp
    then show "uchar c \<noteq> 127" by (simp add: uchar_def)
  qed
  have same: "kw_key (take n z) = kw_word k \<longleftrightarrow> ?P (keyword_list ! k)" if "k < 147" for k
    using kw_key_fold [OF del, of "fst (keyword_list ! k)"] kw_word_shape [OF that]
    by (auto simp: kw_word_def kw_shape_def split: prod.split)
  have long: "\<not> ?P x" if "x \<in> set keyword_list" "n < 2" for x
  proof -
    obtain k where k: "k < 147" "x = keyword_list ! k" using \<open>x \<in> set keyword_list\<close> by (auto simp: in_set_conv_nth)
    have "length (fold_case (fst x)) \<ge> 2" using kw_word_shape [OF k(1)] k(2) by (simp add: kw_shape_def fold_case_def)
    then have "fold_case (fst x) \<noteq> fold_case (take n z)" using that(2) by (auto simp: fold_case_def dest: arg_cong [of _ _ length])
    then show ?thesis by (simp add: split_def)
  qed
  show ?thesis
  proof (cases "find ?P keyword_list")
    case None
    then have no: "\<not> ?P x" if "x \<in> set keyword_list" for x
      using that unfolding find_None_iff by blast
    then have "keyword_value (kw_key (take n z)) = None" if "2 \<le> n"
      using keyword_value_Some [of "kw_key (take n z)"] same nth_mem [of _ keyword_list]
      by (metis (no_types, lifting) length_kw_tables(7) option.exhaust)
    then show ?thesis
      using None assms(1) by (simp add: sqlite3KeywordCode_def keywordCode_value)
  next
    case (Some x)
    then obtain k where k: "k < 147" "?P (keyword_list ! k)" "x = keyword_list ! k"
      by (auto simp: find_Some_iff)
    have "2 \<le> n" using long [of x] k by (metis (no_types, lifting) length_kw_tables(7) not_le nth_mem)
    moreover have "keyword_value (kw_key (take n z)) = Some (snd x)"
      using keyword_value_Some same [OF k(1)] k by blast
    ultimately show ?thesis
      using Some assms(1) by (simp add: sqlite3KeywordCode_def keywordCode_value split_def)
  qed
qed

theorem keyword_recognition_witness:
  "sqlite3KeywordCode ''InSeRt into'' 6 = Inr TK_INSERT \<and> sqlite3KeywordCode ''users'' 5 = Inr TK_ID"
proof
  show "sqlite3KeywordCode ''InSeRt into'' 6 = Inr TK_INSERT"
    using keyword_recognition [of 6 "''InSeRt into''"]
    by (simp add: keyword_list_def fold_case_def Tolower_eq uchar_def upper_byte_def)
  show "sqlite3KeywordCode ''users'' 5 = Inr TK_ID"
    using keyword_recognition [of 5 "''users''"]
    by (simp add: keyword_list_def fold_case_def Tolower_eq uchar_def upper_byte_def)
qed

text \<open>The exception: the comparison clears one bit, so a DEL passes for an underscore.\<close>

lemma keyword_check_DEL:
  "sqlite3_keyword_check (''CURRENT'' @ [CHR 0x7f] @ ''DATE'') 12 = Inr True"
proof -
  let ?z = "''CURRENT'' @ [CHR 0x7f] @ ''DATE''"
  have "kw_key ?z = map uchar ''CURRENT_DATE''" by (simp add: kw_key_def kw_char_def uchar_def)
  moreover have "keyword_list ! 80 = (''CURRENT_DATE'', TK_CTIME_KW)" by (simp add: keyword_list_def)
  ultimately have "keyword_value (kw_key ?z) = Some TK_CTIME_KW"
    using keyword_value_Some [of "kw_key ?z"] by (auto simp: kw_word_def intro!: exI [of _ 80])
  then show ?thesis
    using keywordCode_value [of 12 ?z TK_ID]
    by (simp add: sqlite3_keyword_check_def sqlite3KeywordCode_def TK_ID_def TK_CTIME_KW_def)
qed

end
