(* ===== verification/SqlTokenizer.thy ===== *)
theory SqlTokenizer
  imports SqlKeywords
begin

text \<open>
  The SQL tokenizer, tokenize.c inside components/Ledger/src/sqlite3.c: the character classes
  and \<open>sqlite3GetToken\<close>.  The text is the memory from the pointer on, and every
  \<open>z[i]\<close> of the code is a read of it that faults behind its end; a loop that advances
  \<open>i\<close> while a test holds is \<open>scan\<close>.  A token is its length and its code.
\<close>

section \<open>Character classes\<close>

definition CC_X :: int where [tk_vals]: "CC_X = 0"
definition CC_KYWD0 :: int where [tk_vals]: "CC_KYWD0 = 1"
definition CC_KYWD :: int where [tk_vals]: "CC_KYWD = 2"
definition CC_DIGIT :: int where [tk_vals]: "CC_DIGIT = 3"
definition CC_DOLLAR :: int where [tk_vals]: "CC_DOLLAR = 4"
definition CC_VARALPHA :: int where [tk_vals]: "CC_VARALPHA = 5"
definition CC_VARNUM :: int where [tk_vals]: "CC_VARNUM = 6"
definition CC_SPACE :: int where [tk_vals]: "CC_SPACE = 7"
definition CC_QUOTE :: int where [tk_vals]: "CC_QUOTE = 8"
definition CC_QUOTE2 :: int where [tk_vals]: "CC_QUOTE2 = 9"
definition CC_PIPE :: int where [tk_vals]: "CC_PIPE = 10"
definition CC_MINUS :: int where [tk_vals]: "CC_MINUS = 11"
definition CC_LT :: int where [tk_vals]: "CC_LT = 12"
definition CC_GT :: int where [tk_vals]: "CC_GT = 13"
definition CC_EQ :: int where [tk_vals]: "CC_EQ = 14"
definition CC_BANG :: int where [tk_vals]: "CC_BANG = 15"
definition CC_SLASH :: int where [tk_vals]: "CC_SLASH = 16"
definition CC_LP :: int where [tk_vals]: "CC_LP = 17"
definition CC_RP :: int where [tk_vals]: "CC_RP = 18"
definition CC_SEMI :: int where [tk_vals]: "CC_SEMI = 19"
definition CC_PLUS :: int where [tk_vals]: "CC_PLUS = 20"
definition CC_STAR :: int where [tk_vals]: "CC_STAR = 21"
definition CC_PERCENT :: int where [tk_vals]: "CC_PERCENT = 22"
definition CC_COMMA :: int where [tk_vals]: "CC_COMMA = 23"
definition CC_AND :: int where [tk_vals]: "CC_AND = 24"
definition CC_TILDA :: int where [tk_vals]: "CC_TILDA = 25"
definition CC_DOT :: int where [tk_vals]: "CC_DOT = 26"
definition CC_ID :: int where [tk_vals]: "CC_ID = 27"
definition CC_ILLEGAL :: int where [tk_vals]: "CC_ILLEGAL = 28"
definition CC_NUL :: int where [tk_vals]: "CC_NUL = 29"
definition CC_BOM :: int where [tk_vals]: "CC_BOM = 30"

definition aiClass :: "int list" where
  "aiClass =
    [29, 28, 28, 28, 28, 28, 28, 28, 28, 7, 7, 28, 7, 7, 28, 28,
     28, 28, 28, 28, 28, 28, 28, 28, 28, 28, 28, 28, 28, 28, 28, 28,
     7, 15, 8, 5, 4, 22, 24, 8, 17, 18, 21, 20, 23, 11, 26, 16,
     3, 3, 3, 3, 3, 3, 3, 3, 3, 3, 5, 19, 12, 14, 13, 6,
     5, 1, 1, 1, 1, 1, 1, 1, 1, 1, 1, 1, 1, 1, 1, 1,
     1, 1, 1, 1, 1, 1, 1, 1, 0, 2, 2, 9, 28, 28, 28, 2,
     8, 1, 1, 1, 1, 1, 1, 1, 1, 1, 1, 1, 1, 1, 1, 1,
     1, 1, 1, 1, 1, 1, 1, 1, 0, 2, 2, 28, 10, 28, 25, 28,
     27, 27, 27, 27, 27, 27, 27, 27, 27, 27, 27, 27, 27, 27, 27, 27,
     27, 27, 27, 27, 27, 27, 27, 27, 27, 27, 27, 27, 27, 27, 27, 27,
     27, 27, 27, 27, 27, 27, 27, 27, 27, 27, 27, 27, 27, 27, 27, 27,
     27, 27, 27, 27, 27, 27, 27, 27, 27, 27, 27, 27, 27, 27, 27, 27,
     27, 27, 27, 27, 27, 27, 27, 27, 27, 27, 27, 27, 27, 27, 27, 27,
     27, 27, 27, 27, 27, 27, 27, 27, 27, 27, 27, 27, 27, 27, 27, 27,
     27, 27, 27, 27, 27, 27, 27, 27, 27, 27, 27, 27, 27, 27, 27, 30,
     27, 27, 27, 27, 27, 27, 27, 27, 27, 27, 27, 27, 27, 27, 27, 27]"

lemma length_aiClass [simp]: "length aiClass = 256"
  by (simp add: aiClass_def)

definition char_class :: "char \<Rightarrow> int" where
  "char_class c = at_byte aiClass c"

definition IdChar :: "char \<Rightarrow> bool" where
  "IdChar c = ctype c 0x46"

definition sqlite3IsIdChar :: "char \<Rightarrow> bool" where
  "sqlite3IsIdChar c = IdChar c"

section \<open>Reading the text\<close>

text \<open>Tests of one character, joined by the short-circuit operators of C.\<close>

definition test :: "char list \<Rightarrow> nat \<Rightarrow> (char \<Rightarrow> bool) \<Rightarrow> bool res" where
  "test z i P = bind_res (nth_res z i) (\<lambda>c. Inr (P c))"

definition and_res :: "bool res \<Rightarrow> bool res \<Rightarrow> bool res" where
  "and_res a b = bind_res a (\<lambda>x. if x then b else Inr False)"

definition or_res :: "bool res \<Rightarrow> bool res \<Rightarrow> bool res" where
  "or_res a b = bind_res a (\<lambda>x. if x then Inr True else b)"

definition if_res :: "bool res \<Rightarrow> 'a res \<Rightarrow> 'a res \<Rightarrow> 'a res" where
  "if_res t a b = bind_res t (\<lambda>x. if x then a else b)"

fun span :: "(char \<Rightarrow> bool) \<Rightarrow> char list \<Rightarrow> nat \<Rightarrow> nat res" where
  "span P [] i = Inl OutOfBounds"
| "span P (c # z) i = (if P c then span P z (Suc i) else Inr i)"

text \<open>\<open>while( P(z[i]) ) i++;\<close>\<close>

definition scan :: "(char \<Rightarrow> bool) \<Rightarrow> char list \<Rightarrow> nat \<Rightarrow> nat res" where
  "scan P z i = span P (drop i z) i"

type_synonym token = "nat \<times> int"

abbreviation token :: "nat \<Rightarrow> int \<Rightarrow> token res" where
  "token n t \<equiv> Inr (n, t)"

section \<open>The cases of the tokenizer\<close>

text \<open>\<open>for(i=3, c=z[2]; (c!='*' || z[i]!='/') && (c=z[i])!=0; i++)\<close>; the list is the
  text from \<open>i\<close> on.\<close>

fun comment_loop :: "char \<Rightarrow> char list \<Rightarrow> nat \<Rightarrow> (nat \<times> char) res" where
  "comment_loop c [] i = Inl OutOfBounds"
| "comment_loop c (x # z) i =
     (if c = CHR ''*'' \<and> x = CHR ''/'' then Inr (i, c)
      else if x = NUL then Inr (i, NUL)
      else comment_loop x z (Suc i))"

text \<open>\<open>for(i=1; (c=z[i])!=0; i++)\<close> with the doubled delimiter.\<close>

fun quote_loop :: "char \<Rightarrow> char list \<Rightarrow> nat \<Rightarrow> (nat \<times> char) res" where
  "quote_loop delim [] i = Inl OutOfBounds"
| "quote_loop delim (c # z) i =
     (if c = NUL then Inr (i, c)
      else if c = delim then
        (case z of
           [] \<Rightarrow> Inl OutOfBounds
         | c' # z' \<Rightarrow> if c' = delim then quote_loop delim z' (i + 2) else Inr (i, c))
      else quote_loop delim z (Suc i))"

definition quote_token :: "char list \<Rightarrow> token res" where
  "quote_token z =
     bind_res (nth_res z 0) (\<lambda>delim.
     bind_res (quote_loop delim (drop 1 z) 1) (\<lambda>(i, c).
     if c = CHR 0x27 then token (i + 1) TK_STRING
     else if c \<noteq> NUL then token (i + 1) TK_ID
     else token i TK_ILLEGAL))"

text \<open>\<open>for(i=1, c=z[0]; c!=']' && (c=z[i])!=0; i++)\<close>\<close>

fun bracket_loop :: "char \<Rightarrow> char list \<Rightarrow> nat \<Rightarrow> (nat \<times> char) res" where
  "bracket_loop c z i =
     (if c = CHR '']'' then Inr (i, c)
      else (case z of
              [] \<Rightarrow> Inl OutOfBounds
            | x # z' \<Rightarrow> if x = NUL then Inr (i, NUL) else bracket_loop x z' (Suc i)))"

declare bracket_loop.simps [simp del]

definition is_e :: "char \<Rightarrow> bool" where "is_e c \<longleftrightarrow> c = CHR ''e'' \<or> c = CHR ''E''"

definition number_token :: "char list \<Rightarrow> token res" where
  "number_token z =
     if_res (and_res (test z 0 (\<lambda>c. c = CHR ''0''))
             (and_res (test z 1 (\<lambda>c. c = CHR ''x'' \<or> c = CHR ''X'')) (test z 2 sqlite3Isxdigit)))
       (bind_res (scan sqlite3Isxdigit z 3) (\<lambda>i. token i TK_INTEGER))
       (bind_res (scan sqlite3Isdigit z 0) (\<lambda>i.
        bind_res (if_res (test z i (\<lambda>c. c = CHR ''.''))
                    (bind_res (scan sqlite3Isdigit z (i + 1)) (\<lambda>i. token i TK_FLOAT))
                    (token i TK_INTEGER)) (\<lambda>(i, tokenType).
        bind_res (if_res (and_res (test z i is_e)
                      (or_res (test z (i + 1) sqlite3Isdigit)
                         (and_res (test z (i + 1) (\<lambda>c. c = CHR ''+'' \<or> c = CHR ''-''))
                                  (test z (i + 2) sqlite3Isdigit))))
                    (bind_res (scan sqlite3Isdigit z (i + 2)) (\<lambda>i. token i TK_FLOAT))
                    (token i tokenType)) (\<lambda>(i, tokenType).
        bind_res (scan IdChar z i) (\<lambda>j.
          token j (if i < j then TK_ILLEGAL else tokenType))))))"

text \<open>\<open>for(i=1; (c=z[i])!=0; i++)\<close> of a variable: the result is \<open>i\<close>, \<open>n\<close> and
  whether the token became illegal.\<close>

fun variable_loop :: "char list \<Rightarrow> nat \<Rightarrow> nat \<Rightarrow> (nat \<times> nat \<times> bool) res" where
  "variable_loop [] i n = Inl OutOfBounds"
| "variable_loop (c # z) i n =
     (if c = NUL then Inr (i, n, False)
      else if IdChar c then variable_loop z (Suc i) (Suc n)
      else if c = CHR ''('' \<and> n > 0 then
        bind_res (span (\<lambda>c. c \<noteq> NUL \<and> \<not> sqlite3Isspace c \<and> c \<noteq> CHR '')'') z (Suc i)) (\<lambda>j.
        bind_res (nth_res z (j - Suc i)) (\<lambda>c.
        if c = CHR '')'' then Inr (Suc j, n, False) else Inr (j, n, True)))
      else if c = CHR '':'' then
        (case z of
           [] \<Rightarrow> Inl OutOfBounds
         | c' # z' \<Rightarrow> if c' = CHR '':'' then variable_loop z' (i + 2) n else Inr (i, n, False))
      else Inr (i, n, False))"

definition variable_token :: "char list \<Rightarrow> token res" where
  "variable_token z =
     bind_res (variable_loop (drop 1 z) 1 0) (\<lambda>(i, n, illegal).
     token i (if illegal \<or> n = 0 then TK_ILLEGAL else TK_VARIABLE))"

text \<open>The code behind the switch: the rest of an identifier.\<close>

definition id_token :: "char list \<Rightarrow> nat \<Rightarrow> token res" where
  "id_token z i = bind_res (scan IdChar z i) (\<lambda>i. token i TK_ID)"

definition keyword_token :: "char list \<Rightarrow> token res" where
  "keyword_token z =
     if_res (test z 1 (\<lambda>c. char_class c > CC_KYWD)) (id_token z 1)
       (bind_res (scan (\<lambda>c. char_class c \<le> CC_KYWD) z 2) (\<lambda>i.
        if_res (test z i IdChar) (id_token z (i + 1)) (keywordCode z i TK_ID)))"

definition blob_token :: "char list \<Rightarrow> token res" where
  "blob_token z =
     bind_res (scan sqlite3Isxdigit z 2) (\<lambda>i.
     bind_res (if_res (or_res (test z i (\<lambda>c. c \<noteq> CHR 0x27)) (Inr (odd i)))
                 (bind_res (scan (\<lambda>c. c \<noteq> NUL \<and> c \<noteq> CHR 0x27) z i) (\<lambda>i. token i TK_ILLEGAL))
                 (token i TK_BLOB)) (\<lambda>(i, tokenType).
     if_res (test z i (\<lambda>c. c \<noteq> NUL)) (token (i + 1) tokenType) (token i tokenType)))"

text \<open>The choice by the second character, for the operators that can have one.\<close>

definition second :: "char list \<Rightarrow> (char \<times> int) list \<Rightarrow> int \<Rightarrow> token res" where
  "second z opts t1 =
     bind_res (nth_res z 1) (\<lambda>c. case map_of opts c of Some t2 \<Rightarrow> token 2 t2 | None \<Rightarrow> token 1 t1)"

definition sqlite3GetToken :: "char list \<Rightarrow> token res" where
  "sqlite3GetToken z =
     bind_res (nth_res z 0) (\<lambda>c0. let cc = char_class c0 in
     if cc = CC_SPACE then bind_res (scan sqlite3Isspace z 1) (\<lambda>i. token i TK_SPACE)
     else if cc = CC_MINUS then
       if_res (test z 1 (\<lambda>c. c = CHR ''-''))
         (bind_res (scan (\<lambda>c. c \<noteq> NUL \<and> c \<noteq> CHR 0x0A) z 2) (\<lambda>i. token i TK_SPACE))
         (if_res (test z 1 (\<lambda>c. c = CHR ''>''))
            (if_res (test z 2 (\<lambda>c. c = CHR ''>'')) (token 3 TK_PTR) (token 2 TK_PTR))
            (token 1 TK_MINUS))
     else if cc = CC_LP then token 1 TK_LP
     else if cc = CC_RP then token 1 TK_RP
     else if cc = CC_SEMI then token 1 TK_SEMI
     else if cc = CC_PLUS then token 1 TK_PLUS
     else if cc = CC_STAR then token 1 TK_STAR
     else if cc = CC_SLASH then
       if_res (or_res (test z 1 (\<lambda>c. c \<noteq> CHR ''*'')) (test z 2 (\<lambda>c. c = NUL)))
         (token 1 TK_SLASH)
         (bind_res (nth_res z 2) (\<lambda>c. bind_res (comment_loop c (drop 3 z) 3) (\<lambda>(i, c).
          token (if c \<noteq> NUL then i + 1 else i) TK_SPACE)))
     else if cc = CC_PERCENT then token 1 TK_REM
     else if cc = CC_EQ then second z [(CHR ''='', TK_EQ)] TK_EQ
     else if cc = CC_LT then
       second z [(CHR ''='', TK_LE), (CHR ''>'', TK_NE), (CHR ''<'', TK_LSHIFT)] TK_LT
     else if cc = CC_GT then second z [(CHR ''='', TK_GE), (CHR ''>'', TK_RSHIFT)] TK_GT
     else if cc = CC_BANG then second z [(CHR ''='', TK_NE)] TK_ILLEGAL
     else if cc = CC_PIPE then second z [(CHR ''|'', TK_CONCAT)] TK_BITOR
     else if cc = CC_COMMA then token 1 TK_COMMA
     else if cc = CC_AND then token 1 TK_BITAND
     else if cc = CC_TILDA then token 1 TK_BITNOT
     else if cc = CC_QUOTE then quote_token z
     else if cc = CC_DOT then
       if_res (test z 1 (\<lambda>c. \<not> sqlite3Isdigit c)) (token 1 TK_DOT) (number_token z)
     else if cc = CC_DIGIT then number_token z
     else if cc = CC_QUOTE2 then
       bind_res (bracket_loop c0 (drop 1 z) 1) (\<lambda>(i, c).
       token i (if c = CHR '']'' then TK_ID else TK_ILLEGAL))
     else if cc = CC_VARNUM then bind_res (scan sqlite3Isdigit z 1) (\<lambda>i. token i TK_VARIABLE)
     else if cc = CC_DOLLAR \<or> cc = CC_VARALPHA then variable_token z
     else if cc = CC_KYWD0 then keyword_token z
     else if cc = CC_X then
       if_res (test z 1 (\<lambda>c. c = CHR 0x27)) (blob_token z) (id_token z 1)
     else if cc = CC_KYWD \<or> cc = CC_ID then id_token z 1
     else if cc = CC_BOM then
       if_res (and_res (test z 1 (\<lambda>c. c = CHR 0xBB)) (test z 2 (\<lambda>c. c = CHR 0xBF)))
         (token 3 TK_SPACE) (id_token z 1)
     else if cc = CC_NUL then token 0 TK_ILLEGAL
     else token 1 TK_ILLEGAL)"

section \<open>Tokens stay inside the text\<close>

text \<open>The terminator of the text at a pointer is at distance \<open>L\<close>.\<close>

definition ends_at :: "char list \<Rightarrow> nat \<Rightarrow> bool" where
  "ends_at z L \<longleftrightarrow> L < length z \<and> z ! L = NUL \<and> (\<forall>i<L. z ! i \<noteq> NUL)"

lemma ends_at_text: "is_cstr s \<Longrightarrow> ends_at (s @ NUL # r) (length s)"
  by (auto simp: ends_at_def is_cstr_def nth_append dest: nth_mem)

lemma ends_at_Suc: "ends_at z L \<Longrightarrow> i \<le> L \<Longrightarrow> z ! i \<noteq> NUL \<Longrightarrow> Suc i \<le> L"
  by (auto simp: ends_at_def le_less)

lemma ends_at_read: "ends_at z L \<Longrightarrow> i \<le> L \<Longrightarrow> nth_res z i = Inr (z ! i)"
  by (auto simp: ends_at_def)

lemma ends_at_test: "ends_at z L \<Longrightarrow> i \<le> L \<Longrightarrow> test z i P = Inr (P (z ! i))"
  by (simp add: test_def ends_at_read)

lemma ends_at_drop: "ends_at z L \<Longrightarrow> i \<le> L \<Longrightarrow> drop i z = z ! i # drop (Suc i) z"
  by (auto simp: ends_at_def Cons_nth_drop_Suc)

lemma short_circuit [simp]:
  "and_res (Inr x) b = (if x then b else Inr False)" "or_res (Inr x) b = (if x then Inr True else b)"
  "if_res (Inr x) a' b' = (if x then a' else b')"
  by (simp_all add: and_res_def or_res_def if_res_def)

text \<open>A scan whose test fails on the terminator stops at the first character that fails it.\<close>

lemma scan_stops:
  assumes "ends_at z L" "i \<le> L" "\<not> P NUL"
  shows "\<exists>j. scan P z i = Inr j \<and> i \<le> j \<and> j \<le> L \<and> \<not> P (z ! j) \<and> (\<forall>k. i \<le> k \<and> k < j \<longrightarrow> P (z ! k))"
  using assms(2)
proof (induction "L - i" arbitrary: i)
  case 0
  then have "i = L" "z ! i = NUL" using assms(1) by (auto simp: ends_at_def)
  then show ?case using assms ends_at_drop [OF assms(1), of i] by (auto simp: scan_def)
next
  case (Suc d)
  show ?case
  proof (cases "P (z ! i)")
    case True
    have "d = L - Suc i" "Suc i \<le> L" using Suc.hyps(2) by auto
    then obtain j where j: "scan P z (Suc i) = Inr j" "Suc i \<le> j" "j \<le> L" "\<not> P (z ! j)"
      "\<forall>k. Suc i \<le> k \<and> k < j \<longrightarrow> P (z ! k)" using Suc.hyps(1) by blast
    have "scan P z i = Inr j" using True j(1) ends_at_drop [OF assms(1) Suc.prems] by (simp add: scan_def)
    moreover have "P (z ! k)" if "i \<le> k" "k < j" for k using that True j(5) by (cases "k = i") auto
    ultimately show ?thesis using j by auto
  next
    case False
    then show ?thesis using ends_at_drop [OF assms(1) Suc.prems] Suc.prems by (auto simp: scan_def)
  qed
qed

lemma stop_chars [simp]:
  "\<not> sqlite3Isspace NUL" "\<not> sqlite3Isdigit NUL" "\<not> sqlite3Isxdigit NUL" "\<not> IdChar NUL"
  by (simp_all add: IdChar_def ctype_bytes byte_class_defs uchar_def)

lemma char_class_NUL [simp]: "char_class NUL = 29"
  by (simp add: char_class_def at_byte_def uchar_def aiClass_def)

lemma char_class_29: "char_class c = 29 \<longleftrightarrow> c = NUL"
proof -
  have "each_entry (\<lambda>n m. (m = 29) = (n = 0)) 0 aiClass" by code_simp
  from each_entry_byte [OF this, of c] show ?thesis by (simp add: char_class_def)
qed

lemma char_class_digit: "char_class c = 3 \<Longrightarrow> sqlite3Isdigit c" "char_class c = 26 \<Longrightarrow> c = CHR ''.''"
proof -
  have "each_entry (\<lambda>n m. (m = 3 \<longrightarrow> digit_byte n) \<and> (m = 26 \<longrightarrow> n = 46)) 0 aiClass" by code_simp
  from each_entry_byte [OF this, of c]
  have "char_class c = 3 \<longrightarrow> digit_byte (uchar c)" "char_class c = 26 \<longrightarrow> uchar c = uchar CHR ''.''"
    by (simp_all add: char_class_def uchar_def)
  then show "char_class c = 3 \<Longrightarrow> sqlite3Isdigit c" "char_class c = 26 \<Longrightarrow> c = CHR ''.''"
    by (simp_all add: Isdigit_byte)
qed

text \<open>A token of at least \<open>lo\<close> characters, all before the terminator; its code is one of the
  tokens, and the three keywords that need a look-ahead have their own lengths.\<close>

definition lookahead_ok :: "nat \<Rightarrow> int \<Rightarrow> bool" where
  "lookahead_ok n t \<longleftrightarrow> 0 < t \<and> t \<le> TK_ILLEGAL \<and>
     (t = TK_WINDOW \<longrightarrow> n = 6) \<and> (t = TK_OVER \<longrightarrow> n = 4) \<and> (t = TK_FILTER \<longrightarrow> n = 6)"

definition within :: "nat \<Rightarrow> nat \<Rightarrow> token res \<Rightarrow> bool" where
  "within lo L r \<longleftrightarrow> (\<exists>n t. r = Inr (n, t) \<and> lo \<le> n \<and> n \<le> L \<and> lookahead_ok n t)"

lemma within_token [simp]: "within lo L (Inr (n, t)) \<longleftrightarrow> lo \<le> n \<and> n \<le> L \<and> lookahead_ok n t"
  by (auto simp: within_def)

lemma lookahead_simps [simp]:
  "lookahead_ok n TK_SPACE" "lookahead_ok n TK_ID" "lookahead_ok n TK_ILLEGAL" "lookahead_ok n TK_STRING"
  "lookahead_ok n TK_INTEGER" "lookahead_ok n TK_FLOAT" "lookahead_ok n TK_VARIABLE" "lookahead_ok n TK_BLOB"
  "lookahead_ok n TK_PTR" "lookahead_ok n TK_MINUS" "lookahead_ok n TK_SLASH" "lookahead_ok n TK_DOT"
  "lookahead_ok n TK_EQ" "lookahead_ok n TK_LT" "lookahead_ok n TK_LE" "lookahead_ok n TK_NE"
  "lookahead_ok n TK_LSHIFT" "lookahead_ok n TK_RSHIFT" "lookahead_ok n TK_GT" "lookahead_ok n TK_GE"
  "lookahead_ok n TK_BITOR" "lookahead_ok n TK_CONCAT" "lookahead_ok n TK_LP" "lookahead_ok n TK_RP"
  "lookahead_ok n TK_SEMI" "lookahead_ok n TK_PLUS" "lookahead_ok n TK_STAR" "lookahead_ok n TK_REM"
  "lookahead_ok n TK_COMMA" "lookahead_ok n TK_BITAND" "lookahead_ok n TK_BITNOT"
  by (simp_all add: lookahead_ok_def tk_vals)

lemma keyword_lookahead: "list_all (\<lambda>(w, t). lookahead_ok (length w) t) keyword_list"
  by (simp add: keyword_list_def lookahead_ok_def tk_vals)

lemma lookahead_keyword: "keyword_value key = Some t \<Longrightarrow> lookahead_ok (length key) t"
  using keyword_lookahead by (auto simp: keyword_value_Some kw_word_def list_all_length split_def)

lemma within_scan:
  assumes "ends_at z L" "i \<le> L" "\<not> P NUL" and "\<And>j. i \<le> j \<Longrightarrow> j \<le> L \<Longrightarrow> \<not> P (z ! j) \<Longrightarrow> within lo L (f j)"
  shows "within lo L (bind_res (scan P z i) f)"
  using scan_stops [where P = P, OF assms(1-3)] assms(4) by auto

lemma within_id: "ends_at z L \<Longrightarrow> i \<le> L \<Longrightarrow> lo \<le> i \<Longrightarrow> within lo L (id_token z i)"
  unfolding id_token_def by (rule within_scan) auto

lemma within_comment:
  assumes "ends_at z L" "i \<le> L"
  shows "\<exists>j d. comment_loop c (drop i z) i = Inr (j, d) \<and> i \<le> j \<and> j \<le> L \<and> (d \<noteq> NUL \<longrightarrow> j < L)"
  using assms(2)
proof (induction "L - i" arbitrary: i c)
  case 0
  then have "i = L" "z ! i = NUL" using assms(1) by (auto simp: ends_at_def)
  then show ?case using ends_at_drop [OF assms(1), of i] by auto
next
  case (Suc d)
  have ne: "z ! i \<noteq> NUL" "i < L" using Suc.hyps(2) assms(1) by (auto simp: ends_at_def)
  have "d = L - Suc i" "Suc i \<le> L" using Suc.hyps(2) by auto
  from Suc.hyps(1) [OF this, of "z ! i"] obtain j e where
    "comment_loop (z ! i) (drop (Suc i) z) (Suc i) = Inr (j, e)" "Suc i \<le> j" "j \<le> L" "e \<noteq> NUL \<longrightarrow> j < L"
    by blast
  then show ?case
    using ne unfolding ends_at_drop [OF assms(1) Suc.prems] by (simp add: Suc_le_eq less_imp_le)
qed

lemma within_bracket:
  assumes "ends_at z L" "i \<le> L"
  shows "\<exists>j d. bracket_loop c (drop i z) i = Inr (j, d) \<and> i \<le> j \<and> j \<le> L"
  using assms(2)
proof (induction "L - i" arbitrary: i c)
  case 0
  then have "i = L" "z ! i = NUL" using assms(1) by (auto simp: ends_at_def)
  then show ?case
    using ends_at_drop [OF assms(1), of i] by (simp add: bracket_loop.simps [of c "NUL # drop (Suc L) z"])
next
  case (Suc d)
  have "d = L - Suc i" "Suc i \<le> L" using Suc.hyps(2) by auto
  from Suc.hyps(1) [OF this, of "z ! i"] obtain j e where
    "bracket_loop (z ! i) (drop (Suc i) z) (Suc i) = Inr (j, e)" "Suc i \<le> j" "j \<le> L"
    by blast
  then show ?case
    using Suc.prems unfolding ends_at_drop [OF assms(1) Suc.prems]
    by (subst bracket_loop.simps) auto
qed

lemma within_quote_loop:
  assumes "ends_at z L" "i \<le> L" "delim \<noteq> NUL"
  shows "\<exists>j c. quote_loop delim (drop i z) i = Inr (j, c) \<and> i \<le> j \<and> (if c = NUL then j = L else c = delim \<and> j < L)"
  using assms(2)
proof (induction "L - i" arbitrary: i rule: less_induct)
  case less
  show ?case
  proof (cases "i = L")
    case True
    then show ?thesis using assms(1) ends_at_drop [OF assms(1), of i] by (auto simp: ends_at_def)
  next
    case False
    then have i: "Suc i \<le> L" "z ! i \<noteq> NUL" using less.prems assms(1) by (auto simp: ends_at_def)
    note d = ends_at_drop [OF assms(1) less.prems] ends_at_drop [OF assms(1) i(1)]
    have less': "L - Suc i < L - i" "L - Suc (Suc i) < L - i" using i by auto
    show ?thesis
    proof (cases "z ! i = delim \<and> z ! Suc i = delim")
      case True
      then have "Suc (Suc i) \<le> L" using ends_at_Suc [OF assms(1) i(1)] assms(3) by simp
      then obtain j c where "quote_loop delim (drop (i + 2) z) (i + 2) = Inr (j, c)" "i + 2 \<le> j"
        "if c = NUL then j = L else c = delim \<and> j < L" using less.hyps [of "i + 2"] i less' by auto
      then show ?thesis using True assms(3) unfolding d by auto
    next
      case False
      obtain j c where "quote_loop delim (drop (Suc i) z) (Suc i) = Inr (j, c)" "Suc i \<le> j"
        "if c = NUL then j = L else c = delim \<and> j < L" using less.hyps [of "Suc i"] i less' by auto
      then show ?thesis using False i unfolding d(1) by (auto simp: d(2))
    qed
  qed
qed

lemma within_quote: "ends_at z L \<Longrightarrow> z ! 0 \<noteq> NUL \<Longrightarrow> within 1 L (quote_token z)"
  using within_quote_loop [of z L 1 "z ! 0"] ends_at_Suc [of z L 0] ends_at_read [of z L 0]
  by (auto simp: quote_token_def split: if_splits)

lemma within_variable_loop:
  assumes "ends_at z L" "i \<le> L"
  shows "\<exists>j m b. variable_loop (drop i z) i n = Inr (j, m, b) \<and> i \<le> j \<and> j \<le> L"
  using assms(2)
proof (induction "L - i" arbitrary: i n rule: less_induct)
  case less
  note d = ends_at_drop [OF assms(1) less.prems]
  show ?case
  proof (cases "z ! i = NUL")
    case True
    then show ?thesis using d less.prems by auto
  next
    case False
    then have i: "Suc i \<le> L" using ends_at_Suc [OF assms(1) less.prems] by simp
    note d' = ends_at_drop [OF assms(1) i]
    have less': "L - Suc i < L - i" "L - Suc (Suc i) < L - i" using i by auto
    let ?P = "\<lambda>c. c \<noteq> NUL \<and> \<not> sqlite3Isspace c \<and> c \<noteq> CHR '')''"
    obtain j where j: "scan ?P z (Suc i) = Inr j" "Suc i \<le> j" "j \<le> L"
      using scan_stops [OF assms(1) i, of ?P] by auto
    have rd: "nth_res (drop (Suc i) z) (j - Suc i) = Inr (z ! j)"
      using j assms(1) by (auto simp: nth_res_def ends_at_def)
    have j': "z ! j = CHR '')'' \<Longrightarrow> Suc j \<le> L" using ends_at_Suc [OF assms(1) j(3)] by simp
    show ?thesis
    proof (cases "IdChar (z ! i)")
      case True
      obtain j m b where "variable_loop (drop (Suc i) z) (Suc i) (Suc n) = Inr (j, m, b)" "Suc i \<le> j" "j \<le> L"
        using less.hyps [of "Suc i" "Suc n"] i less' by auto
      then show ?thesis using True False unfolding d by auto
    next
      case no: False
      show ?thesis
      proof (cases "z ! i = CHR '':'' \<and> z ! Suc i = CHR '':''")
        case True
        then have "Suc (Suc i) \<le> L" using ends_at_Suc [OF assms(1) i] by simp
        then obtain j m b where "variable_loop (drop (i + 2) z) (i + 2) n = Inr (j, m, b)" "i + 2 \<le> j" "j \<le> L"
          using less.hyps [of "i + 2" n] i less' by auto
        then show ?thesis using True no unfolding d d' by auto
      next
        case False
        then show ?thesis
          using no j j' rd less.prems \<open>z ! i \<noteq> NUL\<close> unfolding d
          by (auto simp: scan_def d' less_imp_le)
      qed
    qed
  qed
qed

lemma within_keyword:
  assumes "ends_at z L" "z ! 0 \<noteq> NUL"
  shows "within 1 L (keyword_token z)"
proof -
  note t = ends_at_test [OF assms(1)]
  have 1: "1 \<le> L" using ends_at_Suc [OF assms(1), of 0] assms(2) by simp
  have fork: "within 1 L (if_res (test z i IdChar) (id_token z (i + 1)) (keywordCode z i TK_ID))"
    if i: "2 \<le> i" "i \<le> L" for i
  proof (cases "IdChar (z ! i)")
    case True
    then have "z ! i \<noteq> NUL" by auto
    then have "Suc i \<le> L" using ends_at_Suc [OF assms(1) i(2)] by simp
    then show ?thesis using within_id [OF assms(1)] True by (simp add: t [OF i(2)])
  next
    case False
    have len: "i \<le> length z" using i(2) assms(1) by (simp add: ends_at_def)
    then have "lookahead_ok i c" if "keyword_value (kw_key (take i z)) = Some c" for c
      using lookahead_keyword [OF that] by (simp add: kw_key_def)
    then show ?thesis using False i len
      by (auto simp: t [OF i(2)] keywordCode_value split: option.split)
  qed
  show ?thesis
  proof (cases "char_class (z ! 1) > CC_KYWD")
    case True
    then show ?thesis using within_id [OF assms(1) 1, of 1] unfolding keyword_token_def t [OF 1] by simp
  next
    case False
    then have "z ! 1 \<noteq> NUL" by (auto simp: CC_KYWD_def)
    then have 2: "2 \<le> L" using ends_at_Suc [OF assms(1) 1] by simp
    have "within 1 L (bind_res (scan (\<lambda>c. char_class c \<le> CC_KYWD) z 2)
        (\<lambda>i. if_res (test z i IdChar) (id_token z (i + 1)) (keywordCode z i TK_ID)))"
      by (rule within_scan [OF assms(1) 2]) (use fork in \<open>auto simp: CC_KYWD_def\<close>)
    then show ?thesis using False unfolding keyword_token_def t [OF 1] by simp
  qed
qed

lemma within_blob:
  assumes "ends_at z L" "2 \<le> L"
  shows "within 1 L (blob_token z)"
  unfolding blob_token_def
proof (rule within_scan [OF assms])
  fix i assume i: "2 \<le> i" "i \<le> L"
  note t = ends_at_test [OF assms(1)]
  show "within 1 L (bind_res (if_res (or_res (test z i (\<lambda>c. c \<noteq> CHR 0x27)) (Inr (odd i)))
      (bind_res (scan (\<lambda>c. c \<noteq> NUL \<and> c \<noteq> CHR 0x27) z i) (\<lambda>i. token i TK_ILLEGAL)) (token i TK_BLOB))
      (\<lambda>(i, tokenType). if_res (test z i (\<lambda>c. c \<noteq> NUL)) (token (i + 1) tokenType) (token i tokenType)))"
    using scan_stops [OF assms(1) i(2), of "\<lambda>c. c \<noteq> NUL \<and> c \<noteq> CHR 0x27"] i ends_at_Suc [OF assms(1)]
    by (auto simp: t)
qed simp

text \<open>A number begins with a digit or with a point and a digit.\<close>

lemma within_number:
  assumes z: "ends_at z L" and "sqlite3Isdigit (z ! 0) \<or> z ! 0 = CHR ''.'' \<and> 1 \<le> L"
  shows "within 1 L (number_token z)"
proof -
  note t = ends_at_test [OF z] and up = ends_at_Suc [OF z]
  have "z ! 0 \<noteq> NUL" using assms(2) by auto
  then have 1: "1 \<le> L" using up [of 0] by simp
  let ?exp = "\<lambda>i. and_res (test z i is_e) (or_res (test z (i + 1) sqlite3Isdigit)
      (and_res (test z (i + 1) (\<lambda>c. c = CHR ''+'' \<or> c = CHR ''-'')) (test z (i + 2) sqlite3Isdigit)))"
  have rest: "within 1 L (bind_res (scan IdChar z i) (\<lambda>j. token j (if i < j then TK_ILLEGAL else ty)))"
    if "1 \<le> i" "i \<le> L" "\<And>n. lookahead_ok n ty" for i ty
    using that by (intro within_scan [OF z]) auto
  have expo: "within 1 L (bind_res (if_res (?exp i) (bind_res (scan sqlite3Isdigit z (i + 2)) (\<lambda>i. token i TK_FLOAT))
        (token i ty)) (\<lambda>(i, ty). bind_res (scan IdChar z i) (\<lambda>j. token j (if i < j then TK_ILLEGAL else ty))))"
    if i: "1 \<le> i" "i \<le> L" and ty: "\<And>n. lookahead_ok n ty" for i ty
  proof (cases "is_e (z ! i)")
    case False
    then show ?thesis using rest [OF i ty] by (simp add: t i)
  next
    case True
    then have i1: "Suc i \<le> L" using up [OF i(2)] by (auto simp: is_e_def)
    then have i2: "Suc (Suc i) \<le> L" if "z ! Suc i \<noteq> NUL" using up [OF i1] that by simp
    show ?thesis
    proof (cases "z ! Suc i = NUL")
      case True
      then show ?thesis using rest [OF i ty] \<open>is_e (z ! i)\<close> by (simp add: t i i1)
    next
      case False
      then have i2: "i + 2 \<le> L" using i2 by simp
      obtain j where "scan sqlite3Isdigit z (i + 2) = Inr j" "i + 2 \<le> j" "j \<le> L"
        using scan_stops [OF z i2, of sqlite3Isdigit] by auto
      then show ?thesis using rest [of j] rest [OF i ty] i1 i2 \<open>is_e (z ! i)\<close> by (auto simp: t i)
    qed
  qed
  have point: "within 1 L (bind_res (if_res (test z i (\<lambda>c. c = CHR ''.''))
        (bind_res (scan sqlite3Isdigit z (i + 1)) (\<lambda>i. token i TK_FLOAT)) (token i TK_INTEGER)) (\<lambda>(i, ty).
      bind_res (if_res (?exp i) (bind_res (scan sqlite3Isdigit z (i + 2)) (\<lambda>i. token i TK_FLOAT)) (token i ty))
        (\<lambda>(i, ty). bind_res (scan IdChar z i) (\<lambda>j. token j (if i < j then TK_ILLEGAL else ty)))))"
    if i: "i \<le> L" "1 \<le> i \<or> z ! i = CHR ''.''" for i
  proof (cases "z ! i = CHR ''.''")
    case True
    then have "i + 1 \<le> L" using up [OF i(1)] by simp
    then obtain j where "scan sqlite3Isdigit z (i + 1) = Inr j" "i + 1 \<le> j" "j \<le> L"
      using scan_stops [OF z, of "i + 1" sqlite3Isdigit] by auto
    then show ?thesis using expo [of j TK_FLOAT] True by (simp add: t i)
  next
    case False
    then show ?thesis using expo [of i TK_INTEGER] i by (simp add: t)
  qed
  have plain: "within 1 L (bind_res (scan sqlite3Isdigit z 0) f)"
    if "\<And>i. i \<le> L \<Longrightarrow> 1 \<le> i \<or> z ! i = CHR ''.'' \<Longrightarrow> within 1 L (f i)" for f
  proof (rule within_scan [OF z])
    fix j assume "j \<le> L" "\<not> sqlite3Isdigit (z ! j)"
    then show "within 1 L (f j)" using that [of j] assms(2) by (cases "j = 0") auto
  qed simp_all
  have main: "within 1 L (bind_res (scan sqlite3Isdigit z 0) (\<lambda>i.
      bind_res (if_res (test z i (\<lambda>c. c = CHR ''.''))
        (bind_res (scan sqlite3Isdigit z (i + 1)) (\<lambda>i. token i TK_FLOAT)) (token i TK_INTEGER)) (\<lambda>(i, ty).
      bind_res (if_res (?exp i) (bind_res (scan sqlite3Isdigit z (i + 2)) (\<lambda>i. token i TK_FLOAT)) (token i ty))
        (\<lambda>(i, ty). bind_res (scan IdChar z i) (\<lambda>j. token j (if i < j then TK_ILLEGAL else ty))))))"
    by (rule plain, rule point)
  have hex: "within 1 L (bind_res (scan sqlite3Isxdigit z 3) (\<lambda>i. token i TK_INTEGER))" if "3 \<le> L"
    using that by (intro within_scan [OF z]) auto
  show ?thesis
  proof (cases "z ! 0 = CHR ''0'' \<and> (z ! 1 = CHR ''x'' \<or> z ! 1 = CHR ''X'')")
    case True
    then have "2 \<le> L" using up [OF 1] by auto
    then have "sqlite3Isxdigit (z ! 2) \<Longrightarrow> 3 \<le> L" using up [of 2] by (cases "z ! 2 = NUL") auto
    then show ?thesis using True main hex 1 \<open>2 \<le> L\<close> unfolding number_token_def by (auto simp: t)
  next
    case False
    then show ?thesis using main 1 unfolding number_token_def by (auto simp: t)
  qed
qed

lemma within_second:
  assumes "ends_at z L" "1 \<le> L" "NUL \<notin> fst ` set opts"
    and "\<forall>u\<in>insert t (snd ` set opts). \<forall>n. lookahead_ok n u"
  shows "within 1 L (second z opts t)"
proof (cases "map_of opts (z ! 1)")
  case (Some u)
  then have "z ! 1 \<noteq> NUL" "lookahead_ok 2 u" using assms(3,4) by (force dest: map_of_SomeD)+
  then show ?thesis
    using ends_at_Suc [OF assms(1,2)] Some unfolding second_def ends_at_read [OF assms(1,2)] by simp
next
  case None
  then show ?thesis using assms(2,4) unfolding second_def ends_at_read [OF assms(1,2)] by simp
qed

lemma token_within:
  assumes z: "ends_at z L" and "z ! 0 \<noteq> NUL"
  shows "within 1 L (sqlite3GetToken z)"
proof -
  note t = ends_at_test [OF z]
  have 1: "1 \<le> L" using ends_at_Suc [OF z, of 0] assms(2) by simp
  have 2: "2 \<le> L" if "z ! 1 \<noteq> NUL" using ends_at_Suc [OF z 1] that by simp
  have 3: "3 \<le> L" if "z ! 1 \<noteq> NUL" "z ! 2 \<noteq> NUL" using ends_at_Suc [OF z 2] that by simp
  have scan1: "within 1 L (bind_res (scan P z i) (\<lambda>i. token i ty))" if "\<not> P NUL" "1 \<le> i" "i \<le> L" "\<And>n. lookahead_ok n ty" for P i ty
    using that by (intro within_scan [OF z]) auto
  note sec = within_second [OF z 1]
  have minus: "within 1 L (if_res (test z 1 (\<lambda>c. c = CHR ''-''))
         (bind_res (scan (\<lambda>c. c \<noteq> NUL \<and> c \<noteq> CHR 0x0A) z 2) (\<lambda>i. token i TK_SPACE))
         (if_res (test z 1 (\<lambda>c. c = CHR ''>''))
            (if_res (test z 2 (\<lambda>c. c = CHR ''>'')) (token 3 TK_PTR) (token 2 TK_PTR))
            (token 1 TK_MINUS)))"
    using 1 2 3 scan1 [of "\<lambda>c. c \<noteq> NUL \<and> c \<noteq> CHR 0x0A" 2 TK_SPACE] by (auto simp: t)
  have slash: "within 1 L (if_res (or_res (test z 1 (\<lambda>c. c \<noteq> CHR ''*'')) (test z 2 (\<lambda>c. c = NUL)))
         (token 1 TK_SLASH)
         (bind_res (nth_res z 2) (\<lambda>c. bind_res (comment_loop c (drop 3 z) 3) (\<lambda>(i, c).
          token (if c \<noteq> NUL then i + 1 else i) TK_SPACE))))"
  proof (cases "z ! 1 = CHR ''*'' \<and> z ! 2 \<noteq> NUL")
    case True
    then have "2 \<le> L" "3 \<le> L" using 2 3 by auto
    then show ?thesis
      using True 1 within_comment [OF z, of 3 "z ! 2"] ends_at_read [OF z, of 2] by (auto simp: t)
  next
    case False
    then show ?thesis using 1 2 by (auto simp: t)
  qed
  have dot: "within 1 L (if_res (test z 1 (\<lambda>c. \<not> sqlite3Isdigit c)) (token 1 TK_DOT) (number_token z))"
    if "char_class (z ! 0) = 26"
    using within_number [OF z] char_class_digit(2) [OF that] 1 by (simp add: t)
  have digit: "within 1 L (number_token z)" if "char_class (z ! 0) = 3"
    using within_number [OF z] char_class_digit(1) [OF that] by simp
  have brack: "within 1 L (bind_res (bracket_loop c (drop 1 z) 1) (\<lambda>(i, c).
       token i (if c = CHR '']'' then TK_ID else TK_ILLEGAL)))" for c
    using within_bracket [OF z 1, of c] by auto
  have var: "within 1 L (variable_token z)"
    using within_variable_loop [OF z 1, of 0] by (auto simp: variable_token_def)
  have blob: "within 1 L (if_res (test z 1 (\<lambda>c. c = CHR 0x27)) (blob_token z) (id_token z 1))"
    using within_blob [OF z] 2 within_id [OF z 1, of 1] 1 by (auto simp: t)
  have bom: "within 1 L (if_res (and_res (test z 1 (\<lambda>c. c = CHR 0xBB)) (test z 2 (\<lambda>c. c = CHR 0xBF)))
         (token 3 TK_SPACE) (id_token z 1))"
    using 1 2 3 within_id [OF z 1, of 1] by (auto simp: t)
  show ?thesis
    unfolding sqlite3GetToken_def Let_def ends_at_read [OF z le0] bind_res_Inr
    using assms(2) 1 scan1 [of sqlite3Isspace 1] scan1 [of sqlite3Isdigit 1] minus slash dot digit brack var blob bom
      within_quote [OF assms] within_keyword [OF assms] within_id [OF z 1, of 1]
    by (simp add: sec [simplified] char_class_29 tk_vals lookahead_ok_def)
qed

section \<open>Properties\<close>

text \<open>C26. The tokenizer never leaves the text: on every terminated text the call returns, reads
  nothing behind the terminator, and the token it reports lies before the terminator; it is
  empty exactly at the end of the text, so a caller that advances by the length of each token
  makes progress and ends at the terminator.\<close>

theorem token_bounds:
  assumes "is_cstr s"
  shows "\<exists>n t. sqlite3GetToken (s @ NUL # behind) = Inr (n, t) \<and> n \<le> length s \<and> (n = 0 \<longleftrightarrow> s = [])"
proof (cases s)
  case Nil
  then show ?thesis by (simp add: sqlite3GetToken_def tk_vals)
next
  case (Cons c s')
  have z: "ends_at (s @ NUL # behind) (length s)" using assms by (rule ends_at_text)
  have "(s @ NUL # behind) ! 0 \<noteq> NUL" using Cons assms by simp
  from token_within [OF z this] show ?thesis using Cons by (auto simp: within_def)
qed

theorem token_bounds_witness:
  "\<exists>n t. sqlite3GetToken (''/* no end'' @ NUL # []) = Inr (n, t) \<and> n \<le> length ''/* no end'' \<and>
     (n = 0 \<longleftrightarrow> ''/* no end'' = [])"
  by (rule token_bounds) simp

end
