(* ===== verification/SqlComplete.thy ===== *)
theory SqlComplete
  imports SqlTokenizer
begin

text \<open>
  \<open>sqlite3_complete\<close>, complete.c inside components/Ledger/src/sqlite3.c: whether a text ends at
  the end of an SQL statement.  A small tokenizer drives a machine of eight states, which knows
  that the semicolons inside a trigger end no statement.
\<close>

section \<open>Model\<close>

definition tkSEMI :: nat where "tkSEMI = 0"
definition tkWS :: nat where "tkWS = 1"
definition tkOTHER :: nat where "tkOTHER = 2"
definition tkEXPLAIN :: nat where "tkEXPLAIN = 3"
definition tkCREATE :: nat where "tkCREATE = 4"
definition tkTEMP :: nat where "tkTEMP = 5"
definition tkTRIGGER :: nat where "tkTRIGGER = 6"
definition tkEND :: nat where "tkEND = 7"

lemmas tk_defs = tkSEMI_def tkWS_def tkOTHER_def tkEXPLAIN_def tkCREATE_def tkTEMP_def tkTRIGGER_def tkEND_def

text \<open>Rows are states: 0 nothing seen, 1 between statements, 2 in a plain statement, 3 after
  EXPLAIN, 4 after CREATE, 5 in a trigger, 6 after a semicolon there, 7 after END there.\<close>

definition trans :: "nat list list" where
  "trans =
    [[1, 0, 2, 3, 4, 2, 2, 2],
     [1, 1, 2, 3, 4, 2, 2, 2],
     [1, 2, 2, 2, 2, 2, 2, 2],
     [1, 3, 3, 2, 4, 2, 2, 2],
     [1, 4, 2, 2, 2, 4, 5, 2],
     [6, 5, 5, 5, 5, 5, 5, 5],
     [6, 6, 5, 5, 5, 5, 5, 7],
     [1, 7, 5, 5, 5, 5, 5, 5]]"

text \<open>The outcome of one iteration: the text ends inside a comment, a quoted name or a string and
  the answer is 0, it ends in a line comment and the state decides, or a token is found and the
  pointer moves on.\<close>

datatype complete_outcome = Unterminated | AtEnd | Token nat string

fun skip_c_comment :: "string \<Rightarrow> string" where
  "skip_c_comment [] = []"
| "skip_c_comment (c # z) = (if c \<noteq> NUL \<and> (c \<noteq> CHR ''*'' \<or> at z \<noteq> CHR ''/'') then skip_c_comment z else c # z)"

definition complete_keyword :: "string \<Rightarrow> nat \<Rightarrow> nat" where
  "complete_keyword z nId =
     (let c = at z; is = (\<lambda>w. nId = length w \<and> sqlite3_strnicmp (Some z) (Some w) (int (length w)) = 0) in
      if c = CHR ''c'' \<or> c = CHR ''C'' then (if is ''create'' then tkCREATE else tkOTHER)
      else if c = CHR ''t'' \<or> c = CHR ''T'' then
        (if is ''trigger'' then tkTRIGGER else if is ''temp'' then tkTEMP
         else if is ''temporary'' then tkTEMP else tkOTHER)
      else if c = CHR ''e'' \<or> c = CHR ''E'' then
        (if is ''end'' then tkEND else if is ''explain'' then tkEXPLAIN else tkOTHER)
      else tkOTHER)"

definition complete_next :: "string \<Rightarrow> complete_outcome" where
  "complete_next z =
     (let c = at z in
      if c = CHR '';'' then Token tkSEMI (tl z)
      else if c \<in> {CHR '' '', CHR 0x0D, CHR 0x09, CHR 0x0A, CHR 0x0C} then Token tkWS (tl z)
      else if c = CHR ''/'' then
        (if at (tl z) \<noteq> CHR ''*'' then Token tkOTHER (tl z)
         else let r = skip_c_comment (drop 2 z)
              in if at r = NUL then Unterminated else Token tkWS (drop 2 r))
      else if c = CHR ''-'' then
        (if at (tl z) \<noteq> CHR ''-'' then Token tkOTHER (tl z)
         else let r = dropWhile (\<lambda>d. d \<noteq> NUL \<and> d \<noteq> CHR 0x0A) z
              in if at r = NUL then AtEnd else Token tkWS (tl r))
      else if c = CHR ''['' then
        (let r = dropWhile (\<lambda>d. d \<noteq> NUL \<and> d \<noteq> CHR '']'') (tl z)
         in if at r = NUL then Unterminated else Token tkOTHER (tl r))
      else if c \<in> {CHR 0x60, CHR 0x22, CHR 0x27} then
        (let r = dropWhile (\<lambda>d. d \<noteq> NUL \<and> d \<noteq> c) (tl z)
         in if at r = NUL then Unterminated else Token tkOTHER (tl r))
      else if IdChar c then
        (let nId = 1 + length (takeWhile IdChar (tl z))
         in Token (complete_keyword z nId) (drop nId z))
      else Token tkOTHER (tl z))"

lemma skip_c_comment_length: "length (skip_c_comment z) \<le> length z"
  by (induction z) auto

definition moves_on :: "string \<Rightarrow> complete_outcome \<Rightarrow> bool" where
  "moves_on z o' \<longleftrightarrow> (\<forall>t r. o' = Token t r \<longrightarrow> length r < length z)"

lemma moves_on_intros:
  "moves_on z x \<Longrightarrow> moves_on z y \<Longrightarrow> moves_on z (if b then x else y)"
  "moves_on z Unterminated" "moves_on z AtEnd"
  "length r < length z \<Longrightarrow> moves_on z (Token t r)"
  by (simp_all add: moves_on_def)

lemma complete_next_moves: "z \<noteq> [] \<Longrightarrow> moves_on z (complete_next z)"
proof -
  assume "z \<noteq> []"
  then obtain c s where z: "z = c # s" by (cases z) auto
  have d: "length (tl (dropWhile P (tl z))) < length z" "length (tl (dropWhile P z)) < length z" for P
    using length_dropWhile_le [of P s] length_dropWhile_le [of P z] by (simp_all add: z less_Suc_eq_le)
  have k: "length (drop 2 (skip_c_comment (drop 2 z))) < length z" "length (tl z) < length z"
    using skip_c_comment_length [of "drop 2 z"] by (simp_all add: z)
  have n: "length (drop (1 + n) z) < length z" for n by (simp add: z)
  show ?thesis
    unfolding complete_next_def Let_def by (intro moves_on_intros d k n)
qed

function complete_loop :: "nat \<Rightarrow> string \<Rightarrow> int res" where
  "complete_loop state z =
     (if at z = NUL then Inr (if state = 1 then 1 else 0)
      else (case complete_next z of
          Unterminated \<Rightarrow> Inr 0
        | AtEnd \<Rightarrow> Inr (if state = 1 then 1 else 0)
        | Token t r \<Rightarrow> bind_res (nth_res trans state) (\<lambda>row. bind_res (nth_res row t) (\<lambda>q. complete_loop q r))))"
  by pat_completeness auto
termination
proof (relation "measure (\<lambda>(q, z). length z)", goal_cases)
  case (2 state z t r row q)
  then have "z \<noteq> []" by auto
  then show ?case using 2(2) complete_next_moves [of z] by (simp add: moves_on_def)
qed simp

declare complete_loop.simps [simp del]

definition sqlite3_complete :: "string \<Rightarrow> int res" where
  "sqlite3_complete zSql = complete_loop 0 zSql"

section \<open>Complete texts as lists of statements\<close>

text \<open>The tokens of a text, and whether it ends outside comments, names and strings.\<close>

function complete_tokens :: "string \<Rightarrow> nat list \<times> bool" where
  "complete_tokens z =
     (if at z = NUL then ([], True)
      else (case complete_next z of
          Unterminated \<Rightarrow> ([], False)
        | AtEnd \<Rightarrow> ([], True)
        | Token t r \<Rightarrow> (case complete_tokens r of (ts, b) \<Rightarrow> (t # ts, b))))"
  by pat_completeness auto
termination
proof (relation "measure length", goal_cases)
  case (2 z t r)
  then have "z \<noteq> []" by auto
  then show ?case using 2(2) complete_next_moves [of z] by (simp add: moves_on_def)
qed simp

declare complete_tokens.simps [simp del]

text \<open>The start of a trigger definition, and the part up to its end: the first place where a
  semicolon, END and a semicolon stand in a row.\<close>

definition trigger_head :: "nat list \<Rightarrow> bool" where
  "trigger_head h \<longleftrightarrow> (\<exists>e m k. h = e @ replicate m tkOTHER @ [tkCREATE] @ replicate k tkTEMP @ [tkTRIGGER] \<and>
     (e = [] \<and> m = 0 \<or> e = [tkEXPLAIN]))"

definition closed_by_end :: "nat list \<Rightarrow> bool" where
  "closed_by_end w \<longleftrightarrow> (\<exists>u. w = u @ [tkSEMI, tkEND, tkSEMI]) \<and>
     (\<forall>u v. w = u @ [tkSEMI, tkEND, tkSEMI] @ v \<longrightarrow> v = [])"

definition statement :: "nat list \<Rightarrow> bool" where
  "statement s \<longleftrightarrow>
     (\<exists>b. s = b @ [tkSEMI] \<and> tkSEMI \<notin> set b \<and> \<not> (\<exists>h w. b = h @ w \<and> trigger_head h)) \<or>
     (\<exists>h w. s = h @ w \<and> trigger_head h \<and> closed_by_end w)"

text \<open>The machine on tokens that are not white space.\<close>

definition step :: "nat \<Rightarrow> nat \<Rightarrow> nat" where
  "step q t = trans ! q ! t"

abbreviation run :: "nat \<Rightarrow> nat list \<Rightarrow> nat" where
  "run q ts \<equiv> foldl step q ts"

definition visible :: "nat list \<Rightarrow> bool" where
  "visible ts \<longleftrightarrow> (\<forall>t\<in>set ts. t < 8 \<and> t \<noteq> tkWS)"

lemma visible_simps [simp]:
  "visible []" "visible (t # ts) \<longleftrightarrow> t < 8 \<and> t \<noteq> tkWS \<and> visible ts"
  "visible (ts @ us) \<longleftrightarrow> visible ts \<and> visible us"
  by (auto simp add: visible_def)

lemma below_8: "t < 8 \<Longrightarrow> t = 0 \<or> t = 1 \<or> t = 2 \<or> t = 3 \<or> t = 4 \<or> t = 5 \<or> t = 6 \<or> (t::nat) = 7"
  by arith

lemma step_rows:
  assumes "t < 8" "t \<noteq> tkWS"
  shows "step 0 t = step 1 t"
    "step 1 t = (if t = tkSEMI then 1 else if t = tkEXPLAIN then 3 else if t = tkCREATE then 4 else 2)"
    "step 2 t = (if t = tkSEMI then 1 else 2)"
    "step 3 t = (if t = tkSEMI then 1 else if t = tkOTHER then 3 else if t = tkCREATE then 4 else 2)"
    "step 4 t = (if t = tkSEMI then 1 else if t = tkTEMP then 4 else if t = tkTRIGGER then 5 else 2)"
    "step 5 t = (if t = tkSEMI then 6 else 5)"
    "step 6 t = (if t = tkSEMI then 6 else if t = tkEND then 7 else 5)"
    "step 7 t = (if t = tkSEMI then 1 else 5)"
  using below_8 [OF assms(1)] assms(2) by (auto simp add: step_def trans_def tk_defs)

text \<open>Before the first semicolon the state tells what has been read.\<close>

definition plain_state :: "nat \<Rightarrow> nat list \<Rightarrow> bool" where
  "plain_state q p \<longleftrightarrow>
     (q = 1 \<and> p = []) \<or> q = 2 \<or>
     (q = 3 \<and> (\<exists>m. p = tkEXPLAIN # replicate m tkOTHER)) \<or>
     (q = 4 \<and> (\<exists>e m k. p = e @ replicate m tkOTHER @ [tkCREATE] @ replicate k tkTEMP \<and>
        (e = [] \<and> m = 0 \<or> e = [tkEXPLAIN]))) \<or>
     (q = 5 \<and> (\<exists>h w. p = h @ w \<and> trigger_head h))"

lemma replicate_snoc: "replicate m x @ [x] = replicate (Suc m) x"
  by (simp add: replicate_append_same)

lemma plain_state_step:
  assumes "plain_state q p" "t < 8" "t \<noteq> tkWS" "t \<noteq> tkSEMI"
  shows "plain_state (step q t) (p @ [t])"
proof -
  note rows = step_rows [OF assms(2,3), unfolded One_nat_def]
  from assms(1) consider "q = 1" "p = []" | "q = 2" | m where "q = 3" "p = tkEXPLAIN # replicate m tkOTHER"
    | e m k where "q = 4" "p = e @ replicate m tkOTHER @ [tkCREATE] @ replicate k tkTEMP"
      "e = [] \<and> m = 0 \<or> e = [tkEXPLAIN]"
    | h w where "q = 5" "p = h @ w" "trigger_head h"
    unfolding plain_state_def by blast
  then show ?thesis
  proof cases
    case 1
    have "\<exists>m. [tkEXPLAIN] = tkEXPLAIN # replicate m tkOTHER" by (rule exI [of _ 0]) simp
    moreover have "\<exists>e m k. [tkCREATE] = e @ replicate m tkOTHER @ [tkCREATE] @ replicate k tkTEMP \<and>
        (e = [] \<and> m = 0 \<or> e = [tkEXPLAIN])" by (intro exI [of _ "[]"] exI [of _ 0]) simp
    ultimately show ?thesis using 1 assms(4) by (simp add: plain_state_def rows)
  next
    case 2
    then show ?thesis using assms(4) by (simp add: plain_state_def rows)
  next
    case 3
    have "\<exists>n. p @ [tkOTHER] = tkEXPLAIN # replicate n tkOTHER"
      using 3 by (intro exI [of _ "Suc m"]) (simp add: replicate_snoc)
    moreover have "\<exists>e n k. p @ [tkCREATE] = e @ replicate n tkOTHER @ [tkCREATE] @ replicate k tkTEMP \<and>
        (e = [] \<and> n = 0 \<or> e = [tkEXPLAIN])"
      using 3 by (intro exI [of _ "[tkEXPLAIN]"] exI [of _ m] exI [of _ 0]) simp
    ultimately show ?thesis using 3(1) assms(4) by (simp add: plain_state_def rows)
  next
    case 4
    have "\<exists>e' n l. p @ [tkTEMP] = e' @ replicate n tkOTHER @ [tkCREATE] @ replicate l tkTEMP \<and>
        (e' = [] \<and> n = 0 \<or> e' = [tkEXPLAIN])"
      using 4 by (intro exI [of _ e] exI [of _ m] exI [of _ "Suc k"]) (simp add: replicate_snoc)
    moreover have "\<exists>h w. p @ [tkTRIGGER] = h @ w \<and> trigger_head h"
      using 4 unfolding trigger_head_def by (intro exI [of _ "p @ [tkTRIGGER]"] exI [of _ "[]"]) auto
    ultimately show ?thesis using 4(1) assms(4) by (simp add: plain_state_def rows)
  next
    case 5
    then have "\<exists>h w. p @ [t] = h @ w \<and> trigger_head h" by (metis append.assoc)
    then show ?thesis using 5(1) assms(4) by (simp add: plain_state_def rows)
  qed
qed

lemma plain_state_run:
  "visible p \<Longrightarrow> tkSEMI \<notin> set p \<Longrightarrow> plain_state (run 1 p) p"
proof (induction p rule: rev_induct)
  case Nil
  then show ?case by (simp add: plain_state_def)
next
  case (snoc t p)
  then show ?case using plain_state_step [of "run 1 p" p t] by simp
qed

text \<open>A trigger head leads to state 5.\<close>

lemma run_replicate: "step q t = q \<Longrightarrow> run q (replicate n t) = q"
  by (induction n) simp_all

lemma run_trigger_head:
  assumes "trigger_head h"
  shows "run 1 h = 5" "visible h" "tkSEMI \<notin> set h"
proof -
  obtain e m k where h: "h = e @ replicate m tkOTHER @ [tkCREATE] @ replicate k tkTEMP @ [tkTRIGGER]"
      "e = [] \<and> m = 0 \<or> e = [tkEXPLAIN]"
    using assms by (auto simp add: trigger_head_def)
  have s: "step 1 tkEXPLAIN = 3" "step 3 tkOTHER = 3" "step 3 tkCREATE = 4" "step 1 tkCREATE = 4"
      "step 4 tkTEMP = 4" "step 4 tkTRIGGER = 5"
    by (simp_all add: step_def trans_def tk_defs)
  show "run 1 h = 5" using h(2)
    by (auto simp add: h(1) s s [unfolded One_nat_def] run_replicate [OF s(2)] run_replicate [OF s(5)])
  show "visible h" "tkSEMI \<notin> set h"
    using h(2) by (auto simp add: h(1) visible_def tk_defs)
qed

text \<open>Inside a trigger the machine looks for the end.\<close>

definition has_end :: "nat list \<Rightarrow> bool" where
  "has_end w \<longleftrightarrow> (\<exists>u v. w = u @ [tkSEMI, tkEND, tkSEMI] @ v)"

definition trigger_state :: "nat \<Rightarrow> nat list \<Rightarrow> bool" where
  "trigger_state q w \<longleftrightarrow>
     (q = 7 \<and> (\<exists>u. w = u @ [tkSEMI, tkEND])) \<or>
     (q = 6 \<and> (\<exists>u. w = u @ [tkSEMI])) \<or>
     (q = 5 \<and> \<not> (\<exists>u. w = u @ [tkSEMI, tkEND]) \<and> \<not> (\<exists>u. w = u @ [tkSEMI]))"

lemma trigger_state_step:
  assumes "trigger_state q w" "t < 8" "t \<noteq> tkWS" "\<not> has_end (w @ [t])"
  shows "trigger_state (step q t) (w @ [t])"
proof -
  note rows = step_rows [OF assms(2,3), unfolded One_nat_def]
  have ne: "\<not> (t = tkSEMI \<and> w = u @ [tkSEMI, tkEND])" for u
  proof
    assume "t = tkSEMI \<and> w = u @ [tkSEMI, tkEND]"
    then have "w @ [t] = u @ [tkSEMI, tkEND, tkSEMI] @ []" by simp
    then show False using assms(4) unfolding has_end_def by blast
  qed
  have last: "w @ [t] = u @ [tkSEMI, tkEND] \<longleftrightarrow> t = tkEND \<and> w = u @ [tkSEMI]"
    "w @ [t] = u @ [tkSEMI] \<longleftrightarrow> t = tkSEMI \<and> w = u" for u
    using append1_eq_conv [of w t "u @ [tkSEMI]" tkEND] append1_eq_conv [of w t u tkSEMI] by auto
  have diff: "tkEND \<noteq> tkSEMI" by (simp add: tk_defs)
  from assms(1) consider u where "q = 7" "w = u @ [tkSEMI, tkEND]" | u where "q = 6" "w = u @ [tkSEMI]"
    | "q = 5" "\<And>u. w \<noteq> u @ [tkSEMI, tkEND]" "\<And>u. w \<noteq> u @ [tkSEMI]"
    unfolding trigger_state_def by blast
  then show ?thesis
  proof cases
    case 1
    then have t: "t \<noteq> tkSEMI" using ne by blast
    have "w \<noteq> u @ [tkSEMI]" for u
      using 1(2) diff append1_eq_conv [of "u' @ [tkSEMI]" tkEND u tkSEMI for u'] by simp
    then show ?thesis using 1(1) t by (simp add: trigger_state_def last rows)
  next
    case 2
    then show ?thesis using diff by (auto simp add: trigger_state_def last rows)
  next
    case 3
    then show ?thesis by (auto simp add: trigger_state_def last rows)
  qed
qed

lemma has_endI: "w = u @ [tkSEMI, tkEND, tkSEMI] @ v \<Longrightarrow> has_end w"
  unfolding has_end_def by blast

lemma has_end_mono: "has_end w \<Longrightarrow> has_end (w @ v)"
proof -
  assume "has_end w"
  then obtain u x where "w = u @ [tkSEMI, tkEND, tkSEMI] @ x" by (auto simp add: has_end_def)
  then have "w @ v = u @ [tkSEMI, tkEND, tkSEMI] @ (x @ v)" by simp
  then show ?thesis by (rule has_endI)
qed

lemma trigger_state_run:
  "visible w \<Longrightarrow> \<not> has_end w \<Longrightarrow> trigger_state (run 5 w) w"
proof (induction w rule: rev_induct)
  case Nil
  then show ?case by (simp add: trigger_state_def)
next
  case (snoc t w)
  then show ?case using trigger_state_step [of "run 5 w" w t] has_end_mono by auto
qed

lemma run_closed:
  assumes "closed_by_end w" "visible w"
  shows "run 5 w = 1"
proof -
  obtain u where w: "w = u @ [tkSEMI, tkEND, tkSEMI]" using assms(1) by (auto simp add: closed_by_end_def)
  have "\<not> has_end (u @ [tkSEMI, tkEND])"
  proof
    assume "has_end (u @ [tkSEMI, tkEND])"
    then obtain x y where "u @ [tkSEMI, tkEND] = x @ [tkSEMI, tkEND, tkSEMI] @ y" by (auto simp add: has_end_def)
    then have "w = x @ [tkSEMI, tkEND, tkSEMI] @ (y @ [tkSEMI])" using w by simp
    then show False using assms(1) unfolding closed_by_end_def by blast
  qed
  moreover have "visible (u @ [tkSEMI, tkEND])" using assms(2) w by simp
  ultimately have "run 5 (u @ [tkSEMI, tkEND]) = 7"
    using trigger_state_run [of "u @ [tkSEMI, tkEND]"] append1_eq_conv [of "u @ [tkSEMI]" tkEND _ tkSEMI]
    by (auto simp add: trigger_state_def tk_defs)
  then show ?thesis by (simp add: w step_def trans_def tk_defs)
qed

text \<open>The first end.\<close>

lemma first_end:
  "has_end x \<Longrightarrow> \<exists>w r. x = w @ r \<and> closed_by_end w"
proof (induction x rule: rev_induct)
  case Nil
  then show ?case by (simp add: has_end_def)
next
  case (snoc t x)
  show ?case
  proof (cases "has_end x")
    case True
    then show ?thesis using snoc.IH by (metis append.assoc)
  next
    case False
    have only: "v = []" if v: "x @ [t] = u @ [tkSEMI, tkEND, tkSEMI] @ v" for u v
    proof (rule ccontr)
      assume "v \<noteq> []"
      then obtain y z where "v = y @ [z]" by (metis rev_exhaust)
      then have "x = u @ [tkSEMI, tkEND, tkSEMI] @ y"
        using v append1_eq_conv [of x t "u @ [tkSEMI, tkEND, tkSEMI] @ y" z] by simp
      then show False using False has_endI by blast
    qed
    moreover obtain u v where "x @ [t] = u @ [tkSEMI, tkEND, tkSEMI] @ v"
      using snoc.prems by (auto simp add: has_end_def)
    ultimately have "closed_by_end (x @ [t])" unfolding closed_by_end_def by (metis append.right_neutral)
    then show ?thesis by (metis append.right_neutral)
  qed
qed

text \<open>A statement leads from state 1 back to it, and every run back to state 1 starts with one.\<close>

lemma run_statement:
  assumes "statement s" "visible s"
  shows "run 1 s = 1"
proof -
  from assms(1) consider b where "s = b @ [tkSEMI]" "tkSEMI \<notin> set b" "\<not> (\<exists>h w. b = h @ w \<and> trigger_head h)"
    | h w where "s = h @ w" "trigger_head h" "closed_by_end w" unfolding statement_def by blast
  then show ?thesis
  proof cases
    case 1
    have t: "tkSEMI < 8" "tkSEMI \<noteq> tkWS" by (simp_all add: tk_defs)
    have "plain_state (run 1 b) b" using plain_state_run [of b] 1(1,2) assms(2) by simp
    then have "run 1 b \<in> {1, 2, 3, 4}" using 1(3) unfolding plain_state_def by auto
    then show ?thesis using 1(1) step_rows [OF t] by auto
  next
    case 2
    then show ?thesis using run_trigger_head(1) [OF 2(2)] run_closed [OF 2(3)] assms(2) by simp
  qed
qed

lemma run_first_statement:
  assumes "run 1 ts = 1" "visible ts" "ts \<noteq> []"
  shows "\<exists>s r. ts = s @ r \<and> statement s \<and> s \<noteq> [] \<and> run 1 r = 1"
proof (cases "tkSEMI \<in> set ts")
  case False
  have "plain_state 1 ts" using plain_state_run [OF assms(2) False] assms(1) by simp
  then show ?thesis using assms(3) by (simp add: plain_state_def)
next
  case True
  obtain b r where ts: "ts = b @ tkSEMI # r" "tkSEMI \<notin> set b" using split_list_first [OF True] by blast
  have v: "visible b" "visible r" using assms(2) ts by simp_all
  have t: "tkSEMI < 8" "tkSEMI \<noteq> tkWS" by (simp_all add: tk_defs)
  show ?thesis
  proof (cases "\<exists>h w. b = h @ w \<and> trigger_head h")
    case False
    have "statement (b @ [tkSEMI])" using ts(2) False unfolding statement_def by blast
    moreover have "visible (b @ [tkSEMI])" using v t by simp
    ultimately have "statement (b @ [tkSEMI])" "run 1 (b @ [tkSEMI]) = 1" using run_statement by blast+
    then show ?thesis using assms(1) ts by (intro exI [of _ "b @ [tkSEMI]"] exI [of _ r]) simp
  next
    case True
    then obtain h w where h: "b = h @ w" "trigger_head h" by blast
    let ?x = "w @ tkSEMI # r"
    have x: "run 5 ?x = 1" "visible ?x" using assms(1) ts h v t run_trigger_head(1) [OF h(2)] by simp_all
    have "has_end ?x"
    proof (rule ccontr)
      assume "\<not> has_end ?x"
      then have "trigger_state 1 ?x" using trigger_state_run [OF x(2)] x(1) by simp
      then show False by (simp add: trigger_state_def)
    qed
    then obtain w' r' where w: "?x = w' @ r'" "closed_by_end w'" using first_end by blast
    then have "visible w'" using x(2) by simp
    then have "run 5 w' = 1" using run_closed [OF w(2)] by simp
    then have "run 1 r' = 1" using x(1) unfolding w(1) by simp
    moreover have "statement (h @ w')" using h(2) w(2) unfolding statement_def by blast
    moreover have "h @ w' \<noteq> []" using h(2) by (auto simp add: trigger_head_def)
    moreover have "ts = (h @ w') @ r'" using ts h w(1) by simp
    ultimately show ?thesis by blast
  qed
qed

lemma run_statements:
  assumes "visible ts"
  shows "run 1 ts = 1 \<longleftrightarrow> (\<exists>ss. ts = concat ss \<and> (\<forall>s\<in>set ss. statement s))"
proof
  show "run 1 ts = 1 \<Longrightarrow> \<exists>ss. ts = concat ss \<and> (\<forall>s\<in>set ss. statement s)"
    using assms
  proof (induction "length ts" arbitrary: ts rule: less_induct)
    case less
    show ?case
    proof (cases "ts = []")
      case True
      then show ?thesis by (intro exI [of _ "[]"]) simp
    next
      case False
      obtain s r where s: "ts = s @ r" "statement s" "s \<noteq> []" "run 1 r = 1"
        using run_first_statement [OF less.prems False] by blast
      then obtain ss where "r = concat ss" "\<forall>s\<in>set ss. statement s"
        using less.hyps [of r] less.prems(2) by auto
      then show ?thesis using s by (intro exI [of _ "s # ss"]) simp
    qed
  qed
  assume "\<exists>ss. ts = concat ss \<and> (\<forall>s\<in>set ss. statement s)"
  then obtain ss where ss: "ts = concat ss" "\<forall>s\<in>set ss. statement s" by blast
  have "visible (concat ss) \<Longrightarrow> \<forall>s\<in>set ss. statement s \<Longrightarrow> run 1 (concat ss) = 1"
  proof (induction ss)
    case (Cons s ss)
    then show ?case using run_statement [of s] by simp
  qed simp
  then show "run 1 ts = 1" using ss assms by simp
qed

section \<open>The machine on the tokens of a text\<close>

definition small_token :: "complete_outcome \<Rightarrow> bool" where
  "small_token x \<longleftrightarrow> (\<forall>t r. x = Token t r \<longrightarrow> t < 8)"

lemma small_token_intros:
  "small_token x \<Longrightarrow> small_token y \<Longrightarrow> small_token (if b then x else y)"
  "small_token Unterminated" "small_token AtEnd" "t < 8 \<Longrightarrow> small_token (Token t r)"
  by (simp_all add: small_token_def)

lemma tk_less: "tkSEMI < 8" "tkWS < 8" "tkOTHER < 8" "tkEXPLAIN < 8" "tkCREATE < 8" "tkTEMP < 8"
  "tkTRIGGER < 8" "tkEND < 8"
  by (simp_all add: tk_defs)

lemma if_less: "a < (8::nat) \<Longrightarrow> b < 8 \<Longrightarrow> (if P then a else b) < 8"
  by simp

lemma complete_keyword_less: "complete_keyword z n < 8"
  unfolding complete_keyword_def Let_def by (intro if_less tk_less)

lemma complete_next_small: "small_token (complete_next z)"
  unfolding complete_next_def Let_def by (intro small_token_intros tk_less complete_keyword_less)

lemma complete_tokens_less: "\<forall>t\<in>set (fst (complete_tokens z)). t < 8"
proof (induction z rule: complete_tokens.induct)
  case (1 z)
  show ?case
  proof (cases "at z = NUL")
    case True
    then show ?thesis by (subst complete_tokens.simps) simp
  next
    case False
    then show ?thesis
      using 1 complete_next_small [of z]
      by (subst complete_tokens.simps) (auto simp add: small_token_def split: complete_outcome.split prod.split)
  qed
qed

lemma step_less: "q < 8 \<Longrightarrow> t < 8 \<Longrightarrow> step q t < 8"
  using below_8 [of q] below_8 [of t] by (auto simp add: step_def trans_def)

lemma trans_lookup:
  "q < 8 \<Longrightarrow> t < 8 \<Longrightarrow> bind_res (nth_res trans q) (\<lambda>row. bind_res (nth_res row t) f) = f (step q t)"
proof -
  assume q: "q < 8" and t: "t < 8"
  have "q < length trans" using q by (simp add: trans_def)
  moreover have "length (trans ! q) = 8" using below_8 [OF q] by (auto simp add: trans_def)
  ultimately show ?thesis using t by (simp add: step_def)
qed

lemma complete_loop_run:
  "q < 8 \<Longrightarrow> complete_loop q z =
     Inr (if snd (complete_tokens z) \<and> run q (fst (complete_tokens z)) = 1 then 1 else 0)"
proof (induction q z rule: complete_loop.induct)
  case (1 q z)
  show ?case
  proof (cases "at z = NUL")
    case True
    then show ?thesis by (subst complete_loop.simps, subst (1 2) complete_tokens.simps) simp
  next
    case False
    show ?thesis
    proof (cases "complete_next z")
      case (Token t r)
      have t: "t < 8" using complete_next_small [of z] Token by (simp add: small_token_def)
      have "q < length trans" "length (trans ! q) = 8"
        using "1.prems" below_8 [OF "1.prems"] by (auto simp add: trans_def)
      then have row: "nth_res trans q = Inr (trans ! q)" "nth_res (trans ! q) t = Inr (step q t)"
        using t by (simp_all add: step_def)
      have "complete_loop q z = complete_loop (step q t) r"
        using False Token trans_lookup [OF "1.prems" t] by (subst complete_loop.simps) simp
      also have "\<dots> = Inr (if snd (complete_tokens r) \<and> run (step q t) (fst (complete_tokens r)) = 1 then 1 else 0)"
        by (rule "1.IH" [OF False Token row step_less [OF "1.prems" t]])
      moreover have "complete_tokens z = (t # fst (complete_tokens r), snd (complete_tokens r))"
        using False Token by (subst complete_tokens.simps) (simp split: prod.split)
      ultimately show ?thesis by simp
    qed (use False in \<open>subst complete_loop.simps, subst (1 2) complete_tokens.simps, simp\<close>)+
  qed
qed

lemma step_WS: "q < 8 \<Longrightarrow> step q tkWS = q"
  using below_8 [of q] by (auto simp add: step_def trans_def tk_defs)

lemma run_visible:
  "q < 8 \<Longrightarrow> \<forall>t\<in>set ts. t < 8 \<Longrightarrow> run q ts = run q (filter (\<lambda>t. t \<noteq> tkWS) ts)"
  by (induction ts arbitrary: q) (simp_all add: step_WS step_less)

lemma run_0: "visible ts \<Longrightarrow> run 0 ts = 1 \<longleftrightarrow> ts \<noteq> [] \<and> run 1 ts = 1"
  by (cases ts) (simp_all add: step_rows(1))

lemma statement_nonempty: "statement s \<Longrightarrow> s \<noteq> []"
  by (auto simp add: statement_def trigger_head_def)

section \<open>Properties\<close>

text \<open>C40. \<open>sqlite3_complete\<close> recognises exactly the texts that consist of complete statements: it
  answers 1 when the text does not end inside a C comment, a quoted name or a string and its
  tokens without white space are one or more statements, and 0 otherwise.  A statement ends at
  its first semicolon, except that a trigger definition, with or without EXPLAIN and TEMP, ends
  at the first semicolon, END, semicolon in a row.  The transition table is never read outside
  its eight rows and columns, and the loop ends on every text.\<close>

theorem complete_recognises_statements:
  "sqlite3_complete z =
     (case complete_tokens z of (ts, terminated) \<Rightarrow>
        Inr (if terminated \<and> (\<exists>ss. ss \<noteq> [] \<and> list_all statement ss \<and> filter (\<lambda>t. t \<noteq> tkWS) ts = concat ss)
             then 1 else 0))"
proof -
  obtain ts b where tb: "complete_tokens z = (ts, b)" by fastforce
  have small: "\<forall>t\<in>set ts. t < 8" using complete_tokens_less [of z] tb by simp
  let ?vs = "filter (\<lambda>t. t \<noteq> tkWS) ts"
  have v: "visible ?vs" using small by (simp add: visible_def)
  have "run 0 ts = 1 \<longleftrightarrow> ?vs \<noteq> [] \<and> run 1 ?vs = 1"
    using run_visible [of 0 ts] run_0 [OF v] small by simp
  also have "\<dots> \<longleftrightarrow> (\<exists>ss. ss \<noteq> [] \<and> list_all statement ss \<and> ?vs = concat ss)"
    unfolding run_statements [OF v] list_all_iff using statement_nonempty by fastforce
  finally have r: "run 0 ts = 1 \<longleftrightarrow> (\<exists>ss. ss \<noteq> [] \<and> list_all statement ss \<and> ?vs = concat ss)" .
  have "sqlite3_complete z = Inr (if b \<and> run 0 ts = 1 then 1 else 0)"
    using complete_loop_run [of 0 z] tb by (simp add: sqlite3_complete_def)
  then show ?thesis using tb by (simp only: r prod.case)
qed

end
