(* ===== verification/SqlParse.thy ===== *)
theory SqlParse
  imports SqlTokenizer SqliteOs
begin

text \<open>
  The loop that feeds the tokens of an SQL text to the parser, \<open>sqlite3RunParser\<close> of
  tokenize.c inside components/Ledger/src/sqlite3.c, with the look-ahead that decides whether
  WINDOW, OVER and FILTER are keywords.  The generated parser, its actions and the connection
  they change are one argument: \<open>push\<close> takes a token and its text and gives the new parse
  context.  Freeing what the parser left behind has no part in the model.
\<close>

section \<open>Look-ahead\<close>

text \<open>The pointer behind the token is the rest of the memory.  A white-space token that is empty
  would repeat forever.\<close>

function getToken :: "char list \<Rightarrow> (int \<times> char list) res" where
  "getToken z =
     bind_res (sqlite3GetToken z) (\<lambda>(n, t).
       if t = TK_SPACE then (if n = 0 then Inl NoReturn else getToken (drop n z))
       else if t = TK_ID \<or> t = TK_STRING \<or> t = TK_JOIN_KW \<or> t = TK_WINDOW \<or> t = TK_OVER
            then Inr (TK_ID, drop n z)
       else bind_res (sqlite3ParserFallback t) (\<lambda>f.
              Inr (if f = TK_ID then TK_ID else t, drop n z)))"
  by pat_completeness auto
termination
proof (relation "measure length", goal_cases)
  case (2 z r n t)
  then have "z \<noteq> []" by (auto simp: sqlite3GetToken_def)
  with 2 show ?case by (cases z; cases n) auto
qed simp

declare getToken.simps [simp del]

definition analyzeWindowKeyword :: "char list \<Rightarrow> int res" where
  "analyzeWindowKeyword z =
     bind_res (getToken z) (\<lambda>(t, z). if t \<noteq> TK_ID then Inr TK_ID else
     bind_res (getToken z) (\<lambda>(t, _). if t \<noteq> TK_AS then Inr TK_ID else Inr TK_WINDOW))"

definition analyzeOverKeyword :: "char list \<Rightarrow> int \<Rightarrow> int res" where
  "analyzeOverKeyword z lastToken =
     (if lastToken = TK_RP then
        bind_res (getToken z) (\<lambda>(t, _). if t = TK_LP \<or> t = TK_ID then Inr TK_OVER else Inr TK_ID)
      else Inr TK_ID)"

definition analyzeFilterKeyword :: "char list \<Rightarrow> int \<Rightarrow> int res" where
  "analyzeFilterKeyword z lastToken =
     (if lastToken = TK_RP then
        bind_res (getToken z) (\<lambda>(t, _). if t = TK_LP then Inr TK_FILTER else Inr TK_ID)
      else Inr TK_ID)"

section \<open>The loop\<close>

definition SQLITE_TOOBIG :: int where "SQLITE_TOOBIG = 18"
definition SQLITE_INTERRUPT :: int where "SQLITE_INTERRUPT = 9"

record 'e parse =
  p_rc :: int
  p_nErr :: int
  zErrMsg :: "string option"
  zTail :: "char list"
  engine :: 'e

text \<open>\<open>sqlite3ErrorMsg\<close>, outside the mode that suppresses errors.\<close>

definition sqlite3ErrorMsg :: "'e parse \<Rightarrow> string \<Rightarrow> 'e parse" where
  "sqlite3ErrorMsg p zMsg = p\<lparr>p_nErr := p_nErr p + 1, zErrMsg := Some zMsg, p_rc := SQLITE_ERROR\<rparr>"

datatype step =
    Stop int "string option"   \<comment> \<open>leave the loop with this code and message\<close>
  | Done                       \<comment> \<open>the end of the text has been fed\<close>
  | Skip nat                   \<comment> \<open>white space of this length\<close>
  | Push int nat               \<comment> \<open>feed a token of this length\<close>

text \<open>One iteration up to the call of the parser.  \<open>left\<close> is \<open>mxSqlLen\<close>, \<open>interrupted\<close>
  what the flag of the connection reads at this point of the text.\<close>

definition next_step :: "(char list \<Rightarrow> bool) \<Rightarrow> char list \<Rightarrow> int \<Rightarrow> int \<Rightarrow> (step \<times> int) res" where
  "next_step interrupted zSql left lastTokenParsed =
     bind_res (sqlite3GetToken zSql) (\<lambda>(n, tokenType). let left = left - int n in
     bind_res
      (if left < 0 then Inr (Stop SQLITE_TOOBIG None)
       else if tokenType \<ge> TK_WINDOW then
         (if interrupted zSql then Inr (Stop SQLITE_INTERRUPT None)
          else if tokenType = TK_SPACE then Inr (Skip n)
          else bind_res (nth_res zSql 0) (\<lambda>c.
            if c = NUL then
              (if lastTokenParsed = TK_SEMI then Inr (Push 0 0)
               else if lastTokenParsed = 0 then Inr Done
               else Inr (Push TK_SEMI 0))
            else if tokenType = TK_WINDOW then
              bind_res (analyzeWindowKeyword (drop 6 zSql)) (\<lambda>t. Inr (Push t n))
            else if tokenType = TK_OVER then
              bind_res (analyzeOverKeyword (drop 4 zSql) lastTokenParsed) (\<lambda>t. Inr (Push t n))
            else if tokenType = TK_FILTER then
              bind_res (analyzeFilterKeyword (drop 6 zSql) lastTokenParsed) (\<lambda>t. Inr (Push t n))
            else Inr (Stop SQLITE_ERROR
                   (Some (''unrecognized token: '' @ [CHR 0x22] @ take n zSql @ [CHR 0x22])))))
       else Inr (Push tokenType n)) (\<lambda>s. Inr (s, left)))"

text \<open>The loop.  An empty token that is not the end of the text would repeat forever.\<close>

definition end_phase :: "int \<Rightarrow> nat" where
  "end_phase lastToken = (if lastToken = 0 then 0 else if lastToken = TK_SEMI then 1 else 2)"

definition progress :: "char list \<Rightarrow> nat \<Rightarrow> int \<Rightarrow> int \<Rightarrow> bool" where
  "progress z n old new \<longleftrightarrow> z \<noteq> [] \<and> (n > 0 \<or> end_phase new < end_phase old)"

function run_loop :: "(int \<Rightarrow> string \<Rightarrow> 'e parse \<Rightarrow> 'e parse) \<Rightarrow> (char list \<Rightarrow> bool) \<Rightarrow>
    char list \<Rightarrow> int \<Rightarrow> int \<Rightarrow> 'e parse \<Rightarrow> ('e parse \<times> char list) res" where
  "run_loop push intr z left old p =
     bind_res (next_step intr z left old) (\<lambda>(s, left').
     case s of
       Stop rc msg \<Rightarrow>
         Inr (case msg of None \<Rightarrow> p\<lparr>p_rc := rc, p_nErr := p_nErr p + 1\<rparr> | Some m \<Rightarrow> sqlite3ErrorMsg p m, z)
     | Done \<Rightarrow> Inr (p, z)
     | Skip n \<Rightarrow> if n = 0 then Inl NoReturn else
         if z = [] then Inl OutOfBounds else run_loop push intr (drop n z) left' old p
     | Push t n \<Rightarrow>
         let p' = push t (take n z) p in
         if p_rc p' \<noteq> SQLITE_OK then Inr (p', drop n z)
         else if progress z n old t then run_loop push intr (drop n z) left' t p'
         else Inl NoReturn)"
  by pat_completeness auto
termination
  by (relation "measures [\<lambda>(push, intr, z, left, old, p). length z,
        \<lambda>(push, intr, z, left, old, p). end_phase old]")
     (auto simp: progress_def)

declare run_loop.simps [simp del]

text \<open>\<open>sqlite3RunParser\<close>: \<open>pEngine\<close> tells whether memory for the parser was granted, \<open>fault\<close> is
  what \<open>sqlite3OomFault\<close> does to the connection when it was not, \<open>limit\<close> is the connection's limit on the length of a text, \<open>oom\<close>
  whether an allocation failed meanwhile, \<open>errstr\<close> the standard message of a code.  The
  result is the context and what is returned, the number of errors or \<open>SQLITE_NOMEM\<close>.\<close>

definition parse_end :: "(int \<Rightarrow> string) \<Rightarrow> 'e parse \<Rightarrow> char list \<Rightarrow> 'e parse \<times> int" where
  "parse_end errstr p z =
     (let bad = (zErrMsg p \<noteq> None \<or> (p_rc p \<noteq> SQLITE_OK \<and> p_rc p \<noteq> SQLITE_DONE));
          p = (if bad \<and> zErrMsg p = None then p\<lparr>zErrMsg := Some (errstr (p_rc p))\<rparr> else p)
      in (p\<lparr>zTail := z\<rparr>, if bad then 1 else 0))"

definition sqlite3RunParser :: "(int \<Rightarrow> string \<Rightarrow> 'e parse \<Rightarrow> 'e parse) \<Rightarrow> (char list \<Rightarrow> bool) \<Rightarrow>
    int \<Rightarrow> bool \<Rightarrow> ('e parse \<Rightarrow> 'e parse) \<Rightarrow> ('e parse \<Rightarrow> bool) \<Rightarrow> (int \<Rightarrow> string) \<Rightarrow> char list \<Rightarrow>
    'e parse \<Rightarrow> ('e parse \<times> int) res" where
  "sqlite3RunParser push intr limit pEngine fault oom errstr zSql p =
     (let p = p\<lparr>p_rc := SQLITE_OK, zTail := zSql\<rparr>
      in if \<not> pEngine then Inr (fault p, SQLITE_NOMEM)
         else
           bind_res (run_loop push intr zSql limit (-1) p) (\<lambda>(p, z).
           Inr (parse_end errstr (if oom p then p\<lparr>p_rc := SQLITE_NOMEM\<rparr> else p) z)))"

section \<open>The loop on terminated texts\<close>

lemma ends_at_tail: "ends_at z L \<Longrightarrow> n \<le> L \<Longrightarrow> ends_at (drop n z) (L - n)"
  by (auto simp: ends_at_def)

lemma token_at_end: "z ! 0 = NUL \<Longrightarrow> z \<noteq> [] \<Longrightarrow> sqlite3GetToken z = Inr (0, TK_ILLEGAL)"
  by (simp add: sqlite3GetToken_def nth_res_def tk_vals)

text \<open>Every terminated text has a first token; it is empty only at the terminator.\<close>

lemma first_token:
  assumes "ends_at z L"
  obtains n t where "sqlite3GetToken z = Inr (n, t)" "n \<le> L" "0 < n \<longleftrightarrow> z ! 0 \<noteq> NUL" "lookahead_ok n t"
    "z ! 0 = NUL \<longrightarrow> t = TK_ILLEGAL"
proof (cases "z ! 0 = NUL")
  case True
  then show ?thesis using that token_at_end [OF True] assms by (auto simp: ends_at_def)
next
  case False
  then show ?thesis using that token_within [OF assms False] by (auto simp: within_def)
qed

lemma fallback_total: "0 < t \<Longrightarrow> t \<le> TK_ILLEGAL \<Longrightarrow> \<exists>f. sqlite3ParserFallback t = Inr f"
  using fallback_identifier [of t] by (auto simp: TK_ILLEGAL_def)

lemma getToken_total:
  assumes "ends_at z L"
  shows "\<exists>t k. getToken z = Inr (t, drop k z) \<and> k \<le> L"
  using assms
proof (induction L arbitrary: z rule: less_induct)
  case (less L)
  obtain n t where nt: "sqlite3GetToken z = Inr (n, t)" "n \<le> L" "0 < n \<longleftrightarrow> z ! 0 \<noteq> NUL" "lookahead_ok n t"
    "z ! 0 = NUL \<longrightarrow> t = TK_ILLEGAL" using first_token [OF less.prems] .
  have step: "getToken z = (if t = TK_SPACE then (if n = 0 then Inl NoReturn else getToken (drop n z))
       else if t = TK_ID \<or> t = TK_STRING \<or> t = TK_JOIN_KW \<or> t = TK_WINDOW \<or> t = TK_OVER
            then Inr (TK_ID, drop n z)
       else bind_res (sqlite3ParserFallback t) (\<lambda>f.
              Inr (if f = TK_ID then TK_ID else t, drop n z)))"
    by (subst getToken.simps) (simp add: nt(1))
  show ?case
  proof (cases "t = TK_SPACE")
    case True
    then have n: "0 < n" using nt(3,5) by (auto simp: tk_vals)
    then obtain u k where "getToken (drop n z) = Inr (u, drop k (drop n z))" "k \<le> L - n"
      using less.IH [OF _ ends_at_tail [OF less.prems nt(2)]] nt(2) by auto
    then show ?thesis using step True n nt(2) by (intro exI [of _ u] exI [of _ "k + n"]) auto
  next
    case False
    obtain f where "sqlite3ParserFallback t = Inr f"
      using fallback_total nt(4) by (auto simp: lookahead_ok_def)
    then show ?thesis using step False nt(2) by auto
  qed
qed

lemma analyze_total:
  assumes "ends_at z L"
  shows "\<exists>t. analyzeWindowKeyword z = Inr t" "\<exists>t. analyzeOverKeyword z l = Inr t"
    "\<exists>t. analyzeFilterKeyword z l = Inr t"
proof -
  obtain t k where t: "getToken z = Inr (t, drop k z)" "k \<le> L" using getToken_total [OF assms] by blast
  obtain u j where u: "getToken (drop k z) = Inr (u, drop j (drop k z))"
    using getToken_total [OF ends_at_tail [OF assms t(2)]] by blast
  show "\<exists>t. analyzeWindowKeyword z = Inr t" "\<exists>t. analyzeOverKeyword z l = Inr t"
    "\<exists>t. analyzeFilterKeyword z l = Inr t"
    using t u by (auto simp: analyzeWindowKeyword_def analyzeOverKeyword_def analyzeFilterKeyword_def)
qed

lemma next_step_total:
  assumes "ends_at z L"
  shows "\<exists>s left'. next_step intr z left old = Inr (s, left') \<and>
    (\<forall>n. s = Skip n \<longrightarrow> 0 < n \<and> n \<le> L) \<and> (\<forall>t n. s = Push t n \<longrightarrow> progress z n old t \<and> n \<le> L)"
proof -
  obtain n t where nt: "sqlite3GetToken z = Inr (n, t)" "n \<le> L" "0 < n \<longleftrightarrow> z ! 0 \<noteq> NUL" "lookahead_ok n t"
    "z ! 0 = NUL \<longrightarrow> t = TK_ILLEGAL" using first_token [OF assms] .
  have z: "z \<noteq> []" "nth_res z 0 = Inr (z ! 0)" using assms by (auto simp: ends_at_def nth_res_def)
  have "\<exists>u. analyzeWindowKeyword (drop 6 z) = Inr u" if "t = TK_WINDOW"
    using that nt(2,4) analyze_total(1) [OF ends_at_tail [OF assms, of 6]] by (simp add: lookahead_ok_def)
  moreover have "\<exists>u. analyzeOverKeyword (drop 4 z) old = Inr u" if "t = TK_OVER"
    using that nt(2,4) analyze_total(2) [OF ends_at_tail [OF assms, of 4]] by (simp add: lookahead_ok_def)
  moreover have "\<exists>u. analyzeFilterKeyword (drop 6 z) old = Inr u" if "t = TK_FILTER"
    using that nt(2,4) analyze_total(3) [OF ends_at_tail [OF assms, of 6]] by (simp add: lookahead_ok_def)
  moreover have "z ! 0 = NUL \<Longrightarrow> t \<ge> TK_WINDOW \<and> t \<noteq> TK_SPACE" using nt(5) by (auto simp: tk_vals)
  moreover have "progress z 0 old TK_SEMI" if "old \<noteq> TK_SEMI" "old \<noteq> 0"
    using that z(1) by (simp add: progress_def end_phase_def TK_SEMI_def)
  moreover have "progress z 0 old 0" if "old = TK_SEMI"
    using that z(1) by (simp add: progress_def end_phase_def TK_SEMI_def)
  moreover have "progress z n old u" if "0 < n" for u
    using that z(1) by (simp add: progress_def)
  ultimately show ?thesis
    using nt(1-3) z(2) by (auto simp: next_step_def Let_def)
qed

section \<open>The tokens of a text\<close>

text \<open>What the loop would feed to a parser that never stops it: each token with its text and the
  memory behind it, and the way the loop ends.\<close>

type_synonym lexemes = "(int \<times> string \<times> char list) list \<times> step \<times> char list"

function lexemes :: "(char list \<Rightarrow> bool) \<Rightarrow> char list \<Rightarrow> int \<Rightarrow> int \<Rightarrow> lexemes res" where
  "lexemes intr z left old =
     bind_res (next_step intr z left old) (\<lambda>(s, left').
     case s of
       Stop rc msg \<Rightarrow> Inr ([], s, z)
     | Done \<Rightarrow> Inr ([], s, z)
     | Skip n \<Rightarrow> if n = 0 then Inl NoReturn else
         if z = [] then Inl OutOfBounds else lexemes intr (drop n z) left' old
     | Push t n \<Rightarrow>
         if progress z n old t then
           bind_res (lexemes intr (drop n z) left' t) (\<lambda>(ls, e). Inr ((t, take n z, drop n z) # ls, e))
         else Inl NoReturn)"
  by pat_completeness auto
termination
  by (relation "measures [\<lambda>(intr, z, left, old). length z, \<lambda>(intr, z, left, old). end_phase old]")
     (auto simp: progress_def)

declare lexemes.simps [simp del]

text \<open>A parser fed with such a list until it reports a code.\<close>

fun feed :: "(int \<Rightarrow> string \<Rightarrow> 'e parse \<Rightarrow> 'e parse) \<Rightarrow> lexemes \<Rightarrow> 'e parse \<Rightarrow> 'e parse \<times> char list" where
  "feed push ([], s, z) p =
     (case s of Stop rc None \<Rightarrow> p\<lparr>p_rc := rc, p_nErr := p_nErr p + 1\<rparr>
      | Stop rc (Some m) \<Rightarrow> sqlite3ErrorMsg p m | _ \<Rightarrow> p, z)"
| "feed push ((t, w, z) # ls, e) p =
     (let p' = push t w p in if p_rc p' \<noteq> SQLITE_OK then (p', z) else feed push (ls, e) p')"

lemma end_phase_less: "end_phase old \<le> 2"
  by (simp add: end_phase_def)

lemma loop_induct [consumes 1, case_names step]:
  assumes "ends_at z L"
    and "\<And>z L old left. ends_at z L \<Longrightarrow>
      (\<And>n old' left'. n \<le> L \<Longrightarrow> 0 < n \<or> n = 0 \<and> end_phase old' < end_phase old \<Longrightarrow>
         P (drop n z) (L - n) old' left') \<Longrightarrow> P z L old left"
  shows "P z L (old :: int) (left :: int)"
  using assms(1)
proof (induction "3 * L + end_phase old" arbitrary: z L old left rule: less_induct)
  case less
  show ?case
  proof (rule assms(2) [OF less.prems])
    fix n old' left' assume n: "n \<le> L" "0 < n \<or> n = 0 \<and> end_phase old' < end_phase old"
    have "3 * (L - n) + end_phase old' < 3 * L + end_phase old"
      using n end_phase_less [of old'] by auto
    then show "P (drop n z) (L - n) old' left'" by (rule less.hyps) (rule ends_at_tail [OF less.prems n(1)])
  qed
qed

lemma run_loop_feed:
  assumes "ends_at z L"
  shows "\<exists>ls. lexemes intr z left old = Inr ls \<and> (\<forall>p. run_loop push intr z left old p = Inr (feed push ls p)) \<and>
    (\<forall>p. \<exists>k\<le>L. snd (feed push ls p) = drop k z)"
  using assms
proof (induction z L old left rule: loop_induct)
  case (step z L old left)
  obtain s left' where s: "next_step intr z left old = Inr (s, left')"
    "\<forall>n. s = Skip n \<longrightarrow> 0 < n \<and> n \<le> L" "\<forall>t n. s = Push t n \<longrightarrow> progress z n old t \<and> n \<le> L"
    using next_step_total [OF step.hyps] by blast
  note unfold = run_loop.simps [of push intr z left old] lexemes.simps [of intr z left old] s(1)
  have ne: "z \<noteq> []" using step.hyps by (auto simp: ends_at_def)
  have shift: "\<exists>k\<le>L. y = drop k z" if k: "\<exists>k\<le>L - n. y = drop k (drop n z)" and n: "n \<le> L" for y n
  proof -
    obtain k where "k \<le> L - n" "y = drop (k + n) z" using k by auto
    then show ?thesis using n by (intro exI [of _ "k + n"]) simp
  qed
  show ?case
  proof (cases s)
    case (Stop rc msg)
    have "snd (feed push ([], Stop rc msg, z) p) = drop 0 z" for p by (cases msg) simp_all
    then show ?thesis using Stop by (auto simp: unfold split: option.split)
  next
    case Done
    have "snd (feed push ([], Done, z) p) = drop 0 z" for p by simp
    then show ?thesis using Done by (auto simp: unfold)
  next
    case (Skip n)
    then have n: "0 < n" "n \<le> L" using s(2) by auto
    then obtain ls where ls: "lexemes intr (drop n z) left' old = Inr ls"
      "\<And>p. run_loop push intr (drop n z) left' old p = Inr (feed push ls p)"
      "\<And>p. \<exists>k\<le>L - n. snd (feed push ls p) = drop k (drop n z)"
      using step.IH [of n old left'] by blast
    have "\<exists>k\<le>L. snd (feed push ls p) = drop k z" for p
      using shift [OF ls(3) n(2)] .
    then show ?thesis using Skip n ne ls(1,2) by (intro exI [of _ ls]) (simp add: unfold)
  next
    case (Push t n)
    then have n: "progress z n old t" "n \<le> L" using s(3) by auto
    then have prog: "n \<le> L" "0 < n \<or> n = 0 \<and> end_phase t < end_phase old" by (auto simp: progress_def)
    then obtain ls where ls: "lexemes intr (drop n z) left' t = Inr ls"
      "\<And>p. run_loop push intr (drop n z) left' t p = Inr (feed push ls p)"
      "\<And>p. \<exists>k\<le>L - n. snd (feed push ls p) = drop k (drop n z)"
      using step.IH [of n t left'] prog by blast
    obtain l e where le: "ls = (l, e)" by (cases ls)
    have "\<exists>k\<le>L. snd (feed push ((t, take n z, drop n z) # l, e) p) = drop k z" for p
      using shift [OF ls(3) [of "push t (take n z) p"] n(2)] n(2) le by (auto simp: Let_def)
    then show ?thesis
      using Push n ls le by (intro exI [of _ "((t, take n z, drop n z) # l, e)"]) (simp add: unfold Let_def)
  qed
qed

section \<open>Properties\<close>

text \<open>C25. Feeding a parser: for every terminated text, whatever the parser does, the loop of
  \<open>sqlite3RunParser\<close> ends without leaving the text, and what it feeds is a list of tokens
  that does not depend on the parser, cut where the parser first reports a code; the call
  leaves the rest of the text, a position up to the terminator, as the tail for the next
  call.  When there is no memory for the parser nothing is fed and the call reports that.\<close>

theorem run_parser_feeds:
  assumes "is_cstr s" "m = s @ NUL # behind"
  shows "\<exists>ls. lexemes intr m limit (-1) = Inr ls \<and>
    (\<forall>push p. \<exists>p' k. k \<le> length s \<and>
       feed push ls (p\<lparr>p_rc := SQLITE_OK, zTail := m\<rparr>) = (p', drop k m) \<and>
       sqlite3RunParser push intr limit True fault (\<lambda>_. False) errstr m p = Inr (parse_end errstr p' (drop k m)) \<and>
       sqlite3RunParser push intr limit False fault oom errstr m p =
         Inr (fault (p\<lparr>p_rc := SQLITE_OK, zTail := m\<rparr>), SQLITE_NOMEM))"
proof -
  have z: "ends_at m (length s)" using assms ends_at_text by blast
  obtain ls where ls: "lexemes intr m limit (-1) = Inr ls" using run_loop_feed [OF z] by blast
  have "\<exists>p' k. k \<le> length s \<and> feed push ls (p\<lparr>p_rc := SQLITE_OK, zTail := m\<rparr>) = (p', drop k m) \<and>
      sqlite3RunParser push intr limit True fault (\<lambda>_. False) errstr m p = Inr (parse_end errstr p' (drop k m)) \<and>
      sqlite3RunParser push intr limit False fault oom errstr m p =
        Inr (fault (p\<lparr>p_rc := SQLITE_OK, zTail := m\<rparr>), SQLITE_NOMEM)" for push p
  proof -
    let ?p = "p\<lparr>p_rc := SQLITE_OK, zTail := m\<rparr>"
    have run: "run_loop push intr m limit (-1) ?p = Inr (feed push ls ?p)"
      and "\<exists>k\<le>length s. snd (feed push ls ?p) = drop k m"
      using run_loop_feed [OF z, of intr limit "-1" push] ls by auto
    then obtain k where k: "k \<le> length s" "snd (feed push ls ?p) = drop k m" by blast
    obtain p' where "feed push ls ?p = (p', drop k m)" using k(2) by (cases "feed push ls ?p") simp
    with k(1) run show ?thesis
      by (intro exI [of _ p'] exI [of _ k]) (simp add: sqlite3RunParser_def Let_def)
  qed
  then show ?thesis using ls by blast
qed

theorem run_parser_feeds_witness:
  "\<exists>ls. lexemes (\<lambda>_. False) (''SELECT 1'' @ NUL # []) 100 (-1) = Inr ls"
proof -
  have "is_cstr ''SELECT 1''" by simp
  from run_parser_feeds [OF this refl, of "\<lambda>_. False" "[]" 100] show ?thesis by blast
qed

end
