(* ===== verification/LedgerSql.thy ===== *)
theory LedgerSql
  imports SqlParse Ledger
begin

text \<open>
  The SQL texts of the ledger as SQLite reads them: a printed list of tokens is read back, the
  statements built by \<open>sprintf\<close> in components/Ledger/src/ledger.c have a fixed list of tokens
  while no name holds a quote, and a name with a quote adds a statement of its own.
\<close>

section \<open>Reading back printed tokens\<close>

text \<open>The tokens of a text as the parser gets them, without the positions.\<close>

definition fed :: "lexemes \<Rightarrow> (int \<times> string) list" where
  "fed ls = map (\<lambda>(t, w, _). (t, w)) (fst ls)"

definition sql_tokens :: "string \<Rightarrow> ((int \<times> string) list \<times> step) res" where
  "sql_tokens s = bind_res (lexemes (\<lambda>_. False) (s @ [NUL]) 1000000000 (-1)) (\<lambda>ls. Inr (fed ls, fst (snd ls)))"

text \<open>A text \<open>w\<close> in front of the character \<open>c\<close> is one token of kind \<open>t\<close>.\<close>

definition reads_as :: "string \<Rightarrow> int \<Rightarrow> char \<Rightarrow> bool" where
  "reads_as w t c \<longleftrightarrow> w \<noteq> [] \<and> (\<forall>r. sqlite3GetToken (w @ c # r) = Inr (length w, t)) \<and>
     (t < TK_WINDOW \<or> t = TK_SPACE)"

text \<open>A list of tokens and white space that can be printed without separators: each piece is
  read alone when the first character of the next piece, or the terminator, follows it.\<close>

fun printable :: "(int \<times> string) list \<Rightarrow> bool" where
  "printable [] \<longleftrightarrow> True"
| "printable [(t, w)] \<longleftrightarrow> reads_as w t NUL"
| "printable ((t, w) # (t', w') # ps) \<longleftrightarrow> w' \<noteq> [] \<and> reads_as w t (hd w') \<and> printable ((t', w') # ps)"

definition spell :: "(int \<times> string) list \<Rightarrow> string" where
  "spell ps = concat (map snd ps)"

lemma spell_simps [simp]: "spell [] = []" "spell ((t, w) # ps) = w @ spell ps"
  by (simp_all add: spell_def)

text \<open>What the end of the text adds: the missing semicolon and the end marker.\<close>

definition closing :: "int \<Rightarrow> (int \<times> string) list" where
  "closing old = (if old = 0 then [] else if old = TK_SEMI then [(0, [])] else [(TK_SEMI, []), (0, [])])"

lemma lexemes_token:
  assumes "reads_as w t c" "t \<noteq> TK_SPACE" "int (length w) \<le> left"
  shows "lexemes intr (w @ c # r) left old =
    bind_res (lexemes intr (c # r) (left - int (length w)) t) (\<lambda>(ls, e). Inr ((t, w, c # r) # ls, e))"
proof -
  have "sqlite3GetToken (w @ c # r) = Inr (length w, t)" "t < TK_WINDOW" "w \<noteq> []"
    using assms(1,2) by (auto simp: reads_as_def)
  then have "next_step intr (w @ c # r) left old = Inr (Push t (length w), left - int (length w))"
    using assms(3) by (simp add: next_step_def Let_def)
  then show ?thesis
    using \<open>w \<noteq> []\<close> by (subst lexemes.simps) (simp add: progress_def)
qed

lemma lexemes_space:
  assumes "reads_as w TK_SPACE c" "int (length w) \<le> left"
  shows "lexemes (\<lambda>_. False) (w @ c # r) left old = lexemes (\<lambda>_. False) (c # r) (left - int (length w)) old"
proof -
  have "sqlite3GetToken (w @ c # r) = Inr (length w, TK_SPACE)" "w \<noteq> []"
    using assms(1) by (auto simp: reads_as_def)
  then have "next_step (\<lambda>_. False) (w @ c # r) left old = Inr (Skip (length w), left - int (length w))"
    using assms(2) by (simp add: next_step_def Let_def tk_vals)
  then show ?thesis
    using \<open>w \<noteq> []\<close> by (subst lexemes.simps) simp
qed

lemma lexemes_end:
  assumes "0 \<le> left"
  shows "\<exists>ls. lexemes (\<lambda>_. False) (NUL # r) left old = Inr (ls, Done, NUL # r) \<and>
    map (\<lambda>(t, w, _). (t, w)) ls = closing old"
proof -
  have step: "next_step (\<lambda>_. False) (NUL # r) left old =
      Inr (if old = TK_SEMI then Push 0 0 else if old = 0 then Done else Push TK_SEMI 0, left)" for old
    using assms token_at_end [of "NUL # r"] by (simp add: next_step_def Let_def tk_vals)
  have semi_code: "TK_SEMI \<noteq> 0" by (simp add: TK_SEMI_def)
  have 0: "lexemes (\<lambda>_. False) (NUL # r) left 0 = Inr ([], Done, NUL # r)"
    by (subst lexemes.simps) (simp add: step TK_SEMI_def)
  have semi: "lexemes (\<lambda>_. False) (NUL # r) left TK_SEMI = Inr ([(0, [], NUL # r)], Done, NUL # r)"
    by (subst lexemes.simps) (simp add: step 0 progress_def end_phase_def TK_SEMI_def)
  have "lexemes (\<lambda>_. False) (NUL # r) left old = Inr ([(TK_SEMI, [], NUL # r), (0, [], NUL # r)], Done, NUL # r)"
    if "old \<noteq> 0" "old \<noteq> TK_SEMI"
    using that semi_code by (subst lexemes.simps) (simp add: step semi progress_def end_phase_def)
  then show ?thesis using 0 semi by (auto simp: closing_def)
qed

text \<open>The last token fed before the end of the pieces.\<close>

fun last_token :: "int \<Rightarrow> (int \<times> string) list \<Rightarrow> int" where
  "last_token old [] = old"
| "last_token old ((t, w) # ps) = last_token (if t = TK_SPACE then old else t) ps"

lemma lexemes_printed:
  assumes "printable ps" "int (length (spell ps)) \<le> left"
  shows "\<exists>ls. lexemes (\<lambda>_. False) (spell ps @ NUL # r) left old = Inr (ls, Done, NUL # r) \<and>
    map (\<lambda>(t, w, _). (t, w)) ls = filter (\<lambda>(t, _). t \<noteq> TK_SPACE) ps @ closing (last_token old ps)"
  using assms
proof (induction ps arbitrary: left old rule: printable.induct)
  case 1
  then show ?case using lexemes_end by simp
next
  case (2 t w)
  have 0: "0 \<le> left - int (length w)" "int (length w) \<le> left" using "2.prems" by auto
  show ?case
    using "2.prems" 0(2) lexemes_end [OF 0(1), of r old] lexemes_end [OF 0(1), of r t]
      lexemes_space [of w NUL left r old] lexemes_token [of w t NUL left "\<lambda>_. False" r old]
    by (cases "t = TK_SPACE") (auto split: prod.splits)
next
  case (3 t w t' w' ps)
  obtain c v where w': "w' = c # v" using "3.prems"(1) by (cases w') auto
  let ?rest = "c # v @ spell ps @ NUL # r"
  have p: "reads_as w t c" "printable ((t', w') # ps)"
    and len: "int (length (spell ((t', w') # ps))) \<le> left - int (length w)" "int (length w) \<le> left"
    using "3.prems" w' by auto
  note IH = "3.IH" [OF p(2) len(1), unfolded spell_simps w' append_Cons append_assoc]
  show ?case
  proof (cases "t = TK_SPACE")
    case True
    then have "lexemes (\<lambda>_. False) (w @ ?rest) left old = lexemes (\<lambda>_. False) ?rest (left - int (length w)) old"
      using p(1) len(2) by (simp add: lexemes_space)
    then show ?thesis using True IH [of old] by (simp add: w')
  next
    case False
    then have "lexemes (\<lambda>_. False) (w @ ?rest) left old =
        bind_res (lexemes (\<lambda>_. False) ?rest (left - int (length w)) t) (\<lambda>(ls, e). Inr ((t, w, ?rest) # ls, e))"
      using p(1) len(2) by (simp add: lexemes_token)
    then show ?thesis using False IH [of t] by (auto simp: w')
  qed
qed

text \<open>Pieces read alone.\<close>

lemma span_stop: "list_all P w \<Longrightarrow> \<not> P c \<Longrightarrow> span P (w @ c # r) i = Inr (i + length w)"
  by (induction w arbitrary: i) auto

definition ident :: "string \<Rightarrow> bool" where
  "ident w \<longleftrightarrow> 2 \<le> length w \<and> char_class (hd w) = CC_KYWD0 \<and> list_all (\<lambda>c. char_class c \<le> CC_KYWD) w"

definition word_code :: "string \<Rightarrow> int" where
  "word_code w = (case keyword_value (kw_key w) of None \<Rightarrow> TK_ID | Some c \<Rightarrow> c)"

lemma reads_word:
  assumes "ident w" "char_class c > CC_KYWD" "\<not> IdChar c" "word_code w < TK_WINDOW"
  shows "reads_as w (word_code w) c"
proof -
  obtain a b v where w: "w = a # b # v" using assms(1) by (auto simp: ident_def Suc_le_length_iff numeral_2_eq_2)
  have cl: "char_class a = 1" "char_class b \<le> 2" "list_all (\<lambda>c. char_class c \<le> CC_KYWD) v"
    using assms(1) w by (auto simp: ident_def CC_KYWD0_def CC_KYWD_def)
  have "sqlite3GetToken (w @ c # r) = Inr (length w, word_code w)" for r
  proof -
    have sc: "scan (\<lambda>c. char_class c \<le> CC_KYWD) (w @ c # r) 2 = Inr (length w)"
      using span_stop [OF cl(3), of c r 2] assms(2) by (simp add: scan_def w)
    have kw: "keywordCode (w @ c # r) (length w) TK_ID = Inr (length w, word_code w)"
      using keywordCode_value [of "length w" "w @ c # r" TK_ID] by (simp add: w word_code_def)
    have "sqlite3GetToken (w @ c # r) = keyword_token (w @ c # r)"
      using cl(1) by (simp add: sqlite3GetToken_def w tk_vals nth_res_def)
    also have "\<dots> = Inr (length w, word_code w)"
      using sc kw cl(2) assms(3) by (simp add: keyword_token_def test_def w CC_KYWD_def)
    finally show ?thesis .
  qed
  then show ?thesis using assms(4) w by (auto simp: reads_as_def)
qed

definition punct :: "(char \<times> int) list" where
  "punct = [(CHR ''('', TK_LP), (CHR '')'', TK_RP), (CHR '';'', TK_SEMI), (CHR '','', TK_COMMA),
     (CHR ''+'', TK_PLUS), (CHR ''*'', TK_STAR)]"

lemma reads_punct: "(a, t) \<in> set punct \<Longrightarrow> reads_as [a] t c"
  by (auto simp: punct_def reads_as_def sqlite3GetToken_def char_class_def at_byte_def uchar_def aiClass_def tk_vals
      nth_res_def)

lemma reads_eq: "c \<noteq> CHR ''='' \<Longrightarrow> reads_as ''='' TK_EQ c"
  by (auto simp: reads_as_def sqlite3GetToken_def char_class_def at_byte_def uchar_def aiClass_def tk_vals second_def
      nth_res_def)

lemma reads_minus: "c \<noteq> CHR ''-'' \<Longrightarrow> c \<noteq> CHR ''>'' \<Longrightarrow> reads_as ''-'' TK_MINUS c"
  by (auto simp: reads_as_def sqlite3GetToken_def char_class_def at_byte_def uchar_def aiClass_def tk_vals test_def
      nth_res_def)

lemma reads_space: "\<not> sqlite3Isspace c \<Longrightarrow> reads_as '' '' TK_SPACE c"
  by (auto simp: reads_as_def sqlite3GetToken_def char_class_def at_byte_def uchar_def aiClass_def tk_vals scan_def
      nth_res_def)

lemma quote_loop_plain:
  "CHR 0x27 \<notin> set s \<Longrightarrow> is_cstr s \<Longrightarrow> c \<noteq> CHR 0x27 \<Longrightarrow>
     quote_loop CHR 0x27 (s @ CHR 0x27 # c # r) i = Inr (i + length s, CHR 0x27)"
  by (induction s arbitrary: i) auto

lemma reads_string:
  assumes "CHR 0x27 \<notin> set s" "is_cstr s" "c \<noteq> CHR 0x27"
  shows "reads_as (quoted s) TK_STRING c"
proof -
  have "sqlite3GetToken (quoted s @ c # r) = Inr (length (quoted s), TK_STRING)" for r
    using quote_loop_plain [OF assms, of r 1]
    by (simp add: sqlite3GetToken_def quoted_def char_class_def at_byte_def uchar_def aiClass_def tk_vals
        quote_token_def nth_res_def)
  then show ?thesis by (simp add: reads_as_def quoted_def tk_vals)
qed

lemma digit_class: "sqlite3Isdigit c \<Longrightarrow> char_class c = 3"
proof -
  have "each_entry (\<lambda>n m. digit_byte n \<longrightarrow> m = 3) 0 aiClass" by code_simp
  from each_entry_byte [OF this, of c] show "sqlite3Isdigit c \<Longrightarrow> char_class c = 3"
    by (simp add: char_class_def Isdigit_byte)
qed

lemma reads_integer:
  assumes "list_all sqlite3Isdigit w" "w \<noteq> []" "\<not> IdChar c" "c \<noteq> CHR ''.''"
  shows "reads_as w TK_INTEGER c"
proof -
  obtain d v where w: "w = d # v" "sqlite3Isdigit d" using assms(1,2) by (cases w) auto
  have id: "IdChar CHR ''x''" "IdChar CHR ''X''" "IdChar CHR ''e''" "IdChar CHR ''E''"
    by (simp_all add: IdChar_def ctype_bytes byte_class_defs uchar_def)
  have "IdChar d" if "sqlite3Isdigit d" for d using that by (simp add: IdChar_def ctype_bytes)
  then have c: "\<not> sqlite3Isdigit c" "c \<noteq> CHR ''x''" "c \<noteq> CHR ''X''" "\<not> is_e c"
    using assms(3) id by (auto simp: is_e_def)
  have x: "\<not> sqlite3Isdigit CHR ''x''" "\<not> sqlite3Isdigit CHR ''X''"
    by (simp_all add: ctype_bytes byte_class_defs uchar_def)
  have "number_token (w @ c # r) = Inr (length w, TK_INTEGER)" for r
  proof -
    have "test (w @ c # r) 1 (\<lambda>c. c = CHR ''x'' \<or> c = CHR ''X'') = Inr False"
      using assms(1) w c x by (cases v) (auto simp: test_def nth_res_def)
    moreover have "test (w @ c # r) 0 (\<lambda>c. c = CHR ''0'') = Inr (d = CHR ''0'')"
      by (simp add: w test_def nth_res_def)
    moreover have "scan sqlite3Isdigit (w @ c # r) 0 = Inr (length w)"
      using span_stop [OF assms(1) c(1), of r 0] by (simp add: scan_def)
    moreover have "nth_res (w @ c # r) (length w) = Inr c" by (simp add: nth_res_def)
    moreover have "scan IdChar (w @ c # r) (length w) = Inr (length w)"
      using assms(3) by (simp add: scan_def)
    ultimately show ?thesis
      using assms(4) c(4) by (simp add: number_token_def test_def [of _ "length w"])
  qed
  then have "sqlite3GetToken (w @ c # r) = Inr (length w, TK_INTEGER)" for r
    using digit_class [OF w(2)] by (simp add: sqlite3GetToken_def w(1) nth_res_def tk_vals)
  then show ?thesis using assms(2) by (simp add: reads_as_def tk_vals)
qed

lemma reads_comment:
  assumes "list_all (\<lambda>c. c \<noteq> NUL \<and> c \<noteq> CHR 0x0A) s"
  shows "reads_as (''--'' @ s) TK_SPACE NUL"
proof -
  have "sqlite3GetToken ((''--'' @ s) @ NUL # r) = Inr (length (''--'' @ s), TK_SPACE)" for r
    using span_stop [OF assms, of NUL r 2]
    by (simp add: sqlite3GetToken_def char_class_def at_byte_def uchar_def aiClass_def tk_vals test_def scan_def nth_res_def)
  then show ?thesis by (simp add: reads_as_def tk_vals)
qed

lemma reads_empty_comment: "reads_as ''/**/'' TK_SPACE c"
  by (auto simp: reads_as_def sqlite3GetToken_def char_class_def at_byte_def uchar_def aiClass_def tk_vals test_def
      nth_res_def)

section \<open>The statements of the ledger\<close>

abbreviation sp :: "int \<times> string" where "sp \<equiv> (TK_SPACE, '' '')"

definition int_pieces :: "int \<Rightarrow> (int \<times> string) list" where
  "int_pieces x = (if x < 0 then [(TK_MINUS, ''-''), (TK_INTEGER, dec_nat (nat (- x)))]
     else [(TK_INTEGER, dec_nat (nat x))])"

text \<open>The code of a word by its upper-case text.\<close>

definition upper_word :: "string \<Rightarrow> string" where
  "upper_word w = map (\<lambda>c. char_of (nat (kw_char c))) w"

lemma kw_key_upper: "kw_key w = map uchar (upper_word w)"
proof -
  have "0 \<le> kw_char c \<and> kw_char c < 256" for c
    using uchar_bounds [of c] AND_upper1 [of "uchar c" "NOT 0x20"] by (simp add: kw_char_def)
  then show ?thesis by (simp add: kw_key_def upper_word_def uchar_def nat_less_iff)
qed

lemma word_code_upper:
  "word_code w = (case map_of keyword_list (upper_word w) of None \<Rightarrow> TK_ID | Some c \<Rightarrow> c)"
proof -
  have "map_of (map (\<lambda>(w, c). (map uchar w, c)) xs) (map uchar u) = map_of xs u" for xs :: "(string \<times> int) list" and u
    by (induction xs) (auto simp: inj_map_eq_map inj_uchar)
  then show ?thesis by (simp add: word_code_def keyword_value_def kw_key_upper)
qed

lemma kw_lookups:
  "map_of keyword_list ''INSERT'' = Some TK_INSERT"
  "map_of keyword_list ''INTO'' = Some TK_INTO"
  "map_of keyword_list ''VALUES'' = Some TK_VALUES"
  "map_of keyword_list ''OR'' = Some TK_OR"
  "map_of keyword_list ''IGNORE'' = Some TK_IGNORE"
  "map_of keyword_list ''UPDATE'' = Some TK_UPDATE"
  "map_of keyword_list ''SET'' = Some TK_SET"
  "map_of keyword_list ''WHERE'' = Some TK_WHERE"
  "map_of keyword_list ''DROP'' = Some TK_DROP"
  "map_of keyword_list ''TABLE'' = Some TK_TABLE"
  "map_of keyword_list ''TRANSACTIONS'' = None"
  "map_of keyword_list ''SRC'' = None"
  "map_of keyword_list ''DEST'' = None"
  "map_of keyword_list ''TYPE'' = None"
  "map_of keyword_list ''AMOUNT'' = None"
  "map_of keyword_list ''STATUS'' = None"
  "map_of keyword_list ''ACCOUNTS'' = None"
  "map_of keyword_list ''USER'' = None"
  "map_of keyword_list ''BALANCE'' = None"
  by (code_simp+)

lemma word_codes:
  "word_code ''INSERT'' = TK_INSERT" "word_code ''INTO'' = TK_INTO" "word_code ''VALUES'' = TK_VALUES"
  "word_code ''OR'' = TK_OR" "word_code ''IGNORE'' = TK_IGNORE" "word_code ''UPDATE'' = TK_UPDATE"
  "word_code ''SET'' = TK_SET" "word_code ''WHERE'' = TK_WHERE" "word_code ''DROP'' = TK_DROP"
  "word_code ''TABLE'' = TK_TABLE"
  "word_code ''transactions'' = TK_ID" "word_code ''src'' = TK_ID" "word_code ''dest'' = TK_ID"
  "word_code ''type'' = TK_ID" "word_code ''amount'' = TK_ID" "word_code ''status'' = TK_ID"
  "word_code ''accounts'' = TK_ID" "word_code ''user'' = TK_ID" "word_code ''balance'' = TK_ID"
  by (simp_all add: word_code_upper upper_word_def kw_char_def uchar_def char_of_def bit_0 kw_lookups)


abbreviation kw :: "string \<Rightarrow> int \<times> string" where "kw w \<equiv> (word_code w, w)"

definition audit_pieces :: "string \<Rightarrow> string \<Rightarrow> string \<Rightarrow> int \<Rightarrow> string \<Rightarrow> (int \<times> string) list" where
  "audit_pieces src dest tx_type amount status =
    [kw ''INSERT'', sp, kw ''INTO'', sp, kw ''transactions'', sp, (TK_LP, ''(''), kw ''src'', (TK_COMMA, '',''), sp,
     kw ''dest'', (TK_COMMA, '',''), sp, kw ''type'', (TK_COMMA, '',''), sp, kw ''amount'', (TK_COMMA, '',''), sp,
     kw ''status'', (TK_RP, '')''), sp, kw ''VALUES'', sp, (TK_LP, ''(''), (TK_STRING, quoted src), (TK_COMMA, '',''), sp,
     (TK_STRING, quoted dest), (TK_COMMA, '',''), sp, (TK_STRING, quoted tx_type), (TK_COMMA, '',''), sp] @
    int_pieces amount @ [(TK_COMMA, '',''), sp, (TK_STRING, quoted status), (TK_RP, '')''), (TK_SEMI, '';'')]"

definition account_pieces :: "string \<Rightarrow> (int \<times> string) list" where
  "account_pieces user =
    [kw ''INSERT'', sp, kw ''OR'', sp, kw ''IGNORE'', sp, kw ''INTO'', sp, kw ''accounts'', sp, (TK_LP, ''(''),
     kw ''user'', (TK_COMMA, '',''), sp, kw ''balance'', (TK_RP, '')''), sp, kw ''VALUES'', sp, (TK_LP, ''(''),
     (TK_STRING, quoted user), (TK_COMMA, '',''), sp, (TK_INTEGER, ''0''), (TK_RP, '')''), (TK_SEMI, '';'')]"

definition update_pieces :: "int \<times> string \<Rightarrow> int \<Rightarrow> string \<Rightarrow> (int \<times> string) list" where
  "update_pieces sign amount user =
    [kw ''UPDATE'', sp, kw ''accounts'', sp, kw ''SET'', sp, kw ''balance'', sp, (TK_EQ, ''=''), sp, kw ''balance'', sp,
     sign, sp] @ int_pieces amount @ [sp, kw ''WHERE'', sp, kw ''user'', sp, (TK_EQ, ''=''), sp,
     (TK_STRING, quoted user), (TK_SEMI, '';'')]"

lemma spell_append [simp]: "spell (ps @ qs) = spell ps @ spell qs"
  by (simp add: spell_def)

lemma spell_int [simp]: "spell (int_pieces x) = dec_int x"
  by (simp add: int_pieces_def dec_int_def)

lemma spell_statements:
  "spell (audit_pieces src dest ty amount status) = audit_sql src dest ty amount status"
  "spell (account_pieces user) = account_sql user"
  "spell (update_pieces (TK_PLUS, ''+'') amount user) = credit_sql amount user"
  "spell (update_pieces (TK_MINUS, ''-'') amount user) = debit_sql amount user"
  by (simp_all add: audit_pieces_def account_pieces_def update_pieces_def audit_sql_def account_sql_def
      credit_sql_def debit_sql_def)

text \<open>Characters that end a word or a number.\<close>

definition breaks :: "char \<Rightarrow> bool" where
  "breaks c \<longleftrightarrow> char_class c > CC_KYWD \<and> \<not> IdChar c \<and> c \<noteq> CHR ''.''"

lemma breaks_chars:
  "breaks CHR '' ''" "breaks CHR '',''" "breaks CHR ''('' " "breaks CHR '')''" "breaks CHR '';''" "breaks NUL"
  by (simp_all add: breaks_def char_class_def at_byte_def uchar_def aiClass_def CC_KYWD_def IdChar_def ctype_bytes
      byte_class_defs)

lemma idents:
  "ident ''INSERT''" "ident ''INTO''" "ident ''VALUES''" "ident ''OR''" "ident ''IGNORE''" "ident ''UPDATE''" "ident ''SET''"
  "ident ''WHERE''" "ident ''DROP''" "ident ''TABLE''" "ident ''transactions''" "ident ''src''" "ident ''dest''"
  "ident ''type''" "ident ''amount''" "ident ''status''" "ident ''accounts''" "ident ''user''" "ident ''balance''"
  by (simp_all add: ident_def char_class_def at_byte_def uchar_def aiClass_def CC_KYWD_def CC_KYWD0_def)

lemma reads_kw:
  "ident w \<Longrightarrow> word_code w = t \<Longrightarrow> t < TK_WINDOW \<Longrightarrow> breaks c \<Longrightarrow> reads_as w t c"
  using reads_word [of w c] by (simp add: breaks_def)

lemma reads_words:
  assumes "breaks c"
  shows "reads_as ''INSERT'' TK_INSERT c"
    "reads_as ''INTO'' TK_INTO c"
    "reads_as ''VALUES'' TK_VALUES c"
    "reads_as ''OR'' TK_OR c"
    "reads_as ''IGNORE'' TK_IGNORE c"
    "reads_as ''UPDATE'' TK_UPDATE c"
    "reads_as ''SET'' TK_SET c"
    "reads_as ''WHERE'' TK_WHERE c"
    "reads_as ''DROP'' TK_DROP c"
    "reads_as ''TABLE'' TK_TABLE c"
    "reads_as ''transactions'' TK_ID c"
    "reads_as ''src'' TK_ID c"
    "reads_as ''dest'' TK_ID c"
    "reads_as ''type'' TK_ID c"
    "reads_as ''amount'' TK_ID c"
    "reads_as ''status'' TK_ID c"
    "reads_as ''accounts'' TK_ID c"
    "reads_as ''user'' TK_ID c"
    "reads_as ''balance'' TK_ID c"
  by (rule reads_kw [OF _ _ _ assms], simp add: idents, simp add: word_codes, simp add: tk_vals)+

lemma dec_nat_text:
  "list_all sqlite3Isdigit (dec_nat n)" "dec_nat n \<noteq> []" "sqlite3Isdigit (hd (dec_nat n))"
proof -
  have "list_all sqlite3Isdigit (dec_nat n)"
    using dec_nat_digits [of n]
    by (auto simp: list_all_iff ctype_bytes is_digit_def digit_byte_def)
  moreover show "dec_nat n \<noteq> []" by simp
  ultimately show "list_all sqlite3Isdigit (dec_nat n)" "sqlite3Isdigit (hd (dec_nat n))"
    by (auto simp: list_all_iff)
qed

lemma quoted_facts [simp]: "quoted s \<noteq> []" "hd (quoted s) = CHR 0x27"
  by (simp_all add: quoted_def)

definition quote_free :: "string \<Rightarrow> bool" where
  "quote_free s \<longleftrightarrow> CHR 0x27 \<notin> set s \<and> is_cstr s"

lemma not_space: "\<not> sqlite3Isspace c" if "sqlite3Isdigit c \<or> uchar c > 32"
  using that by (auto simp: ctype_bytes byte_class_defs)

lemma not_dash: "sqlite3Isdigit c \<Longrightarrow> c \<noteq> CHR ''-''" "sqlite3Isdigit c \<Longrightarrow> c \<noteq> CHR ''>''"
  by (auto simp: ctype_bytes byte_class_defs uchar_def)

lemma reads_pieces:
  "breaks c \<Longrightarrow> reads_as (dec_nat n) TK_INTEGER c"
  "breaks c \<Longrightarrow> reads_as ''0'' TK_INTEGER c"
  "quote_free s \<Longrightarrow> c \<noteq> CHR 0x27 \<Longrightarrow> reads_as (quoted s) TK_STRING c"
  "reads_as ''-'' TK_MINUS (hd (dec_nat n))" "reads_as ''-'' TK_MINUS CHR '' ''"
  "reads_as '' '' TK_SPACE (hd (dec_nat n))" "uchar c > 32 \<Longrightarrow> reads_as '' '' TK_SPACE c"
  "reads_as ''('' TK_LP c" "reads_as '')'' TK_RP c" "reads_as '';'' TK_SEMI c" "reads_as '','' TK_COMMA c"
  "reads_as ''+'' TK_PLUS c" "c \<noteq> CHR ''='' \<Longrightarrow> reads_as ''='' TK_EQ c"
proof -
  show "breaks c \<Longrightarrow> reads_as (dec_nat n) TK_INTEGER c"
    using reads_integer [OF dec_nat_text(1,2), of c n] by (simp add: breaks_def)
  show "breaks c \<Longrightarrow> reads_as ''0'' TK_INTEGER c"
    using reads_integer [of "''0''" c] by (simp add: breaks_def ctype_bytes byte_class_defs uchar_def)
  show "quote_free s \<Longrightarrow> c \<noteq> CHR 0x27 \<Longrightarrow> reads_as (quoted s) TK_STRING c"
    by (simp add: reads_string quote_free_def)
  show "reads_as ''-'' TK_MINUS (hd (dec_nat n))" "reads_as '' '' TK_SPACE (hd (dec_nat n))"
    using dec_nat_text(3) [of n] by (auto intro!: reads_minus reads_space simp: not_space dest: not_dash)
  show "reads_as ''-'' TK_MINUS CHR '' ''" by (rule reads_minus) simp_all
  show "uchar c > 32 \<Longrightarrow> reads_as '' '' TK_SPACE c" by (intro reads_space not_space) simp
  show "c \<noteq> CHR ''='' \<Longrightarrow> reads_as ''='' TK_EQ c" by (rule reads_eq)
qed (rule reads_punct; simp add: punct_def)+

lemmas reads_all = reads_words reads_pieces breaks_chars

lemma printable_statements:
  assumes "quote_free src" "quote_free dest" "quote_free ty" "quote_free status"
  shows "printable (audit_pieces src dest ty amount status)" "printable (account_pieces src)"
    "printable (update_pieces (TK_PLUS, ''+'') amount src)" "printable (update_pieces (TK_MINUS, ''-'') amount src)"
  by (cases "amount < 0", simp_all add: audit_pieces_def account_pieces_def update_pieces_def int_pieces_def
      word_codes reads_all assms uchar_def)

text \<open>A name that ends the string literal, completes the statement and adds another.\<close>

definition injected :: string where
  "injected = ''x'' @ [CHR 0x27] @ '','' @ quoted ''y'' @ '','' @ quoted ''z'' @ '',1,'' @ quoted ''ok'' @
     '');DROP/**/TABLE/**/accounts;--''"

definition injected_pieces :: "string \<Rightarrow> string \<Rightarrow> int \<Rightarrow> string \<Rightarrow> (int \<times> string) list" where
  "injected_pieces dest tx_type amount status =
    [kw ''INSERT'', sp, kw ''INTO'', sp, kw ''transactions'', sp, (TK_LP, ''(''), kw ''src'', (TK_COMMA, '',''), sp,
     kw ''dest'', (TK_COMMA, '',''), sp, kw ''type'', (TK_COMMA, '',''), sp, kw ''amount'', (TK_COMMA, '',''), sp,
     kw ''status'', (TK_RP, '')''), sp, kw ''VALUES'', sp, (TK_LP, ''(''), (TK_STRING, quoted ''x''), (TK_COMMA, '',''),
     (TK_STRING, quoted ''y''), (TK_COMMA, '',''), (TK_STRING, quoted ''z''), (TK_COMMA, '',''),
     (TK_INTEGER, ''1''), (TK_COMMA, '',''), (TK_STRING, quoted ''ok''), (TK_RP, '')''), (TK_SEMI, '';''),
     kw ''DROP'', (TK_SPACE, ''/**/''), kw ''TABLE'', (TK_SPACE, ''/**/''), kw ''accounts'', (TK_SEMI, '';''),
     (TK_SPACE, ''--'' @ [CHR 0x27] @ '', '' @ quoted dest @ '', '' @ quoted tx_type @ '', '' @ dec_int amount @ '', '' @
        quoted status @ '');'')]"

lemma spell_injected:
  "spell (injected_pieces dest ty amount status) = audit_sql injected dest ty amount status"
  by (simp add: injected_pieces_def audit_sql_def injected_def quoted_def)

definition one_line :: "string \<Rightarrow> bool" where
  "one_line s \<longleftrightarrow> list_all (\<lambda>c. c \<noteq> NUL \<and> c \<noteq> CHR 0x0A) s"

lemma one_line_simps [simp]:
  "one_line []" "one_line (c # s) \<longleftrightarrow> c \<noteq> NUL \<and> c \<noteq> CHR 0x0A \<and> one_line s"
  "one_line (s @ t) \<longleftrightarrow> one_line s \<and> one_line t" "one_line (quoted s) \<longleftrightarrow> one_line s"
  by (auto simp: one_line_def quoted_def)

lemma one_line_dec_int [simp]: "one_line (dec_int x)"
  using dec_int_chars [of NUL x] dec_int_chars [of "CHR 0x0A" x]
  by (auto simp: one_line_def list_all_iff is_digit_def uchar_def)

lemma printable_injected:
  assumes "one_line dest" "one_line ty" "one_line status"
  shows "printable (injected_pieces dest ty amount status)"
proof -
  have slash: "breaks CHR ''/''"
    by (simp add: breaks_def char_class_def at_byte_def uchar_def aiClass_def CC_KYWD_def IdChar_def ctype_bytes
        byte_class_defs)
  have comment: "reads_as (''--'' @ s) TK_SPACE NUL" if "one_line s" for s
    using reads_comment that by (simp add: one_line_def)
  have free: "quote_free ''x''" "quote_free ''y''" "quote_free ''z''" "quote_free ''ok''"
    by (simp_all add: quote_free_def)
  have one: "reads_as ''1'' TK_INTEGER CHR '',''"
    by (rule reads_integer) (simp_all add: IdChar_def ctype_bytes byte_class_defs uchar_def)
  note c = comment [of "[CHR 0x27] @ '', '' @ quoted dest @ '', '' @ quoted ty @ '', '' @ dec_int amount @ '', '' @
        quoted status @ '');''", simplified]
  show ?thesis
    by (simp add: injected_pieces_def word_codes reads_all free slash reads_empty_comment c one assms uchar_def)
qed

text \<open>What the parser gets from each statement.\<close>

definition audit_tokens :: "string \<Rightarrow> string \<Rightarrow> string \<Rightarrow> int \<Rightarrow> string \<Rightarrow> (int \<times> string) list" where
  "audit_tokens src dest ty amount status =
    [(TK_INSERT, ''INSERT''), (TK_INTO, ''INTO''), (TK_ID, ''transactions''), (TK_LP, ''(''), (TK_ID, ''src''),
     (TK_COMMA, '',''), (TK_ID, ''dest''), (TK_COMMA, '',''), (TK_ID, ''type''), (TK_COMMA, '',''),
     (TK_ID, ''amount''), (TK_COMMA, '',''), (TK_ID, ''status''), (TK_RP, '')''), (TK_VALUES, ''VALUES''),
     (TK_LP, ''(''), (TK_STRING, quoted src), (TK_COMMA, '',''), (TK_STRING, quoted dest), (TK_COMMA, '',''),
     (TK_STRING, quoted ty), (TK_COMMA, '','')] @ int_pieces amount @
    [(TK_COMMA, '',''), (TK_STRING, quoted status), (TK_RP, '')''), (TK_SEMI, '';''), (0, [])]"

definition account_tokens :: "string \<Rightarrow> (int \<times> string) list" where
  "account_tokens user =
    [(TK_INSERT, ''INSERT''), (TK_OR, ''OR''), (TK_IGNORE, ''IGNORE''), (TK_INTO, ''INTO''), (TK_ID, ''accounts''),
     (TK_LP, ''(''), (TK_ID, ''user''), (TK_COMMA, '',''), (TK_ID, ''balance''), (TK_RP, '')''),
     (TK_VALUES, ''VALUES''), (TK_LP, ''(''), (TK_STRING, quoted user), (TK_COMMA, '',''), (TK_INTEGER, ''0''),
     (TK_RP, '')''), (TK_SEMI, '';''), (0, [])]"

definition update_tokens :: "int \<times> string \<Rightarrow> int \<Rightarrow> string \<Rightarrow> (int \<times> string) list" where
  "update_tokens sign amount user =
    [(TK_UPDATE, ''UPDATE''), (TK_ID, ''accounts''), (TK_SET, ''SET''), (TK_ID, ''balance''), (TK_EQ, ''=''),
     (TK_ID, ''balance''), sign] @ int_pieces amount @
    [(TK_WHERE, ''WHERE''), (TK_ID, ''user''), (TK_EQ, ''=''), (TK_STRING, quoted user), (TK_SEMI, '';''), (0, [])]"

definition injected_tokens :: "(int \<times> string) list" where
  "injected_tokens =
    [(TK_INSERT, ''INSERT''), (TK_INTO, ''INTO''), (TK_ID, ''transactions''), (TK_LP, ''(''), (TK_ID, ''src''),
     (TK_COMMA, '',''), (TK_ID, ''dest''), (TK_COMMA, '',''), (TK_ID, ''type''), (TK_COMMA, '',''),
     (TK_ID, ''amount''), (TK_COMMA, '',''), (TK_ID, ''status''), (TK_RP, '')''), (TK_VALUES, ''VALUES''),
     (TK_LP, ''(''), (TK_STRING, quoted ''x''), (TK_COMMA, '',''), (TK_STRING, quoted ''y''), (TK_COMMA, '',''),
     (TK_STRING, quoted ''z''), (TK_COMMA, '',''), (TK_INTEGER, ''1''), (TK_COMMA, '',''),
     (TK_STRING, quoted ''ok''), (TK_RP, '')''), (TK_SEMI, '';''),
     (TK_DROP, ''DROP''), (TK_TABLE, ''TABLE''), (TK_ID, ''accounts''), (TK_SEMI, '';''), (0, [])]"

lemma sql_tokens_printed:
  assumes "printable ps" "length (spell ps) \<le> 1000000000"
  shows "sql_tokens (spell ps) =
    Inr (filter (\<lambda>(t, _). t \<noteq> TK_SPACE) ps @ closing (last_token (-1) ps), Done)"
proof -
  have "int (length (spell ps)) \<le> 1000000000" using assms(2) by simp
  from lexemes_printed [OF assms(1) this, of "[]" "-1"] show ?thesis
    by (auto simp: sql_tokens_def fed_def)
qed

text \<open>The statements as the parser gets them, without a quote in a name and with the name above.\<close>

lemma statement_tokens:
  assumes "quote_free src" "quote_free dest" "quote_free ty" "quote_free status" "int_ok amount"
    and "length src \<le> 1000" "length dest \<le> 1000" "length ty \<le> 1000" "length status \<le> 1000"
  shows "sql_tokens (audit_sql src dest ty amount status) = Inr (audit_tokens src dest ty amount status, Done) \<and>
    sql_tokens (account_sql src) = Inr (account_tokens src, Done) \<and>
    sql_tokens (credit_sql amount src) = Inr (update_tokens (TK_PLUS, ''+'') amount src, Done) \<and>
    sql_tokens (debit_sql amount src) = Inr (update_tokens (TK_MINUS, ''-'') amount src, Done)"
proof -
  note p = printable_statements [OF assms(1-4)]
  have d: "length (dec_int amount) \<le> 11" using dec_int_length [OF assms(5)] .
  have len: "length (spell (audit_pieces src dest ty amount status)) \<le> 1000000000"
    "length (spell (account_pieces src)) \<le> 1000000000"
    "length (spell (update_pieces (TK_PLUS, ''+'') amount src)) \<le> 1000000000"
    "length (spell (update_pieces (TK_MINUS, ''-'') amount src)) \<le> 1000000000"
    using assms(6-9) d by (simp_all add: spell_statements)
  note t = sql_tokens_printed [OF p(1) len(1)] sql_tokens_printed [OF p(2) len(2)]
    sql_tokens_printed [OF p(3) len(3)] sql_tokens_printed [OF p(4) len(4)]
  show ?thesis
    using t unfolding spell_statements
    by (simp add: audit_pieces_def account_pieces_def update_pieces_def audit_tokens_def account_tokens_def
        update_tokens_def int_pieces_def word_codes closing_def tk_vals)
qed

lemma injected_read:
  assumes "one_line dest" "one_line ty" "one_line status" "int_ok amount"
    and "length dest + length ty + length status \<le> 300"
  shows "sql_tokens (audit_sql injected dest ty amount status) = Inr (injected_tokens, Done) \<and>
    length (audit_sql injected dest ty amount status) < 512 \<and> is_cstr injected \<and> CHR '' '' \<notin> set injected"
proof -
  have d: "length (dec_int amount) \<le> 11" using dec_int_length [OF assms(4)] .
  have i: "length injected = 47" "is_cstr injected" "CHR '' '' \<notin> set injected"
    by (simp_all add: injected_def quoted_def)
  have "length (spell (injected_pieces dest ty amount status)) \<le> 1000000000"
    using assms(5) d i(1) by (simp add: spell_injected)
  note t = sql_tokens_printed [OF printable_injected [OF assms(1-3)] this]
  show ?thesis
    using t [unfolded spell_injected] i d assms(5)
    by (simp add: injected_pieces_def injected_tokens_def word_codes closing_def tk_vals)
qed

section \<open>Properties\<close>

text \<open>Tokens survive printing: when a list of tokens and white space is written out so that
  each piece is read alone in front of the next one, tokenizing the text gives back the tokens,
  in order and with their texts, followed by the semicolon the text may lack and the end
  marker.\<close>

theorem token_roundtrip:
  assumes "printable ps" "length (spell ps) \<le> 1000000000"
  shows "sql_tokens (spell ps) =
    Inr (filter (\<lambda>(t, _). t \<noteq> TK_SPACE) ps @ closing (last_token (-1) ps), Done)"
  using assms by (rule sql_tokens_printed)

theorem token_roundtrip_witness:
  "sql_tokens (spell [kw ''SET'', sp, (TK_LP, ''('')]) =
     Inr ([(TK_SET, ''SET''), (TK_LP, ''(''), (TK_SEMI, []), (0, [])], Done)"
proof -
  have "printable [kw ''SET'', sp, (TK_LP, ''('')]" by (simp add: word_codes reads_all uchar_def)
  from token_roundtrip [OF this] show ?thesis by (simp add: word_codes closing_def tk_vals)
qed

text \<open>C24. The statements the ledger builds have a fixed shape as long as no name holds a quote:
  the audit record, the account and the balance updates are each one statement, whose tokens are
  those of the format string with each name as one string literal and the amount as one
  literal with an optional sign.\<close>

theorem ledger_statements_fixed:
  assumes "quote_free src" "quote_free dest" "quote_free ty" "quote_free status" "int_ok amount"
    and "length src \<le> 1000" "length dest \<le> 1000" "length ty \<le> 1000" "length status \<le> 1000"
  shows "sql_tokens (audit_sql src dest ty amount status) = Inr (audit_tokens src dest ty amount status, Done) \<and>
    sql_tokens (account_sql src) = Inr (account_tokens src, Done) \<and>
    sql_tokens (credit_sql amount src) = Inr (update_tokens (TK_PLUS, ''+'') amount src, Done) \<and>
    sql_tokens (debit_sql amount src) = Inr (update_tokens (TK_MINUS, ''-'') amount src, Done)"
  using statement_tokens [OF assms] .

theorem ledger_statements_fixed_witness:
  "sql_tokens (debit_sql 100 ''Alice'') = Inr (
     [(TK_UPDATE, ''UPDATE''), (TK_ID, ''accounts''), (TK_SET, ''SET''), (TK_ID, ''balance''), (TK_EQ, ''=''),
      (TK_ID, ''balance''), (TK_MINUS, ''-''), (TK_INTEGER, dec_nat 100), (TK_WHERE, ''WHERE''), (TK_ID, ''user''),
      (TK_EQ, ''=''), (TK_STRING, quoted ''Alice''), (TK_SEMI, '';''), (0, [])], Done)"
proof -
  have "quote_free ''Alice''" "quote_free ''Bob''" "quote_free ''TRANSFER''" "quote_free ''APPROVED''" "int_ok 100"
    by (simp_all add: quote_free_def int_range_defs)
  from ledger_statements_fixed [OF this] show ?thesis by (simp add: update_tokens_def int_pieces_def)
qed

text \<open>C23. A quote in a name breaks the shape: a name without a blank, so one word of a request,
  makes the audit record of a transaction, which is written even when the token is refused,
  two statements, the second of which drops the table of accounts; whatever the other fields
  hold, the parser gets them as a comment.  The text fits the ledger's buffer.\<close>

theorem audit_injection:
  assumes "one_line dest" "one_line ty" "one_line status" "int_ok amount"
    and "length dest + length ty + length status \<le> 300"
  shows "sql_tokens (audit_sql injected dest ty amount status) = Inr (injected_tokens, Done) \<and>
    length (audit_sql injected dest ty amount status) < 512 \<and> is_cstr injected \<and> CHR '' '' \<notin> set injected"
  using injected_read [OF assms] .

theorem audit_injection_witness:
  "sql_tokens (audit_sql injected ''Bob'' ''TRANSFER'' 100 ''BLOCKED_INVALID_CAPABILITY'') = Inr (injected_tokens, Done)"
proof -
  have "one_line ''Bob''" "one_line ''TRANSFER''" "one_line ''BLOCKED_INVALID_CAPABILITY''" "int_ok 100"
    by (simp_all add: int_range_defs)
  from audit_injection [OF this] show ?thesis by simp
qed

end
