(* ===== verification/LedgerSchema.thy ===== *)
theory LedgerSchema
  imports LedgerSql
begin

text \<open>
  The texts of components/Ledger/src/ledger.c as statements on tables: what a statement writes,
  which columns it names and which columns a CREATE TABLE declares, read off the tokens SQLite
  feeds to its parser.  On an engine that checks the names of a statement against its schema,
  as SQLite documents it, the statements of the handler do not fit the schema of the
  initialisation.
\<close>

section \<open>The first statement of a script\<close>













section \<open>What a statement does to the tables\<close>

definition starts :: "int list \<Rightarrow> (int \<times> string) list \<Rightarrow> bool" where
  "starts ks ts \<longleftrightarrow> map fst (take (length ks) ts) = ks"

lemma starts_simps [simp]:
  "starts [] ts" "\<not> starts (k # ks) []" "starts (k # ks) ((t, w) # ts) \<longleftrightarrow> t = k \<and> starts ks ts"
  by (auto simp add: starts_def)

text \<open>The table an INSERT writes, with the tokens behind its name.\<close>

definition insert_target :: "(int \<times> string) list \<Rightarrow> (string \<times> (int \<times> string) list) option" where
  "insert_target ts =
     (if starts [TK_INSERT, TK_INTO, TK_ID] ts then Some (snd (ts ! 2), drop 3 ts)
      else if starts [TK_INSERT, TK_OR, TK_IGNORE, TK_INTO, TK_ID] ts then Some (snd (ts ! 4), drop 5 ts)
      else None)"

datatype effect = Reads | Writes string | Unknown

definition effect_of :: "(int \<times> string) list \<Rightarrow> effect" where
  "effect_of ts =
     (if starts [TK_SELECT] ts then Reads
      else case insert_target ts of
        Some (t, _) \<Rightarrow> Writes t
      | None \<Rightarrow>
          if starts [TK_UPDATE, TK_ID] ts then Writes (snd (ts ! 1))
          else if starts [TK_DROP, TK_TABLE, TK_ID] ts then Writes (snd (ts ! 2))
          else Unknown)"

text \<open>The statements of a list of tokens, without the empty ones.\<close>

function statements :: "(int \<times> string) list \<Rightarrow> (int \<times> string) list list" where
  "statements ts =
     (let s = takeWhile (\<lambda>(t, _). t \<noteq> TK_SEMI \<and> t \<noteq> 0) ts
      in (if s = [] then [] else [s]) @
         (case dropWhile (\<lambda>(t, _). t \<noteq> TK_SEMI \<and> t \<noteq> 0) ts of [] \<Rightarrow> [] | _ # r \<Rightarrow> statements r))"
  by pat_completeness auto
termination
proof (relation "measure length", goal_cases)
  case (2 ts s x r)
  then show ?case using length_dropWhile_le [of "\<lambda>(t, _). t \<noteq> TK_SEMI \<and> t \<noteq> 0" ts] by simp
qed simp

declare statements.simps [simp del]

lemma statements_Nil [simp]: "statements [] = []"
  by (subst statements.simps) simp

text \<open>The effects of a script, when all of it can be read.\<close>

definition script_effects :: "string \<Rightarrow> effect list option" where
  "script_effects z =
     (case sql_tokens z of Inr (ts, Done) \<Rightarrow> Some (map effect_of (statements ts)) | _ \<Rightarrow> None)"












section \<open>An engine with a schema\<close>


section \<open>The texts of the ledger\<close>

lemma schema_lookups:
  "map_of keyword_list ''CREATE'' = Some TK_CREATE"
  "map_of keyword_list ''IF'' = Some TK_IF"
  "map_of keyword_list ''NOT'' = Some TK_NOT"
  "map_of keyword_list ''EXISTS'' = Some TK_EXISTS"
  "map_of keyword_list ''PRIMARY'' = Some TK_PRIMARY"
  "map_of keyword_list ''KEY'' = Some TK_KEY"
  "map_of keyword_list ''AUTOINCREMENT'' = Some TK_AUTOINCR"
  "map_of keyword_list ''SELECT'' = Some TK_SELECT"
  "map_of keyword_list ''FROM'' = Some TK_FROM"
  "map_of keyword_list ''ORDER'' = Some TK_ORDER"
  "map_of keyword_list ''BY'' = Some TK_BY"
  "map_of keyword_list ''DESC'' = Some TK_DESC"
  "map_of keyword_list ''LIMIT'' = Some TK_LIMIT"
  "map_of keyword_list ''USERNAME'' = None"
  "map_of keyword_list ''TEXT'' = None"
  "map_of keyword_list ''INTEGER'' = None"
  "map_of keyword_list ''ID'' = None"
  by (code_simp+)

lemma schema_codes:
  "word_code ''CREATE'' = TK_CREATE"
  "word_code ''IF'' = TK_IF"
  "word_code ''NOT'' = TK_NOT"
  "word_code ''EXISTS'' = TK_EXISTS"
  "word_code ''PRIMARY'' = TK_PRIMARY"
  "word_code ''KEY'' = TK_KEY"
  "word_code ''AUTOINCREMENT'' = TK_AUTOINCR"
  "word_code ''SELECT'' = TK_SELECT"
  "word_code ''FROM'' = TK_FROM"
  "word_code ''ORDER'' = TK_ORDER"
  "word_code ''BY'' = TK_BY"
  "word_code ''DESC'' = TK_DESC"
  "word_code ''LIMIT'' = TK_LIMIT"
  "word_code ''username'' = TK_ID"
  "word_code ''TEXT'' = TK_ID"
  "word_code ''INTEGER'' = TK_ID"
  "word_code ''id'' = TK_ID"
  by (simp_all add: word_code_upper upper_word_def kw_char_def uchar_def char_of_def bit_0 schema_lookups)

lemma schema_idents:
  "ident ''CREATE''"
  "ident ''IF''"
  "ident ''NOT''"
  "ident ''EXISTS''"
  "ident ''PRIMARY''"
  "ident ''KEY''"
  "ident ''AUTOINCREMENT''"
  "ident ''SELECT''"
  "ident ''FROM''"
  "ident ''ORDER''"
  "ident ''BY''"
  "ident ''DESC''"
  "ident ''LIMIT''"
  "ident ''username''"
  "ident ''TEXT''"
  "ident ''INTEGER''"
  "ident ''id''"
  by (simp_all add: ident_def char_class_def at_byte_def uchar_def aiClass_def CC_KYWD_def CC_KYWD0_def)

lemma reads_schema:
  assumes "breaks c"
  shows "reads_as ''CREATE'' TK_CREATE c"
    "reads_as ''IF'' TK_IF c"
    "reads_as ''NOT'' TK_NOT c"
    "reads_as ''EXISTS'' TK_EXISTS c"
    "reads_as ''PRIMARY'' TK_PRIMARY c"
    "reads_as ''KEY'' TK_KEY c"
    "reads_as ''AUTOINCREMENT'' TK_AUTOINCR c"
    "reads_as ''SELECT'' TK_SELECT c"
    "reads_as ''FROM'' TK_FROM c"
    "reads_as ''ORDER'' TK_ORDER c"
    "reads_as ''BY'' TK_BY c"
    "reads_as ''DESC'' TK_DESC c"
    "reads_as ''LIMIT'' TK_LIMIT c"
    "reads_as ''username'' TK_ID c"
    "reads_as ''TEXT'' TK_ID c"
    "reads_as ''INTEGER'' TK_ID c"
    "reads_as ''id'' TK_ID c"
  by (rule reads_kw [OF _ _ _ assms], simp add: schema_idents, simp add: schema_codes, simp add: tk_vals)+












section \<open>The handler on the schema\<close>













section \<open>Reading the queries\<close>

lemma query_effects:
  "script_effects last_record_sql = Some [Reads]" "script_effects accounts_dump_sql = Some [Reads]"
proof -
  let ?c = "(TK_COMMA, '','')" and ?s = "(TK_SEMI, '';'')"
  let ?l = "[kw ''SELECT'', sp, kw ''id'', ?c, sp, kw ''type'', ?c, sp, kw ''src'', ?c, sp, kw ''dest'', ?c, sp,
     kw ''amount'', ?c, sp, kw ''status'', sp, kw ''FROM'', sp, kw ''transactions'', sp, kw ''ORDER'', sp, kw ''BY'', sp,
     kw ''id'', sp, kw ''DESC'', sp, kw ''LIMIT'', sp, (TK_INTEGER, ''1''), ?s]"
  let ?a = "[kw ''SELECT'', sp, kw ''user'', ?c, sp, kw ''balance'', sp, kw ''FROM'', sp, kw ''accounts'', ?s]"
  have one: "reads_as ''1'' TK_INTEGER CHR '';''"
    by (rule reads_integer) (simp_all add: IdChar_def ctype_bytes byte_class_defs uchar_def)
  have p: "printable ?l" "printable ?a"
    by (simp_all add: word_codes schema_codes reads_all reads_schema one uchar_def)
  have z: "last_record_sql = spell ?l" "accounts_dump_sql = spell ?a"
    by (simp_all add: last_record_sql_def accounts_dump_sql_def)
  show "script_effects last_record_sql = Some [Reads]"
    using sql_tokens_printed [OF p(1)] unfolding z(1)
    by (simp add: script_effects_def word_codes schema_codes closing_def tk_vals statements.simps effect_of_def)
  show "script_effects accounts_dump_sql = Some [Reads]"
    using sql_tokens_printed [OF p(2)] unfolding z(2)
    by (simp add: script_effects_def word_codes schema_codes closing_def tk_vals statements.simps effect_of_def)
qed

lemma audit_effects:
  assumes "quote_free src" "quote_free dest" "quote_free ty" "quote_free status" "int_ok amount"
    and "length src \<le> 1000" "length dest \<le> 1000" "length ty \<le> 1000" "length status \<le> 1000"
  shows "script_effects (audit_sql src dest ty amount status) = Some [Writes ''transactions'']"
  using statement_tokens [OF assms]
  by (simp add: script_effects_def audit_tokens_def int_pieces_def tk_vals statements.simps effect_of_def insert_target_def)

lemma injected_effects:
  assumes "one_line dest" "one_line ty" "one_line status" "int_ok amount"
    and "length dest + length ty + length status \<le> 300"
  shows "script_effects (audit_sql injected dest ty amount status) = Some [Writes ''transactions'', Writes ''accounts'']"
  using injected_read [OF assms]
  by (simp add: script_effects_def injected_tokens_def tk_vals statements.simps effect_of_def insert_target_def)

section \<open>A small engine with a schema\<close>





section \<open>Properties\<close>

text \<open>C3. A transaction whose token is below 1000 is refused.  Whatever the names, the handler gives
  SQLite three texts, the audit record with the status of a blocked action and the two queries
  that print the tables; it prints the alert and the rows, and it returns -1 whatever the codes of
  the three scripts are.  As long as no name holds a quote the three texts are three statements,
  one that writes the table of transactions and two that only read; a quote in a name can make
  the first text write the accounts as well.\<close>

theorem bank_blocks_low_tokens:
  assumes "engine_ok core" "db L = Some d" "tok < 1000" "length junk = 512"
    and "is_cstr src" "is_cstr dest" "is_cstr tx_type"
    and "length src + length dest + length tx_type + length (dec_int amount) < 401"
    and "db_exec core d (audit_sql src dest tx_type amount ''BLOCKED_INVALID_CAPABILITY'') rows1 d1 rc1"
    and "db_exec core d1 last_record_sql rows2 d2 rc2" "db_exec core d2 accounts_dump_sql rows3 d3 rc3"
  shows "bank_execute_transaction core junk L tok src dest tx_type amount =
      Inr (\<lparr>db = Some d3, console = console L @ alert_text @ dump_text rows2 rows3\<rparr>, -1) \<and>
    (quote_free src \<and> quote_free dest \<and> quote_free tx_type \<and> int_ok amount \<longrightarrow>
      script_effects (audit_sql src dest tx_type amount ''BLOCKED_INVALID_CAPABILITY'') = Some [Writes ''transactions'']) \<and>
    script_effects last_record_sql = Some [Reads] \<and> script_effects accounts_dump_sql = Some [Reads] \<and>
    (src = injected \<and> one_line dest \<and> one_line tx_type \<and> int_ok amount \<and> length dest + length tx_type \<le> 270 \<longrightarrow>
      script_effects (audit_sql src dest tx_type amount ''BLOCKED_INVALID_CAPABILITY'') =
        Some [Writes ''transactions'', Writes ''accounts''])"
proof -
  have q: "script_effects (audit_sql src dest tx_type amount ''BLOCKED_INVALID_CAPABILITY'') = Some [Writes ''transactions'']"
    if "quote_free src" "quote_free dest" "quote_free tx_type" "int_ok amount"
    using that assms(8) by (intro audit_effects) (simp_all add: quote_free_def)
  have i: "script_effects (audit_sql injected dest tx_type amount ''BLOCKED_INVALID_CAPABILITY'') =
      Some [Writes ''transactions'', Writes ''accounts'']"
    if "one_line dest" "one_line tx_type" "int_ok amount" "length dest + length tx_type \<le> 270"
    using that by (intro injected_effects) simp_all
  show ?thesis using blocked_run [OF assms] q i query_effects by blast
qed

theorem bank_blocks_low_tokens_witness:
  "bank_execute_transaction (log_core (\<lambda>_. False) (\<lambda>_. False)) (replicate 512 NUL)
     \<lparr>db = Some [], console = []\<rparr> 7 ''Alice'' ''Bob'' ''TRANSFER'' 100 =
   Inr (\<lparr>db = Some (fst (log_split (\<lambda>_. False)
            (audit_sql ''Alice'' ''Bob'' ''TRANSFER'' 100 ''BLOCKED_INVALID_CAPABILITY'')) @
          fst (log_split (\<lambda>_. False) last_record_sql) @ fst (log_split (\<lambda>_. False) accounts_dump_sql)),
         console = alert_text @ dump_text [] []\<rparr>, -1) \<and>
   script_effects (audit_sql ''Alice'' ''Bob'' ''TRANSFER'' 100 ''BLOCKED_INVALID_CAPABILITY'') = Some [Writes ''transactions'']"
  using bank_blocks_low_tokens [OF log_engine_ok _ _ _ _ _ _ _ log_db_exec log_db_exec log_db_exec,
      of "\<lparr>db = Some [], console = []\<rparr>" "[]" 7 "replicate 512 NUL" "''Alice''" "''Bob''" "''TRANSFER''" 100]
    dec_int_length [of 100]
  by (simp add: int_range_defs quote_free_def)



end
