(* ===== verification/SqliteRecord.thy ===== *)
theory SqliteRecord
  imports SqliteVarint
begin

unbundle bit_operations_syntax

text \<open>
  Records, the form in which SQLite stores the rows of a table and the keys of an index: a header
  of varints, its own size and one serial type per column, and the values behind it
  (\<open>OP_MakeRecord\<close> of vdbe.c, the serial types and \<open>sqlite3VdbeRecordUnpack\<close> of
  vdbeaux.c, inside components/Ledger/src/sqlite3.c).  Writing and reading are modelled on byte
  buffers; a store or an integer load outside its buffer is a fault.  The conversion of an integer
  to a double is an argument, a double is its 64 bits.
\<close>

section \<open>Values\<close>

text \<open>The values a \<open>Mem\<close> holds, by its flags: \<open>MEM_Null\<close> with or without \<open>MEM_Zero\<close>, \<open>MEM_Int\<close>,
  \<open>MEM_IntReal\<close>, \<open>MEM_Real\<close>, \<open>MEM_Str\<close>, and \<open>MEM_Blob\<close>, with \<open>MEM_Zero\<close> when zero bytes follow that
  are only counted.\<close>

datatype mem_cell =
    MNull bool
  | MInt int
  | MIntReal int
  | MReal u64
  | MStr "u8 list"
  | MBlob "u8 list" nat

definition EXP754 :: u64 where "EXP754 = push_bit 52 0x7ff"
definition MAN754 :: u64 where "MAN754 = push_bit 52 1 - 1"
definition IsNaN :: "u64 \<Rightarrow> bool" where
  "IsNaN x \<longleftrightarrow> x AND EXP754 = EXP754 \<and> x AND MAN754 \<noteq> 0"

section \<open>Serial types\<close>

definition sqlite3SmallTypeSizes :: "nat list" where
  "sqlite3SmallTypeSizes =
    [ 0,  1,  2,  3,  4,  6,  8,  8,  0,  0,
      0,  0,  0,  0,  1,  1,  2,  2,  3,  3,
      4,  4,  5,  5,  6,  6,  7,  7,  8,  8,
      9,  9, 10, 10, 11, 11, 12, 12, 13, 13,
     14, 14, 15, 15, 16, 16, 17, 17, 18, 18,
     19, 19, 20, 20, 21, 21, 22, 22, 23, 23,
     24, 24, 25, 25, 26, 26, 27, 27, 28, 28,
     29, 29, 30, 30, 31, 31, 32, 32, 33, 33,
     34, 34, 35, 35, 36, 36, 37, 37, 38, 38,
     39, 39, 40, 40, 41, 41, 42, 42, 43, 43,
     44, 44, 45, 45, 46, 46, 47, 47, 48, 48,
     49, 49, 50, 50, 51, 51, 52, 52, 53, 53,
     54, 54, 55, 55, 56, 56, 57, 57]"

definition sqlite3VdbeSerialTypeLen :: "u32 \<Rightarrow> nat" where
  "sqlite3VdbeSerialTypeLen t =
     (if t \<ge> 128 then unat ((t - 12) div 2) else sqlite3SmallTypeSizes ! unat t)"

definition sqlite3VdbeOneByteSerialTypeLen :: "u8 \<Rightarrow> nat res" where
  "sqlite3VdbeOneByteSerialTypeLen t = nth_res sqlite3SmallTypeSizes (unat t)"

section \<open>Writing\<close>

text \<open>The first loop of \<open>OP_MakeRecord\<close>, from the last value to the first: the serial type of each
  value and the sizes of header, data and the zero bytes at the end.  \<open>dbl\<close> converts an integer to
  a double, \<open>mem\<close> tells whether the allocator grants a number of bytes, \<open>ff\<close> is
  \<open>minWriteFileFormat\<close>.\<close>

type_synonym sizes = "nat \<times> nat \<times> nat"

definition int_magnitude :: "int \<Rightarrow> int" where
  "int_magnitude i = (if i < 0 then NOT i else i)"

definition size_int :: "(int \<Rightarrow> u64) \<Rightarrow> nat \<Rightarrow> bool \<Rightarrow> int \<Rightarrow> sizes \<Rightarrow> (mem_cell \<times> u32) \<times> sizes" where
  "size_int dbl ff intReal i = (\<lambda>(nHdr, nData, nZero).
     let uu = int_magnitude i; nHdr = nHdr + 1; c = (if intReal then MIntReal i else MInt i) in
     if uu \<le> 127 then
       (if i AND 1 = i \<and> ff \<ge> 4 then ((c, 8 + word_of_int uu), nHdr, nData, nZero)
        else ((c, 1), nHdr, nData + 1, nZero))
     else if uu \<le> 32767 then ((c, 2), nHdr, nData + 2, nZero)
     else if uu \<le> 8388607 then ((c, 3), nHdr, nData + 3, nZero)
     else if uu \<le> 2147483647 then ((c, 4), nHdr, nData + 4, nZero)
     else if uu \<le> 140737488355327 then ((c, 5), nHdr, nData + 6, nZero)
     else ((if intReal then (MReal (dbl i), 7) else (c, 6)), nHdr, nData + 8, nZero))"

definition size_step ::
  "(int \<Rightarrow> u64) \<Rightarrow> (nat \<Rightarrow> bool) \<Rightarrow> nat \<Rightarrow> mem_cell \<Rightarrow> sizes \<Rightarrow> ((mem_cell \<times> u32) \<times> sizes) option" where
  "size_step dbl mem ff c = (\<lambda>(nHdr, nData, nZero).
     case c of
       MNull noChange \<Rightarrow> Some ((c, if noChange then 10 else 0), nHdr + 1, nData, nZero)
     | MInt i \<Rightarrow> Some (size_int dbl ff False i (nHdr, nData, nZero))
     | MIntReal i \<Rightarrow> Some (size_int dbl ff True i (nHdr, nData, nZero))
     | MReal r \<Rightarrow> Some ((c, 7), nHdr + 1, nData + 8, nZero)
     | MStr z \<Rightarrow>
         (let t = of_nat (length z) * 2 + 12 + 1 :: u32
          in Some ((c, t), nHdr + sqlite3VarintLen (ucast t), nData + length z, nZero))
     | MBlob z n \<Rightarrow>
         (let t = of_nat (length z) * 2 + 12 + of_nat n * 2 :: u32; nHdr' = nHdr + sqlite3VarintLen (ucast t) in
          if n \<noteq> 0 \<and> nData \<noteq> 0
          then (if mem (length z + n)
                then Some ((MBlob (z @ replicate n 0) 0, t), nHdr', nData + (length z + n), nZero)
                else None)
          else Some ((c, t), nHdr', nData + length z, nZero + n)))"

fun size_pass ::
  "(int \<Rightarrow> u64) \<Rightarrow> (nat \<Rightarrow> bool) \<Rightarrow> nat \<Rightarrow> mem_cell list \<Rightarrow> ((mem_cell \<times> u32) list \<times> sizes) option" where
  "size_pass dbl mem ff [] = Some ([], 0, 0, 0)"
| "size_pass dbl mem ff (c # cs) =
     (case size_pass dbl mem ff cs of
        None \<Rightarrow> None
      | Some (ts, s) \<Rightarrow> (case size_step dbl mem ff c s of
            None \<Rightarrow> None
          | Some (ct, s) \<Rightarrow> Some (ct # ts, s)))"

definition header_size :: "nat \<Rightarrow> nat" where
  "header_size nHdr =
     (if nHdr \<le> 126 then nHdr + 1
      else let nVarint = sqlite3VarintLen (of_nat nHdr); n = nHdr + nVarint
           in if nVarint < sqlite3VarintLen (of_nat n) then n + 1 else n)"

text \<open>A store through a pointer into the buffer.\<close>

definition put_bytes :: "u8 list \<Rightarrow> nat \<Rightarrow> u8 list \<Rightarrow> u8 list res" where
  "put_bytes buf p bs =
     (if p + length bs \<le> length buf then Inr (take p buf @ bs @ drop (p + length bs) buf)
      else Inl BufferOverflow)"

definition put_varint_at :: "u8 list \<Rightarrow> nat \<Rightarrow> u64 \<Rightarrow> (u8 list \<times> nat) res" where
  "put_varint_at buf p v =
     bind_res (sqlite3PutVarint (drop p buf) v) (\<lambda>(rest, n). Inr (take p buf @ rest, n))"

text \<open>The switch that falls through stores the low bytes of \<open>v\<close>, the last one last.\<close>

definition int_bytes :: "nat \<Rightarrow> u64 \<Rightarrow> u8 list" where
  "int_bytes len v = map (\<lambda>k. ucast (drop_bit (8 * (len - 1 - k)) v)) [0..<len]"

fun write_fields :: "u8 list \<Rightarrow> nat \<Rightarrow> nat \<Rightarrow> (mem_cell \<times> u32) list \<Rightarrow> u8 list res" where
  "write_fields buf zHdr zPayload [] = Inr buf"
| "write_fields buf zHdr zPayload ((c, t) # ts) =
     (if t \<le> 7 then
        bind_res (put_bytes buf zHdr [ucast t]) (\<lambda>buf.
        if t = 0 then write_fields buf (zHdr + 1) zPayload ts
        else let v = (case c of MReal r \<Rightarrow> r | MInt i \<Rightarrow> word_of_int i | MIntReal i \<Rightarrow> word_of_int i | _ \<Rightarrow> 0);
                 len = sqlite3SmallTypeSizes ! unat t
             in bind_res (put_bytes buf zPayload (int_bytes len v)) (\<lambda>buf.
                write_fields buf (zHdr + 1) (zPayload + len) ts))
      else
        let z = (case c of MStr z \<Rightarrow> z | MBlob z n \<Rightarrow> z | _ \<Rightarrow> []) in
        if t < 0x80 then
          bind_res (put_bytes buf zHdr [ucast t]) (\<lambda>buf.
          if t \<ge> 14 \<and> length z > 0
          then bind_res (put_bytes buf zPayload z) (\<lambda>buf. write_fields buf (zHdr + 1) (zPayload + length z) ts)
          else write_fields buf (zHdr + 1) zPayload ts)
        else
          bind_res (put_varint_at buf zHdr (ucast t)) (\<lambda>(buf, n).
          if length z \<noteq> 0
          then bind_res (put_bytes buf zPayload z) (\<lambda>buf. write_fields buf (zHdr + n) (zPayload + length z) ts)
          else write_fields buf (zHdr + n) zPayload ts))"

datatype make_result = Made "u8 list" nat | TooBig | NoMem

text \<open>\<open>szMalloc\<close> is the size of the buffer the output register already owns, \<open>limit\<close> the limit on the
  length of a value, and \<open>fill\<close> what a new buffer holds.\<close>

definition op_make_record ::
  "(int \<Rightarrow> u64) \<Rightarrow> (nat \<Rightarrow> bool) \<Rightarrow> nat \<Rightarrow> nat \<Rightarrow> nat \<Rightarrow> (nat \<Rightarrow> u8 list) \<Rightarrow> mem_cell list \<Rightarrow> make_result res" where
  "op_make_record dbl mem ff szMalloc limit fill cs =
     (case size_pass dbl mem ff cs of
        None \<Rightarrow> Inr NoMem
      | Some (ts, nHdr, nData, nZero) \<Rightarrow>
          let nHdr = header_size nHdr; nByte = nHdr + nData in
          if \<not> nByte + nZero \<le> szMalloc \<and> nByte + nZero > limit then Inr TooBig
          else if \<not> nByte + nZero \<le> szMalloc \<and> \<not> mem nByte then Inr NoMem
          else
            let buf = take nByte (fill nByte @ replicate nByte 0) in
            bind_res (if nHdr < 0x80
                      then bind_res (put_bytes buf 0 [of_nat nHdr]) (\<lambda>buf. Inr (buf, 1))
                      else put_varint_at buf 0 (of_nat nHdr)) (\<lambda>(buf, zHdr).
            bind_res (write_fields buf zHdr nHdr ts) (\<lambda>buf. Inr (Made buf nZero))))"

section \<open>Reading\<close>

definition getVarint32 :: "u8 list \<Rightarrow> (u32 \<times> nat) res" where
  "getVarint32 p =
     bind_res (nth_res p 0) (\<lambda>b. if b < 0x80 then Inr (ucast b, 1) else sqlite3GetVarint32 p)"

definition ONE_BYTE_INT :: "u8 list \<Rightarrow> int res" where
  "ONE_BYTE_INT x = bind_res (nth_res x 0) (\<lambda>a. Inr (sint a))"

definition TWO_BYTE_INT :: "u8 list \<Rightarrow> int res" where
  "TWO_BYTE_INT x = bind_res (nth_res x 0) (\<lambda>a. bind_res (nth_res x 1) (\<lambda>b. Inr (256 * sint a OR uint b)))"

definition THREE_BYTE_INT :: "u8 list \<Rightarrow> int res" where
  "THREE_BYTE_INT x =
     bind_res (nth_res x 0) (\<lambda>a. bind_res (nth_res x 1) (\<lambda>b. bind_res (nth_res x 2) (\<lambda>c.
     Inr (65536 * sint a OR push_bit 8 (uint b) OR uint c))))"

definition FOUR_BYTE_UINT :: "u8 list \<Rightarrow> u32 res" where
  "FOUR_BYTE_UINT x =
     bind_res (nth_res x 0) (\<lambda>a. bind_res (nth_res x 1) (\<lambda>b. bind_res (nth_res x 2) (\<lambda>c.
     bind_res (nth_res x 3) (\<lambda>d.
     Inr (push_bit 24 (ucast a) OR push_bit 16 (ucast b) OR push_bit 8 (ucast c) OR ucast d)))))"

definition FOUR_BYTE_INT :: "u8 list \<Rightarrow> int res" where
  "FOUR_BYTE_INT x =
     bind_res (nth_res x 0) (\<lambda>a. bind_res (nth_res x 1) (\<lambda>b. bind_res (nth_res x 2) (\<lambda>c.
     bind_res (nth_res x 3) (\<lambda>d.
     Inr (16777216 * sint a OR push_bit 16 (uint b) OR push_bit 8 (uint c) OR uint d)))))"

definition serialGet :: "u8 list \<Rightarrow> u32 \<Rightarrow> mem_cell res" where
  "serialGet buf t =
     bind_res (FOUR_BYTE_UINT buf) (\<lambda>hi. bind_res (FOUR_BYTE_UINT (drop 4 buf)) (\<lambda>lo.
     let x = push_bit 32 (ucast hi) + ucast lo :: u64
     in Inr (if t = 6 then MInt (sint x) else if IsNaN x then MNull False else MReal x)))"

text \<open>A text or blob is a pointer into the buffer and a length; the model takes the bytes there are.\<close>

definition sqlite3VdbeSerialGet :: "u8 list \<Rightarrow> u32 \<Rightarrow> mem_cell res" where
  "sqlite3VdbeSerialGet buf t =
     (if t = 10 then Inr (MNull True)
      else if t = 11 \<or> t = 0 then Inr (MNull False)
      else if t = 1 then bind_res (ONE_BYTE_INT buf) (\<lambda>i. Inr (MInt i))
      else if t = 2 then bind_res (TWO_BYTE_INT buf) (\<lambda>i. Inr (MInt i))
      else if t = 3 then bind_res (THREE_BYTE_INT buf) (\<lambda>i. Inr (MInt i))
      else if t = 4 then bind_res (FOUR_BYTE_INT buf) (\<lambda>i. Inr (MInt i))
      else if t = 5 then
        bind_res (FOUR_BYTE_UINT (drop 2 buf)) (\<lambda>lo. bind_res (TWO_BYTE_INT buf) (\<lambda>hi.
        Inr (MInt (uint lo + 2 ^ 32 * hi))))
      else if t = 6 \<or> t = 7 then serialGet buf t
      else if t = 8 \<or> t = 9 then Inr (MInt (uint (t - 8)))
      else let z = take (unat ((t - 12) div 2)) buf
           in Inr (if t AND 1 = 0 then MBlob z 0 else MStr z))"

text \<open>The fields read so far come last first, as the loop leaves \<open>pMem\<close> behind the last one.\<close>

fun unpack_loop :: "nat \<Rightarrow> u8 list \<Rightarrow> nat \<Rightarrow> nat \<Rightarrow> nat \<Rightarrow> nat \<Rightarrow> mem_cell list \<Rightarrow> (mem_cell list \<times> nat) res" where
  "unpack_loop 0 aKey nKey szHdr idx d ms = Inr (ms, d)"
| "unpack_loop (Suc left) aKey nKey szHdr idx d ms =
     (if idx < szHdr \<and> d \<le> nKey then
        bind_res (getVarint32 (drop idx aKey)) (\<lambda>(t, n).
        bind_res (sqlite3VdbeSerialGet (drop d aKey) t) (\<lambda>m.
        unpack_loop left aKey nKey szHdr (idx + n) (d + sqlite3VdbeSerialTypeLen t) (m # ms)))
      else Inr (ms, d))"

text \<open>\<open>nField\<close> bounds the number of fields; the loop tests it behind the first.\<close>

definition sqlite3VdbeRecordUnpack :: "nat \<Rightarrow> nat \<Rightarrow> u8 list \<Rightarrow> mem_cell list res" where
  "sqlite3VdbeRecordUnpack nField nKey aKey =
     bind_res (getVarint32 aKey) (\<lambda>(szHdr, idx).
     bind_res (unpack_loop (max 1 nField) aKey nKey (unat szHdr) idx (unat szHdr) []) (\<lambda>(ms, d).
     Inr (rev (if d > nKey \<and> ms \<noteq> [] then MNull False # tl ms else ms))))"


section \<open>Variable-length integers of 32 bits\<close>

lemma varint_len_le: "sqlite3VarintLen v \<le> Suc n \<longleftrightarrow> unat v < 2 ^ (7 * Suc n)"
proof
  assume le: "sqlite3VarintLen v \<le> Suc n"
  have "drop_bit (7 * Suc n - 7 * sqlite3VarintLen v) (drop_bit (7 * sqlite3VarintLen v) v) = 0"
    by (simp only: varint_len_enough drop_bit_of_0)
  with le show "unat v < 2 ^ (7 * Suc n)" by (simp only: drop_bit_drop_bit drop_bit_0_iff) simp
qed (simp only: drop_bit_0_iff [symmetric] varint_len_least)

lemma varint_size_32: "unat v < 2 ^ 32 \<Longrightarrow> sqlite3VarintLen v = varint_size v"
  by (rule varint_len_top_bit) simp

lemma varint_bytes_1: "unat v < 128 \<Longrightarrow> varint_bytes v = [ucast v]"
proof -
  assume "unat v < 128"
  then have small: "drop_bit 7 v = 0" by (simp add: drop_bit_0_iff)
  then have "varint_size v = 1" by (simp add: varint_size_def varint_len_rec [of v])
  moreover have "v AND 0x7f = v"
    using small take_bit_eq_self_iff_drop_bit_eq_0 [of 7 v]
    by (simp add: take_bit_eq_mask mask_eq_exp_minus_1)
  ultimately show ?thesis by (simp add: varint_bytes_def end_byte_def)
qed

lemma varint_bytes_high:
  assumes "128 \<le> unat v" shows "bit ((varint_bytes v @ bs) ! 0) 7"
proof -
  have "drop_bit 7 v \<noteq> 0" using assms by (simp add: drop_bit_0_iff)
  then have "varint_size v \<noteq> 1"
    using varint_len_pos [of "drop_bit 7 v"] by (simp add: varint_size_def varint_len_rec [of v] min_def)
  then have "varint_size v = Suc (Suc (varint_size v - 2))"
    using varint_size_bounds(1) [of v] by simp
  then obtain k where k: "varint_size v = Suc (Suc k)" by blast
  show ?thesis
    using high_groups_first [of "Suc k" "drop_bit 7 v"] high_groups_first [of 8 "drop_bit 8 v"] k
    by (simp add: varint_bytes_def nth_append del: high_groups.simps)
qed

lemma u8_high_bit: "b < 0x80 \<longleftrightarrow> \<not> bit b 7" for b :: u8
proof -
  have "b < 0x80 \<longleftrightarrow> drop_bit 7 b = 0"
  proof -
    have "drop_bit 7 b = 0 \<longleftrightarrow> unat b div 2 ^ 7 = 0"
      by (metis drop_bit_eq_div unat_0 unat_drop_bit_eq unat_eq_zero)
    then show ?thesis by (simp add: div_eq_0_iff word_less_nat_alt)
  qed
  also have "drop_bit 7 b = 0 \<longleftrightarrow> \<not> bit b 7"
  proof
    assume "drop_bit 7 b = 0"
    then have "\<not> bit (drop_bit 7 b) 0" by simp
    then show "\<not> bit b 7" by (simp add: bit_drop_bit_eq)
  next
    assume "\<not> bit b 7"
    then show "drop_bit 7 b = 0"
      by (intro bit_word_eqI, unfold bit_drop_bit_eq comp_apply) (case_tac n; simp)
  qed
  finally show ?thesis .
qed

lemma u64_no_bit: "unat v < 2 ^ n \<Longrightarrow> n \<le> k \<Longrightarrow> \<not> bit v k" for v :: u64
proof -
  assume "unat v < 2 ^ n" "n \<le> k"
  then have "\<not> bit (drop_bit n v) (k - n)" by (simp flip: drop_bit_0_iff)
  then show ?thesis using \<open>n \<le> k\<close> by (simp add: bit_drop_bit_eq)
qed

lemma ucast_byte_32: "unat v < 256 \<Longrightarrow> ucast (ucast v :: u8) = (ucast v :: u32)" for v :: u64
  using u64_no_bit [of v 8] by (intro bit_word_eqI) (auto simp: bit_simps not_less [symmetric])

lemma getVarint32_bytes:
  assumes "unat v < 2 ^ 32"
  shows "getVarint32 (varint_bytes v @ bs) = Inr (ucast v, varint_size v)"
proof (cases "unat v < 128")
  case True
  then have "varint_size v = 1"
    by (simp add: varint_size_def varint_len_rec [of v] drop_bit_0_iff)
  moreover have "(ucast v :: u8) < 0x80" using True by (simp add: word_less_nat_alt unsigned_ucast_eq take_bit_nat_eq_self)
  ultimately show ?thesis using True by (simp add: getVarint32_def varint_bytes_1 ucast_byte_32)
next
  case False
  have "varint_bytes v @ bs \<noteq> []" using length_varint_bytes [of v] varint_size_bounds [of v] by auto
  then show ?thesis
    using varint_bytes_high [of v bs] False assms
    by (simp add: getVarint32_def u8_high_bit get_varint32 read_varint_bytes)
qed

lemma header_size_varint:
  assumes "n + 9 < 2 ^ 32"
  shows "header_size n = varint_size (of_nat (header_size n)) + n"
proof -
  have small: "unat (of_nat k :: u64) = k" if "k \<le> n + 9" for k
    using that assms by (simp add: unat_of_nat)
  have size: "sqlite3VarintLen (of_nat k) = varint_size (of_nat k)" if "k \<le> n + 9" for k
    using small [OF that] that assms by (simp add: varint_size_32)
  obtain m where m: "sqlite3VarintLen (of_nat n) = Suc m"
    using varint_len_pos [of "of_nat n"] by (cases "sqlite3VarintLen (of_nat n)") auto
  have len: "sqlite3VarintLen (of_nat k) \<le> Suc j \<longleftrightarrow> k < 2 ^ (7 * Suc j)" if "k \<le> n + 9" for j k
    using small [OF that] by (simp only: varint_len_le)
  have m5: "Suc m \<le> 5" using m len [of n 4] assms by simp
  show ?thesis
  proof (cases "n \<le> 126")
    case True
    then have "header_size n = n + 1" by (simp add: header_size_def)
    moreover have "sqlite3VarintLen (of_nat (n + 1)) \<le> 1" using len [of "n + 1" 0] True by simp
    ultimately show ?thesis
      using size [of "n + 1"] varint_size_bounds(1) [of "of_nat (n + 1)"] by simp
  next
    case False
    have n: "n < 2 ^ (7 * Suc m)" using len [of n m] m by simp
    have lower: "Suc m \<le> sqlite3VarintLen (of_nat k)" if "n \<le> k" "k \<le> n + 9" for k
    proof (cases m)
      case (Suc j)
      then show ?thesis using len [of n j] len [of k j] m that by simp
    qed (use varint_len_pos in simp)
    have grow: "n + 9 < 2 ^ (7 * Suc (Suc m))"
    proof -
      have "(9::nat) \<le> 2 ^ (7 * Suc m)" using power_increasing [of 7 "7 * Suc m" "2::nat"] by simp
      with n show ?thesis by (simp add: power_add)
    qed
    have upper: "sqlite3VarintLen (of_nat k) \<le> Suc (Suc m)" if "k \<le> n + 9" for k
      using len [OF that, of "Suc m"] grow that by simp
    have le: "n + Suc m \<le> n + 9" using m5 by simp
    show ?thesis
    proof (cases "Suc m < sqlite3VarintLen (of_nat (n + Suc m))")
      case True
      then have "sqlite3VarintLen (of_nat (n + Suc m)) = Suc (Suc m)" using upper [OF le] by simp
      then have "\<not> n + Suc m < 2 ^ (7 * Suc m)" using len [OF le, of m] by simp
      then have "sqlite3VarintLen (of_nat (n + Suc m + 1)) = Suc (Suc m)"
        using len [of "n + Suc m + 1" m] upper [of "n + Suc m + 1"] m5 by force
      moreover have "header_size n = n + Suc m + 1"
        using False True m by (simp add: header_size_def del: of_nat_add of_nat_Suc)
      ultimately show ?thesis using size [of "n + Suc m + 1"] m5 by simp
    next
      case no: False
      then have "header_size n = n + Suc m" using False m by (simp add: header_size_def del: of_nat_add of_nat_Suc)
      moreover have "sqlite3VarintLen (of_nat (n + Suc m)) = Suc m"
        using no lower [OF _ le] by (simp only: le_antisym not_less le_add1)
      ultimately show ?thesis using size [OF le] by simp
    qed
  qed
qed


section \<open>Integers of fewer bytes\<close>

text \<open>The range an \<open>n\<close>-bit signed integer has.\<close>

definition fits :: "nat \<Rightarrow> int \<Rightarrow> bool" where
  "fits n i \<longleftrightarrow> - (2 ^ (n - 1)) \<le> i \<and> i < 2 ^ (n - 1)"

lemma fits_bits: "fits (Suc n) i \<longleftrightarrow> signed_take_bit n i = i"
  by (auto simp: fits_def signed_take_bit_int_eq_self_iff)

lemma bit_fits: "fits (Suc n) i \<Longrightarrow> bit i k \<longleftrightarrow> bit i (min n k)"
  unfolding fits_bits by (metis bit_signed_take_bit_iff min.commute possible_bit_int)

lemma times_pow_int: "256 * i = push_bit 8 i" "65536 * i = push_bit 16 i" "16777216 * i = push_bit 24 i"
    "2 ^ 32 * i = push_bit 32 i" for i :: int
  by (simp_all add: push_bit_eq_mult)

lemma bit_sint_u8: "bit (sint b) k \<longleftrightarrow> bit b (min 7 k)" for b :: u8
  by (cases "k \<le> 7") (auto simp: bit_sint_iff min_def)

lemma bit_ucast_drop: "bit (ucast (drop_bit m (word_of_int i :: u64)) :: u8) k \<longleftrightarrow> k < 8 \<and> m + k < 64 \<and> bit i (m + k)"
  by (auto simp: bit_simps)

lemma int_bytes_cases:
  "int_bytes 1 v = [ucast v]"
  "int_bytes 2 v = [ucast (drop_bit 8 v), ucast v]"
  "int_bytes 3 v = [ucast (drop_bit 16 v), ucast (drop_bit 8 v), ucast v]"
  "int_bytes 4 v = [ucast (drop_bit 24 v), ucast (drop_bit 16 v), ucast (drop_bit 8 v), ucast v]"
  "int_bytes 6 v = [ucast (drop_bit 40 v), ucast (drop_bit 32 v), ucast (drop_bit 24 v),
     ucast (drop_bit 16 v), ucast (drop_bit 8 v), ucast v]"
  "int_bytes 8 v = [ucast (drop_bit 56 v), ucast (drop_bit 48 v), ucast (drop_bit 40 v),
     ucast (drop_bit 32 v), ucast (drop_bit 24 v), ucast (drop_bit 16 v), ucast (drop_bit 8 v), ucast v]"
  by (simp_all add: int_bytes_def upt_rec)

lemma bit_ucast_word: "bit (ucast (word_of_int i :: u64) :: u8) k \<longleftrightarrow> k < 8 \<and> bit i k"
  using bit_ucast_drop [of 0 i k] by auto

lemmas byte_bits = bit_or_iff bit_push_bit_iff bit_sint_u8 bit_uint_iff bit_ucast_drop bit_ucast_word possible_bit_int
  bit_word_of_int_iff

lemma fits_eqI: "fits (Suc m) i \<Longrightarrow> (\<And>k. bit x k \<longleftrightarrow> bit i (min m k)) \<Longrightarrow> x = i" for x :: int
  by (rule bit_eqI) (simp add: bit_fits [symmetric])

lemma get_int_bytes:
  "fits 8 i \<Longrightarrow> ONE_BYTE_INT (int_bytes 1 (word_of_int i) @ bs) = Inr i"
  "fits 16 i \<Longrightarrow> TWO_BYTE_INT (int_bytes 2 (word_of_int i) @ bs) = Inr i"
  "fits 24 i \<Longrightarrow> THREE_BYTE_INT (int_bytes 3 (word_of_int i) @ bs) = Inr i"
  "fits 32 i \<Longrightarrow> FOUR_BYTE_INT (int_bytes 4 (word_of_int i) @ bs) = Inr i"
  unfolding ONE_BYTE_INT_def TWO_BYTE_INT_def THREE_BYTE_INT_def FOUR_BYTE_INT_def int_bytes_cases times_pow_int
  apply (simp, rule fits_eqI [of 7], simp, unfold byte_bits, auto simp: min_def not_le) []
  apply (simp, rule fits_eqI [of 15], simp, unfold byte_bits, auto simp: min_def not_le) []
  apply (simp, rule fits_eqI [of 23], simp, unfold byte_bits, rename_tac k, case_tac "k < 16"; auto simp: min_def not_le not_less) []
  apply (simp, rule fits_eqI [of 31], simp, unfold byte_bits, auto simp: min_def not_le) []
  done

lemma get_uint: "FOUR_BYTE_UINT (int_bytes 4 v @ bs) = Inr (ucast v)"
  unfolding FOUR_BYTE_UINT_def int_bytes_cases
  by simp (rule u32_eq_bitwise, simp add: all_less_numeral bit_simps)

lemma int_bytes_split:
  "int_bytes 6 v = int_bytes 2 (drop_bit 32 v) @ int_bytes 4 v"
  "int_bytes 8 v = int_bytes 4 (drop_bit 32 v) @ int_bytes 4 v"
  by (simp_all add: int_bytes_cases)

lemma int_bytes_high:
  assumes "fits 48 i"
  shows "int_bytes 2 (drop_bit 32 (word_of_int i)) = int_bytes 2 (word_of_int (drop_bit 32 i))"
    and "fits 16 (drop_bit 32 i)"
    and "uint (ucast (word_of_int i :: u64) :: u32) + 2 ^ 32 * drop_bit 32 i = i"
proof -
  show "int_bytes 2 (drop_bit 32 (word_of_int i)) = int_bytes 2 (word_of_int (drop_bit 32 i))"
    unfolding int_bytes_cases by (simp; intro conjI; rule u8_eq_bitwise; simp add: all_less_numeral bit_simps)
  show "fits 16 (drop_bit 32 i)"
    using assms zdiv_mono1 [of "- (2 ^ 47)" i "2 ^ 32"] zdiv_mono1 [of i "2 ^ 47 - 1" "2 ^ 32"]
    by (simp add: fits_def drop_bit_eq_div)
  have "uint (ucast (word_of_int i :: u64) :: u32) = take_bit 32 i"
    by (rule bit_eqI) (auto simp: bit_simps)
  then show "uint (ucast (word_of_int i :: u64) :: u32) + 2 ^ 32 * drop_bit 32 i = i"
    by (simp add: take_bit_eq_mod drop_bit_eq_div)
qed

lemma join32: "push_bit 32 (ucast (ucast (drop_bit 32 v) :: u32)) + ucast (ucast v :: u32) = v" for v :: u64
proof -
  have "push_bit 32 (ucast (ucast (drop_bit 32 v) :: u32)) + ucast (ucast v :: u32)
      = push_bit 32 (ucast (ucast (drop_bit 32 v) :: u32)) OR ucast (ucast v :: u32)"
    by (rule disjunctive_add_eq_or, rule bit_word_eqI) (auto simp: bit_simps)
  also have "\<dots> = v"
    by (rule word_eq_bitwise, simp only: bits64_def bit_simps, simp add: bit_simps)
  finally show ?thesis .
qed

lemma sint_word_of_int64: "fits 64 i \<Longrightarrow> sint (word_of_int i :: u64) = i"
  by (simp add: signed_of_int fits_bits [of 63, simplified])

lemma serialGet_bytes:
  "fits 64 i \<Longrightarrow> serialGet (int_bytes 8 (word_of_int i) @ bs) 6 = Inr (MInt i)"
  "serialGet (int_bytes 8 r @ bs) 7 = Inr (if IsNaN r then MNull False else MReal r)"
proof -
  have "serialGet (int_bytes 8 v @ bs) t =
      Inr (if t = 6 then MInt (sint v) else if IsNaN v then MNull False else MReal v)" for v t
  proof -
    have "length (int_bytes 4 w) = 4" for w by (simp add: int_bytes_def)
    then show ?thesis by (simp add: serialGet_def int_bytes_split get_uint join32)
  qed
  then show "fits 64 i \<Longrightarrow> serialGet (int_bytes 8 (word_of_int i) @ bs) 6 = Inr (MInt i)"
    "serialGet (int_bytes 8 r @ bs) 7 = Inr (if IsNaN r then MNull False else MReal r)"
    by (simp_all add: sint_word_of_int64)
qed

section \<open>What is written, field by field\<close>

text \<open>The value a cell has once it was stored and read again: an integer kept for a real number
  comes back as an integer, or as a real number when it needs eight bytes, a NaN as null, and
  counted zero bytes as bytes.\<close>

definition read_real :: "u64 \<Rightarrow> mem_cell" where
  "read_real r = (if IsNaN r then MNull False else MReal r)"

fun stored :: "(int \<Rightarrow> u64) \<Rightarrow> mem_cell \<Rightarrow> mem_cell" where
  "stored dbl (MIntReal i) = (if fits 48 i then MInt i else read_real (dbl i))"
| "stored dbl (MReal r) = read_real r"
| "stored dbl (MBlob z n) = MBlob (z @ replicate n 0) 0"
| "stored dbl c = c"

text \<open>The values that fit: 64-bit integers, and texts and blobs whose serial type is 32 bits.\<close>

fun cell_ok :: "mem_cell \<Rightarrow> bool" where
  "cell_ok (MInt i) = fits 64 i"
| "cell_ok (MIntReal i) = fits 64 i"
| "cell_ok (MStr z) = (2 * length z + 13 < 2 ^ 32)"
| "cell_ok (MBlob z n) = (2 * (length z + n) + 12 < 2 ^ 32)"
| "cell_ok c = True"

fun zeros :: "mem_cell \<Rightarrow> nat" where
  "zeros (MBlob z n) = n"
| "zeros c = 0"

fun cell_bytes :: "mem_cell \<Rightarrow> u8 list" where
  "cell_bytes (MStr z) = z"
| "cell_bytes (MBlob z n) = z"
| "cell_bytes c = []"

fun cell_word :: "mem_cell \<Rightarrow> u64" where
  "cell_word (MReal r) = r"
| "cell_word (MInt i) = word_of_int i"
| "cell_word (MIntReal i) = word_of_int i"
| "cell_word c = 0"

definition field_data :: "mem_cell \<times> u32 \<Rightarrow> u8 list" where
  "field_data = (\<lambda>(c, t). if t = 0 then [] else if t \<le> 7 then int_bytes (sqlite3SmallTypeSizes ! unat t) (cell_word c)
     else cell_bytes c)"

definition field_full :: "mem_cell \<times> u32 \<Rightarrow> u8 list" where
  "field_full ct = field_data ct @ replicate (zeros (fst ct)) 0"

definition field_type :: "mem_cell \<times> u32 \<Rightarrow> u8 list" where
  "field_type ct = varint_bytes (ucast (snd ct))"

definition field_ok :: "(int \<Rightarrow> u64) \<Rightarrow> mem_cell \<Rightarrow> mem_cell \<times> u32 \<Rightarrow> bool" where
  "field_ok dbl c ct \<longleftrightarrow>
     (8 \<le> snd ct \<and> snd ct < 14 \<longrightarrow> cell_bytes (fst ct) = []) \<and>
     (\<forall>rest. sqlite3VdbeSerialGet (field_full ct @ rest) (snd ct) = Inr (stored dbl c)) \<and>
     sqlite3VdbeSerialTypeLen (snd ct) = length (field_full ct)"

lemma length_int_bytes [simp]: "length (int_bytes n v) = n"
  by (simp add: int_bytes_def)

lemma small_sizes:
  "sqlite3SmallTypeSizes ! 0 = 0" "sqlite3SmallTypeSizes ! 1 = 1" "sqlite3SmallTypeSizes ! 2 = 2"
  "sqlite3SmallTypeSizes ! 3 = 3" "sqlite3SmallTypeSizes ! 4 = 4" "sqlite3SmallTypeSizes ! 5 = 6"
  "sqlite3SmallTypeSizes ! 6 = 8" "sqlite3SmallTypeSizes ! 7 = 8" "sqlite3SmallTypeSizes ! 8 = 0"
  "sqlite3SmallTypeSizes ! 9 = 0" "sqlite3SmallTypeSizes ! 10 = 0" "sqlite3SmallTypeSizes ! 11 = 0"
  by (simp_all add: sqlite3SmallTypeSizes_def)

lemma small_sizes_text: "12 \<le> k \<Longrightarrow> k < 128 \<Longrightarrow> sqlite3SmallTypeSizes ! k = (k - 12) div 2"
proof -
  assume k: "12 \<le> k" "k < 128"
  have "drop 12 sqlite3SmallTypeSizes = map (\<lambda>j. j div 2) [0..<116]"
    by (simp add: sqlite3SmallTypeSizes_def upt_rec)
  then have "drop 12 sqlite3SmallTypeSizes ! (k - 12) = map (\<lambda>j. j div 2) [0..<116] ! (k - 12)" by (rule arg_cong)
  moreover have "length sqlite3SmallTypeSizes = 128" by (simp add: sqlite3SmallTypeSizes_def)
  ultimately show ?thesis using k by (simp del: upt_Suc)
qed

text \<open>The serial type of a text or a blob.\<close>

lemma text_type:
  assumes "2 * n + 12 + b < 2 ^ 32" and "b \<le> 1" and "t = of_nat n * 2 + 12 + of_nat b"
  shows "unat t = 2 * n + 12 + b" "sqlite3VdbeSerialTypeLen t = n" "12 \<le> t"
    "unat ((t - 12) div 2) = n" "t AND 1 = of_nat b"
proof -
  have t: "t = of_nat (2 * n + 12 + b)" using assms(3) by simp
  show u: "unat t = 2 * n + 12 + b" unfolding t using assms(1,2) by (simp only: unat_of_nat) simp
  show "12 \<le> t" using u by (simp add: word_le_nat_alt)
  then have "unat (t - 12) = 2 * n + b" using u by (simp add: unat_sub)
  then show len: "unat ((t - 12) div 2) = n" using assms(2) by (simp add: unat_div)
  show "sqlite3VdbeSerialTypeLen t = n"
    using len u assms(2) by (auto simp: sqlite3VdbeSerialTypeLen_def word_le_nat_alt small_sizes_text)
  have "unat t mod 2 = b" using u assms(2) by presburger
  then show "t AND 1 = of_nat b"
    using assms(2) by (cases b) (simp_all add: and_one_eq word_unat_eq_iff unat_mod)
qed


lemma text_field:
  assumes "cell_ok c" and "c = MStr z \<and> n = length z \<and> b = 1 \<or> c = MBlob z k \<and> n = length z + k \<and> b = 0"
    and "t = of_nat n * 2 + 12 + of_nat b" and "c' = c \<or> c' = MBlob (z @ replicate k 0) 0 \<and> c = MBlob z k"
  shows "field_ok dbl c (c', t) \<and> field_data (c', t) = cell_bytes c'"
proof -
  have "2 * n + 12 + b < 2 ^ 32" "b \<le> 1" using assms(1,2) by auto
  note t = text_type [OF this assms(3)]
  have n7: "\<not> t \<le> 7" "t \<noteq> 0" using t(3) by (auto simp: word_le_nat_alt)
  have data: "field_data (c', t) = cell_bytes c'" using n7 by (simp add: field_data_def)
  have full: "field_full (c', t) = z @ replicate (n - length z) 0" and len: "length z \<le> n"
    using assms(2,4) by (auto simp: field_full_def data)
  have "t = 12 \<or> t = 13 \<or> 14 \<le> t" using t(3) by (auto simp: word_le_nat_alt word_unat_eq_iff)
  then have small: "t < 14 \<Longrightarrow> n = 0" using t(4) by (auto simp: not_less)
  have "sqlite3VdbeSerialGet (field_full (c', t) @ rest) t = Inr (stored dbl c)" for rest
  proof -
    have "t \<notin> set [0, 1, 2, 3, 4, 5, 6, 7, 8, 9, 10, 11]" using t(3) by (auto simp: word_le_nat_alt)
    moreover have "take n (z @ replicate (n - length z) 0 @ rest) = z @ replicate (n - length z) 0"
      using len by simp
    ultimately show ?thesis
      using t(4,5) assms(2) unfolding full by (auto simp: sqlite3VdbeSerialGet_def)
  qed
  then show ?thesis
    using data small len t(2) full assms(2,4) by (auto simp: field_ok_def)
qed

lemma magnitude_fits: "int_magnitude i \<le> 2 ^ n - 1 \<longleftrightarrow> fits (Suc n) i"
  by (auto simp: int_magnitude_def fits_def not_int_def)

lemmas magnitude_bounds =
  magnitude_fits [of _ 7, simplified] magnitude_fits [of _ 15, simplified] magnitude_fits [of _ 23, simplified]
  magnitude_fits [of _ 31, simplified] magnitude_fits [of _ 47, simplified]

lemma unat_u64_u32 [simp]: "unat (ucast t :: u64) = unat t" for t :: u32
proof -
  have "unat t < 2 ^ 32" by (rule order_less_le_trans [OF unsigned_less]) simp
  then show ?thesis by (simp add: unsigned_ucast_eq take_bit_nat_eq_self)
qed

lemma length_field_type_small: "t < 128 \<Longrightarrow> length (field_type (c, t)) = 1"
  by (simp add: field_type_def varint_bytes_1 word_less_nat_alt)

lemma read_int_field:
  assumes "(t, n, k) \<in> {(1, 8, 1), (2, 16, 2), (3, 24, 3), (4, 32, 4), (5, 48, 6), (6, 64, 8)}"
    and "fits n i" and "c = MInt i \<or> c = MIntReal i"
  shows "field_data (c, t) = int_bytes k (word_of_int i)" "length (field_data (c, t)) = k"
    "length (field_type (c, t)) = 1" "zeros c = 0"
    "sqlite3VdbeSerialGet (field_full (c, t) @ rest) t = Inr (MInt i)"
    "sqlite3VdbeSerialTypeLen t = length (field_full (c, t))"
proof -
  show data: "field_data (c, t) = int_bytes k (word_of_int i)" and z: "zeros c = 0"
    using assms by (auto simp: field_data_def small_sizes small_sizes(2) [unfolded One_nat_def])
  then show "length (field_data (c, t)) = k" by simp
  show "length (field_type (c, t)) = 1" using assms(1) by (auto simp: length_field_type_small)
  have full: "field_full (c, t) = int_bytes k (word_of_int i)" by (simp add: field_full_def data z)
  show "sqlite3VdbeSerialTypeLen t = length (field_full (c, t))"
    using assms(1) by (auto simp: full sqlite3VdbeSerialTypeLen_def small_sizes small_sizes(2) [unfolded One_nat_def] word_le_nat_alt)
  show "sqlite3VdbeSerialGet (field_full (c, t) @ rest) t = Inr (MInt i)"
  proof -
    have six: "fits 48 i \<Longrightarrow> bind_res (FOUR_BYTE_UINT (drop 2 (int_bytes 6 (word_of_int i) @ rest))) (\<lambda>lo.
        bind_res (TWO_BYTE_INT (int_bytes 6 (word_of_int i) @ rest)) (\<lambda>hi. Inr (MInt (uint lo + 2 ^ 32 * hi)))) = Inr (MInt i)"
      using int_bytes_high [of i] by (simp add: int_bytes_split get_uint get_int_bytes)
    show ?thesis
      using assms(1,2) by (auto simp: full sqlite3VdbeSerialGet_def get_int_bytes
          get_int_bytes(1) [unfolded One_nat_def] six [simplified] serialGet_bytes)
  qed
qed

lemma read_real_field:
  "field_data (MReal r, 7) = int_bytes 8 r" "length (field_type (MReal r, 7)) = 1"
  "field_ok dbl (MReal r) (MReal r, 7)"
  "\<not> fits 48 i \<Longrightarrow> field_ok dbl (MIntReal i) (MReal (dbl i), 7)"
proof -
  show data: "field_data (MReal r, 7) = int_bytes 8 r" for r by (simp add: field_data_def small_sizes)
  show "length (field_type (MReal r, 7)) = 1" by (simp add: length_field_type_small)
  show "field_ok dbl (MReal r) (MReal r, 7)" "\<not> fits 48 i \<Longrightarrow> field_ok dbl (MIntReal i) (MReal (dbl i), 7)"
    by (simp_all add: field_ok_def field_full_def data sqlite3VdbeSerialGet_def serialGet_bytes read_real_def
        sqlite3VdbeSerialTypeLen_def small_sizes)
qed

lemma fits_mono: "fits n i \<Longrightarrow> n \<le> m \<Longrightarrow> fits m i"
proof -
  assume "fits n i" "n \<le> m"
  moreover from this have "2 ^ (n - 1) \<le> (2::int) ^ (m - 1)" by (intro power_increasing) auto
  ultimately show "fits m i" unfolding fits_def by linarith
qed

lemma int_field_ok:
  assumes "(t, n, k) \<in> {(1, 8, 1), (2, 16, 2), (3, 24, 3), (4, 32, 4), (5, 48, 6), (6, 64, 8)}"
    and "fits n i" and "c = MInt i \<or> c = MIntReal i \<and> n \<le> 48"
  shows "field_ok dbl c (c, t) \<and> length (field_data (c, t)) = k \<and> length (field_type (c, t)) = 1 \<and> zeros c = 0"
proof -
  have c: "c = MInt i \<or> c = MIntReal i" using assms(3) by blast
  note f = read_int_field [OF assms(1,2) c]
  have "stored dbl c = MInt i" using assms(3) fits_mono [OF assms(2), of 48] by auto
  moreover have "cell_bytes c = []" using c by auto
  ultimately show ?thesis by (simp add: field_ok_def f)
qed

lemma const_field_ok:
  assumes "i AND 1 = i" and "c = MInt i \<or> c = MIntReal i" and "t = 8 + word_of_int (int_magnitude i)"
  shows "field_ok dbl c (c, t)" "field_data (c, t) = []" "length (field_type (c, t)) = 1" "zeros c = 0"
proof -
  have i: "i = 0 \<or> i = 1" using assms(1) by (auto simp: and_one_eq)
  then have t: "t = 8 \<and> i = 0 \<or> t = 9 \<and> i = 1" using assms(3) by (auto simp: int_magnitude_def)
  then show data: "field_data (c, t) = []" "length (field_type (c, t)) = 1" "zeros c = 0"
    using assms(2) by (auto simp: field_data_def length_field_type_small)
  have "stored dbl c = MInt i" using i assms(2) by (auto simp: fits_def)
  moreover have "cell_bytes c = []" using assms(2) by auto
  moreover have "field_full (c, t) = []" by (simp add: field_full_def data)
  ultimately show "field_ok dbl c (c, t)"
    using t by (auto simp: field_ok_def sqlite3VdbeSerialGet_def sqlite3VdbeSerialTypeLen_def small_sizes)
qed

lemma size_int_ok:
  assumes "fits 64 i" and "size_int dbl ff r i (h, d, z) = (ct, h', d', z')" and "c = (if r then MIntReal i else MInt i)"
  shows "h' = h + length (field_type ct) \<and> d' = d + length (field_data ct) \<and> z' = z \<and> zeros (fst ct) = 0 \<and>
    field_ok dbl c ct"
proof -
  have c: "c = MInt i \<or> c = MIntReal i" using assms(3) by simp
  consider (const) "fits 8 i" "i AND 1 = i \<and> ff \<ge> 4" | (one) "fits 8 i" "\<not> (i AND 1 = i \<and> ff \<ge> 4)"
    | (two) "\<not> fits 8 i" "fits 16 i" | (three) "\<not> fits 8 i" "\<not> fits 16 i" "fits 24 i"
    | (four) "\<not> fits 8 i" "\<not> fits 16 i" "\<not> fits 24 i" "fits 32 i"
    | (five) "\<not> fits 8 i" "\<not> fits 16 i" "\<not> fits 24 i" "\<not> fits 32 i" "fits 48 i"
    | (more) "\<not> fits 8 i" "\<not> fits 16 i" "\<not> fits 24 i" "\<not> fits 32 i" "\<not> fits 48 i"
    by blast
  then show ?thesis
  proof cases
    case const
    then have "ct = (c, 8 + word_of_int (int_magnitude i))" "h' = h + 1" "d' = d" "z' = z"
      using assms(2,3) by (auto simp: size_int_def Let_def magnitude_bounds)
    with const_field_ok [OF _ c refl] const show ?thesis by simp
  next
    case one
    then have "ct = (c, 1)" "h' = h + 1" "d' = d + 1" "z' = z"
      using assms(2,3) by (auto simp: size_int_def Let_def magnitude_bounds)
    with int_field_ok [of 1 8 1 i c dbl] one c show ?thesis by auto
  next
    case two
    then have "ct = (c, 2)" "h' = h + 1" "d' = d + 2" "z' = z"
      using assms(2,3) by (auto simp: size_int_def Let_def magnitude_bounds)
    with int_field_ok [of 2 16 2 i c dbl] two c show ?thesis by auto
  next
    case three
    then have "ct = (c, 3)" "h' = h + 1" "d' = d + 3" "z' = z"
      using assms(2,3) by (auto simp: size_int_def Let_def magnitude_bounds)
    with int_field_ok [of 3 24 3 i c dbl] three c show ?thesis by auto
  next
    case four
    then have "ct = (c, 4)" "h' = h + 1" "d' = d + 4" "z' = z"
      using assms(2,3) by (auto simp: size_int_def Let_def magnitude_bounds)
    with int_field_ok [of 4 32 4 i c dbl] four c show ?thesis by auto
  next
    case five
    then have "ct = (c, 5)" "h' = h + 1" "d' = d + 6" "z' = z"
      using assms(2,3) by (auto simp: size_int_def Let_def magnitude_bounds)
    with int_field_ok [of 5 48 6 i c dbl] five c show ?thesis by auto
  next
    case more
    then have "ct = (if r then (MReal (dbl i), 7) else (c, 6))" "h' = h + 1" "d' = d + 8" "z' = z"
      using assms(2,3) by (auto simp: size_int_def Let_def magnitude_bounds)
    with int_field_ok [of 6 64 8 i "MInt i" dbl] read_real_field(1,2) [of "dbl i"] read_real_field(4) [of i dbl] more assms(1,3) show ?thesis
      by (cases r) auto
  qed
qed

lemma text_varint:
  "sqlite3VarintLen (ucast t) = length (field_type (c, t))" for t :: u32
proof -
  have "unat t < 2 ^ 32" by (rule order_less_le_trans [OF unsigned_less]) simp
  then show ?thesis by (simp add: field_type_def length_varint_bytes varint_size_32)
qed

lemma size_step_blob:
  assumes "size_step dbl mem ff (MBlob y n) (h, d, z) = Some (ct, h', d', z')"
    and "c' = (if n \<noteq> 0 \<and> d \<noteq> 0 then MBlob (y @ replicate n 0) 0 else MBlob y n)"
    and "t = of_nat (length y) * 2 + 12 + of_nat n * 2"
  shows "ct = (c', t) \<and> h' = h + sqlite3VarintLen (ucast t) \<and> d' = d + length (cell_bytes c') \<and>
    z' = z + zeros c' \<and> (zeros c' \<noteq> 0 \<longrightarrow> d = 0)"
  using assms(1) unfolding assms(2,3) size_step_def Let_def by (auto split: if_splits)

lemma size_step_ok:
  assumes "cell_ok c" and "size_step dbl mem ff c (h, d, z) = Some (ct, h', d', z')"
  shows "h' = h + length (field_type ct) \<and> d' = d + length (field_data ct) \<and> z' = z + zeros (fst ct) \<and>
    (zeros (fst ct) \<noteq> 0 \<longrightarrow> d = 0) \<and> field_ok dbl c ct"
proof (cases c)
  case (MNull b)
  then have "ct = (c, if b then 10 else 0)" "h' = h + 1" "d' = d" "z' = z"
    using assms(2) by (auto simp: size_step_def)
  with MNull show ?thesis
    by (auto simp: field_ok_def field_full_def field_data_def length_field_type_small sqlite3VdbeSerialGet_def
        sqlite3VdbeSerialTypeLen_def small_sizes)
next
  case (MInt i)
  then have "size_int dbl ff False i (h, d, z) = (ct, h', d', z')" using assms(2) by (simp add: size_step_def)
  with size_int_ok [OF _ this, of c] MInt assms(1) show ?thesis by simp
next
  case (MIntReal i)
  then have "size_int dbl ff True i (h, d, z) = (ct, h', d', z')" using assms(2) by (simp add: size_step_def)
  with size_int_ok [OF _ this, of c] MIntReal assms(1) show ?thesis by simp
next
  case (MReal r)
  then have "ct = (c, 7)" "h' = h + 1" "d' = d + 8" "z' = z" using assms(2) by (auto simp: size_step_def)
  with MReal read_real_field(1,2) [of r] read_real_field(3) [of dbl r] show ?thesis by simp
next
  case (MStr y)
  define t :: u32 where "t = of_nat (length y) * 2 + 12 + of_nat 1"
  have "ct = (c, t)" "h' = h + sqlite3VarintLen (ucast t)" "d' = d + length y" "z' = z"
    using assms(2) MStr by (auto simp: size_step_def t_def Let_def add.assoc)
  with text_field [OF assms(1) _ t_def, of y 0 c dbl] MStr show ?thesis by (simp add: text_varint)
next
  case (MBlob y n)
  define t :: u32 where "t = of_nat (length y + n) * 2 + 12 + of_nat 0"
  define c' where "c' = (if n \<noteq> 0 \<and> d \<noteq> 0 then MBlob (y @ replicate n 0) 0 else c)"
  have t: "t = of_nat (length y) * 2 + 12 + of_nat n * 2" by (simp add: t_def algebra_simps)
  note step = size_step_blob [OF assms(2) [unfolded MBlob] c'_def [unfolded MBlob] t]
  have "c' = c \<or> c' = MBlob (y @ replicate n 0) 0 \<and> c = MBlob y n" using MBlob by (simp add: c'_def)
  with text_field [OF assms(1) _ t_def, of y n c' dbl] MBlob step show ?thesis by (simp add: text_varint)
qed


text \<open>The first loop: the sums are the sizes, and only the last fields have counted zeros.\<close>

definition types_bytes :: "(mem_cell \<times> u32) list \<Rightarrow> u8 list" where
  "types_bytes ts = concat (map field_type ts)"

definition data_bytes :: "(mem_cell \<times> u32) list \<Rightarrow> u8 list" where
  "data_bytes ts = concat (map field_data ts)"

definition full_bytes :: "(mem_cell \<times> u32) list \<Rightarrow> u8 list" where
  "full_bytes ts = concat (map field_full ts)"

lemma record_parts_simps [simp]:
  "types_bytes [] = []" "data_bytes [] = []" "full_bytes [] = []"
  "types_bytes (ct # ts) = field_type ct @ types_bytes ts"
  "data_bytes (ct # ts) = field_data ct @ data_bytes ts"
  "full_bytes (ct # ts) = field_full ct @ full_bytes ts"
  by (simp_all add: types_bytes_def data_bytes_def full_bytes_def)

lemma size_pass_ok:
  "list_all cell_ok cs \<Longrightarrow> size_pass dbl mem ff cs = Some (ts, h, d, z) \<Longrightarrow>
   h = length (types_bytes ts) \<and> d = length (data_bytes ts) \<and>
   data_bytes ts @ replicate z 0 = full_bytes ts \<and> list_all2 (field_ok dbl) cs ts"
proof (induction cs arbitrary: ts h d z)
  case (Cons c cs)
  obtain ts' h1 d1 z1 ct where pass: "size_pass dbl mem ff cs = Some (ts', h1, d1, z1)"
    and step: "size_step dbl mem ff c (h1, d1, z1) = Some (ct, h, d, z)" and ts: "ts = ct # ts'"
    using Cons.prems(2) by (auto split: option.splits)
  have IH: "h1 = length (types_bytes ts')" "d1 = length (data_bytes ts')"
      "data_bytes ts' @ replicate z1 0 = full_bytes ts'" "list_all2 (field_ok dbl) cs ts'"
    using Cons.IH [OF _ pass] Cons.prems(1) by auto
  have ok: "h = h1 + length (field_type ct)" "d = d1 + length (field_data ct)" "z = z1 + zeros (fst ct)"
      "zeros (fst ct) \<noteq> 0 \<longrightarrow> d1 = 0" "field_ok dbl c ct"
    using size_step_ok [OF _ step] Cons.prems(1) by auto
  have "data_bytes ts' @ replicate z 0 = replicate (zeros (fst ct)) 0 @ full_bytes ts'"
  proof (cases "zeros (fst ct) = 0")
    case False
    then have "data_bytes ts' = []" using ok(4) IH(2) by simp
    then show ?thesis using IH(3) [symmetric] ok(3) by (simp add: replicate_add [symmetric] add.commute)
  qed (use IH(3) ok(3) in simp)
  then show ?case using ok IH by (simp add: ts field_full_def)
qed auto

text \<open>The second loop fills the rest of the header and the data.\<close>

lemma put_bytes_ok: "length X = length bs \<Longrightarrow> put_bytes (P @ X @ Q) (length P) bs = Inr (P @ bs @ Q)"
  by (simp add: put_bytes_def)

lemma put_varint_at_ok:
  "length X = varint_size v \<Longrightarrow> put_varint_at (P @ X @ Q) (length P) v = Inr (P @ varint_bytes v @ Q, varint_size v)"
  by (simp add: put_varint_at_def put_varint_bytes)

lemma small_type_byte: "t < 128 \<Longrightarrow> field_type (c, t) = [ucast t]"
proof -
  assume "t < 128"
  moreover have "ucast (ucast t :: u64) = (ucast t :: u8)" by (rule bit_word_eqI) (auto simp: bit_simps)
  ultimately show ?thesis by (simp add: field_type_def varint_bytes_1 word_less_nat_alt)
qed

lemma write_fields_step:
  assumes "8 \<le> snd ct \<and> snd ct < 14 \<longrightarrow> cell_bytes (fst ct) = []"
    and "length hs = length (field_type ct)" and "length ds = length (field_data ct)"
  shows "write_fields (A @ (hs @ hs') @ B @ ds @ ds') (length A) (length (A @ (hs @ hs') @ B)) (ct # ts) =
    write_fields ((A @ field_type ct) @ hs' @ (B @ field_data ct) @ ds')
      (length (A @ field_type ct)) (length ((A @ field_type ct) @ hs' @ B @ field_data ct)) ts"
proof -
  obtain c t where ct: "ct = (c, t)" by (cases ct)
  have hdr: "put_bytes (A @ hs @ Q) (length A) (field_type ct) = Inr (A @ field_type ct @ Q)" for Q
    using assms(2) by (rule put_bytes_ok)
  have pay: "put_bytes (A @ field_type ct @ hs' @ B @ ds @ ds') (length (A @ field_type ct @ hs' @ B)) (field_data ct) =
      Inr (A @ field_type ct @ hs' @ B @ field_data ct @ ds')"
    using put_bytes_ok [of ds "field_data ct" "A @ field_type ct @ hs' @ B" ds'] assms(3) by simp
  have var: "put_varint_at (A @ hs @ Q) (length A) (ucast t) = Inr (A @ field_type ct @ Q, length (field_type ct))" for Q
    using put_varint_at_ok [of hs "ucast t" A Q] assms(2) by (simp add: ct field_type_def length_varint_bytes)
  have word: "(case c of MReal r \<Rightarrow> r | MInt i \<Rightarrow> word_of_int i | MIntReal i \<Rightarrow> word_of_int i | _ \<Rightarrow> 0) = cell_word c"
    and bytes: "(case c of MStr z \<Rightarrow> z | MBlob z n \<Rightarrow> z | _ \<Rightarrow> []) = cell_bytes c" by (cases c; simp)+
  note defs = write_fields.simps ct word bytes Let_def
  note pre = hdr [unfolded ct] pay [unfolded ct] var [unfolded ct] assms(2,3) [unfolded ct]
  consider (null) "t = 0" | (number) "t \<noteq> 0" "t \<le> 7" | (byte) "\<not> t \<le> 7" "t < 0x80" | (more) "\<not> t \<le> 7" "\<not> t < 0x80"
    by blast
  then show ?thesis
  proof cases
    case null
    then have ft: "field_type (c, t) = [ucast t]" "field_data (c, t) = []" "ds = []"
      using pre(5) by (simp_all add: small_type_byte field_data_def)
    show ?thesis using null ft pre(1) [of "hs' @ B @ ds'"] pre(4) by (simp add: defs)
  next
    case number
    then have ft: "field_type (c, t) = [ucast t]" and fd: "field_data (c, t) = int_bytes (sqlite3SmallTypeSizes ! unat t) (cell_word c)"
      by (simp_all add: small_type_byte field_data_def word_le_nat_alt word_less_nat_alt)
    show ?thesis using number ft fd pre(1) [of "hs' @ B @ ds @ ds'"] pre(2,4) by (simp add: defs add.assoc)
  next
    case byte
    then have ft: "field_type (c, t) = [ucast t]" and fd: "field_data (c, t) = cell_bytes c" and t0: "t \<noteq> 0"
      by (auto simp: small_type_byte field_data_def)
    show ?thesis
    proof (cases "t \<ge> 14 \<and> length (cell_bytes c) > 0")
      case True
      then show ?thesis using byte ft fd pre(1) [of "hs' @ B @ ds @ ds'"] pre(2,4) by (simp add: defs add.assoc)
    next
      case False
      then have "cell_bytes c = []" using byte assms(1) by (auto simp: ct word_le_nat_alt word_less_nat_alt)
      then show ?thesis using byte ft fd pre(1) [of "hs' @ B @ ds @ ds'"] pre(4,5) by (simp add: defs)
    qed
  next
    case more
    then have fd: "field_data (c, t) = cell_bytes c" by (auto simp: field_data_def)
    show ?thesis
      using more fd pre(2-5) pre(3) [of "hs' @ B @ ds @ ds'"] by (cases "cell_bytes c = []") (simp_all add: defs add.assoc)
  qed
qed

lemma length_split: "length xs = m + n \<Longrightarrow> \<exists>ys zs. xs = ys @ zs \<and> length ys = m \<and> length zs = n"
  by (rule exI [of _ "take m xs"], rule exI [of _ "drop m xs"]) simp

lemma write_fields_ok:
  "list_all2 (field_ok dbl) cs ts \<Longrightarrow> length hs = length (types_bytes ts) \<Longrightarrow> length ds = length (data_bytes ts) \<Longrightarrow>
   write_fields (A @ hs @ B @ ds) (length A) (length (A @ hs @ B)) ts = Inr (A @ types_bytes ts @ B @ data_bytes ts)"
proof (induction ts arbitrary: cs A hs B ds)
  case (Cons ct ts)
  obtain h h' where hs: "hs = h @ h'" "length h = length (field_type ct)" "length h' = length (types_bytes ts)"
    using Cons.prems(2) length_split [of hs "length (field_type ct)" "length (types_bytes ts)"] by auto
  obtain d d' where ds: "ds = d @ d'" "length d = length (field_data ct)" "length d' = length (data_bytes ts)"
    using Cons.prems(3) length_split [of ds "length (field_data ct)" "length (data_bytes ts)"] by auto
  obtain c cs' where cs: "field_ok dbl c ct" "list_all2 (field_ok dbl) cs' ts"
    using Cons.prems(1) by (auto simp: list_all2_Cons2)
  have "write_fields (A @ hs @ B @ ds) (length A) (length (A @ hs @ B)) (ct # ts) =
    write_fields ((A @ field_type ct) @ h' @ (B @ field_data ct) @ d')
      (length (A @ field_type ct)) (length ((A @ field_type ct) @ h' @ B @ field_data ct)) ts"
    unfolding hs(1) ds(1) using cs(1) hs(2) ds(2) by (intro write_fields_step) (simp_all add: field_ok_def)
  also have "\<dots> = Inr ((A @ field_type ct) @ types_bytes ts @ (B @ field_data ct) @ data_bytes ts)"
    by (rule Cons.IH [OF cs(2) hs(3) ds(3)])
  finally show ?case by simp
qed auto


section \<open>Round trip\<close>

lemma drop_parts: "drop (length P) (P @ Q) = Q" by simp

lemma read_field_type:
  "getVarint32 (field_type (c, t) @ bs) = Inr (t, length (field_type (c, t)))"
proof -
  have "unat t < 2 ^ 32" by (rule order_less_le_trans [OF unsigned_less]) simp
  then have "getVarint32 (varint_bytes (ucast t) @ bs) = Inr (ucast (ucast t :: u64), varint_size (ucast t))"
    by (intro getVarint32_bytes) simp
  moreover have "ucast (ucast t :: u64) = t" by (rule bit_word_eqI) (auto simp: bit_simps)
  ultimately show ?thesis by (simp add: field_type_def length_varint_bytes)
qed

lemma field_type_nonempty: "0 < length (field_type ct)"
  using varint_size_bounds(1) by (simp add: field_type_def length_varint_bytes Suc_le_eq)

lemma unpack_loop_ok:
  "list_all2 (field_ok dbl) cs ts \<Longrightarrow> drop idx aKey = types_bytes ts @ X \<Longrightarrow> drop d aKey = full_bytes ts @ Y \<Longrightarrow>
   szHdr = idx + length (types_bytes ts) \<Longrightarrow> nKey = d + length (full_bytes ts) \<Longrightarrow>
   unpack_loop left aKey nKey szHdr idx d ms =
     Inr (rev (map (stored dbl) (take left cs)) @ ms, d + length (full_bytes (take left ts)))"
proof (induction left arbitrary: cs ts idx d ms)
  case (Suc left)
  show ?case
  proof (cases ts)
    case Nil
    with Suc.prems show ?thesis by simp
  next
    case (Cons ct ts')
    then obtain c cs' where cs: "cs = c # cs'" and ok: "field_ok dbl c ct" and rest: "list_all2 (field_ok dbl) cs' ts'"
      using Suc.prems(1) by (auto simp: list_all2_Cons2)
    obtain c' t where ct: "ct = (c', t)" by (cases ct)
    have "drop (idx + length (field_type ct)) aKey = types_bytes ts' @ X"
      "drop (d + length (field_full ct)) aKey = full_bytes ts' @ Y"
      using Suc.prems(2,3) Cons by (simp_all add: add.commute [of _ "length _"] flip: drop_drop)
    note IH = Suc.IH [OF rest this]
    have "getVarint32 (drop idx aKey) = Inr (t, length (field_type ct))"
      using Suc.prems(2) Cons read_field_type [of c' t] by (simp add: ct)
    moreover have "sqlite3VdbeSerialGet (drop d aKey) t = Inr (stored dbl c)"
      "sqlite3VdbeSerialTypeLen t = length (field_full ct)"
      using Suc.prems(3) Cons ok by (simp_all add: field_ok_def ct)
    moreover have "idx < szHdr \<and> d \<le> nKey"
      using Suc.prems(4,5) Cons field_type_nonempty [of ct] by simp
    ultimately show ?thesis using IH Suc.prems(4,5) by (simp add: cs Cons)
  qed
qed simp

lemma full_bytes_take: "length (full_bytes (take k ts)) \<le> length (full_bytes ts)"
  by (metis append_take_drop_id concat_append full_bytes_def le_add1 length_append map_append)

lemma types_bytes_bound: "length (types_bytes ts) \<le> 9 * length ts"
proof (induction ts)
  case (Cons ct ts)
  then show ?case using varint_size_bounds(2) [of "ucast (snd ct)"]
    by (simp add: field_type_def length_varint_bytes)
qed simp

text \<open>A record as it is laid out, read by \<open>sqlite3VdbeRecordUnpack\<close>.\<close>

lemma unpack_layout:
  assumes ok: "list_all2 (field_ok dbl) cs ts" and size: "sz = varint_size (of_nat sz) + length (types_bytes ts)"
    and small: "sz < 2 ^ 32" and nKey: "nKey = sz + length (full_bytes ts)"
  shows "sqlite3VdbeRecordUnpack nField nKey (varint_bytes (of_nat sz) @ types_bytes ts @ full_bytes ts @ bs) =
    Inr (map (stored dbl) (take (max 1 nField) cs))"
proof -
  let ?key = "varint_bytes (of_nat sz) @ types_bytes ts @ full_bytes ts @ bs"
  have u: "unat (of_nat sz :: u64) = sz" "unat (of_nat sz :: u32) = sz" using small by (simp_all only: unat_of_nat) simp_all
  have cast: "ucast (of_nat sz :: u64) = (of_nat sz :: u32)" by (rule bit_word_eqI) (auto simp: bit_simps)
  have hdr: "getVarint32 ?key = Inr (of_nat sz, varint_size (of_nat sz))"
    using getVarint32_bytes [of "of_nat sz"] small u cast by simp
  have "drop (varint_size (of_nat sz)) ?key = types_bytes ts @ full_bytes ts @ bs"
    by (simp add: length_varint_bytes)
  moreover have "drop sz ?key = full_bytes ts @ bs"
    using drop_parts [of "varint_bytes (of_nat sz) @ types_bytes ts" "full_bytes ts @ bs"] size
    by (simp add: length_varint_bytes)
  ultimately have "unpack_loop (max 1 nField) ?key nKey sz (varint_size (of_nat sz)) sz [] =
      Inr (rev (map (stored dbl) (take (max 1 nField) cs)) @ [], sz + length (full_bytes (take (max 1 nField) ts)))"
    using size nKey by (intro unpack_loop_ok [OF ok]) simp_all
  then show ?thesis using full_bytes_take [of "max 1 nField" ts] nKey
    by (simp add: sqlite3VdbeRecordUnpack_def hdr u)
qed


text \<open>The size of a record, and when there is none.\<close>

fun cell_size :: "mem_cell \<Rightarrow> nat" where
  "cell_size (MStr z) = length z"
| "cell_size (MBlob z n) = length z + n"
| "cell_size c = 8"

lemma size_step_size:
  "size_step dbl mem ff c (h, d, z) = Some (ct, h', d', z') \<Longrightarrow> d' + z' \<le> d + z + cell_size c"
  by (cases c) (auto simp: size_step_def size_int_def Let_def split: if_splits)

lemma size_pass_size:
  "size_pass dbl mem ff cs = Some (ts, h, d, z) \<Longrightarrow> d + z \<le> sum_list (map cell_size cs)"
proof (induction cs arbitrary: ts h d z)
  case (Cons c cs)
  then show ?case by (fastforce split: option.splits dest!: size_step_size)
qed simp

lemma size_pass_no_mem: "size_pass dbl mem ff cs = None \<Longrightarrow> \<exists>k. \<not> mem k"
proof (induction cs)
  case (Cons c cs)
  then show ?case
    by (cases c) (auto simp: size_step_def Let_def split: option.splits if_splits prod.splits)
qed simp

text \<open>The record that \<open>OP_MakeRecord\<close> leaves behind.\<close>

lemma make_record_layout:
  assumes ok: "list_all cell_ok cs" and len: "length cs < 2 ^ 28"
    and pass: "size_pass dbl mem ff cs = Some (ts, h, d, z)"
  shows "op_make_record dbl mem ff szMalloc limit fill cs =
    Inr (if \<not> header_size h + d + z \<le> szMalloc \<and> header_size h + d + z > limit then TooBig
         else if \<not> header_size h + d + z \<le> szMalloc \<and> \<not> mem (header_size h + d) then NoMem
         else Made (varint_bytes (of_nat (header_size h)) @ types_bytes ts @ data_bytes ts) z)"
    and "header_size h = varint_size (of_nat (header_size h)) + length (types_bytes ts)"
    and "header_size h < 2 ^ 32"
proof -
  have parts: "h = length (types_bytes ts)" "d = length (data_bytes ts)" "list_all2 (field_ok dbl) cs ts"
    using size_pass_ok [OF ok pass] by auto
  have "length ts = length cs" using parts(3) by (simp add: list_all2_lengthD)
  then have h: "h + 9 < 2 ^ 32" using types_bytes_bound [of ts] len parts(1) by simp
  show size: "header_size h = varint_size (of_nat (header_size h)) + length (types_bytes ts)"
    using header_size_varint [OF h] parts(1) by simp
  show small: "header_size h < 2 ^ 32"
    using size varint_size_bounds(2) [of "of_nat (header_size h)"] h parts(1) by simp
  let ?n = "header_size h + d" and ?sz = "of_nat (header_size h) :: u64"
  define buf where "buf = take ?n (fill ?n @ replicate ?n 0)"
  have blen: "length buf = varint_size ?sz + (length (types_bytes ts) + length (data_bytes ts))"
    using size parts(2) by (simp add: buf_def)
  obtain V R where V: "buf = V @ R" "length V = varint_size ?sz" "length R = length (types_bytes ts) + length (data_bytes ts)"
    using length_split [OF blen] by auto
  obtain hs ds where R: "R = hs @ ds" "length hs = length (types_bytes ts)" "length ds = length (data_bytes ts)"
    using length_split [OF V(3)] by auto
  have u: "unat ?sz = header_size h" using small by (simp only: unat_of_nat) simp
  have first: "(if header_size h < 0x80 then bind_res (put_bytes buf 0 [of_nat (header_size h)]) (\<lambda>buf. Inr (buf, 1))
      else put_varint_at buf 0 (of_nat (header_size h))) = Inr (varint_bytes ?sz @ R, varint_size ?sz)"
  proof (cases "header_size h < 0x80")
    case True
    have one: "varint_bytes ?sz = [of_nat (header_size h)]"
    proof -
      have "ucast ?sz = (of_nat (header_size h) :: u8)" by (rule bit_word_eqI) (auto simp: bit_simps)
      then show ?thesis using True u by (simp add: varint_bytes_1)
    qed
    then have "varint_size ?sz = 1" using length_varint_bytes [of ?sz] by simp
    then show ?thesis using True put_bytes_ok [of V "[of_nat (header_size h)]" "[]" R] V by (simp add: one)
  next
    case False
    then show ?thesis using put_varint_at_ok [of V ?sz "[]" R] V by simp
  qed
  have fields: "write_fields (varint_bytes ?sz @ R) (varint_size ?sz) (header_size h) ts =
      Inr (varint_bytes ?sz @ types_bytes ts @ data_bytes ts)"
    using write_fields_ok [OF parts(3) R(2,3), of "varint_bytes ?sz" "[]"] size R(2)
    by (simp add: R(1) length_varint_bytes)
  show "op_make_record dbl mem ff szMalloc limit fill cs =
    Inr (if \<not> header_size h + d + z \<le> szMalloc \<and> header_size h + d + z > limit then TooBig
         else if \<not> header_size h + d + z \<le> szMalloc \<and> \<not> mem (header_size h + d) then NoMem
         else Made (varint_bytes (of_nat (header_size h)) @ types_bytes ts @ data_bytes ts) z)"
    unfolding op_make_record_def pass option.case prod.case Let_def buf_def [symmetric]
    by (simp only: first bind_res_Inr prod.case fields if_distrib [of Inr] split: if_split)
qed

text \<open>C19. A row survives its record: \<open>OP_MakeRecord\<close> never stores outside its buffer and gives up only
  when the allocator refuses or the record exceeds the limit on the length of a value; what it leaves behind, its counted zero bytes added, is read back by \<open>sqlite3VdbeRecordUnpack\<close>, without a
  load outside the key, as the values that were stored, up to the number of fields asked for; only
  an integer kept for a real number may come back as an integer, and a NaN as null.\<close>

theorem record_roundtrip:
  assumes "list_all cell_ok cs" and "length cs < 2 ^ 28"
  shows "\<exists>r. op_make_record dbl mem ff szMalloc limit fill cs = Inr r \<and>
    (r = NoMem \<longrightarrow> (\<exists>k. \<not> mem k)) \<and>
    (r = TooBig \<longrightarrow> limit < sum_list (map cell_size cs) + 9 * (length cs + 1)) \<and>
    (\<forall>buf n. r = Made buf n \<longrightarrow>
       sqlite3VdbeRecordUnpack nField (length buf + n) (buf @ replicate n 0 @ bs) =
         Inr (map (stored dbl) (take (max 1 nField) cs)))"
proof (cases "size_pass dbl mem ff cs")
  case None
  then show ?thesis using size_pass_no_mem [OF None] by (simp add: op_make_record_def)
next
  case (Some p)
  obtain ts h d z where p: "p = (ts, h, d, z)" by (cases p) auto
  note pass = Some [unfolded p]
  note make = make_record_layout [OF assms pass]
  have parts: "data_bytes ts @ replicate z 0 = full_bytes ts" "list_all2 (field_ok dbl) cs ts"
    using size_pass_ok [OF assms(1) pass] by auto
  let ?V = "varint_bytes (of_nat (header_size h))"
  have full: "(?V @ types_bytes ts @ data_bytes ts) @ replicate z 0 @ bs = ?V @ types_bytes ts @ full_bytes ts @ bs"
    by (simp flip: parts(1))
  have "length (?V @ types_bytes ts @ data_bytes ts) + z = header_size h + length (full_bytes ts)"
    using make(2) by (simp add: length_varint_bytes flip: parts(1))
  then have "sqlite3VdbeRecordUnpack nField (length (?V @ types_bytes ts @ data_bytes ts) + z)
      ((?V @ types_bytes ts @ data_bytes ts) @ replicate z 0 @ bs) = Inr (map (stored dbl) (take (max 1 nField) cs))"
    unfolding full by (intro unpack_layout [OF parts(2) make(2,3)])
  moreover have "header_size h + d + z \<le> sum_list (map cell_size cs) + 9 * (length cs + 1)"
    using size_pass_size [OF pass] make(2) types_bytes_bound [of ts] list_all2_lengthD [OF parts(2)]
      varint_size_bounds(2) [of "of_nat (header_size h)"] by simp
  ultimately show ?thesis unfolding make(1) by auto
qed

theorem record_roundtrip_witness:
  "\<exists>buf n. op_make_record (\<lambda>i. 0) (\<lambda>n. True) 4 0 1000 (\<lambda>n. []) [MInt 300, MNull False, MStr [97, 98]] = Inr (Made buf n) \<and>
    sqlite3VdbeRecordUnpack 3 (length buf + n) (buf @ replicate n 0) = Inr [MInt 300, MNull False, MStr [97, 98]]"
proof -
  obtain r where r: "op_make_record (\<lambda>i. 0) (\<lambda>n. True) 4 0 1000 (\<lambda>n. []) [MInt 300, MNull False, MStr [97, 98]] = Inr r"
      "r \<noteq> NoMem" "r \<noteq> TooBig"
      "\<And>buf n. r = Made buf n \<Longrightarrow> sqlite3VdbeRecordUnpack 3 (length buf + n) (buf @ replicate n 0 @ []) =
        Inr [MInt 300, MNull False, MStr [97, 98]]"
    using record_roundtrip [of "[MInt 300, MNull False, MStr [97, 98]]" "\<lambda>i. 0" "\<lambda>n. True" 4 0 1000 "\<lambda>n. []" 3 "[]"]
    by (auto simp: fits_def)
  then show ?thesis by (cases r) simp_all
qed

section \<open>Any bytes at all\<close>

text \<open>What reading yields: integers of 64 bits, no NaN, no counted zero bytes, and texts and blobs
  no longer than a serial type can say.\<close>

fun read_ok :: "mem_cell \<Rightarrow> bool" where
  "read_ok (MInt i) = fits 64 i"
| "read_ok (MIntReal i) = False"
| "read_ok (MReal r) = (\<not> IsNaN r)"
| "read_ok (MStr z) = (length z < 2 ^ 31)"
| "read_ok (MBlob z n) = (length z < 2 ^ 31 \<and> n = 0)"
| "read_ok c = True"

lemma or_fits: "0 < n \<Longrightarrow> fits n a \<Longrightarrow> fits n b \<Longrightarrow> fits n (a OR b)" for a b :: int
proof (cases n)
  case (Suc m)
  have "signed_take_bit m (a OR b) = signed_take_bit m a OR signed_take_bit m b"
    by (rule bit_eqI) (auto simp: bit_simps)
  then show "fits n a \<Longrightarrow> fits n b \<Longrightarrow> fits n (a OR b)" by (simp add: Suc fits_bits)
qed simp

lemma neg_le_uint [simp]: "- numeral n \<le> uint a"
  by (rule order_trans [of _ 0]) simp_all

lemma byte_fits:
  "- 128 \<le> sint b" "sint b < 128" "0 \<le> uint b" "uint b < 256" for b :: u8
  using sint_ge [of b] sint_lt [of b] unsigned_less [of b, where ?'a = int] by simp_all

lemma read_int_fits:
  "ONE_BYTE_INT x = Inr i \<Longrightarrow> fits 64 i" "TWO_BYTE_INT x = Inr i \<Longrightarrow> fits 16 i"
  "THREE_BYTE_INT x = Inr i \<Longrightarrow> fits 64 i" "FOUR_BYTE_INT x = Inr i \<Longrightarrow> fits 64 i"
proof -
  have parts: "fits 64 (sint a)" "fits 16 (256 * sint a)" "fits 16 (uint a)" "fits 64 (65536 * sint a)"
    "fits 64 (16777216 * sint a)" "fits 64 (push_bit 8 (uint a))" "fits 64 (push_bit 16 (uint a))" "fits 64 (uint a)"
    for a :: u8
    using byte_fits [of a] by (simp_all add: fits_def push_bit_eq_mult)
  show "ONE_BYTE_INT x = Inr i \<Longrightarrow> fits 64 i" "TWO_BYTE_INT x = Inr i \<Longrightarrow> fits 16 i"
    "THREE_BYTE_INT x = Inr i \<Longrightarrow> fits 64 i" "FOUR_BYTE_INT x = Inr i \<Longrightarrow> fits 64 i"
    by (auto simp: ONE_BYTE_INT_def TWO_BYTE_INT_def THREE_BYTE_INT_def FOUR_BYTE_INT_def bind_res_eq_Inr
        intro!: or_fits parts)
qed

lemma serialGet_typed: "serialGet buf t = Inr m \<Longrightarrow> read_ok m"
proof -
  have "fits 64 (sint x)" for x :: u64 using sint_ge [of x] sint_lt [of x] by (simp add: fits_def)
  then show "serialGet buf t = Inr m \<Longrightarrow> read_ok m"
    by (auto simp: serialGet_def bind_res_eq_Inr Let_def split: if_splits)
qed

lemma six_byte_range: "0 \<le> a \<Longrightarrow> a < 2 ^ 32 \<Longrightarrow> fits 16 i \<Longrightarrow> fits 64 (a + 2 ^ 32 * i)" for a :: int
  by (simp add: fits_def)

lemma six_byte_fits: "TWO_BYTE_INT x = Inr i \<Longrightarrow> fits 64 (uint w + 2 ^ 32 * i)" for w :: u32
  by (intro six_byte_range read_int_fits(2)) (simp, rule order_less_le_trans [OF unsigned_less], simp)

lemma text_length: "unat ((t - 12) div 2) < 2 ^ 31" for t :: u32
proof -
  have "unat (t - 12) < 2 ^ 32" by (rule order_less_le_trans [OF unsigned_less]) simp
  then show ?thesis by (simp add: unat_div div_less_iff_less_mult)
qed

lemma serial_get_typed: "sqlite3VdbeSerialGet buf t = Inr m \<Longrightarrow> read_ok m"
  using text_length [of t] fits_mono [OF read_int_fits(2), of buf _ 64]
  by (auto simp: fits_def [of _ 0] fits_def [of _ 1] sqlite3VdbeSerialGet_def bind_res_eq_Inr Let_def min.strict_coboundedI2 split: if_splits
      intro: read_int_fits(1,3,4) serialGet_typed six_byte_fits [simplified])

lemma unpack_loop_typed:
  "unpack_loop left aKey nKey szHdr idx d ms = Inr (ms', d') \<Longrightarrow> list_all read_ok ms \<Longrightarrow>
   list_all read_ok ms' \<and> length ms' \<le> left + length ms"
proof (induction left arbitrary: idx d ms)
  case (Suc left)
  then show ?case
    by (auto simp: bind_res_eq_Inr split: if_splits dest!: serial_get_typed intro: Suc.IH)
      (fastforce dest!: serial_get_typed Suc.IH)+
qed auto

text \<open>C21. Reading is typed: from any bytes at all, damaged ones too, \<open>sqlite3VdbeRecordUnpack\<close>
  either loads outside the key or yields well-formed values, integers of 64 bits, no NaN, no
  integer in the place of a real, texts and blobs below 2 gigabytes, and never more than the number
  of fields asked for.\<close>

theorem unpack_typed:
  assumes "sqlite3VdbeRecordUnpack nField nKey aKey = Inr ms"
  shows "list_all read_ok ms \<and> length ms \<le> max 1 nField"
proof -
  obtain szHdr idx where hdr: "getVarint32 aKey = Inr (szHdr, idx)"
    using assms by (cases "getVarint32 aKey") (auto simp: sqlite3VdbeRecordUnpack_def)
  obtain ms' d where loop: "unpack_loop (max 1 nField) aKey nKey (unat szHdr) idx (unat szHdr) [] = Inr (ms', d)"
    using assms by (cases "unpack_loop (max 1 nField) aKey nKey (unat szHdr) idx (unat szHdr) []")
      (auto simp: sqlite3VdbeRecordUnpack_def hdr)
  have ms: "ms = rev (if d > nKey \<and> ms' \<noteq> [] then MNull False # tl ms' else ms')"
    using assms by (simp add: sqlite3VdbeRecordUnpack_def hdr loop del: One_nat_def)
  from unpack_loop_typed [OF loop] have "list_all read_ok ms'" "length ms' \<le> max 1 nField" by simp_all
  then show ?thesis by (cases ms') (auto simp: ms)
qed

theorem unpack_typed_witness:
  "sqlite3VdbeRecordUnpack 1 3 [2, 1, 255] = Inr [MInt (- 1)] \<and> list_all read_ok [MInt (- 1)]"
proof -
  have "sqlite3VdbeRecordUnpack 1 3 [2, 1, 255] = Inr [MInt (- 1)]"
    by (simp add: sqlite3VdbeRecordUnpack_def getVarint32_def sqlite3VdbeSerialGet_def
        ONE_BYTE_INT_def sqlite3VdbeSerialTypeLen_def small_sizes(2) [unfolded One_nat_def] word_le_nat_alt)
  then show ?thesis using unpack_typed [of 1 3 "[2, 1, 255]"] by simp
qed

end
