(* ===== verification/SqliteColumn.thy ===== *)
theory SqliteColumn
  imports SqliteRecord SqliteCtype
begin

unbundle bit_operations_syntax

text \<open>
  Reading a column of the current row (\<open>OP_Column\<close> of vdbe.c with \<open>vdbeColumnFromOverflow\<close>, inside
  components/Ledger/src/sqlite3.c).  The header of a row is parsed only as far as a column needs it,
  and what was parsed is kept in the cursor; long values behind the page are kept too.  Both caches
  are guarded by counters, and the theory shows that no run of column reads, cursor moves, writes and
  resumed statements ever yields anything but the column of the current row.

  The b-tree is the environment: where the cursor stands (the byte offset of the row in the
  database file), the payload of each row and how many of its bytes are on the page.  Its errors,
  deferred seeks and moved cursors, and the flags by which \<open>typeof\<close> and \<open>length\<close> skip the content,
  are not modelled.
\<close>

section \<open>State\<close>

text \<open>\<open>VdbeTxtBlbCache\<close>: a value longer than 4000 bytes that was not on the page.\<close>

record txt_cache =
  pCValue :: "u8 list"
  cOffset :: nat
  cCol :: nat
  cStatus :: u32
  cColCacheCtr :: u32

record column_cursor =
  cacheStatus :: u32
  aType :: "u32 list"
  aOffset :: "u32 list"
  nHdrParsed :: nat
  iHdrOffset :: nat
  aRow :: "u8 list option"
  szRow :: nat
  payloadSize :: nat
  pCache :: "txt_cache option"

text \<open>The cursor, the two counters of the statement, the rows by their place in the file (the
  payload and the number of its bytes on the page), and where the cursor stands.  A cursor on no row
  has no payload.\<close>

record column_state =
  cursor :: column_cursor
  cacheCtr :: u32
  colCacheCtr :: u32
  rows :: "nat \<Rightarrow> (u8 list \<times> nat) option"
  place :: nat

definition CACHE_STALE :: u32 where "CACHE_STALE = 0"

datatype column_result = Column mem_cell | Absent | Corrupt | ColumnTooBig | ColumnNoMem

section \<open>Operations\<close>

text \<open>The do-while loop over the header, for the field \<open>i\<close> and \<open>left\<close> more at most; \<open>zHdr\<close> and
  \<open>zEndHdr\<close> are offsets into \<open>zData\<close>.\<close>

fun read_header ::
  "nat \<Rightarrow> u8 list \<Rightarrow> nat \<Rightarrow> u32 list \<Rightarrow> u32 list \<Rightarrow> nat \<Rightarrow> nat \<Rightarrow> nat \<Rightarrow> (u32 list \<times> u32 list \<times> nat \<times> nat \<times> nat) res" where
  "read_header left zData zEndHdr types offsets i offset64 zHdr =
     bind_res (nth_res zData zHdr) (\<lambda>b.
     bind_res (if b < 0x80
               then bind_res (sqlite3VdbeOneByteSerialTypeLen b) (\<lambda>n. Inr (ucast b, zHdr + 1, offset64 + n))
               else bind_res (sqlite3GetVarint32 (drop zHdr zData)) (\<lambda>(t, n).
                    Inr (t, zHdr + n, offset64 + sqlite3VdbeSerialTypeLen t))) (\<lambda>(t, zHdr, offset64).
     bind_res (upd_res types i t) (\<lambda>types.
     bind_res (upd_res offsets (i + 1) (of_nat offset64)) (\<lambda>offsets.
     case left of
       0 \<Rightarrow> Inr (types, offsets, i + 1, offset64, zHdr)
     | Suc left \<Rightarrow>
         if zHdr < zEndHdr then read_header left zData zEndHdr types offsets (i + 1) offset64 zHdr
         else Inr (types, offsets, i + 1, offset64, zHdr)))))"

declare read_header.simps [simp del]

text \<open>From \<open>op_column_read_header\<close> on; the flag tells that the row is corrupt.\<close>

definition parse_header :: "u8 list \<Rightarrow> nat \<Rightarrow> column_cursor \<Rightarrow> (bool \<times> column_cursor) res" where
  "parse_header zData p2 c =
     bind_res (nth_res (aOffset c) 0) (\<lambda>hdr.
     bind_res (nth_res (aOffset c) (nHdrParsed c)) (\<lambda>start.
     bind_res (read_header (p2 - nHdrParsed c) zData (unat hdr) (aType c) (aOffset c) (nHdrParsed c) (unat start) (iHdrOffset c))
       (\<lambda>(types, offsets, i, offset64, zHdr).
     let c = c\<lparr>aType := types, aOffset := offsets\<rparr> in
     if zHdr \<ge> unat hdr \<and> (zHdr > unat hdr \<or> offset64 \<noteq> payloadSize c) \<or> offset64 > payloadSize c
     then if hdr = 0 then Inr (False, c\<lparr>nHdrParsed := 0, iHdrOffset := unat hdr\<rparr>) else Inr (True, c)
     else Inr (False, c\<lparr>nHdrParsed := i, iHdrOffset := zHdr\<rparr>))))"

definition current_row :: "column_state \<Rightarrow> (u8 list \<times> nat) res" where
  "current_row s = (case rows s (place s) of None \<Rightarrow> Inl NullDeref | Some r \<Rightarrow> Inr r)"

definition payload_at :: "column_state \<Rightarrow> nat \<Rightarrow> nat \<Rightarrow> u8 list res" where
  "payload_at s off amt =
     bind_res (current_row s) (\<lambda>(p, avail).
     if off + amt \<le> length p then Inr (take amt (drop off p)) else Inl OutOfBounds)"

definition text_or_blob :: "u32 \<Rightarrow> u8 list \<Rightarrow> mem_cell" where
  "text_or_blob t z = (if t AND 1 = 0 then MBlob z 0 else MStr z)"

definition vdbeColumnFromOverflow ::
  "bool \<Rightarrow> (nat \<Rightarrow> bool) \<Rightarrow> nat \<Rightarrow> nat \<Rightarrow> u32 \<Rightarrow> nat \<Rightarrow> column_state \<Rightarrow> (column_state \<times> column_result) res" where
  "vdbeColumnFromOverflow isTable mem limit iCol t iOffset s =
     (let len = sqlite3VdbeSerialTypeLen t in
      if len > limit then Inr (s, ColumnTooBig)
      else if len > 4000 \<and> isTable then
        (case pCache (cursor s) of
           Some k \<Rightarrow>
             if cCol k = iCol \<and> cStatus k = cacheCtr s \<and> cColCacheCtr k = colCacheCtr s \<and> cOffset k = place s
             then Inr (s, Column (text_or_blob t (take len (pCValue k))))
             else if \<not> mem (len + 3) then Inr (s\<lparr>cursor := (cursor s)\<lparr>pCache := None\<rparr>\<rparr>, ColumnNoMem)
             else bind_res (payload_at s iOffset len) (\<lambda>buf.
                  Inr (s\<lparr>cursor := (cursor s)\<lparr>pCache := Some \<lparr>pCValue = buf, cOffset = place s, cCol = iCol,
                         cStatus = cacheCtr s, cColCacheCtr = colCacheCtr s\<rparr>\<rparr>\<rparr>, Column (text_or_blob t buf)))
         | None \<Rightarrow>
             if \<not> mem (len + 3) then Inr (s, ColumnNoMem)
             else bind_res (payload_at s iOffset len) (\<lambda>buf.
                  Inr (s\<lparr>cursor := (cursor s)\<lparr>pCache := Some \<lparr>pCValue = buf, cOffset = place s, cCol = iCol,
                         cStatus = cacheCtr s, cColCacheCtr = colCacheCtr s\<rparr>\<rparr>\<rparr>, Column (text_or_blob t buf))))
      else if \<not> mem (len + 1) then Inr (s, ColumnNoMem)
      else bind_res (payload_at s iOffset len) (\<lambda>z.
           bind_res (sqlite3VdbeSerialGet (z @ [0]) t) (\<lambda>m. Inr (s, Column m))))"

text \<open>The content of a column whose type and offsets are known; \<open>szMalloc\<close> is the buffer that the
  destination register owns.\<close>

definition extract_column ::
  "bool \<Rightarrow> (nat \<Rightarrow> bool) \<Rightarrow> nat \<Rightarrow> nat \<Rightarrow> nat \<Rightarrow> column_state \<Rightarrow> (column_state \<times> column_result) res" where
  "extract_column isTable mem limit p2 szMalloc s =
     (let c = cursor s in
      bind_res (nth_res (aType c) p2) (\<lambda>t.
      bind_res (nth_res (aOffset c) p2) (\<lambda>off.
      bind_res (nth_res (aOffset c) (p2 + 1)) (\<lambda>next_off.
      if szRow c \<ge> unat next_off then
        (case aRow c of
           None \<Rightarrow> Inl NullDeref
         | Some row \<Rightarrow>
             let zData = drop (unat off) row in
             if t < 12 then bind_res (sqlite3VdbeSerialGet zData t) (\<lambda>m. Inr (s, Column m))
             else
               let len = unat ((t - 12) div 2) in
               if szMalloc < len + 2 \<and> len > limit then Inr (s, ColumnTooBig)
               else if szMalloc < len + 2 \<and> \<not> mem (len + 2) then Inr (s, ColumnNoMem)
               else if length zData < len then Inl OutOfBounds
               else Inr (s, Column (text_or_blob t (take len zData))))
      else if sqlite3VdbeSerialTypeLen t = 0 then
        bind_res (sqlite3VdbeSerialGet (map word_of_int sqlite3CtypeMap) t) (\<lambda>m. Inr (s, Column m))
      else vdbeColumnFromOverflow isTable mem limit p2 t (unat off) s))))"

text \<open>After the header was parsed.\<close>

definition column_content ::
  "bool \<Rightarrow> (nat \<Rightarrow> bool) \<Rightarrow> nat \<Rightarrow> nat \<Rightarrow> nat \<Rightarrow> column_state \<Rightarrow> (column_state \<times> column_result) res" where
  "column_content isTable mem limit p2 szMalloc s =
     (if nHdrParsed (cursor s) \<le> p2 then Inr (s, Absent) else extract_column isTable mem limit p2 szMalloc s)"

definition after_parse ::
  "bool \<Rightarrow> (nat \<Rightarrow> bool) \<Rightarrow> nat \<Rightarrow> nat \<Rightarrow> nat \<Rightarrow> column_state \<Rightarrow> (bool \<times> column_cursor) res \<Rightarrow>
   (column_state \<times> column_result) res" where
  "after_parse isTable mem limit p2 szMalloc s r =
     bind_res r (\<lambda>(corrupt, c).
       if corrupt then Inr (s\<lparr>cursor := c\<rparr>, Corrupt)
       else column_content isTable mem limit p2 szMalloc (s\<lparr>cursor := c\<rparr>))"

text \<open>The part every read goes through unless the row is new and its header on the page.\<close>

definition cached_column ::
  "bool \<Rightarrow> (nat \<Rightarrow> bool) \<Rightarrow> nat \<Rightarrow> nat \<Rightarrow> nat \<Rightarrow> column_state \<Rightarrow> (column_state \<times> column_result) res" where
  "cached_column isTable mem limit p2 szMalloc s =
     (let c = cursor s in
      if nHdrParsed c \<le> p2 then
        bind_res (nth_res (aOffset c) 0) (\<lambda>hdr.
        if iHdrOffset c < unat hdr then
          (case aRow c of
             Some row \<Rightarrow> after_parse isTable mem limit p2 szMalloc s (parse_header row p2 c)
           | None \<Rightarrow>
               bind_res (current_row s) (\<lambda>(payload, avail).
               if unat hdr \<le> avail
               then after_parse isTable mem limit p2 szMalloc s (parse_header (take avail payload) p2 c)
               else if \<not> mem (unat hdr + 1) then Inr (s, ColumnNoMem)
               else bind_res (payload_at s 0 (unat hdr)) (\<lambda>z.
                    after_parse isTable mem limit p2 szMalloc s (parse_header z p2 c))))
        else column_content isTable mem limit p2 szMalloc s)
      else extract_column isTable mem limit p2 szMalloc s)"

definition op_column ::
  "bool \<Rightarrow> (nat \<Rightarrow> bool) \<Rightarrow> nat \<Rightarrow> nat \<Rightarrow> nat \<Rightarrow> column_state \<Rightarrow> (column_state \<times> column_result) res" where
  "op_column isTable mem limit p2 szMalloc s =
     (if cacheStatus (cursor s) \<noteq> cacheCtr s then
        bind_res (current_row s) (\<lambda>(payload, avail).
        let row = take avail payload in
        bind_res (getVarint32 row) (\<lambda>(hdr, n).
        bind_res (upd_res (aOffset (cursor s)) 0 hdr) (\<lambda>offsets.
        let c = (cursor s)\<lparr>payloadSize := length payload, szRow := avail, aRow := Some row, cacheStatus := cacheCtr s,
                  aOffset := offsets, iHdrOffset := n, nHdrParsed := 0\<rparr> in
        if avail < unat hdr then
          let c = c\<lparr>aRow := None, szRow := 0\<rparr>; s = s\<lparr>cursor := c\<rparr> in
          if hdr > 98307 \<or> unat hdr > payloadSize c then Inr (s, Corrupt)
          else cached_column isTable mem limit p2 szMalloc s
        else after_parse isTable mem limit p2 szMalloc (s\<lparr>cursor := c\<rparr>) (parse_header row p2 c))))
      else cached_column isTable mem limit p2 szMalloc s)"

text \<open>What else happens to the caches: the cursor moves to another row, a statement writes rows, and
  a statement that returned a row is resumed, between which anything may have been written.\<close>

definition cursor_moved :: "nat \<Rightarrow> column_state \<Rightarrow> column_state" where
  "cursor_moved off s = s\<lparr>place := off, cursor := (cursor s)\<lparr>cacheStatus := CACHE_STALE\<rparr>\<rparr>"

definition row_written :: "(nat \<Rightarrow> (u8 list \<times> nat) option) \<Rightarrow> column_state \<Rightarrow> column_state" where
  "row_written rs s =
     s\<lparr>rows := rs, cursor := (cursor s)\<lparr>cacheStatus := CACHE_STALE\<rparr>, colCacheCtr := colCacheCtr s + 1\<rparr>"

definition statement_resumed :: "(nat \<Rightarrow> (u8 list \<times> nat) option) \<Rightarrow> column_state \<Rightarrow> column_state" where
  "statement_resumed rs s = s\<lparr>rows := rs, cacheCtr := (cacheCtr s + 2) OR 1, colCacheCtr := 0\<rparr>"


section \<open>Rows\<close>

text \<open>A row laid out as \<open>OP_MakeRecord\<close> leaves it, with the first bytes on the page, so many that the
  size of the header is among them.\<close>

definition row_ok :: "(int \<Rightarrow> u64) \<Rightarrow> nat \<Rightarrow> mem_cell list \<Rightarrow> (mem_cell \<times> u32) list \<Rightarrow> nat \<Rightarrow> u8 list \<times> nat \<Rightarrow> bool" where
  "row_ok dbl limit cs ts sz r \<longleftrightarrow>
     list_all2 (field_ok dbl) cs ts \<and> cs \<noteq> [] \<and> sz = varint_size (of_nat sz) + length (types_bytes ts) \<and> sz \<le> 98307 \<and>
     fst r = varint_bytes (of_nat sz) @ types_bytes ts @ full_bytes ts \<and> length (fst r) < 2 ^ 32 \<and>
     length (fst r) \<le> limit \<and> (snd r = length (fst r) \<or> 9 \<le> snd r \<and> snd r \<le> length (fst r))"

text \<open>How far the header was parsed, for the first \<open>k\<close> fields.\<close>

definition field_start :: "(mem_cell \<times> u32) list \<Rightarrow> nat \<Rightarrow> nat \<Rightarrow> nat" where
  "field_start ts sz j = sz + length (full_bytes (take j ts))"

definition header_start :: "(mem_cell \<times> u32) list \<Rightarrow> nat \<Rightarrow> nat \<Rightarrow> nat" where
  "header_start ts sz j = varint_size (of_nat sz) + length (types_bytes (take j ts))"

definition parsed :: "(mem_cell \<times> u32) list \<Rightarrow> nat \<Rightarrow> nat \<Rightarrow> u32 list \<Rightarrow> u32 list \<Rightarrow> bool" where
  "parsed ts sz k types offsets \<longleftrightarrow> k \<le> length ts \<and>
     (\<forall>j<k. types ! j = snd (ts ! j)) \<and> (\<forall>j\<le>k. offsets ! j = of_nat (field_start ts sz j))"

lemma take_parts:
  "i < length ts \<Longrightarrow> types_bytes (take (Suc i) ts) = types_bytes (take i ts) @ field_type (ts ! i)"
  "i < length ts \<Longrightarrow> full_bytes (take (Suc i) ts) = full_bytes (take i ts) @ field_full (ts ! i)"
  by (simp_all add: types_bytes_def full_bytes_def take_Suc_conv_app_nth)

lemma drop_types: "i < length ts \<Longrightarrow> types_bytes (drop i ts) = field_type (ts ! i) @ types_bytes (drop (Suc i) ts)"
  by (simp flip: Cons_nth_drop_Suc)

lemma starts_Suc:
  "i < length ts \<Longrightarrow> field_start ts sz (Suc i) = field_start ts sz i + length (field_full (ts ! i))"
  "i < length ts \<Longrightarrow> header_start ts sz (Suc i) = header_start ts sz i + length (field_type (ts ! i))"
  by (simp_all add: field_start_def header_start_def take_parts)

lemma header_start_less: "i < length ts \<Longrightarrow> header_start ts sz i < header_start ts sz (length ts)"
proof -
  assume i: "i < length ts"
  have "types_bytes ts = types_bytes (take i ts) @ types_bytes (drop i ts)"
    by (metis append_take_drop_id concat_append map_append types_bytes_def)
  then show ?thesis using i field_type_nonempty [of "ts ! i"] by (simp add: header_start_def drop_types)
qed

lemma unat_u32_u8 [simp]: "unat (ucast b :: u32) = unat b" for b :: u8
proof -
  have "unat b < 2 ^ 8" by (rule order_less_le_trans [OF unsigned_less]) simp
  then show ?thesis by (simp add: unsigned_ucast_eq take_bit_nat_eq_self)
qed

lemma parsed_Suc:
  assumes "parsed ts sz i types offsets" and "i < length ts" and "i < length types" and "length offsets = length types + 1"
  shows "parsed ts sz (Suc i) (types[i := snd (ts ! i)]) (offsets[Suc i := of_nat (field_start ts sz (Suc i))])"
proof -
  have "Suc i < length offsets" using assms(3,4) by simp
  then show ?thesis using assms by (auto simp: parsed_def nth_list_update less_Suc_eq le_Suc_eq)
qed

text \<open>One field of the header.\<close>

lemma read_header_field:
  assumes "drop zHdr zData = field_type (c, t) @ bs" and "sqlite3VdbeSerialTypeLen t = length (field_full (c, t))"
  shows "bind_res (nth_res zData zHdr) (\<lambda>b.
     bind_res (if b < 0x80
               then bind_res (sqlite3VdbeOneByteSerialTypeLen b) (\<lambda>n. Inr (ucast b, zHdr + 1, o64 + n))
               else bind_res (sqlite3GetVarint32 (drop zHdr zData)) (\<lambda>(t, n).
                    Inr (t, zHdr + n, o64 + sqlite3VdbeSerialTypeLen t))) f) =
    f (t, zHdr + length (field_type (c, t)), o64 + length (field_full (c, t)))"
proof -
  have ne: "drop zHdr zData \<noteq> []" using assms(1) field_type_nonempty [of "(c, t)"] by auto
  then have first: "nth_res zData zHdr = Inr (drop zHdr zData ! 0)" by (simp add: nth_res_def)
  have get: "getVarint32 (drop zHdr zData) = Inr (t, length (field_type (c, t)))"
    unfolding assms(1) by (rule read_field_type)
  show ?thesis
  proof (cases "drop zHdr zData ! 0 < 0x80")
    case True
    then have t: "t = ucast (drop zHdr zData ! 0)" and n: "length (field_type (c, t)) = 1"
      using get ne by (auto simp: getVarint32_def)
    have "t < 128" using True by (simp add: t word_less_nat_alt)
    moreover have "length sqlite3SmallTypeSizes = 128" by (simp add: sqlite3SmallTypeSizes_def)
    moreover have "unat t = unat (drop zHdr zData ! 0)" by (simp add: t)
    ultimately have "sqlite3VdbeOneByteSerialTypeLen (drop zHdr zData ! 0) = Inr (length (field_full (c, t)))"
      using assms(2) by (simp add: sqlite3VdbeOneByteSerialTypeLen_def sqlite3VdbeSerialTypeLen_def word_less_nat_alt word_le_nat_alt)
    then show ?thesis unfolding first using True n by (simp flip: t)
  next
    case False
    then have "sqlite3GetVarint32 (drop zHdr zData) = Inr (t, length (field_type (c, t)))"
      using get ne by (simp add: getVarint32_def)
    then show ?thesis unfolding first using False assms(2) by simp
  qed
qed

lemma read_header_ok:
  "list_all (\<lambda>ct. sqlite3VdbeSerialTypeLen (snd ct) = length (field_full ct)) ts \<Longrightarrow>
   parsed ts sz i types offsets \<Longrightarrow> i < length ts \<Longrightarrow> i + left < length types \<Longrightarrow> length offsets = length types + 1 \<Longrightarrow>
   drop (header_start ts sz i) zData = types_bytes (drop i ts) @ X \<Longrightarrow>
   \<exists>types' offsets'. read_header left zData (header_start ts sz (length ts)) types offsets i (field_start ts sz i) (header_start ts sz i)
      = Inr (types', offsets', min (i + left + 1) (length ts), field_start ts sz (min (i + left + 1) (length ts)),
             header_start ts sz (min (i + left + 1) (length ts))) \<and>
     parsed ts sz (min (i + left + 1) (length ts)) types' offsets' \<and>
     length types' = length types \<and> length offsets' = length offsets"
proof (induction left arbitrary: types offsets i)
  note step_defs = starts_Suc [symmetric] add.commute [of _ 1]
  case (0 types offsets i)
  have "drop (header_start ts sz i) zData = field_type (fst (ts ! i), snd (ts ! i)) @ types_bytes (drop (Suc i) ts) @ X"
    "sqlite3VdbeSerialTypeLen (snd (ts ! i)) = length (field_full (fst (ts ! i), snd (ts ! i)))"
    using 0 by (simp_all add: drop_types list_all_length)
  note field = read_header_field [OF this]
  show ?case using 0 parsed_Suc [OF 0(2,3)] by (subst read_header.simps) (simp add: field step_defs)
next
  case (Suc left types offsets i)
  note step_defs = starts_Suc [symmetric]
  let ?types = "types[i := snd (ts ! i)]" and ?offsets = "offsets[Suc i := of_nat (field_start ts sz (Suc i))]"
  have field: "drop (header_start ts sz i) zData = field_type (fst (ts ! i), snd (ts ! i)) @ types_bytes (drop (Suc i) ts) @ X"
    "sqlite3VdbeSerialTypeLen (snd (ts ! i)) = length (field_full (fst (ts ! i), snd (ts ! i)))"
    using Suc.prems by (simp_all add: drop_types list_all_length)
  have parsed': "parsed ts sz (Suc i) ?types ?offsets" using Suc.prems by (intro parsed_Suc) simp_all
  have step: "read_header (Suc left) zData (header_start ts sz (length ts)) types offsets i (field_start ts sz i) (header_start ts sz i) =
      (if header_start ts sz (Suc i) < header_start ts sz (length ts)
       then read_header left zData (header_start ts sz (length ts)) ?types ?offsets (Suc i) (field_start ts sz (Suc i)) (header_start ts sz (Suc i))
       else Inr (?types, ?offsets, Suc i, field_start ts sz (Suc i), header_start ts sz (Suc i)))"
    using Suc.prems by (subst read_header.simps) (simp add: read_header_field [OF field] step_defs)
  show ?case
  proof (cases "Suc i < length ts")
    case True
    have "drop (header_start ts sz (Suc i)) zData = types_bytes (drop (Suc i) ts) @ X"
      using Suc.prems(3) field(1) by (simp add: starts_Suc add.commute [of _ "length _"] flip: drop_drop)
    from Suc.IH [OF Suc.prems(1) parsed' True _ _ this] Suc.prems True header_start_less [OF True, of sz]
    show ?thesis by (simp add: step)
  next
    case False
    then have "Suc i = length ts" using Suc.prems(3) by simp
    then show ?thesis using parsed' by (simp add: step)
  qed
qed


section \<open>The header cache\<close>

definition cursor_ok :: "(mem_cell \<times> u32) list \<Rightarrow> nat \<Rightarrow> u8 list \<times> nat \<Rightarrow> column_cursor \<Rightarrow> bool" where
  "cursor_ok ts sz r c \<longleftrightarrow>
     parsed ts sz (nHdrParsed c) (aType c) (aOffset c) \<and> iHdrOffset c = header_start ts sz (nHdrParsed c) \<and>
     payloadSize c = length (fst r) \<and>
     aRow c = (if snd r < sz then None else Some (take (snd r) (fst r))) \<and> szRow c = (if snd r < sz then 0 else snd r)"

lemma row_ok_sizes:
  assumes "row_ok dbl limit cs ts sz r"
  shows "header_start ts sz (length ts) = sz" "field_start ts sz (length ts) = length (fst r)" "length ts = length cs"
    "drop (header_start ts sz i) (fst r) = types_bytes (drop i ts) @ full_bytes ts"
    "drop (field_start ts sz i) (fst r) = full_bytes (drop i ts)"
    "field_start ts sz j \<le> length (fst r)" "sz \<le> length (fst r)" "ts \<noteq> []"
    "list_all (\<lambda>ct. sqlite3VdbeSerialTypeLen (snd ct) = length (field_full ct)) ts"
proof -
  have sz: "sz = varint_size (of_nat sz) + length (types_bytes ts)" "list_all2 (field_ok dbl) cs ts"
      "fst r = varint_bytes (of_nat sz) @ types_bytes ts @ full_bytes ts" "cs \<noteq> []"
    using assms by (auto simp: row_ok_def)
  have split: "types_bytes ts = types_bytes (take k ts) @ types_bytes (drop k ts)"
    "full_bytes ts = full_bytes (take k ts) @ full_bytes (drop k ts)" for k
    by (metis append_take_drop_id concat_append map_append types_bytes_def,
        metis append_take_drop_id concat_append map_append full_bytes_def)
  have size: "length (fst r) = sz + length (full_bytes ts)"
    using sz(1) sz(3) by (simp add: length_varint_bytes)
  show "header_start ts sz (length ts) = sz" using sz(1) by (simp add: header_start_def)
  show "field_start ts sz (length ts) = length (fst r)" using size by (simp add: field_start_def)
  show "length ts = length cs" "ts \<noteq> []" using sz(2,4) by (auto dest: list_all2_lengthD)
  show "drop (header_start ts sz i) (fst r) = types_bytes (drop i ts) @ full_bytes ts"
    using drop_parts [of "varint_bytes (of_nat sz) @ types_bytes (take i ts)" "types_bytes (drop i ts) @ full_bytes ts"]
      split(1) [of i] unfolding sz(3) header_start_def by (simp add: length_varint_bytes)
  have "length (varint_bytes (of_nat sz)) + length (types_bytes ts) = sz" using sz(1) by (simp add: length_varint_bytes)
  then have "drop sz (fst r) = full_bytes ts"
    using drop_parts [of "varint_bytes (of_nat sz) @ types_bytes ts" "full_bytes ts"] unfolding sz(3) by simp
  then have "drop (field_start ts sz i) (fst r) = drop (length (full_bytes (take i ts))) (full_bytes ts)"
    by (metis add.commute drop_drop field_start_def)
  then show "drop (field_start ts sz i) (fst r) = full_bytes (drop i ts)"
    by (metis append_eq_conv_conj split(2))
  show "field_start ts sz j \<le> length (fst r)" "sz \<le> length (fst r)"
    using size full_bytes_take [of j ts] by (simp_all add: field_start_def)
  show "list_all (\<lambda>ct. sqlite3VdbeSerialTypeLen (snd ct) = length (field_full ct)) ts"
    using sz(2) by (auto simp: list_all_length list_all2_conv_all_nth field_ok_def)
qed

lemma field_start_u32: "row_ok dbl limit cs ts sz r \<Longrightarrow> unat (of_nat (field_start ts sz j) :: u32) = field_start ts sz j"
proof -
  assume row: "row_ok dbl limit cs ts sz r"
  then have "length (fst r) < 2 ^ 32" unfolding row_ok_def by blast
  then have "field_start ts sz j < 2 ^ 32" using row_ok_sizes(6) [OF row, of j] by simp
  then show ?thesis by (simp only: unat_of_nat) simp
qed

lemma parse_header_ok:
  assumes row: "row_ok dbl limit cs ts sz r" and c: "cursor_ok ts sz r c"
    and len: "length (aType c) = nF" "length (aOffset c) = nF + 1" and p2: "p2 < nF" "nHdrParsed c \<le> p2" "nHdrParsed c < length ts"
    and data: "drop (header_start ts sz (nHdrParsed c)) zData = types_bytes (drop (nHdrParsed c) ts) @ X"
  shows "\<exists>c'. parse_header zData p2 c = Inr (False, c') \<and> cursor_ok ts sz r c' \<and> nHdrParsed c' = min (p2 + 1) (length ts) \<and>
    length (aType c') = nF \<and> length (aOffset c') = nF + 1 \<and> cacheStatus c' = cacheStatus c \<and> pCache c' = pCache c"
proof -
  note sizes = row_ok_sizes [OF row]
  let ?i = "nHdrParsed c" and ?k = "min (p2 + 1) (length ts)"
  have parsed: "parsed ts sz ?i (aType c) (aOffset c)" and hdr: "iHdrOffset c = header_start ts sz ?i"
    and size: "payloadSize c = length (fst r)" using c by (auto simp: cursor_ok_def)
  have start: "aOffset c ! j = of_nat (field_start ts sz j)" if "j \<le> ?i" for j using parsed that by (simp add: parsed_def)
  have "field_start ts sz 0 = sz" by (simp add: field_start_def)
  then have sz: "unat (aOffset c ! 0) = sz" "unat (aOffset c ! ?i) = field_start ts sz ?i"
    using start [of 0] start [of ?i] field_start_u32 [OF row] by simp_all (metis field_start_u32 [OF row])
  have "?i + (p2 - ?i) + 1 = p2 + 1" using p2 by simp
  with read_header_ok [OF sizes(9) parsed p2(3) _ _ data, of "p2 - ?i"] obtain types offsets where
    loop: "read_header (p2 - ?i) zData sz (aType c) (aOffset c) ?i (field_start ts sz ?i) (header_start ts sz ?i) =
        Inr (types, offsets, ?k, field_start ts sz ?k, header_start ts sz ?k)"
      "parsed ts sz ?k types offsets" "length types = nF" "length offsets = nF + 1"
    using p2 len sizes(1) by (auto simp: min.commute)
  have last: "header_start ts sz ?k < sz \<or> ?k = length ts \<and> header_start ts sz ?k = sz \<and> field_start ts sz ?k = length (fst r)"
    using header_start_less [of ?k ts sz] sizes(1,2) by (cases "?k < length ts") auto
  let ?c' = "c\<lparr>aType := types, aOffset := offsets, nHdrParsed := ?k, iHdrOffset := header_start ts sz ?k\<rparr>"
  have "parse_header zData p2 c = Inr (False, ?c')"
    using p2 len last sizes(6) [of ?k] size by (auto simp: parse_header_def sz hdr loop(1))
  moreover have "cursor_ok ts sz r ?c'" using c loop(2) by (simp add: cursor_ok_def)
  ultimately show ?thesis using loop(3,4) by auto
qed


section \<open>The content\<close>

lemma text_get:
  assumes "12 \<le> t"
  shows "sqlite3VdbeSerialGet buf t = Inr (text_or_blob t (take (unat ((t - 12) div 2)) buf))"
    and "sqlite3VdbeSerialTypeLen t = unat ((t - 12) div 2)"
proof -
  have "t \<notin> set [0, 1, 2, 3, 4, 5, 6, 7, 8, 9, 10, 11]" using assms by (auto simp: word_le_nat_alt)
  then show "sqlite3VdbeSerialGet buf t = Inr (text_or_blob t (take (unat ((t - 12) div 2)) buf))"
    by (simp add: sqlite3VdbeSerialGet_def text_or_blob_def)
  show "sqlite3VdbeSerialTypeLen t = unat ((t - 12) div 2)"
    using assms by (auto simp: sqlite3VdbeSerialTypeLen_def word_le_nat_alt small_sizes_text unat_div unat_sub)
qed

text \<open>Where a column lies in the payload, and what is read there.\<close>

lemma column_at:
  assumes row: "row_ok dbl limit cs ts sz r" and p2: "p2 < length ts"
  defines "t \<equiv> snd (ts ! p2)" and "off \<equiv> field_start ts sz p2" and "full \<equiv> field_full (ts ! p2)"
  shows "drop off (fst r) = full @ full_bytes (drop (Suc p2) ts)"
    "off + length full = field_start ts sz (Suc p2)"
    "sqlite3VdbeSerialGet (full @ rest) t = Inr (stored dbl (cs ! p2))"
    "sqlite3VdbeSerialTypeLen t = length full" "length full \<le> limit"
proof -
  have ok: "field_ok dbl (cs ! p2) (ts ! p2)" using row p2 by (auto simp: row_ok_def list_all2_conv_all_nth)
  show "drop off (fst r) = full @ full_bytes (drop (Suc p2) ts)"
    using row_ok_sizes(5) [OF row, of p2] p2 unfolding off_def full_def by (simp flip: Cons_nth_drop_Suc)
  show next_off: "off + length full = field_start ts sz (Suc p2)"
    using p2 by (simp add: off_def full_def starts_Suc)
  show "sqlite3VdbeSerialGet (full @ rest) t = Inr (stored dbl (cs ! p2))" "sqlite3VdbeSerialTypeLen t = length full"
    using ok by (simp_all add: field_ok_def t_def full_def)
  have "length (fst r) \<le> limit" using row unfolding row_ok_def by blast
  then show "length full \<le> limit" using next_off row_ok_sizes(6) [OF row, of "Suc p2"] by simp
qed

lemma take_prefix: "drop off p = x @ y \<Longrightarrow> off + length x \<le> avail \<Longrightarrow>
    drop off (take avail p) = x @ take (avail - off - length x) y"
  by (simp add: drop_take)

text \<open>The cache of long values: stamped with the counters of its time, and right while they last.\<close>

definition txt_ok :: "(nat \<Rightarrow> (mem_cell \<times> u32) list) \<Rightarrow> column_state \<Rightarrow> bool" where
  "txt_ok T s \<longleftrightarrow> (case pCache (cursor s) of None \<Rightarrow> True | Some k \<Rightarrow>
     cStatus k \<le> cacheCtr s \<and> (cStatus k = cacheCtr s \<longrightarrow> cColCacheCtr k \<le> colCacheCtr s) \<and>
     (cStatus k = cacheCtr s \<and> cColCacheCtr k = colCacheCtr s \<and> rows s (cOffset k) \<noteq> None \<longrightarrow>
        cCol k < length (T (cOffset k)) \<longrightarrow> pCValue k = field_full (T (cOffset k) ! cCol k)))"

lemma small_type_len: "t < 12 \<Longrightarrow> sqlite3VdbeSerialTypeLen t \<le> 8"
proof -
  assume "t < 12"
  then have t: "unat t < 12" by (simp add: word_less_nat_alt)
  have "\<forall>k<12. sqlite3SmallTypeSizes ! k \<le> 8" by (simp add: sqlite3SmallTypeSizes_def all_less_numeral)
  with t show ?thesis by (simp add: sqlite3VdbeSerialTypeLen_def word_le_nat_alt)
qed

lemma overflow_ok:
  assumes row: "row_ok dbl limit cs (T (place s)) sz r" and r: "rows s (place s) = Some r" and p2: "p2 < length (T (place s))"
    and stamped: "txt_ok T s"
  shows "\<exists>cache. vdbeColumnFromOverflow isTable (\<lambda>_. True) limit p2 (snd (T (place s) ! p2)) (field_start (T (place s)) sz p2) s =
      Inr (s\<lparr>cursor := (cursor s)\<lparr>pCache := cache\<rparr>\<rparr>, Column (stored dbl (cs ! p2))) \<and>
    txt_ok T (s\<lparr>cursor := (cursor s)\<lparr>pCache := cache\<rparr>\<rparr>)"
proof -
  let ?ts = "T (place s)" let ?t = "snd (?ts ! p2)" and ?full = "field_full (?ts ! p2)" and ?off = "field_start ?ts sz p2"
  note at = column_at [OF row p2]
  obtain p avail where pa: "r = (p, avail)" by (cases r)
  have load: "payload_at s ?off (length ?full) = Inr ?full"
    using at(1,2) row_ok_sizes(6) [OF row, of "Suc p2"] by (simp add: payload_at_def current_row_def r pa)
  have long: "12 \<le> ?t" if "length ?full > 4000"
    using that at(4) small_type_len [of ?t] by (auto simp: not_le [symmetric])
  have cell: "text_or_blob ?t ?full = stored dbl (cs ! p2)" if "length ?full > 4000"
    using at(3) [of "[]"] at(4) text_get [OF long [OF that]] by simp
  show ?thesis
  proof (cases "length ?full > 4000 \<and> isTable")
    case False
    then have "vdbeColumnFromOverflow isTable (\<lambda>_. True) limit p2 ?t ?off s = Inr (s, Column (stored dbl (cs ! p2)))"
      using False at(5) load by (simp only: vdbeColumnFromOverflow_def Let_def at(4)) (simp add: at(3))
    then show ?thesis using stamped by (intro exI [of _ "pCache (cursor s)"]) simp
  next
    case True
    let ?k = "\<lparr>pCValue = ?full, cOffset = place s, cCol = p2, cStatus = cacheCtr s, cColCacheCtr = colCacheCtr s\<rparr>"
    have fill: "txt_ok T (s\<lparr>cursor := (cursor s)\<lparr>pCache := Some ?k\<rparr>\<rparr>)" by (simp add: txt_ok_def)
    show ?thesis
    proof (cases "\<exists>k. pCache (cursor s) = Some k \<and> cCol k = p2 \<and> cStatus k = cacheCtr s \<and> cColCacheCtr k = colCacheCtr s \<and>
        cOffset k = place s")
      case hit: True
      then obtain k where k: "pCache (cursor s) = Some k" "cCol k = p2" "cStatus k = cacheCtr s"
        "cColCacheCtr k = colCacheCtr s" "cOffset k = place s" by blast
      then have "pCValue k = ?full" using stamped r p2 by (simp add: txt_ok_def)
      then have "vdbeColumnFromOverflow isTable (\<lambda>_. True) limit p2 ?t ?off s = Inr (s, Column (stored dbl (cs ! p2)))"
        using True at(4,5) k cell by (simp add: vdbeColumnFromOverflow_def Let_def)
      then show ?thesis using stamped by (intro exI [of _ "pCache (cursor s)"]) simp
    next
      case False
      then show ?thesis using True at(4,5) load cell fill
        by (intro exI [of _ "Some ?k"]) (auto simp: vdbeColumnFromOverflow_def Let_def split: option.splits)
    qed
  qed
qed

lemma extract_ok:
  assumes row: "row_ok dbl limit cs (T (place s)) sz r" and r: "rows s (place s) = Some r"
    and c: "cursor_ok (T (place s)) sz r (cursor s)" and len: "length (aType (cursor s)) = nF" "length (aOffset (cursor s)) = nF + 1"
    and p2: "p2 < nHdrParsed (cursor s)" "p2 < nF" and stamped: "txt_ok T s"
  shows "\<exists>cache. extract_column isTable (\<lambda>_. True) limit p2 szMalloc s =
      Inr (s\<lparr>cursor := (cursor s)\<lparr>pCache := cache\<rparr>\<rparr>, Column (stored dbl (cs ! p2))) \<and>
    txt_ok T (s\<lparr>cursor := (cursor s)\<lparr>pCache := cache\<rparr>\<rparr>)"
proof -
  let ?ts = "T (place s)" let ?t = "snd (?ts ! p2)" and ?full = "field_full (?ts ! p2)" and ?off = "field_start ?ts sz p2"
  have parsed: "parsed ?ts sz (nHdrParsed (cursor s)) (aType (cursor s)) (aOffset (cursor s))"
    using c by (simp add: cursor_ok_def)
  then have p2ts: "p2 < length ?ts" and t: "aType (cursor s) ! p2 = ?t"
    and o: "aOffset (cursor s) ! p2 = of_nat ?off" "aOffset (cursor s) ! Suc p2 = of_nat (field_start ?ts sz (Suc p2))"
    using p2 by (auto simp: parsed_def)
  note at = column_at [OF row p2ts]
  note u = field_start_u32 [OF row]
  have idx: "p2 < length (aType (cursor s))" "p2 < length (aOffset (cursor s))" "Suc p2 < length (aOffset (cursor s))"
    using p2 len by simp_all
  note eqs = extract_column_def t o u idx
  consider (onpage) "field_start ?ts sz (Suc p2) \<le> szRow (cursor s)"
    | (empty) "\<not> field_start ?ts sz (Suc p2) \<le> szRow (cursor s)" "sqlite3VdbeSerialTypeLen ?t = 0"
    | (behind) "\<not> field_start ?ts sz (Suc p2) \<le> szRow (cursor s)" "sqlite3VdbeSerialTypeLen ?t \<noteq> 0" by blast
  then show ?thesis
  proof cases
    case onpage
    have "0 < sz" using row varint_size_bounds(1) [of "of_nat sz"] unfolding row_ok_def by linarith
    then have "\<not> snd r < sz" using onpage c by (auto simp: cursor_ok_def field_start_def)
    then have arow: "aRow (cursor s) = Some (take (snd r) (fst r))" and avail: "field_start ?ts sz (Suc p2) \<le> snd r"
      using c onpage by (auto simp: cursor_ok_def)
    obtain rest where z: "drop ?off (take (snd r) (fst r)) = ?full @ rest"
      using take_prefix [OF at(1)] at(2) avail by simp
    have "extract_column isTable (\<lambda>_. True) limit p2 szMalloc s = Inr (s, Column (stored dbl (cs ! p2)))"
    proof (cases "?t < 12")
      case True
      then show ?thesis using at(3) onpage by (simp add: eqs arow z Let_def)
    next
      case False
      then have t12: "12 \<le> ?t" by simp
      then show ?thesis using at(3) [of rest] at(4,5) False text_get [OF t12]
        by (simp add: eqs onpage arow z Let_def)
    qed
    then show ?thesis using stamped by (intro exI [of _ "pCache (cursor s)"]) simp
  next
    case empty
    then have "?full = []" using at(4) by simp
    then have "sqlite3VdbeSerialGet (map word_of_int sqlite3CtypeMap) ?t = Inr (stored dbl (cs ! p2))"
      using at(3) [of "map word_of_int sqlite3CtypeMap"] by simp
    then show ?thesis using stamped empty by (intro exI [of _ "pCache (cursor s)"]) (simp add: eqs)
  next
    case behind
    then show ?thesis using overflow_ok [OF row r p2ts stamped] by (simp add: eqs)
  qed
qed


text \<open>A read that went well: the value of the column, and a cursor as good as before.\<close>

definition column_done ::
  "(int \<Rightarrow> u64) \<Rightarrow> (nat \<Rightarrow> (mem_cell \<times> u32) list) \<Rightarrow> mem_cell list \<Rightarrow> nat \<Rightarrow> u8 list \<times> nat \<Rightarrow> nat \<Rightarrow> nat \<Rightarrow>
   column_state \<Rightarrow> (column_state \<times> column_result) res \<Rightarrow> bool" where
  "column_done dbl T cs sz r nF p2 s out \<longleftrightarrow>
     (\<exists>c. out = Inr (s\<lparr>cursor := c\<rparr>, if p2 < length cs then Column (stored dbl (cs ! p2)) else Absent) \<and>
        cursor_ok (T (place s)) sz r c \<and> length (aType c) = nF \<and> length (aOffset c) = nF + 1 \<and>
        cacheStatus c = cacheStatus (cursor s) \<and> txt_ok T (s\<lparr>cursor := c\<rparr>))"

lemma txt_ok_cursor: "pCache c = pCache (cursor s) \<Longrightarrow> txt_ok T (s\<lparr>cursor := c\<rparr>) = txt_ok T s"
  by (cases "pCache (cursor s)") (simp_all add: txt_ok_def)

lemma content_done:
  assumes row: "row_ok dbl limit cs (T (place s)) sz r" and r: "rows s (place s) = Some r"
    and c: "cursor_ok (T (place s)) sz r c" and len: "length (aType c) = nF" "length (aOffset c) = nF + 1"
    and p2: "p2 < nF" "p2 < nHdrParsed c \<or> nHdrParsed c = length cs" and same: "pCache c = pCache (cursor s)"
    and status: "cacheStatus c = cacheStatus (cursor s)" and stamped: "txt_ok T s"
  shows "column_done dbl T cs sz r nF p2 s (column_content isTable (\<lambda>_. True) limit p2 szMalloc (s\<lparr>cursor := c\<rparr>))"
    and "p2 < nHdrParsed c \<Longrightarrow>
      column_done dbl T cs sz r nF p2 s (extract_column isTable (\<lambda>_. True) limit p2 szMalloc (s\<lparr>cursor := c\<rparr>))"
proof -
  have stamped': "txt_ok T (s\<lparr>cursor := c\<rparr>)" using stamped same by (simp add: txt_ok_cursor)
  have le: "nHdrParsed c \<le> length cs"
    using c row_ok_sizes(3) [OF row] by (simp add: cursor_ok_def parsed_def)
  show extracted: "column_done dbl T cs sz r nF p2 s (extract_column isTable (\<lambda>_. True) limit p2 szMalloc (s\<lparr>cursor := c\<rparr>))"
    if p: "p2 < nHdrParsed c"
  proof -
    have "\<exists>cache. extract_column isTable (\<lambda>_. True) limit p2 szMalloc (s\<lparr>cursor := c\<rparr>) =
        Inr (s\<lparr>cursor := c\<lparr>pCache := cache\<rparr>\<rparr>, Column (stored dbl (cs ! p2))) \<and> txt_ok T (s\<lparr>cursor := c\<lparr>pCache := cache\<rparr>\<rparr>)"
      using extract_ok [of dbl limit cs T "s\<lparr>cursor := c\<rparr>" sz r nF p2 isTable szMalloc] row r c len p p2(1) stamped' by simp
    then obtain cache where "extract_column isTable (\<lambda>_. True) limit p2 szMalloc (s\<lparr>cursor := c\<rparr>) =
        Inr (s\<lparr>cursor := c\<lparr>pCache := cache\<rparr>\<rparr>, Column (stored dbl (cs ! p2)))" "txt_ok T (s\<lparr>cursor := c\<lparr>pCache := cache\<rparr>\<rparr>)"
      by blast
    then show ?thesis using c len p le status unfolding column_done_def
      by (intro exI [of _ "c\<lparr>pCache := cache\<rparr>"]) (simp add: cursor_ok_def)
  qed
  show "column_done dbl T cs sz r nF p2 s (column_content isTable (\<lambda>_. True) limit p2 szMalloc (s\<lparr>cursor := c\<rparr>))"
  proof (cases "p2 < nHdrParsed c")
    case True
    then show ?thesis using extracted by (simp add: column_content_def)
  next
    case False
    then show ?thesis using p2 c len status stamped'
      by (auto simp: column_content_def column_done_def)
  qed
qed

lemma after_parse_done:
  assumes row: "row_ok dbl limit cs (T (place s)) sz r" and r: "rows s (place s) = Some r"
    and c: "cursor_ok (T (place s)) sz r (cursor s)" and len: "length (aType (cursor s)) = nF" "length (aOffset (cursor s)) = nF + 1"
    and p2: "p2 < nF" "nHdrParsed (cursor s) \<le> p2" "nHdrParsed (cursor s) < length cs" and stamped: "txt_ok T s"
    and data: "drop (header_start (T (place s)) sz (nHdrParsed (cursor s))) zData =
      types_bytes (drop (nHdrParsed (cursor s)) (T (place s))) @ X"
  shows "column_done dbl T cs sz r nF p2 s
    (after_parse isTable (\<lambda>_. True) limit p2 szMalloc s (parse_header zData p2 (cursor s)))"
proof -
  obtain c' where "parse_header zData p2 (cursor s) = Inr (False, c')" "cursor_ok (T (place s)) sz r c'"
    "nHdrParsed c' = min (p2 + 1) (length cs)" "length (aType c') = nF" "length (aOffset c') = nF + 1"
    "cacheStatus c' = cacheStatus (cursor s)" "pCache c' = pCache (cursor s)"
    using parse_header_ok [OF row c len p2(1,2) _ data] p2(3) row_ok_sizes(3) [OF row] by auto
  then show ?thesis using content_done(1) [where T = T and s = s, OF row r, of c'] p2 stamped by (auto simp: after_parse_def min_def)
qed

text \<open>Where the rest of the header is read from.\<close>

lemma header_data:
  assumes row: "row_ok dbl limit cs (T (place s)) sz r" and r: "rows s (place s) = Some r"
    and le: "header_start (T (place s)) sz i \<le> n" "sz \<le> n"
  shows "\<exists>X. drop (header_start (T (place s)) sz i) (take n (fst r)) = types_bytes (drop i (T (place s))) @ X"
proof -
  have "types_bytes (T (place s)) = types_bytes (take i (T (place s))) @ types_bytes (drop i (T (place s)))"
    by (metis append_take_drop_id concat_append map_append types_bytes_def)
  then have "header_start (T (place s)) sz i + length (types_bytes (drop i (T (place s)))) = sz"
    using row_ok_sizes(1) [OF row] by (simp add: header_start_def)
  then have "header_start (T (place s)) sz i + length (types_bytes (drop i (T (place s)))) \<le> n" using le by simp
  from take_prefix [OF row_ok_sizes(4) [OF row] this] show ?thesis by blast
qed

lemma cached_done:
  assumes row: "row_ok dbl limit cs (T (place s)) sz r" and r: "rows s (place s) = Some r"
    and c: "cursor_ok (T (place s)) sz r (cursor s)" and len: "length (aType (cursor s)) = nF" "length (aOffset (cursor s)) = nF + 1"
    and p2: "p2 < nF" and stamped: "txt_ok T s"
  shows "column_done dbl T cs sz r nF p2 s (cached_column isTable (\<lambda>_. True) limit p2 szMalloc s)"
proof -
  let ?ts = "T (place s)" let ?i = "nHdrParsed (cursor s)"
  obtain payload avail where pa: "r = (payload, avail)" by (cases r)
  have parsed: "parsed ?ts sz ?i (aType (cursor s)) (aOffset (cursor s))" and hdr: "iHdrOffset (cursor s) = header_start ?ts sz ?i"
    and arow: "aRow (cursor s) = (if snd r < sz then None else Some (take (snd r) (fst r)))" using c by (auto simp: cursor_ok_def)
  have sz: "unat (aOffset (cursor s) ! 0) = sz"
    using parsed field_start_u32 [OF row, of 0] by (simp add: parsed_def field_start_def)
  have lts: "length ?ts = length cs" using row_ok_sizes(3) [OF row] .
  have i: "?i < length cs \<and> header_start ?ts sz ?i < sz \<or> ?i = length cs \<and> header_start ?ts sz ?i = sz"
    using parsed header_start_less [of ?i ?ts sz] row_ok_sizes(1) [OF row] lts
    by (cases "?i < length cs") (auto simp: parsed_def)
  show ?thesis
  proof (cases "?i \<le> p2")
    case False
    then show ?thesis using content_done(2) [where T = T and s = s, OF row r c len p2 _ refl refl stamped] by (simp add: cached_column_def)
  next
    case le: True
    show ?thesis
    proof (cases "?i < length cs")
      case False
      then have "?i = length cs" "header_start ?ts sz (length cs) = sz" using i by auto
      then show ?thesis using content_done(1) [where T = T and s = s, OF row r c len p2 _ refl refl stamped] le len sz hdr
        by (simp add: cached_column_def Let_def)
    next
      case True
      then have lt: "header_start ?ts sz ?i < sz" using i by simp
      note parse = after_parse_done [where T = T and s = s, OF row r c len p2 le True stamped]
      show ?thesis
      proof (cases "snd r < sz")
        case False
        then show ?thesis using parse header_data [where T = T and s = s, OF row r, of ?i "snd r"] lt len le arow
          by (auto simp: cached_column_def sz hdr Let_def)
      next
        case True
        have "payload_at s 0 sz = Inr (take sz (fst r))"
          using row_ok_sizes(7) [OF row] by (simp add: payload_at_def current_row_def r pa)
        then show ?thesis using True parse header_data [where T = T and s = s, OF row r, of ?i sz] lt len le arow pa
          by (auto simp: cached_column_def sz hdr current_row_def r Let_def)
      qed
    qed
  qed
qed

lemma op_column_done:
  assumes row: "row_ok dbl limit cs (T (place s)) sz r" and r: "rows s (place s) = Some r"
    and len: "length (aType (cursor s)) = nF" "length (aOffset (cursor s)) = nF + 1"
    and p2: "p2 < nF" and stamped: "txt_ok T s"
    and c: "cacheStatus (cursor s) = cacheCtr s \<Longrightarrow> cursor_ok (T (place s)) sz r (cursor s)"
  shows "column_done dbl T cs sz r nF p2 (s\<lparr>cursor := (cursor s)\<lparr>cacheStatus := cacheCtr s\<rparr>\<rparr>)
    (op_column isTable (\<lambda>_. True) limit p2 szMalloc s)"
proof (cases "cacheStatus (cursor s) = cacheCtr s")
  case True
  have same: "s\<lparr>cursor := (cursor s)\<lparr>cacheStatus := cacheCtr s\<rparr>\<rparr> = s" by (simp flip: True)
  show ?thesis unfolding same
    using cached_done [where T = T and s = s, OF row r c [OF True] len p2 stamped] True by (simp add: op_column_def)
next
  case stale: False
  obtain payload avail where pa: "r = (payload, avail)" by (cases r)
  have sz: "sz \<le> 98307" "sz = varint_size (of_nat sz) + length (types_bytes (T (place s)))"
    and payload: "fst r = varint_bytes (of_nat sz) @ types_bytes (T (place s)) @ full_bytes (T (place s))"
    and enough: "snd r = length (fst r) \<or> 9 \<le> snd r" "cs \<noteq> []"
    using row unfolding row_ok_def by blast+
  have usz: "unat (of_nat sz :: u32) = sz" using sz(1) by (simp only: unat_of_nat) simp
  have first: "getVarint32 (take avail payload) = Inr (of_nat sz, varint_size (of_nat sz))"
  proof -
    have "varint_size (of_nat sz) \<le> avail"
      using enough(1) varint_size_bounds(2) [of "of_nat sz"] payload by (auto simp: pa length_varint_bytes)
    then obtain rest where "take avail payload = varint_bytes (of_nat sz) @ rest"
      using payload by (auto simp: pa length_varint_bytes)
    moreover have "unat (of_nat sz :: u64) = sz" using sz(1) by (simp only: unat_of_nat) simp
    moreover have "ucast (of_nat sz :: u64) = (of_nat sz :: u32)" by (rule bit_word_eqI) (auto simp: bit_simps)
    ultimately show ?thesis using getVarint32_bytes [of "of_nat sz" rest] sz(1) by simp
  qed
  define c0 where "c0 = (cursor s)\<lparr>payloadSize := length payload, szRow := avail, aRow := Some (take avail payload),
    cacheStatus := cacheCtr s, aOffset := (aOffset (cursor s))[0 := of_nat sz], iHdrOffset := varint_size (of_nat sz), nHdrParsed := 0\<rparr>"
  define c1 where "c1 = (if avail < sz then c0\<lparr>aRow := None, szRow := 0\<rparr> else c0)"
  let ?s1 = "s\<lparr>cursor := c1\<rparr>"
  have ok: "cursor_ok (T (place ?s1)) sz r (cursor ?s1)"
    using len by (simp add: cursor_ok_def parsed_def header_start_def field_start_def c1_def c0_def pa)
  have lens: "length (aType (cursor ?s1)) = nF" "length (aOffset (cursor ?s1)) = nF + 1" "nHdrParsed c1 = 0"
    "cacheStatus c1 = cacheCtr s" using len by (simp_all add: c1_def c0_def)
  have stamped1: "txt_ok T ?s1" using stamped by (simp add: txt_ok_cursor c1_def c0_def)
  have row1: "row_ok dbl limit cs (T (place ?s1)) sz r" "rows ?s1 (place ?s1) = Some r" using row r by simp_all
  have read: "column_done dbl T cs sz r nF p2 ?s1 (op_column isTable (\<lambda>_. True) limit p2 szMalloc s)"
  proof (cases "avail < sz")
    case True
    have "op_column isTable (\<lambda>_. True) limit p2 szMalloc s = cached_column isTable (\<lambda>_. True) limit p2 szMalloc ?s1"
      using stale True sz(1) usz len row_ok_sizes(7) [OF row]
      by (simp add: op_column_def current_row_def r pa first c1_def c0_def word_less_nat_alt)
    then show ?thesis using cached_done [where T = T and s = ?s1, OF row1 ok lens(1,2) p2 stamped1] by simp
  next
    case False
    have op: "op_column isTable (\<lambda>_. True) limit p2 szMalloc s =
        after_parse isTable (\<lambda>_. True) limit p2 szMalloc ?s1 (parse_header (take avail payload) p2 (cursor ?s1))"
      using stale False usz len
      by (simp add: op_column_def current_row_def r pa first c1_def c0_def Let_def)
    obtain X where "drop (header_start (T (place s)) sz 0) (take avail (fst r)) = types_bytes (drop 0 (T (place s))) @ X"
      using header_data [where T = T and s = s, OF row r, of 0 avail] sz(2) False by (auto simp: header_start_def)
    then show ?thesis unfolding op using lens(3) enough(2)
      by (intro after_parse_done [where T = T and s = ?s1, OF row1 ok lens(1,2) p2 _ _ stamped1]) (simp_all add: pa)
  qed
  then show ?thesis using lens(4) by (simp add: column_done_def)
qed

section \<open>Any run of reads\<close>

text \<open>Rows as \<open>OP_MakeRecord\<close> makes them, no longer than the limit on values and with at most
  \<open>SQLITE_MAX_COLUMN\<close> columns, stored so that a page holds all of the row or its first nine bytes.\<close>

definition SQLITE_MAX_COLUMN :: nat where "SQLITE_MAX_COLUMN = 2000"

definition made_row :: "(int \<Rightarrow> u64) \<Rightarrow> nat \<Rightarrow> mem_cell list \<Rightarrow> u8 list \<times> nat \<Rightarrow> bool" where
  "made_row dbl limit cs r \<longleftrightarrow>
     (\<exists>mem ff szMalloc fill buf n. op_make_record dbl mem ff szMalloc limit fill cs = Inr (Made buf n) \<and>
        fst r = buf @ replicate n 0) \<and>
     list_all cell_ok cs \<and> cs \<noteq> [] \<and> length cs \<le> SQLITE_MAX_COLUMN \<and> length (fst r) \<le> limit \<and>
     (snd r = length (fst r) \<or> 9 \<le> snd r \<and> snd r \<le> length (fst r))"

definition rows_ok :: "(int \<Rightarrow> u64) \<Rightarrow> nat \<Rightarrow> (nat \<Rightarrow> mem_cell list) \<Rightarrow> (nat \<Rightarrow> (u8 list \<times> nat) option) \<Rightarrow> bool" where
  "rows_ok dbl limit R rs \<longleftrightarrow> (\<forall>p r. rs p = Some r \<longrightarrow> made_row dbl limit (R p) r)"

lemma made_row_ok:
  assumes "made_row dbl limit cs r" and "limit < 2 ^ 32"
  shows "\<exists>ts sz. row_ok dbl limit cs ts sz r"
proof -
  obtain mem ff szMalloc fill buf n where make: "op_make_record dbl mem ff szMalloc limit fill cs = Inr (Made buf n)"
    and r: "fst r = buf @ replicate n 0" using assms(1) unfolding made_row_def by blast
  have cs: "list_all cell_ok cs" "cs \<noteq> []" "length cs \<le> 2000" "length (fst r) \<le> limit"
    "snd r = length (fst r) \<or> 9 \<le> snd r \<and> snd r \<le> length (fst r)"
    using assms(1) unfolding made_row_def SQLITE_MAX_COLUMN_def by blast+
  obtain ts h d z where pass: "size_pass dbl mem ff cs = Some (ts, h, d, z)"
    using make by (cases "size_pass dbl mem ff cs") (auto simp: op_make_record_def)
  have len28: "length cs < 2 ^ 28" using cs(3) by simp
  note layout = make_record_layout [OF cs(1) len28 pass]
  have buf: "buf = varint_bytes (of_nat (header_size h)) @ types_bytes ts @ data_bytes ts" "n = z"
    using make unfolding layout(1) by (auto split: if_splits)
  have parts: "data_bytes ts @ replicate z 0 = full_bytes ts" "list_all2 (field_ok dbl) cs ts"
    using size_pass_ok [OF cs(1) pass] by auto
  have "header_size h \<le> 98307"
    using layout(2) types_bytes_bound [of ts] list_all2_lengthD [OF parts(2)] cs(3)
      varint_size_bounds(2) [of "of_nat (header_size h)"] by simp
  then have "row_ok dbl limit cs ts (header_size h) r"
    unfolding row_ok_def using cs assms(2) layout(2) parts by (simp add: r buf)
  then show ?thesis by blast
qed


datatype column_op =
    ReadColumn nat nat
  | MoveCursor nat
  | WriteRows "nat \<Rightarrow> (u8 list \<times> nat) option" "nat \<Rightarrow> mem_cell list"
  | ResumeStatement "nat \<Rightarrow> (u8 list \<times> nat) option" "nat \<Rightarrow> mem_cell list"

fun column_step :: "bool \<Rightarrow> nat \<Rightarrow> column_state \<Rightarrow> column_op \<Rightarrow> (column_state \<times> column_result option) res" where
  "column_step isTable limit s (ReadColumn p2 szMalloc) =
     bind_res (op_column isTable (\<lambda>_. True) limit p2 szMalloc s) (\<lambda>(s, r). Inr (s, Some r))"
| "column_step isTable limit s (MoveCursor p) = Inr (cursor_moved p s, None)"
| "column_step isTable limit s (WriteRows rs R) = Inr (row_written rs s, None)"
| "column_step isTable limit s (ResumeStatement rs R) = Inr (statement_resumed rs s, None)"

text \<open>What a caller keeps to: columns below the number of fields of the cursor, read while the cursor
  stands on a row; rows made by \<open>OP_MakeRecord\<close>; and no counter wraps around.\<close>

fun column_allowed :: "(int \<Rightarrow> u64) \<Rightarrow> nat \<Rightarrow> nat \<Rightarrow> column_state \<Rightarrow> column_op \<Rightarrow> bool" where
  "column_allowed dbl limit nF s (ReadColumn p2 szMalloc) \<longleftrightarrow> p2 < nF \<and> rows s (place s) \<noteq> None"
| "column_allowed dbl limit nF s (MoveCursor p) \<longleftrightarrow> True"
| "column_allowed dbl limit nF s (WriteRows rs R) \<longleftrightarrow> rows_ok dbl limit R rs \<and> colCacheCtr s < colCacheCtr s + 1"
| "column_allowed dbl limit nF s (ResumeStatement rs R) \<longleftrightarrow>
     rows_ok dbl limit R rs \<and> cacheCtr s < (cacheCtr s + 2) OR 1"

text \<open>The promise: the rows as lists of values, and where the cursor stands.\<close>

fun column_spec :: "(int \<Rightarrow> u64) \<Rightarrow> (nat \<Rightarrow> mem_cell list) \<times> nat \<Rightarrow> column_op \<Rightarrow>
    ((nat \<Rightarrow> mem_cell list) \<times> nat) \<times> column_result option" where
  "column_spec dbl (R, p) (ReadColumn p2 szMalloc) =
     ((R, p), Some (if p2 < length (R p) then Column (stored dbl (R p ! p2)) else Absent))"
| "column_spec dbl (R, p) (MoveCursor q) = ((R, q), None)"
| "column_spec dbl (R, p) (WriteRows rs R') = ((R', p), None)"
| "column_spec dbl (R, p) (ResumeStatement rs R') = ((R', p), None)"

definition laid_out :: "(int \<Rightarrow> u64) \<Rightarrow> nat \<Rightarrow> (nat \<Rightarrow> mem_cell list) \<Rightarrow> (nat \<Rightarrow> (mem_cell \<times> u32) list) \<Rightarrow> (nat \<Rightarrow> nat) \<Rightarrow>
    (nat \<Rightarrow> (u8 list \<times> nat) option) \<Rightarrow> bool" where
  "laid_out dbl limit R T Z rs \<longleftrightarrow> (\<forall>p r. rs p = Some r \<longrightarrow> row_ok dbl limit (R p) (T p) (Z p) r)"

definition column_repr :: "(int \<Rightarrow> u64) \<Rightarrow> nat \<Rightarrow> nat \<Rightarrow> column_state \<Rightarrow> (nat \<Rightarrow> mem_cell list) \<times> nat \<Rightarrow> bool" where
  "column_repr dbl limit nF s m \<longleftrightarrow>
     place s = snd m \<and> length (aType (cursor s)) = nF \<and> length (aOffset (cursor s)) = nF + 1 \<and>
     cacheStatus (cursor s) \<le> cacheCtr s \<and> cacheCtr s \<noteq> CACHE_STALE \<and>
     (\<exists>T Z. laid_out dbl limit (fst m) T Z (rows s) \<and> txt_ok T s \<and>
        (cacheStatus (cursor s) = cacheCtr s \<longrightarrow>
           (\<forall>r. rows s (place s) = Some r \<longrightarrow> cursor_ok (T (place s)) (Z (place s)) r (cursor s))))"

lemma rows_laid_out:
  assumes "rows_ok dbl limit R rs" and "limit < 2 ^ 32"
  shows "\<exists>T Z. laid_out dbl limit R T Z rs"
proof -
  have "\<forall>p. \<exists>ts sz. \<forall>r. rs p = Some r \<longrightarrow> row_ok dbl limit (R p) ts sz r"
  proof
    fix p
    show "\<exists>ts sz. \<forall>r. rs p = Some r \<longrightarrow> row_ok dbl limit (R p) ts sz r"
    proof (cases "rs p")
      case (Some r)
      then have "made_row dbl limit (R p) r" using assms(1) unfolding rows_ok_def by blast
      from made_row_ok [OF this assms(2)] show ?thesis using Some by simp
    qed simp
  qed
  then obtain T where "\<forall>p. \<exists>sz. \<forall>r. rs p = Some r \<longrightarrow> row_ok dbl limit (R p) (T p) sz r" by metis
  then obtain Z where "\<forall>p r. rs p = Some r \<longrightarrow> row_ok dbl limit (R p) (T p) (Z p) r" by metis
  then show ?thesis unfolding laid_out_def by blast
qed

lemma read_simulates:
  assumes repr: "column_repr dbl limit nF s (R, p)" and ok: "column_allowed dbl limit nF s (ReadColumn p2 szMalloc)"
  shows "\<exists>s'. column_step isTable limit s (ReadColumn p2 szMalloc) = Inr (s', snd (column_spec dbl (R, p) (ReadColumn p2 szMalloc))) \<and>
    column_repr dbl limit nF s' (R, p)"
proof -
  obtain r where r: "rows s (place s) = Some r" using ok by auto
  obtain T Z where T: "laid_out dbl limit R T Z (rows s)" "txt_ok T s"
      "cacheStatus (cursor s) = cacheCtr s \<longrightarrow> cursor_ok (T (place s)) (Z (place s)) r (cursor s)"
    using repr r unfolding column_repr_def by auto
  have len: "length (aType (cursor s)) = nF" "length (aOffset (cursor s)) = nF + 1" and p: "place s = p"
    and stale: "cacheCtr s \<noteq> CACHE_STALE" using repr by (auto simp: column_repr_def)
  have row: "row_ok dbl limit (R p) (T (place s)) (Z (place s)) r" using T(1) r p unfolding laid_out_def by blast
  have "column_done dbl T (R p) (Z (place s)) r nF p2 (s\<lparr>cursor := (cursor s)\<lparr>cacheStatus := cacheCtr s\<rparr>\<rparr>)
      (op_column isTable (\<lambda>_. True) limit p2 szMalloc s)"
    using op_column_done [where T = T and s = s, OF row r len _ T(2)] T(3) ok by simp
  then obtain c where c: "op_column isTable (\<lambda>_. True) limit p2 szMalloc s =
      Inr (s\<lparr>cursor := c\<rparr>, if p2 < length (R p) then Column (stored dbl (R p ! p2)) else Absent)"
    "cursor_ok (T (place s)) (Z (place s)) r c" "length (aType c) = nF" "length (aOffset c) = nF + 1"
    "cacheStatus c = cacheCtr s" "txt_ok T (s\<lparr>cursor := c\<rparr>)"
    by (auto simp: column_done_def)
  then have "column_repr dbl limit nF (s\<lparr>cursor := c\<rparr>) (R, p)"
    unfolding column_repr_def using T(1) r p stale by (auto intro!: exI [of _ T] exI [of _ Z])
  with c(1) show ?thesis by simp
qed

lemma write_simulates:
  assumes repr: "column_repr dbl limit nF s (R, p)" and rs: "rows_ok dbl limit R' rs" and limit: "limit < 2 ^ 32"
    and s': "place s' = place s" "rows s' = rs" "aType (cursor s') = aType (cursor s)" "aOffset (cursor s') = aOffset (cursor s)"
      "pCache (cursor s') = pCache (cursor s)" "cacheStatus (cursor s') < cacheCtr s'"
    and newer: "cacheCtr s < cacheCtr s' \<or> cacheCtr s = cacheCtr s' \<and> colCacheCtr s < colCacheCtr s'"
  shows "column_repr dbl limit nF s' (R', p)"
proof -
  obtain T Z where T: "laid_out dbl limit R' T Z rs" using rows_laid_out [OF rs limit] by blast
  obtain T0 where "txt_ok T0 s" using repr unfolding column_repr_def by blast
  then have "txt_ok T s'" using newer s'(5) by (cases "pCache (cursor s)") (auto simp: txt_ok_def)
  moreover have "cacheCtr s' \<noteq> CACHE_STALE" using s'(6) by (auto simp: CACHE_STALE_def)
  ultimately show ?thesis using repr s' T unfolding column_repr_def
    by (auto intro!: exI [of _ T] exI [of _ Z])
qed

lemma column_simulates:
  assumes repr: "column_repr dbl limit nF s m" and ok: "column_allowed dbl limit nF s c" and limit: "limit < 2 ^ 32"
  shows "\<exists>s'. column_step isTable limit s c = Inr (s', snd (column_spec dbl m c)) \<and>
    column_repr dbl limit nF s' (fst (column_spec dbl m c))"
proof -
  obtain R p where m: "m = (R, p)" by (cases m)
  have le: "cacheStatus (cursor s) \<le> cacheCtr s" "cacheCtr s \<noteq> 0" using repr by (auto simp: column_repr_def CACHE_STALE_def)
  show ?thesis
  proof (cases c)
    case (ReadColumn p2 szMalloc)
    then show ?thesis using read_simulates [of dbl limit nF s R p p2 szMalloc isTable] repr ok by (simp add: m)
  next
    case (MoveCursor q)
    obtain T Z where "laid_out dbl limit R T Z (rows s)" "txt_ok T s" using repr unfolding column_repr_def m by auto
    moreover from this have "txt_ok T (cursor_moved q s)"
      by (cases "pCache (cursor s)") (simp_all add: txt_ok_def cursor_moved_def)
    ultimately have "column_repr dbl limit nF (cursor_moved q s) (R, q)"
      using repr le(2) unfolding column_repr_def m
      by (auto simp: cursor_moved_def CACHE_STALE_def)
    then show ?thesis using MoveCursor by (simp add: m)
  next
    case (WriteRows rs R')
    have "column_repr dbl limit nF (row_written rs s) (R', p)"
      using ok le(2) by (intro write_simulates [OF repr [unfolded m] _ limit])
        (simp_all add: WriteRows row_written_def CACHE_STALE_def word_neq_0_conv)
    then show ?thesis using WriteRows by (simp add: m)
  next
    case (ResumeStatement rs R')
    have "column_repr dbl limit nF (statement_resumed rs s) (R', p)"
      using ok le by (intro write_simulates [OF repr [unfolded m] _ limit])
        (auto simp: ResumeStatement statement_resumed_def)
    then show ?thesis using ResumeStatement by (simp add: m)
  qed
qed

text \<open>A cursor just opened.\<close>

definition column_init :: "nat \<Rightarrow> (nat \<Rightarrow> (u8 list \<times> nat) option) \<Rightarrow> nat \<Rightarrow> column_state" where
  "column_init nF rs p =
     \<lparr>cursor = \<lparr>cacheStatus = CACHE_STALE, aType = replicate nF 0, aOffset = replicate (nF + 1) 0, nHdrParsed = 0,
        iHdrOffset = 0, aRow = None, szRow = 0, payloadSize = 0, pCache = None\<rparr>,
      cacheCtr = 1, colCacheCtr = 0, rows = rs, place = p\<rparr>"

lemma column_init_repr:
  "rows_ok dbl limit R rs \<Longrightarrow> limit < 2 ^ 32 \<Longrightarrow> column_repr dbl limit nF (column_init nF rs p) (R, p)"
  using rows_laid_out [of dbl limit R rs]
  by (auto simp: column_repr_def column_init_def CACHE_STALE_def txt_ok_def)

interpretation column_cache: simulated "\<lambda>s m. limit < 2 ^ 32 \<and> column_repr dbl limit nF s m"
    "column_allowed dbl limit nF" "column_step isTable limit" "column_spec dbl"
    for dbl limit nF isTable
  by unfold_locales (use column_simulates in blast)


text \<open>C20. A column read is never stale: whatever run of column reads, cursor moves, writes and resumed
  statements a cursor goes through, as long as the rows are records of \<open>OP_MakeRecord\<close> and the two
  counters do not wrap around, every \<open>OP_Column\<close> finds, without a load outside its buffers and
  without reporting corruption, the value stored in that column of the row the cursor is on now, or
  that the row has no such column; how much of the header an earlier read parsed and which long value
  it kept make no difference.\<close>

theorem column_reads_current_row:
  assumes "limit < 2 ^ 32" and "rows_ok dbl limit R rs"
    and "run_allowed (column_allowed dbl limit nF) (column_step isTable limit) (column_init nF rs p) ops"
  shows "\<exists>s. run_ops (column_step isTable limit) (column_init nF rs p) ops = Inr (s, snd (run_spec (column_spec dbl) (R, p) ops))"
proof -
  have "limit < 2 ^ 32 \<and> column_repr dbl limit nF (column_init nF rs p) (R, p)"
    using column_init_repr [OF assms(2,1)] assms(1) by simp
  from column_cache.run_sim [OF this assms(3)] show ?thesis by blast
qed

text \<open>The row of the witness: the integer 0, as the record of two bytes that the header is.\<close>

lemma zero_record: "made_row (\<lambda>i. 0) 1000 [MInt 0] ([2, 8], 2)"
proof -
  have "size_pass (\<lambda>i. 0) (\<lambda>n. True) 4 [MInt 0] = Some ([(MInt 0, 8)], 1, 0, 0)"
    by (simp add: size_step_def size_int_def int_magnitude_def Let_def)
  moreover have "header_size 1 = 2" by (simp add: header_size_def)
  moreover have "write_fields [2, 0] 1 2 [(MInt 0, 8)] = Inr [2, 8]" by (simp add: put_bytes_def Let_def)
  moreover have "take 2 ([] @ replicate 2 (0::u8)) = [0, 0]" by (simp add: numeral_2_eq_2)
  ultimately have "op_make_record (\<lambda>i. 0) (\<lambda>n. True) 4 0 1000 (\<lambda>n. []) [MInt 0] = Inr (Made [2, 8] 0)"
    unfolding op_make_record_def by (simp add: put_bytes_def Let_def)
  then show ?thesis
    unfolding made_row_def by (auto simp: SQLITE_MAX_COLUMN_def fits_def intro!: exI)
qed

theorem column_reads_current_row_witness:
  "\<exists>s. run_ops (column_step True 1000) (column_init 2 (\<lambda>p. if p = 7 then Some ([2, 8], 2) else None) 0)
     [MoveCursor 7, ReadColumn 0 0] = Inr (s, [None, Some (Column (MInt 0))])"
proof -
  let ?rs = "\<lambda>p. if p = (7::nat) then Some ([2::u8, 8], 2::nat) else None"
  have "rows_ok (\<lambda>i. 0) 1000 (\<lambda>p. [MInt 0]) ?rs" using zero_record by (auto simp: rows_ok_def split: if_splits)
  moreover have "run_allowed (column_allowed (\<lambda>i. 0) 1000 2) (column_step True 1000) (column_init 2 ?rs 0) [MoveCursor 7, ReadColumn 0 0]"
    by (simp add: cursor_moved_def column_init_def split: sum.split)
  ultimately show ?thesis
    using column_reads_current_row [of 1000 "\<lambda>i. 0" "\<lambda>p. [MInt 0]" ?rs 2 True 0 "[MoveCursor 7, ReadColumn 0 0]"] by simp
qed

end
