(* ===== verification/SqliteBitvec.thy ===== *)
theory SqliteBitvec
  imports SqliteOs
begin

unbundle bit_operations_syntax

text \<open>
  Bit vectors, bitvec.c inside components/Ledger/src/sqlite3.c: the pages that are in the journal, as
  a fixed-size set of page numbers.  A vector of at most 3968 bits is a bitmap; a larger one starts as
  a hash table with open addressing and turns into 62 smaller vectors when the table fills up.

  The union is the view of it the code takes: a vector just created is all zero, in the view of its
  size.  The allocator is an argument that says for each request, counted from the start, whether it is
  granted; pointer sizes are those of a 64-bit machine.
\<close>

section \<open>Constants and state\<close>

definition BITVEC_SZ :: nat where "BITVEC_SZ = 512"
definition BITVEC_USIZE :: nat where "BITVEC_USIZE = (BITVEC_SZ - 3 * 4) div 8 * 8"
definition BITVEC_SZELEM :: nat where "BITVEC_SZELEM = 8"
definition BITVEC_NELEM :: nat where "BITVEC_NELEM = BITVEC_USIZE div 1"
definition BITVEC_NBIT :: nat where "BITVEC_NBIT = BITVEC_NELEM * BITVEC_SZELEM"
definition BITVEC_NINT :: nat where "BITVEC_NINT = BITVEC_USIZE div 4"
definition BITVEC_MXHASH :: nat where "BITVEC_MXHASH = BITVEC_NINT div 2"
definition BITVEC_NPTR :: nat where "BITVEC_NPTR = BITVEC_USIZE div 8"

lemma bitvec_constants:
  "BITVEC_NELEM = 496" "BITVEC_NBIT = 3968" "BITVEC_NINT = 124" "BITVEC_MXHASH = 62" "BITVEC_NPTR = 62" "BITVEC_SZELEM = 8"
  by (simp_all add: BITVEC_NELEM_def BITVEC_NBIT_def BITVEC_NINT_def BITVEC_MXHASH_def BITVEC_NPTR_def BITVEC_USIZE_def
      BITVEC_SZ_def BITVEC_SZELEM_def)

definition BITVEC_HASH :: "u32 \<Rightarrow> nat" where "BITVEC_HASH x = unat x mod BITVEC_NINT"

datatype bitvec = Bitvec (iSize: u32) (nSet: u32) (iDivisor: u32) (view: bitvec_union)
and bitvec_union = Bitmap "u8 list" | Hash "u32 list" | Sub "bitvec option list"

section \<open>Operations\<close>

definition sqlite3BitvecCreate :: "u32 \<Rightarrow> bitvec" where
  "sqlite3BitvecCreate n =
     Bitvec n 0 0 (if unat n \<le> BITVEC_NBIT then Bitmap (replicate BITVEC_NELEM 0) else Hash (replicate BITVEC_NINT 0))"

text \<open>The union in one of its views; the wrong one is a fault.\<close>

definition aBitmap :: "bitvec_union \<Rightarrow> u8 list res" where
  "aBitmap w = (case w of Bitmap xs \<Rightarrow> Inr xs | _ \<Rightarrow> Inl OutOfBounds)"

definition aHash :: "bitvec_union \<Rightarrow> u32 list res" where
  "aHash w = (case w of Hash xs \<Rightarrow> Inr xs | _ \<Rightarrow> Inl OutOfBounds)"

definition apSub :: "bitvec_union \<Rightarrow> bitvec option list res" where
  "apSub w = (case w of Sub xs \<Rightarrow> Inr xs | _ \<Rightarrow> Inl OutOfBounds)"

lemma view_simps [simp]:
  "aBitmap (Bitmap xs) = Inr xs" "aHash (Hash ys) = Inr ys" "apSub (Sub zs) = Inr zs"
  by (simp_all add: aBitmap_def aHash_def apSub_def)

lemma apSub_eq: "apSub w = Inr xs \<longleftrightarrow> w = Sub xs"
  by (simp add: apSub_def split: bitvec_union.split)

text \<open>The loops that go round the hash table; \<open>left\<close> counts the slots not seen yet, and a loop that has
  seen them all never ends.  The first looks for a value or a free slot, the second for a free slot.\<close>

fun hash_probe :: "u32 list \<Rightarrow> u32 \<Rightarrow> nat \<Rightarrow> nat \<Rightarrow> (bool \<times> nat) res" where
  "hash_probe xs v h 0 = Inl NoReturn"
| "hash_probe xs v h (Suc left) =
     bind_res (nth_res xs h) (\<lambda>x.
       if x = 0 then Inr (False, h) else if x = v then Inr (True, h)
       else hash_probe xs v ((h + 1) mod BITVEC_NINT) left)"

fun free_slot :: "u32 list \<Rightarrow> nat \<Rightarrow> nat \<Rightarrow> nat res" where
  "free_slot xs h 0 = Inl NoReturn"
| "free_slot xs h (Suc left) =
     bind_res (nth_res xs h) (\<lambda>x. if x = 0 then Inr h else free_slot xs ((h + 1) mod BITVEC_NINT) left)"

lemma sub_size: "nth_res xs k = Inr (Some q) \<Longrightarrow> apSub w = Inr xs \<Longrightarrow> size q < size (Bitvec s n d w)"
proof -
  have "Some q \<in> set xs \<Longrightarrow> size q < size (Sub xs)"
    by (induction xs) (auto simp: less_Suc_eq_le)
  then show "nth_res xs k = Inr (Some q) \<Longrightarrow> apSub w = Inr xs \<Longrightarrow> size q < size (Bitvec s n d w)"
    by (auto simp: nth_res_eq_Inr apSub_eq)
qed

text \<open>Testing, with \<open>i\<close> already counted from 0.\<close>

function test_bit :: "bitvec \<Rightarrow> u32 \<Rightarrow> bool res" where
  "test_bit (Bitvec s n d w) i =
     (if d \<noteq> 0 then
        bind_res (apSub w) (\<lambda>xs. bind_res (nth_res xs (unat (i div d))) (\<lambda>x.
          case x of None \<Rightarrow> Inr False | Some q \<Rightarrow> test_bit q (i mod d)))
      else if unat s \<le> BITVEC_NBIT then
        bind_res (aBitmap w) (\<lambda>xs.
        bind_res (nth_res xs (unat i div BITVEC_SZELEM)) (\<lambda>x. Inr (bit x (unat i mod BITVEC_SZELEM))))
      else
        bind_res (aHash w) (\<lambda>xs.
        bind_res (hash_probe xs (i + 1) (BITVEC_HASH i) BITVEC_NINT) (\<lambda>(found, h). Inr found)))"
  by pat_completeness auto
termination by (relation "measure (\<lambda>(p, i). size p)") (auto dest: sub_size)

declare test_bit.simps [simp del]

definition sqlite3BitvecTestNotNull :: "bitvec \<Rightarrow> u32 \<Rightarrow> bool res" where
  "sqlite3BitvecTestNotNull p i = (let i = i - 1 in if i \<ge> iSize p then Inr False else test_bit p i)"

definition sqlite3BitvecTest :: "bitvec option \<Rightarrow> u32 \<Rightarrow> bool res" where
  "sqlite3BitvecTest p i = (case p of None \<Rightarrow> Inr False | Some p \<Rightarrow> sqlite3BitvecTestNotNull p i)"

text \<open>Setting, with \<open>i\<close> already counted from 0; \<open>k\<close> counts the requests to the allocator.  \<open>fuel\<close>
  bounds the depth of the descents and of the calls of the function by itself.\<close>

type_synonym set_result = "(bitvec \<times> nat \<times> int) res"

definition put_slot :: "bitvec \<Rightarrow> u32 list \<Rightarrow> nat \<Rightarrow> u32 \<Rightarrow> nat \<Rightarrow> set_result" where
  "put_slot p xs h v k = Inr (Bitvec (iSize p) (nSet p + 1) (iDivisor p) (Hash (xs[h := v])), k, SQLITE_OK)"

fun set_values :: "(bitvec \<Rightarrow> nat \<Rightarrow> u32 \<Rightarrow> set_result) \<Rightarrow> bitvec \<Rightarrow> nat \<Rightarrow> int \<Rightarrow> u32 list \<Rightarrow> set_result" where
  "set_values f p k rc [] = Inr (p, k, rc)"
| "set_values f p k rc (v # vs) =
     (if v \<noteq> 0 then bind_res (f p k (v - 1)) (\<lambda>(p, k, rc1). set_values f p k (rc OR rc1) vs)
      else set_values f p k rc vs)"

text \<open>\<open>BITVEC_NPTR\<close> is a \<open>size_t\<close>, so the sum for the divisor is taken in 64 bits and only the
  quotient is stored in 32.\<close>

definition divide_table :: "(bitvec \<Rightarrow> nat \<Rightarrow> u32 \<Rightarrow> set_result) \<Rightarrow> (nat \<Rightarrow> bool) \<Rightarrow> bitvec \<Rightarrow> u32 list \<Rightarrow> u32 \<Rightarrow> nat \<Rightarrow> set_result" where
  "divide_table f mem p xs v k =
     (if \<not> mem k then Inr (p, k + 1, SQLITE_NOMEM)
      else
        let d = of_nat ((unat (iSize p) + BITVEC_NPTR - 1) div BITVEC_NPTR);
            p = Bitvec (iSize p) (nSet p) d (Sub (replicate BITVEC_NPTR None))
        in bind_res (f p (k + 1) (v - 1)) (\<lambda>(p, k, rc). set_values f p k rc xs))"

primrec set_bit :: "nat \<Rightarrow> (nat \<Rightarrow> bool) \<Rightarrow> bitvec \<Rightarrow> nat \<Rightarrow> u32 \<Rightarrow> set_result" where
  "set_bit 0 mem p k i = Inl NoReturn"
| "set_bit (Suc fuel) mem p k i =
     (if unat (iSize p) > BITVEC_NBIT \<and> iDivisor p \<noteq> 0 then
        bind_res (apSub (view p)) (\<lambda>xs.
        let bin = unat (i div iDivisor p);
            descend = (\<lambda>q k. bind_res (set_bit fuel mem q k (i mod iDivisor p)) (\<lambda>(q, k, rc).
              Inr (Bitvec (iSize p) (nSet p) (iDivisor p) (Sub (xs[bin := Some q])), k, rc)))
        in bind_res (nth_res xs bin) (\<lambda>x. case x of
             Some q \<Rightarrow> descend q k
           | None \<Rightarrow> if mem k then descend (sqlite3BitvecCreate (iDivisor p)) (k + 1) else Inr (p, k + 1, SQLITE_NOMEM)))
      else if unat (iSize p) \<le> BITVEC_NBIT then
        bind_res (aBitmap (view p)) (\<lambda>xs.
        let e = unat i div BITVEC_SZELEM in
        bind_res (nth_res xs e) (\<lambda>x.
        Inr (Bitvec (iSize p) (nSet p) (iDivisor p) (Bitmap (xs[e := x OR push_bit (unat i mod BITVEC_SZELEM) 1])), k, SQLITE_OK)))
      else
        bind_res (aHash (view p)) (\<lambda>xs.
        bind_res (nth_res xs (BITVEC_HASH i)) (\<lambda>x.
        if x = 0 \<and> unat (nSet p) < BITVEC_NINT - 1 then put_slot p xs (BITVEC_HASH i) (i + 1) k
        else
          bind_res (if x = 0 then Inr (False, BITVEC_HASH i) else hash_probe xs (i + 1) (BITVEC_HASH i) BITVEC_NINT) (\<lambda>(found, h).
          if found then Inr (p, k, SQLITE_OK)
          else if unat (nSet p) \<ge> BITVEC_MXHASH then divide_table (set_bit fuel mem) mem p xs (i + 1) k
          else put_slot p xs h (i + 1) k))))"

definition sqlite3BitvecSet :: "nat \<Rightarrow> (nat \<Rightarrow> bool) \<Rightarrow> bitvec option \<Rightarrow> nat \<Rightarrow> u32 \<Rightarrow> (bitvec option \<times> nat \<times> int) res" where
  "sqlite3BitvecSet fuel mem p k i =
     (case p of
        None \<Rightarrow> Inr (None, k, SQLITE_OK)
      | Some p \<Rightarrow> bind_res (set_bit fuel mem p k (i - 1)) (\<lambda>(p, k, rc). Inr (Some p, k, rc)))"

text \<open>Clearing: a hash table is built again without the value.\<close>

fun rebuild :: "u32 list \<Rightarrow> u32 \<Rightarrow> u32 list \<Rightarrow> u32 \<Rightarrow> (u32 list \<times> u32) res" where
  "rebuild xs n [] gone = Inr (xs, n)"
| "rebuild xs n (v # vs) gone =
     (if v \<noteq> 0 \<and> v \<noteq> gone
      then bind_res (free_slot xs (BITVEC_HASH (v - 1)) BITVEC_NINT) (\<lambda>h. rebuild (xs[h := v]) (n + 1) vs gone)
      else rebuild xs n vs gone)"

function clear_bit :: "bitvec \<Rightarrow> u32 \<Rightarrow> bitvec res" where
  "clear_bit (Bitvec s n d w) i =
     (if d \<noteq> 0 then
        bind_res (apSub w) (\<lambda>xs. bind_res (nth_res xs (unat (i div d))) (\<lambda>x.
          case x of
            None \<Rightarrow> Inr (Bitvec s n d w)
          | Some q \<Rightarrow> bind_res (clear_bit q (i mod d)) (\<lambda>q. Inr (Bitvec s n d (Sub (xs[unat (i div d) := Some q]))))))
      else if unat s \<le> BITVEC_NBIT then
        bind_res (aBitmap w) (\<lambda>xs.
        let e = unat i div BITVEC_SZELEM in
        bind_res (nth_res xs e) (\<lambda>x. Inr (Bitvec s n d (Bitmap (xs[e := x AND NOT (push_bit (unat i mod BITVEC_SZELEM) 1)])))))
      else
        bind_res (aHash w) (\<lambda>xs.
        bind_res (rebuild (replicate BITVEC_NINT 0) 0 xs (i + 1)) (\<lambda>(xs, n). Inr (Bitvec s n d (Hash xs)))))"
  by pat_completeness auto
termination by (relation "measure (\<lambda>(p, i). size p)") (auto dest: sub_size)

declare clear_bit.simps [simp del]

definition sqlite3BitvecClear :: "bitvec option \<Rightarrow> u32 \<Rightarrow> bitvec option res" where
  "sqlite3BitvecClear p i =
     (case p of None \<Rightarrow> Inr None | Some p \<Rightarrow> bind_res (clear_bit p (i - 1)) (\<lambda>p. Inr (Some p)))"

definition sqlite3BitvecSize :: "bitvec \<Rightarrow> u32" where
  "sqlite3BitvecSize p = iSize p"

section \<open>Linear probing\<close>

abbreviation probe_slot :: "nat \<Rightarrow> nat \<Rightarrow> nat" where
  "probe_slot h e \<equiv> (h + e) mod BITVEC_NINT"

text \<open>Every value lies behind its home slot with no free slot between.\<close>

definition reached :: "u32 list \<Rightarrow> u32 \<Rightarrow> nat \<Rightarrow> bool" where
  "reached xs v d \<longleftrightarrow> xs ! probe_slot (BITVEC_HASH (v - 1)) d = v \<and> (\<forall>e<d. xs ! probe_slot (BITVEC_HASH (v - 1)) e \<noteq> 0)"

definition probe_table :: "u32 list \<Rightarrow> bool" where
  "probe_table xs \<longleftrightarrow> length xs = BITVEC_NINT \<and> (\<forall>v. v \<in> set xs \<and> v \<noteq> 0 \<longrightarrow> (\<exists>d<BITVEC_NINT. reached xs v d))"

definition filled :: "u32 list \<Rightarrow> nat" where
  "filled xs = length (filter (\<lambda>x. x \<noteq> 0) xs)"

lemma probe_slot_less [simp]: "probe_slot h e < BITVEC_NINT"
  by (simp add: bitvec_constants)

lemma probe_slot_step: "(probe_slot h e + 1) mod BITVEC_NINT = probe_slot h (Suc e)"
  by (simp add: mod_simps)

lemma hash_probe_ok:
  assumes "length xs = BITVEC_NINT" and "e + left = BITVEC_NINT" and "\<exists>d. e \<le> d \<and> d < BITVEC_NINT \<and> xs ! probe_slot h d = 0"
    and "\<forall>d<e. xs ! probe_slot h d \<noteq> 0 \<and> xs ! probe_slot h d \<noteq> v"
  shows "\<exists>d. e \<le> d \<and> d < BITVEC_NINT \<and> (\<forall>d'<d. xs ! probe_slot h d' \<noteq> 0 \<and> xs ! probe_slot h d' \<noteq> v) \<and>
    (hash_probe xs v (probe_slot h e) left = Inr (True, probe_slot h d) \<and> xs ! probe_slot h d = v \<or>
     hash_probe xs v (probe_slot h e) left = Inr (False, probe_slot h d) \<and> xs ! probe_slot h d = 0)"
  using assms(2-4)
proof (induction left arbitrary: e)
  case 0
  then show ?case by auto
next
  case (Suc left)
  let ?x = "xs ! probe_slot h e"
  have here: "hash_probe xs v (probe_slot h e) (Suc left) =
      (if ?x = 0 then Inr (False, probe_slot h e) else if ?x = v then Inr (True, probe_slot h e) else hash_probe xs v (probe_slot h (Suc e)) left)"
    using assms(1) by (simp add: probe_slot_step [simplified])
  have e: "e < BITVEC_NINT" using Suc.prems(1) by simp
  show ?case
  proof (cases "?x = 0 \<or> ?x = v")
    case True
    then show ?thesis using here e Suc.prems(3) by (intro exI [of _ e]) auto
  next
    case False
    then have "\<forall>d<Suc e. xs ! probe_slot h d \<noteq> 0 \<and> xs ! probe_slot h d \<noteq> v" using Suc.prems(3) by (auto simp: less_Suc_eq)
    moreover have "\<exists>d. Suc e \<le> d \<and> d < BITVEC_NINT \<and> xs ! probe_slot h d = 0"
      using Suc.prems(2) False by (metis Suc_leI le_neq_implies_less)
    ultimately show ?thesis using Suc.IH [of "Suc e"] Suc.prems(1) here False by fastforce
  qed
qed


definition held :: "u32 list \<Rightarrow> u32 set" where
  "held xs = set xs - {0}"

lemma filled_free: "filled xs < length xs \<Longrightarrow> \<exists>j<length xs. xs ! j = 0"
proof (rule ccontr)
  assume "filled xs < length xs" and "\<not> (\<exists>j<length xs. xs ! j = 0)"
  then have "filter (\<lambda>x. x \<noteq> 0) xs = xs" by (auto simp: filter_id_conv in_set_conv_nth)
  with \<open>filled xs < length xs\<close> show False by (simp add: filled_def)
qed

lemma filled_update: "k < length xs \<Longrightarrow> xs ! k = 0 \<Longrightarrow> v \<noteq> 0 \<Longrightarrow> filled (xs[k := v]) = filled xs + 1"
proof (induction xs arbitrary: k)
  case (Cons x xs)
  then show ?case by (cases k) (auto simp: filled_def)
qed simp

lemma held_update: "k < length xs \<Longrightarrow> xs ! k = 0 \<Longrightarrow> v \<noteq> 0 \<Longrightarrow> held (xs[k := v]) = insert v (held xs)"
  by (auto simp: held_def in_set_conv_nth nth_list_update) (metis nth_list_update)+

lemma free_ahead:
  assumes "length xs = BITVEC_NINT" and "filled xs < BITVEC_NINT" and "h < BITVEC_NINT"
  shows "\<exists>d. 0 \<le> d \<and> d < BITVEC_NINT \<and> xs ! probe_slot h d = 0"
proof -
  obtain j where j: "j < BITVEC_NINT" "xs ! j = 0" using filled_free [of xs] assms by auto
  have "probe_slot h ((j + BITVEC_NINT - h) mod BITVEC_NINT) = (h + (j + BITVEC_NINT - h)) mod BITVEC_NINT"
    by (simp add: mod_simps)
  also have "\<dots> = j" using assms(3) j(1) by simp
  finally show ?thesis using j(2)
    by (intro exI [of _ "(j + BITVEC_NINT - h) mod BITVEC_NINT"]) (simp add: bitvec_constants)
qed

text \<open>A search from the home slot of a value, and an insertion at the free slot it ends at.\<close>

lemma hash_less: "BITVEC_HASH x < BITVEC_NINT"
  by (simp add: BITVEC_HASH_def bitvec_constants)

lemma hash_search:
  assumes ok: "probe_table xs" and free: "filled xs < BITVEC_NINT" and v: "v \<noteq> 0"
  shows "\<exists>d<BITVEC_NINT. if v \<in> held xs
    then hash_probe xs v (BITVEC_HASH (v - 1)) BITVEC_NINT = Inr (True, probe_slot (BITVEC_HASH (v - 1)) d)
    else hash_probe xs v (BITVEC_HASH (v - 1)) BITVEC_NINT = Inr (False, probe_slot (BITVEC_HASH (v - 1)) d) \<and>
      xs ! probe_slot (BITVEC_HASH (v - 1)) d = 0 \<and> (\<forall>e<d. xs ! probe_slot (BITVEC_HASH (v - 1)) e \<noteq> 0)"
proof -
  let ?h = "BITVEC_HASH (v - 1)"
  have len: "length xs = BITVEC_NINT" using ok by (simp add: probe_table_def)
  have start: "probe_slot ?h 0 = ?h" using hash_less [of "v - 1"] by simp
  obtain d where d: "d < BITVEC_NINT" "\<forall>e<d. xs ! probe_slot ?h e \<noteq> 0 \<and> xs ! probe_slot ?h e \<noteq> v"
    and probe: "hash_probe xs v ?h BITVEC_NINT = Inr (True, probe_slot ?h d) \<and> xs ! probe_slot ?h d = v \<or>
      hash_probe xs v ?h BITVEC_NINT = Inr (False, probe_slot ?h d) \<and> xs ! probe_slot ?h d = 0"
    using hash_probe_ok [where v = v and left = BITVEC_NINT, OF len _ free_ahead [OF len free hash_less [of "v - 1"]]] start by auto
  show ?thesis
  proof (cases "v \<in> held xs")
    case True
    then obtain d' where d': "xs ! probe_slot ?h d' = v" "\<forall>e<d'. xs ! probe_slot ?h e \<noteq> 0"
      using ok by (auto simp: probe_table_def reached_def held_def)
    have "xs ! probe_slot ?h d \<noteq> 0"
    proof
      assume zero: "xs ! probe_slot ?h d = 0"
      then have "d' \<le> d" using d'(2) by (meson not_le)
      then show False using d(2) d'(1) zero v by (cases "d' = d") auto
    qed
    then show ?thesis using probe d(1) True by auto
  next
    case False
    have "xs ! probe_slot ?h d \<in> set xs" using len by simp
    then have "xs ! probe_slot ?h d \<noteq> v" using False v by (auto simp: held_def)
    then show ?thesis using probe d False by auto
  qed
qed

lemma table_insert:
  assumes ok: "probe_table xs" and v: "v \<noteq> 0" and d: "d < BITVEC_NINT"
    and free: "xs ! probe_slot (BITVEC_HASH (v - 1)) d = 0" "\<forall>e<d. xs ! probe_slot (BITVEC_HASH (v - 1)) e \<noteq> 0"
  shows "probe_table (xs[probe_slot (BITVEC_HASH (v - 1)) d := v])"
    and "held (xs[probe_slot (BITVEC_HASH (v - 1)) d := v]) = insert v (held xs)"
    and "filled (xs[probe_slot (BITVEC_HASH (v - 1)) d := v]) = filled xs + 1"
proof -
  let ?k = "probe_slot (BITVEC_HASH (v - 1)) d" let ?ys = "xs[?k := v]"
  have len: "length xs = BITVEC_NINT" using ok by (simp add: probe_table_def)
  then have k: "?k < length xs" by simp
  show vals: "held ?ys = insert v (held xs)" by (rule held_update [OF k free(1) v])
  show "filled ?ys = filled xs + 1" by (rule filled_update [OF k free(1) v])
  have grow: "?ys ! j \<noteq> 0" if "xs ! j \<noteq> 0" for j
    using that v k by (cases "j = ?k") simp_all
  have "\<exists>d<BITVEC_NINT. reached ?ys w d" if "w \<in> set ?ys" "w \<noteq> 0" for w
  proof (cases "w = v")
    case True
    then show ?thesis using d free(2) grow k by (intro exI [of _ d]) (auto simp: reached_def)
  next
    case False
    then have "w \<in> held xs" using that vals by (auto simp: held_def)
    then obtain d' where d': "d' < BITVEC_NINT" "reached xs w d'" using ok by (auto simp: probe_table_def held_def)
    have "probe_slot (BITVEC_HASH (w - 1)) d' \<noteq> ?k" using d'(2) free(1) that(2) by (auto simp: reached_def)
    then show ?thesis using d' grow by (intro exI [of _ d']) (auto simp: reached_def)
  qed
  then show "probe_table ?ys" using len by (simp add: probe_table_def)
qed

text \<open>The table built again.\<close>

lemma free_slot_probe: "free_slot xs h left = bind_res (hash_probe xs 0 h left) (\<lambda>(found, h). Inr h)"
proof (induction xs h left rule: free_slot.induct)
  case (2 xs h left)
  then show ?case by (cases "nth_res xs h") simp_all
qed simp

lemma free_slot_ok:
  assumes "probe_table xs" and "filled xs < BITVEC_NINT" and "h < BITVEC_NINT"
  shows "\<exists>d<BITVEC_NINT. free_slot xs h BITVEC_NINT = Inr (probe_slot h d) \<and> xs ! probe_slot h d = 0 \<and> (\<forall>e<d. xs ! probe_slot h e \<noteq> 0)"
proof -
  have len: "length xs = BITVEC_NINT" using assms(1) by (simp add: probe_table_def)
  show ?thesis
    using hash_probe_ok [OF len _ free_ahead [OF len assms(2,3)], of BITVEC_NINT 0] assms(3)
    by (auto simp: free_slot_probe)
qed

lemma rebuild_ok:
  "probe_table xs \<Longrightarrow> filled xs + filled vs < BITVEC_NINT \<Longrightarrow> unat n = filled xs \<Longrightarrow>
   \<exists>ys n'. rebuild xs n vs gone = Inr (ys, n') \<and> probe_table ys \<and> unat n' = filled ys \<and> filled ys \<le> filled xs + filled vs \<and>
     held ys = held xs \<union> (held vs - {gone})"
proof (induction vs arbitrary: xs n)
  case Nil
  then show ?case by (simp add: filled_def held_def)
next
  case (Cons v vs)
  show ?case
  proof (cases "v \<noteq> 0 \<and> v \<noteq> gone")
    case True
    have free: "filled xs < BITVEC_NINT" using Cons.prems(2) by simp
    obtain d where d: "d < BITVEC_NINT" "free_slot xs (BITVEC_HASH (v - 1)) BITVEC_NINT = Inr (probe_slot (BITVEC_HASH (v - 1)) d)"
      "xs ! probe_slot (BITVEC_HASH (v - 1)) d = 0" "\<forall>e<d. xs ! probe_slot (BITVEC_HASH (v - 1)) e \<noteq> 0"
      using free_slot_ok [OF Cons.prems(1) free hash_less] by blast
    let ?ys = "xs[probe_slot (BITVEC_HASH (v - 1)) d := v]"
    note ins = table_insert [OF Cons.prems(1) conjunct1 [OF True] d(1,3,4)]
    have "filled (v # vs) = filled vs + 1" using True by (simp add: filled_def)
    then have room: "filled ?ys + filled vs < BITVEC_NINT" using ins(3) Cons.prems(2) by simp
    have n: "unat (n + 1) = filled ?ys"
      using Cons.prems(3) ins(3) free unat_word_ariths(1) [of n 1] by (simp add: bitvec_constants)
    obtain zs n' where "rebuild ?ys (n + 1) vs gone = Inr (zs, n')" "probe_table zs" "unat n' = filled zs"
      "filled zs \<le> filled ?ys + filled vs" "held zs = held ?ys \<union> (held vs - {gone})"
      using Cons.IH [OF ins(1) room n] by blast
    moreover have "held (v # vs) = insert v (held vs)" using True by (auto simp: held_def)
    ultimately show ?thesis using True d(2) ins(2,3) \<open>filled (v # vs) = filled vs + 1\<close> by auto
  next
    case False
    have "filled vs \<le> filled (v # vs)" by (simp add: filled_def)
    then have "filled xs + filled vs < BITVEC_NINT" using Cons.prems(2) by simp
    moreover have "held (v # vs) - {gone} = held vs - {gone}" using False by (auto simp: held_def)
    ultimately show ?thesis using Cons.IH [OF Cons.prems(1) _ Cons.prems(3)] False \<open>filled vs \<le> filled (v # vs)\<close>
      by (fastforce simp del: One_nat_def)
  qed
qed


section \<open>The vector as a set\<close>

text \<open>The bits of a vector, counted from 0, and what holds of every vector.\<close>

inductive contains :: "bitvec \<Rightarrow> u32 \<Rightarrow> bool" where
  bitmap_bit: "bit (xs ! (unat i div BITVEC_SZELEM)) (unat i mod BITVEC_SZELEM) \<Longrightarrow> contains (Bitvec s n d (Bitmap xs)) i"
| hash_bit: "i + 1 \<in> held xs \<Longrightarrow> contains (Bitvec s n d (Hash xs)) i"
| sub_bit: "xs ! unat (i div d) = Some q \<Longrightarrow> contains q (i mod d) \<Longrightarrow> contains (Bitvec s n d (Sub xs)) i"

inductive_simps contains_simps [simp]:
  "contains (Bitvec s n d (Bitmap xs)) i"
  "contains (Bitvec s n d (Hash xs)) i"
  "contains (Bitvec s n d (Sub xs)) i"

inductive bitvec_ok :: "bitvec \<Rightarrow> bool" where
  bitmap_ok: "unat s \<le> BITVEC_NBIT \<Longrightarrow> length xs = BITVEC_NELEM \<Longrightarrow> bitvec_ok (Bitvec s n 0 (Bitmap xs))"
| hash_ok: "BITVEC_NBIT < unat s \<Longrightarrow> probe_table xs \<Longrightarrow> unat n = filled xs \<Longrightarrow> filled xs < BITVEC_NINT \<Longrightarrow>
    (\<forall>v\<in>held xs. v \<le> s) \<Longrightarrow> bitvec_ok (Bitvec s n 0 (Hash xs))"
| sub_ok: "BITVEC_NBIT < unat s \<Longrightarrow> unat d = (unat s + BITVEC_NPTR - 1) div BITVEC_NPTR \<Longrightarrow> length xs = BITVEC_NPTR \<Longrightarrow>
    (\<And>q. Some q \<in> set xs \<Longrightarrow> bitvec_ok q \<and> iSize q = d) \<Longrightarrow> bitvec_ok (Bitvec s n d (Sub xs))"

lemma bitvec_create_ok:
  "bitvec_ok (sqlite3BitvecCreate s)" "i < s \<Longrightarrow> \<not> contains (sqlite3BitvecCreate s) i" "iSize (sqlite3BitvecCreate s) = s"
    "iDivisor (sqlite3BitvecCreate s) = 0"
proof -
  have "probe_table (replicate BITVEC_NINT 0)" "filled (replicate BITVEC_NINT 0) = 0" "held (replicate BITVEC_NINT 0) = {}"
    by (auto simp: probe_table_def filled_def held_def)
  then show "bitvec_ok (sqlite3BitvecCreate s)"
    by (auto simp: sqlite3BitvecCreate_def bitvec_constants intro!: bitmap_ok hash_ok)
  show "i < s \<Longrightarrow> \<not> contains (sqlite3BitvecCreate s) i"
    by (auto simp: sqlite3BitvecCreate_def bitvec_constants held_def word_less_nat_alt)
  show "iSize (sqlite3BitvecCreate s) = s" "iDivisor (sqlite3BitvecCreate s) = 0" by (simp_all add: sqlite3BitvecCreate_def)
qed

text \<open>Where a position of a divided vector lies.\<close>

lemma bin_less:
  assumes "unat d = (unat s + BITVEC_NPTR - 1) div BITVEC_NPTR" and "BITVEC_NBIT < unat s" and "i < s"
  shows "d \<noteq> 0" "unat (i div d) < BITVEC_NPTR" "i mod d < d"
proof -
  have d: "unat d = (unat s + 61) div 62" using assms(1) by (simp add: bitvec_constants)
  have s: "3968 < unat s" "unat i < unat s" using assms(2,3) by (simp_all add: bitvec_constants word_less_nat_alt)
  have pos: "0 < unat d" using d s(1) by simp
  then show "d \<noteq> 0" by auto
  then show "i mod d < d" using pos by (simp add: word_less_nat_alt unat_mod)
  have "unat s \<le> 62 * unat d" using d by simp
  then have "unat i < unat d * 62" using s(2) by linarith
  then have "unat i div unat d < 62" using pos by (simp add: div_less_iff_less_mult)
  then show "unat (i div d) < BITVEC_NPTR" by (simp add: bitvec_constants unat_div)
qed

lemma sub_index_eq: "i div d = j div d \<Longrightarrow> i mod d = j mod d \<Longrightarrow> i = j" for i j d :: u32
  by (metis div_mult_mod_eq)

lemma hash_bit_eq: "i < s \<Longrightarrow> i + 1 \<noteq> 0" for i s :: u32
  by (metis eq_neg_iff_add_eq_0 not_less word_n1_ge)

lemma test_bit_ok: "bitvec_ok p \<Longrightarrow> i < iSize p \<Longrightarrow> test_bit p i = Inr (contains p i)"
proof (induction p i rule: test_bit.induct)
  case (1 s n d w i)
  from "1.prems"(1) show ?case
  proof (cases rule: bitvec_ok.cases)
    case (bitmap_ok xs)
    have "unat i div 8 < 496"
      using "1.prems"(2) bitmap_ok(3) by (simp add: bitvec_constants word_less_nat_alt)
    then show ?thesis using bitmap_ok by (simp add: test_bit.simps bitvec_constants)
  next
    case (hash_ok xs)
    have v: "i + 1 \<noteq> 0" using "1.prems"(2) by (intro hash_bit_eq [of i s]) simp
    from hash_search [OF hash_ok(4,6) v] show ?thesis using hash_ok
      by (auto simp: test_bit.simps split: if_splits)
  next
    case (sub_ok xs)
    note bin = bin_less [OF sub_ok(3,2), of i]
    have i: "i < s" using "1.prems"(2) by simp
    show ?thesis
    proof (cases "xs ! unat (i div d)")
      case None
      then show ?thesis using bin [OF i] sub_ok by (simp add: test_bit.simps)
    next
      case (Some q)
      have q: "Some q \<in> set xs" using Some bin(2) [OF i] sub_ok(4) by (metis nth_mem)
      have "test_bit q (i mod d) = Inr (contains q (i mod d))"
        using "1.IH"(1) [of xs "Some q" q] sub_ok q bin [OF i] Some by simp
      then show ?thesis using Some bin [OF i] sub_ok by (simp add: test_bit.simps)
    qed
  qed
qed


section \<open>Setting a bit\<close>

text \<open>What a call that sets a bit promises: it returns a vector of the same size; a success added the bit
  and nothing else; a failure, which needs a refused allocation, may have lost bits but added none but this.\<close>

definition set_done :: "(nat \<Rightarrow> bool) \<Rightarrow> bitvec \<Rightarrow> u32 \<Rightarrow> set_result \<Rightarrow> bool" where
  "set_done mem p i out \<longleftrightarrow> (\<exists>p' k rc. out = Inr (p', k, rc) \<and> bitvec_ok p' \<and> iSize p' = iSize p \<and>
     (iDivisor p \<noteq> 0 \<longrightarrow> iDivisor p' \<noteq> 0) \<and> (rc = SQLITE_OK \<or> rc = SQLITE_NOMEM) \<and> ((\<forall>k. mem k) \<longrightarrow> rc = SQLITE_OK) \<and>
     (\<forall>j<iSize p. (contains p' j \<longrightarrow> contains p j \<or> j = i) \<and> (rc = SQLITE_OK \<longrightarrow> contains p j \<or> j = i \<longrightarrow> contains p' j)))"

lemma set_bitmap:
  assumes ok: "bitvec_ok p" and small: "unat (iSize p) \<le> BITVEC_NBIT" and i: "i < iSize p"
  shows "set_done mem p i (set_bit (Suc fuel) mem p k i)"
proof -
  obtain s n xs where p: "p = Bitvec s n 0 (Bitmap xs)" and len: "length xs = 496"
    using ok small by (cases rule: bitvec_ok.cases) (auto simp: bitvec_constants)
  let ?e = "unat i div 8" and ?b = "unat i mod 8"
  have e: "?e < 496" using i small by (simp add: p bitvec_constants word_less_nat_alt)
  let ?ys = "xs[?e := xs ! ?e OR push_bit ?b 1]"
  have "contains (Bitvec s n 0 (Bitmap ?ys)) j \<longleftrightarrow> contains p j \<or> j = i" if "j < s" for j
  proof (cases "unat j div 8 = ?e")
    case True
    have "bit (xs ! ?e OR push_bit ?b 1) (unat j mod 8) \<longleftrightarrow> bit (xs ! ?e) (unat j mod 8) \<or> unat j mod 8 = ?b"
      by (auto simp: bit_simps)
    moreover have "unat j mod 8 = ?b \<longleftrightarrow> j = i" using True by (metis div_mult_mod_eq word_unat_eq_iff)
    ultimately show ?thesis using True e len by (simp add: p bitvec_constants)
  next
    case False
    then show ?thesis by (auto simp: p bitvec_constants)
  qed
  moreover have "bitvec_ok (Bitvec s n 0 (Bitmap ?ys))"
    using small len by (intro bitmap_ok) (simp_all add: p bitvec_constants)
  moreover have "set_bit (Suc fuel) mem p k i = Inr (Bitvec s n 0 (Bitmap ?ys), k, SQLITE_OK)"
    using small e len by (simp add: p bitvec_constants Let_def)
  ultimately show ?thesis by (auto simp: set_done_def p)
qed

lemma put_slot_done:
  assumes ok: "bitvec_ok (Bitvec s n 0 (Hash xs))" and i: "i < s" and room: "unat n < BITVEC_NINT - 1"
    and d: "d < BITVEC_NINT" "xs ! probe_slot (BITVEC_HASH i) d = 0" "\<forall>e<d. xs ! probe_slot (BITVEC_HASH i) e \<noteq> 0"
  shows "set_done mem (Bitvec s n 0 (Hash xs)) i (put_slot (Bitvec s n 0 (Hash xs)) xs (probe_slot (BITVEC_HASH i) d) (i + 1) k)"
proof -
  have h: "BITVEC_NBIT < unat s" "probe_table xs" "unat n = filled xs" "\<forall>v\<in>held xs. v \<le> s"
    using ok by (auto elim: bitvec_ok.cases)
  have v: "i + 1 \<noteq> 0" using i by (rule hash_bit_eq)
  have "i + 1 \<le> s" using i by (simp add: inc_le)
  note ins = table_insert [OF h(2) v d(1), simplified, OF d(2,3)]
  let ?ys = "xs[probe_slot (BITVEC_HASH i) d := i + 1]"
  have n: "unat (n + 1) = filled xs + 1"
    using h(3) room unat_word_ariths(1) [of n 1] by (simp add: bitvec_constants)
  have "bitvec_ok (Bitvec s (n + 1) 0 (Hash ?ys))"
    using h ins n room \<open>i + 1 \<le> s\<close> by (intro hash_ok) (auto simp: bitvec_constants)
  moreover have "contains (Bitvec s (n + 1) 0 (Hash ?ys)) j \<longleftrightarrow> contains (Bitvec s n 0 (Hash xs)) j \<or> j = i" for j
    using ins(2) by auto
  ultimately show ?thesis by (auto simp: set_done_def put_slot_def)
qed

definition divided :: "u32 \<Rightarrow> bitvec \<Rightarrow> bool" where
  "divided s p \<longleftrightarrow> bitvec_ok p \<and> iSize p = s \<and> iDivisor p \<noteq> 0"

lemma set_values_done:
  assumes f: "\<And>p k i. divided s p \<Longrightarrow> i < s \<Longrightarrow> set_done mem p i (f p k i)"
  shows "divided s p \<Longrightarrow> \<forall>v\<in>held vs. v \<le> s \<Longrightarrow> rc0 = SQLITE_OK \<or> rc0 = SQLITE_NOMEM \<Longrightarrow>
    \<exists>p' k' rc. set_values f p k rc0 vs = Inr (p', k', rc) \<and> divided s p' \<and> (rc = SQLITE_OK \<or> rc = SQLITE_NOMEM) \<and>
      (rc = SQLITE_OK \<longrightarrow> rc0 = SQLITE_OK) \<and> ((\<forall>k. mem k) \<and> rc0 = SQLITE_OK \<longrightarrow> rc = SQLITE_OK) \<and>
      (\<forall>j < s. (contains p' j \<longrightarrow> contains p j \<or> j + 1 \<in> held vs) \<and>
        (rc = SQLITE_OK \<longrightarrow> contains p j \<or> j + 1 \<in> held vs \<longrightarrow> contains p' j))"
proof (induction vs arbitrary: p k rc0)
  case Nil
  then show ?case by (auto simp: held_def)
next
  case (Cons v vs)
  show ?case
  proof (cases "v = 0")
    case True
    then have "held (v # vs) = held vs" by (auto simp: held_def)
    then show ?thesis using True Cons by simp
  next
    case False
    then have held: "held (v # vs) = insert v (held vs)" by (auto simp: held_def)
    have "v \<le> s" using Cons.prems(2) held by simp
    then have v: "v - 1 < s" using False unat_minus_one [OF False] unat_gt_0 [of v] by (simp add: word_less_nat_alt word_le_nat_alt)
    obtain p1 k1 rc1 where one: "f p k (v - 1) = Inr (p1, k1, rc1)" "divided s p1" "rc1 = SQLITE_OK \<or> rc1 = SQLITE_NOMEM"
        "(\<forall>k. mem k) \<longrightarrow> rc1 = SQLITE_OK"
        "\<forall>j < s. (contains p1 j \<longrightarrow> contains p j \<or> j = v - 1) \<and> (rc1 = SQLITE_OK \<longrightarrow> contains p j \<or> j = v - 1 \<longrightarrow> contains p1 j)"
      using f [OF Cons.prems(1) v, of k] Cons.prems(1) by (auto simp: set_done_def divided_def)
    have or: "rc0 OR rc1 = SQLITE_OK \<or> rc0 OR rc1 = SQLITE_NOMEM" "rc0 OR rc1 = SQLITE_OK \<longleftrightarrow> rc0 = SQLITE_OK \<and> rc1 = SQLITE_OK"
      using Cons.prems(3) one(3) by (auto simp: SQLITE_OK_def SQLITE_NOMEM_def)
    have "\<forall>w\<in>held vs. w \<le> s" using Cons.prems(2) held by simp
    from Cons.IH [OF one(2) this or(1), of k1] obtain p2 k2 rc2 where two: "set_values f p1 k1 (rc0 OR rc1) vs = Inr (p2, k2, rc2)"
        "divided s p2" "rc2 = SQLITE_OK \<or> rc2 = SQLITE_NOMEM" "rc2 = SQLITE_OK \<longrightarrow> rc0 OR rc1 = SQLITE_OK"
        "(\<forall>k. mem k) \<and> rc0 OR rc1 = SQLITE_OK \<longrightarrow> rc2 = SQLITE_OK"
        "\<forall>j < s. (contains p2 j \<longrightarrow> contains p1 j \<or> j + 1 \<in> held vs) \<and> (rc2 = SQLITE_OK \<longrightarrow> contains p1 j \<or> j + 1 \<in> held vs \<longrightarrow> contains p2 j)"
      by blast
    have eq: "j = v - 1 \<longleftrightarrow> j + 1 = v" for j by auto
    have "set_values f p k rc0 (v # vs) = Inr (p2, k2, rc2)" using False one(1) two(1) by simp
    moreover have "\<forall>j < s. (contains p2 j \<longrightarrow> contains p j \<or> j + 1 \<in> held (v # vs)) \<and>
        (rc2 = SQLITE_OK \<longrightarrow> contains p j \<or> j + 1 \<in> held (v # vs) \<longrightarrow> contains p2 j)"
      using one(5) two(4,6) or(2) unfolding held eq by blast
    ultimately show ?thesis using two one(4) or(2) by blast
  qed
qed


text \<open>A divided vector hands the bit to one of its parts.\<close>

lemma set_divided:
  assumes p: "bitvec_ok p" "iDivisor p \<noteq> 0" and i: "i < iSize p"
    and part: "\<And>q i k. bitvec_ok q \<Longrightarrow> iSize q = iDivisor p \<Longrightarrow> i < iSize q \<Longrightarrow> set_done mem q i (set_bit fuel mem q k i)"
  shows "set_done mem p i (set_bit (Suc fuel) mem p k i)"
proof -
  obtain s n d xs where pq: "p = Bitvec s n d (Sub xs)" "BITVEC_NBIT < unat s" "length xs = BITVEC_NPTR"
      "unat d = (unat s + BITVEC_NPTR - 1) div BITVEC_NPTR" "\<And>q. Some q \<in> set xs \<Longrightarrow> bitvec_ok q \<and> iSize q = d"
    using p by (cases rule: bitvec_ok.cases) auto
  have below: "i < s" using i by (simp add: pq(1))
  note bin = bin_less [OF pq(4,2)]
  let ?b = "unat (i div d)" and ?r = "i mod d"
  define old where "old = (case xs ! ?b of None \<Rightarrow> sqlite3BitvecCreate d | Some q \<Rightarrow> q)"
  have in_set: "xs ! ?b \<in> set xs" using bin(2) [OF below] pq(3) by simp
  have old: "bitvec_ok old" "iSize old = d"
    using pq(5) in_set bitvec_create_ok [of d] by (auto simp: old_def split: option.split)
  have old_bits: "contains old (j mod d) \<longleftrightarrow> contains p j" if "j < s" "j div d = i div d" for j
    using bitvec_create_ok(2) bin(3) [OF that(1)] that(2) by (auto simp: old_def pq(1) split: option.splits)
  show ?thesis
  proof (cases "xs ! ?b = None \<and> \<not> mem k")
    case True
    then have "set_bit (Suc fuel) mem p k i = Inr (p, k + 1, SQLITE_NOMEM)"
      using pq(2,3) bin(1,2) [OF below] by (simp add: pq(1) Let_def)
    then show ?thesis using p True by (auto simp: set_done_def SQLITE_NOMEM_def SQLITE_OK_def)
  next
    case False
    define k0 where "k0 = (case xs ! ?b of None \<Rightarrow> k + 1 | Some q \<Rightarrow> k)"
    have "set_done mem old ?r (set_bit fuel mem old k0 ?r)"
      using part old bin(3) [OF below] by (simp add: pq(1))
    then obtain q k' rc where q: "set_bit fuel mem old k0 ?r = Inr (q, k', rc)" "bitvec_ok q" "iSize q = d"
        "rc = SQLITE_OK \<or> rc = SQLITE_NOMEM" "(\<forall>k. mem k) \<longrightarrow> rc = SQLITE_OK"
        "\<forall>j<d. (contains q j \<longrightarrow> contains old j \<or> j = ?r) \<and> (rc = SQLITE_OK \<longrightarrow> contains old j \<or> j = ?r \<longrightarrow> contains q j)"
      using old(2) by (auto simp: set_done_def)
    let ?p' = "Bitvec s n d (Sub (xs[?b := Some q]))"
    have run: "set_bit (Suc fuel) mem p k i = Inr (?p', k', rc)"
      using pq(2,3) bin(1,2) [OF below] False q(1)
      by (cases "xs ! ?b") (simp_all add: pq(1) Let_def old_def k0_def)
    have same: "contains ?p' j \<longleftrightarrow> contains q (j mod d)" if "j div d = i div d" for j
      using that bin(2) [OF below] pq(3) by simp
    have diff: "contains ?p' j \<longleftrightarrow> contains p j" if "j < s" "j div d \<noteq> i div d" for j
      using that by (simp add: pq(1) nth_list_update word_unat_eq_iff [symmetric])
    have bits: "(contains ?p' j \<longrightarrow> contains p j \<or> j = i) \<and> (rc = SQLITE_OK \<longrightarrow> contains p j \<or> j = i \<longrightarrow> contains ?p' j)" if "j < s" for j
    proof (cases "j div d = i div d")
      case True
      have "j mod d = ?r \<longleftrightarrow> j = i" using True sub_index_eq by blast
      then show ?thesis using q(6) bin(3) [OF that] old_bits [OF that True] same [OF True] by auto
    next
      case False
      then show ?thesis using diff [OF that False] by auto
    qed
    have "bitvec_ok ?p'"
      using pq(2-5) q(2,3) by (intro sub_ok) (auto dest!: set_update_subset_insert [THEN subsetD])
    then show ?thesis using run q(4,5) bits bin(1) [OF below] by (auto simp: set_done_def pq(1))
  qed
qed

lemma unat_below_32: "unat (x :: u32) < 4294967296"
  using unsigned_less [of x] by simp

text \<open>A hash table takes the bit, or is divided and takes all bits again.\<close>

lemma set_hashed:
  assumes ok: "bitvec_ok (Bitvec s n 0 (Hash xs))" and i: "i < s"
    and divide: "\<And>q i k. divided s q \<Longrightarrow> i < s \<Longrightarrow> set_done mem q i (set_bit fuel mem q k i)"
  shows "set_done mem (Bitvec s n 0 (Hash xs)) i (set_bit (Suc fuel) mem (Bitvec s n 0 (Hash xs)) k i)"
proof -
  let ?p = "Bitvec s n 0 (Hash xs)" let ?h = "BITVEC_HASH i"
  have h: "BITVEC_NBIT < unat s" "probe_table xs" "unat n = filled xs" "filled xs < BITVEC_NINT" "\<forall>v\<in>held xs. v \<le> s"
    using ok by (auto elim: bitvec_ok.cases)
  have len: "length xs = BITVEC_NINT" using h(2) by (simp add: probe_table_def)
  have v: "i + 1 \<noteq> 0" using i by (rule hash_bit_eq)
  have home: "probe_slot ?h 0 = ?h" using hash_less [of i] by simp
  have hashed: "set_done mem ?p i (divide_table (set_bit fuel mem) mem ?p xs (i + 1) k)"
  proof (cases "mem k")
    case False
    then show ?thesis using ok by (auto simp: divide_table_def set_done_def SQLITE_NOMEM_def SQLITE_OK_def)
  next
    case True
    let ?d = "of_nat ((unat s + BITVEC_NPTR - 1) div BITVEC_NPTR) :: u32"
    let ?e = "Bitvec s n ?d (Sub (replicate BITVEC_NPTR None))"
    have d: "unat ?d = (unat s + BITVEC_NPTR - 1) div BITVEC_NPTR"
      using unat_below_32 [of s]
      by (simp only: bitvec_constants unat_of_nat) (simp add: take_bit_nat_eq_self)
    have d0: "?d \<noteq> 0" by (rule bin_less(1) [OF d h(1) i])
    have e: "divided s ?e" using d d0 h(1) by (auto simp: divided_def intro!: sub_ok)
    have none: "\<not> contains ?e j" if "j < s" for j
      using bin_less(2) [OF d h(1) that] by simp
    obtain p1 k1 rc1 where one: "set_bit fuel mem ?e (k + 1) i = Inr (p1, k1, rc1)" "divided s p1" "rc1 = SQLITE_OK \<or> rc1 = SQLITE_NOMEM"
        "(\<forall>k. mem k) \<longrightarrow> rc1 = SQLITE_OK"
        "\<forall>j < s. (contains p1 j \<longrightarrow> contains ?e j \<or> j = i) \<and> (rc1 = SQLITE_OK \<longrightarrow> contains ?e j \<or> j = i \<longrightarrow> contains p1 j)"
      using divide [OF e i, of "k + 1"] e by (auto simp: set_done_def divided_def)
    obtain p2 k2 rc2 where two: "set_values (set_bit fuel mem) p1 k1 rc1 xs = Inr (p2, k2, rc2)" "divided s p2"
        "rc2 = SQLITE_OK \<or> rc2 = SQLITE_NOMEM" "rc2 = SQLITE_OK \<longrightarrow> rc1 = SQLITE_OK" "(\<forall>k. mem k) \<and> rc1 = SQLITE_OK \<longrightarrow> rc2 = SQLITE_OK"
        "\<forall>j < s. (contains p2 j \<longrightarrow> contains p1 j \<or> j + 1 \<in> held xs) \<and> (rc2 = SQLITE_OK \<longrightarrow> contains p1 j \<or> j + 1 \<in> held xs \<longrightarrow> contains p2 j)"
      using set_values_done [of s mem "set_bit fuel mem", OF divide one(2) h(5) one(3), of k1] by blast
    have "divide_table (set_bit fuel mem) mem ?p xs (i + 1) k = Inr (p2, k2, rc2)"
      using True one(1) two(1) by (simp add: divide_table_def Let_def)
    moreover have "\<forall>j < s. (contains p2 j \<longrightarrow> contains ?p j \<or> j = i) \<and> (rc2 = SQLITE_OK \<longrightarrow> contains ?p j \<or> j = i \<longrightarrow> contains p2 j)"
      using one(5) two(4,6) none by auto
    ultimately show ?thesis using two one(4) by (auto simp: set_done_def divided_def)
  qed
  have small_first: "nth_res xs ?h = Inr (xs ! ?h)" using len hash_less [of i] by simp
  show ?thesis
  proof (cases "xs ! ?h = 0")
    case True
    show ?thesis
    proof (cases "unat n < BITVEC_NINT - 1")
      case room: True
      have "set_done mem ?p i (put_slot ?p xs (probe_slot ?h 0) (i + 1) k)"
        using True home by (intro put_slot_done [OF ok i room]) (simp_all add: bitvec_constants)
      then show ?thesis using True room h(1) small_first home by simp
    next
      case False
      then show ?thesis using True h(1) small_first hashed by (simp add: bitvec_constants)
    qed
  next
    case False
    obtain d where d: "d < BITVEC_NINT" "if i + 1 \<in> held xs
        then hash_probe xs (i + 1) ?h BITVEC_NINT = Inr (True, probe_slot ?h d)
        else hash_probe xs (i + 1) ?h BITVEC_NINT = Inr (False, probe_slot ?h d) \<and> xs ! probe_slot ?h d = 0 \<and> (\<forall>e<d. xs ! probe_slot ?h e \<noteq> 0)"
      using hash_search [OF h(2,4) v] unfolding add_diff_cancel_right' by blast
    show ?thesis
    proof (cases "i + 1 \<in> held xs")
      case True
      then have "set_bit (Suc fuel) mem ?p k i = Inr (?p, k, SQLITE_OK)"
        using False d(2) h(1) small_first by simp
      then show ?thesis using ok True by (auto simp: set_done_def)
    next
      case absent: False
      show ?thesis
      proof (cases "unat n \<ge> BITVEC_MXHASH")
        case True
        then show ?thesis using False absent d(2) h(1) small_first hashed by simp
      next
        case roomy: False
        then have "unat n < BITVEC_NINT - 1" by (simp add: bitvec_constants)
        from put_slot_done [OF ok i this d(1), of mem k] show ?thesis
          using roomy False absent d(2) h(1) small_first by simp
      qed
    qed
  qed
qed

text \<open>Four levels of 62 parts are enough for 32 bits, two calls for each.\<close>

lemma set_bit_ok:
  "bitvec_ok p \<Longrightarrow> i < iSize p \<Longrightarrow> unat (iSize p) \<le> 3968 * 62 ^ m \<Longrightarrow>
   2 * m < fuel \<or> iDivisor p \<noteq> 0 \<and> 2 * m \<le> fuel \<and> 0 < fuel \<Longrightarrow> set_done mem p i (set_bit fuel mem p k i)"
proof (induction m arbitrary: p i fuel k)
  case 0
  then obtain f where "fuel = Suc f" by (cases fuel) auto
  then show ?case using set_bitmap [of p i mem f k] 0 by (simp add: bitvec_constants)
next
  case (Suc m)
  have divide: "set_done mem q j (set_bit f mem q c j)"
    if q: "bitvec_ok q" "iDivisor q \<noteq> 0" "iSize q = iSize p" "j < iSize q" "2 * Suc m \<le> f" for q j f c
  proof -
    obtain f' where f': "f = Suc f'" "2 * m < f'" using q(5) by (cases f) auto
    have "unat (iDivisor q) = (unat (iSize q) + BITVEC_NPTR - 1) div BITVEC_NPTR"
      using q(1,2) by (cases rule: bitvec_ok.cases) auto
    then have d: "unat (iDivisor q) = (unat (iSize p) + 61) div 62" using q(3) by (simp add: bitvec_constants)
    then have "unat (iDivisor q) \<le> 3968 * 62 ^ m" using Suc.prems(3) by simp
    then show ?thesis unfolding f'(1)
      by (intro set_divided [OF q(1,2,4)]) (auto intro!: Suc.IH f'(2))
  qed
  from Suc.prems(1) show ?case
  proof (cases rule: bitvec_ok.cases)
    case (bitmap_ok s xs n)
    obtain f where "fuel = Suc f" using Suc.prems(4) by (cases fuel) auto
    then show ?thesis using set_bitmap [OF Suc.prems(1) _ Suc.prems(2)] bitmap_ok by simp
  next
    case (hash_ok s xs n)
    obtain f where f: "fuel = Suc f" "2 * Suc m \<le> f" using Suc.prems(4) hash_ok(1) by (cases fuel) auto
    show ?thesis unfolding f(1) hash_ok(1)
      using Suc.prems hash_ok(1) f(2) by (intro set_hashed divide) (auto simp: divided_def)
  next
    case (sub_ok s d xs n)
    have "iDivisor p \<noteq> 0" using bin_less(1) [OF sub_ok(3,2), of i] Suc.prems(2) sub_ok(1) by simp
    then show ?thesis using Suc.prems by (intro divide) auto
  qed
qed

section \<open>Clearing a bit\<close>

text \<open>A part that is replaced changes only its own positions.\<close>

lemma contains_replaced:
  assumes "length xs = BITVEC_NPTR" and "unat (i div d) < BITVEC_NPTR"
  shows "contains (Bitvec s n d (Sub (xs[unat (i div d) := Some q]))) j \<longleftrightarrow>
    (if j div d = i div d then contains q (j mod d) else contains (Bitvec s n d (Sub xs)) j)"
  using assms by (auto simp: nth_list_update word_unat_eq_iff [symmetric])

lemma clear_bit_ok:
  "bitvec_ok p \<Longrightarrow> i < iSize p \<Longrightarrow>
   \<exists>p'. clear_bit p i = Inr p' \<and> bitvec_ok p' \<and> iSize p' = iSize p \<and> (\<forall>j<iSize p. contains p' j \<longleftrightarrow> contains p j \<and> j \<noteq> i)"
proof (induction p i rule: clear_bit.induct)
  case (1 s n d w i)
  have i: "i < s" using "1.prems"(2) by simp
  from "1.prems"(1) show ?case
  proof (cases rule: bitvec_ok.cases)
    case (bitmap_ok xs)
    let ?e = "unat i div 8" and ?b = "unat i mod 8"
    let ?ys = "xs[?e := xs ! ?e AND NOT (push_bit ?b 1)]"
    have len: "length xs = 496" using bitmap_ok(4) by (simp add: bitvec_constants)
    have e: "?e < 496" using i bitmap_ok(3) by (simp add: bitvec_constants word_less_nat_alt)
    have "contains (Bitvec s n 0 (Bitmap ?ys)) j \<longleftrightarrow> contains (Bitvec s n 0 (Bitmap xs)) j \<and> j \<noteq> i" for j
    proof (cases "unat j div 8 = ?e")
      case True
      have "bit (xs ! ?e AND NOT (push_bit ?b 1)) (unat j mod 8) \<longleftrightarrow> bit (xs ! ?e) (unat j mod 8) \<and> unat j mod 8 \<noteq> ?b"
        by (auto simp: bit_simps)
      moreover have "unat j mod 8 = ?b \<longleftrightarrow> j = i" using True by (metis div_mult_mod_eq word_unat_eq_iff)
      ultimately show ?thesis using True e len by (simp add: bitvec_constants)
    next
      case False
      then show ?thesis by (auto simp: bitvec_constants)
    qed
    moreover have "bitvec_ok (Bitvec s n 0 (Bitmap ?ys))"
      using bitmap_ok(3) len by (intro bitvec_ok.bitmap_ok) (simp_all add: bitvec_constants)
    moreover have "clear_bit (Bitvec s n d w) i = Inr (Bitvec s n 0 (Bitmap ?ys))"
      using bitmap_ok e len by (simp add: clear_bit.simps bitvec_constants Let_def)
    ultimately show ?thesis using bitmap_ok(1,2) by simp
  next
    case (hash_ok xs)
    have "filled (replicate BITVEC_NINT 0) = 0" "probe_table (replicate BITVEC_NINT 0)" "held (replicate BITVEC_NINT 0) = {}"
      by (auto simp: probe_table_def filled_def held_def)
    then obtain ys n' where ys: "rebuild (replicate BITVEC_NINT 0) 0 xs (i + 1) = Inr (ys, n')" "probe_table ys"
        "unat n' = filled ys" "filled ys \<le> filled xs" "held ys = held xs - {i + 1}"
      using rebuild_ok [of "replicate BITVEC_NINT 0" xs 0 "i + 1"] hash_ok(6) by auto
    have "clear_bit (Bitvec s n d w) i = Inr (Bitvec s n' 0 (Hash ys))"
      using hash_ok(1-3) ys(1) by (simp add: clear_bit.simps)
    moreover have "bitvec_ok (Bitvec s n' 0 (Hash ys))"
      using hash_ok ys by (intro bitvec_ok.hash_ok) auto
    ultimately show ?thesis using hash_ok(1,2) ys(5) by simp
  next
    case (sub_ok xs)
    note bin = bin_less [OF sub_ok(3,2) i]
    show ?thesis
    proof (cases "xs ! unat (i div d)")
      case None
      then have "clear_bit (Bitvec s n d w) i = Inr (Bitvec s n d w)"
        using bin sub_ok by (simp add: clear_bit.simps)
      then show ?thesis using "1.prems"(1) None sub_ok(1) by auto
    next
      case (Some q)
      have q: "Some q \<in> set xs" using Some bin(2) sub_ok(4) by (metis nth_mem)
      then obtain q' where q': "clear_bit q (i mod d) = Inr q'" "bitvec_ok q'" "iSize q' = d"
          "\<forall>j<d. contains q' j \<longleftrightarrow> contains q j \<and> j \<noteq> i mod d"
        using "1.IH" [of xs "Some q" q] sub_ok bin Some by auto
      let ?p' = "Bitvec s n d (Sub (xs[unat (i div d) := Some q']))"
      have "clear_bit (Bitvec s n d w) i = Inr ?p'"
        using bin sub_ok(1,4) Some q'(1) by (simp add: clear_bit.simps)
      moreover have "bitvec_ok ?p'"
        using sub_ok q'(2,3) by (intro bitvec_ok.sub_ok) (auto dest!: set_update_subset_insert [THEN subsetD])
      moreover have "contains ?p' j \<longleftrightarrow> contains (Bitvec s n d w) j \<and> j \<noteq> i" if "j < s" for j
      proof (cases "j div d = i div d")
        case True
        have "j mod d = i mod d \<longleftrightarrow> j = i" using True sub_index_eq by blast
        moreover have "contains ?p' j \<longleftrightarrow> contains q' (j mod d)"
          unfolding contains_replaced [OF sub_ok(4) bin(2)] using True by simp
        ultimately show ?thesis
          using True q'(4) bin_less(3) [OF sub_ok(3,2) that] Some sub_ok(1) by simp
      next
        case False
        have "contains ?p' j \<longleftrightarrow> contains (Bitvec s n d (Sub xs)) j"
          unfolding contains_replaced [OF sub_ok(4) bin(2)] using False by simp
        then show ?thesis using False sub_ok(1) by auto
      qed
      ultimately show ?thesis by auto
    qed
  qed
qed

section \<open>Runs of calls\<close>

text \<open>A call of the interface, and the set of numbers it should act on.\<close>

datatype bitvec_op = TestBit u32 | SetBit u32 | ClearBit u32

fun bitvec_step :: "(nat \<Rightarrow> bool) \<Rightarrow> bitvec option \<times> nat \<Rightarrow> bitvec_op \<Rightarrow> ((bitvec option \<times> nat) \<times> int) res" where
  "bitvec_step mem (p, k) (TestBit i) = bind_res (sqlite3BitvecTest p i) (\<lambda>b. Inr ((p, k), of_bool b))"
| "bitvec_step mem (p, k) (SetBit i) = bind_res (sqlite3BitvecSet 9 mem p k i) (\<lambda>(p, k, rc). Inr ((p, k), rc))"
| "bitvec_step mem (p, k) (ClearBit i) = bind_res (sqlite3BitvecClear p i) (\<lambda>p. Inr ((p, k), 0))"

fun number_step :: "u32 set \<Rightarrow> bitvec_op \<Rightarrow> u32 set \<times> int" where
  "number_step m (TestBit i) = (m, of_bool (i \<in> m))"
| "number_step m (SetBit i) = (insert i m, SQLITE_OK)"
| "number_step m (ClearBit i) = (m - {i}, 0)"

text \<open>What the code asserts of its callers.\<close>

fun in_range :: "u32 \<Rightarrow> bitvec_op \<Rightarrow> bool" where
  "in_range n (TestBit i) \<longleftrightarrow> True"
| "in_range n (SetBit i) \<longleftrightarrow> 0 < i \<and> i \<le> n"
| "in_range n (ClearBit i) \<longleftrightarrow> 0 < i \<and> i \<le> n"

text \<open>The vector holds only members of the set, and all of them when \<open>exact\<close>.\<close>

definition rep_bits :: "u32 \<Rightarrow> bool \<Rightarrow> bitvec option \<times> nat \<Rightarrow> u32 set \<Rightarrow> bool" where
  "rep_bits n exact s m \<longleftrightarrow> (\<exists>p. fst s = Some p \<and> bitvec_ok p \<and> iSize p = n \<and>
     (\<forall>j<n. (contains p j \<longrightarrow> j + 1 \<in> m) \<and> (exact \<longrightarrow> j + 1 \<in> m \<longrightarrow> contains p j)) \<and> (\<forall>i\<in>m. 0 < i \<and> i \<le> n))"

lemma rep_bitsI:
  assumes "bitvec_ok p" "iSize p = n"
    "\<forall>j<n. (contains p j \<longrightarrow> j + 1 \<in> m) \<and> (e \<longrightarrow> j + 1 \<in> m \<longrightarrow> contains p j)" "\<forall>i\<in>m. 0 < i \<and> i \<le> n"
  shows "rep_bits n e (Some p, k) m"
  unfolding rep_bits_def fst_conv using assms by blast

lemma rep_bits_create: "rep_bits n e (Some (sqlite3BitvecCreate n), k) {}"
  using bitvec_create_ok by (auto simp: rep_bits_def)

lemma below_size: "0 < i \<Longrightarrow> i \<le> n \<Longrightarrow> i - 1 < n" for i n :: u32
  using unat_minus_one [of i] unat_gt_0 [of i] by (auto simp: word_less_nat_alt word_le_nat_alt)

lemma test_rep:
  assumes "rep_bits n e s m"
  shows "\<exists>b. sqlite3BitvecTest (fst s) i = Inr b \<and> (b \<longrightarrow> i \<in> m) \<and> (e \<longrightarrow> i \<in> m \<longrightarrow> b)"
proof -
  obtain p where p: "fst s = Some p" "bitvec_ok p" "iSize p = n" "\<forall>i\<in>m. 0 < i \<and> i \<le> n"
    "\<forall>j<n. (contains p j \<longrightarrow> j + 1 \<in> m) \<and> (e \<longrightarrow> j + 1 \<in> m \<longrightarrow> contains p j)"
    using assms by (auto simp: rep_bits_def)
  show ?thesis
  proof (cases "i - 1 < n")
    case True
    have "i - 1 + 1 = i" by simp
    then have "(contains p (i - 1) \<longrightarrow> i \<in> m) \<and> (e \<longrightarrow> i \<in> m \<longrightarrow> contains p (i - 1))" using p(5) True by metis
    then show ?thesis
      using True test_bit_ok [OF p(2), of "i - 1"] p(1,3)
      by (auto simp: sqlite3BitvecTest_def sqlite3BitvecTestNotNull_def Let_def not_le [symmetric])
  next
    case False
    then have "i \<notin> m" using p(4) below_size by blast
    then show ?thesis
      using False p(1,3) by (auto simp: sqlite3BitvecTest_def sqlite3BitvecTestNotNull_def Let_def not_less)
  qed
qed

lemma set_rep:
  assumes "rep_bits n e (p, k) m" and "0 < i" "i \<le> n"
  shows "\<exists>p' k' rc. sqlite3BitvecSet 9 mem p k i = Inr (p', k', rc) \<and> (rc = SQLITE_OK \<or> rc = SQLITE_NOMEM) \<and>
    ((\<forall>k. mem k) \<longrightarrow> rc = SQLITE_OK) \<and> rep_bits n (e \<and> rc = SQLITE_OK) (p', k') (insert i m)"
proof -
  obtain q where q: "p = Some q" "bitvec_ok q" "iSize q = n" "\<forall>i\<in>m. 0 < i \<and> i \<le> n"
    "\<forall>j<n. (contains q j \<longrightarrow> j + 1 \<in> m) \<and> (e \<longrightarrow> j + 1 \<in> m \<longrightarrow> contains q j)"
    using assms(1) by (auto simp: rep_bits_def)
  have "set_done mem q (i - 1) (set_bit 9 mem q k (i - 1))"
    using q(2,3) below_size [OF assms(2,3)] unat_below_32 [of n] by (intro set_bit_ok [where m = 4]) simp_all
  then obtain q' k' rc where run: "set_bit 9 mem q k (i - 1) = Inr (q', k', rc)" "bitvec_ok q'" "iSize q' = n"
      "rc = SQLITE_OK \<or> rc = SQLITE_NOMEM" "(\<forall>k. mem k) \<longrightarrow> rc = SQLITE_OK"
      "\<forall>j<n. (contains q' j \<longrightarrow> contains q j \<or> j = i - 1) \<and> (rc = SQLITE_OK \<longrightarrow> contains q j \<or> j = i - 1 \<longrightarrow> contains q' j)"
    using q(3) by (auto simp: set_done_def)
  have eq: "j = i - 1 \<longleftrightarrow> j + 1 = i" for j by auto
  have "\<forall>j<n. (contains q' j \<longrightarrow> j + 1 \<in> insert i m) \<and> (e \<and> rc = SQLITE_OK \<longrightarrow> j + 1 \<in> insert i m \<longrightarrow> contains q' j)"
    using run(6) q(5) unfolding eq by blast
  then have "rep_bits n (e \<and> rc = SQLITE_OK) (Some q', k') (insert i m)"
    using run(2,3) q(4) assms(2,3) by (simp add: rep_bits_def)
  then show ?thesis using run(1,4,5) q(1) by (simp add: sqlite3BitvecSet_def)
qed

lemma clear_rep:
  assumes "rep_bits n e (p, k) m" and "0 < i" "i \<le> n"
  shows "\<exists>p'. sqlite3BitvecClear p i = Inr p' \<and> rep_bits n e (p', k) (m - {i})"
proof -
  obtain q where q: "p = Some q" "bitvec_ok q" "iSize q = n" "\<forall>i\<in>m. 0 < i \<and> i \<le> n"
    "\<forall>j<n. (contains q j \<longrightarrow> j + 1 \<in> m) \<and> (e \<longrightarrow> j + 1 \<in> m \<longrightarrow> contains q j)"
    using assms(1) by (auto simp: rep_bits_def)
  obtain q' where run: "clear_bit q (i - 1) = Inr q'" "bitvec_ok q'" "iSize q' = n"
      "\<forall>j<n. contains q' j \<longleftrightarrow> contains q j \<and> j \<noteq> i - 1"
    using clear_bit_ok [OF q(2), of "i - 1"] below_size [OF assms(2,3)] q(3) by auto
  have eq: "j = i - 1 \<longleftrightarrow> j + 1 = i" for j by auto
  have "\<forall>j<n. (contains q' j \<longrightarrow> j + 1 \<in> m - {i}) \<and> (e \<longrightarrow> j + 1 \<in> m - {i} \<longrightarrow> contains q' j)"
    using run(4) q(5) unfolding eq by blast
  moreover have "\<forall>x\<in>m - {i}. 0 < x \<and> x \<le> n" using q(4) by blast
  ultimately have "rep_bits n e (Some q', k) (m - {i})" by (rule rep_bitsI [OF run(2,3)])
  then show ?thesis using run(1) q(1) by (simp add: sqlite3BitvecClear_def)
qed

lemma bitvec_step_sim:
  assumes "rep_bits n True s m" and "in_range n c" and "\<forall>k. mem k"
  shows "\<exists>s'. bitvec_step mem s c = Inr (s', snd (number_step m c)) \<and> rep_bits n True s' (fst (number_step m c))"
proof -
  obtain p k where s: "s = (p, k)" by (cases s)
  show ?thesis
  proof (cases c)
    case (TestBit i)
    then show ?thesis using test_rep [OF assms(1), of i] assms(1) by (auto simp: s)
  next
    case (SetBit i)
    then show ?thesis using set_rep [OF assms(1) [unfolded s], of i mem] assms(2,3) by (fastforce simp: s)
  next
    case (ClearBit i)
    then show ?thesis using clear_rep [OF assms(1) [unfolded s], of i] assms(2) by (auto simp: s)
  qed
qed

interpretation bit_set: simulated "rep_bits n True" "\<lambda>s. in_range n" "bitvec_step (\<lambda>k. True)" number_step for n
  by unfold_locales (rule bitvec_step_sim, auto)

lemma all_in_range: "\<forall>c\<in>set cs. in_range n c \<Longrightarrow> run_allowed (\<lambda>s. in_range n) step s cs"
  by (induction cs arbitrary: s) (auto split: sum.split)

text \<open>With refused allocations.\<close>

lemma bitvec_step_any:
  assumes "rep_bits n e s m" and "in_range n c"
  shows "\<exists>s' r. bitvec_step mem s c = Inr (s', r) \<and> rep_bits n (e \<and> r \<noteq> SQLITE_NOMEM) s' (fst (number_step m c))"
proof -
  obtain p k where s: "s = (p, k)" by (cases s)
  show ?thesis
  proof (cases c)
    case (TestBit i)
    then show ?thesis using test_rep [OF assms(1), of i] assms(1) by (auto simp: s SQLITE_NOMEM_def)
  next
    case (SetBit i)
    have i: "0 < i" "i \<le> n" using assms(2) SetBit by simp_all
    obtain p' k' rc where run: "sqlite3BitvecSet 9 mem p k i = Inr (p', k', rc)" "rc = SQLITE_OK \<or> rc = SQLITE_NOMEM"
        "rep_bits n (e \<and> rc = SQLITE_OK) (p', k') (insert i m)"
      using set_rep [OF assms(1) [unfolded s] i, of mem] by blast
    then have "rc \<noteq> SQLITE_NOMEM \<longleftrightarrow> rc = SQLITE_OK" by (auto simp: SQLITE_NOMEM_def SQLITE_OK_def)
    then show ?thesis using run(1,3) SetBit by (simp add: s)
  next
    case (ClearBit i)
    then show ?thesis using clear_rep [OF assms(1) [unfolded s], of i] assms(2) by (auto simp: s SQLITE_NOMEM_def)
  qed
qed

lemma bitvec_run_any:
  "rep_bits n e s m \<Longrightarrow> \<forall>c\<in>set cs. in_range n c \<Longrightarrow>
   \<exists>s' rs. run_ops (bitvec_step mem) s cs = Inr (s', rs) \<and>
     rep_bits n (e \<and> SQLITE_NOMEM \<notin> set rs) s' (fst (run_spec number_step m cs))"
proof (induction cs arbitrary: e s m)
  case (Cons c cs)
  obtain s1 r where one: "bitvec_step mem s c = Inr (s1, r)" "rep_bits n (e \<and> r \<noteq> SQLITE_NOMEM) s1 (fst (number_step m c))"
    using bitvec_step_any [OF Cons.prems(1), of c mem] Cons.prems(2) by auto
  obtain s2 rs where two: "run_ops (bitvec_step mem) s1 cs = Inr (s2, rs)"
      "rep_bits n ((e \<and> r \<noteq> SQLITE_NOMEM) \<and> SQLITE_NOMEM \<notin> set rs) s2 (fst (run_spec number_step (fst (number_step m c)) cs))"
    using Cons.IH [OF one(2)] Cons.prems(2) by auto
  have "(e \<and> SQLITE_NOMEM \<notin> set (r # rs)) = ((e \<and> r \<noteq> SQLITE_NOMEM) \<and> SQLITE_NOMEM \<notin> set rs)" by auto
  then show ?case using one(1) two
    by (cases "number_step m c"; cases "run_spec number_step (fst (number_step m c)) cs") simp
qed simp

text \<open>Seventy numbers with one home probe_slot, which divide the table.\<close>

definition spread_number :: "nat \<Rightarrow> u32" where
  "spread_number j = of_nat (124 * j + 1)"

definition spread :: "nat \<Rightarrow> bitvec_op" where
  "spread j = SetBit (spread_number j)"

lemma spread_nat: "j < 70 \<Longrightarrow> unat (spread_number j) = 124 * j + 1"
  by (simp only: spread_number_def Word.unat_of_nat) simp

lemma spread_range: "j < 70 \<Longrightarrow> in_range 100000 (spread j)"
  using spread_nat [of j] unfolding spread_def in_range.simps word_less_nat_alt word_le_nat_alt by simp

lemma spread_mem:
  assumes "unat i < 10000"
  shows "i \<in> spread_number ` {0..<70} \<longleftrightarrow> unat i mod 124 = 1 \<and> unat i div 124 < 70"
proof -
  have "i \<in> spread_number ` {0..<70} \<longleftrightarrow> (\<exists>j<70. unat i = 124 * j + 1)"
    using spread_nat by (auto simp: image_iff word_unat_eq_iff)
  also have "\<dots> \<longleftrightarrow> unat i mod 124 = 1 \<and> unat i div 124 < 70"
  proof
    assume "\<exists>j<70. unat i = 124 * j + 1"
    then show "unat i mod 124 = 1 \<and> unat i div 124 < 70" by auto
  next
    assume r: "unat i mod 124 = 1 \<and> unat i div 124 < 70"
    then have "unat i = 124 * (unat i div 124) + 1" using mult_div_mod_eq [of 124 "unat i"] by linarith
    then show "\<exists>j<70. unat i = 124 * j + 1" using r by blast
  qed
  finally show ?thesis .
qed

lemma run_spread:
  "run_spec number_step m (map spread js @ cs) =
   (let (m', rs) = run_spec number_step (m \<union> spread_number ` set js) cs in (m', replicate (length js) SQLITE_OK @ rs))"
proof (induction js arbitrary: m)
  case Nil
  then show ?case by simp
next
  case (Cons j js)
  have "insert (spread_number j) m \<union> spread_number ` set js = m \<union> spread_number ` set (j # js)"
    by auto
  then show ?case using Cons [of "insert (spread_number j) m"]
    by (simp add: spread_def split: prod.split)
qed

section \<open>Properties\<close>

text \<open>C37. A bit vector is a set of numbers.  Whatever numbers between 1 and its size are set, cleared and
  tested, in any order, every call returns what it returns on a set; so no bit is lost or invented when
  values collide in the hash table, when the table is built again without one of them, when it fills up
  and is divided into 62 smaller vectors, or in the parts of those parts; and no loop runs round the
  table for ever, no array is left and no view of the union is read that was not written.  Memory is
  granted; the size is any 32-bit number.\<close>

theorem bitvec_is_set:
  assumes "\<forall>c\<in>set ops. in_range n c"
  shows "\<exists>s. run_ops (bitvec_step (\<lambda>k. True)) (Some (sqlite3BitvecCreate n), 0) ops =
    Inr (s, snd (run_spec number_step {} ops))"
  using bit_set.run_sim [OF rep_bits_create all_in_range [OF assms]] by blast

theorem bitvec_is_set_witness:
  "\<exists>s. run_ops (bitvec_step (\<lambda>k. True)) (Some (sqlite3BitvecCreate 100000), 0)
      (map spread [0..<70] @ [TestBit 1, TestBit 2, ClearBit 125, TestBit 125, TestBit 8557]) =
    Inr (s, replicate 70 0 @ [1, 0, 0, 0, 1])"
proof -
  let ?ops = "map spread [0..<70] @ [TestBit 1, TestBit 2, ClearBit 125, TestBit 125, TestBit 8557]"
  have "\<forall>c\<in>set ?ops. in_range 100000 c"
    using spread_range by auto
  moreover have "snd (run_spec number_step {} ?ops) = replicate 70 0 @ [1, 0, 0, 0, 1]"
    by (simp add: run_spread SQLITE_OK_def spread_mem [of 1] spread_mem [of 2] spread_mem [of 8557])
  ultimately show ?thesis using bitvec_is_set [of ?ops 100000] by simp
qed

text \<open>C38. Refused allocations.  Whichever requests for memory the allocator refuses, every call returns, and a
  number that tests true was set and not cleared since; when no call answered \<open>SQLITE_NOMEM\<close>, every such
  number tests true.\<close>

theorem bitvec_refused_memory:
  assumes "\<forall>c\<in>set ops. in_range n c"
  shows "\<exists>p k rs. run_ops (bitvec_step mem) (Some (sqlite3BitvecCreate n), 0) ops = Inr ((p, k), rs) \<and>
    (\<forall>i. \<exists>b. sqlite3BitvecTest p i = Inr b \<and> (b \<longrightarrow> i \<in> fst (run_spec number_step {} ops)) \<and>
      (SQLITE_NOMEM \<notin> set rs \<longrightarrow> i \<in> fst (run_spec number_step {} ops) \<longrightarrow> b))"
proof -
  obtain p k rs where run: "run_ops (bitvec_step mem) (Some (sqlite3BitvecCreate n), 0) ops = Inr ((p, k), rs)"
      "rep_bits n (True \<and> SQLITE_NOMEM \<notin> set rs) (p, k) (fst (run_spec number_step {} ops))"
    using bitvec_run_any [OF rep_bits_create assms, where e = True and mem = mem] by force
  from test_rep [OF run(2)] show ?thesis using run(1) by fastforce
qed

theorem bitvec_refused_memory_witness:
  "\<exists>p k rs. run_ops (bitvec_step (\<lambda>k. k = 0)) (Some (sqlite3BitvecCreate 100000), 0) (map spread [0..<70]) = Inr ((p, k), rs) \<and>
    (\<forall>i. \<exists>b. sqlite3BitvecTest p i = Inr b \<and> (b \<longrightarrow> i \<in> spread_number ` {0..<70}))"
proof -
  have "\<forall>c\<in>set (map spread [0..<70]). in_range 100000 c" using spread_range by auto
  moreover have "fst (run_spec number_step {} (map spread [0..<70])) = spread_number ` {0..<70}"
    using run_spread [of "{}" "[0..<70]" "[]"] by simp
  ultimately show ?thesis
    using bitvec_refused_memory [of "map spread [0..<70]" 100000 "\<lambda>k. k = 0"] by fastforce
qed

end
