(* ===== verification/SqliteCompare.thy ===== *)
theory SqliteCompare
  imports SqliteRecord SqliteOs
begin

unbundle bit_operations_syntax

text \<open>
  The order of values and of records, vdbeaux.c inside components/Ledger/src/sqlite3.c: the order an
  index is kept in and searched by.  \<open>sqlite3MemCompare\<close> compares two values, the comparison of a record
  with an unpacked key reads the record field by field without unpacking it, and two faster functions
  do so when the first field of the key is an integer or a text.

  A double is its 64 bits, read as IEEE 754 has them.  A collating sequence is a record of its encoding and its
  comparison; the translation of a text to another encoding is an argument, \<open>None\<close> when there is no memory.
  \<open>ld\<close> is \<open>sqlite3Config.bUseLongDouble\<close>.
\<close>

section \<open>Doubles\<close>

text \<open>The value of a double, in units of 2 to the -1074, the least positive one; an infinity lies beyond all.\<close>

definition dbl_units :: "u64 \<Rightarrow> int" where
  "dbl_units x =
     (let e = unat (drop_bit 52 x AND 0x7ff); m = uint (x AND MAN754);
          a = (if e = 0 then m else (2 ^ 52 + m) * 2 ^ (e - 1))
      in if bit x 63 then - a else a)"

definition units_one :: int where "units_one = 2 ^ 1074"

definition int_units :: "int \<Rightarrow> int" where
  "int_units i = i * units_one"

definition dbl_less :: "u64 \<Rightarrow> u64 \<Rightarrow> bool" where
  "dbl_less x y \<longleftrightarrow> \<not> IsNaN x \<and> \<not> IsNaN y \<and> dbl_units x < dbl_units y"

text \<open>\<open>(i64)r\<close> drops the fraction and is undefined out of range.  \<open>(double)i\<close> is the nearest double, of two the one
  with an even last bit; \<open>excess_bits\<close> says how many bits do not fit into the 53 of a double.\<close>

definition cast_i64 :: "u64 \<Rightarrow> int res" where
  "cast_i64 r =
     (let u = dbl_units r; y = sgn u * (\<bar>u\<bar> div units_one)
      in if \<not> IsNaN r \<and> fits 64 y then Inr y else Inl SignedOverflow)"

fun excess_bits :: "nat \<Rightarrow> nat" where
  "excess_bits m = (if m < 2 ^ 53 then 0 else Suc (excess_bits (m div 2)))"

declare excess_bits.simps [simp del]

definition cast_double_units :: "int \<Rightarrow> int" where
  "cast_double_units i =
     (let m = nat \<bar>i\<bar>; k = excess_bits m; q = m div 2 ^ k; r = m mod 2 ^ k;
          q' = (if 2 * r > 2 ^ k \<or> 2 * r = 2 ^ k \<and> odd q then q + 1 else q)
      in int_units (sgn i * int (q' * 2 ^ k)))"

text \<open>A long double holds every 64-bit integer exactly.\<close>

definition sqlite3IntFloatCompare :: "bool \<Rightarrow> int \<Rightarrow> u64 \<Rightarrow> int res" where
  "sqlite3IntFloatCompare ld i r =
     (if IsNaN r then Inr 1
      else if ld then
        (let x = int_units i in Inr (if x < dbl_units r then -1 else of_bool (x > dbl_units r)))
      else if dbl_units r < int_units (- 9223372036854775808) then Inr 1
      else if dbl_units r \<ge> int_units 9223372036854775808 then Inr (- 1)
      else
        bind_res (cast_i64 r) (\<lambda>y.
        if i < y then Inr (- 1) else if i > y then Inr 1
        else let s = cast_double_units i
             in Inr (if s < dbl_units r then -1 else of_bool (s > dbl_units r))))"

section \<open>Comparing two values\<close>

text \<open>Two values compared as texts or blobs: \<open>memcmp\<close>, a load outside either is a fault.\<close>

fun memcmp :: "u8 list \<Rightarrow> u8 list \<Rightarrow> nat \<Rightarrow> int res" where
  "memcmp xs ys 0 = Inr 0"
| "memcmp (x # xs) (y # ys) (Suc n) = (if x = y then memcmp xs ys n else Inr (uint x - uint y))"
| "memcmp xs ys (Suc n) = Inl OutOfBounds"

record collseq =
  coll_enc :: nat
  xCmp :: "u8 list \<Rightarrow> u8 list \<Rightarrow> int"

type_synonym recoder = "nat \<Rightarrow> nat \<Rightarrow> u8 list \<Rightarrow> u8 list option"

text \<open>The second component tells whether memory ran out.\<close>

definition vdbeCompareMemString :: "recoder \<Rightarrow> nat \<Rightarrow> u8 list \<Rightarrow> u8 list \<Rightarrow> collseq \<Rightarrow> int \<times> bool" where
  "vdbeCompareMemString recode enc z1 z2 coll =
     (if enc = coll_enc coll then (xCmp coll z1 z2, False)
      else case (recode enc (coll_enc coll) z1, recode enc (coll_enc coll) z2) of
          (Some v1, Some v2) \<Rightarrow> (xCmp coll v1 v2, False)
        | _ \<Rightarrow> (0, True))"

fun isAllZero :: "u8 list \<Rightarrow> nat \<Rightarrow> bool res" where
  "isAllZero z 0 = Inr True"
| "isAllZero [] (Suc n) = Inl OutOfBounds"
| "isAllZero (c # z) (Suc n) = (if c \<noteq> 0 then Inr False else isAllZero z n)"

text \<open>The bytes and the counted zeros of a value that is a text or a blob.\<close>

definition blob_compare :: "u8 list \<Rightarrow> nat \<Rightarrow> u8 list \<Rightarrow> nat \<Rightarrow> int res" where
  "blob_compare z1 k1 z2 k2 =
     (if k1 \<noteq> 0 \<or> k2 \<noteq> 0 then
        if k1 \<noteq> 0 \<and> k2 \<noteq> 0 then sub_int (int k1) (int k2)
        else if k1 \<noteq> 0 then
          bind_res (isAllZero z2 (length z2)) (\<lambda>b. if \<not> b then Inr (- 1) else sub_int (int k1) (int (length z2)))
        else
          bind_res (isAllZero z1 (length z1)) (\<lambda>b. if \<not> b then Inr 1 else sub_int (int (length z1)) (int k2))
      else
        bind_res (memcmp z1 z2 (min (length z1) (length z2))) (\<lambda>c.
        if c \<noteq> 0 then Inr c else sub_int (int (length z1)) (int (length z2))))"

definition sqlite3BlobCompare :: "mem_cell \<Rightarrow> mem_cell \<Rightarrow> int res" where
  "sqlite3BlobCompare a b = blob_compare (cell_bytes a) (zeros a) (cell_bytes b) (zeros b)"

definition int_compare :: "int \<Rightarrow> int \<Rightarrow> int" where
  "int_compare a b = (if a < b then -1 else if a > b then 1 else 0)"

definition real_compare :: "u64 \<Rightarrow> u64 \<Rightarrow> int" where
  "real_compare a b = (if dbl_less a b then -1 else if dbl_less b a then 1 else 0)"

text \<open>The flags of the two values, case by case.\<close>

definition sqlite3MemCompare :: "recoder \<Rightarrow> bool \<Rightarrow> nat \<Rightarrow> mem_cell \<Rightarrow> mem_cell \<Rightarrow> collseq option \<Rightarrow> int res" where
  "sqlite3MemCompare recode ld enc m1 m2 coll =
     (case (m1, m2) of
        (MNull _, MNull _) \<Rightarrow> Inr 0
      | (MNull _, _) \<Rightarrow> Inr (- 1)
      | (_, MNull _) \<Rightarrow> Inr 1
      | (MInt a, MInt b) \<Rightarrow> Inr (int_compare a b)
      | (MIntReal a, MIntReal b) \<Rightarrow> Inr (int_compare a b)
      | (MReal a, MReal b) \<Rightarrow> Inr (real_compare a b)
      | (MInt a, MReal b) \<Rightarrow> sqlite3IntFloatCompare ld a b
      | (MIntReal a, MReal b) \<Rightarrow> sqlite3IntFloatCompare ld a b
      | (MInt a, MIntReal b) \<Rightarrow> Inr (int_compare a b)
      | (MIntReal a, MInt b) \<Rightarrow> Inr (int_compare a b)
      | (MInt _, _) \<Rightarrow> Inr (- 1)
      | (MIntReal _, _) \<Rightarrow> Inr (- 1)
      | (MReal a, MInt b) \<Rightarrow> bind_res (sqlite3IntFloatCompare ld b a) (\<lambda>c. Inr (- c))
      | (MReal a, MIntReal b) \<Rightarrow> bind_res (sqlite3IntFloatCompare ld b a) (\<lambda>c. Inr (- c))
      | (MReal _, _) \<Rightarrow> Inr (- 1)
      | (_, MInt _) \<Rightarrow> Inr 1
      | (_, MIntReal _) \<Rightarrow> Inr 1
      | (_, MReal _) \<Rightarrow> Inr 1
      | (MStr a, MStr b) \<Rightarrow>
          (case coll of
             Some c \<Rightarrow> Inr (fst (vdbeCompareMemString recode enc a b c))
           | None \<Rightarrow> sqlite3BlobCompare m1 m2)
      | (MBlob _ _, MStr _) \<Rightarrow> Inr 1
      | (MStr _, MBlob _ _) \<Rightarrow> Inr (- 1)
      | (MBlob _ _, MBlob _ _) \<Rightarrow> sqlite3BlobCompare m1 m2)"

section \<open>Integers and doubles in their exact order\<close>

lemma sgn_eq_cases: "sgn c = (if x < y then - 1 else if x = y then 0 else 1) \<longleftrightarrow>
    (c < 0 \<longleftrightarrow> x < y) \<and> (c = 0 \<longleftrightarrow> x = y)" for x y :: "'a::linorder" and c :: int
  by (auto simp: sgn_if)

text \<open>The order of any two numbers, as a sign.\<close>

definition order_sgn :: "int \<Rightarrow> int \<Rightarrow> int" where
  "order_sgn x y = (if x < y then - 1 else if x = y then 0 else 1)"

lemma excess_bits_small: "m div 2 ^ excess_bits m < 2 ^ 53"
proof (induction m rule: excess_bits.induct)
  case (1 m)
  then show ?case by (cases "m < 2 ^ 53") (simp_all add: excess_bits.simps [of m] div_mult2_eq)
qed

lemma excess_bits_least: "0 < excess_bits m \<Longrightarrow> 2 ^ 53 \<le> m div 2 ^ (excess_bits m - 1)"
proof (induction m rule: excess_bits.induct)
  case (1 m)
  show ?case
  proof (cases "m < 2 ^ 53")
    case False
    show ?thesis
    proof (cases "excess_bits (m div 2)")
      case 0
      then show ?thesis using False by (simp add: excess_bits.simps [of m])
    next
      case (Suc k)
      then show ?thesis using 1 False by (simp add: excess_bits.simps [of m] div_mult2_eq)
    qed
  qed (use 1 in \<open>simp add: excess_bits.simps [of m]\<close>)
qed

text \<open>An integer that is a double is converted without rounding.\<close>

lemma cast_double_exact:
  assumes "nat \<bar>i\<bar> = a * 2 ^ b" and "a < 2 ^ 53"
  shows "cast_double_units i = int_units i"
proof -
  let ?m = "nat \<bar>i\<bar>" let ?k = "excess_bits ?m"
  have "?m mod 2 ^ ?k = 0"
  proof (cases "?k \<le> b")
    case True
    then have "(2::nat) ^ ?k dvd 2 ^ b" by (rule le_imp_power_dvd)
    then show ?thesis using assms(1) by (metis dvd_mult mod_0_imp_dvd dvd_imp_mod_0)
  next
    case False
    then have "b \<le> ?k - 1" "0 < ?k" by simp_all
    then have "?m div 2 ^ (?k - 1) \<le> ?m div 2 ^ b" by (intro div_le_mono2) (simp_all add: power_increasing)
    also have "\<dots> = a" using assms(1) by simp
    finally have "?m div 2 ^ (?k - 1) \<le> a" .
    then show ?thesis using excess_bits_least [OF \<open>0 < ?k\<close>] assms(2) by simp
  qed
  then have "?m div 2 ^ ?k * 2 ^ ?k = ?m" by (metis add.right_neutral div_mult_mod_eq)
  then have "sgn i * int (?m div 2 ^ ?k * 2 ^ ?k) = i" by (simp only: sgn_if) simp
  moreover have "\<not> (2 * (?m mod 2 ^ ?k) > 2 ^ ?k \<or> 2 * (?m mod 2 ^ ?k) = 2 ^ ?k \<and> odd (?m div 2 ^ ?k))"
    using \<open>?m mod 2 ^ ?k = 0\<close> by simp
  ultimately show ?thesis by (simp only: cast_double_units_def Let_def if_False)
qed

text \<open>A double is a whole number below 2 to the 53 times a power of two.\<close>

lemma dbl_units_form: "\<exists>m e. \<bar>dbl_units x\<bar> = int (m * 2 ^ e) \<and> m < 2 ^ 53"
proof -
  define m where "m = unat (x AND MAN754)"
  define e where "e = unat (drop_bit 52 x AND 0x7ff)"
  have "MAN754 = mask 52" by (simp add: MAN754_def mask_eq_exp_minus_1)
  then have "m = unat (take_bit 52 x)" by (simp only: m_def take_bit_eq_mask)
  then have m: "m < 2 ^ 52" by (simp only: unsigned_take_bit_eq take_bit_nat_less_exp)
  have "uint (x AND MAN754) = int m" by (simp add: m_def)
  then have "\<bar>dbl_units x\<bar> = int (if e = 0 then m * 2 ^ 0 else (2 ^ 52 + m) * 2 ^ (e - 1))"
    by (simp add: dbl_units_def Let_def abs_mult flip: e_def)
  moreover have "2 ^ 52 + m < 2 ^ 53" "m < 2 ^ 53" using m by simp_all
  ultimately show ?thesis by (cases "e = 0") metis+
qed

lemma truncated:
  fixes u y :: int
  assumes "y = sgn u * (\<bar>u\<bar> div U)" and "0 < U"
  shows "i < y \<Longrightarrow> i * U < u" "i > y \<Longrightarrow> i * U > u"
proof -
  have d: "\<bar>u\<bar> div U * U \<le> \<bar>u\<bar>" "\<bar>u\<bar> < (\<bar>u\<bar> div U + 1) * U"
    using assms(2) pos_mod_bound [of U "\<bar>u\<bar>"] div_mult_mod_eq [of "\<bar>u\<bar>" U] pos_mod_sign [of U "\<bar>u\<bar>"]
    unfolding distrib_right mult_1 by linarith+
  have up: "i + 1 \<le> k \<Longrightarrow> (i + 1) * U \<le> k * U" for i k using assms(2) by (simp add: mult_right_mono)
  show "i < y \<Longrightarrow> i * U < u"
    using d assms up [of i y] by (cases "0 \<le> u") (auto simp: sgn_if algebra_simps split: if_splits)
  show "i > y \<Longrightarrow> i * U > u"
    using d assms up [of y i] by (cases "0 \<le> u") (auto simp: sgn_if algebra_simps split: if_splits)
qed

lemma truncated_fits:
  fixes u U :: int
  assumes "0 < U" and "- (2 ^ 63) * U \<le> u" and "u < 2 ^ 63 * U"
  shows "fits 64 (sgn u * (\<bar>u\<bar> div U))"
proof (cases "0 \<le> u")
  case True
  have "u div U < 2 ^ 63"
  proof (rule ccontr)
    assume "\<not> u div U < 2 ^ 63"
    then have "2 ^ 63 * U \<le> u div U * U" using assms(1) by (intro mult_right_mono) simp_all
    then show False using assms(1,3) div_mult_mod_eq [of u U] pos_mod_sign [of U u] by linarith
  qed
  moreover have "0 \<le> u div U" using assms True by (simp add: pos_imp_zdiv_nonneg_iff)
  ultimately
  show ?thesis using True by (auto simp: fits_def sgn_if)
next
  case False
  have "- u div U \<le> 2 ^ 63 * U div U" using assms(1,2) by (intro zdiv_mono1) simp_all
  moreover have "0 \<le> - u div U" using False assms(1) by (simp add: pos_imp_zdiv_nonneg_iff)
  ultimately show ?thesis using False assms(1) by (simp add: fits_def)
qed

lemma units_one_pos [simp]: "0 < units_one" "0 \<le> units_one"
  by (simp_all add: units_one_def)

lemma int_units_mono: "int_units i < int_units j \<longleftrightarrow> i < j"
  by (simp add: int_units_def)

lemma int_units_inj [simp]: "int_units i = int_units j \<longleftrightarrow> i = j"
  by (simp add: int_units_def units_one_def)

lemma cast_double_of_i64:
  assumes "cast_i64 r = Inr y"
  shows "cast_double_units y = int_units y"
proof -
  obtain m e where form: "\<bar>dbl_units r\<bar> = int (m * 2 ^ e)" "m < 2 ^ 53" using dbl_units_form by blast
  have y: "y = sgn (dbl_units r) * (\<bar>dbl_units r\<bar> div units_one)"
    using assms by (auto simp: cast_i64_def Let_def split: if_splits)
  have "\<bar>y\<bar> = int (m * 2 ^ e) div units_one" unfolding y form(1) [symmetric]
    by (cases "dbl_units r = 0") (simp_all add: abs_mult abs_sgn_eq pos_imp_zdiv_nonneg_iff)
  also have "\<dots> = int (m * 2 ^ e div 2 ^ 1074)" by (simp only: zdiv_int of_nat_power of_nat_numeral units_one_def)
  finally have abs: "nat \<bar>y\<bar> = m * 2 ^ e div 2 ^ 1074" by simp
  show ?thesis
  proof (cases "1074 \<le> e")
    case True
    then have "m * 2 ^ e div 2 ^ 1074 = m * 2 ^ (e - 1074)"
      using power_add [of "2::nat" "e - 1074" 1074] by (simp only: le_add_diff_inverse2 mult.assoc [symmetric]) simp
    then show ?thesis using abs form(2) by (intro cast_double_exact [of _ m "e - 1074"]) simp_all
  next
    case False
    then have "(2::nat) ^ e \<le> 2 ^ 1074" by (intro power_increasing) simp_all
    then have "m * 2 ^ e div 2 ^ 1074 \<le> m * 2 ^ e div 2 ^ e" by (rule div_le_mono2 [rotated]) simp
    then have "nat \<bar>y\<bar> < 2 ^ 53" using abs form(2) by simp
    then show ?thesis by (intro cast_double_exact [of _ "nat \<bar>y\<bar>" 0]) simp_all
  qed
qed

lemma int_float_exact:
  assumes "\<not> IsNaN r" and "fits 64 i"
  shows "sqlite3IntFloatCompare ld i r = Inr (order_sgn (int_units i) (dbl_units r))"
proof (cases ld)
  case True
  then show ?thesis using assms(1) by (simp add: sqlite3IntFloatCompare_def order_sgn_def Let_def)
next
  case False
  let ?u = "dbl_units r"
  consider (low) "?u < int_units (- 9223372036854775808)" | (high) "int_units 9223372036854775808 \<le> ?u"
    | (mid) "int_units (- 9223372036854775808) \<le> ?u" "?u < int_units 9223372036854775808" by linarith
  then show ?thesis
  proof cases
    case low
    have "\<not> int_units i < int_units (- 9223372036854775808)" using assms(2) unfolding int_units_mono by (simp add: fits_def)
    then show ?thesis using low False assms(1) by (simp add: sqlite3IntFloatCompare_def order_sgn_def)
  next
    case high
    have "int_units i < int_units 9223372036854775808" using assms(2) by (simp add: int_units_mono fits_def)
    moreover have "int_units (- 9223372036854775808) \<le> int_units 9223372036854775808" by (simp add: int_units_def)
    ultimately show ?thesis using high False assms(1) by (simp add: sqlite3IntFloatCompare_def order_sgn_def)
  next
    case mid
    define y where "y = sgn ?u * (\<bar>?u\<bar> div units_one)"
    note tr = truncated [OF y_def]
    have "fits 64 y" unfolding y_def using mid by (intro truncated_fits) (simp_all add: int_units_def)
    then have cast: "cast_i64 r = Inr y" using assms(1) by (simp add: cast_i64_def Let_def y_def)
    have order: "i < y \<Longrightarrow> int_units i < ?u" "i > y \<Longrightarrow> int_units i > ?u"
      using tr by (simp_all add: int_units_def)
    show ?thesis
      using mid False assms(1) cast order cast_double_of_i64 [OF cast]
      by (auto simp: sqlite3IntFloatCompare_def order_sgn_def Let_def not_less [symmetric])
  qed
qed

section \<open>The order of values\<close>

text \<open>Nulls, then numbers by their exact value, then texts in the order of the collating sequence, then blobs in
  the order of a dictionary; a text without a sequence is ordered as a blob.\<close>

fun bytes_order :: "u8 list \<Rightarrow> u8 list \<Rightarrow> int" where
  "bytes_order [] [] = 0"
| "bytes_order [] (y # ys) = - 1"
| "bytes_order (x # xs) [] = 1"
| "bytes_order (x # xs) (y # ys) = (if x < y then - 1 else if y < x then 1 else bytes_order xs ys)"

fun cell_rank :: "mem_cell \<Rightarrow> nat" where
  "cell_rank (MNull b) = 0"
| "cell_rank (MInt i) = 1"
| "cell_rank (MIntReal i) = 1"
| "cell_rank (MReal r) = 1"
| "cell_rank (MStr z) = 2"
| "cell_rank (MBlob z n) = 3"

fun cell_number :: "mem_cell \<Rightarrow> int" where
  "cell_number (MInt i) = int_units i"
| "cell_number (MIntReal i) = int_units i"
| "cell_number (MReal r) = dbl_units r"
| "cell_number c = 0"

definition cell_full :: "mem_cell \<Rightarrow> u8 list" where
  "cell_full c = cell_bytes c @ replicate (zeros c) 0"

definition text_order :: "recoder \<Rightarrow> nat \<Rightarrow> collseq option \<Rightarrow> u8 list \<Rightarrow> u8 list \<Rightarrow> int" where
  "text_order recode enc coll a b =
     (case coll of None \<Rightarrow> bytes_order a b | Some c \<Rightarrow> sgn (fst (vdbeCompareMemString recode enc a b c)))"

definition cell_order :: "recoder \<Rightarrow> nat \<Rightarrow> collseq option \<Rightarrow> mem_cell \<Rightarrow> mem_cell \<Rightarrow> int" where
  "cell_order recode enc coll a b =
     (if cell_rank a < cell_rank b then - 1 else if cell_rank b < cell_rank a then 1
      else if cell_rank a = 1 then order_sgn (cell_number a) (cell_number b)
      else if cell_rank a = 2 then text_order recode enc coll (cell_bytes a) (cell_bytes b)
      else if cell_rank a = 3 then bytes_order (cell_full a) (cell_full b)
      else 0)"

text \<open>The values a register holds, and sequences whose answers can be negated.\<close>

fun value_ok :: "mem_cell \<Rightarrow> bool" where
  "value_ok (MInt i) = fits 64 i"
| "value_ok (MIntReal i) = fits 64 i"
| "value_ok (MReal r) = (\<not> IsNaN r)"
| "value_ok (MStr z) = (length z < 2 ^ 31)"
| "value_ok (MBlob z n) = (length z < 2 ^ 31 \<and> n < 2 ^ 31 \<and> (n \<noteq> 0 \<longrightarrow> z = []))"
| "value_ok c = True"

definition coll_ok :: "collseq option \<Rightarrow> bool" where
  "coll_ok coll \<longleftrightarrow> (\<forall>c. coll = Some c \<longrightarrow> (\<forall>a b. int_ok (xCmp c a b) \<and> int_ok (- xCmp c a b)))"

lemma memcmp_order:
  "\<exists>c. memcmp xs ys (min (length xs) (length ys)) = Inr c \<and> \<bar>c\<bar> < 256 \<and>
     (if c = 0 then bytes_order xs ys = sgn (int (length xs) - int (length ys)) else bytes_order xs ys = sgn c)"
proof (induction xs ys rule: bytes_order.induct)
  case (4 x xs y ys)
  show ?case
  proof (cases "x = y")
    case False
    have "\<bar>uint x - uint y\<bar> < 256" using byte_fits(3,4) [of x] byte_fits(3,4) [of y] by linarith
    moreover have "uint x \<noteq> uint y" using False by (metis word_uint_eq_iff)
    ultimately show ?thesis using False by (auto simp: word_less_def sgn_if)
  qed (use 4 in \<open>fastforce split: if_splits\<close>)
qed (auto simp: sgn_if)

lemma all_zero: "isAllZero z (length z) = Inr (z = replicate (length z) 0)"
  by (induction z) auto

lemma zeros_order:
  "bytes_order (replicate k 0) (replicate n 0) = sgn (int k - int n)"
  "z \<noteq> replicate (length z) 0 \<Longrightarrow> bytes_order (replicate k 0) z = - 1 \<and> bytes_order z (replicate k 0) = 1"
proof -
  show "bytes_order (replicate k 0) (replicate n 0) = sgn (int k - int n)"
  proof (induction k arbitrary: n)
    case 0
    then show ?case by (cases n) (auto simp: sgn_if)
  next
    case (Suc k)
    then show ?case by (cases n) (auto simp: sgn_if)
  qed
  show "z \<noteq> replicate (length z) 0 \<Longrightarrow> bytes_order (replicate k 0) z = - 1 \<and> bytes_order z (replicate k 0) = 1"
  proof (induction z arbitrary: k)
    case (Cons c z)
    then show ?case by (cases k; cases "c = 0") (auto simp: word_gt_0)
  qed simp
qed

lemma int_ok_diff: "0 \<le> a \<Longrightarrow> a < 2 ^ 31 \<Longrightarrow> 0 \<le> b \<Longrightarrow> b < 2 ^ 31 \<Longrightarrow> int_ok (a - b) \<and> int_ok (- (a - b))"
  by (simp add: int_range_defs)

lemma blob_compare_order:
  assumes "length z1 < 2 ^ 31" "k1 < 2 ^ 31" "length z2 < 2 ^ 31" "k2 < 2 ^ 31" "k1 \<noteq> 0 \<longrightarrow> z1 = []" "k2 \<noteq> 0 \<longrightarrow> z2 = []"
  shows "\<exists>c. blob_compare z1 k1 z2 k2 = Inr c \<and> sgn c = bytes_order (z1 @ replicate k1 0) (z2 @ replicate k2 0) \<and>
    int_ok c \<and> int_ok (- c)"
proof -
  have diff: "int_ok (int a - int b) \<and> int_ok (- (int a - int b))" if "a < 2 ^ 31" "b < 2 ^ 31" for a b
    using that by (simp add: int_range_defs)
  show ?thesis
  proof (cases "k1 = 0 \<and> k2 = 0")
    case True
    then show ?thesis using memcmp_order [of z1 z2] diff [OF assms(1,3)]
      by (fastforce simp: blob_compare_def sub_int_def int_range_defs split: if_splits)
  next
    case False
    then consider "k1 \<noteq> 0 \<and> k2 \<noteq> 0" | "k1 \<noteq> 0 \<and> k2 = 0" | "k1 = 0 \<and> k2 \<noteq> 0"
      by (cases "k1 = 0"; cases "k2 = 0") simp_all
    then show ?thesis
    proof cases
      case 1
      then show ?thesis
        using assms diff [of k1 k2] by (simp add: blob_compare_def sub_int_def zeros_order(1))
    next
      case 2
      then show ?thesis
        using assms diff [of k1 "length z2"] zeros_order(1) [of k1 "length z2"] zeros_order(2) [of z2 k1]
        by (cases "z2 = replicate (length z2) 0") (auto simp: blob_compare_def sub_int_def all_zero int_range_defs)
    next
      case 3
      then show ?thesis
        using assms diff [of "length z1" k2] zeros_order(1) [of "length z1" k2] zeros_order(2) [of z1 k2]
        by (cases "z1 = replicate (length z1) 0") (auto simp: blob_compare_def sub_int_def all_zero int_range_defs)
    qed
  qed
qed

lemma order_sgn_swap: "order_sgn y x = - order_sgn x y"
  by (simp add: order_sgn_def)

lemma number_order [simp]:
  "int_compare i j = order_sgn (int_units i) (int_units j)"
  "\<not> IsNaN r \<Longrightarrow> \<not> IsNaN s \<Longrightarrow> real_compare r s = order_sgn (dbl_units r) (dbl_units s)"
proof -
  show "int_compare i j = order_sgn (int_units i) (int_units j)"
    by (auto simp: int_compare_def order_sgn_def int_units_mono)
qed (auto simp: real_compare_def dbl_less_def order_sgn_def)

lemma order_sgn_sign [simp]: "sgn (order_sgn x y) = order_sgn x y" "int_ok (order_sgn x y)" "int_ok (- order_sgn x y)"
  by (simp_all add: order_sgn_def int_range_defs)

lemma mem_compare_order:
  assumes "value_ok a" and "value_ok b" and "coll_ok coll"
  shows "\<exists>c. sqlite3MemCompare recode ld enc a b coll = Inr c \<and> sgn c = cell_order recode enc coll a b \<and> int_ok c \<and> int_ok (- c)"
proof -
  have one: "int_ok 1" "int_ok (- 1)" "int_ok 0" by (simp_all add: int_range_defs)
  consider (numbers) "cell_rank a = 1" "cell_rank b = 1" | (texts) z1 z2 where "a = MStr z1" "b = MStr z2"
    | (blobs) z1 k1 z2 k2 where "a = MBlob z1 k1" "b = MBlob z2 k2"
    | (ranks) "cell_rank a \<noteq> cell_rank b \<or> cell_rank a = 0"
    by (cases a; cases b) auto
  then show ?thesis
  proof cases
    case numbers
    then show ?thesis using assms(1,2)
      by (cases a; cases b) (auto simp: sqlite3MemCompare_def cell_order_def int_float_exact order_sgn_swap [of "dbl_units _" "int_units _"])
  next
    case texts
    show ?thesis
    proof (cases coll)
      case None
      then show ?thesis using assms(1,2) blob_compare_order [of z1 0 z2 0]
        by (auto simp: texts sqlite3MemCompare_def sqlite3BlobCompare_def cell_order_def text_order_def)
    next
      case (Some c)
      then show ?thesis using assms(3) one
        by (auto simp: texts sqlite3MemCompare_def cell_order_def text_order_def coll_ok_def vdbeCompareMemString_def split: option.split)
    qed
  next
    case blobs
    then show ?thesis using assms(1,2) blob_compare_order [of z1 k1 z2 k2]
      by (auto simp: sqlite3MemCompare_def sqlite3BlobCompare_def cell_order_def cell_full_def)
  next
    case ranks
    then show ?thesis using one by (cases a; cases b) (auto simp: sqlite3MemCompare_def cell_order_def)
  qed
qed

section \<open>Comparing a record with a key\<close>

definition SQLITE_CORRUPT :: int where "SQLITE_CORRUPT = 11"
definition KEYINFO_ORDER_DESC :: u8 where "KEYINFO_ORDER_DESC = 1"
definition KEYINFO_ORDER_BIGNULL :: u8 where "KEYINFO_ORDER_BIGNULL = 2"

record key_info =
  ki_enc :: nat
  nAllField :: nat
  aSortFlags :: "u8 list"
  aColl :: "collseq option list"

datatype key_cache = NoCache | IntCache int | TextCache "u8 list"

record unpacked_record =
  pKeyInfo :: key_info
  aMem :: "mem_cell list"
  u_cache :: key_cache
  n_cache :: nat
  up_nField :: nat
  default_rc :: int
  errCode :: int
  up_r1 :: int
  up_r2 :: int
  eqSeen :: bool

definition is_null :: "mem_cell \<Rightarrow> bool" where
  "is_null m = (case m of MNull b \<Rightarrow> True | _ \<Rightarrow> False)"

definition vdbeRecordDecodeInt :: "u32 \<Rightarrow> u8 list \<Rightarrow> int res" where
  "vdbeRecordDecodeInt t aKey =
     (if t = 0 \<or> t = 1 then ONE_BYTE_INT aKey
      else if t = 2 then TWO_BYTE_INT aKey
      else if t = 3 then THREE_BYTE_INT aKey
      else if t = 4 then bind_res (FOUR_BYTE_UINT aKey) (\<lambda>y. Inr (sint y))
      else if t = 5 then
        bind_res (FOUR_BYTE_UINT (drop 2 aKey)) (\<lambda>lo. bind_res (TWO_BYTE_INT aKey) (\<lambda>hi.
        Inr (uint lo + 2 ^ 32 * hi)))
      else if t = 6 then
        bind_res (FOUR_BYTE_UINT aKey) (\<lambda>hi. bind_res (FOUR_BYTE_UINT (drop 4 aKey)) (\<lambda>lo.
        Inr (sint (push_bit 32 (ucast hi) OR ucast lo :: u64))))
      else Inr (uint (t - 8)))"

text \<open>The double that is read, and whether it is no number.\<close>

definition serialGet7 :: "u8 list \<Rightarrow> (bool \<times> u64) res" where
  "serialGet7 buf =
     bind_res (FOUR_BYTE_UINT buf) (\<lambda>hi. bind_res (FOUR_BYTE_UINT (drop 4 buf)) (\<lambda>lo.
     let x = push_bit 32 (ucast hi) + ucast lo :: u64 in Inr (IsNaN x, x)))"

text \<open>The branches of the loop for a key that is a number; \<open>t\<close> is the one byte read as serial type.\<close>

definition compare_with_int :: "bool \<Rightarrow> u8 list \<Rightarrow> u32 \<Rightarrow> int \<Rightarrow> int res" where
  "compare_with_int ld buf t i =
     (if t \<ge> 10 then Inr (if t = 10 then - 1 else 1)
      else if t = 0 then Inr (- 1)
      else if t = 7 then
        bind_res (serialGet7 buf) (\<lambda>(nan, r). bind_res (sqlite3IntFloatCompare ld i r) (\<lambda>c. Inr (- c)))
      else bind_res (vdbeRecordDecodeInt t buf) (\<lambda>lhs. Inr (int_compare lhs i)))"

definition compare_with_real :: "bool \<Rightarrow> u8 list \<Rightarrow> u32 \<Rightarrow> u64 \<Rightarrow> int res" where
  "compare_with_real ld buf t r =
     (if t \<ge> 10 then Inr (if t = 10 then - 1 else 1)
      else if t = 0 then Inr (- 1)
      else if t = 7 then
        bind_res (serialGet7 buf) (\<lambda>(nan, x). Inr (if nan then - 1 else real_compare x r))
      else bind_res (sqlite3VdbeSerialGet buf t) (\<lambda>m.
        case m of MInt i \<Rightarrow> sqlite3IntFloatCompare ld i r | _ \<Rightarrow> Inl OutOfBounds))"

text \<open>One round of the loop up to the test of \<open>rc\<close>: the record is corrupt, or the result, the serial type and
  whether memory ran out.\<close>

datatype field_result = Corrupt | Field int u32 bool

definition compare_with_text ::
  "recoder \<Rightarrow> u8 list \<Rightarrow> nat \<Rightarrow> nat \<Rightarrow> key_info \<Rightarrow> nat \<Rightarrow> u32 \<Rightarrow> u8 list \<Rightarrow> field_result res" where
  "compare_with_text recode aKey nKey d1 ki i t z =
     (if t < 12 then Inr (Field (- 1) t False)
      else if t AND 1 = 0 then Inr (Field 1 t False)
      else let n = unat ((t - 12) div 2) in
        if d1 + n > nKey \<or> nAllField ki \<le> i then Inr Corrupt
        else bind_res (nth_res (aColl ki) i) (\<lambda>coll. case coll of
            Some c \<Rightarrow> (let (rc, oom) = vdbeCompareMemString recode (ki_enc ki) (take n (drop d1 aKey)) z c in Inr (Field rc t oom))
          | None \<Rightarrow> bind_res (memcmp (drop d1 aKey) z (min n (length z))) (\<lambda>rc.
              if rc = 0 then bind_res (sub_int (int n) (int (length z))) (\<lambda>rc. Inr (Field rc t False))
              else Inr (Field rc t False))))"

definition compare_with_blob ::
  "u8 list \<Rightarrow> nat \<Rightarrow> nat \<Rightarrow> u32 \<Rightarrow> u8 list \<Rightarrow> nat \<Rightarrow> field_result res" where
  "compare_with_blob aKey nKey d1 t z k =
     (if t < 12 \<or> t AND 1 \<noteq> 0 then Inr (Field (- 1) t False)
      else let n = unat ((t - 12) div 2) in
        if d1 + n > nKey then Inr Corrupt
        else if k \<noteq> 0 then
          bind_res (isAllZero (drop d1 aKey) n) (\<lambda>b.
          if \<not> b then Inr (Field 1 t False)
          else bind_res (sub_int (int n) (int k)) (\<lambda>rc. Inr (Field rc t False)))
        else bind_res (memcmp (drop d1 aKey) z (min n (length z))) (\<lambda>rc.
          if rc = 0 then bind_res (sub_int (int n) (int (length z))) (\<lambda>rc. Inr (Field rc t False))
          else Inr (Field rc t False)))"

definition compare_field ::
  "recoder \<Rightarrow> bool \<Rightarrow> u8 list \<Rightarrow> nat \<Rightarrow> key_info \<Rightarrow> nat \<Rightarrow> nat \<Rightarrow> nat \<Rightarrow> mem_cell \<Rightarrow> field_result res" where
  "compare_field recode ld aKey nKey ki i idx1 d1 rhs =
     (let byte = (\<lambda>f. bind_res (nth_res aKey idx1) (\<lambda>b. bind_res (f (ucast b :: u32)) (\<lambda>rc. Inr (Field rc (ucast b) False))))
      in case rhs of
        MInt v \<Rightarrow> byte (\<lambda>t. compare_with_int ld (drop d1 aKey) t v)
      | MIntReal v \<Rightarrow> byte (\<lambda>t. compare_with_int ld (drop d1 aKey) t v)
      | MReal r \<Rightarrow> byte (\<lambda>t. compare_with_real ld (drop d1 aKey) t r)
      | MStr z \<Rightarrow>
          bind_res (getVarint32 (drop idx1 aKey)) (\<lambda>(t, n). compare_with_text recode aKey nKey d1 ki i t z)
      | MBlob z k \<Rightarrow>
          bind_res (getVarint32 (drop idx1 aKey)) (\<lambda>(t, n). compare_with_blob aKey nKey d1 t z k)
      | MNull b \<Rightarrow>
          byte (\<lambda>t. if t = 0 \<or> t = 10 then Inr 0
            else if t = 7 then bind_res (serialGet7 (drop d1 aKey)) (\<lambda>(nan, x). Inr (if nan then 0 else 1))
            else Inr 1))"

text \<open>The order of the column: descending, and nulls at the other end.\<close>

definition sort_flip :: "u8 \<Rightarrow> u32 \<Rightarrow> mem_cell \<Rightarrow> int \<Rightarrow> int res" where
  "sort_flip fl t rhs rc =
     (if fl \<noteq> 0 \<and> (fl AND KEYINFO_ORDER_BIGNULL = 0 \<or> fl AND KEYINFO_ORDER_DESC \<noteq> of_bool (t = 0 \<or> is_null rhs))
      then to_int (- rc) else Inr rc)"

text \<open>The loop; the last argument holds the values from \<open>pRhs\<close> on.\<close>

fun compare_loop ::
  "recoder \<Rightarrow> bool \<Rightarrow> u8 list \<Rightarrow> nat \<Rightarrow> nat \<Rightarrow> unpacked_record \<Rightarrow> nat \<Rightarrow> nat \<Rightarrow> nat \<Rightarrow> mem_cell list \<Rightarrow> (int \<times> unpacked_record) res" where
  "compare_loop recode ld aKey nKey szHdr p i idx1 d1 [] = Inl OutOfBounds"
| "compare_loop recode ld aKey nKey szHdr p i idx1 d1 (rhs # rest) =
     bind_res (compare_field recode ld aKey nKey (pKeyInfo p) i idx1 d1 rhs) (\<lambda>f. case f of
         Corrupt \<Rightarrow> Inr (0, p\<lparr>errCode := SQLITE_CORRUPT\<rparr>)
       | Field rc t oom \<Rightarrow>
           (let p = (if oom then p\<lparr>errCode := SQLITE_NOMEM\<rparr> else p) in
            if rc \<noteq> 0 then
              bind_res (nth_res (aSortFlags (pKeyInfo p)) i) (\<lambda>fl. bind_res (sort_flip fl t rhs rc) (\<lambda>rc. Inr (rc, p)))
            else if i + 1 = up_nField p then Inr (default_rc p, p\<lparr>eqSeen := True\<rparr>)
            else
              let d1 = d1 + sqlite3VdbeSerialTypeLen t in
              if d1 > nKey then Inr (default_rc p, p\<lparr>eqSeen := True\<rparr>)
              else
                let idx1 = idx1 + sqlite3VarintLen (ucast t) in
                if idx1 \<ge> szHdr then Inr (0, p\<lparr>errCode := SQLITE_CORRUPT\<rparr>)
                else compare_loop recode ld aKey nKey szHdr p (i + 1) idx1 d1 rest))"

definition sqlite3VdbeRecordCompareWithSkip ::
  "recoder \<Rightarrow> bool \<Rightarrow> nat \<Rightarrow> u8 list \<Rightarrow> unpacked_record \<Rightarrow> bool \<Rightarrow> (int \<times> unpacked_record) res" where
  "sqlite3VdbeRecordCompareWithSkip recode ld nKey aKey p bSkip =
     bind_res
       (if bSkip then
          bind_res (getVarint32 (drop 1 aKey)) (\<lambda>(s1, n). bind_res (nth_res aKey 0) (\<lambda>szHdr.
          Inr (unat szHdr, 1 + n, unat szHdr + sqlite3VdbeSerialTypeLen s1, 1, drop 1 (aMem p))))
        else bind_res (getVarint32 aKey) (\<lambda>(szHdr, n). Inr (unat szHdr, n, unat szHdr, 0, aMem p)))
       (\<lambda>(szHdr, idx1, d1, i, rhs).
          if d1 > nKey then Inr (0, p\<lparr>errCode := SQLITE_CORRUPT\<rparr>)
          else compare_loop recode ld aKey nKey szHdr p i idx1 d1 rhs)"

definition sqlite3VdbeRecordCompare ::
  "recoder \<Rightarrow> bool \<Rightarrow> nat \<Rightarrow> u8 list \<Rightarrow> unpacked_record \<Rightarrow> (int \<times> unpacked_record) res" where
  "sqlite3VdbeRecordCompare recode ld nKey aKey p = sqlite3VdbeRecordCompareWithSkip recode ld nKey aKey p False"

section \<open>The faster comparisons\<close>

text \<open>The switch over the serial type repeats \<open>vdbeRecordDecodeInt\<close>.\<close>

definition vdbeRecordCompareInt ::
  "recoder \<Rightarrow> bool \<Rightarrow> nat \<Rightarrow> u8 list \<Rightarrow> unpacked_record \<Rightarrow> (int \<times> unpacked_record) res" where
  "vdbeRecordCompareInt recode ld nKey pKey1 p =
     bind_res (nth_res pKey1 0) (\<lambda>sz. bind_res (nth_res pKey1 1) (\<lambda>t.
     let aKey = drop (unat (sz AND 0x3F)) pKey1 in
     if t \<in> {1, 2, 3, 4, 5, 6, 8, 9} then
       bind_res (vdbeRecordDecodeInt (ucast t) aKey) (\<lambda>lhs.
       case u_cache p of
         IntCache v \<Rightarrow>
           if v > lhs then Inr (up_r1 p, p)
           else if v < lhs then Inr (up_r2 p, p)
           else if up_nField p > 1 then sqlite3VdbeRecordCompareWithSkip recode ld nKey pKey1 p True
           else Inr (default_rc p, p\<lparr>eqSeen := True\<rparr>)
       | _ \<Rightarrow> Inl OutOfBounds)
     else sqlite3VdbeRecordCompare recode ld nKey pKey1 p))"

definition vdbeRecordCompareString ::
  "recoder \<Rightarrow> bool \<Rightarrow> nat \<Rightarrow> u8 list \<Rightarrow> unpacked_record \<Rightarrow> (int \<times> unpacked_record) res" where
  "vdbeRecordCompareString recode ld nKey aKey1 p =
     bind_res (nth_res aKey1 1) (\<lambda>b.
     bind_res (if sint b < 0 then bind_res (sqlite3GetVarint32 (drop 1 aKey1)) (\<lambda>(t, n). Inr (sint t)) else Inr (sint b)) (\<lambda>serial_type.
     if serial_type < 12 then Inr (up_r1 p, p)
     else if serial_type AND 1 = 0 then Inr (up_r2 p, p)
     else
       bind_res (nth_res aKey1 0) (\<lambda>szHdr.
       let nStr = nat ((serial_type - 12) div 2) in
       if unat szHdr + nStr > nKey then Inr (0, p\<lparr>errCode := SQLITE_CORRUPT\<rparr>)
       else case u_cache p of
           TextCache z \<Rightarrow>
             bind_res (memcmp (drop (unat szHdr) aKey1) z (min (n_cache p) nStr)) (\<lambda>res.
             if res > 0 then Inr (up_r2 p, p)
             else if res < 0 then Inr (up_r1 p, p)
             else bind_res (sub_int (int nStr) (int (n_cache p))) (\<lambda>res.
               if res = 0 then
                 (if up_nField p > 1 then sqlite3VdbeRecordCompareWithSkip recode ld nKey aKey1 p True
                  else Inr (default_rc p, p\<lparr>eqSeen := True\<rparr>))
               else if res > 0 then Inr (up_r2 p, p) else Inr (up_r1 p, p)))
         | _ \<Rightarrow> Inl OutOfBounds)))"

text \<open>The choice of a comparison, as the function it returns a pointer to.\<close>

datatype record_compare = CompareGeneral | CompareInt | CompareString

definition sqlite3VdbeFindCompare :: "unpacked_record \<Rightarrow> (record_compare \<times> unpacked_record) res" where
  "sqlite3VdbeFindCompare p =
     (if nAllField (pKeyInfo p) \<le> 13 then
        bind_res (nth_res (aMem p) 0) (\<lambda>m. bind_res (nth_res (aSortFlags (pKeyInfo p)) 0) (\<lambda>fl.
        if fl \<noteq> 0 \<and> fl AND KEYINFO_ORDER_BIGNULL \<noteq> 0 then Inr (CompareGeneral, p)
        else
          let p = (if fl \<noteq> 0 then p\<lparr>up_r1 := 1, up_r2 := - 1\<rparr> else p\<lparr>up_r1 := - 1, up_r2 := 1\<rparr>) in
          case m of
            MInt i \<Rightarrow> Inr (CompareInt, p\<lparr>u_cache := IntCache i\<rparr>)
          | MStr z \<Rightarrow>
              bind_res (nth_res (aColl (pKeyInfo p)) 0) (\<lambda>coll.
              if coll = None then Inr (CompareString, p\<lparr>u_cache := TextCache z, n_cache := length z\<rparr>)
              else Inr (CompareGeneral, p))
          | _ \<Rightarrow> Inr (CompareGeneral, p)))
      else Inr (CompareGeneral, p))"

fun call_compare ::
  "record_compare \<Rightarrow> recoder \<Rightarrow> bool \<Rightarrow> nat \<Rightarrow> u8 list \<Rightarrow> unpacked_record \<Rightarrow> (int \<times> unpacked_record) res" where
  "call_compare CompareGeneral = sqlite3VdbeRecordCompare"
| "call_compare CompareInt = vdbeRecordCompareInt"
| "call_compare CompareString = vdbeRecordCompareString"

section \<open>The comparison the debug build checks against\<close>

text \<open>The result is \<open>None\<close> where the function returns 1 without comparing.\<close>

fun debug_loop ::
  "recoder \<Rightarrow> bool \<Rightarrow> bool \<Rightarrow> u8 list \<Rightarrow> nat \<Rightarrow> nat \<Rightarrow> unpacked_record \<Rightarrow> nat \<Rightarrow> nat \<Rightarrow> nat \<Rightarrow> mem_cell list \<Rightarrow> int option res" where
  "debug_loop recode ld corrupt_db aKey nKey szHdr p i idx1 d1 [] = Inl OutOfBounds"
| "debug_loop recode ld corrupt_db aKey nKey szHdr p i idx1 d1 (rhs # rest) =
     bind_res (getVarint32 (drop idx1 aKey)) (\<lambda>(t, n).
     let idx1 = idx1 + n; len = sqlite3VdbeSerialTypeLen t in
     if d1 + unat t + 2 > nKey \<and> d1 + len > nKey then
       (if t \<ge> 1 \<and> t \<le> 7 \<and> d1 + len \<le> nKey + 8 \<and> corrupt_db then Inr None else Inr (Some (default_rc p)))
     else
       bind_res (sqlite3VdbeSerialGet (drop d1 aKey) t) (\<lambda>m.
       bind_res (if nAllField (pKeyInfo p) > i then nth_res (aColl (pKeyInfo p)) i else Inr None) (\<lambda>coll.
       bind_res (sqlite3MemCompare recode ld (ki_enc (pKeyInfo p)) m rhs coll) (\<lambda>rc.
       if rc \<noteq> 0 then
         bind_res (nth_res (aSortFlags (pKeyInfo p)) i) (\<lambda>fl.
         bind_res (if fl AND KEYINFO_ORDER_BIGNULL \<noteq> 0 \<and> (is_null m \<or> is_null rhs) then to_int (- rc) else Inr rc) (\<lambda>rc.
         bind_res (if fl AND KEYINFO_ORDER_DESC \<noteq> 0 then to_int (- rc) else Inr rc) (\<lambda>rc.
         Inr (Some rc))))
       else if idx1 < szHdr \<and> i + 1 < up_nField p
       then debug_loop recode ld corrupt_db aKey nKey szHdr p (i + 1) idx1 (d1 + len) rest
       else Inr (Some (default_rc p))))))"

text \<open>\<open>has_db\<close> tells whether the description of the key names a connection.\<close>

definition vdbeRecordCompareDebug ::
  "bool \<Rightarrow> recoder \<Rightarrow> bool \<Rightarrow> bool \<Rightarrow> bool \<Rightarrow> nat \<Rightarrow> u8 list \<Rightarrow> unpacked_record \<Rightarrow> int \<Rightarrow> int res" where
  "vdbeRecordCompareDebug has_db recode ld corrupt_db malloc_failed nKey aKey p desiredResult =
     (if \<not> has_db then Inr 1
      else bind_res (getVarint32 aKey) (\<lambda>(szHdr, idx1).
     if szHdr > 98307 then Inr SQLITE_CORRUPT
     else
       bind_res (debug_loop recode ld corrupt_db aKey nKey (unat szHdr) p 0 idx1 (unat szHdr) (aMem p)) (\<lambda>r. case r of
           None \<Rightarrow> Inr 1
         | Some rc \<Rightarrow> Inr (of_bool (sgn desiredResult = sgn rc \<or> corrupt_db \<or> malloc_failed)))))"

section \<open>One field\<close>

lemma first_type_byte:
  assumes "drop idx aKey = field_type (c, t) @ X"
  shows "\<exists>b. nth_res aKey idx = Inr b \<and> (if t < 128 then ucast b = t else (128::u32) \<le> ucast b)"
proof -
  have ne: "field_type (c, t) \<noteq> []" using field_type_nonempty [of "(c, t)"] by auto
  then have idx: "idx < length aKey" using assms by (metis append_is_Nil_conv drop_all not_le)
  have b: "aKey ! idx = (field_type (c, t) @ X) ! 0" using assms idx by (metis hd_conv_nth hd_drop_conv_nth drop_eq_Nil not_le)
  show ?thesis
  proof (cases "t < 128")
    case True
    have "ucast (ucast t :: u8) = t"
      using True by (simp add: word_unat_eq_iff unsigned_ucast_eq word_less_nat_alt unsigned_take_bit_eq take_bit_nat_eq_self)
    then show ?thesis using True idx b by (simp add: small_type_byte)
  next
    case False
    then have "128 \<le> unat (ucast t :: u64)" by (simp add: not_less word_le_nat_alt unsigned_ucast_eq take_bit_nat_eq_self)
    from varint_bytes_high [OF this, of X] have "\<not> aKey ! idx < 0x80"
      by (simp add: u8_high_bit b field_type_def)
    moreover have "unat (aKey ! idx) < 2 ^ 32" by (rule order_less_trans [OF unsigned_less]) simp
    ultimately have "(128::u32) \<le> ucast (aKey ! idx)"
      by (simp add: not_less word_le_nat_alt unsigned_ucast_eq take_bit_nat_eq_self)
    then show ?thesis using False idx by simp
  qed
qed

lemma serialGet7_SerialGet:
  "sqlite3VdbeSerialGet buf 7 = Inr m \<Longrightarrow> \<exists>x. serialGet7 buf = Inr (IsNaN x, x) \<and> m = read_real x"
  by (auto simp: sqlite3VdbeSerialGet_def serialGet_def serialGet7_def bind_res_eq_Inr Let_def read_real_def)

lemma four_byte_signed: "FOUR_BYTE_INT x = Inr i \<Longrightarrow> \<exists>y. FOUR_BYTE_UINT x = Inr y \<and> sint y = i"
proof -
  assume "FOUR_BYTE_INT x = Inr i"
  then obtain a b c d where n: "nth_res x 0 = Inr a" "nth_res x 1 = Inr b" "nth_res x 2 = Inr c" "nth_res x 3 = Inr d"
      and i: "i = 16777216 * sint a OR push_bit 16 (uint b) OR push_bit 8 (uint c) OR uint d"
    by (auto simp: FOUR_BYTE_INT_def bind_res_eq_Inr)
  have y: "FOUR_BYTE_UINT x = Inr (push_bit 24 (ucast a) OR push_bit 16 (ucast b) OR push_bit 8 (ucast c) OR ucast d)"
    using n by (simp add: FOUR_BYTE_UINT_def)
  let ?y = "push_bit 24 (ucast a) OR push_bit 16 (ucast b) OR push_bit 8 (ucast c) OR ucast d :: u32"
  have "bit (sint ?y) k \<longleftrightarrow> bit ?y (min 31 k)" for k
    by (cases "k \<le> 31") (auto simp: bit_sint_iff min_def)
  then have "sint ?y = i"
    unfolding i times_pow_int by (intro bit_eqI) (auto simp: bit_simps bit_sint_u8 min_def not_le not_less split: if_splits)
  then show ?thesis using y by blast
qed

lemma decode_SerialGet:
  assumes "sqlite3VdbeSerialGet buf t = Inr m" and "1 \<le> t" "t \<le> 9" "t \<noteq> 7"
  shows "\<exists>i. m = MInt i \<and> vdbeRecordDecodeInt t buf = Inr i"
proof -
  have "(push_bit 32 (ucast hi) + ucast lo :: u64) = push_bit 32 (ucast hi) OR ucast lo" for hi lo :: u32
    by (rule disjunctive_add_eq_or, rule bit_word_eqI) (auto simp: bit_simps)
  moreover have "t \<in> {1, 2, 3, 4, 5, 6, 8, 9}"
  proof -
    have "unat t \<in> {1, 2, 3, 4, 5, 6, 8, 9}" using assms(2-4) by (auto simp: word_le_nat_alt word_unat_eq_iff)
    then show ?thesis by (simp add: word_unat_eq_iff)
  qed
  ultimately show ?thesis
    using assms(1) four_byte_signed [of buf]
    by (auto simp: sqlite3VdbeSerialGet_def vdbeRecordDecodeInt_def serialGet_def bind_res_eq_Inr Let_def)
qed

lemma text_type_len: "12 \<le> t \<Longrightarrow> sqlite3VdbeSerialTypeLen t = unat ((t - 12) div 2)"
proof -
  assume t: "12 \<le> t"
  then have "unat ((t - 12) div 2) = (unat t - 12) div 2" by (simp add: unat_div unat_sub)
  then show ?thesis using t by (auto simp: sqlite3VdbeSerialTypeLen_def small_sizes_text word_le_nat_alt not_le)
qed

lemma value_kinds:
  assumes "sqlite3VdbeSerialGet buf t = Inr m" and "t \<noteq> 10" "t \<noteq> 11"
  obtains (null) "t = 0" "m = MNull False"
  | (real) x where "t = 7" "serialGet7 buf = Inr (IsNaN x, x)" "m = read_real x"
  | (int) i where "1 \<le> t" "t \<le> 9" "t \<noteq> 7" "m = MInt i" "vdbeRecordDecodeInt t buf = Inr i"
  | (blob) "12 \<le> t" "t AND 1 = 0" "m = MBlob (take (unat ((t - 12) div 2)) buf) 0"
  | (str) "12 \<le> t" "t AND 1 \<noteq> 0" "m = MStr (take (unat ((t - 12) div 2)) buf)"
proof -
  consider "t = 0" | "t = 7" | "1 \<le> t" "t \<le> 9" "t \<noteq> 7" | "12 \<le> t"
  proof -
    have "unat t \<noteq> 10" "unat t \<noteq> 11" using assms(2,3) by (auto simp: word_unat_eq_iff)
    then have "unat t = 0 \<or> 1 \<le> unat t \<and> unat t \<le> 9 \<or> 12 \<le> unat t" by linarith
    then show thesis using that by (auto simp: word_le_nat_alt word_unat_eq_iff)
  qed
  then show thesis
  proof cases
    case 1
    then show thesis using assms(1) null by (simp add: sqlite3VdbeSerialGet_def)
  next
    case 2
    then show thesis using assms(1) real serialGet7_SerialGet [of buf m] by auto
  next
    case 3
    then show thesis using assms(1) int decode_SerialGet [of buf t m] by auto
  next
    case 4
    then have "t \<notin> {0, 1, 2, 3, 4, 5, 6, 7, 8, 9, 10, 11}" by (auto simp: word_le_nat_alt)
    then show thesis using assms(1) 4 blob str by (auto simp: sqlite3VdbeSerialGet_def Let_def split: if_splits)
  qed
qed

lemma memcmp_take: "k \<le> n \<Longrightarrow> memcmp (take n xs) ys k = memcmp xs ys k"
proof (induction k arbitrary: n xs ys)
  case 0
  then show ?case by simp
next
  case (Suc k)
  then obtain m where "n = Suc m" "k \<le> m" by (cases n) auto
  with Suc.IH show ?case by (cases xs; cases ys) simp_all
qed

lemma isAllZero_take: "n \<le> length z \<Longrightarrow> isAllZero z n = Inr (take n z = replicate n 0)"
proof (induction z n rule: isAllZero.induct)
  case (3 c z n)
  then show ?case by auto
qed simp_all

text \<open>What holds of every field of the record, of the key, and of the sequences.\<close>

definition recoder_ok :: "recoder \<Rightarrow> bool" where
  "recoder_ok recode \<longleftrightarrow> (\<forall>e f z. \<exists>v. recode e f z = Some v)"

lemma compare_mem_no_oom:
  assumes "recoder_ok recode" shows "\<not> snd (vdbeCompareMemString recode enc a b c)"
proof -
  obtain v1 v2 where "recode enc (coll_enc c) a = Some v1" "recode enc (coll_enc c) b = Some v2"
    using assms unfolding recoder_ok_def by blast
  then show ?thesis by (simp add: vdbeCompareMemString_def)
qed

lemma compare_field_ok:
  assumes hdr: "drop idx aKey = field_type (c, t) @ X" and get: "sqlite3VdbeSerialGet (drop d aKey) t = Inr m"
    and t: "t \<noteq> 10" "t \<noteq> 11" and len: "d + sqlite3VdbeSerialTypeLen t \<le> nKey" "nKey \<le> length aKey"
    and coll: "i < nAllField ki" "nth_res (aColl ki) i = Inr coll" and recode: "recoder_ok recode" and rhs: "value_ok rhs"
    and cmp: "sqlite3MemCompare recode ld (ki_enc ki) m rhs coll = Inr rc"
  shows "\<exists>t'. compare_field recode ld aKey nKey ki i idx d rhs = Inr (Field rc t' False) \<and> (rc = 0 \<longrightarrow> t' = t) \<and> (t' = 0 \<longleftrightarrow> t = 0)"
proof -
  obtain b where b: "nth_res aKey idx = Inr b" "if t < 128 then ucast b = t else (128::u32) \<le> ucast b"
    using first_type_byte [OF hdr] by blast
  let ?t = "ucast b :: u32"
  have varint: "getVarint32 (drop idx aKey) = Inr (t, length (field_type (c, t)))" using read_field_type hdr by simp
  have small: "?t = t" "\<not> 10 \<le> ?t" "\<not> 12 \<le> t" if "t \<le> 9" using b(2) that by (auto simp: word_le_nat_alt word_less_nat_alt split: if_splits)
  have large: "10 \<le> ?t" "?t \<noteq> 10" "?t \<noteq> 0" "?t \<noteq> 7" "t \<noteq> 0" if "12 \<le> t"
    using b(2) that by (auto simp: word_le_nat_alt word_less_nat_alt split: if_splits)
  note kinds = value_kinds [OF get t]
  note defs = compare_field_def Let_def b(1)
  have nan: "sqlite3IntFloatCompare ld v x = Inr 1" if "IsNaN x" for v x using that by (simp add: sqlite3IntFloatCompare_def)
  show ?thesis
  proof (cases rhs)
    case (MNull y)
    show ?thesis
      by (rule kinds) (use cmp small large MNull in \<open>auto simp: defs sqlite3MemCompare_def read_real_def split: if_splits\<close>)
  next
    case (MInt v)
    show ?thesis
      by (rule kinds) (use cmp small large nan MInt in \<open>auto simp: defs compare_with_int_def sqlite3MemCompare_def read_real_def bind_res_eq_Inr split: if_splits\<close>)
  next
    case (MIntReal v)
    show ?thesis
      by (rule kinds) (use cmp small large nan MIntReal in \<open>auto simp: defs compare_with_int_def sqlite3MemCompare_def read_real_def bind_res_eq_Inr split: if_splits\<close>)
  next
    case (MReal v)
    show ?thesis
      by (rule kinds) (use cmp small large get rhs MReal in \<open>auto simp: defs compare_with_real_def sqlite3MemCompare_def read_real_def bind_res_eq_Inr split: if_splits\<close>)
  next
    case (MStr z)
    let ?n = "unat ((t - 12) div 2)"
    have field: "compare_field recode ld aKey nKey ki i idx d (MStr z) = compare_with_text recode aKey nKey d ki i t z"
      by (simp add: compare_field_def varint)
    from get t show ?thesis
    proof (cases rule: value_kinds)
      case str
      have n: "d + ?n \<le> nKey" using len(1) text_type_len [OF str(1)] by simp
      then have "length (take ?n (drop d aKey)) = ?n" using len(2) by simp
      then show ?thesis
        using cmp coll n str memcmp_take [of _ ?n "drop d aKey" z] compare_mem_no_oom [OF recode]
        by (cases coll) (auto simp: field MStr compare_with_text_def sqlite3MemCompare_def sqlite3BlobCompare_def blob_compare_def
            bind_res_eq_Inr not_less [symmetric] Let_def case_prod_beta split: if_splits)
    qed (use cmp small in \<open>auto simp: field MStr compare_with_text_def sqlite3MemCompare_def read_real_def split: if_splits\<close>)
  next
    case (MBlob z k)
    let ?n = "unat ((t - 12) div 2)"
    have field: "compare_field recode ld aKey nKey ki i idx d (MBlob z k) = compare_with_blob aKey nKey d t z k"
      by (simp add: compare_field_def varint)
    from get t show ?thesis
    proof (cases rule: value_kinds)
      case blob
      have n: "d + ?n \<le> nKey" using len(1) text_type_len [OF blob(1)] by simp
      then have l: "length (take ?n (drop d aKey)) = ?n" using len(2) by simp
      then show ?thesis
        using cmp n blob memcmp_take [of _ ?n "drop d aKey" z] rhs isAllZero_take [of ?n "drop d aKey"] all_zero [of "take ?n (drop d aKey)"]
        by (auto simp: field MBlob compare_with_blob_def sqlite3MemCompare_def sqlite3BlobCompare_def blob_compare_def
            bind_res_eq_Inr not_less [symmetric] Let_def split: if_splits)
    qed (use cmp small in \<open>auto simp: field MBlob compare_with_blob_def sqlite3MemCompare_def read_real_def split: if_splits\<close>)
  qed
qed

section \<open>The order of rows\<close>

text \<open>The first column in which two rows differ decides, in the direction of that column; 0 when none differs.\<close>

definition directed :: "u8 \<Rightarrow> mem_cell \<Rightarrow> mem_cell \<Rightarrow> int \<Rightarrow> int" where
  "directed fl l r c =
     (let c = (if fl AND KEYINFO_ORDER_BIGNULL \<noteq> 0 \<and> (is_null l \<or> is_null r) then - c else c)
      in if fl AND KEYINFO_ORDER_DESC \<noteq> 0 then - c else c)"

fun row_order :: "recoder \<Rightarrow> key_info \<Rightarrow> nat \<Rightarrow> mem_cell list \<Rightarrow> mem_cell list \<Rightarrow> int" where
  "row_order recode ki i (l # ls) (r # rs) =
     (let c = directed (aSortFlags ki ! i) l r (cell_order recode (ki_enc ki) (aColl ki ! i) l r)
      in if c \<noteq> 0 then c else row_order recode ki (i + 1) ls rs)"
| "row_order recode ki i _ _ = 0"

text \<open>A key as its callers build it: no more fields than values, columns with sequences and flags for them.\<close>

definition key_ok :: "unpacked_record \<Rightarrow> bool" where
  "key_ok p \<longleftrightarrow>
     0 < up_nField p \<and> up_nField p \<le> length (aMem p) \<and> up_nField p \<le> nAllField (pKeyInfo p) \<and>
     nAllField (pKeyInfo p) \<le> length (aSortFlags (pKeyInfo p)) \<and> nAllField (pKeyInfo p) \<le> length (aColl (pKeyInfo p)) \<and>
     list_all value_ok (aMem p) \<and> list_all (\<lambda>fl. fl < 4) (aSortFlags (pKeyInfo p)) \<and> list_all coll_ok (aColl (pKeyInfo p))"

text \<open>What a comparison returns, and does to the key, when the rows are in the order \<open>c\<close>, the record has \<open>nl\<close> fields
  and the key \<open>nr\<close>.\<close>

definition outcome :: "unpacked_record \<Rightarrow> int \<Rightarrow> nat \<Rightarrow> nat \<Rightarrow> int \<Rightarrow> unpacked_record \<Rightarrow> bool" where
  "outcome p c nl nr rc p' \<longleftrightarrow>
     (if c \<noteq> 0 then sgn rc = c \<and> p' = p
      else if nr \<le> nl then rc = default_rc p \<and> p' = p\<lparr>eqSeen := True\<rparr>
      else rc = 0 \<and> p' = p\<lparr>errCode := SQLITE_CORRUPT\<rparr>)"

definition plain_field :: "(int \<Rightarrow> u64) \<Rightarrow> mem_cell \<Rightarrow> mem_cell \<times> u32 \<Rightarrow> bool" where
  "plain_field dbl c ct \<longleftrightarrow> field_ok dbl c ct \<and> value_ok (stored dbl c) \<and> snd ct \<noteq> 10 \<and> snd ct \<noteq> 11 \<and>
     (snd ct = 0 \<longleftrightarrow> is_null (stored dbl c))"

lemma flag_cases: "fl < 4 \<Longrightarrow> fl = 0 \<or> fl = 1 \<or> fl = 2 \<or> fl = 3" for fl :: u8
proof -
  assume "fl < 4"
  then have "unat fl = 0 \<or> unat fl = 1 \<or> unat fl = 2 \<or> unat fl = 3" by (auto simp: word_less_nat_alt)
  then show ?thesis by (auto simp: word_unat_eq_iff)
qed

lemma sort_flip_ok:
  assumes "fl < 4" and "int_ok (- rc)" and "t = 0 \<longleftrightarrow> is_null l"
  shows "\<exists>rc'. sort_flip fl t r rc = Inr rc' \<and> sgn rc' = directed fl l r (sgn rc)"
  using flag_cases [OF assms(1)] assms(2,3)
  by (auto simp: sort_flip_def directed_def KEYINFO_ORDER_BIGNULL_def KEYINFO_ORDER_DESC_def Let_def sgn_minus)

lemma cell_order_range: "cell_order recode enc coll a b \<in> {- 1, 0, 1}"
proof -
  have bytes: "bytes_order xs ys \<in> {- 1, 0, 1}" for xs ys by (induction xs ys rule: bytes_order.induct) auto
  then have "text_order recode enc coll xs ys \<in> {- 1, 0, 1}" for xs ys
    by (simp add: text_order_def sgn_if split: option.split)
  with bytes show ?thesis unfolding cell_order_def order_sgn_def by (auto simp del: insert_iff)
qed

lemma directed_zero: "directed fl l r c = 0 \<longleftrightarrow> c = 0"
  by (simp add: directed_def Let_def)

lemma compare_loop_ok:
  assumes key: "key_ok p" and recode: "recoder_ok recode"
  shows "list_all2 (plain_field dbl) cs ts \<Longrightarrow> cs \<noteq> [] \<Longrightarrow> drop idx aKey = types_bytes ts @ X \<Longrightarrow> drop d aKey = full_bytes ts @ Y \<Longrightarrow>
    szHdr = idx + length (types_bytes ts) \<Longrightarrow> nKey = d + length (full_bytes ts) \<Longrightarrow> d \<le> length aKey \<Longrightarrow> i < up_nField p \<Longrightarrow>
    \<exists>rc p'. compare_loop recode ld aKey nKey szHdr p i idx d (drop i (aMem p)) = Inr (rc, p') \<and>
      outcome p (row_order recode (pKeyInfo p) i (map (stored dbl) cs) (take (up_nField p - i) (drop i (aMem p))))
        (length cs) (up_nField p - i) rc p'"
proof (induction ts arbitrary: cs idx d i)
  case (Cons ct ts)
  obtain c cs' where cs: "cs = c # cs'" and ok: "plain_field dbl c ct" and rest: "list_all2 (plain_field dbl) cs' ts"
    using Cons.prems(1) by (auto simp: list_all2_Cons2)
  obtain c' t where ct: "ct = (c', t)" by (cases ct)
  let ?ki = "pKeyInfo p" and ?l = "stored dbl c" and ?r = "aMem p ! i"
  have i: "i < length (aMem p)" "i < nAllField ?ki" "i < length (aSortFlags ?ki)" "i < length (aColl ?ki)"
    using key Cons.prems(8) by (auto simp: key_ok_def)
  have r: "drop i (aMem p) = ?r # drop (i + 1) (aMem p)" using i(1) by (simp add: Cons_nth_drop_Suc)
  have rv: "value_ok ?r" "coll_ok (aColl ?ki ! i)" "aSortFlags ?ki ! i < 4"
    using key i by (auto simp: key_ok_def list_all_length)
  have len: "sqlite3VdbeSerialTypeLen t = length (field_full ct)" and get: "sqlite3VdbeSerialGet (drop d aKey) t = Inr ?l"
    and lv: "value_ok ?l" "t \<noteq> 10" "t \<noteq> 11" "t = 0 \<longleftrightarrow> is_null ?l"
    using ok Cons.prems(4) by (simp_all add: plain_field_def field_ok_def ct)
  have "nKey \<le> length aKey" using Cons.prems(4,6,7) by (metis add_diff_inverse_nat length_append length_drop nat_add_left_cancel_le le_add1 not_le)
  obtain rc where rc: "sqlite3MemCompare recode ld (ki_enc ?ki) ?l ?r (aColl ?ki ! i) = Inr rc"
      "sgn rc = cell_order recode (ki_enc ?ki) (aColl ?ki ! i) ?l ?r" "int_ok (- rc)"
    using mem_compare_order [OF lv(1) rv(1,2)] by blast
  have hdr: "drop idx aKey = field_type (c', t) @ types_bytes ts @ X" using Cons.prems(3) by (simp add: ct)
  have fit: "d + sqlite3VdbeSerialTypeLen t \<le> nKey" using len Cons.prems(6) by simp
  have coll: "nth_res (aColl ?ki) i = Inr (aColl ?ki ! i)" using i(4) by simp
  obtain t' where f: "compare_field recode ld aKey nKey ?ki i idx d ?r = Inr (Field rc t' False)"
      "rc = 0 \<longrightarrow> t' = t" "t' = 0 \<longleftrightarrow> t = 0"
    using compare_field_ok [OF hdr get lv(2,3) fit \<open>nKey \<le> length aKey\<close> i(2) coll recode rv(1) rc(1)] by blast
  let ?c = "directed (aSortFlags ?ki ! i) ?l ?r (cell_order recode (ki_enc ?ki) (aColl ?ki ! i) ?l ?r)"
  have more: "up_nField p - i = Suc (up_nField p - (i + 1))" using Cons.prems(8) by simp
  have order: "row_order recode ?ki i (map (stored dbl) cs) (take (up_nField p - i) (drop i (aMem p))) =
      (if ?c \<noteq> 0 then ?c else row_order recode ?ki (i + 1) (map (stored dbl) cs') (take (up_nField p - (i + 1)) (drop (i + 1) (aMem p))))"
    unfolding r more by (simp add: cs Let_def)
  show ?case
  proof (cases "rc = 0")
    case False
    then have "?c \<noteq> 0" by (simp add: directed_zero sgn_if flip: rc(2))
    obtain rc' where "sort_flip (aSortFlags ?ki ! i) t' ?r rc = Inr rc'" "sgn rc' = ?c"
      using sort_flip_ok [OF rv(3) rc(3), of t' ?l ?r] f(3) lv(4) rc(2) by auto
    then show ?thesis unfolding order unfolding r using False f(1) i(3) \<open>?c \<noteq> 0\<close> by (simp add: outcome_def)
  next
    case True
    then have c0: "?c = 0" and t': "t' = t" using rc(2) f(2) by (simp_all add: directed_zero)
    show ?thesis
    proof (cases "i + 1 = up_nField p")
      case last: True
      moreover have "up_nField p - i = 1" using last by simp
      ultimately show ?thesis unfolding order unfolding r using True f(1) c0 by (simp add: outcome_def cs)
    next
      case False
      have nxt: "idx + sqlite3VarintLen (ucast t) = idx + length (field_type ct)" by (simp add: text_varint [of t c'] ct)
      have d: "\<not> d + length (field_full ct) > nKey" using Cons.prems(6) by simp
      show ?thesis
      proof (cases ts)
        case Nil
        then have "cs' = []" using rest by simp
        moreover have "\<not> up_nField p - i \<le> 1" using False Cons.prems(8) by simp
        ultimately show ?thesis unfolding order unfolding r
          using True False f(1) c0 t' len d nxt Cons.prems(5,8) Nil by (simp add: outcome_def cs ct)
      next
        case (Cons ct2 ts2)
        then have ne: "cs' \<noteq> []" using rest by auto
        have "drop (idx + length (field_type ct)) aKey = types_bytes ts @ X"
          "drop (d + length (field_full ct)) aKey = full_bytes ts @ Y"
          using Cons.prems(3,4) by (simp_all add: add.commute [of _ "length _"] flip: drop_drop)
        note IH = Cons.IH [OF rest ne this]
        have "\<not> szHdr \<le> idx + length (field_type ct)"
          using Cons.prems(5) Cons field_type_nonempty [of ct2] by simp
        moreover have "d + length (field_full ct) \<le> length aKey" using fit len \<open>nKey \<le> length aKey\<close> by simp
        moreover have "outcome p z (length cs) (up_nField p - i) = outcome p z (length cs') (up_nField p - (i + 1))" for z
          using more by (simp add: outcome_def cs fun_eq_iff)
        ultimately show ?thesis unfolding order unfolding r
          using IH [of "i + 1"] True False f(1) c0 t' len d nxt Cons.prems(5,6,8) by simp
      qed
    qed
  qed
qed simp

section \<open>Comparing a whole record\<close>

text \<open>A record in memory: its header, its values and the padding behind it.\<close>

definition record_at :: "(int \<Rightarrow> u64) \<Rightarrow> mem_cell list \<Rightarrow> (mem_cell \<times> u32) list \<Rightarrow> nat \<Rightarrow> nat \<Rightarrow> u8 list \<Rightarrow> bool" where
  "record_at dbl cs ts sz nKey aKey \<longleftrightarrow>
     list_all2 (plain_field dbl) cs ts \<and> cs \<noteq> [] \<and> sz < 2 ^ 32 \<and> sz = varint_size (of_nat sz) + length (types_bytes ts) \<and>
     nKey = sz + length (full_bytes ts) \<and> (\<exists>bs. aKey = varint_bytes (of_nat sz) @ types_bytes ts @ full_bytes ts @ bs)"

definition key_order :: "recoder \<Rightarrow> (int \<Rightarrow> u64) \<Rightarrow> unpacked_record \<Rightarrow> mem_cell list \<Rightarrow> int" where
  "key_order recode dbl p cs = row_order recode (pKeyInfo p) 0 (map (stored dbl) cs) (take (up_nField p) (aMem p))"

lemma record_at_parts:
  assumes "record_at dbl cs ts sz nKey aKey"
  obtains bs where "getVarint32 aKey = Inr (of_nat sz, varint_size (of_nat sz))" "unat (of_nat sz :: u32) = sz"
    "drop (varint_size (of_nat sz)) aKey = types_bytes ts @ full_bytes ts @ bs" "drop sz aKey = full_bytes ts @ bs" "sz \<le> length aKey"
proof -
  obtain bs where bs: "aKey = varint_bytes (of_nat sz) @ types_bytes ts @ full_bytes ts @ bs"
    and sz: "sz < 2 ^ 32" "sz = varint_size (of_nat sz) + length (types_bytes ts)" using assms by (auto simp: record_at_def)
  have u: "unat (of_nat sz :: u64) = sz" "unat (of_nat sz :: u32) = sz" using sz(1) by (simp_all only: unat_of_nat) simp_all
  have cast: "ucast (of_nat sz :: u64) = (of_nat sz :: u32)" by (rule bit_word_eqI) (auto simp: bit_simps)
  show thesis
  proof (rule that)
    show "getVarint32 aKey = Inr (of_nat sz, varint_size (of_nat sz))"
      using getVarint32_bytes [of "of_nat sz"] sz(1) u cast bs by simp
    show "drop (varint_size (of_nat sz)) aKey = types_bytes ts @ full_bytes ts @ bs"
      by (simp add: length_varint_bytes bs)
    show "drop sz aKey = full_bytes ts @ bs"
      using drop_parts [of "varint_bytes (of_nat sz) @ types_bytes ts" "full_bytes ts @ bs"] sz(2)
      by (simp add: length_varint_bytes bs)
    show "sz \<le> length aKey" using arg_cong [OF bs, of length] sz(2) by (simp add: length_varint_bytes)
  qed (rule u(2))
qed

lemma general_compare_ok:
  assumes key: "key_ok p" and recode: "recoder_ok recode" and rec: "record_at dbl cs ts sz nKey aKey"
  shows "\<exists>rc p'. sqlite3VdbeRecordCompare recode ld nKey aKey p = Inr (rc, p') \<and>
    outcome p (key_order recode dbl p cs) (length cs) (up_nField p) rc p'"
proof -
  obtain bs where parts: "getVarint32 aKey = Inr (of_nat sz, varint_size (of_nat sz))" "unat (of_nat sz :: u32) = sz"
    "drop (varint_size (of_nat sz)) aKey = types_bytes ts @ full_bytes ts @ bs" "drop sz aKey = full_bytes ts @ bs" "sz \<le> length aKey"
    using record_at_parts [OF rec] by blast
  have r: "list_all2 (plain_field dbl) cs ts" "cs \<noteq> []" "sz = varint_size (of_nat sz) + length (types_bytes ts)"
    "nKey = sz + length (full_bytes ts)" using rec by (simp_all add: record_at_def)
  from compare_loop_ok [OF key recode r(1,2) parts(3,4) r(3,4) parts(5), of 0 ld] show ?thesis
    using parts(1,2) r(4) key by (simp add: sqlite3VdbeRecordCompare_def sqlite3VdbeRecordCompareWithSkip_def key_order_def key_ok_def)
qed

text \<open>The comparison that skips the first field.\<close>

lemma type_bytes_le_5: "length (field_type ct) \<le> 5"
proof -
  have "unat (snd ct) < 2 ^ 32" by (rule order_less_le_trans [OF unsigned_less]) simp
  moreover have "unat (ucast (snd ct) :: u64) = unat (snd ct)" 
    using calculation by (simp add: unsigned_ucast_eq take_bit_nat_eq_self)
  ultimately show ?thesis using varint_len_le [of "ucast (snd ct)" 4]
    by (simp add: field_type_def length_varint_bytes varint_size_32 [symmetric])
qed

lemma types_le_5: "length (types_bytes ts) \<le> 5 * length ts"
proof (induction ts)
  case (Cons ct ts)
  then show ?case using type_bytes_le_5 [of ct] by simp
qed simp

lemma short_header:
  assumes rec: "record_at dbl cs ts sz nKey aKey" and sz: "sz < 128"
  shows "nth_res aKey 0 = Inr (of_nat sz)" "unat (of_nat sz :: u8) = sz" "varint_size (of_nat sz) = 1"
proof -
  obtain bs where bs: "aKey = varint_bytes (of_nat sz) @ types_bytes ts @ full_bytes ts @ bs" using rec by (auto simp: record_at_def)
  have u: "unat (of_nat sz :: u64) = sz" using sz by (simp only: unat_of_nat) simp
  have "ucast (of_nat sz :: u64) = (of_nat sz :: u8)" by (rule bit_word_eqI) (auto simp: bit_simps)
  then have one: "varint_bytes (of_nat sz) = [of_nat sz]" using u sz by (simp add: varint_bytes_1)
  then show "nth_res aKey 0 = Inr (of_nat sz)" by (simp add: bs)
  show "varint_size (of_nat sz) = 1" using arg_cong [OF one, of length] by (simp add: length_varint_bytes)
  show "unat (of_nat sz :: u8) = sz" using sz by (simp only: unat_of_nat) simp
qed

lemma skip_compare_ok:
  assumes key: "key_ok p" and recode: "recoder_ok recode" and rec: "record_at dbl (c # cs) (ct # ts) sz nKey aKey"
    and sz: "sz < 128" and more: "1 < up_nField p" "cs \<noteq> []"
  shows "\<exists>rc p'. sqlite3VdbeRecordCompareWithSkip recode ld nKey aKey p True = Inr (rc, p') \<and>
    outcome p (row_order recode (pKeyInfo p) 1 (map (stored dbl) cs) (take (up_nField p - 1) (drop 1 (aMem p))))
      (length cs) (up_nField p - 1) rc p'"
proof -
  obtain bs where parts: "drop 1 aKey = types_bytes (ct # ts) @ full_bytes (ct # ts) @ bs"
      "drop sz aKey = full_bytes (ct # ts) @ bs" "sz \<le> length aKey"
    using record_at_parts [OF rec] short_header(3) [OF rec sz] by metis
  obtain c' t where ct: "ct = (c', t)" by (cases ct)
  have r: "plain_field dbl c ct" "list_all2 (plain_field dbl) cs ts" "sz = 1 + length (types_bytes (ct # ts))"
    "nKey = sz + length (full_bytes (ct # ts))" using rec short_header(3) [OF rec sz] by (auto simp: record_at_def)
  have s1: "getVarint32 (drop 1 aKey) = Inr (t, length (field_type ct))"
    using read_field_type [of c' t] parts(1) by (simp add: ct)
  have len: "sqlite3VdbeSerialTypeLen t = length (field_full ct)" using r(1) by (simp add: plain_field_def field_ok_def ct)
  have d: "drop (1 + length (field_type ct)) aKey = types_bytes ts @ full_bytes (ct # ts) @ bs"
    "drop (sz + length (field_full ct)) aKey = full_bytes ts @ bs"
    using parts(1,2) drop_drop [of "length (field_type ct)" 1 aKey] drop_drop [of "length (field_full ct)" sz aKey]
    by (simp_all add: add.commute del: drop_drop)
  have fit: "sz + length (field_full ct) \<le> length aKey"
    using arg_cong [OF parts(2), of length] parts(3) by simp
  from compare_loop_ok [OF key recode r(2) more(2) d _ _ fit more(1), of sz nKey ld] show ?thesis
    using s1 len r(3,4) short_header(1,2) [OF rec sz]
    by (simp add: sqlite3VdbeRecordCompareWithSkip_def)
qed

text \<open>The first field of the key decides, or the rest does.\<close>

definition first_order :: "recoder \<Rightarrow> unpacked_record \<Rightarrow> mem_cell \<Rightarrow> int" where
  "first_order recode p l =
     directed (aSortFlags (pKeyInfo p) ! 0) l (aMem p ! 0) (cell_order recode (ki_enc (pKeyInfo p)) (aColl (pKeyInfo p) ! 0) l (aMem p ! 0))"

lemma key_order_first:
  assumes "key_ok p"
  shows "key_order recode dbl p (c # cs) = (if first_order recode p (stored dbl c) \<noteq> 0 then first_order recode p (stored dbl c)
    else row_order recode (pKeyInfo p) 1 (map (stored dbl) cs) (take (up_nField p - 1) (drop 1 (aMem p))))"
proof -
  obtain n m ms where "up_nField p = Suc n" "aMem p = m # ms"
    using assms by (cases "up_nField p"; cases "aMem p") (auto simp: key_ok_def)
  then show ?thesis by (simp add: key_order_def first_order_def Let_def)
qed

lemma fast_tail:
  assumes key: "key_ok p" and recode: "recoder_ok recode" and rec: "record_at dbl (c # cs) (ct # ts) sz nKey aKey"
    and sz: "sz < 128" and enough: "up_nField p \<le> length (c # cs)" and equal: "first_order recode p (stored dbl c) = 0"
  shows "\<exists>rc p'. (if up_nField p > 1 then sqlite3VdbeRecordCompareWithSkip recode ld nKey aKey p True
      else Inr (default_rc p, p\<lparr>eqSeen := True\<rparr>)) = Inr (rc, p') \<and>
    outcome p (key_order recode dbl p (c # cs)) (length (c # cs)) (up_nField p) rc p'"
proof (cases "up_nField p > 1")
  case True
  then have "cs \<noteq> []" using enough by auto
  moreover have "outcome p z (length cs) (up_nField p - 1) = outcome p z (length (c # cs)) (up_nField p)" for z
    using True by (auto simp: outcome_def fun_eq_iff)
  ultimately show ?thesis
    using skip_compare_ok [OF key recode rec sz True, of ld] True equal by (simp add: key_order_first [OF key])
next
  case False
  then have "up_nField p = 1" using key by (simp add: key_ok_def)
  then show ?thesis using equal by (simp add: key_order_first [OF key] outcome_def)
qed

definition cached_sign :: "unpacked_record \<Rightarrow> bool" where
  "cached_sign p \<longleftrightarrow> aSortFlags (pKeyInfo p) ! 0 = 0 \<and> up_r1 p = - 1 \<and> up_r2 p = 1 \<or>
     aSortFlags (pKeyInfo p) ! 0 = KEYINFO_ORDER_DESC \<and> up_r1 p = 1 \<and> up_r2 p = - 1"

lemma cached_sign_outcome:
  assumes "key_ok p" and "cached_sign p" and "cell_order recode (ki_enc (pKeyInfo p)) (aColl (pKeyInfo p) ! 0) (stored dbl c) (aMem p ! 0) = o1"
  shows "o1 = - 1 \<Longrightarrow> outcome p (key_order recode dbl p (c # cs)) nl nr (up_r1 p) p"
    and "o1 = 1 \<Longrightarrow> outcome p (key_order recode dbl p (c # cs)) nl nr (up_r2 p) p"
    and "o1 = 0 \<Longrightarrow> first_order recode p (stored dbl c) = 0"
  using assms(2,3) unfolding key_order_first [OF assms(1)]
  by (auto simp: cached_sign_def outcome_def first_order_def directed_def KEYINFO_ORDER_BIGNULL_def KEYINFO_ORDER_DESC_def)

lemma small_header:
  assumes rec: "record_at dbl cs ts sz nKey aKey" and len: "length cs \<le> 13"
  shows "sz < 128"
proof -
  have r: "list_all2 (plain_field dbl) cs ts" "sz < 2 ^ 32" "sz = varint_size (of_nat sz) + length (types_bytes ts)"
    using rec by (simp_all add: record_at_def)
  have u: "unat (of_nat sz :: u64) = sz" using r(2) by (simp only: unat_of_nat) simp
  then have "varint_size (of_nat sz) \<le> 5"
    using varint_len_le [of "of_nat sz" 4] varint_size_32 [of "of_nat sz"] r(2) by simp
  then show ?thesis using types_le_5 [of ts] list_all2_lengthD [OF r(1)] len r(3) by simp
qed

lemma int_compare_ok:
  assumes key: "key_ok p" and recode: "recoder_ok recode" and rec: "record_at dbl cs ts sz nKey aKey"
    and fields: "length cs \<le> 13" "up_nField p \<le> length cs"
    and cache: "aMem p ! 0 = MInt v" "u_cache p = IntCache v" "cached_sign p"
  shows "\<exists>rc p'. vdbeRecordCompareInt recode ld nKey aKey p = Inr (rc, p') \<and>
    outcome p (key_order recode dbl p cs) (length cs) (up_nField p) rc p'"
proof -
  obtain c cs' ct ts' where c: "cs = c # cs'" "ts = ct # ts'" using rec by (cases cs; cases ts) (auto simp: record_at_def)
  obtain c' t where ct: "ct = (c', t)" by (cases ct)
  have sz: "sz < 128" by (rule small_header [OF rec fields(1)])
  note hdr = short_header [OF rec sz]
  obtain bs where parts: "drop 1 aKey = types_bytes ts @ full_bytes ts @ bs" "drop sz aKey = full_bytes ts @ bs"
    using record_at_parts [OF rec] hdr(3) by metis
  have "drop 1 aKey = field_type (c', t) @ types_bytes ts' @ full_bytes ts @ bs" using parts(1) by (simp add: c ct)
  then obtain b where b: "nth_res aKey 1 = Inr b" "if t < 128 then ucast b = t else (128::u32) \<le> ucast b"
    using first_type_byte by blast
  have f: "plain_field dbl c ct" and szs: "sz = 1 + length (types_bytes ts)" and l2: "list_all2 (plain_field dbl) cs' ts'"
    using rec hdr(3) by (auto simp: record_at_def c)
  have get: "sqlite3VdbeSerialGet (drop sz aKey) t = Inr (stored dbl c)" "t \<noteq> 10" "t \<noteq> 11"
    using f parts(2) by (simp_all add: plain_field_def field_ok_def ct c)
  show ?thesis
  proof (cases "b \<in> {1, 2, 3, 4, 5, 6, 8, 9}")
    case False
    then show ?thesis using general_compare_ok [OF key recode rec, of ld] hdr(1) b(1)
      by (simp add: vdbeRecordCompareInt_def Let_def)
  next
    case True
    then have "(ucast b :: u32) \<in> {1, 2, 3, 4, 5, 6, 8, 9}" by auto
    moreover have "\<not> (128::u32) \<le> ucast b" using True by (auto simp: word_le_nat_alt)
    ultimately have t: "t = ucast b" "t \<in> {1, 2, 3, 4, 5, 6, 8, 9}" using b(2) by (simp_all split: if_splits)
    from get obtain lhs where lhs: "stored dbl c = MInt lhs" "vdbeRecordDecodeInt t (drop sz aKey) = Inr lhs"
      by (rule value_kinds) (use t(2) in \<open>auto simp: word_le_nat_alt\<close>)
    have "length (field_type ct) = 1" using t(2) by (auto simp: ct small_type_byte)
    then have "sz < 64" using szs types_le_5 [of ts'] list_all2_lengthD [OF l2] fields(1) by (simp add: c)
    have "of_nat sz AND 0x3F = take_bit 6 (of_nat sz :: u8)" by (simp add: take_bit_eq_mask mask_eq_exp_minus_1)
    then have mask: "unat (of_nat sz AND 0x3F :: u8) = sz"
      using hdr(2) \<open>sz < 64\<close> by (simp add: unsigned_take_bit_eq take_bit_nat_eq_self)
    have run: "vdbeRecordCompareInt recode ld nKey aKey p =
        (if v > lhs then Inr (up_r1 p, p) else if v < lhs then Inr (up_r2 p, p)
         else if up_nField p > 1 then sqlite3VdbeRecordCompareWithSkip recode ld nKey aKey p True
         else Inr (default_rc p, p\<lparr>eqSeen := True\<rparr>))"
      using hdr(1) b(1) True lhs(2) mask cache(2) by (simp add: vdbeRecordCompareInt_def Let_def t(1) [symmetric])
    have order: "cell_order recode (ki_enc (pKeyInfo p)) (aColl (pKeyInfo p) ! 0) (stored dbl c) (aMem p ! 0) =
        order_sgn (int_units lhs) (int_units v)" by (simp add: lhs(1) cache(1) cell_order_def)
    note signs = cached_sign_outcome [OF key cache(3) order]
    consider "v > lhs" | "v < lhs" | "v = lhs" by linarith
    then show ?thesis
    proof cases
      case 1
      then show ?thesis using signs(1) run c by (auto simp: order_sgn_def int_units_mono)
    next
      case 2
      then show ?thesis using signs(2) run c by (auto simp: order_sgn_def int_units_mono)
    next
      case 3
      then have "first_order recode p (stored dbl c) = 0" using signs(3) by (simp add: order_sgn_def)
      from fast_tail [OF key recode rec [unfolded c] sz fields(2) [unfolded c] this, of ld] show ?thesis
        using 3 run by (simp add: c)
    qed
  qed
qed

lemma sint_small:
  "uint b < 128 \<Longrightarrow> sint b = uint b" "uint t < 2147483648 \<Longrightarrow> sint t = uint t" for b :: u8 and t :: u32
  unfolding sint_uint by (rule signed_take_bit_int_eq_self; simp)+

lemma uint_ucast_byte: "uint (ucast b :: u32) = uint b" for b :: u8
  using unsigned_less [of b, where ?'a = int] by (simp add: unsigned_ucast_eq take_bit_int_eq_self)

lemma nat_half_less_12: "12 \<le> k \<Longrightarrow> nat ((int k - 12) div 2) = (k - 12) div 2"
proof -
  assume "12 \<le> k"
  then have "int k - 12 = int (k - 12)" by simp
  then have "(int k - 12) div 2 = int ((k - 12) div 2)" by (simp only: zdiv_int of_nat_numeral)
  then show ?thesis by (simp only: nat_int)
qed

lemma string_compare_ok:
  assumes key: "key_ok p" and recode: "recoder_ok recode" and rec: "record_at dbl cs ts sz nKey aKey"
    and fields: "length cs \<le> 13" "up_nField p \<le> length cs" and size: "nKey \<le> 1000000000"
    and cache: "aMem p ! 0 = MStr z" "u_cache p = TextCache z" "n_cache p = length z" "cached_sign p" "aColl (pKeyInfo p) ! 0 = None"
  shows "\<exists>rc p'. vdbeRecordCompareString recode ld nKey aKey p = Inr (rc, p') \<and>
    outcome p (key_order recode dbl p cs) (length cs) (up_nField p) rc p'"
proof -
  obtain c cs' ct ts' where c: "cs = c # cs'" "ts = ct # ts'" using rec by (cases cs; cases ts) (auto simp: record_at_def)
  obtain c' t where ct: "ct = (c', t)" by (cases ct)
  have sz: "sz < 128" by (rule small_header [OF rec fields(1)])
  note hdr = short_header [OF rec sz]
  obtain bs where parts: "drop 1 aKey = types_bytes ts @ full_bytes ts @ bs" "drop sz aKey = full_bytes ts @ bs"
    using record_at_parts [OF rec] hdr(3) by metis
  have d1: "drop 1 aKey = field_type (c', t) @ types_bytes ts' @ full_bytes ts @ bs" using parts(1) by (simp add: c ct)
  then obtain b where b: "nth_res aKey 1 = Inr b" "if t < 128 then ucast b = t else (128::u32) \<le> ucast b"
    using first_type_byte by blast
  have f: "plain_field dbl c ct" and nKey: "nKey = sz + (length (field_full ct) + length (full_bytes ts'))"
    using rec by (auto simp: record_at_def c)
  have get: "sqlite3VdbeSerialGet (drop sz aKey) t = Inr (stored dbl c)" "t \<noteq> 10" "t \<noteq> 11"
    and len: "sqlite3VdbeSerialTypeLen t = length (field_full ct)"
    using f parts(2) by (simp_all add: plain_field_def field_ok_def ct c)
  have t31: "unat t < 2 ^ 31"
  proof (cases "12 \<le> t")
    case True
    then have "(unat t - 12) div 2 \<le> 1000000000" using len nKey size text_type_len [OF True] by (simp add: unat_div unat_sub)
    then show ?thesis by simp
  next
    case False
    then show ?thesis by (simp add: not_le word_less_nat_alt)
  qed
  have type: "bind_res (nth_res aKey 1) (\<lambda>b. bind_res (if sint b < 0 then bind_res (sqlite3GetVarint32 (drop 1 aKey)) (\<lambda>(t, n). Inr (sint t))
      else Inr (sint b)) g) = g (uint t)" for g
  proof (cases "t < 128")
    case True
    then have "uint t = uint b" using b(2) uint_ucast_byte [of b] by simp
    moreover from this have "sint b = uint b" using True by (intro sint_small(1)) (simp add: word_less_def)
    ultimately show ?thesis using b(1) by simp
  next
    case False
    then have "128 \<le> uint b" using b(2) uint_ucast_byte [of b] by (simp add: word_le_def)
    moreover from this have "\<not> b < 0x80" by (simp add: word_less_def)
    have neg: "sint b < 0"
    proof (rule ccontr)
      assume "\<not> sint b < 0"
      then have "take_bit 8 (sint b) = sint b" using byte_fits(2) [of b] by (simp add: take_bit_int_eq_self)
      then have "uint b = sint b" using uint_sint [of b] by simp
      then show False using byte_fits(2) [of b] \<open>128 \<le> uint b\<close> by simp
    qed
    have "getVarint32 (drop 1 aKey) = Inr (t, length (field_type (c', t)))" unfolding d1 by (rule read_field_type)
    moreover have "nth_res (drop 1 aKey) 0 = Inr b" using b(1) by (simp add: nth_res_eq_Inr)
    ultimately have "sqlite3GetVarint32 (drop 1 aKey) = Inr (t, length (field_type (c', t)))"
      using \<open>\<not> b < 0x80\<close> by (simp add: getVarint32_def)
    moreover have "sint t = uint t"
    proof (rule sint_small(2))
      have "uint t = int (unat t)" "unat t < 2147483648" using t31 by simp_all
      then show "uint t < 2147483648" by linarith
    qed
    ultimately show ?thesis using b(1) neg by simp
  qed
  have order: "cell_order recode (ki_enc (pKeyInfo p)) (aColl (pKeyInfo p) ! 0) (stored dbl c) (aMem p ! 0) =
      cell_order recode (ki_enc (pKeyInfo p)) None (stored dbl c) (MStr z)" by (simp add: cache)
  note signs = cached_sign_outcome [OF key cache(4) order]
  have run: "vdbeRecordCompareString recode ld nKey aKey p = (if uint t < 12 then Inr (up_r1 p, p)
     else if uint t AND 1 = 0 then Inr (up_r2 p, p)
     else
       let nStr = nat ((uint t - 12) div 2) in
       if sz + nStr > nKey then Inr (0, p\<lparr>errCode := SQLITE_CORRUPT\<rparr>)
       else bind_res (memcmp (drop sz aKey) z (min (length z) nStr)) (\<lambda>res.
             if res > 0 then Inr (up_r2 p, p)
             else if res < 0 then Inr (up_r1 p, p)
             else bind_res (sub_int (int nStr) (int (length z))) (\<lambda>res.
               if res = 0 then
                 (if up_nField p > 1 then sqlite3VdbeRecordCompareWithSkip recode ld nKey aKey p True
                  else Inr (default_rc p, p\<lparr>eqSeen := True\<rparr>))
               else if res > 0 then Inr (up_r2 p, p) else Inr (up_r1 p, p))))"
    unfolding vdbeRecordCompareString_def type cache(2,3) key_cache.case using hdr(1,2) by (simp add: Let_def)
  have u12: "uint t < 12 \<longleftrightarrow> \<not> 12 \<le> t" by (auto simp: word_le_def)
  have odd: "uint t AND 1 = 0 \<longleftrightarrow> t AND 1 = 0"
    by (simp add: word_uint_eq_iff uint_and)
  from get show ?thesis
  proof (cases rule: value_kinds)
    case str
    let ?n = "unat ((t - 12) div 2)" let ?l = "take ?n (drop sz aKey)"
    have n: "nat ((uint t - 12) div 2) = ?n"
    proof -
      have "?n = (unat t - 12) div 2" using str(1) by (simp add: unat_div unat_sub)
      moreover have "uint t = int (unat t)" "12 \<le> unat t" using str(1) by (simp_all add: word_le_nat_alt)
      ultimately show ?thesis using nat_half_less_12 by metis
    qed
    have fit: "sz + ?n \<le> nKey" "?n = length (field_full ct)" using nKey len text_type_len [OF str(1)] by simp_all
    then have l: "length ?l = ?n" using arg_cong [OF parts(2), of length] by (simp add: c)
    obtain k where k: "memcmp ?l z (min ?n (length z)) = Inr k"
        "if k = 0 then bytes_order ?l z = sgn (int ?n - int (length z)) else bytes_order ?l z = sgn k"
      using memcmp_order [of ?l z] unfolding l by blast
    have mem: "memcmp (drop sz aKey) z (min (length z) ?n) = Inr k"
      using k(1) memcmp_take [of "min ?n (length z)" ?n "drop sz aKey" z] by (simp add: min.commute)
    have o1: "cell_order recode (ki_enc (pKeyInfo p)) None (stored dbl c) (MStr z) = bytes_order ?l z"
      by (simp add: str(3) cell_order_def text_order_def)
    have sub: "sub_int (int ?n) (int (length z)) = Inr (int ?n - int (length z))"
    proof -
      have "0 < length (aMem p)" using key unfolding key_ok_def by linarith
      then have "value_ok (aMem p ! 0)" using key by (simp add: key_ok_def list_all_length)
      then have "length z < 2 ^ 31" by (simp add: cache(1))
      moreover have "sub_int (int k) (int l) = Inr (int k - int l)" if "k \<le> 1000000000" "l < 2 ^ 31" for k l
        using that by (simp add: sub_int_def int_range_defs)
      moreover have "?n \<le> 1000000000" using fit(1) size by linarith
      ultimately show ?thesis by blast
    qed
    show ?thesis
    proof (cases "bytes_order ?l z = 0")
      case True
      moreover have "a = b" if "sgn (int a - int b) = 0" for a b using that by (simp add: sgn_if split: if_splits)
      moreover have "a = 0" if "sgn a = 0" for a :: int using that by (simp add: sgn_if split: if_splits)
      ultimately have "k = 0" "?n = length z" using k(2) by metis+
      then have "vdbeRecordCompareString recode ld nKey aKey p =
          (if up_nField p > 1 then sqlite3VdbeRecordCompareWithSkip recode ld nKey aKey p True
           else Inr (default_rc p, p\<lparr>eqSeen := True\<rparr>))"
        using run n fit(1) mem sub u12 odd str(1,2) by (simp add: Let_def)
      then show ?thesis
        using fast_tail [OF key recode rec [unfolded c] sz fields(2) [unfolded c] signs(3), of ld] True o1 by (simp add: c)
    next
      case False
      then have "vdbeRecordCompareString recode ld nKey aKey p =
          (if bytes_order ?l z = - 1 then Inr (up_r1 p, p) else Inr (up_r2 p, p)) \<and>
          (bytes_order ?l z = - 1 \<or> bytes_order ?l z = 1)"
        using run n fit(1) mem sub u12 odd str(1,2) k(2) by (auto simp: Let_def sgn_if split: if_splits)
      then show ?thesis using signs(1,2) o1 by (auto simp: c)
    qed
  next
    case blob
    then show ?thesis using run signs(2) u12 odd by (auto simp: cell_order_def c)
  next
    case null
    then show ?thesis using run signs(1) u12 by (auto simp: cell_order_def c)
  next
    case (real x)
    then show ?thesis using run signs(1) u12 by (auto simp: cell_order_def read_real_def c)
  next
    case (int j)
    then have "\<not> 12 \<le> t" by (auto simp: word_le_nat_alt)
    then show ?thesis using run signs(1) u12 int by (auto simp: cell_order_def c)
  qed
qed

section \<open>The comparison of the debug build\<close>

lemma debug_flip:
  assumes "fl < 4" and "int_ok rc" "int_ok (- rc)"
  shows "\<exists>rc'. bind_res (if fl AND KEYINFO_ORDER_BIGNULL \<noteq> 0 \<and> (is_null l \<or> is_null r) then to_int (- rc) else Inr rc) (\<lambda>rc.
      bind_res (if fl AND KEYINFO_ORDER_DESC \<noteq> 0 then to_int (- rc) else Inr rc) (\<lambda>rc. Inr (Some rc))) = Inr (Some rc') \<and>
    sgn rc' = directed fl l r (sgn rc)"
  using assms(2,3) by (auto simp: directed_def Let_def sgn_minus)

lemma debug_loop_ok:
  assumes key: "key_ok p"
  shows "list_all2 (plain_field dbl) cs ts \<Longrightarrow> cs \<noteq> [] \<Longrightarrow> drop idx aKey = types_bytes ts @ X \<Longrightarrow> drop d aKey = full_bytes ts @ Y \<Longrightarrow>
    szHdr = idx + length (types_bytes ts) \<Longrightarrow> nKey = d + length (full_bytes ts) \<Longrightarrow> i < up_nField p \<Longrightarrow>
    \<exists>rc. debug_loop recode ld corrupt_db aKey nKey szHdr p i idx d (drop i (aMem p)) = Inr (Some rc) \<and>
      (let c = row_order recode (pKeyInfo p) i (map (stored dbl) cs) (take (up_nField p - i) (drop i (aMem p)))
       in if c \<noteq> 0 then sgn rc = c else rc = default_rc p)"
proof (induction ts arbitrary: cs idx d i)
  case (Cons ct ts)
  obtain c cs' where cs: "cs = c # cs'" and ok: "plain_field dbl c ct" and rest: "list_all2 (plain_field dbl) cs' ts"
    using Cons.prems(1) by (auto simp: list_all2_Cons2)
  obtain c' t where ct: "ct = (c', t)" by (cases ct)
  let ?ki = "pKeyInfo p" and ?l = "stored dbl c" and ?r = "aMem p ! i"
  have i: "i < length (aMem p)" "i < nAllField ?ki" "i < length (aSortFlags ?ki)" "i < length (aColl ?ki)"
    using key Cons.prems(7) by (auto simp: key_ok_def)
  have r: "drop i (aMem p) = ?r # drop (i + 1) (aMem p)" using i(1) by (simp add: Cons_nth_drop_Suc)
  have rv: "value_ok ?r" "coll_ok (aColl ?ki ! i)" "aSortFlags ?ki ! i < 4"
    using key i by (auto simp: key_ok_def list_all_length)
  have len: "sqlite3VdbeSerialTypeLen t = length (field_full ct)" and get: "sqlite3VdbeSerialGet (drop d aKey) t = Inr ?l"
    and lv: "value_ok ?l"
    using ok Cons.prems(4) by (simp_all add: plain_field_def field_ok_def ct)
  have hdr: "getVarint32 (drop idx aKey) = Inr (t, length (field_type ct))"
    using Cons.prems(3) read_field_type [of c' t] by (simp add: ct)
  obtain rc where rc: "sqlite3MemCompare recode ld (ki_enc ?ki) ?l ?r (aColl ?ki ! i) = Inr rc"
      "sgn rc = cell_order recode (ki_enc ?ki) (aColl ?ki ! i) ?l ?r" "int_ok rc" "int_ok (- rc)"
    using mem_compare_order [OF lv rv(1,2)] by blast
  let ?c = "directed (aSortFlags ?ki ! i) ?l ?r (cell_order recode (ki_enc ?ki) (aColl ?ki ! i) ?l ?r)"
  have more: "up_nField p - i = Suc (up_nField p - (i + 1))" using Cons.prems(7) by simp
  have order: "row_order recode ?ki i (map (stored dbl) cs) (take (up_nField p - i) (drop i (aMem p))) =
      (if ?c \<noteq> 0 then ?c else row_order recode ?ki (i + 1) (map (stored dbl) cs') (take (up_nField p - (i + 1)) (drop (i + 1) (aMem p))))"
    unfolding r more by (simp add: cs Let_def)
  have fit: "\<not> (d + unat t + 2 > nKey \<and> d + sqlite3VdbeSerialTypeLen t > nKey)" using len Cons.prems(6) by simp
  have coll: "(if nAllField ?ki > i then nth_res (aColl ?ki) i else Inr None) = Inr (aColl ?ki ! i)" using i by simp
  have step: "debug_loop recode ld corrupt_db aKey nKey szHdr p i idx d (?r # drop (i + 1) (aMem p)) =
      (if rc \<noteq> 0 then
         bind_res (nth_res (aSortFlags ?ki) i) (\<lambda>fl.
         bind_res (if fl AND KEYINFO_ORDER_BIGNULL \<noteq> 0 \<and> (is_null ?l \<or> is_null ?r) then to_int (- rc) else Inr rc) (\<lambda>rc.
         bind_res (if fl AND KEYINFO_ORDER_DESC \<noteq> 0 then to_int (- rc) else Inr rc) (\<lambda>rc. Inr (Some rc))))
       else if idx + length (field_type ct) < szHdr \<and> i + 1 < up_nField p
       then debug_loop recode ld corrupt_db aKey nKey szHdr p (i + 1) (idx + length (field_type ct)) (d + length (field_full ct)) (drop (i + 1) (aMem p))
       else Inr (Some (default_rc p)))"
    using fit by (simp only: debug_loop.simps hdr bind_res_Inr prod.case Let_def if_False get coll rc(1) len)
  show ?case
  proof (cases "rc = 0")
    case False
    then have "?c \<noteq> 0" by (simp add: directed_zero sgn_if flip: rc(2))
    obtain rc' where "debug_loop recode ld corrupt_db aKey nKey szHdr p i idx d (?r # drop (i + 1) (aMem p)) = Inr (Some rc')"
        "sgn rc' = ?c"
      using debug_flip [OF rv(3) rc(3,4), of ?l ?r] False i(3) rc(2) unfolding step by auto
    then show ?thesis unfolding order unfolding r using \<open>?c \<noteq> 0\<close> by simp
  next
    case True
    then have c0: "?c = 0" using rc(2) by (simp add: directed_zero)
    show ?thesis
    proof (cases "idx + length (field_type ct) < szHdr \<and> i + 1 < up_nField p")
      case False
      have "row_order recode ?ki (i + 1) (map (stored dbl) cs') (take (up_nField p - (i + 1)) (drop (i + 1) (aMem p))) = 0"
      proof (cases "i + 1 < up_nField p")
        case True
        then have "types_bytes ts = []" using False Cons.prems(5) by simp
        then have "ts = []" using field_type_nonempty by (cases ts) auto
        then show ?thesis using rest by simp
      qed simp
      then show ?thesis unfolding order unfolding r step if_not_P [OF False] using True c0 by simp
    next
      case more: True
      then have ne: "cs' \<noteq> []" using rest Cons.prems(5) by auto
      have "drop (idx + length (field_type ct)) aKey = types_bytes ts @ X"
        "drop (d + length (field_full ct)) aKey = full_bytes ts @ Y"
        using Cons.prems(3,4) by (simp_all add: add.commute [of _ "length _"] flip: drop_drop)
      from Cons.IH [OF rest ne this _ _ conjunct2 [OF more]] Cons.prems(5,6)
      show ?thesis unfolding order unfolding r step using True c0 more by simp
    qed
  qed
qed simp

lemma debug_ok:
  assumes key: "key_ok p" and rec: "record_at dbl cs ts sz nKey aKey"
    and rc: "if key_order recode dbl p cs \<noteq> 0 then sgn rc = key_order recode dbl p cs else rc = default_rc p"
  shows "\<exists>r. vdbeRecordCompareDebug has_db recode ld False False nKey aKey p rc = Inr r \<and> r \<noteq> 0"
proof -
  obtain bs where parts: "getVarint32 aKey = Inr (of_nat sz, varint_size (of_nat sz))" "unat (of_nat sz :: u32) = sz"
    "drop (varint_size (of_nat sz)) aKey = types_bytes ts @ full_bytes ts @ bs" "drop sz aKey = full_bytes ts @ bs"
    using record_at_parts [OF rec] by blast
  have r: "list_all2 (plain_field dbl) cs ts" "cs \<noteq> []" "sz = varint_size (of_nat sz) + length (types_bytes ts)"
    "nKey = sz + length (full_bytes ts)" using rec by (simp_all add: record_at_def)
  obtain k where "debug_loop recode ld False aKey nKey sz p 0 (varint_size (of_nat sz)) sz (aMem p) = Inr (Some k)"
      "if key_order recode dbl p cs \<noteq> 0 then sgn k = key_order recode dbl p cs else k = default_rc p"
    using debug_loop_ok [OF key r(1,2) parts(3,4) r(3,4), of 0 recode ld False] key by (auto simp: key_order_def key_ok_def Let_def)
  then show ?thesis using parts(1,2) rc
    by (auto simp: vdbeRecordCompareDebug_def SQLITE_CORRUPT_def split: if_splits)
qed

section \<open>Records as they are written\<close>

text \<open>Rows without the markers of unchanged columns and without a NaN, which no register holds.\<close>

definition plain_cell :: "(int \<Rightarrow> u64) \<Rightarrow> mem_cell \<Rightarrow> bool" where
  "plain_cell dbl c \<longleftrightarrow> cell_ok c \<and> c \<noteq> MNull True \<and> (is_null (stored dbl c) \<longrightarrow> c = MNull False)"

lemma plain_value: "plain_cell dbl c \<Longrightarrow> value_ok (stored dbl c)"
  by (cases c) (auto simp: plain_cell_def read_real_def is_null_def fits_def)

lemma size_pass_null:
  "size_pass dbl mem ff cs = Some (ts, s) \<Longrightarrow> list_all2 (\<lambda>c ct. c = MNull False \<longrightarrow> snd ct = 0) cs ts"
proof (induction cs arbitrary: ts s)
  case (Cons c cs)
  then show ?case by (auto simp: size_step_def split: option.splits prod.splits)
qed simp

lemma plain_fieldI:
  assumes "field_ok dbl c ct" and "plain_cell dbl c" and "c = MNull False \<longrightarrow> snd ct = 0"
  shows "plain_field dbl c ct"
proof -
  have get: "sqlite3VdbeSerialGet (field_full ct @ []) (snd ct) = Inr (stored dbl c)"
    using assms(1) unfolding field_ok_def by blast
  have "stored dbl c \<noteq> MNull True" using assms(2) by (cases c) (auto simp: plain_cell_def read_real_def)
  moreover have "c = MNull False" if "stored dbl c = MNull False" using that assms(2) by (simp add: plain_cell_def is_null_def)
  moreover have "stored dbl c = MNull b \<longleftrightarrow> is_null (stored dbl c) \<and> stored dbl c = MNull b" for b by (auto simp: is_null_def)
  ultimately show ?thesis
    using assms get plain_value [OF assms(2)]
    by (auto simp: plain_field_def sqlite3VdbeSerialGet_def is_null_def plain_cell_def split: if_splits mem_cell.splits)
qed

lemma made_record_at:
  assumes ok: "list_all (plain_cell dbl) cs" and len: "length cs < 2 ^ 28" "cs \<noteq> []"
    and made: "op_make_record dbl mem ff szMalloc limit fill cs = Inr (Made buf n)"
  shows "\<exists>ts sz. record_at dbl cs ts sz (length buf + n) (buf @ replicate n 0 @ bs)"
proof (cases "size_pass dbl mem ff cs")
  case None
  then show ?thesis using made by (simp add: op_make_record_def)
next
  case (Some q)
  obtain ts h d z where q: "q = (ts, h, d, z)" by (cases q) auto
  note pass = Some [unfolded q]
  have cells: "list_all cell_ok cs" using ok by (rule list.pred_mono_strong) (simp add: plain_cell_def)
  note make = make_record_layout [OF cells len(1) pass]
  have parts: "data_bytes ts @ replicate z 0 = full_bytes ts" "list_all2 (field_ok dbl) cs ts"
    using size_pass_ok [OF cells pass] by auto
  let ?V = "varint_bytes (of_nat (header_size h))"
  have buf: "buf = ?V @ types_bytes ts @ data_bytes ts" "n = z"
    using made unfolding make(1) by (auto split: if_splits)
  have "buf @ replicate n 0 @ bs = ?V @ types_bytes ts @ full_bytes ts @ bs" by (simp add: buf flip: parts(1))
  moreover have "length buf + n = header_size h + length (full_bytes ts)"
    using make(2) by (simp add: buf length_varint_bytes flip: parts(1))
  moreover have "list_all2 (plain_field dbl) cs ts"
    using parts(2) size_pass_null [OF pass] ok plain_fieldI by (auto simp: list_all2_conv_all_nth list_all_length)
  ultimately show ?thesis using len(2) make(2,3) unfolding record_at_def by blast
qed

lemma find_compare_ok:
  assumes "key_ok p"
  shows "\<exists>kind p'. sqlite3VdbeFindCompare p = Inr (kind, p') \<and> key_ok p' \<and>
    pKeyInfo p' = pKeyInfo p \<and> aMem p' = aMem p \<and> up_nField p' = up_nField p \<and> default_rc p' = default_rc p \<and>
    errCode p' = errCode p \<and> eqSeen p' = eqSeen p \<and>
    (kind = CompareInt \<longrightarrow> (\<exists>v. aMem p ! 0 = MInt v \<and> u_cache p' = IntCache v) \<and> cached_sign p' \<and> nAllField (pKeyInfo p) \<le> 13) \<and>
    (kind = CompareString \<longrightarrow> (\<exists>z. aMem p ! 0 = MStr z \<and> u_cache p' = TextCache z \<and> n_cache p' = length z) \<and> cached_sign p' \<and>
       aColl (pKeyInfo p) ! 0 = None \<and> nAllField (pKeyInfo p) \<le> 13)"
proof (cases "nAllField (pKeyInfo p) \<le> 13")
  case True
  have len: "0 < length (aMem p)" "0 < length (aSortFlags (pKeyInfo p))" "0 < length (aColl (pKeyInfo p))"
    using assms unfolding key_ok_def by linarith+
  then have "aSortFlags (pKeyInfo p) ! 0 < 4" using assms by (simp add: key_ok_def list_all_length)
  from flag_cases [OF this] show ?thesis
    using True len assms
    by (cases "aMem p ! 0"; cases "aColl (pKeyInfo p) ! 0")
      (auto simp: sqlite3VdbeFindCompare_def Let_def cached_sign_def key_ok_def KEYINFO_ORDER_BIGNULL_def KEYINFO_ORDER_DESC_def)
next
  case False
  then show ?thesis using assms by (simp add: sqlite3VdbeFindCompare_def)
qed

lemma call_compare_ok:
  assumes key: "key_ok p" and recode: "recoder_ok recode" and rec: "record_at dbl cs ts sz nKey aKey"
    and fields: "length cs \<le> nAllField (pKeyInfo p)" "up_nField p \<le> length cs" and size: "nKey \<le> 1000000000"
    and find: "sqlite3VdbeFindCompare p = Inr (kind, p')"
  shows "\<exists>rc p2. call_compare kind recode ld nKey aKey p' = Inr (rc, p2) \<and>
    outcome p' (key_order recode dbl p cs) (length cs) (up_nField p) rc p2"
proof -
  have f: "key_ok p'" "pKeyInfo p' = pKeyInfo p" "aMem p' = aMem p" "up_nField p' = up_nField p"
    "kind = CompareInt \<Longrightarrow> (\<exists>v. aMem p ! 0 = MInt v \<and> u_cache p' = IntCache v) \<and> cached_sign p' \<and> nAllField (pKeyInfo p) \<le> 13"
    "kind = CompareString \<Longrightarrow> (\<exists>z. aMem p ! 0 = MStr z \<and> u_cache p' = TextCache z \<and> n_cache p' = length z) \<and> cached_sign p' \<and>
       aColl (pKeyInfo p) ! 0 = None \<and> nAllField (pKeyInfo p) \<le> 13"
    using find_compare_ok [OF key] find by auto
  have order: "key_order recode dbl p' cs = key_order recode dbl p cs" by (simp add: key_order_def f)
  show ?thesis
  proof (cases kind)
    case CompareGeneral
    then show ?thesis using general_compare_ok [OF f(1) recode rec, of ld] by (simp add: order f(4))
  next
    case CompareInt
    then obtain v where "aMem p' ! 0 = MInt v" "u_cache p' = IntCache v" "cached_sign p'" "nAllField (pKeyInfo p) \<le> 13"
      using f(3,5) by auto
    then show ?thesis using int_compare_ok [OF f(1) recode rec, of v ld] fields CompareInt by (simp add: order f(4))
  next
    case CompareString
    then obtain z where "aMem p' ! 0 = MStr z" "u_cache p' = TextCache z" "n_cache p' = length z" "cached_sign p'"
        "aColl (pKeyInfo p') ! 0 = None" "nAllField (pKeyInfo p) \<le> 13"
      using f(2,3,6) by auto
    then show ?thesis using string_compare_ok [OF f(1) recode rec _ _ size, of z ld] fields CompareString by (simp add: order f(4))
  qed
qed

section \<open>Properties\<close>

text \<open>C36. Values are compared by their exact order: nulls before numbers before texts before blobs, integers and
  doubles by the numbers they stand for, on both branches of \<open>sqlite3IntFloatCompare\<close>, with and without a
  long double, rounding included; texts by their collating sequence and blobs byte by byte, counted zeros as bytes.
  No comparison overflows, converts a double out of range or loads outside a value.\<close>

theorem values_in_exact_order:
  assumes "value_ok a" and "value_ok b" and "coll_ok coll"
  shows "\<exists>c. sqlite3MemCompare recode ld enc a b coll = Inr c \<and> sgn c = cell_order recode enc coll a b"
  using mem_compare_order [OF assms] by blast

theorem values_in_exact_order_witness:
  "\<exists>c. sqlite3MemCompare (\<lambda>e f z. Some z) False 1 (MInt 9007199254740993) (MReal 0x4340000000000000) None = Inr c \<and> sgn c = 1"
proof -
  have "cell_order (\<lambda>e f z. Some z) 1 None (MInt 9007199254740993) (MReal 0x4340000000000000) = 1"
    by (simp add: cell_order_def order_sgn_def int_units_def units_one_def dbl_units_def MAN754_def)
  then show ?thesis
    using values_in_exact_order [of "MInt 9007199254740993" "MReal 0x4340000000000000" None "\<lambda>e f z. Some z" False 1]
    by (simp add: fits_def IsNaN_def EXP754_def coll_ok_def)
qed

text \<open>C34. A record is compared with a key as the rows are: \<open>sqlite3VdbeRecordCompare\<close>, which reads a record of
  \<open>OP_MakeRecord\<close> field by field, finds the first column in which the row that was stored differs from the key, and answers
  with the order of the two values there, turned round in a descending column and with nulls last where the
  column says so; when no column differs it answers with \<open>default_rc\<close> and notes the match, and when the key has more fields
  than the record it reports a corrupt record instead.\<close>

theorem record_compare_rows:
  assumes "list_all (plain_cell dbl) cs" and "cs \<noteq> []" and "length cs < 2 ^ 28"
    and "op_make_record dbl mem ff szMalloc limit fill cs = Inr (Made buf n)" and "key_ok p" and "recoder_ok recode"
  shows "\<exists>rc p'. sqlite3VdbeRecordCompare recode ld (length buf + n) (buf @ replicate n 0 @ bs) p = Inr (rc, p') \<and>
    outcome p (row_order recode (pKeyInfo p) 0 (map (stored dbl) cs) (take (up_nField p) (aMem p))) (length cs) (up_nField p) rc p'"
  using made_record_at [OF assms(1,3,2,4)] general_compare_ok [OF assms(5,6)] by (metis key_order_def)

definition sample_key :: unpacked_record where
  "sample_key = \<lparr>pKeyInfo = \<lparr>ki_enc = 1, nAllField = 2, aSortFlags = [0, 1], aColl = [None, None]\<rparr>,
     aMem = [MInt 300, MStr [98]], u_cache = NoCache, n_cache = 0, up_nField = 2, default_rc = 0, errCode = 0,
     up_r1 = 0, up_r2 = 0, eqSeen = False\<rparr>"

lemma sample_key_ok: "key_ok sample_key" "recoder_ok (\<lambda>e f z. Some z)"
  by (simp_all add: key_ok_def sample_key_def fits_def coll_ok_def recoder_ok_def)

lemma sample_made:
  obtains buf n where "op_make_record (\<lambda>i. 0) (\<lambda>n. True) 4 0 1000 (\<lambda>n. []) [MInt 300, MStr [97]] = Inr (Made buf n)"
    "length buf + n \<le> 1000000000"
proof -
  let ?cs = "[MInt 300, MStr [97]]"
  have ok: "list_all cell_ok ?cs" "length ?cs < 2 ^ 28" by (simp_all add: fits_def)
  obtain ts h d z where pass: "size_pass (\<lambda>i. 0) (\<lambda>n. True) 4 ?cs = Some (ts, h, d, z)"
    using size_pass_no_mem [of "\<lambda>i. 0" "\<lambda>n. True" 4 ?cs] by (cases "size_pass (\<lambda>i. 0) (\<lambda>n. True) 4 ?cs") auto
  note make = make_record_layout(1) [OF ok pass, of 0 1000 "\<lambda>n. []"] make_record_layout(2) [OF ok pass]
  have "h = length (types_bytes ts)" "d = length (data_bytes ts)" "list_all2 (field_ok (\<lambda>i. 0)) ?cs ts"
    using size_pass_ok [OF ok(1) pass] by auto
  moreover from this have "length ts = 2" using list_all2_lengthD by fastforce
  ultimately have "header_size h + d + z \<le> 100"
    using size_pass_size [OF pass] make(2) types_bytes_bound [of ts] varint_size_bounds(2) [of "of_nat (header_size h)"] by simp
  moreover from this have "length (varint_bytes (of_nat (header_size h)) @ types_bytes ts @ data_bytes ts) + z \<le> 100"
    using make(2) \<open>d = length (data_bytes ts)\<close> by (simp add: length_varint_bytes)
  ultimately show thesis using that make(1) by simp
qed

theorem record_compare_rows_witness:
  "\<exists>buf n rc p'. op_make_record (\<lambda>i. 0) (\<lambda>n. True) 4 0 1000 (\<lambda>n. []) [MInt 300, MStr [97]] = Inr (Made buf n) \<and>
    sqlite3VdbeRecordCompare (\<lambda>e f z. Some z) True (length buf + n) (buf @ replicate n 0 @ []) sample_key = Inr (rc, p') \<and> sgn rc = 1"
proof -
  obtain buf n where made: "op_make_record (\<lambda>i. 0) (\<lambda>n. True) 4 0 1000 (\<lambda>n. []) [MInt 300, MStr [97]] = Inr (Made buf n)"
    by (rule sample_made)
  have "row_order (\<lambda>e f z. Some z) (pKeyInfo sample_key) 0 (map (stored (\<lambda>i. 0)) [MInt 300, MStr [97]]) (take (up_nField sample_key) (aMem sample_key)) = 1"
    by (simp add: sample_key_def cell_order_def order_sgn_def text_order_def directed_def KEYINFO_ORDER_BIGNULL_def
        KEYINFO_ORDER_DESC_def word_less_nat_alt)
  then show ?thesis
    using record_compare_rows [OF _ _ _ made sample_key_ok, of True "[]"] made
    by (fastforce simp: plain_cell_def is_null_def fits_def outcome_def)
qed

text \<open>C35. The faster comparisons agree with the slow one: whichever function \<open>sqlite3VdbeFindCompare\<close> chooses for
  a key, on a record of at least as many fields as the key it returns a result of the sign that
  \<open>sqlite3VdbeRecordCompare\<close> returns, leaves the same error code and the same mark of a match, and passes the check of
  the debug build, \<open>vdbeRecordCompareDebug\<close>, which unpacks every field when the key names a connection.  Records have at most the number of fields of the
  index and no more than \<open>SQLITE_MAX_LENGTH\<close> bytes.\<close>

theorem fast_compare_agrees:
  assumes "list_all (plain_cell dbl) cs" and "length cs < 2 ^ 28"
    and "op_make_record dbl mem ff szMalloc limit fill cs = Inr (Made buf n)" and "key_ok p" and "recoder_ok recode"
    and "length cs \<le> nAllField (pKeyInfo p)" and "up_nField p \<le> length cs" and "length buf + n \<le> 1000000000"
  shows "\<exists>kind p' rc1 p1 rc2 p2 r. sqlite3VdbeFindCompare p = Inr (kind, p') \<and>
    call_compare kind recode ld (length buf + n) (buf @ replicate n 0 @ bs) p' = Inr (rc1, p1) \<and>
    sqlite3VdbeRecordCompare recode ld (length buf + n) (buf @ replicate n 0 @ bs) p = Inr (rc2, p2) \<and>
    sgn rc1 = sgn rc2 \<and> errCode p1 = errCode p2 \<and> eqSeen p1 = eqSeen p2 \<and>
    vdbeRecordCompareDebug has_db recode ld False False (length buf + n) (buf @ replicate n 0 @ bs) p rc1 = Inr r \<and> r \<noteq> 0"
proof -
  have "cs \<noteq> []" using assms(4,7) by (auto simp: key_ok_def)
  then obtain ts sz where rec: "record_at dbl cs ts sz (length buf + n) (buf @ replicate n 0 @ bs)"
    using made_record_at [OF assms(1,2) _ assms(3)] by blast
  obtain kind p' where find: "sqlite3VdbeFindCompare p = Inr (kind, p')" "default_rc p' = default_rc p" "errCode p' = errCode p" "eqSeen p' = eqSeen p"
    using find_compare_ok [OF assms(4)] by blast
  obtain rc1 p1 where one: "call_compare kind recode ld (length buf + n) (buf @ replicate n 0 @ bs) p' = Inr (rc1, p1)"
      "outcome p' (key_order recode dbl p cs) (length cs) (up_nField p) rc1 p1"
    using call_compare_ok [OF assms(4,5) rec assms(6-8) find(1)] by blast
  obtain rc2 p2 where two: "sqlite3VdbeRecordCompare recode ld (length buf + n) (buf @ replicate n 0 @ bs) p = Inr (rc2, p2)"
      "outcome p (key_order recode dbl p cs) (length cs) (up_nField p) rc2 p2"
    using general_compare_ok [OF assms(4,5) rec] by blast
  have "if key_order recode dbl p cs \<noteq> 0 then sgn rc1 = key_order recode dbl p cs else rc1 = default_rc p"
    using one(2) assms(7) find(2) by (auto simp: outcome_def)
  from debug_ok [OF assms(4) rec this] obtain r where
    "vdbeRecordCompareDebug has_db recode ld False False (length buf + n) (buf @ replicate n 0 @ bs) p rc1 = Inr r" "r \<noteq> 0" by blast
  moreover have "sgn rc1 = sgn rc2 \<and> errCode p1 = errCode p2 \<and> eqSeen p1 = eqSeen p2"
    using one(2) two(2) assms(7) find(2-4) by (auto simp: outcome_def split: if_splits)
  ultimately show ?thesis using find(1) one(1) two(1) by blast
qed

theorem fast_compare_agrees_witness:
  "\<exists>buf n kind p' rc1 p1 rc2 p2. op_make_record (\<lambda>i. 0) (\<lambda>n. True) 4 0 1000 (\<lambda>n. []) [MInt 300, MStr [97]] = Inr (Made buf n) \<and>
    sqlite3VdbeFindCompare sample_key = Inr (kind, p') \<and> kind = CompareInt \<and>
    call_compare kind (\<lambda>e f z. Some z) True (length buf + n) (buf @ replicate n 0 @ []) p' = Inr (rc1, p1) \<and>
    sqlite3VdbeRecordCompare (\<lambda>e f z. Some z) True (length buf + n) (buf @ replicate n 0 @ []) sample_key = Inr (rc2, p2) \<and>
    sgn rc1 = sgn rc2"
proof -
  obtain buf n where made: "op_make_record (\<lambda>i. 0) (\<lambda>n. True) 4 0 1000 (\<lambda>n. []) [MInt 300, MStr [97]] = Inr (Made buf n)"
      "length buf + n \<le> 1000000000"
    by (rule sample_made)
  have "\<exists>p'. sqlite3VdbeFindCompare sample_key = Inr (CompareInt, p')"
    by (simp add: sqlite3VdbeFindCompare_def sample_key_def Let_def)
  then show ?thesis
    using fast_compare_agrees [OF _ _ made(1) sample_key_ok _ _ made(2), of True "[]"] made(1)
    by (fastforce simp: plain_cell_def is_null_def fits_def sample_key_def)
qed

end
