(* ===== verification/SqliteBtCell.thy ===== *)
theory SqliteBtCell
  imports SqliteRecord
begin

text \<open>
  The cells of a b-tree page, from btree.c in components/Ledger/src/sqlite3.c: the kinds of
  page, the size of a cell and its full parse, and the reading of a page header.  The pointer
  to a cell is the list of the bytes from it on, to the end of the buffer; a read behind the
  end is a fault.  The two method pointers of a page are data: which of the four sizes and
  which of the three parsers.
\<close>

unbundle bit_operations_syntax

section \<open>State\<close>

text \<open>The part of \<open>BtShared\<close> that the page layer reads.  The page size is at most
  65536, so it is a natural number here.\<close>

record bt_shared =
  bt_pageSize :: nat
  bt_usableSize :: nat
  bt_maxLocal :: u16
  bt_minLocal :: u16
  bt_maxLeaf :: u16
  bt_minLeaf :: u16
  bt_max1bytePayload :: u8
  bt_btsFlags :: u16
  bt_autoVacuum :: bool
  bt_cellSizeCk :: bool

definition BTS_FAST_SECURE :: u16 where "BTS_FAST_SECURE = 0x000c"

definition fast_secure :: "bt_shared \<Rightarrow> bool" where
  "fast_secure B \<longleftrightarrow> bt_btsFlags B AND BTS_FAST_SECURE \<noteq> 0"

definition SQLITE_MAX_PAGE_SIZE :: nat where "SQLITE_MAX_PAGE_SIZE = 65536"

definition MX_CELL :: "bt_shared \<Rightarrow> nat" where
  "MX_CELL B = (bt_pageSize B - 8) div 6"

text \<open>How much of a payload a page keeps, set when the first page of the file is read.\<close>

definition local_limits :: "bt_shared \<Rightarrow> bt_shared" where
  "local_limits B =
     (let maxLocal = (of_nat (bt_usableSize B) - 12) * 64 div 255 - 23 :: u32;
          minLocal = (of_nat (bt_usableSize B) - 12) * 32 div 255 - 23 :: u32
      in B\<lparr>bt_maxLocal := ucast maxLocal, bt_minLocal := ucast minLocal,
           bt_maxLeaf := ucast (of_nat (bt_usableSize B) - 35 :: u32), bt_minLeaf := ucast minLocal,
           bt_max1bytePayload := (if 127 < (ucast maxLocal :: u16) then 127 else ucast (ucast maxLocal :: u16))\<rparr>)"

datatype cell_size_method = cellSizePtr | cellSizePtrIdxLeaf | cellSizePtrTableLeaf | cellSizePtrNoPayload

datatype parse_cell_method = btreeParseCellPtr | btreeParseCellPtrIndex | btreeParseCellPtrNoPayload

text \<open>The overflow cells \<open>apOvfl\<close>, \<open>aiOvfl\<close> and their count \<open>nOverflow\<close> are
  one list; the pointers into the page are the offsets they are computed from.\<close>

record mem_page =
  isInit :: bool
  intKey :: bool
  intKeyLeaf :: bool
  leaf :: bool
  hdrOffset :: nat
  childPtrSize :: nat
  max1bytePayload :: u8
  overflow :: "(nat \<times> u8 list) list"
  maxLocal :: u16
  minLocal :: u16
  cellOffset :: nat
  nFree :: int
  nCell :: nat
  maskPage :: u16
  pBt :: bt_shared
  aData :: "u8 list"
  xCellSize :: cell_size_method
  xParseCell :: parse_cell_method

abbreviation usable :: "mem_page \<Rightarrow> nat" where "usable p \<equiv> bt_usableSize (pBt p)"

datatype page_rc = PageOK | PageCorrupt | PageError int

section \<open>Two-byte integers\<close>

definition get2byte :: "u8 list \<Rightarrow> nat \<Rightarrow> nat res" where
  "get2byte d i =
     bind_res (nth_res d i) (\<lambda>x. bind_res (nth_res d (i + 1)) (\<lambda>y. Inr (256 * unat x + unat y)))"

definition put2byte :: "u8 list \<Rightarrow> nat \<Rightarrow> nat \<Rightarrow> u8 list res" where
  "put2byte d i v =
     bind_res (upd_res d i (of_nat (v div 256))) (\<lambda>d. upd_res d (i + 1) (of_nat v))"

text \<open>Zero stands for 65536.\<close>

definition get2byteNotZero :: "u8 list \<Rightarrow> nat \<Rightarrow> nat res" where
  "get2byteNotZero d i = bind_res (get2byte d i) (\<lambda>v. Inr (if v = 0 then 65536 else v))"

section \<open>The parts of a cell\<close>

text \<open>The payload size that starts a cell, a loop that stands in each of the routines below:
  at most nine bytes of seven bits each, in a 32-bit integer.\<close>

function payload_more :: "u8 list \<Rightarrow> nat \<Rightarrow> u32 \<Rightarrow> (u32 \<times> nat) res" where
  "payload_more p i n =
     bind_res (nth_res p (Suc i)) (\<lambda>b.
     let n = push_bit 7 n OR (ucast b AND 0x7f)
     in if 0x80 \<le> b \<and> Suc i < 8 then payload_more p (Suc i) n else Inr (n, Suc i))"
  by pat_completeness auto
termination by (relation "measure (\<lambda>(p, i, n). 8 - i)") auto

declare payload_more.simps [simp del]

definition cell_payload :: "u8 list \<Rightarrow> (u32 \<times> nat) res" where
  "cell_payload p =
     bind_res (nth_res p 0) (\<lambda>b.
     if 0x80 \<le> b then bind_res (payload_more p 0 (ucast b AND 0x7f)) (\<lambda>(n, i). Inr (n, Suc i))
     else Inr (ucast b, 1))"

text \<open>The key of a table row, decoded with exclusive ors that remove the continuation bits.\<close>

definition cell_key :: "u8 list \<Rightarrow> (u64 \<times> nat) res" where
  "cell_key p =
     bind_res (nth_res p 0) (\<lambda>x.
     let k = ucast x :: u64 in
     if k < 0x80 then Inr (k, 1) else
     bind_res (nth_res p 1) (\<lambda>x.
     let k = push_bit 7 k XOR ucast x in
     if x < 0x80 then Inr (k XOR 0x4000, 2) else
     bind_res (nth_res p 2) (\<lambda>x.
     let k = push_bit 7 k XOR ucast x in
     if x < 0x80 then Inr (k XOR 0x204000, 3) else
     bind_res (nth_res p 3) (\<lambda>x.
     let k = push_bit 7 k XOR 0x10204000 XOR ucast x in
     if x < 0x80 then Inr (k, 4) else
     bind_res (nth_res p 4) (\<lambda>x.
     let k = push_bit 7 k XOR 0x4000 XOR ucast x in
     if x < 0x80 then Inr (k, 5) else
     bind_res (nth_res p 5) (\<lambda>x.
     let k = push_bit 7 k XOR 0x4000 XOR ucast x in
     if x < 0x80 then Inr (k, 6) else
     bind_res (nth_res p 6) (\<lambda>x.
     let k = push_bit 7 k XOR 0x4000 XOR ucast x in
     if x < 0x80 then Inr (k, 7) else
     bind_res (nth_res p 7) (\<lambda>x.
     let k = push_bit 7 k XOR 0x4000 XOR ucast x in
     if x < 0x80 then Inr (k, 8) else
     bind_res (nth_res p 8) (\<lambda>x.
     let k = push_bit 8 k XOR 0x8000 XOR ucast x in
     Inr (k, 9))))))))))"

text \<open>The key is only skipped when the size is asked for.\<close>

fun skip_key :: "nat \<Rightarrow> u8 list \<Rightarrow> nat \<Rightarrow> nat res" where
  "skip_key 0 p i = Inr (Suc i)"
| "skip_key (Suc k) p i =
     bind_res (nth_res p i) (\<lambda>b. if b AND 0x80 \<noteq> 0 then skip_key k p (Suc i) else Inr (Suc i))"

fun skip_varint :: "nat \<Rightarrow> u8 list \<Rightarrow> nat \<Rightarrow> nat res" where
  "skip_varint k p i =
     bind_res (nth_res p i) (\<lambda>b.
     if b AND 0x80 \<noteq> 0 \<and> 1 < k then skip_varint (k - 1) p (Suc i) else Inr (Suc i))"

declare skip_varint.simps [simp del]

section \<open>The size of a cell\<close>

text \<open>The tail that the sizes share: \<open>n\<close> bytes of payload behind a header of \<open>h\<close>
  bytes.\<close>

definition spilled_size :: "mem_page \<Rightarrow> u32 \<Rightarrow> u32 \<Rightarrow> u32" where
  "spilled_size pg n h =
     (let minL = ucast (minLocal pg);
          s = minL + (n - minL) mod (of_nat (usable pg) - 4);
          s = (if ucast (maxLocal pg) < s then minL else s)
      in s + (4 + h))"

definition cellSize_index_interior :: "mem_page \<Rightarrow> u8 list \<Rightarrow> nat res" where
  "cellSize_index_interior pg c =
     bind_res (cell_payload (drop 4 c)) (\<lambda>(n, k).
     let h = of_nat (4 + k) :: u32;
         s = (if n \<le> ucast (maxLocal pg) then n + h else spilled_size pg n (ucast (ucast h :: u16)))
     in Inr (unat (ucast s :: u16)))"

definition cellSize_index_leaf :: "mem_page \<Rightarrow> u8 list \<Rightarrow> nat res" where
  "cellSize_index_leaf pg c =
     bind_res (cell_payload c) (\<lambda>(n, k).
     let h = of_nat k :: u32;
         s = (if n \<le> ucast (maxLocal pg) then (if n + h < 4 then 4 else n + h)
              else spilled_size pg n (ucast (ucast h :: u16)))
     in Inr (unat (ucast s :: u16)))"

definition cellSize_table_leaf :: "mem_page \<Rightarrow> u8 list \<Rightarrow> nat res" where
  "cellSize_table_leaf pg c =
     bind_res (cell_payload c) (\<lambda>(n, k).
     bind_res (skip_key 8 c k) (\<lambda>k.
     let h = of_nat k :: u32;
         s = (if n \<le> ucast (maxLocal pg) then (if n + h < 4 then 4 else n + h)
              else spilled_size pg n (ucast (ucast h :: u16)))
     in Inr (unat (ucast s :: u16))))"

definition cellSize_table_interior :: "mem_page \<Rightarrow> u8 list \<Rightarrow> nat res" where
  "cellSize_table_interior pg c =
     bind_res (skip_varint 9 c 4) (\<lambda>i. Inr (unat (of_nat i :: u16)))"

fun cell_size_by :: "cell_size_method \<Rightarrow> mem_page \<Rightarrow> u8 list \<Rightarrow> nat res" where
  "cell_size_by cellSizePtr pg c = cellSize_index_interior pg c"
| "cell_size_by cellSizePtrIdxLeaf pg c = cellSize_index_leaf pg c"
| "cell_size_by cellSizePtrTableLeaf pg c = cellSize_table_leaf pg c"
| "cell_size_by cellSizePtrNoPayload pg c = cellSize_table_interior pg c"

definition cellSize :: "mem_page \<Rightarrow> u8 list \<Rightarrow> nat res" where
  "cellSize pg c = cell_size_by (xCellSize pg) pg c"

section \<open>The full parse of a cell\<close>

text \<open>The pointer to the payload is its offset in the cell.\<close>

record cell_info =
  nKey :: u64
  pPayload :: "nat option"
  nPayload :: u32
  nLocal :: u16
  nSize :: u16

definition btreeParseCellAdjustSizeForOverflow :: "mem_page \<Rightarrow> nat \<Rightarrow> cell_info \<Rightarrow> cell_info" where
  "btreeParseCellAdjustSizeForOverflow pg h info =
     (let minL = ucast (minLocal pg) :: u32;
          surplus = sint (minL + (nPayload info - minL) mod (of_nat (usable pg) - 4));
          l = (if surplus \<le> uint (maxLocal pg) then word_of_int surplus else minLocal pg)
      in info\<lparr>nLocal := l, nSize := of_nat (h + unat l) + 4\<rparr>)"

definition btreePayloadToLocal :: "mem_page \<Rightarrow> int \<Rightarrow> int" where
  "btreePayloadToLocal pg n =
     (let maxL = uint (maxLocal pg); minL = uint (minLocal pg)
      in if n \<le> maxL then n
         else let surplus = minL + (n - minL) mod (int (usable pg) - 4)
              in if surplus \<le> maxL then surplus else minL)"

definition parse_no_payload :: "mem_page \<Rightarrow> u8 list \<Rightarrow> cell_info res" where
  "parse_no_payload pg c =
     bind_res (sqlite3GetVarint (drop 4 c)) (\<lambda>(k, n).
     Inr \<lparr>nKey = k, pPayload = None, nPayload = 0, nLocal = 0, nSize = 4 + of_nat n\<rparr>)"

text \<open>What the two parsers of cells with a payload do once the header is read.\<close>

definition parse_tail :: "mem_page \<Rightarrow> u64 \<Rightarrow> u32 \<Rightarrow> nat \<Rightarrow> cell_info" where
  "parse_tail pg k n h =
     (let info = \<lparr>nKey = k, pPayload = Some h, nPayload = n, nLocal = 0, nSize = 0\<rparr>
      in if n \<le> ucast (maxLocal pg) then
           let s = ucast (n + ucast (of_nat h :: u16)) :: u16
           in info\<lparr>nSize := (if s < 4 then 4 else s), nLocal := ucast n\<rparr>
         else btreeParseCellAdjustSizeForOverflow pg h info)"

definition parse_table_leaf :: "mem_page \<Rightarrow> u8 list \<Rightarrow> cell_info res" where
  "parse_table_leaf pg c =
     bind_res (cell_payload c) (\<lambda>(n, i).
     bind_res (cell_key (drop i c)) (\<lambda>(k, j). Inr (parse_tail pg k n (i + j))))"

definition parse_index :: "mem_page \<Rightarrow> u8 list \<Rightarrow> cell_info res" where
  "parse_index pg c =
     bind_res (cell_payload (drop (childPtrSize pg) c)) (\<lambda>(n, i).
     Inr (parse_tail pg (ucast n) n (childPtrSize pg + i)))"

fun parse_cell_by :: "parse_cell_method \<Rightarrow> mem_page \<Rightarrow> u8 list \<Rightarrow> cell_info res" where
  "parse_cell_by btreeParseCellPtr pg c = parse_table_leaf pg c"
| "parse_cell_by btreeParseCellPtrIndex pg c = parse_index pg c"
| "parse_cell_by btreeParseCellPtrNoPayload pg c = parse_no_payload pg c"

definition findCell :: "mem_page \<Rightarrow> nat \<Rightarrow> u8 list res" where
  "findCell pg i =
     bind_res (get2byte (aData pg) (cellOffset pg + 2 * i)) (\<lambda>pc.
     Inr (drop (unat (maskPage pg AND of_nat pc)) (aData pg)))"

definition btreeParseCell :: "mem_page \<Rightarrow> nat \<Rightarrow> cell_info res" where
  "btreeParseCell pg i = bind_res (findCell pg i) (parse_cell_by (xParseCell pg) pg)"

section \<open>The header of a page\<close>

definition PTF_INTKEY :: nat where "PTF_INTKEY = 0x01"
definition PTF_ZERODATA :: nat where "PTF_ZERODATA = 0x02"
definition PTF_LEAFDATA :: nat where "PTF_LEAFDATA = 0x04"
definition PTF_LEAF :: nat where "PTF_LEAF = 0x08"

definition decodeFlags :: "mem_page \<Rightarrow> nat \<Rightarrow> page_rc \<times> mem_page" where
  "decodeFlags pg0 flagByte =
     (let B = pBt pg0; pg = pg0\<lparr>max1bytePayload := bt_max1bytePayload B\<rparr> in
      if PTF_ZERODATA OR PTF_LEAF \<le> flagByte then
        let pg = pg\<lparr>childPtrSize := 0, leaf := True\<rparr> in
        if flagByte = PTF_LEAFDATA OR PTF_INTKEY OR PTF_LEAF then
          (PageOK, pg\<lparr>intKeyLeaf := True, xCellSize := cellSizePtrTableLeaf,
             xParseCell := btreeParseCellPtr, intKey := True,
             maxLocal := bt_maxLeaf B, minLocal := bt_minLeaf B\<rparr>)
        else
          let pg = pg\<lparr>intKey := False, intKeyLeaf := False, xCellSize := cellSizePtrIdxLeaf,
             xParseCell := btreeParseCellPtrIndex\<rparr> in
          if flagByte = PTF_ZERODATA OR PTF_LEAF then
            (PageOK, pg\<lparr>maxLocal := bt_maxLocal B, minLocal := bt_minLocal B\<rparr>)
          else (PageCorrupt, pg)
      else
        let pg = pg\<lparr>childPtrSize := 4, leaf := False\<rparr> in
        if flagByte = PTF_ZERODATA then
          (PageOK, pg\<lparr>intKey := False, intKeyLeaf := False, xCellSize := cellSizePtr,
             xParseCell := btreeParseCellPtrIndex,
             maxLocal := bt_maxLocal B, minLocal := bt_minLocal B\<rparr>)
        else if flagByte = PTF_LEAFDATA OR PTF_INTKEY then
          (PageOK, pg\<lparr>intKeyLeaf := False, xCellSize := cellSizePtrNoPayload,
             xParseCell := btreeParseCellPtrNoPayload, intKey := True,
             maxLocal := bt_maxLeaf B, minLocal := bt_minLeaf B\<rparr>)
        else
          (PageCorrupt, pg\<lparr>intKey := False, intKeyLeaf := False, xCellSize := cellSizePtr,
             xParseCell := btreeParseCellPtrIndex\<rparr>))"

text \<open>The check of the cell pointers that \<open>PRAGMA cell_size_check\<close> asks for, from the
  \<open>i\<close>-th cell on; \<open>k\<close> cells are left.\<close>

fun cell_size_check :: "nat \<Rightarrow> nat \<Rightarrow> mem_page \<Rightarrow> page_rc res" where
  "cell_size_check 0 i pg = Inr PageOK"
| "cell_size_check (Suc k) i pg =
     bind_res (get2byte (aData pg) (cellOffset pg + i * 2)) (\<lambda>pc.
     let iCellFirst = int (cellOffset pg + 2 * nCell pg);
         iCellLast = int (usable pg) - 4 - (if leaf pg then 0 else 1)
     in if int pc < iCellFirst \<or> iCellLast < int pc then Inr PageCorrupt
        else bind_res (cellSize pg (drop pc (aData pg))) (\<lambda>sz.
             if usable pg < pc + sz then Inr PageCorrupt else cell_size_check k (Suc i) pg))"

definition btreeCellSizeCheck :: "mem_page \<Rightarrow> page_rc res" where
  "btreeCellSizeCheck pg = cell_size_check (nCell pg) 0 pg"

definition btreeInitPage :: "mem_page \<Rightarrow> (page_rc \<times> mem_page) res" where
  "btreeInitPage pg =
     bind_res (nth_res (aData pg) (hdrOffset pg)) (\<lambda>flagByte.
     case decodeFlags pg (unat flagByte) of
       (PageOK, pg) \<Rightarrow>
         let B = pBt pg;
             pg = pg\<lparr>maskPage := of_nat (bt_pageSize B - 1), overflow := [],
                     cellOffset := hdrOffset pg + 8 + childPtrSize pg\<rparr> in
         bind_res (get2byte (aData pg) (hdrOffset pg + 3)) (\<lambda>n.
         let pg = pg\<lparr>nCell := n\<rparr> in
         if MX_CELL B < n then Inr (PageCorrupt, pg)
         else
           let pg = pg\<lparr>nFree := -1, isInit := True\<rparr> in
           if bt_cellSizeCk B then bind_res (btreeCellSizeCheck pg) (\<lambda>rc. Inr (rc, pg))
           else Inr (PageOK, pg))
     | (_, pg) \<Rightarrow> Inr (PageCorrupt, pg))"

section \<open>Facts\<close>

lemma below_0x80_u64: "(ucast x :: u64) < 0x80 \<longleftrightarrow> \<not> bit x 7" for x :: u8
proof -
  have "unat x < 2 ^ 8" by (rule order_less_le_trans [OF unsigned_less]) simp
  then have "unat (ucast x :: u64) = unat x" by (simp add: unsigned_ucast_eq take_bit_nat_eq_self)
  then have "(ucast x :: u64) < 0x80 \<longleftrightarrow> x < 0x80" by (simp add: word_less_nat_alt)
  then show ?thesis using u8_high_bit by simp
qed

lemma key_is_varint: "cell_key p = sqlite3GetVarint p"
proof -
  have "cell_key p = varint_ref 0 0 (drop 0 p)"
    unfolding cell_key_def Let_def
    apply (rule varint_ref_step, simp add: below_0x80_u64, simp, simp, simp)
    apply (rule varint_ref_step, simp add: u8_high_bit, simp, simp,
        rule word_eq_bitwise, simp only: bits64_def bit_simps, simp add: bit_simps)+
    apply (rule varint_ref_final, rule word_eq_bitwise, simp only: bits64_def bit_simps, simp add: bit_simps)
    done
  then show ?thesis by (simp add: get_varint_ref)
qed

text \<open>What every parse of a header has read lies in the bytes of the cell.\<close>

lemma nth_res_append: "nth_res p i = Inr b \<Longrightarrow> nth_res (p @ r) i = Inr b"
  by (auto simp: nth_res_eq_Inr nth_append)

lemma payload_more_append:
  "payload_more p i n = Inr x \<Longrightarrow> payload_more (p @ r) i n = Inr x"
proof (induction p i n rule: payload_more.induct)
  case (1 p i n)
  from "1.prems" obtain b where b: "nth_res p (Suc i) = Inr b"
    by (auto simp: payload_more.simps [of p] bind_res_eq_Inr)
  show ?case
  proof (cases "0x80 \<le> b \<and> Suc i < 8")
    case True
    with "1.prems" b have "payload_more p (Suc i) (push_bit 7 n OR (ucast b AND 0x7f)) = Inr x"
      by (simp add: payload_more.simps [of p i] Let_def)
    from "1.IH" [OF b refl True this] b True show ?thesis
      by (simp add: payload_more.simps [of "p @ r" i] nth_res_append Let_def)
  next
    case False
    with "1.prems" b show ?thesis
      by (auto simp: payload_more.simps [of p i] payload_more.simps [of "p @ r" i] nth_res_append Let_def)
  qed
qed

lemma cell_payload_append: "cell_payload p = Inr x \<Longrightarrow> cell_payload (p @ r) = Inr x"
proof -
  assume a: "cell_payload p = Inr x"
  then obtain b where b: "nth_res p 0 = Inr b" by (auto simp: cell_payload_def bind_res_eq_Inr)
  show ?thesis
  proof (cases "0x80 \<le> b")
    case True
    with a b obtain n i where m: "payload_more p 0 (ucast b AND 0x7f) = Inr (n, i)" "x = (n, Suc i)"
      by (auto simp: cell_payload_def bind_res_eq_Inr)
    show ?thesis using b True m payload_more_append [OF m(1), of r] by (simp add: cell_payload_def nth_res_append)
  next
    case False
    with a b show ?thesis by (simp add: cell_payload_def nth_res_append)
  qed
qed

lemma skip_key_append: "skip_key k p i = Inr j \<Longrightarrow> skip_key k (p @ r) i = Inr j"
proof (induction k p i rule: skip_key.induct)
  case (2 k p i)
  from "2.prems" obtain b where b: "nth_res p i = Inr b" by (auto simp: bind_res_eq_Inr)
  show ?case using "2.prems" "2.IH" [OF b] b by (cases "b AND 0x80 = 0") (simp_all add: nth_res_append)
qed simp

lemma skip_varint_append: "skip_varint k p i = Inr j \<Longrightarrow> skip_varint k (p @ r) i = Inr j"
proof (induction k p i rule: skip_varint.induct)
  case (1 k p i)
  from "1.prems" obtain b where b: "nth_res p i = Inr b"
    by (auto simp: skip_varint.simps [of k p] bind_res_eq_Inr)
  show ?case
  proof (cases "b AND 0x80 \<noteq> 0 \<and> 1 < k")
    case True
    with "1.prems" b have "skip_varint (k - 1) p (Suc i) = Inr j" by (simp add: skip_varint.simps [of k p i])
    from "1.IH" [OF b True this] show ?thesis
      using b True by (simp add: skip_varint.simps [of k "p @ r" i] nth_res_append)
  next
    case False
    with "1.prems" b show ?thesis
      by (auto simp: skip_varint.simps [of k p i] skip_varint.simps [of k "p @ r" i] nth_res_append)
  qed
qed

lemma drop_append_ok: "cell_payload (drop k p) = Inr x \<Longrightarrow> cell_payload (drop k (p @ r)) = Inr x"
  using cell_payload_append [of "drop k p" x "drop (k - length p) r"] by simp

lemma cellSize_append: "cellSize pg c = Inr n \<Longrightarrow> cellSize pg (c @ r) = Inr n"
proof -
  assume a: "cellSize pg c = Inr n"
  show ?thesis
  proof (cases "xCellSize pg")
    case cellSizePtr
    with a obtain x where x: "cell_payload (drop 4 c) = Inr x"
      by (auto simp: cellSize_def cellSize_index_interior_def bind_res_eq_Inr)
    show ?thesis using a cellSizePtr x drop_append_ok [OF x, of r]
      by (simp add: cellSize_def cellSize_index_interior_def)
  next
    case cellSizePtrIdxLeaf
    with a obtain x where x: "cell_payload c = Inr x"
      by (auto simp: cellSize_def cellSize_index_leaf_def bind_res_eq_Inr)
    show ?thesis using a cellSizePtrIdxLeaf x cell_payload_append [OF x, of r]
      by (simp add: cellSize_def cellSize_index_leaf_def)
  next
    case cellSizePtrTableLeaf
    with a obtain m k j where x: "cell_payload c = Inr (m, k)" "skip_key 8 c k = Inr j"
      by (auto simp: cellSize_def cellSize_table_leaf_def bind_res_eq_Inr)
    show ?thesis using a cellSizePtrTableLeaf x cell_payload_append [OF x(1), of r] skip_key_append [OF x(2), of r]
      by (simp add: cellSize_def cellSize_table_leaf_def)
  next
    case cellSizePtrNoPayload
    with a obtain i where i: "skip_varint 9 c 4 = Inr i"
      by (auto simp: cellSize_def cellSize_table_interior_def bind_res_eq_Inr)
    show ?thesis using a cellSizePtrNoPayload i skip_varint_append [OF i, of r]
      by (simp add: cellSize_def cellSize_table_interior_def)
  qed
qed

section \<open>The three readings of a cell agree\<close>

text \<open>A page whose flags byte was accepted, in a file whose first page was read.\<close>

definition page_kind :: "mem_page \<Rightarrow> bool" where
  "page_kind pg \<longleftrightarrow>
     (xCellSize pg, xParseCell pg, childPtrSize pg, leaf pg) \<in>
       {(cellSizePtr, btreeParseCellPtrIndex, 4, False), (cellSizePtrNoPayload, btreeParseCellPtrNoPayload, 4, False),
        (cellSizePtrIdxLeaf, btreeParseCellPtrIndex, 0, True), (cellSizePtrTableLeaf, btreeParseCellPtr, 0, True)}"

definition page_limits :: "mem_page \<Rightarrow> bool" where
  "page_limits pg \<longleftrightarrow> 4 < usable pg \<and> usable pg \<le> SQLITE_MAX_PAGE_SIZE \<and> unat (maxLocal pg) \<le> 65501"

lemmas ptf_values = PTF_ZERODATA_def PTF_LEAF_def PTF_LEAFDATA_def PTF_INTKEY_def

lemma decode_flags_OK: "fst (decodeFlags pg0 f) = PageOK \<longleftrightarrow> f \<in> {2, 5, 10, 13}"
  by (simp add: decodeFlags_def Let_def ptf_values)

lemma decode_page_kind: "decodeFlags pg0 f = (PageOK, pg) \<Longrightarrow> page_kind pg"
proof -
  assume d: "decodeFlags pg0 f = (PageOK, pg)"
  then have "f = 2 \<or> f = 5 \<or> f = 10 \<or> f = 13" using decode_flags_OK [of pg0 f] by simp
  moreover have pg: "pg = snd (decodeFlags pg0 f)" using d by simp
  ultimately show ?thesis unfolding page_kind_def pg by (elim disjE) (simp_all add: decodeFlags_def Let_def ptf_values)
qed

lemma decode_pBt: "pBt (snd (decodeFlags pg0 f)) = pBt pg0"
  by (simp add: decodeFlags_def Let_def)

lemma decode_maxLocal:
  "decodeFlags pg0 f = (PageOK, pg) \<Longrightarrow> maxLocal pg \<in> {bt_maxLocal (pBt pg0), bt_maxLeaf (pBt pg0)}"
proof -
  assume d: "decodeFlags pg0 f = (PageOK, pg)"
  then have "f = 2 \<or> f = 5 \<or> f = 10 \<or> f = 13" using decode_flags_OK [of pg0 f] by simp
  moreover have pg: "pg = snd (decodeFlags pg0 f)" using d by simp
  ultimately show ?thesis unfolding pg by (elim disjE) (simp_all add: decodeFlags_def Let_def ptf_values)
qed

lemma unat_times_64: "unat x * 64 < 2 ^ 32 \<Longrightarrow> unat (x * 64) = unat x * 64" for x :: u32
  by (simp add: unat_word_ariths)

lemma local_limits_usable [simp]: "bt_usableSize (local_limits B) = bt_usableSize B"
  by (simp add: local_limits_def Let_def)

lemma local_limits_max:
  assumes "480 \<le> bt_usableSize B" "bt_usableSize B \<le> SQLITE_MAX_PAGE_SIZE"
  shows "unat (bt_maxLocal (local_limits B)) = (bt_usableSize B - 12) * 64 div 255 - 23"
    and "unat (bt_maxLeaf (local_limits B)) = bt_usableSize B - 35"
proof -
  define U where "U = bt_usableSize B"
  have U: "480 \<le> U" "U \<le> 65536" using assms by (simp_all add: U_def SQLITE_MAX_PAGE_SIZE_def)
  have u: "unat (of_nat U :: u32) = U" using U by (simp add: unat_of_nat)
  have a: "unat (of_nat U - 12 :: u32) = U - 12"
    using U u by (simp add: unat_sub word_le_nat_alt)
  have b: "unat ((of_nat U - 12) * 64 :: u32) = (U - 12) * 64"
    using U a unat_times_64 [of "of_nat U - 12"] by simp
  have c: "unat ((of_nat U - 12) * 64 div 255 :: u32) = (U - 12) * 64 div 255"
    using b by (simp add: unat_div)
  have c1: "23 \<le> (U - 12) * 64 div 255" using U by (simp add: less_eq_div_iff_mult_less_eq)
  have d: "unat ((of_nat U - 12) * 64 div 255 - 23 :: u32) = (U - 12) * 64 div 255 - 23"
    using c c1 by (simp add: unat_sub word_le_nat_alt)
  have e: "(U - 12) * 64 div 255 - 23 < 65536"
  proof -
    have "(U - 12) * 64 div 255 \<le> 65524 * 64 div 255" using U by (intro div_le_mono) simp
    then show ?thesis by simp
  qed
  show "unat (bt_maxLocal (local_limits B)) = (bt_usableSize B - 12) * 64 div 255 - 23"
    using d e by (simp add: local_limits_def Let_def U_def [symmetric] unsigned_ucast_eq take_bit_nat_eq_self)
  have f: "unat (of_nat U - 35 :: u32) = U - 35" using U u by (simp add: unat_sub word_le_nat_alt)
  show "unat (bt_maxLeaf (local_limits B)) = bt_usableSize B - 35"
    using f U by (simp add: local_limits_def Let_def U_def [symmetric] unsigned_ucast_eq take_bit_nat_eq_self)
qed

lemma decode_page_limits:
  assumes "decodeFlags pg0 f = (PageOK, pg)" "pBt pg0 = local_limits B"
    and "480 \<le> bt_usableSize B" "bt_usableSize B \<le> SQLITE_MAX_PAGE_SIZE"
  shows "page_limits pg"
proof -
  have p: "pBt pg = local_limits B" using decode_pBt [of pg0 f] assms(1,2) by simp
  have "(bt_usableSize B - 12) * 64 div 255 \<le> 65524 * 64 div 255"
    using assms(4) by (intro div_le_mono) (simp add: SQLITE_MAX_PAGE_SIZE_def)
  then have "unat (bt_maxLocal (local_limits B)) \<le> 65501" using local_limits_max(1) [OF assms(3,4)] by simp
  moreover have "unat (bt_maxLeaf (local_limits B)) \<le> 65501"
    using local_limits_max(2) [OF assms(3,4)] assms(4) by (simp add: SQLITE_MAX_PAGE_SIZE_def)
  ultimately show ?thesis using decode_maxLocal [OF assms(1)] assms(2-4) p by (auto simp: page_limits_def)
qed

lemma payload_more_count: "payload_more p i n = Inr (m, j) \<Longrightarrow> i < 8 \<Longrightarrow> i < j \<and> j \<le> 8"
proof (induction p i n rule: payload_more.induct)
  case (1 p i n)
  from "1.prems" obtain b where b: "nth_res p (Suc i) = Inr b"
    by (auto simp: payload_more.simps [of p] bind_res_eq_Inr)
  show ?case
  proof (cases "0x80 \<le> b \<and> Suc i < 8")
    case True
    with "1.prems" b have "payload_more p (Suc i) (push_bit 7 n OR (ucast b AND 0x7f)) = Inr (m, j)"
      by (simp add: payload_more.simps [of p i] Let_def)
    from "1.IH" [OF b refl True this] True show ?thesis by simp
  next
    case False
    with "1.prems" b show ?thesis by (auto simp: payload_more.simps [of p i] Let_def)
  qed
qed

lemma cell_payload_count: "cell_payload p = Inr (n, k) \<Longrightarrow> 1 \<le> k \<and> k \<le> 9"
  by (auto simp: cell_payload_def bind_res_eq_Inr dest: payload_more_count split: if_splits prod.splits)

lemma take_bit_16_add: "take_bit 16 (take_bit 32 a + take_bit 32 b) = take_bit 16 (a + b)" for a b :: int
proof -
  have "take_bit 16 (take_bit 32 a + take_bit 32 b) = take_bit 16 (take_bit 16 (take_bit 32 a) + take_bit 16 (take_bit 32 b))"
    by (simp only: take_bit_add)
  also have "\<dots> = take_bit 16 (take_bit 16 a + take_bit 16 b)" by simp
  also have "\<dots> = take_bit 16 (a + b)" by (rule take_bit_add)
  finally show ?thesis .
qed

lemma ucast_add_u16: "(ucast (a + b) :: u16) = ucast a + ucast b" for a b :: u32
  by transfer (simp add: take_bit_16_add)

lemma spilled_parts:
  fixes pg n
  assumes lim: "page_limits pg"
  defines "minL \<equiv> ucast (minLocal pg) :: u32"
  defines "s \<equiv> minL + (n - minL) mod (of_nat (usable pg) - 4)"
  shows "sint s = uint s" "unat s < 131072"
proof -
  have U: "4 < usable pg" "usable pg \<le> 65536" using lim by (simp_all add: page_limits_def SQLITE_MAX_PAGE_SIZE_def)
  have d: "unat (of_nat (usable pg) - 4 :: u32) = usable pg - 4"
    using U by (simp add: unat_sub word_le_nat_alt unat_of_nat)
  have m: "unat ((n - minL) mod (of_nat (usable pg) - 4)) < 65536"
    
    unfolding unat_mod d using U mod_less_divisor [of "usable pg - 4" "unat (n - minL)"] by linarith
  have "unat (minLocal pg) < 2 ^ 16" by (rule order_less_le_trans [OF unsigned_less]) simp
  then have l: "unat minL < 65536" by (simp add: minL_def unsigned_ucast_eq take_bit_nat_eq_self)
  show b: "unat s < 131072" using m l by (simp add: s_def unat_word_ariths)
  have "uint s = int (unat s)" by simp
  then have "uint s < 131072" using b by linarith
  then have "signed_take_bit 31 (uint s) = uint s" by (intro signed_take_bit_int_eq_self) simp_all
  then show "sint s = uint s" by (simp add: sint_uint)
qed

lemma ucast_u16_u32_u16 [simp]: "(ucast (ucast w :: u32) :: u16) = w" for w :: u16
  by transfer simp

lemma u16_le_u32: "unat (ucast w :: u32) = unat w" for w :: u16
proof -
  have "unat w < 2 ^ 16" by (rule order_less_le_trans [OF unsigned_less]) simp
  then show ?thesis by (simp add: unsigned_ucast_eq take_bit_nat_eq_self)
qed

lemma spilled_is_adjusted:
  assumes lim: "page_limits pg" and n: "nPayload info = n"
  shows "ucast (spilled_size pg n (ucast (of_nat h :: u16)))
         = nSize (btreeParseCellAdjustSizeForOverflow pg h info)"
proof -
  define minL where "minL = (ucast (minLocal pg) :: u32)"
  define s where "s = minL + (n - minL) mod (of_nat (usable pg) - 4)"
  have s: "sint s = uint s" using spilled_parts [OF lim, of n] by (simp add: s_def minL_def)
  have c: "sint s \<le> uint (maxLocal pg) \<longleftrightarrow> \<not> ucast (maxLocal pg) < s"
  proof -
    have "sint s \<le> uint (maxLocal pg) \<longleftrightarrow> unat s \<le> unat (maxLocal pg)"
    proof -
      have "uint s = int (unat s)" "uint (maxLocal pg) = int (unat (maxLocal pg))" by simp_all
      then show ?thesis unfolding s by linarith
    qed
    then show ?thesis by (simp add: word_less_nat_alt u16_le_u32 not_less)
  qed
  define l where "l = (if sint s \<le> uint (maxLocal pg) then word_of_int (sint s) else minLocal pg)"
  have l: "ucast (if ucast (maxLocal pg) < s then minL else s) = l"
  proof -
    have w: "(word_of_int (uint s) :: u16) = ucast s" by (simp only: ucast_eq)
    show ?thesis unfolding l_def c unfolding s w by (simp add: minL_def)
  qed
  have "nSize (btreeParseCellAdjustSizeForOverflow pg h info) = of_nat (h + unat l) + 4"
    by (simp add: btreeParseCellAdjustSizeForOverflow_def Let_def n l_def s_def minL_def)
  moreover have "ucast (spilled_size pg n (ucast (of_nat h :: u16))) = l + (4 + of_nat h)"
    unfolding spilled_size_def Let_def minL_def [symmetric] s_def [symmetric] ucast_add_u16 l by simp
  ultimately show ?thesis by (simp add: algebra_simps)
qed

lemma header_u16: "h < 65536 \<Longrightarrow> (ucast (of_nat h :: u32) :: u16) = of_nat h"
  by (rule word_unat_eq_iff [THEN iffD2]) (simp add: unsigned_ucast_eq unat_of_nat take_bit_nat_eq_self)

lemma tail_sizes:
  assumes lim: "page_limits pg" and h: "1 \<le> h" "h \<le> 18"
  shows "(ucast (if n \<le> ucast (maxLocal pg) then (if n + of_nat h < 4 then 4 else n + of_nat h)
           else spilled_size pg n (ucast (ucast (of_nat h :: u32) :: u16))) :: u16)
         = nSize (parse_tail pg k n h)"
    (is "ucast ?s = _")
    and "5 \<le> h \<Longrightarrow> n \<le> ucast (maxLocal pg) \<Longrightarrow> \<not> n + of_nat h < 4"
proof -
  have hu: "unat (of_nat h :: u32) = h" "unat (of_nat h :: u16) = h" using h by (simp_all add: unat_of_nat)
  have w: "unat (n + of_nat h) = unat n + h" if "n \<le> ucast (maxLocal pg)"
  proof -
    have "unat n \<le> 65501" using that lim by (simp add: word_le_nat_alt u16_le_u32 page_limits_def)
    then show ?thesis using h hu by (simp add: unat_word_ariths)
  qed
  show "5 \<le> h \<Longrightarrow> n \<le> ucast (maxLocal pg) \<Longrightarrow> \<not> n + of_nat h < 4"
    using w by (simp add: word_less_nat_alt)
  show "ucast ?s = nSize (parse_tail pg k n h)"
  proof (cases "n \<le> ucast (maxLocal pg)")
    case True
    have le: "unat n \<le> 65501" using True lim by (simp add: word_le_nat_alt u16_le_u32 page_limits_def)
    have e: "(ucast (of_nat h :: u16) :: u32) = of_nat h"
      by (rule word_unat_eq_iff [THEN iffD2]) (simp add: u16_le_u32 hu)
    have u: "unat (ucast (n + of_nat h) :: u16) = unat (n + of_nat h)"
      using w [OF True] le h by (simp add: unsigned_ucast_eq take_bit_nat_eq_self)
    have c: "(ucast (n + of_nat h) :: u16) < 4 \<longleftrightarrow> n + of_nat h < 4" by (simp add: word_less_nat_alt u)
    show ?thesis using True by (simp add: parse_tail_def Let_def e c)
  next
    case False
    have "ucast (spilled_size pg n (ucast (of_nat h :: u16)))
        = nSize (btreeParseCellAdjustSizeForOverflow pg h
            \<lparr>nKey = k, pPayload = Some h, nPayload = n, nLocal = 0, nSize = 0\<rparr>)"
      by (rule spilled_is_adjusted [OF lim]) simp
    then show ?thesis using False h by (simp add: parse_tail_def Let_def header_u16)
  qed
qed

lemma drop_Cons_nth: "drop k q = b # bs \<Longrightarrow> nth_res q k = Inr b \<and> drop (Suc k) q = bs"
  by (cases "k < length q") (auto simp: Cons_nth_drop_Suc [symmetric])

lemma skip_key_varint:
  "varint_ref k acc (drop (i + k) q) = Inr (v, j) \<Longrightarrow> k \<le> 8 \<Longrightarrow> skip_key (8 - k) q (i + k) = Inr (i + j)"
proof (induction k acc "drop (i + k) q" arbitrary: rule: varint_ref.induct)
  case (2 k acc b bs)
  have b: "nth_res q (i + k) = Inr b" "drop (i + Suc k) q = bs"
    using drop_Cons_nth [OF "2.hyps"(2) [symmetric]] by simp_all
  show ?case
  proof (cases "k = 8")
    case True
    then show ?thesis using "2.prems" "2.hyps"(2) [symmetric] by simp
  next
    case False
    then have k: "8 - k = Suc (8 - Suc k)" using "2.prems" by simp
    show ?thesis
    proof (cases "bit b 7")
      case True
      have "varint_ref (Suc k) (push_bit 7 acc OR ucast (b AND 0x7f)) (drop (i + Suc k) q) = Inr (v, j)"
        using "2.prems"(1) "2.hyps"(2) [symmetric] False True b by simp
      from "2.hyps"(1) [OF False True] this have "skip_key (8 - Suc k) q (i + Suc k) = Inr (i + j)"
        using b "2.prems"(2) False by simp
      then show ?thesis unfolding k using b True by (simp add: and_0x80)
    next
      case f: False
      then show ?thesis unfolding k using "2.prems"(1) "2.hyps"(2) [symmetric] False b by (simp add: and_0x80)
    qed
  qed
qed simp

lemma skip_varint_varint:
  "varint_ref k acc (drop (i + k) q) = Inr (v, j) \<Longrightarrow> k \<le> 8 \<Longrightarrow> skip_varint (9 - k) q (i + k) = Inr (i + j)"
proof (induction k acc "drop (i + k) q" arbitrary: rule: varint_ref.induct)
  case (2 k acc b bs)
  have b: "nth_res q (i + k) = Inr b" "drop (i + Suc k) q = bs"
    using drop_Cons_nth [OF "2.hyps"(2) [symmetric]] by simp_all
  show ?case
  proof (cases "k = 8")
    case True
    then show ?thesis using "2.prems" "2.hyps"(2) [symmetric] b by (simp add: skip_varint.simps [of "Suc 0"])
  next
    case False
    then have k: "1 < 9 - k" "9 - k - 1 = 9 - Suc k" using "2.prems" by simp_all
    show ?thesis
    proof (cases "bit b 7")
      case True
      have "varint_ref (Suc k) (push_bit 7 acc OR ucast (b AND 0x7f)) (drop (i + Suc k) q) = Inr (v, j)"
        using "2.prems"(1) "2.hyps"(2) [symmetric] False True b by simp
      from "2.hyps"(1) [OF False True] this have "skip_varint (9 - Suc k) q (i + Suc k) = Inr (i + j)"
        using b "2.prems"(2) False by simp
      then show ?thesis using b True k by (simp add: skip_varint.simps [of "9 - k"] and_0x80)
    next
      case f: False
      then show ?thesis using "2.prems"(1) "2.hyps"(2) [symmetric] False b
        by (simp add: skip_varint.simps [of "9 - k"] and_0x80)
    qed
  qed
qed simp

lemma varint_ref_count: "varint_ref k acc p = Inr (v, j) \<Longrightarrow> k \<le> 8 \<Longrightarrow> k < j \<and> j \<le> 9"
proof (induction k acc p rule: varint_ref.induct)
  case (2 k acc b bs)
  then show ?case by (cases "k = 8"; cases "bit b 7") auto
qed simp

lemma unat_times_32: "unat x * 32 < 2 ^ 32 \<Longrightarrow> unat (x * 32) = unat x * 32" for x :: u32
  by (simp add: unat_word_ariths)

lemma local_limits_min:
  assumes "480 \<le> bt_usableSize B" "bt_usableSize B \<le> SQLITE_MAX_PAGE_SIZE"
  shows "unat (bt_minLocal (local_limits B)) = (bt_usableSize B - 12) * 32 div 255 - 23"
    and "bt_minLeaf (local_limits B) = bt_minLocal (local_limits B)"
proof -
  define U where "U = bt_usableSize B"
  have U: "480 \<le> U" "U \<le> 65536" using assms by (simp_all add: U_def SQLITE_MAX_PAGE_SIZE_def)
  have u: "unat (of_nat U :: u32) = U" using U by (simp add: unat_of_nat)
  have a: "unat (of_nat U - 12 :: u32) = U - 12"
    using U u by (simp add: unat_sub word_le_nat_alt)
  have b: "unat ((of_nat U - 12) * 32 :: u32) = (U - 12) * 32"
    using U a unat_times_32 [of "of_nat U - 12"] by simp
  have c: "unat ((of_nat U - 12) * 32 div 255 :: u32) = (U - 12) * 32 div 255"
    using b by (simp add: unat_div)
  have c1: "23 \<le> (U - 12) * 32 div 255" using U by (simp add: less_eq_div_iff_mult_less_eq)
  have d: "unat ((of_nat U - 12) * 32 div 255 - 23 :: u32) = (U - 12) * 32 div 255 - 23"
    using c c1 by (simp add: unat_sub word_le_nat_alt)
  have e: "(U - 12) * 32 div 255 - 23 < 65536"
  proof -
    have "(U - 12) * 32 div 255 \<le> 65524 * 32 div 255" using U by (intro div_le_mono) simp
    then show ?thesis by simp
  qed
  show "unat (bt_minLocal (local_limits B)) = (bt_usableSize B - 12) * 32 div 255 - 23"
    using d e by (simp add: local_limits_def Let_def U_def [symmetric] unsigned_ucast_eq take_bit_nat_eq_self)
  show "bt_minLeaf (local_limits B) = bt_minLocal (local_limits B)" by (simp add: local_limits_def Let_def)
qed

lemma decode_local:
  "decodeFlags pg0 f = (PageOK, pg) \<Longrightarrow> (minLocal pg, maxLocal pg) \<in>
    {(bt_minLocal (pBt pg0), bt_maxLocal (pBt pg0)), (bt_minLeaf (pBt pg0), bt_maxLeaf (pBt pg0))}"
proof -
  assume d: "decodeFlags pg0 f = (PageOK, pg)"
  then have "f = 2 \<or> f = 5 \<or> f = 10 \<or> f = 13" using decode_flags_OK [of pg0 f] by simp
  moreover have pg: "pg = snd (decodeFlags pg0 f)" using d by simp
  ultimately show ?thesis unfolding pg by (elim disjE) (simp_all add: decodeFlags_def Let_def ptf_values)
qed

lemma decode_min_le_max:
  assumes "decodeFlags pg0 f = (PageOK, pg)" "pBt pg0 = local_limits B"
    and "480 \<le> bt_usableSize B" "bt_usableSize B \<le> SQLITE_MAX_PAGE_SIZE"
  shows "unat (minLocal pg) \<le> unat (maxLocal pg)"
proof -
  have "(bt_usableSize B - 12) * 32 div 255 \<le> (bt_usableSize B - 12) * 64 div 255" by (intro div_le_mono) simp
  then have a: "(bt_usableSize B - 12) * 32 div 255 - 23 \<le> (bt_usableSize B - 12) * 64 div 255 - 23"
    by (rule diff_le_mono)
  have "(bt_usableSize B - 12) * 32 div 255 \<le> bt_usableSize B - 12" by simp
  then have "(bt_usableSize B - 12) * 32 div 255 - 23 \<le> bt_usableSize B - 12 - 23" by (rule diff_le_mono)
  then have b: "(bt_usableSize B - 12) * 32 div 255 - 23 \<le> bt_usableSize B - 35" by simp
  note lims = local_limits_max [OF assms(3,4)] local_limits_min [OF assms(3,4)]
  from decode_local [OF assms(1)] show ?thesis
    unfolding assms(2)
  proof (elim insertE emptyE)
    assume "(minLocal pg, maxLocal pg) = (bt_minLocal (local_limits B), bt_maxLocal (local_limits B))"
    then show ?thesis using lims a by simp
  next
    assume "(minLocal pg, maxLocal pg) = (bt_minLeaf (local_limits B), bt_maxLeaf (local_limits B))"
    then show ?thesis using lims b by simp
  qed
qed

lemma parse_tail_fields [simp]:
  "nKey (parse_tail pg k n h) = k" "nPayload (parse_tail pg k n h) = n" "pPayload (parse_tail pg k n h) = Some h"
  by (simp_all add: parse_tail_def Let_def btreeParseCellAdjustSizeForOverflow_def)

lemma local_payload:
  assumes lim: "page_limits pg" and le: "unat (minLocal pg) \<le> unat (maxLocal pg)"
  shows "btreePayloadToLocal pg (uint n) = uint (nLocal (parse_tail pg k n h))"
proof -
  have mx: "uint (maxLocal pg) = int (unat (maxLocal pg))" "uint (minLocal pg) = int (unat (minLocal pg))"
    "uint n = int (unat n)" by simp_all
  show ?thesis
  proof (cases "n \<le> ucast (maxLocal pg)")
    case True
    then have c: "unat n \<le> unat (maxLocal pg)" by (simp add: word_le_nat_alt u16_le_u32)
    then have "unat n < 65536" using lim by (simp add: page_limits_def)
    then have "unat (ucast n :: u16) = unat n" by (simp add: unsigned_ucast_eq take_bit_nat_eq_self)
    moreover have "uint (ucast n :: u16) = int (unat (ucast n :: u16))" by simp
    ultimately have u: "uint (ucast n :: u16) = uint n" using mx(3) by linarith
    have "uint n \<le> uint (maxLocal pg)" using c mx by linarith
    then show ?thesis using True u by (simp add: btreePayloadToLocal_def parse_tail_def Let_def)
  next
    case False
    then have c: "unat (maxLocal pg) < unat n" by (simp add: word_le_nat_alt u16_le_u32)
    define minL where "minL = (ucast (minLocal pg) :: u32)"
    define s where "s = minL + (n - minL) mod (of_nat (usable pg) - 4)"
    have s: "sint s = uint s" "unat s < 131072" using spilled_parts [OF lim, of n] by (simp_all add: s_def minL_def)
    have U: "4 < usable pg" "usable pg \<le> 65536" using lim by (simp_all add: page_limits_def SQLITE_MAX_PAGE_SIZE_def)
    have d: "unat (of_nat (usable pg) - 4 :: u32) = usable pg - 4"
      using U by (simp add: unat_sub word_le_nat_alt unat_of_nat)
    have m: "unat minL = unat (minLocal pg)" by (simp add: minL_def u16_le_u32)
    have "unat (n - minL) = unat n - unat (minLocal pg)" using c le m by (simp add: unat_sub word_le_nat_alt)
    then have md: "unat ((n - minL) mod (of_nat (usable pg) - 4)) = (unat n - unat (minLocal pg)) mod (usable pg - 4)"
      by (simp only: unat_mod d)
    have "(unat n - unat (minLocal pg)) mod (usable pg - 4) < 65536"
      using U mod_less_divisor [of "usable pg - 4" "unat n - unat (minLocal pg)"] by linarith
    moreover have "unat (minLocal pg) < 65536" using le lim by (simp add: page_limits_def)
    ultimately have us: "unat s = unat (minLocal pg) + (unat n - unat (minLocal pg)) mod (usable pg - 4)"
      using md m by (simp add: s_def unat_word_ariths)
    have si: "uint (minLocal pg) + (uint n - uint (minLocal pg)) mod (int (usable pg) - 4) = uint s"
    proof -
      have a: "uint n - uint (minLocal pg) = int (unat n - unat (minLocal pg))"
        using c le mx by (simp add: of_nat_diff)
      have b: "int (usable pg) - 4 = int (usable pg - 4)" using U by simp
      have "uint (minLocal pg) + (uint n - uint (minLocal pg)) mod (int (usable pg) - 4) = int (unat s)"
        unfolding a b zmod_int [symmetric] us using mx(2) by linarith
      then show ?thesis by simp
    qed
    have nl: "nLocal (parse_tail pg k n h) = (if uint s \<le> uint (maxLocal pg) then word_of_int (uint s) else minLocal pg)"
      using False by (simp add: parse_tail_def btreeParseCellAdjustSizeForOverflow_def Let_def
        s_def [symmetric] minL_def [symmetric] s(1))
    have big: "\<not> uint n \<le> uint (maxLocal pg)" using c mx by linarith
    have "uint (word_of_int (uint s) :: u16) = uint s" if "uint s \<le> uint (maxLocal pg)"
    proof -
      have "0 \<le> uint s" by simp
      moreover have "unat (maxLocal pg) \<le> 65501" using lim by (simp add: page_limits_def)
      then have "uint s < 65536" using that mx(1) by linarith
      ultimately show ?thesis by (simp add: unsigned_ucast_eq take_bit_int_eq_self)
    qed
    then show ?thesis unfolding btreePayloadToLocal_def Let_def nl si using big by simp
  qed
qed

lemma cell_size_parsed:
  assumes flags: "decodeFlags pg0 f = (PageOK, pg)" and limits: "pBt pg0 = local_limits B"
    and size: "480 \<le> bt_usableSize B" "bt_usableSize B \<le> SQLITE_MAX_PAGE_SIZE"
    and parsed: "parse_cell_by (xParseCell pg) pg c = Inr info"
  shows "cellSize pg c = Inr (unat (nSize info))"
    and "pPayload info \<noteq> None \<Longrightarrow> btreePayloadToLocal pg (uint (nPayload info)) = uint (nLocal info)"
    and "xParseCell pg = btreeParseCellPtr \<Longrightarrow>
      \<exists>n i. cell_payload c = Inr (n, i) \<and> bind_res (sqlite3GetVarint (drop i c)) (\<lambda>(k, _). Inr k) = Inr (nKey info)"
proof -
  have kind: "page_kind pg" by (rule decode_page_kind [OF flags])
  have lim: "page_limits pg" by (rule decode_page_limits [OF flags limits size])
  show "cellSize pg c = Inr (unat (nSize info))"
    using kind unfolding page_kind_def
  proof (elim insertE emptyE)
    assume k: "(xCellSize pg, xParseCell pg, childPtrSize pg, leaf pg) = (cellSizePtr, btreeParseCellPtrIndex, 4, False)"
    then obtain n i where p: "cell_payload (drop 4 c) = Inr (n, i)" "info = parse_tail pg (ucast n) n (4 + i)"
      using parsed by (auto simp: parse_index_def bind_res_eq_Inr)
    have i: "1 \<le> i" "i \<le> 9" using cell_payload_count [OF p(1)] by simp_all
    have "\<not> n + of_nat (4 + i) < 4" if "n \<le> ucast (maxLocal pg)"
      using tail_sizes(2) [OF lim, of "4 + i" n] i that by simp
    then have "(if n \<le> ucast (maxLocal pg) then n + of_nat (4 + i)
          else spilled_size pg n (ucast (ucast (of_nat (4 + i) :: u32) :: u16)))
        = (if n \<le> ucast (maxLocal pg) then (if n + of_nat (4 + i) < 4 then 4 else n + of_nat (4 + i))
          else spilled_size pg n (ucast (ucast (of_nat (4 + i) :: u32) :: u16)))" by simp
    then show ?thesis using tail_sizes(1) [OF lim, of "4 + i" n "ucast n"] i k p
      by (simp add: cellSize_def cellSize_index_interior_def Let_def del: of_nat_add)
  next
    assume k: "(xCellSize pg, xParseCell pg, childPtrSize pg, leaf pg) = (cellSizePtrNoPayload, btreeParseCellPtrNoPayload, 4, False)"
    then obtain v n where p: "sqlite3GetVarint (drop 4 c) = Inr (v, n)" "nSize info = 4 + of_nat n"
      using parsed by (auto simp: parse_no_payload_def bind_res_eq_Inr)
    have r: "varint_ref 0 0 (drop (4 + 0) c) = Inr (v, n)" using p(1) by (simp add: get_varint_ref)
    have "skip_varint 9 c 4 = Inr (4 + n)" using skip_varint_varint [OF r] by simp
    then show ?thesis using k p(2) by (simp add: cellSize_def cellSize_table_interior_def)
  next
    assume k: "(xCellSize pg, xParseCell pg, childPtrSize pg, leaf pg) = (cellSizePtrIdxLeaf, btreeParseCellPtrIndex, 0, True)"
    then obtain n i where p: "cell_payload c = Inr (n, i)" "info = parse_tail pg (ucast n) n i"
      using parsed by (auto simp: parse_index_def bind_res_eq_Inr)
    have i: "1 \<le> i" "i \<le> 18" using cell_payload_count [OF p(1)] by simp_all
    show ?thesis using tail_sizes(1) [OF lim i, of n "ucast n"] k p
      by (simp add: cellSize_def cellSize_index_leaf_def Let_def)
  next
    assume k: "(xCellSize pg, xParseCell pg, childPtrSize pg, leaf pg) = (cellSizePtrTableLeaf, btreeParseCellPtr, 0, True)"
    then obtain n i v j where p: "cell_payload c = Inr (n, i)" "sqlite3GetVarint (drop i c) = Inr (v, j)"
      "info = parse_tail pg v n (i + j)"
      using parsed by (auto simp: parse_table_leaf_def bind_res_eq_Inr key_is_varint)
    have r: "varint_ref 0 0 (drop (i + 0) c) = Inr (v, j)" using p(2) by (simp add: get_varint_ref)
    have sk: "skip_key 8 c i = Inr (i + j)" using skip_key_varint [OF r] by simp
    have i: "1 \<le> i + j" "i + j \<le> 18" using cell_payload_count [OF p(1)] varint_ref_count [OF r] by simp_all
    show ?thesis using tail_sizes(1) [OF lim i, of n v] k p sk
      by (simp add: cellSize_def cellSize_table_leaf_def Let_def)
  qed
  show "xParseCell pg = btreeParseCellPtr \<Longrightarrow>
      \<exists>n i. cell_payload c = Inr (n, i) \<and> bind_res (sqlite3GetVarint (drop i c)) (\<lambda>(k, _). Inr k) = Inr (nKey info)"
    using parsed by (auto simp: parse_table_leaf_def bind_res_eq_Inr key_is_varint parse_tail_def Let_def
      btreeParseCellAdjustSizeForOverflow_def)
  show "pPayload info \<noteq> None \<Longrightarrow> btreePayloadToLocal pg (uint (nPayload info)) = uint (nLocal info)"
    using parsed local_payload [OF lim decode_min_le_max [OF flags limits size]]
    by (cases "xParseCell pg") (auto simp: parse_table_leaf_def parse_index_def parse_no_payload_def bind_res_eq_Inr)
qed

text \<open>C31. The two readings of a cell agree, on all four kinds of page: when the full parse
  gives an answer, the size that the page's \<open>xCellSize\<close> computes is its \<open>nSize\<close>, the
  part of the payload kept on the page is what \<open>btreePayloadToLocal\<close> says in wider
  arithmetic, and the row key of a table leaf is the one that \<open>sqlite3GetVarint\<close> reads,
  although the unrolled decoder takes the continuation bits away with exclusive ors.\<close>

theorem cell_size_is_parsed:
  assumes "decodeFlags pg0 f = (PageOK, pg)" "pBt pg0 = local_limits B"
    and "480 \<le> bt_usableSize B" "bt_usableSize B \<le> SQLITE_MAX_PAGE_SIZE"
    and "parse_cell_by (xParseCell pg) pg c = Inr info"
  shows "cellSize pg c = Inr (unat (nSize info)) \<and>
    (pPayload info \<noteq> None \<longrightarrow> btreePayloadToLocal pg (uint (nPayload info)) = uint (nLocal info)) \<and>
    (xParseCell pg = btreeParseCellPtr \<longrightarrow>
      (\<exists>n i. cell_payload c = Inr (n, i) \<and> bind_res (sqlite3GetVarint (drop i c)) (\<lambda>(k, _). Inr k) = Inr (nKey info)))"
  using cell_size_parsed [OF assms] by blast

definition sample_bt :: bt_shared where
  "sample_bt = local_limits \<lparr>bt_pageSize = 512, bt_usableSize = 512, bt_maxLocal = 0, bt_minLocal = 0, bt_maxLeaf = 0,
     bt_minLeaf = 0, bt_max1bytePayload = 0, bt_btsFlags = 0, bt_autoVacuum = False, bt_cellSizeCk = True\<rparr>"

definition sample_page :: mem_page where
  "sample_page = \<lparr>isInit = False, intKey = False, intKeyLeaf = False, leaf = False, hdrOffset = 0, childPtrSize = 0,
     max1bytePayload = 0, overflow = [], maxLocal = 0, minLocal = 0, cellOffset = 0, nFree = 0, nCell = 0, maskPage = 0,
     pBt = sample_bt, aData = replicate 512 0, xCellSize = cellSizePtr, xParseCell = btreeParseCellPtr\<rparr>"

theorem cell_size_is_parsed_witness:
  "\<exists>pg info. decodeFlags sample_page 13 = (PageOK, pg) \<and> parse_cell_by (xParseCell pg) pg [0x84, 0x58, 0x2a] = Inr info \<and>
     nPayload info = 600 \<and> nKey info = 42 \<and> uint (nLocal info) = 92 \<and> cellSize pg [0x84, 0x58, 0x2a] = Inr 99 \<and>
     btreePayloadToLocal pg 600 = 92"
proof -
  define pg where "pg = snd (decodeFlags sample_page 13)"
  define info where "info = \<lparr>nKey = 42, pPayload = Some 3, nPayload = 600, nLocal = 92, nSize = 99\<rparr>"
  have d: "decodeFlags sample_page 13 = (PageOK, pg)" unfolding pg_def by code_simp
  have k: "parse_cell_by (xParseCell pg) pg [0x84, 0x58, 0x2a] = Inr info" unfolding pg_def info_def by code_simp
  have B: "pBt sample_page = local_limits sample_bt" by code_simp
  have U: "480 \<le> bt_usableSize sample_bt" "bt_usableSize sample_bt \<le> SQLITE_MAX_PAGE_SIZE" by code_simp+
  have "cellSize pg [0x84, 0x58, 0x2a] = Inr 99 \<and> btreePayloadToLocal pg 600 = 92"
    using cell_size_is_parsed [OF d B U k] by (simp add: info_def)
  then show ?thesis using d k by (auto simp: info_def)
qed

end
