(* ===== verification/SqliteBtPage.thy ===== *)
theory SqliteBtPage
  imports SqliteBtCell
begin

unbundle bit_operations_syntax

text \<open>
  The space on a b-tree page, from btree.c in components/Ledger/src/sqlite3.c: the list of
  free blocks, the allocation and the release of space, defragmentation, and the insertion and
  removal of cells.  The page is its bytes; every pointer is an offset into them, every access
  is checked against their number.
\<close>

section \<open>Memory\<close>

definition read_bytes :: "u8 list \<Rightarrow> nat \<Rightarrow> nat \<Rightarrow> u8 list res" where
  "read_bytes d i n = (if i + n \<le> length d then Inr (take n (drop i d)) else Inl OutOfBounds)"

text \<open>A copy within the page, and a fill; the C functions take the size as unsigned, so a
  negative one is far out of the page.\<close>

definition move_bytes :: "u8 list \<Rightarrow> nat \<Rightarrow> nat \<Rightarrow> nat \<Rightarrow> u8 list res" where
  "move_bytes d dst src n = bind_res (read_bytes d src n) (put_bytes d dst)"

definition zero_bytes :: "u8 list \<Rightarrow> nat \<Rightarrow> int \<Rightarrow> u8 list res" where
  "zero_bytes d i n = (if n < 0 then Inl BufferOverflow else put_bytes d i (replicate (nat n) 0))"

section \<open>Defragmentation\<close>

text \<open>The loop of the fast path over the cell pointers from \<open>pAddr\<close> on.\<close>

fun shift_pointers :: "nat \<Rightarrow> nat \<Rightarrow> nat \<Rightarrow> nat \<Rightarrow> nat \<Rightarrow> nat \<Rightarrow> u8 list \<Rightarrow> u8 list res" where
  "shift_pointers 0 pAddr iFree sz iFree2 sz2 d = Inr d"
| "shift_pointers (Suc k) pAddr iFree sz iFree2 sz2 d =
     bind_res (get2byte d pAddr) (\<lambda>pc.
     bind_res (if pc < iFree then put2byte d pAddr (pc + sz)
               else if pc < iFree2 then put2byte d pAddr (pc + sz2) else Inr d) (\<lambda>d.
     shift_pointers k (pAddr + 2) iFree sz iFree2 sz2 d))"

text \<open>The loop of the slow path: the cells from the \<open>i\<close>-th on are copied from
  \<open>src\<close> to the end of the page.\<close>

fun pack_cells :: "nat \<Rightarrow> nat \<Rightarrow> mem_page \<Rightarrow> u8 list \<Rightarrow> nat \<Rightarrow> int \<Rightarrow> u8 list \<Rightarrow> (page_rc \<times> int \<times> u8 list) res" where
  "pack_cells 0 i pg src iCellStart cbrk d = Inr (PageOK, cbrk, d)"
| "pack_cells (Suc k) i pg src iCellStart cbrk d =
     (let pAddr = cellOffset pg + i * 2 in
      bind_res (get2byte d pAddr) (\<lambda>pc.
      if int (usable pg) - 4 < int pc then Inr (PageCorrupt, cbrk, d)
      else
        bind_res (cellSize pg (drop pc src)) (\<lambda>size.
        let cbrk = cbrk - int size in
        if cbrk < int iCellStart \<or> usable pg < pc + size then Inr (PageCorrupt, cbrk, d)
        else
          bind_res (put2byte d pAddr (nat cbrk)) (\<lambda>d.
          bind_res (read_bytes src pc size) (\<lambda>bs.
          bind_res (put_bytes d (nat cbrk) bs) (\<lambda>d.
          pack_cells k (Suc i) pg src iCellStart cbrk d))))))"

text \<open>The label \<open>defragment_out\<close>.\<close>

definition defragment_out :: "mem_page \<Rightarrow> int \<Rightarrow> u8 list \<Rightarrow> (page_rc \<times> mem_page) res" where
  "defragment_out pg cbrk d =
     (let hdr = hdrOffset pg; iCellFirst = cellOffset pg + 2 * nCell pg in
      bind_res (nth_res d (hdr + 7)) (\<lambda>frag.
      if int (unat frag) + cbrk - int iCellFirst \<noteq> nFree pg then Inr (PageCorrupt, pg\<lparr>aData := d\<rparr>)
      else
        bind_res (put2byte d (hdr + 5) (nat cbrk)) (\<lambda>d.
        bind_res (upd_res d (hdr + 1) 0) (\<lambda>d.
        bind_res (upd_res d (hdr + 2) 0) (\<lambda>d.
        bind_res (zero_bytes d iCellFirst (cbrk - int iCellFirst)) (\<lambda>d.
        Inr (PageOK, pg\<lparr>aData := d\<rparr>)))))))"

definition pack_page :: "mem_page \<Rightarrow> u8 list \<Rightarrow> (page_rc \<times> mem_page) res" where
  "pack_page pg temp =
     (let d = aData pg; hdr = hdrOffset pg in
      bind_res (get2byte d (hdr + 5)) (\<lambda>iCellStart.
      bind_res (if 0 < nCell pg
                then bind_res (read_bytes d 0 (usable pg)) (\<lambda>bs.
                     pack_cells (nCell pg) 0 pg (bs @ drop (usable pg) temp) iCellStart (int (usable pg)) d)
                else Inr (PageOK, int (usable pg), d)) (\<lambda>(rc, cbrk, d).
      if rc \<noteq> PageOK then Inr (rc, pg\<lparr>aData := d\<rparr>)
      else bind_res (upd_res d (hdr + 7) 0) (defragment_out pg cbrk))))"

text \<open>The block for pages with one or two free blocks; None: it does not apply.\<close>

definition slide_cells ::
  "mem_page \<Rightarrow> nat \<Rightarrow> nat \<Rightarrow> (page_rc \<times> mem_page) res" where
  "slide_cells pg iFree iFree2 =
     (let d = aData pg; hdr = hdrOffset pg; corrupt = Inr (PageCorrupt, pg) in
      bind_res (get2byte d (iFree + 2)) (\<lambda>sz.
      bind_res (get2byte d (hdr + 5)) (\<lambda>ctop.
      if iFree \<le> ctop then corrupt
      else
        bind_res
          (if iFree2 \<noteq> 0 then
             if iFree2 < iFree + sz then Inr None
             else
               bind_res (get2byte d (iFree2 + 2)) (\<lambda>sz2.
               if usable pg < iFree2 + sz2 then Inr None
               else
                 bind_res (move_bytes d (iFree + sz + sz2) (iFree + sz) (iFree2 - (iFree + sz))) (\<lambda>d.
                 Inr (Some (sz + sz2, sz2, d))))
           else if usable pg < iFree + sz then Inr None
           else Inr (Some (sz, 0, d)))
          (\<lambda>r. case r of
             None \<Rightarrow> corrupt
           | Some (sz, sz2, d) \<Rightarrow>
               bind_res (move_bytes d (ctop + sz) ctop (iFree - ctop)) (\<lambda>d.
               bind_res (shift_pointers (nCell pg) (cellOffset pg) iFree sz iFree2 sz2 d) (\<lambda>d.
               defragment_out pg (int (ctop + sz)) d))))))"

definition defragmentPage :: "mem_page \<Rightarrow> int \<Rightarrow> u8 list \<Rightarrow> (page_rc \<times> mem_page) res" where
  "defragmentPage pg nMaxFrag temp =
     (let d = aData pg; hdr = hdrOffset pg; corrupt = Inr (PageCorrupt, pg) in
      bind_res (nth_res d (hdr + 7)) (\<lambda>frag.
      if int (unat frag) \<le> nMaxFrag then
        bind_res (get2byte d (hdr + 1)) (\<lambda>iFree.
        if int (usable pg) - 4 < int iFree then corrupt
        else if iFree \<noteq> 0 then
          bind_res (get2byte d iFree) (\<lambda>iFree2.
          if int (usable pg) - 4 < int iFree2 then corrupt
          else
            bind_res (if iFree2 = 0 then Inr 0 else get2byte d iFree2) (\<lambda>third.
            if iFree2 = 0 \<or> third = 0 then slide_cells pg iFree iFree2
            else pack_page pg temp))
        else pack_page pg temp)
      else pack_page pg temp))"

section \<open>Allocation\<close>

text \<open>The loop of \<open>pageFindSlot\<close>; the slot is an offset, None the null pointer.\<close>

function find_slot :: "mem_page \<Rightarrow> nat \<Rightarrow> nat \<Rightarrow> nat \<Rightarrow> (nat option \<times> page_rc \<times> mem_page) res" where
  "find_slot pg nByte iAddr pc =
     (let d = aData pg; hdr = hdrOffset pg; maxPC = int (usable pg) - int nByte in
      if int pc \<le> maxPC then
        bind_res (get2byte d (pc + 2)) (\<lambda>size.
        if nByte \<le> size then
          let x = size - nByte in
          if x < 4 then
            bind_res (nth_res d (hdr + 7)) (\<lambda>frag.
            if 57 < frag then Inr (None, PageOK, pg)
            else
              bind_res (move_bytes d iAddr pc 2) (\<lambda>d.
              bind_res (nth_res d (hdr + 7)) (\<lambda>frag.
              bind_res (upd_res d (hdr + 7) (frag + of_nat x)) (\<lambda>d.
              Inr (Some pc, PageOK, pg\<lparr>aData := d\<rparr>)))))
          else if maxPC < int (x + pc) then Inr (None, PageCorrupt, pg)
          else bind_res (put2byte d (pc + 2) x) (\<lambda>d. Inr (Some (pc + x), PageOK, pg\<lparr>aData := d\<rparr>))
        else
          bind_res (get2byte d pc) (\<lambda>pc'.
          if pc' \<le> pc then Inr (None, if pc' \<noteq> 0 then PageCorrupt else PageOK, pg)
          else find_slot pg nByte pc pc'))
      else Inr (None, if maxPC + int nByte - 4 < int pc then PageCorrupt else PageOK, pg))"
  by pat_completeness auto
termination by (relation "measure (\<lambda>(pg, nByte, iAddr, pc). usable pg + 1 - pc)") auto

declare find_slot.simps [simp del]

definition pageFindSlot :: "mem_page \<Rightarrow> nat \<Rightarrow> (nat option \<times> page_rc \<times> mem_page) res" where
  "pageFindSlot pg nByte =
     bind_res (get2byte (aData pg) (hdrOffset pg + 1)) (find_slot pg nByte (hdrOffset pg + 1))"

text \<open>The last part of \<open>allocateSpace\<close>: the space is cut off the gap.  That the gap is
  large enough is asserted; where it is not, the address is in front of the page.\<close>

definition take_from_gap :: "mem_page \<Rightarrow> nat \<Rightarrow> nat \<Rightarrow> (page_rc \<times> nat \<times> mem_page) res" where
  "take_from_gap pg nByte ctop =
     (if ctop < nByte then Inl OutOfBounds
      else
        let ctop = ctop - nByte in
        bind_res (put2byte (aData pg) (hdrOffset pg + 5) ctop) (\<lambda>d. Inr (PageOK, ctop, pg\<lparr>aData := d\<rparr>)))"

definition allocate_gap :: "mem_page \<Rightarrow> nat \<Rightarrow> nat \<Rightarrow> u8 list \<Rightarrow> (page_rc \<times> nat \<times> mem_page) res" where
  "allocate_gap pg nByte ctop temp =
     (let gap = cellOffset pg + 2 * nCell pg in
      if ctop < gap + 2 + nByte then
        bind_res (defragmentPage pg (min 4 (nFree pg - int (2 + nByte))) temp) (\<lambda>(rc, pg).
        if rc \<noteq> PageOK then Inr (rc, 0, pg)
        else
          bind_res (get2byteNotZero (aData pg) (hdrOffset pg + 5)) (take_from_gap pg nByte))
      else take_from_gap pg nByte ctop)"

definition allocateSpace :: "mem_page \<Rightarrow> nat \<Rightarrow> u8 list \<Rightarrow> (page_rc \<times> nat \<times> mem_page) res" where
  "allocateSpace pg nByte temp =
     (let d = aData pg; hdr = hdrOffset pg; gap = cellOffset pg + 2 * nCell pg; corrupt = Inr (PageCorrupt, 0, pg) in
      bind_res (get2byte d (hdr + 5)) (\<lambda>ctop.
      bind_res
        (if ctop < gap then Inr (if ctop = 0 \<and> usable pg = 65536 then Some 65536 else None)
         else if usable pg < ctop then Inr None else Inr (Some ctop))
        (\<lambda>r. case r of
           None \<Rightarrow> corrupt
         | Some ctop \<Rightarrow>
             bind_res (get2byte d (hdr + 1)) (\<lambda>head.
             if head \<noteq> 0 \<and> gap + 2 \<le> ctop then
               bind_res (pageFindSlot pg nByte) (\<lambda>(slot, rc, pg).
               case slot of
                 Some g2 \<Rightarrow> if g2 \<le> gap then Inr (PageCorrupt, g2, pg) else Inr (PageOK, g2, pg)
               | None \<Rightarrow> if rc \<noteq> PageOK then Inr (rc, 0, pg) else allocate_gap pg nByte ctop temp)
             else allocate_gap pg nByte ctop temp))))"

section \<open>Release\<close>

text \<open>The search for the place on the list: the address of the pointer and the block it
  points to, None when the list is not ascending.\<close>

function find_place :: "u8 list \<Rightarrow> nat \<Rightarrow> nat \<Rightarrow> (nat \<times> nat) option res" where
  "find_place d iStart iPtr =
     bind_res (get2byte d iPtr) (\<lambda>iFreeBlk.
     if iFreeBlk < iStart then
       if iFreeBlk \<le> iPtr then Inr (if iFreeBlk = 0 then Some (iPtr, 0) else None)
       else find_place d iStart iFreeBlk
     else Inr (Some (iPtr, iFreeBlk)))"
  by pat_completeness auto
termination by (relation "measure (\<lambda>(d, iStart, iPtr). iStart - iPtr)") auto

declare find_place.simps [simp del]

text \<open>The two coalescing blocks; the result is the block, the rest of the list and the
  fragmented bytes that the block swallows.\<close>

definition join_next :: "mem_page \<Rightarrow> nat \<Rightarrow> nat \<Rightarrow> nat \<Rightarrow> (nat \<times> nat \<times> nat) option res" where
  "join_next pg iStart iEnd iFreeBlk =
     (if iFreeBlk \<noteq> 0 \<and> iFreeBlk \<le> iEnd + 3 then
        if iFreeBlk < iEnd then Inr None
        else
          bind_res (get2byte (aData pg) (iFreeBlk + 2)) (\<lambda>s.
          if usable pg < iFreeBlk + s then Inr None
          else bind_res (get2byte (aData pg) iFreeBlk) (\<lambda>nxt.
               Inr (Some (iFreeBlk + s, nxt, iFreeBlk - iEnd))))
      else Inr (Some (iEnd, iFreeBlk, 0)))"

definition join_previous :: "mem_page \<Rightarrow> nat \<Rightarrow> nat \<Rightarrow> (nat \<times> nat) option res" where
  "join_previous pg iPtr iStart =
     (if hdrOffset pg + 1 < iPtr then
        bind_res (get2byte (aData pg) (iPtr + 2)) (\<lambda>s.
        if iStart \<le> iPtr + s + 3 then
          if iStart < iPtr + s then Inr None else Inr (Some (iPtr, iStart - (iPtr + s)))
        else Inr (Some (iStart, 0)))
      else Inr (Some (iStart, 0)))"

definition release_block :: "mem_page \<Rightarrow> nat \<Rightarrow> nat \<Rightarrow> nat \<Rightarrow> nat \<Rightarrow> nat \<Rightarrow> (page_rc \<times> mem_page) res" where
  "release_block pg iPtr iStart iEnd iFreeBlk iOrigSize =
     (let hdr = hdrOffset pg; d = aData pg; iSize = (iEnd - iStart) mod 65536 in
      bind_res (get2byte d (hdr + 5)) (\<lambda>x.
      bind_res (if fast_secure (pBt pg) then zero_bytes d iStart (int iSize) else Inr d) (\<lambda>d.
      if iStart \<le> x then
        if iStart < x \<or> iPtr \<noteq> hdr + 1 then Inr (PageCorrupt, pg\<lparr>aData := d\<rparr>)
        else
          bind_res (put2byte d (hdr + 1) iFreeBlk) (\<lambda>d.
          bind_res (put2byte d (hdr + 5) iEnd) (\<lambda>d.
          Inr (PageOK, pg\<lparr>aData := d, nFree := nFree pg + int iOrigSize\<rparr>)))
      else
        bind_res (put2byte d iPtr iStart) (\<lambda>d.
        bind_res (put2byte d iStart iFreeBlk) (\<lambda>d.
        bind_res (put2byte d (iStart + 2) iSize) (\<lambda>d.
        Inr (PageOK, pg\<lparr>aData := d, nFree := nFree pg + int iOrigSize\<rparr>)))))))"

definition freeSpace :: "mem_page \<Rightarrow> nat \<Rightarrow> nat \<Rightarrow> (page_rc \<times> mem_page) res" where
  "freeSpace pg iStart iSize =
     (let hdr = hdrOffset pg; d = aData pg; iEnd = iStart + iSize; corrupt = Inr (PageCorrupt, pg) in
      bind_res (get2byte d (hdr + 1)) (\<lambda>head.
      if head = 0 then release_block pg (hdr + 1) iStart iEnd 0 iSize
      else
        bind_res (find_place d iStart (hdr + 1)) (\<lambda>r. case r of None \<Rightarrow> corrupt | Some (iPtr, iFreeBlk) \<Rightarrow>
        if int (usable pg) - 4 < int iFreeBlk then corrupt
        else
          bind_res (join_next pg iStart iEnd iFreeBlk) (\<lambda>r. case r of None \<Rightarrow> corrupt | Some (iEnd, iFreeBlk, f1) \<Rightarrow>
          bind_res (join_previous pg iPtr iStart) (\<lambda>r. case r of None \<Rightarrow> corrupt | Some (iStart, f2) \<Rightarrow>
          bind_res (nth_res d (hdr + 7)) (\<lambda>frag.
          if unat frag < f1 + f2 then corrupt
          else
            bind_res (upd_res d (hdr + 7) (frag - of_nat (f1 + f2))) (\<lambda>d.
            release_block (pg\<lparr>aData := d\<rparr>) iPtr iStart iEnd iFreeBlk iSize)))))))"
section \<open>Counting the free space\<close>

function free_blocks :: "mem_page \<Rightarrow> nat \<Rightarrow> int \<Rightarrow> (nat \<times> nat \<times> nat \<times> int) option res" where
  "free_blocks pg pc n =
     (if int (usable pg) - 4 < int pc then Inr None
      else
        bind_res (get2byte (aData pg) pc) (\<lambda>nxt.
        bind_res (get2byte (aData pg) (pc + 2)) (\<lambda>sz.
        let n = n + int sz in
        if nxt \<le> pc + sz + 3 then Inr (Some (nxt, sz, pc, n)) else free_blocks pg nxt n)))"
  by pat_completeness auto
termination by (relation "measure (\<lambda>(pg, pc, n). usable pg + 1 - pc)") auto

declare free_blocks.simps [simp del]

definition btreeComputeFreeSpace :: "mem_page \<Rightarrow> (page_rc \<times> mem_page) res" where
  "btreeComputeFreeSpace pg =
     (let d = aData pg; hdr = hdrOffset pg; corrupt = Inr (PageCorrupt, pg);
          iCellFirst = hdr + 8 + childPtrSize pg + 2 * nCell pg in
      bind_res (get2byteNotZero d (hdr + 5)) (\<lambda>ctop.
      bind_res (get2byte d (hdr + 1)) (\<lambda>pc.
      bind_res (nth_res d (hdr + 7)) (\<lambda>frag.
      let n = int (unat frag) + int ctop in
      bind_res
        (if 0 < pc then
           if pc < ctop then Inr None
           else
             bind_res (free_blocks pg pc n) (\<lambda>r. case r of None \<Rightarrow> Inr None
             | Some (nxt, sz, pc, n) \<Rightarrow>
                 if 0 < nxt then Inr None
                 else if usable pg < pc + sz then Inr None
                 else Inr (Some n))
         else Inr (Some n))
        (\<lambda>r. case r of None \<Rightarrow> corrupt
         | Some n \<Rightarrow>
             if int (usable pg) < n \<or> n < int iCellFirst then corrupt
             else Inr (PageOK, pg\<lparr>nFree := (n - int iCellFirst) mod 65536\<rparr>))))))"

section \<open>Cells\<close>

definition zeroPage :: "mem_page \<Rightarrow> nat \<Rightarrow> mem_page res" where
  "zeroPage pg flags =
     (let B = pBt pg; hdr = hdrOffset pg; first = hdr + (if flags AND PTF_LEAF = 0 then 12 else 8) in
      bind_res (if fast_secure B then zero_bytes (aData pg) hdr (int (bt_usableSize B) - int hdr)
                else Inr (aData pg)) (\<lambda>d.
      bind_res (upd_res d hdr (of_nat flags)) (\<lambda>d.
      bind_res (zero_bytes d (hdr + 1) 4) (\<lambda>d.
      bind_res (upd_res d (hdr + 7) 0) (\<lambda>d.
      bind_res (put2byte d (hdr + 5) (bt_usableSize B)) (\<lambda>d.
      let pg = snd (decodeFlags (pg\<lparr>aData := d, nFree := (int (bt_usableSize B) - int first) mod 65536\<rparr>) flags)
      in Inr (pg\<lparr>cellOffset := first, overflow := [], maskPage := of_nat (bt_pageSize B - 1),
                nCell := 0, isInit := True\<rparr>)))))))"

text \<open>The entry of the pointer array: what both insertions do behind the copy of the cell.
  \<open>ptrmap\<close> is the result of \<open>ptrmapPutOvflPtr\<close>, which writes to another page.\<close>

definition insert_pointer :: "mem_page \<Rightarrow> nat \<Rightarrow> nat \<Rightarrow> u8 list \<Rightarrow> int \<Rightarrow> (page_rc \<times> mem_page) res" where
  "insert_pointer pg i idx d ptrmap =
     (let pIns = cellOffset pg + i * 2; hdr = hdrOffset pg in
      bind_res (move_bytes d (pIns + 2) pIns (2 * (nCell pg - i))) (\<lambda>d.
      bind_res (put2byte d pIns idx) (\<lambda>d.
      bind_res (nth_res d (hdr + 4)) (\<lambda>lo.
      bind_res (upd_res d (hdr + 4) (lo + 1)) (\<lambda>d.
      bind_res (if lo + 1 = 0 then bind_res (nth_res d (hdr + 3)) (\<lambda>hi. upd_res d (hdr + 3) (hi + 1)) else Inr d) (\<lambda>d.
      let pg = pg\<lparr>aData := d, nCell := nCell pg + 1\<rparr>
      in if bt_autoVacuum (pBt pg) \<and> ptrmap \<noteq> 0 then Inr (PageError ptrmap, pg) else Inr (PageOK, pg)))))))"

definition insertCellFast :: "int \<Rightarrow> int \<Rightarrow> u8 list \<Rightarrow> mem_page \<Rightarrow> nat \<Rightarrow> u8 list \<Rightarrow> nat \<Rightarrow> (page_rc \<times> mem_page) res" where
  "insertCellFast pager ptrmap temp pg i pCell sz =
     (if nFree pg < int (sz + 2) then Inr (PageOK, pg\<lparr>overflow := overflow pg @ [(i, pCell)]\<rparr>)
      else if pager \<noteq> 0 then Inr (PageError pager, pg)
      else
        bind_res (allocateSpace pg sz temp) (\<lambda>(rc, idx, pg).
        if rc \<noteq> PageOK then Inr (rc, pg)
        else
          let pg = pg\<lparr>nFree := nFree pg - int ((2 + sz) mod 65536)\<rparr> in
          bind_res (read_bytes pCell 0 sz) (\<lambda>bs.
          bind_res (put_bytes (aData pg) idx bs) (\<lambda>d.
          insert_pointer pg i idx d ptrmap))))"

definition put4_at :: "u8 list \<Rightarrow> nat \<Rightarrow> u32 \<Rightarrow> u8 list res" where
  "put4_at d i v = bind_res (sqlite3Put4byte (drop i d) v) (\<lambda>t. Inr (take i d @ t))"

text \<open>The cell that goes to the overflow list is \<open>pTemp\<close>, or the caller's buffer; in both
  the first four bytes are replaced.\<close>

definition insertCell :: "int \<Rightarrow> int \<Rightarrow> u8 list \<Rightarrow> mem_page \<Rightarrow> nat \<Rightarrow> u8 list \<Rightarrow> nat \<Rightarrow> u32 \<Rightarrow> (page_rc \<times> mem_page) res" where
  "insertCell pager ptrmap temp pg i pCell sz iChild =
     (if overflow pg \<noteq> [] \<or> nFree pg < int (sz + 2) then
        bind_res (put4_at pCell 0 iChild) (\<lambda>c. Inr (PageOK, pg\<lparr>overflow := overflow pg @ [(i, c)]\<rparr>))
      else if pager \<noteq> 0 then Inr (PageError pager, pg)
      else
        bind_res (allocateSpace pg sz temp) (\<lambda>(rc, idx, pg).
        if rc \<noteq> PageOK then Inr (rc, pg)
        else
          let pg = pg\<lparr>nFree := nFree pg - int ((2 + sz) mod 65536)\<rparr> in
          bind_res (read_bytes pCell 4 (sz - 4)) (\<lambda>bs.
          bind_res (put_bytes (aData pg) (idx + 4) bs) (\<lambda>d.
          bind_res (put4_at d idx iChild) (\<lambda>d.
          insert_pointer pg i idx d ptrmap)))))"

definition dropCell :: "mem_page \<Rightarrow> nat \<Rightarrow> nat \<Rightarrow> page_rc \<Rightarrow> (page_rc \<times> mem_page) res" where
  "dropCell pg idx sz rc =
     (if rc \<noteq> PageOK then Inr (rc, pg)
      else
        let ptr = cellOffset pg + 2 * idx; hdr = hdrOffset pg in
        bind_res (get2byte (aData pg) ptr) (\<lambda>pc.
        if usable pg < pc + sz then Inr (PageCorrupt, pg)
        else
          bind_res (freeSpace pg pc (sz mod 65536)) (\<lambda>(rc, pg).
          if rc \<noteq> PageOK then Inr (rc, pg)
          else
            let pg = pg\<lparr>nCell := nCell pg - 1\<rparr>; d = aData pg in
            if nCell pg = 0 then
              bind_res (zero_bytes d (hdr + 1) 4) (\<lambda>d.
              bind_res (upd_res d (hdr + 7) 0) (\<lambda>d.
              bind_res (put2byte d (hdr + 5) (usable pg)) (\<lambda>d.
              Inr (PageOK, pg\<lparr>aData := d,
                nFree := int (usable pg) - int hdr - int (childPtrSize pg) - 8\<rparr>))))
            else
              bind_res (move_bytes d ptr (ptr + 2) (2 * (nCell pg - idx))) (\<lambda>d.
              bind_res (put2byte d (hdr + 3) (nCell pg)) (\<lambda>d.
              Inr (PageOK, pg\<lparr>aData := d, nFree := nFree pg + 2\<rparr>))))))"

end
