(* ===== verification/SqliteBtSpace.thy ===== *)
theory SqliteBtSpace
  imports SqliteBtPage
begin

text \<open>
  The space of a b-tree page is a partition: the regions in use, the free blocks and the
  fragments tile the content area.  \<open>layout\<close> states it on the bytes of the page, and
  the release and the allocation of space keep it, without ever reporting corruption.
\<close>

section \<open>Reading and writing the bytes\<close>

definition g2 :: "u8 list \<Rightarrow> nat \<Rightarrow> nat" where
  "g2 d i = 256 * unat (d ! i) + unat (d ! Suc i)"

definition put2 :: "u8 list \<Rightarrow> nat \<Rightarrow> nat \<Rightarrow> u8 list" where
  "put2 d i v = d[i := of_nat (v div 256), Suc i := of_nat v]"

definition blit :: "u8 list \<Rightarrow> nat \<Rightarrow> u8 list \<Rightarrow> u8 list" where
  "blit d i bs = take i d @ bs @ drop (i + length bs) d"

definition bytes :: "u8 list \<Rightarrow> nat \<Rightarrow> nat \<Rightarrow> u8 list" where
  "bytes d i n = take n (drop i d)"

lemma get2byte_ok [simp]: "Suc i < length d \<Longrightarrow> get2byte d i = Inr (g2 d i)"
  by (simp add: get2byte_def g2_def)

lemma put2byte_ok [simp]: "Suc i < length d \<Longrightarrow> put2byte d i v = Inr (put2 d i v)"
  by (simp add: put2byte_def put2_def)

lemma put_bytes_blit [simp]: "i + length bs \<le> length d \<Longrightarrow> put_bytes d i bs = Inr (blit d i bs)"
  by (simp add: put_bytes_def blit_def)

lemma read_bytes_ok [simp]: "i + n \<le> length d \<Longrightarrow> read_bytes d i n = Inr (bytes d i n)"
  by (simp add: read_bytes_def bytes_def)

lemma length_put2 [simp]: "length (put2 d i v) = length d"
  by (simp add: put2_def)

lemma length_blit [simp]: "i + length bs \<le> length d \<Longrightarrow> length (blit d i bs) = length d"
  by (simp add: blit_def)

lemma length_bytes [simp]: "i + n \<le> length d \<Longrightarrow> length (bytes d i n) = n"
  by (simp add: bytes_def)

lemma nth_bytes: "k < n \<Longrightarrow> i + n \<le> length d \<Longrightarrow> bytes d i n ! k = d ! (i + k)"
  by (simp add: bytes_def)

lemma nth_blit:
  "i + length bs \<le> length d \<Longrightarrow> k < length d \<Longrightarrow>
   blit d i bs ! k = (if i \<le> k \<and> k < i + length bs then bs ! (k - i) else d ! k)"
  by (auto simp: blit_def nth_append)

lemma nth_put2:
  "k < length d \<Longrightarrow> put2 d i v ! k = (if k = Suc i then of_nat v else if k = i then of_nat (v div 256) else d ! k)"
  by (simp add: put2_def nth_list_update)

lemma g2_less: "g2 d i < 65536"
proof -
  have "unat (d ! i) < 2 ^ 8" "unat (d ! Suc i) < 2 ^ 8" by (rule order_less_le_trans [OF unsigned_less], simp)+
  then show ?thesis by (simp add: g2_def)
qed

lemma g2_put2_same [simp]: "Suc i < length d \<Longrightarrow> g2 (put2 d i v) i = v mod 65536"
proof -
  assume "Suc i < length d"
  then have "g2 (put2 d i v) i = 256 * (v div 256 mod 256) + v mod 256"
    by (simp add: g2_def nth_put2 unat_of_nat)
  also have "\<dots> = v mod 65536" using mod_mult2_eq [of v 256 256] by simp
  finally show ?thesis .
qed

lemma g2_put2_other [simp]:
  "i + 2 \<le> j \<or> j + 2 \<le> i \<Longrightarrow> Suc j < length d \<Longrightarrow> g2 (put2 d i v) j = g2 d j"
  by (auto simp: g2_def nth_put2)

lemma move_two: "Suc i < length d \<Longrightarrow> Suc j < length d \<Longrightarrow> move_bytes d i j 2 = Inr (put2 d i (g2 d j))"
proof -
  assume a: "Suc i < length d" "Suc j < length d"
  have "blit d i (bytes d j 2) = put2 d i (g2 d j)"
  proof (rule nth_equalityI)
    show "length (blit d i (bytes d j 2)) = length (put2 d i (g2 d j))" using a by simp
    fix k assume k: "k < length (blit d i (bytes d j 2))"
    have b: "unat (d ! j) < 256" "unat (d ! Suc j) < 256"
      using unsigned_less [of "d ! j", where 'a = nat] unsigned_less [of "d ! Suc j", where 'a = nat] by simp_all
    have hi: "of_nat (g2 d j div 256) = d ! j" using b by (simp add: g2_def)
    have lo: "of_nat (g2 d j) = d ! Suc j"
    proof -
      have "(256 :: u8) = 0" by simp
      then have "(of_nat (256 * unat (d ! j)) :: u8) = 0" by (simp only: of_nat_mult of_nat_numeral mult_zero_left)
      then show ?thesis by (simp only: g2_def of_nat_add) simp
    qed
    show "blit d i (bytes d j 2) ! k = put2 d i (g2 d j) ! k"
      using a k hi lo by (auto simp: nth_blit nth_put2 nth_bytes less_Suc_eq numeral_2_eq_2)
  qed
  then show ?thesis using a by (simp add: move_bytes_def)
qed

text \<open>Two pages that differ at most on the positions \<open>W\<close>.\<close>

definition outside :: "u8 list \<Rightarrow> u8 list \<Rightarrow> nat set \<Rightarrow> bool" where
  "outside d d' W \<longleftrightarrow> length d' = length d \<and> (\<forall>k<length d. k \<notin> W \<longrightarrow> d' ! k = d ! k)"

lemma outside_refl [simp]: "outside d d W"
  by (simp add: outside_def)

lemma outside_trans: "outside d d1 W \<Longrightarrow> outside d1 d2 W \<Longrightarrow> outside d d2 W"
  by (simp add: outside_def)

lemma outside_mono: "outside d d' W \<Longrightarrow> W \<subseteq> W' \<Longrightarrow> outside d d' W'"
  by (auto simp: outside_def)

lemma outside_put2: "outside d d' W \<Longrightarrow> i \<in> W \<Longrightarrow> Suc i \<in> W \<Longrightarrow> outside d (put2 d' i v) W"
  by (auto simp: outside_def nth_put2)

lemma outside_upd: "outside d d' W \<Longrightarrow> i \<in> W \<Longrightarrow> outside d (d'[i := x]) W"
  by (simp add: outside_def) (metis nth_list_update_neq)

lemma outside_blit:
  "outside d d' W \<Longrightarrow> i + length bs \<le> length d' \<Longrightarrow> {i..<i + length bs} \<subseteq> W \<Longrightarrow> outside d (blit d' i bs) W"
  by (auto simp: outside_def nth_blit subset_iff)

lemma outside_length: "outside d d' W \<Longrightarrow> length d' = length d"
  by (simp add: outside_def)

lemma outside_nth: "outside d d' W \<Longrightarrow> k < length d \<Longrightarrow> k \<notin> W \<Longrightarrow> d' ! k = d ! k"
  by (simp add: outside_def)

lemma outside_g2: "outside d d' W \<Longrightarrow> Suc i < length d \<Longrightarrow> i \<notin> W \<Longrightarrow> Suc i \<notin> W \<Longrightarrow> g2 d' i = g2 d i"
  by (simp add: outside_def g2_def)

lemma outside_bytes:
  assumes "outside d d' W" "a + n \<le> length d" "{a..<a + n} \<inter> W = {}"
  shows "bytes d' a n = bytes d a n"
proof (rule nth_equalityI)
  show "length (bytes d' a n) = length (bytes d a n)" using assms by (simp add: outside_length)
  fix k assume "k < length (bytes d' a n)"
  then have k: "k < n" using assms by (simp add: outside_length)
  moreover have "a + k \<notin> W" using assms(3) k by (auto simp: disjoint_iff)
  ultimately show "bytes d' a n ! k = bytes d a n ! k"
    using assms by (simp add: nth_bytes outside_length outside_nth)
qed

section \<open>Regions\<close>

fun apart :: "nat \<times> nat \<Rightarrow> nat \<times> nat \<Rightarrow> bool" where
  "apart (a, n) (b, m) \<longleftrightarrow> a + n \<le> b \<or> b + m \<le> a"

lemma apart_sym: "apart r s = apart s r"
  by (cases r; cases s) auto

definition sumlen :: "(nat \<times> nat) list \<Rightarrow> nat" where
  "sumlen rs = sum_list (map snd rs)"

lemma sumlen_simps [simp]: "sumlen [] = 0" "sumlen ((a, n) # rs) = n + sumlen rs" "sumlen (rs @ ss) = sumlen rs + sumlen ss"
  by (simp_all add: sumlen_def)

definition covered :: "(nat \<times> nat) list \<Rightarrow> nat set" where
  "covered rs = (\<Union>(a, n)\<in>set rs. {a..<a + n})"

lemma covered_simps [simp]:
  "covered [] = {}" "covered ((a, n) # rs) = {a..<a + n} \<union> covered rs" "covered (rs @ ss) = covered rs \<union> covered ss"
  by (auto simp: covered_def)

lemma finite_covered [simp]: "finite (covered rs)"
  by (auto simp: covered_def)

lemma apart_covered: "\<forall>s\<in>set rs. apart (a, n) s \<Longrightarrow> {a..<a + n} \<inter> covered rs = {}"
  by (fastforce simp: covered_def)

lemma card_covered: "sorted_wrt apart rs \<Longrightarrow> card (covered rs) = sumlen rs"
proof (induction rs)
  case (Cons r rs)
  obtain a n where r: "r = (a, n)" by (cases r)
  have "card ({a..<a + n} \<union> covered rs) = n + card (covered rs)"
    using card_Un_disjoint [of "{a..<a + n}" "covered rs"] apart_covered [of rs a n] Cons.prems r by simp
  then show ?case using Cons r by simp
qed simp

lemma sumlen_le:
  assumes "sorted_wrt apart rs" and "\<forall>(a, n)\<in>set rs. lo \<le> a \<and> a + n \<le> hi" and "lo \<le> hi"
  shows "lo + sumlen rs \<le> hi"
proof -
  have "covered rs \<subseteq> {lo..<hi}" using assms(2) by (fastforce simp: covered_def)
  then have "card (covered rs) \<le> card {lo..<hi}" by (intro card_mono) simp_all
  then show ?thesis using assms card_covered by simp
qed

lemma sorted_wrt_apart_move: "sorted_wrt apart (pre @ x # post) \<longleftrightarrow> sorted_wrt apart (x # pre @ post)"
  using apart_sym by (auto simp: sorted_wrt_append)

section \<open>The list of free blocks\<close>

fun spaced :: "nat \<Rightarrow> (nat \<times> nat) list \<Rightarrow> bool" where
  "spaced lo [] \<longleftrightarrow> True"
| "spaced lo ((b, s) # fl) \<longleftrightarrow> lo \<le> b \<and> 4 \<le> s \<and> spaced (b + s + 4) fl"

fun after :: "nat \<Rightarrow> (nat \<times> nat) list \<Rightarrow> nat" where
  "after lo [] = lo"
| "after lo ((b, s) # fl) = after (b + s + 4) fl"

definition head :: "(nat \<times> nat) list \<Rightarrow> nat \<Rightarrow> nat" where
  "head fl z = (case fl of [] \<Rightarrow> z | (b, s) # _ \<Rightarrow> b)"

lemma head_simps [simp]: "head [] z = z" "head ((b, s) # fl) z = b" "head (L @ S) z = head L (head S z)"
  by (auto simp: head_def split: list.splits)

lemma spaced_append: "spaced lo (L @ S) \<longleftrightarrow> spaced lo L \<and> spaced (after lo L) S"
  by (induction lo L rule: spaced.induct) auto

lemma after_append [simp]: "after lo (L @ S) = after (after lo L) S"
  by (induction lo L rule: after.induct) auto

lemma spaced_mono: "spaced lo fl \<Longrightarrow> lo' \<le> lo \<Longrightarrow> spaced lo' fl"
  by (cases fl) auto

lemma spaced_after: "spaced lo fl \<Longrightarrow> lo \<le> after lo fl"
  by (induction lo fl rule: spaced.induct) auto

lemma spaced_member: "spaced lo fl \<Longrightarrow> (b, s) \<in> set fl \<Longrightarrow> lo \<le> b \<and> 4 \<le> s \<and> b + s + 4 \<le> after lo fl"
proof (induction lo fl rule: spaced.induct)
  case (2 lo b' s' fl)
  then show ?case using spaced_after [of "b' + s' + 4" fl] by auto
qed simp

lemma spaced_apart: "spaced lo fl \<Longrightarrow> sorted_wrt apart fl"
proof (induction lo fl rule: spaced.induct)
  case (2 lo b s fl)
  then have "\<forall>r\<in>set fl. apart (b, s) r" using spaced_member [of "b + s + 4" fl] by fastforce
  then show ?case using 2 by simp
qed simp

lemma spaced_split:
  "spaced lo fl \<Longrightarrow> \<exists>L S. fl = L @ S \<and> (\<forall>(b, s)\<in>set L. b < a) \<and> (\<forall>(b, s)\<in>set S. a \<le> b)"
proof (induction lo fl rule: spaced.induct)
  case (2 lo b s fl)
  show ?case
  proof (cases "b < a")
    case True
    from 2 obtain L S where "fl = L @ S" "\<forall>(b, s)\<in>set L. b < a" "\<forall>(b, s)\<in>set S. a \<le> b" by auto
    then show ?thesis using True by (intro exI [of _ "(b, s) # L"] exI [of _ S]) auto
  next
    case False
    then have "\<forall>(b', s')\<in>set ((b, s) # fl). a \<le> b'" using spaced_member [of "b + s + 4" fl] 2(2) by fastforce
    then show ?thesis by (intro exI [of _ "[]"] exI [of _ "(b, s) # fl"]) auto
  qed
qed auto

text \<open>The blocks of the list stand in the page: each one's pointer and size, \<open>z\<close> is what
  the last pointer holds.\<close>

fun linked :: "u8 list \<Rightarrow> (nat \<times> nat) list \<Rightarrow> nat \<Rightarrow> bool" where
  "linked d [] z \<longleftrightarrow> True"
| "linked d ((b, s) # fl) z \<longleftrightarrow> b \<noteq> 0 \<and> g2 d b = head fl z \<and> g2 d (b + 2) = s \<and> linked d fl z"

lemma linked_append: "linked d (L @ S) z \<longleftrightarrow> linked d L (head S z) \<and> linked d S z"
  by (induction L) auto

lemma linked_outside:
  "linked d fl z \<Longrightarrow> outside d d' W \<Longrightarrow> \<forall>(b, s)\<in>set fl. b + 4 \<le> length d \<and> {b..<b + 4} \<inter> W = {} \<Longrightarrow> linked d' fl z"
proof (induction fl)
  case (Cons f fl)
  obtain b s where f: "f = (b, s)" by (cases f)
  have w: "b + 4 \<le> length d" "b \<notin> W" "Suc b \<notin> W" "b + 2 \<notin> W" "Suc (b + 2) \<notin> W"
    using Cons.prems(3) f by (auto simp: disjoint_iff)
  then have "g2 d' b = g2 d b" "g2 d' (b + 2) = g2 d (b + 2)"
    using outside_g2 [OF Cons.prems(2)] by simp_all
  then show ?case using Cons f by auto
qed simp

section \<open>The layout\<close>

text \<open>The start of the cell content, where zero stands for 65536.\<close>

definition content :: "u8 list \<Rightarrow> nat \<Rightarrow> nat" where
  "content d h = (if g2 d (h + 5) = 0 then 65536 else g2 d (h + 5))"

text \<open>Header at \<open>h\<close>, pointers up to \<open>g\<close>, \<open>U\<close> usable bytes; the free blocks
  are \<open>fl\<close>, the regions in use are \<open>used\<close>.\<close>

definition layout :: "u8 list \<Rightarrow> nat \<Rightarrow> nat \<Rightarrow> nat \<Rightarrow> (nat \<times> nat) list \<Rightarrow> (nat \<times> nat) list \<Rightarrow> bool" where
  "layout d h g U fl used \<longleftrightarrow>
     h + 8 \<le> g \<and> g \<le> content d h \<and> content d h \<le> U \<and> U \<le> length d \<and> U \<le> 65536 \<and>
     g2 d (h + 1) = head fl 0 \<and> linked d fl 0 \<and> spaced (content d h + 1) fl \<and> (\<forall>(b, s)\<in>set fl. b + s \<le> U) \<and>
     (\<forall>(a, n)\<in>set used. 4 \<le> n \<and> content d h \<le> a \<and> a + n \<le> U) \<and>
     sorted_wrt apart used \<and> (\<forall>r\<in>set used. \<forall>f\<in>set fl. apart r f) \<and>
     unat (d ! (h + 7)) \<le> 60 \<and> content d h + sumlen used + sumlen fl + unat (d ! (h + 7)) = U"

text \<open>Where an operation on the space may write: the header fields and what is not in use.\<close>

definition spare :: "nat \<Rightarrow> nat \<Rightarrow> nat \<Rightarrow> (nat \<times> nat) list \<Rightarrow> nat set" where
  "spare h t U used = {h + 1, h + 2} \<union> {h + 5..<h + 8} \<union> ({t..<U} - covered used)"

lemma layoutD:
  assumes "layout d h g U fl used"
  shows "h + 8 \<le> g" "g \<le> content d h" "content d h \<le> U" "U \<le> length d" "U \<le> 65536"
    "g2 d (h + 1) = head fl 0" "linked d fl 0" "spaced (content d h + 1) fl"
    "(b, s) \<in> set fl \<Longrightarrow> b + s \<le> U \<and> 4 \<le> s \<and> content d h < b"
    "(a, n) \<in> set used \<Longrightarrow> 4 \<le> n \<and> content d h \<le> a \<and> a + n \<le> U"
    "sorted_wrt apart used" "r \<in> set used \<Longrightarrow> f \<in> set fl \<Longrightarrow> apart r f"
    "unat (d ! (h + 7)) \<le> 60" "content d h + sumlen used + sumlen fl + unat (d ! (h + 7)) = U"
  using assms spaced_member [of "content d h + 1" fl b s] unfolding layout_def by auto

lemma content_outside:
  "outside d d' W \<Longrightarrow> h + 6 < length d \<Longrightarrow> h + 5 \<notin> W \<Longrightarrow> h + 6 \<notin> W \<Longrightarrow> content d' h = content d h"
proof -
  assume a: "outside d d' W" "h + 6 < length d" "h + 5 \<notin> W" "h + 6 \<notin> W"
  have e: "Suc (h + 5) = h + 6" by simp
  have "Suc (h + 5) < length d" "Suc (h + 5) \<notin> W" unfolding e by (fact a)+
  then have "g2 d' (h + 5) = g2 d (h + 5)" by (intro outside_g2 [OF a(1)] a(3))
  then show ?thesis by (simp add: content_def)
qed

section \<open>Release\<close>

definition last_addr :: "nat \<Rightarrow> (nat \<times> nat) list \<Rightarrow> nat" where
  "last_addr p L = (if L = [] then p else fst (last L))"

lemma last_addr_simps [simp]:
  "last_addr p [] = p" "last_addr p ((b, s) # L) = last_addr b L" "last_addr p (L @ [(b, s)]) = b"
  by (simp_all add: last_addr_def)

lemma find_place_list:
  assumes "g2 d p = head (L @ S) 0" "linked d (L @ S) 0" "spaced lo (L @ S)" "p < lo"
    "\<forall>(b, s)\<in>set L. b < a" "\<forall>(b, s)\<in>set S. a \<le> b"
    "Suc p < length d" "\<forall>(b, s)\<in>set L. Suc b < length d" "0 < a"
  shows "find_place d a p = Inr (Some (last_addr p L, head S 0))"
  using assms
proof (induction L arbitrary: p lo)
  case Nil
  show ?case
  proof (cases S)
    case Nil
    then show ?thesis using \<open>g2 d p = _\<close> \<open>Suc p < length d\<close> \<open>0 < a\<close> by (simp add: find_place.simps [of d a p])
  next
    case (Cons f S')
    obtain b s where f: "f = (b, s)" by (cases f)
    then show ?thesis using Nil.prems Cons by (simp add: find_place.simps [of d a p])
  qed
next
  case (Cons f L)
  obtain b s where f: "f = (b, s)" by (cases f)
  have b: "g2 d p = b" "b < a" "p < b" using Cons.prems f by auto
  have "find_place d a b = Inr (Some (last_addr b L, head S 0))"
    by (rule Cons.IH [of b "b + s + 4"]) (use Cons.prems f in auto)
  then show ?case using b f Cons.prems(7) by (simp add: find_place.simps [of d a p])
qed

text \<open>What the search leaves to be done: the block at \<open>a\<close> is already the target of the list,
  or it goes behind the header or behind the last block of \<open>L\<close>.\<close>

definition hook :: "u8 list \<Rightarrow> nat \<Rightarrow> (nat \<times> nat) list \<Rightarrow> nat \<Rightarrow> nat \<Rightarrow> bool" where
  "hook d h L p a \<longleftrightarrow>
     (p = a \<and> g2 d (h + 1) = head L a \<and> linked d L a) \<or>
     (L = [] \<and> p = h + 1) \<or>
     (\<exists>L' b s. L = L' @ [(b, s)] \<and> p = b \<and> g2 d (h + 1) = head L b \<and> linked d L' b \<and> b \<noteq> 0 \<and> g2 d (b + 2) = s)"

lemma head_nonempty: "L \<noteq> [] \<Longrightarrow> head L z = head L z'"
  by (cases L) auto

lemma hook_outside:
  assumes "hook d h L p a" "outside d d' W" "h + 1 \<notin> W" "h + 2 \<notin> W" "h + 2 < length d"
    "\<forall>(b, s)\<in>set L. b + 4 \<le> length d \<and> {b..<b + 4} \<inter> W = {}"
  shows "hook d' h L p a"
proof -
  have e: "Suc (h + 1) = h + 2" by simp
  have "Suc (h + 1) < length d" "Suc (h + 1) \<notin> W" unfolding e by (fact assms)+
  then have h: "g2 d' (h + 1) = g2 d (h + 1)" by (intro outside_g2 [OF assms(2)] assms(3))
  from assms(1) show ?thesis unfolding hook_def
  proof (elim disjE exE conjE)
    assume "p = a" "g2 d (h + 1) = head L a" "linked d L a"
    then have "g2 d' (h + 1) = head L a" "linked d' L a" using h linked_outside [OF _ assms(2,6)] by simp_all
    then show "(p = a \<and> g2 d' (h + 1) = head L a \<and> linked d' L a) \<or>
     (L = [] \<and> p = h + 1) \<or>
     (\<exists>L' b s. L = L' @ [(b, s)] \<and> p = b \<and> g2 d' (h + 1) = head L b \<and> linked d' L' b \<and> b \<noteq> 0 \<and> g2 d' (b + 2) = s)"
      using \<open>p = a\<close> by blast
  next
    fix L' b s assume L: "L = L' @ [(b, s)]" "p = b" "g2 d (h + 1) = head L b" "linked d L' b" "b \<noteq> 0" "g2 d (b + 2) = s"
    have w: "b + 4 \<le> length d" "b + 2 \<notin> W" "Suc (b + 2) \<notin> W" using assms(6) L(1) by (auto simp: disjoint_iff)
    have "g2 d' (b + 2) = s" using outside_g2 [OF assms(2), of "b + 2"] w L(6) by simp
    moreover have "linked d' L' b" by (rule linked_outside [OF L(4) assms(2)]) (use assms(6) L(1) in auto)
    ultimately show "(p = a \<and> g2 d' (h + 1) = head L a \<and> linked d' L a) \<or>
     (L = [] \<and> p = h + 1) \<or>
     (\<exists>L' b s. L = L' @ [(b, s)] \<and> p = b \<and> g2 d' (h + 1) = head L b \<and> linked d' L' b \<and> b \<noteq> 0 \<and> g2 d' (b + 2) = s)"
      using L h by auto
  qed blast
qed

lemma relink:
  assumes hk: "hook d h L p a" and s: "linked d S 0" and lo: "h + 4 \<le> lo" "spaced lo (L @ (a, n) # S)"
    and len: "\<forall>(b, s)\<in>set (L @ (a, n) # S). b + s \<le> length d" "h + 2 < length d"
    and small: "a < 65536" "head S 0 < 65536" "n < 65536"
  defines "d' \<equiv> put2 (put2 (put2 d p a) a (head S 0)) (a + 2) n"
  shows "g2 d' (h + 1) = head (L @ (a, n) # S) 0 \<and> linked d' (L @ (a, n) # S) 0"
proof -
  define W where "W = {p, Suc p} \<union> {a..<a + 4}"
  have sp: "spaced lo L" "after lo L \<le> a" "4 \<le> n" "spaced (a + n + 4) S" using lo(2) by (simp_all add: spaced_append)
  have a: "a + n \<le> length d" "lo \<le> a" using len(1) sp spaced_after [OF sp(1)] by auto
  have L: "b + s + 4 \<le> a \<and> 4 \<le> s \<and> lo \<le> b \<and> b + s \<le> length d" if "(b, s) \<in> set L" for b s
    using spaced_member [OF sp(1) that] sp(2) len(1) that by fastforce
  have S: "a + n + 4 \<le> b \<and> 4 \<le> s \<and> b + s \<le> length d" if "(b, s) \<in> set S" for b s
    using spaced_member [OF sp(4) that] len(1) that by fastforce
  have p: "p = a \<or> p + 2 \<le> a" "Suc p < length d"
  proof -
    have "p = a \<or> p = h + 1 \<or> (\<exists>s. (p, s) \<in> set L)" using hk by (auto simp: hook_def)
    then show "p = a \<or> p + 2 \<le> a" using L lo(1) a(2) by fastforce
    then show "Suc p < length d" using a sp(3) by linarith
  qed
  have out: "outside d d' W"
    unfolding d'_def by (intro outside_put2 outside_refl) (auto simp: W_def)
  have ga: "g2 d' a = head S 0" "g2 d' (a + 2) = n"
    using small a sp(3) by (simp_all add: d'_def)
  have lS: "linked d' S 0"
    by (rule linked_outside [OF s out]) (use S p(1) sp(3) in \<open>fastforce simp: W_def disjoint_iff\<close>)
  have a0: "a \<noteq> 0" using a(2) lo(1) by simp
  have h1: "g2 d' (h + 1) = g2 d (h + 1)" if "p \<noteq> h + 1" "h + 2 < p"
    by (rule outside_g2 [OF out]) (use that len(2) lo(1) a(2) in \<open>auto simp: W_def\<close>)
  from hk show ?thesis unfolding hook_def
  proof (elim disjE exE conjE)
    assume c: "p = a" "g2 d (h + 1) = head L a" "linked d L a"
    have "linked d' L a"
      by (rule linked_outside [OF c(3) out]) (use L c(1) in \<open>fastforce simp: W_def disjoint_iff\<close>)
    moreover have "g2 d' (h + 1) = head L a" using h1 c a lo(1) by simp
    ultimately show ?thesis using ga lS a0 by (simp add: linked_append)
  next
    assume c: "L = []" "p = h + 1"
    have "g2 d' (h + 1) = a" using c small len(2) lo(1) a(2) by (simp add: d'_def)
    then show ?thesis using ga lS a0 c by simp
  next
    fix L' b s assume c: "L = L' @ [(b, s)]" "p = b" "g2 d (h + 1) = head L b" "linked d L' b" "b \<noteq> 0" "g2 d (b + 2) = s"
    have sp': "spaced lo L'" "after lo L' \<le> b" using sp(1) c(1) by (simp_all add: spaced_append)
    have "linked d' L' b"
    proof (rule linked_outside [OF c(4) out], clarify)
      fix b' s' assume m: "(b', s') \<in> set L'"
      then have "b' + s' + 4 \<le> b" "4 \<le> s'" using spaced_member [OF sp'(1) m] sp'(2) by simp_all
      moreover have "b + s + 4 \<le> a" "b' + s' \<le> length d" using L [of b s] L [of b' s'] c(1) m by simp_all
      ultimately show "b' + 4 \<le> length d \<and> {b'..<b' + 4} \<inter> W = {}" using c(2) by (auto simp: W_def)
    qed
    moreover have b: "b + s + 4 \<le> a" "4 \<le> s" "lo \<le> b" using L [of b s] c(1) by simp_all
    have "g2 d' b = a" using b a small c(2) by (simp add: d'_def)
    moreover have "g2 d' (b + 2) = s"
    proof -
      have "g2 d' (b + 2) = g2 d (b + 2)"
        by (rule outside_g2 [OF out]) (use b a c(2) in \<open>auto simp: W_def\<close>)
      then show ?thesis using c(6) by simp
    qed
    moreover have "g2 d' (h + 1) = head L a"
      using h1 c(1,2,3) b lo(1) head_nonempty [of L a b] by simp
    ultimately show ?thesis using ga lS a0 c(1,5) by (simp add: linked_append)
  qed
qed

lemma free_spare:
  "\<forall>r\<in>set used. apart (b, s) r \<Longrightarrow> t \<le> b \<Longrightarrow> b + s \<le> U \<Longrightarrow> {b..<b + s} \<subseteq> spare h t U used"
  using apart_covered [of used b s] by (auto simp: spare_def disjoint_iff)

lemma spare_content: "k \<in> spare h t U used \<Longrightarrow> k \<in> {h + 1, h + 2} \<union> {h + 5..<h + 8} \<or> t \<le> k \<and> k < U \<and> k \<notin> covered used"
  by (auto simp: spare_def)

lemma content_put: "h + 6 < length d \<Longrightarrow> 0 < e \<Longrightarrow> e \<le> 65536 \<Longrightarrow> content (put2 d (h + 5) e) h = e"
proof -
  assume a: "h + 6 < length d" "0 < e" "e \<le> 65536"
  have "g2 (put2 d (h + 5) e) (h + 5) = e mod 65536" using a(1) by (intro g2_put2_same) simp
  then show ?thesis using a by (cases "e = 65536") (simp_all add: content_def)
qed

text \<open>The facts about a page in which the block \<open>(a, m)\<close> is to become free between the
  blocks \<open>L\<close> and \<open>S\<close>.\<close>

definition releasable ::
  "u8 list \<Rightarrow> nat \<Rightarrow> nat \<Rightarrow> nat \<Rightarrow> (nat \<times> nat) list \<Rightarrow> nat \<Rightarrow> nat \<Rightarrow> nat \<Rightarrow> (nat \<times> nat) list \<Rightarrow> (nat \<times> nat) list \<Rightarrow> bool" where
  "releasable d h g U L p a m S used \<longleftrightarrow>
     h + 8 \<le> g \<and> g \<le> content d h \<and> U \<le> length d \<and> U \<le> 65536 \<and>
     hook d h L p a \<and> linked d S 0 \<and> 4 \<le> m \<and> a + m \<le> U \<and>
     (a = content d h \<and> L = [] \<and> p = h + 1 \<or> content d h < a \<and> spaced (content d h + 1) (L @ [(a, m)])) \<and>
     spaced (a + m + 4) S \<and> (\<forall>(b, s)\<in>set L \<union> set S. b + s \<le> U) \<and>
     (\<forall>(b, s)\<in>set used. 4 \<le> s \<and> content d h \<le> b \<and> b + s \<le> U) \<and>
     sorted_wrt apart used \<and> (\<forall>r\<in>set used. \<forall>f\<in>set (L @ (a, m) # S). apart r f) \<and>
     unat (d ! (h + 7)) \<le> 60 \<and> content d h + sumlen used + sumlen L + m + sumlen S + unat (d ! (h + 7)) = U"

lemma release_ok:
  assumes r: "releasable (aData pg) h g U L p a m S used" and h: "hdrOffset pg = h"
  shows "\<exists>d' fl'. release_block pg p a (a + m) (head S 0) k =
      Inr (PageOK, pg\<lparr>aData := d', nFree := nFree pg + int k\<rparr>) \<and>
    layout d' h g U fl' used \<and> outside (aData pg) d' (spare h (content (aData pg) h) U used)"
proof -
  define d where "d = aData pg"
  define t where "t = content d h"
  note r' = r [unfolded releasable_def, folded d_def, folded t_def]
  have b: "h + 8 \<le> g" "g \<le> t" "U \<le> length d" "U \<le> 65536" "hook d h L p a" "linked d S 0" "4 \<le> m" "a + m \<le> U"
    "spaced (a + m + 4) S" "sorted_wrt apart used" "unat (d ! (h + 7)) \<le> 60"
    "t + sumlen used + sumlen L + m + sumlen S + unat (d ! (h + 7)) = U"
    using r' by simp_all
  have geo: "a = t \<and> L = [] \<and> p = h + 1 \<or> t < a \<and> spaced (t + 1) (L @ [(a, m)])" using r' by simp
  have LS: "\<And>b s. (b, s) \<in> set L \<union> set S \<Longrightarrow> b + s \<le> U" using r' by blast
  have us: "\<And>b s. (b, s) \<in> set used \<Longrightarrow> 4 \<le> s \<and> t \<le> b \<and> b + s \<le> U" using r' by blast
  have ap: "\<And>r f. r \<in> set used \<Longrightarrow> f \<in> set (L @ (a, m) # S) \<Longrightarrow> apart r f" using r' by blast
  have ta: "t \<le> a" using geo by auto
  have x: "g2 d (h + 5) = t"
    using ta b(4,7,8) by (auto simp: t_def content_def split: if_splits)
  have m: "m < 65536" "(a + m - a) mod 65536 = m" using b ta by simp_all
  have S: "a + m + 4 \<le> c \<and> 4 \<le> s \<and> c + s \<le> U" if "(c, s) \<in> set S" for c s
    using spaced_member [OF b(9) that] LS that by blast
  have hS: "head S 0 < 65536"
  proof (cases S)
    case (Cons f S')
    then show ?thesis using S [of "fst f" "snd f"] b(4) by (cases f) simp
  qed simp
  have am: "{a..<a + m} \<subseteq> spare h t U used"
    by (rule free_spare) (use ap ta b(8) apart_sym in auto)
  define dz where "dz = (if fast_secure (pBt pg) then blit d a (replicate m 0) else d)"
  have zb: "(if fast_secure (pBt pg) then zero_bytes d a (int ((a + m - a) mod 65536)) else Inr d) = Inr dz"
    using b(3,8) m by (simp add: dz_def zero_bytes_def)
  have oz: "outside d dz {a..<a + m}"
    using b(3,8) by (auto simp: dz_def intro!: outside_blit)
  have lz: "length dz = length d" by (rule outside_length [OF oz])
  have linkS: "linked dz S 0"
    by (rule linked_outside [OF b(6) oz]) (use S b(3) in fastforce)
  show ?thesis
  proof (cases "a = t")
    case True
    then have c: "L = []" "p = h + 1" using geo by auto
    define d' where "d' = put2 (put2 dz (h + 1) (head S 0)) (h + 5) (a + m)"
    have run: "release_block pg p a (a + m) (head S 0) k = Inr (PageOK, pg\<lparr>aData := d', nFree := nFree pg + int k\<rparr>)"
      using True c x zb lz b(1-3) ta b(8) unfolding release_block_def h d_def [symmetric] Let_def
      by (simp add: d'_def)
    have out: "outside d d' ({a..<a + m} \<union> {h + 1, h + 2, h + 5, h + 6})"
      unfolding d'_def by (intro outside_put2 outside_mono [OF oz]) auto
    have ct: "content d' h = a + m"
      unfolding d'_def by (rule content_put) (use lz b ta in simp_all)
    have "layout d' h g U S used"
      unfolding layout_def ct
    proof (intro conjI)
      show "g2 d' (h + 1) = head S 0" using hS lz b(1-3,8) ta by (simp add: d'_def)
      show "linked d' S 0"
        by (rule linked_outside [OF b(6) out]) (use S b(1-3) ta in fastforce)
      show "spaced (a + m + 1) S" by (rule spaced_mono [OF b(9)]) simp
      show "\<forall>(b, s)\<in>set S. b + s \<le> U" using S by blast
      show "\<forall>(b, n)\<in>set used. 4 \<le> n \<and> a + m \<le> b \<and> b + n \<le> U"
      proof clarify
        fix c n assume u: "(c, n) \<in> set used"
        have "apart (c, n) (a, m)" by (rule ap [OF u]) simp
        then show "4 \<le> n \<and> a + m \<le> c \<and> c + n \<le> U" using us [OF u] True by auto
      qed
      have "d' ! (h + 7) = d ! (h + 7)"
        by (rule outside_nth [OF out]) (use b(1-3,8) ta in auto)
      then show "unat (d' ! (h + 7)) \<le> 60" "a + m + sumlen used + sumlen S + unat (d' ! (h + 7)) = U"
        using b True c by simp_all
    qed (use b ta outside_length [OF out] ap in auto)
    moreover have "outside d d' (spare h t U used)"
      by (rule outside_mono [OF out]) (use am in \<open>auto simp: spare_def\<close>)
    ultimately show ?thesis using run unfolding d_def t_def by blast
  next
    case False
    then have c: "t < a" "spaced (t + 1) (L @ [(a, m)])" using geo by auto
    have sp: "spaced (t + 1) (L @ (a, m) # S)" using c(2) b(9) by (simp add: spaced_append)
    have L: "t + 1 \<le> c \<and> 4 \<le> s \<and> c + s \<le> U \<and> c + s + 4 \<le> a" if "(c, s) \<in> set L" for c s
      using spaced_member [of "t + 1" L c s] c(2) that LS by (auto simp: spaced_append)
    have p: "p = h + 1 \<or> p = a \<or> (\<exists>s. (p, s) \<in> set L)" using b(5) by (auto simp: hook_def)
    define d' where "d' = put2 (put2 (put2 dz p a) a (head S 0)) (a + 2) m"
    have plen: "Suc p < length d" using p L b(1-3,7,8) ta by fastforce
    have run: "release_block pg p a (a + m) (head S 0) k = Inr (PageOK, pg\<lparr>aData := d', nFree := nFree pg + int k\<rparr>)"
      using c x zb lz b(1-3) ta b(7,8) m plen unfolding release_block_def h d_def [symmetric] Let_def
      by (simp add: d'_def)
    have pW: "{p, Suc p} \<subseteq> spare h t U used"
    proof -
      have "p \<noteq> h + 1 \<Longrightarrow> \<exists>s. 4 \<le> s \<and> {p..<p + s} \<subseteq> spare h t U used"
      proof -
        assume "p \<noteq> h + 1"
        then consider "p = a" | s where "(p, s) \<in> set L" using p by auto
        then show ?thesis
        proof cases
          case 1 then show ?thesis using am b(7) by blast
        next
          case (2 s)
          have "{p..<p + s} \<subseteq> spare h t U used"
            by (rule free_spare) (use 2 L [OF 2] ap apart_sym in auto)
          then show ?thesis using L [OF 2] by blast
        qed
      qed
      moreover have "{p, Suc p} \<subseteq> {p..<p + s}" if "4 \<le> s" for s using that by auto
      moreover have "{h + 1, Suc (h + 1)} \<subseteq> spare h t U used" by (auto simp: spare_def)
      ultimately show ?thesis by blast
    qed
    have out: "outside d d' (spare h t U used \<inter> ({a..<a + m} \<union> {p, Suc p}))"
    proof -
      have "a \<in> {a..<a + m}" "Suc a \<in> {a..<a + m}" "a + 2 \<in> {a..<a + m}" "Suc (a + 2) \<in> {a..<a + m}"
        using b(7) by simp_all
      then show ?thesis unfolding d'_def using am pW by (intro outside_put2 outside_mono [OF oz]) blast+
    qed
    have hk: "hook dz h L p a"
    proof (rule hook_outside [OF b(5) oz])
      show "h + 1 \<notin> {a..<a + m}" "h + 2 \<notin> {a..<a + m}" "h + 2 < length d" using b(1-3,8) c(1) by simp_all
      show "\<forall>(c, s)\<in>set L. c + 4 \<le> length d \<and> {c..<c + 4} \<inter> {a..<a + m} = {}"
      proof clarify
        fix c s assume "(c, s) \<in> set L"
        from L [OF this] b(3) show "c + 4 \<le> length d \<and> {c..<c + 4} \<inter> {a..<a + m} = {}" by auto
      qed
    qed
    have re: "g2 d' (h + 1) = head (L @ (a, m) # S) 0 \<and> linked d' (L @ (a, m) # S) 0"
      unfolding d'_def
    proof (rule relink [OF hk linkS _ sp])
      show "h + 4 \<le> t + 1" "h + 2 < length dz" "a < 65536" "head S 0 < 65536" "m < 65536"
        using b(1-4,7,8) lz hS m(1) ta by linarith+
      show "\<forall>(b, s)\<in>set (L @ (a, m) # S). b + s \<le> length dz"
      proof clarify
        fix c s assume "(c, s) \<in> set (L @ (a, m) # S)"
        then have "c + s \<le> U" using L [of c s] S [of c s] b(8) by auto
        then show "c + s \<le> length dz" using b(3) lz by linarith
      qed
    qed
    have p7: "h + 7 < t" "p \<noteq> h + 5" "p \<noteq> h + 6" "p \<noteq> h + 7" "p \<noteq> h + 4" using p L b(1,2) c(1) by fastforce+
    have ct: "content d' h = t"
      unfolding t_def by (rule content_outside [OF out]) (use p7 c b in auto)
    have "layout d' h g U (L @ (a, m) # S) used"
      unfolding layout_def ct
    proof (intro conjI)
      show "g2 d' (h + 1) = head (L @ (a, m) # S) 0" "linked d' (L @ (a, m) # S) 0" using re by simp_all
      show "spaced (t + 1) (L @ (a, m) # S)" by (rule sp)
      show "\<forall>(b, s)\<in>set (L @ (a, m) # S). b + s \<le> U" using L S b(8) by auto
      show "\<forall>(b, n)\<in>set used. 4 \<le> n \<and> t \<le> b \<and> b + n \<le> U" using us by auto
      have "d' ! (h + 7) = d ! (h + 7)"
        by (rule outside_nth [OF out]) (use b p7 ta in auto)
      then show "unat (d' ! (h + 7)) \<le> 60" "t + sumlen used + sumlen (L @ (a, m) # S) + unat (d' ! (h + 7)) = U"
        using b by simp_all
    qed (use b ta outside_length [OF out] ap in auto)
    moreover have "outside d d' (spare h t U used)" by (rule outside_mono [OF out]) auto
    ultimately show ?thesis using run unfolding d_def t_def by blast
  qed
qed

lemma join_next_ok:
  assumes lay: "layout (aData pg) h g U (L @ S) ((a, n) # used)" and U: "usable pg = U"
    and S: "\<forall>(b, s)\<in>set S. a \<le> b"
  shows "\<exists>e S1 f1. join_next pg a (a + n) (head S 0) = Inr (Some (e, head S1 0, f1)) \<and>
    a + n \<le> e \<and> e \<le> U \<and> spaced (e + 4) S1 \<and> linked (aData pg) S1 0 \<and> set S1 \<subseteq> set S \<and>
    sumlen S + n + f1 = sumlen S1 + (e - a) \<and> (\<forall>r\<in>set used. apart r (a, e - a)) \<and> f1 < 4"
proof (cases S)
  case Nil
  have "\<forall>r\<in>set used. apart r (a, n)" using layoutD(11) [OF lay] apart_sym by auto
  moreover have "a + n \<le> U" using layoutD(10) [OF lay, of a n] by simp
  ultimately show ?thesis using Nil by (intro exI [of _ "a + n"] exI [of _ "[]"] exI [of _ 0]) (simp add: join_next_def)
next
  case (Cons f S')
  obtain b s where f: "f = (b, s)" by (cases f)
  note l = layoutD [OF lay]
  have m: "(b, s) \<in> set (L @ S)" "(a, n) \<in> set ((a, n) # used)" using Cons f by simp_all
  have bs: "b + s \<le> U" "4 \<le> s" using l(9) [OF m(1)] by simp_all
  have an: "4 \<le> n" "a + n \<le> U" using l(10) [OF m(2)] by simp_all
  have ab: "a + n \<le> b" using l(12) [OF m(2,1)] S Cons f bs by auto
  have lk: "linked (aData pg) S 0" using l(7) by (simp add: linked_append)
  have sp: "spaced (b + s + 4) S'" using l(8) Cons f by (simp add: spaced_append)
  have u: "apart r (a, n)" "apart r (b, s)" "4 \<le> snd r" if "r \<in> set used" for r
    using that l(10) [of "fst r" "snd r"] l(11) l(12) [of r "(b, s)"] m(1) apart_sym by (auto simp del: apart.simps)
  show ?thesis
  proof (cases "b \<le> a + n + 3")
    case True
    have "g2 (aData pg) b = head S' 0" "g2 (aData pg) (b + 2) = s" "b \<noteq> 0" "linked (aData pg) S' 0"
      using lk Cons f by simp_all
    moreover have "Suc (b + 2) < length (aData pg)" "Suc b < length (aData pg)" using bs l(4) by simp_all
    ultimately have "join_next pg a (a + n) (head S 0) = Inr (Some (b + s, head S' 0, b - (a + n)))"
      using True ab bs U Cons f by (simp add: join_next_def)
    moreover have "\<forall>r\<in>set used. apart r (a, b + s - a)"
    proof
      fix r assume "r \<in> set used"
      from u [OF this] True ab show "apart r (a, b + s - a)" by (cases r) auto
    qed
    moreover have "sumlen S + n + (b - (a + n)) = sumlen S' + (b + s - a)" using Cons f ab by simp
    ultimately show ?thesis using sp bs ab an lk Cons f True
      by (intro exI [of _ "b + s"] exI [of _ S'] exI [of _ "b - (a + n)"]) auto
  next
    case False
    then have "join_next pg a (a + n) (head S 0) = Inr (Some (a + n, head S 0, 0))"
      using Cons f by (simp add: join_next_def)
    moreover have "\<forall>r\<in>set used. apart r (a, a + n - a)" using u(1) by simp
    moreover have "spaced (a + n + 4) S" using False sp Cons f bs by simp
    ultimately show ?thesis using lk an by (intro exI [of _ "a + n"] exI [of _ S] exI [of _ 0]) simp
  qed
qed

lemma join_previous_ok:
  assumes lay: "layout (aData pg) h g U (L @ S) ((a, n) # used)" and h: "hdrOffset pg = h"
    and L: "\<forall>(b, s)\<in>set L. b < a" and e: "a + n \<le> e" "e \<le> U" and ap: "\<forall>r\<in>set used. apart r (a, e - a)"
  shows "\<exists>a1 L1 f2. join_previous pg (last_addr (h + 1) L) a = Inr (Some (a1, f2)) \<and>
    a1 \<le> a \<and> hook (aData pg) h L1 (last_addr (h + 1) L) a1 \<and> set L1 \<subseteq> set L \<and>
    (a1 = content (aData pg) h \<and> L1 = [] \<and> last_addr (h + 1) L = h + 1 \<or>
     content (aData pg) h < a1 \<and> spaced (content (aData pg) h + 1) (L1 @ [(a1, e - a1)])) \<and>
    sumlen L + (e - a) + f2 = sumlen L1 + (e - a1) \<and> (\<forall>r\<in>set used. apart r (a1, e - a1)) \<and> f2 < 4"
proof -
  note l = layoutD [OF lay]
  have an: "4 \<le> n" "a + n \<le> U" "content (aData pg) h \<le> a" using l(10) [of a n] by simp_all
  show ?thesis
  proof (cases L rule: rev_cases)
    case Nil
    then have "join_previous pg (last_addr (h + 1) L) a = Inr (Some (a, 0))" by (simp add: join_previous_def h)
    then show ?thesis using Nil an e ap by (intro exI [of _ a] exI [of _ "[]"] exI [of _ 0]) (auto simp: hook_def)
  next
    case (snoc L' f)
    obtain b s where f: "f = (b, s)" by (cases f)
    have m: "(b, s) \<in> set (L @ S)" "(a, n) \<in> set ((a, n) # used)" using snoc f by simp_all
    have bs: "b + s \<le> U" "4 \<le> s" "content (aData pg) h < b" using l(9) [OF m(1)] by simp_all
    have ba: "b + s \<le> a" using l(12) [OF m(2,1)] L snoc f an by auto
    have lk: "linked (aData pg) L' b" "b \<noteq> 0" "g2 (aData pg) (b + 2) = s" "g2 (aData pg) (h + 1) = head L b"
      using l(7,6) snoc f by (simp_all add: linked_append)
    have sp: "spaced (content (aData pg) h + 1) L'" "after (content (aData pg) h + 1) L' \<le> b"
      using l(8) snoc f by (simp_all add: spaced_append)
    have u: "apart r (a, e - a)" "apart r (b, s)" "4 \<le> snd r" if "r \<in> set used" for r
      using that l(10) [of "fst r" "snd r"] ap l(12) [of r "(b, s)"] m(1) by (auto simp del: apart.simps)
    have la: "last_addr (h + 1) L = b" using snoc f by simp
    have get: "get2byte (aData pg) (b + 2) = Inr s"
      using get2byte_ok [of "b + 2" "aData pg"] bs l(4) lk(3) by simp
    have hb: "h + 1 < b" using bs l(1,2) by simp
    show ?thesis
    proof (cases "a \<le> b + s + 3")
      case True
      then have "join_previous pg (last_addr (h + 1) L) a = Inr (Some (b, a - (b + s)))"
        unfolding join_previous_def la h using get hb ba by simp
      moreover have "hook (aData pg) h L' b b" using lk snoc f by (simp add: hook_def)
      moreover have "\<forall>r\<in>set used. apart r (b, e - b)"
      proof
        fix r assume "r \<in> set used"
        from u [OF this] True ba e an show "apart r (b, e - b)" by (cases r) auto
      qed
      moreover have "spaced (content (aData pg) h + 1) (L' @ [(b, e - b)])"
        using sp ba e an by (simp add: spaced_append)
      moreover have "sumlen L + (e - a) + (a - (b + s)) = sumlen L' + (e - b)" using snoc f ba e by simp
      ultimately show ?thesis using bs ba snoc la True
        by (intro exI [of _ b] exI [of _ L'] exI [of _ "a - (b + s)"]) auto
    next
      case False
      then have "join_previous pg (last_addr (h + 1) L) a = Inr (Some (a, 0))"
        unfolding join_previous_def la h using get hb by simp
      moreover have "hook (aData pg) h L b a" using lk snoc f by (simp add: hook_def)
      moreover have "spaced (content (aData pg) h + 1) (L @ [(a, e - a)])"
        using sp bs False e an snoc f by (simp add: spaced_append)
      moreover have "content (aData pg) h < a" using bs ba by simp
      ultimately show ?thesis using ap la
        by (intro exI [of _ a] exI [of _ L] exI [of _ 0]) simp
    qed
  qed
qed

lemma freeSpace_ok:
  assumes lay: "layout (aData pg) h g U fl ((a, n) # used)" and h: "hdrOffset pg = h" and U: "usable pg = U"
  shows "\<exists>d' fl'. freeSpace pg a n = Inr (PageOK, pg\<lparr>aData := d', nFree := nFree pg + int n\<rparr>) \<and>
    layout d' h g U fl' used \<and> outside (aData pg) d' (spare h (content (aData pg) h) U used)"
proof -
  define d where "d = aData pg"
  define t where "t = content d h"
  note l = layoutD [OF lay, folded d_def, folded t_def]
  have an: "4 \<le> n" "t \<le> a" "a + n \<le> U" using l(10) [of a n] by simp_all
  have us: "sorted_wrt apart used" "\<And>r. r \<in> set used \<Longrightarrow> apart r (a, n)" using l(11) apart_sym by auto
  have hlen: "h + 8 < length d" using l(1-4) an by linarith
  have g: "get2byte d (h + 1) = Inr (head fl 0)" using hlen l(6) by simp
  show ?thesis
  proof (cases "fl = []")
    case True
    have "releasable d h g U [] (h + 1) a n [] used"
      unfolding releasable_def t_def [symmetric] using l an us True by (auto simp: hook_def)
    from release_ok [OF this [unfolded d_def] h, of n] show ?thesis
      using g True unfolding freeSpace_def Let_def h d_def by simp
  next
    case False
    have h0: "head fl 0 \<noteq> 0"
    proof (cases fl)
      case (Cons f fl')
      then show ?thesis using l(9) [of "fst f" "snd f"] by (cases f) simp
    qed (use False in simp)
    obtain L S where LS: "fl = L @ S" "\<forall>(b, s)\<in>set L. b < a" "\<forall>(b, s)\<in>set S. a \<le> b"
      using spaced_split [OF l(8), of a] by blast
    have lay': "layout (aData pg) h g U (L @ S) ((a, n) # used)" using lay LS(1) by simp
    have place: "find_place d a (h + 1) = Inr (Some (last_addr (h + 1) L, head S 0))"
    proof (rule find_place_list [where lo = "t + 1"])
      show "\<forall>(b, s)\<in>set L. Suc b < length d" using l(9) l(4) LS(1) by fastforce
    qed (use l LS hlen an in simp_all)
    have hd: "\<not> int (usable pg) - 4 < int (head S 0)"
    proof (cases S)
      case (Cons f S')
      then show ?thesis using l(9) [of "fst f" "snd f"] LS(1) U by (cases f) simp
    qed (use U an in simp)
    obtain e S1 f1 where nx: "join_next pg a (a + n) (head S 0) = Inr (Some (e, head S1 0, f1))"
      "a + n \<le> e" "e \<le> U" "spaced (e + 4) S1" "linked (aData pg) S1 0" "set S1 \<subseteq> set S"
      "sumlen S + n + f1 = sumlen S1 + (e - a)" "\<forall>r\<in>set used. apart r (a, e - a)" "f1 < 4"
      using join_next_ok [OF lay' U LS(3)] by blast
    obtain a1 L1 f2 where pv: "join_previous pg (last_addr (h + 1) L) a = Inr (Some (a1, f2))" "a1 \<le> a"
      "hook (aData pg) h L1 (last_addr (h + 1) L) a1" "set L1 \<subseteq> set L"
      "a1 = t \<and> L1 = [] \<and> last_addr (h + 1) L = h + 1 \<or> t < a1 \<and> spaced (t + 1) (L1 @ [(a1, e - a1)])"
      "sumlen L + (e - a) + f2 = sumlen L1 + (e - a1)" "\<forall>r\<in>set used. apart r (a1, e - a1)" "f2 < 4"
      using join_previous_ok [OF lay' h LS(2) nx(2,3,8)] unfolding d_def t_def by blast
    have fin: "f1 + f2 \<le> unat (d ! (h + 7))"
    proof -
      define R where "R = used @ L1 @ (a1, e - a1) # S1"
      have sp: "spaced t (L1 @ (a1, e - a1) # S1)"
      proof -
        have "spaced t (L1 @ [(a1, e - a1)])"
          using pv(5) nx(2) pv(2) an spaced_mono [of "t + 1" "L1 @ [(a1, e - a1)]" t] by auto
        then show ?thesis using nx(2,4) pv(2) by (simp add: spaced_append)
      qed
      have "\<forall>r\<in>set used. \<forall>f\<in>set (L1 @ (a1, e - a1) # S1). apart r f"
        using pv(4,7) nx(6) l(12) LS(1) by auto
      then have "sorted_wrt apart R" using us(1) spaced_apart [OF sp] unfolding R_def by (auto simp: sorted_wrt_append)
      moreover have "\<forall>(b, s)\<in>set R. t \<le> b \<and> b + s \<le> U"
      proof clarify
        fix b s assume "(b, s) \<in> set R"
        then consider "(b, s) \<in> set used" | "(b, s) \<in> set fl" | "(b, s) = (a1, e - a1)"
          using pv(4) nx(6) LS(1) unfolding R_def by auto
        then show "t \<le> b \<and> b + s \<le> U"
        proof cases
          case 1 then show ?thesis using l(10) [of b s] by simp
        next
          case 2 then show ?thesis using l(9) [of b s] by simp
        next
          case 3 then show ?thesis using pv(5,2) nx(2,3) by auto
        qed
      qed
      ultimately have "t + sumlen R \<le> U" using sumlen_le [of R t U] l(3) by simp
      then show ?thesis using l(14) pv(6) nx(7) LS(1) unfolding R_def by simp
    qed
    define d1 where "d1 = d[h + 7 := d ! (h + 7) - of_nat (f1 + f2)]"
    have fr: "unat (d1 ! (h + 7)) = unat (d ! (h + 7)) - (f1 + f2)"
    proof -
      have "f1 + f2 < 256" using nx(9) pv(8) by simp
      then have e: "unat (of_nat (f1 + f2) :: u8) = f1 + f2" by (simp add: unat_of_nat del: of_nat_add)
      have "d1 ! (h + 7) = d ! (h + 7) - of_nat (f1 + f2)" using hlen by (simp add: d1_def)
      moreover have "of_nat (f1 + f2) \<le> d ! (h + 7)" unfolding word_le_nat_alt e by (rule fin)
      ultimately show ?thesis using e by (simp add: unat_sub del: of_nat_add)
    qed
    have o1: "outside d d1 {h + 7}" unfolding d1_def by (rule outside_upd) simp_all
    have c1: "content d1 h = t" unfolding t_def by (rule content_outside [OF o1]) (use hlen in simp_all)
    have low: "t \<le> b \<and> b + s \<le> U \<and> 4 \<le> s" if "(b, s) \<in> set L1 \<union> set S1" for b s
      using that pv(4) nx(6) LS(1) l(9) [of b s] by auto
    have w: "b + 4 \<le> length d \<and> {b..<b + 4} \<inter> {h + 7} = {}" if "(b, s) \<in> set L1 \<union> set S1" for b s
      using low [OF that] l(1-4) by auto
    have rel: "releasable d1 h g U L1 (last_addr (h + 1) L) a1 (e - a1) S1 used"
      unfolding releasable_def c1
    proof (intro conjI)
      show "hook d1 h L1 (last_addr (h + 1) L) a1"
        by (rule hook_outside [OF pv(3) o1 [unfolded d_def]]) (use hlen w d_def in auto)
      show "linked d1 S1 0"
        by (rule linked_outside [OF nx(5) o1 [unfolded d_def]]) (use w d_def in auto)
      show "a1 = t \<and> L1 = [] \<and> last_addr (h + 1) L = h + 1 \<or> t < a1 \<and> spaced (t + 1) (L1 @ [(a1, e - a1)])"
        by (rule pv(5))
      show "\<forall>(b, s)\<in>set L1 \<union> set S1. b + s \<le> U" using low by blast
      show "\<forall>(b, s)\<in>set used. 4 \<le> s \<and> t \<le> b \<and> b + s \<le> U" using l(10) by auto
      show "\<forall>r\<in>set used. \<forall>f\<in>set (L1 @ (a1, e - a1) # S1). apart r f"
        using pv(4,7) nx(6) l(12) LS(1) by auto
      show "unat (d1 ! (h + 7)) \<le> 60" using fr l(13) by linarith
      show "t + sumlen used + sumlen L1 + (e - a1) + sumlen S1 + unat (d1 ! (h + 7)) = U"
        using fr fin l(14) pv(6) nx(7) LS(1) by simp
      show "spaced (a1 + (e - a1) + 4) S1" using nx(2,4) pv(2) by simp
    qed (use l(1-5) us(1) nx(2,3) pv(2) an o1 in \<open>auto simp: outside_length\<close>)
    have ea: "a1 + (e - a1) = e" using nx(2) pv(2) by simp
    have h1: "hdrOffset (pg\<lparr>aData := d1\<rparr>) = h" using h by simp
    obtain d' fl' where rb: "release_block (pg\<lparr>aData := d1\<rparr>) (last_addr (h + 1) L) a1 e (head S1 0) n =
        Inr (PageOK, pg\<lparr>aData := d', nFree := nFree pg + int n\<rparr>)"
      "layout d' h g U fl' used" "outside d1 d' (spare h t U used)"
      using release_ok [of "pg\<lparr>aData := d1\<rparr>" h g U L1 "last_addr (h + 1) L" a1 "e - a1" S1 used n] rel h c1 ea by auto
    have n7: "nth_res d (h + 7) = Inr (d ! (h + 7))" using hlen by simp
    have u7: "upd_res d (h + 7) (d ! (h + 7) - of_nat (f1 + f2)) = Inr d1" using hlen by (simp add: d1_def)
    have run: "freeSpace pg a n = Inr (PageOK, pg\<lparr>aData := d', nFree := nFree pg + int n\<rparr>)"
      unfolding freeSpace_def Let_def h d_def [symmetric] g bind_res_Inr place
      using h0 hd nx(1) pv(1) n7 u7 fin rb(1) by (simp del: of_nat_add)
    have "outside d d1 (spare h t U used)" by (rule outside_mono [OF o1]) (auto simp: spare_def)
    from outside_trans [OF this rb(3)] rb(2) run show ?thesis unfolding d_def t_def by blast
  qed
qed

section \<open>Allocation from the list\<close>

lemma g2_upd [simp]: "k \<noteq> i \<Longrightarrow> k \<noteq> Suc i \<Longrightarrow> g2 (d[k := x]) i = g2 d i"
  by (simp add: g2_def)

lemma unlink:
  fixes x :: u8
  assumes lk: "g2 d (h + 1) = head (L @ (b, s) # S) 0" "linked d (L @ (b, s) # S) 0"
    and sp: "spaced lo (L @ (b, s) # S)" "h + 8 < lo"
    and len: "\<forall>(c, k)\<in>set (L @ (b, s) # S). c + k \<le> length d" "head S 0 < 65536"
  defines "p \<equiv> last_addr (h + 1) L"
  defines "d' \<equiv> (put2 d p (head S 0))[h + 7 := x]"
  shows "g2 d' (h + 1) = head (L @ S) 0 \<and> linked d' (L @ S) 0 \<and> outside d d' {h + 7, p, Suc p}"
proof -
  have out: "outside d d' {h + 7, p, Suc p}"
    unfolding d'_def by (intro outside_upd outside_put2 outside_refl) simp_all
  have lS: "linked d S 0" "linked d L b" using lk(2) by (simp_all add: linked_append)
  have spL: "spaced lo L" "after lo L \<le> b" "4 \<le> s" "spaced (b + s + 4) S" using sp(1) by (simp_all add: spaced_append)
  have bl: "lo \<le> b" "b + s \<le> length d" using spaced_after [OF spL(1)] spL(2) len(1) by simp_all
  have S: "b + s + 4 \<le> c \<and> 4 \<le> k \<and> c + k \<le> length d" if "(c, k) \<in> set S" for c k
    using spaced_member [OF spL(4) that] len(1) that by auto
  have pb: "p + 2 \<le> b" using spaced_member [OF spL(1)] spL(2) sp(2) bl
    by (cases L rule: rev_cases) (auto simp: p_def last_addr_def)
  have l': "linked d' S 0"
  proof (rule linked_outside [OF lS(1) out], clarify)
    fix c k assume "(c, k) \<in> set S"
    from S [OF this] pb bl(1) sp(2) show "c + 4 \<le> length d \<and> {c..<c + 4} \<inter> {h + 7, p, Suc p} = {}" by auto
  qed
  show ?thesis
  proof (cases L rule: rev_cases)
    case Nil
    have "g2 d' (h + 1) = head S 0" using Nil len(2) bl sp(2) by (simp add: d'_def p_def)
    then show ?thesis using Nil l' out by simp
  next
    case (snoc L' f)
    obtain q k where f: "f = (q, k)" by (cases f)
    have pq: "p = q" using snoc f by (simp add: p_def)
    have q: "lo \<le> q" "4 \<le> k" "q + k \<le> length d" "after lo L' \<le> q" "spaced lo L'"
      using spaced_member [OF spL(1), of q k] len(1) snoc f spL(1) by (auto simp: spaced_append)
    have lq: "linked d L' q" "q \<noteq> 0" "g2 d (q + 2) = k" using lS(2) snoc f by (simp_all add: linked_append)
    have "linked d' L' q"
    proof (rule linked_outside [OF lq(1) out], clarify)
      fix c j assume m: "(c, j) \<in> set L'"
      then have "lo \<le> c" "c + j + 4 \<le> q" "4 \<le> j" using spaced_member [OF q(5) m] q(4) by simp_all
      then show "c + 4 \<le> length d \<and> {c..<c + 4} \<inter> {h + 7, p, Suc p} = {}" using pq q sp(2) by auto
    qed
    moreover have "g2 d' q = head S 0" "g2 d' (q + 2) = k"
      using q lq(3) len(2) sp(2) by (simp_all add: d'_def pq)
    moreover have "g2 d' (h + 1) = head L' q"
      using q lk(1) sp(2) pq bl snoc f by (simp add: d'_def)
    ultimately show ?thesis using l' lq(2) out snoc f by (simp add: linked_append)
  qed
qed

lemma find_slot_ok:
  assumes lay: "layout (aData pg) h g U (L @ S) used" and h: "hdrOffset pg = h" and U: "usable pg = U"
    and n: "4 \<le> n" and S: "S \<noteq> []"
  shows "find_slot pg n (last_addr (h + 1) L) (head S 0) = Inr (None, PageOK, pg) \<or>
    (\<exists>a d' fl'. find_slot pg n (last_addr (h + 1) L) (head S 0) = Inr (Some a, PageOK, pg\<lparr>aData := d'\<rparr>) \<and>
      layout d' h g U fl' ((a, n) # used) \<and> outside (aData pg) d' (spare h (content (aData pg) h) U used) \<and>
      content d' h = content (aData pg) h \<and> content (aData pg) h < a)"
  using lay S
proof (induction S arbitrary: L)
  case (Cons f S)
  obtain b s where f: "f = (b, s)" by (cases f)
  define d where "d = aData pg"
  define t where "t = content d h"
  define p where "p = last_addr (h + 1) L"
  note l = layoutD [OF Cons.prems(1), folded d_def, folded t_def]
  have m: "(b, s) \<in> set (L @ f # S)" using f by simp
  have bs: "b + s \<le> U" "4 \<le> s" "t < b" using l(9) [OF m] by simp_all
  have lk: "linked d S 0" "linked d L b" "g2 d b = head S 0" "g2 d (b + 2) = s" using l(7) f by (simp_all add: linked_append)
  have gets: "get2byte d (b + 2) = Inr s" "get2byte d b = Inr (head S 0)"
    using get2byte_ok [of "b + 2" d] get2byte_ok [of b d] bs l(4) lk by simp_all
  have hlen: "h + 8 < length d" using l(1-4) bs by linarith
  have ends: "\<forall>(c, k)\<in>set (L @ (b, s) # S). c + k \<le> length d" using l(9) l(4) f by fastforce
  have sp: "spaced (t + 1) (L @ (b, s) # S)" using l(8) f by simp
  have hS: "head S 0 < 65536"
  proof (cases S)
    case (Cons f' S')
    then show ?thesis using l(9) [of "fst f'" "snd f'"] l(5) by (cases f') simp
  qed simp
  have apu: "\<And>r c. r \<in> set used \<Longrightarrow> c \<in> set L \<union> set S \<or> c = (b, s) \<Longrightarrow> apart r c" using l(12) f by auto
  have inside: "{b..<b + s} \<subseteq> spare h t U used"
    by (rule free_spare) (use apu apart_sym bs in auto)
  show ?case
  proof (cases "int b \<le> int U - int n")
    case False
    then have "\<not> int U - int n + int n - 4 < int b" using bs by simp
    then show ?thesis using False f U by (simp add: find_slot.simps [of pg n _ b])
  next
    case le: True
    show ?thesis
    proof (cases "n \<le> s")
      case small: False
      show ?thesis
      proof (cases "head S 0 \<le> b")
        case True
        have "head S 0 = 0"
        proof (cases S)
          case (Cons f' S')
          have "b + s + 4 \<le> fst f'" using sp Cons by (cases f') (simp add: spaced_append)
          then show ?thesis using True Cons by (cases f') simp
        qed simp
        then have "find_slot pg n (last_addr (h + 1) L) b = Inr (None, PageOK, pg)"
          using le small gets unfolding find_slot.simps [of pg n "last_addr (h + 1) L" b] Let_def U d_def [symmetric]
          by simp
        then show ?thesis using f by simp
      next
        case False
        have S0: "S \<noteq> []" using False by (cases S) auto
        have step: "find_slot pg n (last_addr (h + 1) L) b = find_slot pg n b (head S 0)"
          using le small False gets unfolding find_slot.simps [of pg n "last_addr (h + 1) L" b] Let_def U d_def [symmetric]
          by simp
        show ?thesis using Cons.IH [of "L @ [f]"] Cons.prems(1) S0 f step by simp
      qed
    next
      case fits: True
      show ?thesis
      proof (cases "s - n < 4")
        case False
        define d' where "d' = put2 d (b + 2) (s - n)"
        have big: "\<not> int U - int n < int (s - n + b)" using bs fits by simp
        have run: "find_slot pg n (last_addr (h + 1) L) b = Inr (Some (b + (s - n)), PageOK, pg\<lparr>aData := d'\<rparr>)"
          using le fits False gets big bs l(4) h
          unfolding find_slot.simps [of pg n "last_addr (h + 1) L" b] Let_def U d_def [symmetric] by (simp add: d'_def add.commute)
        have out: "outside d d' {b + 2, Suc (b + 2)}"
          unfolding d'_def by (intro outside_put2 outside_refl) simp_all
        have ct: "content d' h = t"
          unfolding t_def by (rule content_outside [OF out]) (use hlen l(1,2) bs in simp_all)
        have Lb: "c + k + 4 \<le> b \<and> 4 \<le> k \<and> t < c" if "(c, k) \<in> set L" for c k
          using spaced_member [of "t + 1" L c k] sp that by (simp add: spaced_append)
        have Sb: "b + s + 4 \<le> c \<and> 4 \<le> k \<and> c + k \<le> U" if "(c, k) \<in> set S" for c k
          using spaced_member [of "b + s + 4" S c k] sp that l(9) [of c k] f by (simp add: spaced_append)
        have "layout d' h g U (L @ (b, s - n) # S) ((b + (s - n), n) # used)"
          unfolding layout_def ct
        proof (intro conjI)
          have "g2 d' (h + 1) = g2 d (h + 1)" by (rule outside_g2 [OF out]) (use hlen l(1,2) bs in simp_all)
          then show "g2 d' (h + 1) = head (L @ (b, s - n) # S) 0" using l(6) f by simp
          have "linked d' L b"
            by (rule linked_outside [OF lk(2) out]) (use Lb bs l(4) in \<open>fastforce simp: disjoint_iff\<close>)
          moreover have "linked d' S 0"
            by (rule linked_outside [OF lk(1) out]) (use Sb l(4) in \<open>fastforce simp: disjoint_iff\<close>)
          moreover have "g2 d' b = head S 0" using lk(3) bs l(4) by (simp add: d'_def)
          moreover have "g2 d' (b + 2) = s - n" using bs l(4,5) by (simp add: d'_def)
          ultimately show "linked d' (L @ (b, s - n) # S) 0" using bs by (simp add: linked_append)
          show "spaced (t + 1) (L @ (b, s - n) # S)"
            using sp False fits spaced_mono [of "b + s + 4" S "b + (s - n) + 4"] by (simp add: spaced_append)
          show "\<forall>(b, s)\<in>set (L @ (b, s - n) # S). b + s \<le> U" using l(9) bs f by fastforce
          show "\<forall>(a, n)\<in>set ((b + (s - n), n) # used). 4 \<le> n \<and> t \<le> a \<and> a + n \<le> U"
            using l(10) bs fits n by auto
          show "sorted_wrt apart ((b + (s - n), n) # used)"
          proof -
            have "apart (b + (s - n), n) r" if "r \<in> set used" for r
              using apu [OF that, of "(b, s)"] fits by (cases r) auto
            then show ?thesis using l(11) by simp
          qed
          show "\<forall>r\<in>set ((b + (s - n), n) # used). \<forall>f\<in>set (L @ (b, s - n) # S). apart r f"
          proof (intro ballI)
            fix r c assume r: "r \<in> set ((b + (s - n), n) # used)" and c: "c \<in> set (L @ (b, s - n) # S)"
            obtain c1 c2 r1 r2 where cr: "c = (c1, c2)" "r = (r1, r2)" by (cases c, cases r)
            show "apart r c"
            proof (cases "r \<in> set used")
              case True
              then show ?thesis using c apu [OF True, of c] apu [OF True, of "(b, s)"] cr fits by auto
            next
              case False
              then have "r = (b + (s - n), n)" using r by simp
              then show ?thesis using c cr Lb [of c1 c2] Sb [of c1 c2] fits by auto
            qed
          qed
          have fr: "d' ! (h + 7) = d ! (h + 7)"
            by (rule outside_nth [OF out]) (use hlen l(1,2) bs in auto)
          show "unat (d' ! (h + 7)) \<le> 60" "t + sumlen ((b + (s - n), n) # used) + sumlen (L @ (b, s - n) # S) + unat (d' ! (h + 7)) = U"
            using fr l(13,14) fits f by simp_all
        qed (use l(1-5) outside_length [OF out] in simp_all)
        moreover have "outside d d' (spare h t U used)"
          by (rule outside_mono [OF out]) (use inside bs in auto)
        ultimately show ?thesis using run ct f bs fits unfolding d_def t_def by auto
      next
        case x: True
        show ?thesis
        proof (cases "57 < d ! (h + 7)")
          case True
          then have "find_slot pg n (last_addr (h + 1) L) b = Inr (None, PageOK, pg)"
            using le fits x gets hlen h
            unfolding find_slot.simps [of pg n "last_addr (h + 1) L" b] Let_def U d_def [symmetric] by simp
          then show ?thesis using f by simp
        next
          case False
          define v where "v = d ! (h + 7) + of_nat (s - n)"
          define d' where "d' = (put2 d p (head S 0))[h + 7 := v]"
          have p: "p = h + 1 \<or> t < p \<and> (\<exists>k. (p, k) \<in> set L)"
          proof (cases L rule: rev_cases)
            case (snoc L' q)
            then have "(p, snd q) \<in> set L" by (simp add: p_def last_addr_def)
            then show ?thesis using l(9) [of p "snd q"] by auto
          qed (simp add: p_def)
          have Lb: "c + k + 4 \<le> b \<and> 4 \<le> k \<and> t < c" if "(c, k) \<in> set L" for c k
            using spaced_member [of "t + 1" L c k] sp that by (simp add: spaced_append)
          have plen: "Suc p < length d" using p Lb hlen bs l(4) by fastforce
          have p7: "p \<noteq> h + 7" "Suc p \<noteq> h + 7" "p \<noteq> h + 5" "p \<noteq> h + 6" "Suc p \<noteq> h + 5" using p l(1,2) by auto
          have mv: "move_bytes d p b 2 = Inr (put2 d p (head S 0))"
            using move_two [of p d b] plen bs l(4) lk(3) by simp
          have run: "find_slot pg n p b = Inr (Some b, PageOK, pg\<lparr>aData := d'\<rparr>)"
            using le fits x gets False h hlen mv p7
            unfolding find_slot.simps [of pg n p b] Let_def U d_def [symmetric]
            by (simp add: d'_def v_def nth_put2)
          note un = unlink [OF _ _ sp _ ends hS, of h v, folded p_def, folded d'_def]
          have un': "g2 d' (h + 1) = head (L @ S) 0 \<and> linked d' (L @ S) 0 \<and> outside d d' {h + 7, p, Suc p}"
            by (rule un) (use l(1,2,6,7) f in simp_all)
          have out: "outside d d' {h + 7, p, Suc p}" using un' by simp
          have ct: "content d' h = t"
            unfolding t_def by (rule content_outside [OF out]) (use hlen p7 in auto)
          have v: "unat v = unat (d ! (h + 7)) + (s - n)"
          proof -
            have "unat (of_nat (s - n) :: u8) = s - n" using x by (simp add: unat_of_nat)
            moreover have "unat (d ! (h + 7)) \<le> 57" using False by (simp add: word_less_nat_alt)
            ultimately show ?thesis using x by (simp add: v_def unat_word_ariths)
          qed
          have v': "unat (d' ! (h + 7)) = unat (d ! (h + 7)) + (s - n)" using hlen v by (simp add: d'_def)
          have "layout d' h g U (L @ S) ((b, n) # used)"
            unfolding layout_def ct
          proof (intro conjI)
            show "g2 d' (h + 1) = head (L @ S) 0" "linked d' (L @ S) 0" using un' by simp_all
            show "spaced (t + 1) (L @ S)"
              using sp spaced_mono [of "b + s + 4" S "after (t + 1) L"] by (simp add: spaced_append)
            show "\<forall>(b, s)\<in>set (L @ S). b + s \<le> U" using l(9) f by fastforce
            show "\<forall>(a, n)\<in>set ((b, n) # used). 4 \<le> n \<and> t \<le> a \<and> a + n \<le> U"
              using l(10) bs fits n by auto
            have "apart (b, n) r" if "r \<in> set used" for r
              using apu [OF that, of "(b, s)"] fits by (cases r) auto
            then show "sorted_wrt apart ((b, n) # used)" using l(11) by simp
            show "\<forall>r\<in>set ((b, n) # used). \<forall>f\<in>set (L @ S). apart r f"
            proof (intro ballI)
              fix r c assume r: "r \<in> set ((b, n) # used)" and c: "c \<in> set (L @ S)"
              obtain c1 c2 where c12: "c = (c1, c2)" by (cases c)
              show "apart r c"
              proof (cases "r \<in> set used")
                case True
                then show ?thesis using c apu [OF True, of c] by auto
              next
                case False
                have "(c1, c2) \<in> set S \<Longrightarrow> b + s + 4 \<le> c1"
                  using spaced_member [of "b + s + 4" S c1 c2] sp by (simp add: spaced_append)
                then show ?thesis using r False c c12 Lb [of c1 c2] fits by auto
              qed
            qed
            show "unat (d' ! (h + 7)) \<le> 60" using v' False x by (simp add: word_less_nat_alt)
            show "t + sumlen ((b, n) # used) + sumlen (L @ S) + unat (d' ! (h + 7)) = U"
              using v' l(14) fits f by simp
          qed (use l(1-5) outside_length [OF out] in simp_all)
          moreover have "outside d d' (spare h t U used)"
          proof (rule outside_mono [OF out])
            have "{p, Suc p} \<subseteq> spare h t U used"
            proof (cases "p = h + 1")
              case False
              then obtain k where k: "(p, k) \<in> set L" using p by blast
              have "{p..<p + k} \<subseteq> spare h t U used"
                by (rule free_spare) (use k apu apart_sym Lb [OF k] bs in auto)
              then show ?thesis using Lb [OF k] by auto
            qed (simp add: spare_def)
            then show "{h + 7, p, Suc p} \<subseteq> spare h t U used" by (auto simp: spare_def)
          qed
          ultimately show ?thesis using run ct f bs unfolding d_def t_def p_def by auto
        qed
      qed
    qed
  qed
qed simp

lemma pageFindSlot_ok:
  assumes lay: "layout (aData pg) h g U fl used" and h: "hdrOffset pg = h" and U: "usable pg = U"
    and n: "4 \<le> n" and fl: "fl \<noteq> []"
  shows "pageFindSlot pg n = Inr (None, PageOK, pg) \<or>
    (\<exists>a d' fl'. pageFindSlot pg n = Inr (Some a, PageOK, pg\<lparr>aData := d'\<rparr>) \<and>
      layout d' h g U fl' ((a, n) # used) \<and> outside (aData pg) d' (spare h (content (aData pg) h) U used) \<and>
      content d' h = content (aData pg) h \<and> content (aData pg) h < a)"
proof -
  have "Suc (h + 1) < length (aData pg)" using layoutD(1-4) [OF lay] by simp
  then have e: "pageFindSlot pg n = find_slot pg n (h + 1) (head fl 0)"
    using h layoutD(6) [OF lay] by (simp add: pageFindSlot_def)
  show ?thesis unfolding e using find_slot_ok [of pg h g U "[]" fl used n] assms by simp
qed

lemma take_from_gap_ok:
  assumes lay: "layout (aData pg) h g U fl used" and h: "hdrOffset pg = h"
    and n: "4 \<le> n" "g + n \<le> content (aData pg) h"
  shows "\<exists>d'. take_from_gap pg n (content (aData pg) h) = Inr (PageOK, content (aData pg) h - n, pg\<lparr>aData := d'\<rparr>) \<and>
      layout d' h g U fl ((content (aData pg) h - n, n) # used) \<and> outside (aData pg) d' {h + 5, h + 6} \<and>
      content d' h = content (aData pg) h - n"
proof -
  define d where "d = aData pg"
  define t where "t = content d h"
  note l = layoutD [OF lay, folded d_def, folded t_def]
  define d' where "d' = put2 d (h + 5) (t - n)"
  have tn: "g + n \<le> t" using n(2) by (simp add: t_def d_def)
  have hlen: "h + 8 < length d" using l(1-4) tn n(1) by linarith
  have run: "take_from_gap pg n t = Inr (PageOK, t - n, pg\<lparr>aData := d'\<rparr>)"
    using tn hlen h by (simp add: take_from_gap_def Let_def d_def [symmetric] d'_def)
  have out: "outside d d' {h + 5, h + 6}"
    unfolding d'_def by (intro outside_put2 outside_refl) simp_all
  have ct: "content d' h = t - n"
    unfolding d'_def by (rule content_put) (use hlen tn l(1,3,5) in simp_all)
  have "layout d' h g U fl ((t - n, n) # used)"
    unfolding layout_def ct
  proof (intro conjI)
    have "g2 d' (h + 1) = g2 d (h + 1)" by (rule outside_g2 [OF out]) (use hlen in simp_all)
    then show "g2 d' (h + 1) = head fl 0" using l(6) by simp
    show "linked d' fl 0"
    proof (rule linked_outside [OF l(7) out], clarify)
      fix b s assume "(b, s) \<in> set fl"
      from l(9) [OF this] l(1-4) show "b + 4 \<le> length d \<and> {b..<b + 4} \<inter> {h + 5, h + 6} = {}" by auto
    qed
    show "spaced (t - n + 1) fl" by (rule spaced_mono [OF l(8)]) simp
    show "\<forall>(b, s)\<in>set fl. b + s \<le> U" using l(9) by auto
    have "4 \<le> k \<and> t - n \<le> a \<and> a + k \<le> U" if "(a, k) \<in> set ((t - n, n) # used)" for a k
      using that l(10) [of a k] l(3) tn n(1) by auto
    then show "\<forall>(a, k)\<in>set ((t - n, n) # used). 4 \<le> k \<and> t - n \<le> a \<and> a + k \<le> U" by blast
    have "apart (t - n, n) r" if "r \<in> set used" for r
      using l(10) [of "fst r" "snd r"] that tn by (cases r) auto
    then show "sorted_wrt apart ((t - n, n) # used)" using l(11) by simp
    show "\<forall>r\<in>set ((t - n, n) # used). \<forall>f\<in>set fl. apart r f"
    proof (intro ballI)
      fix r f assume "r \<in> set ((t - n, n) # used)" "f \<in> set fl"
      then show "apart r f" using l(12) [of r f] l(9) [of "fst f" "snd f"] tn by (cases f) auto
    qed
    have fr: "d' ! (h + 7) = d ! (h + 7)" by (rule outside_nth [OF out]) (use hlen in simp_all)
    show "unat (d' ! (h + 7)) \<le> 60" "t - n + sumlen ((t - n, n) # used) + sumlen fl + unat (d' ! (h + 7)) = U"
      using fr l(13,14) tn by simp_all
  qed (use l(1-5) tn outside_length [OF out] in simp_all)
  then show ?thesis using run out ct unfolding d_def t_def by blast
qed

end
