(* ===== verification/SqliteBtRefine.thy ===== *)
theory SqliteBtRefine
  imports SqliteBtSpace
begin

text \<open>
  A b-tree page is a list of cells.  \<open>page_holds\<close> relates the bytes of a page to the cells
  and the free blocks in it; the operations of btree.c keep it and act on the list of cells as
  insertion and removal, defragmentation included.
\<close>

unbundle bit_operations_syntax

section \<open>The contents of a page\<close>

type_synonym placed = "(nat \<times> u8 list) list"

definition cell_fits :: "mem_page \<Rightarrow> u8 list \<Rightarrow> bool" where
  "cell_fits pg c \<longleftrightarrow> 4 \<le> length c \<and> cellSize pg c = Inr (length c)"

definition regions :: "placed \<Rightarrow> (nat \<times> nat) list" where
  "regions cs = map (\<lambda>(a, c). (a, length c)) cs"

text \<open>The pointers at \<open>o\<close> lead to the cells.\<close>

definition points :: "u8 list \<Rightarrow> nat \<Rightarrow> nat list \<Rightarrow> bool" where
  "points d q as \<longleftrightarrow> (\<forall>i<length as. g2 d (q + 2 * i) = as ! i)"

definition stored_at :: "u8 list \<Rightarrow> placed \<Rightarrow> bool" where
  "stored_at d cs \<longleftrightarrow> (\<forall>(a, c)\<in>set cs. bytes d a (length c) = c)"

definition gap_of :: "mem_page \<Rightarrow> nat" where
  "gap_of pg = cellOffset pg + 2 * nCell pg"

text \<open>The flags byte is the one the page was read with.\<close>

definition flags_ok :: "mem_page \<Rightarrow> bool" where
  "flags_ok pg \<longleftrightarrow> decodeFlags pg (unat (aData pg ! hdrOffset pg)) = (PageOK, pg)"

definition page_holds :: "mem_page \<Rightarrow> placed \<Rightarrow> (nat \<times> nat) list \<Rightarrow> bool" where
  "page_holds pg cs fl \<longleftrightarrow>
     flags_ok pg \<and> hdrOffset pg \<in> {0, 100} \<and> cellOffset pg = hdrOffset pg + 8 + childPtrSize pg \<and>
     480 \<le> usable pg \<and> usable pg \<le> bt_pageSize (pBt pg) \<and>
     nCell pg = length cs \<and> g2 (aData pg) (hdrOffset pg + 3) = length cs \<and>
     layout (aData pg) (hdrOffset pg) (gap_of pg) (usable pg) fl (regions cs) \<and>
     points (aData pg) (cellOffset pg) (map fst cs) \<and> stored_at (aData pg) cs \<and>
     (\<forall>(a, c)\<in>set cs. cell_fits pg c) \<and>
     nFree pg = int (usable pg) - int (gap_of pg) - int (sumlen (regions cs))"

definition page_stores :: "mem_page \<Rightarrow> u8 list list \<Rightarrow> bool" where
  "page_stores pg xs \<longleftrightarrow> (\<exists>cs fl. page_holds pg cs fl \<and> map snd cs = xs)"

lemma regions_simps [simp]:
  "regions [] = []" "regions ((a, c) # cs) = (a, length c) # regions cs" "regions (cs @ cs') = regions cs @ regions cs'"
  "length (regions cs) = length cs"
  by (simp_all add: regions_def)

lemma sumlen_regions: "sumlen (regions cs) = sum_list (map (length \<circ> snd) cs)"
  by (induction cs) auto

lemma in_regions: "(a, c) \<in> set cs \<Longrightarrow> (a, length c) \<in> set (regions cs)"
  by (force simp: regions_def)

lemma in_regionsE: "(a, n) \<in> set (regions cs) \<Longrightarrow> (\<And>c. (a, c) \<in> set cs \<Longrightarrow> n = length c \<Longrightarrow> P) \<Longrightarrow> P"
  by (auto simp: regions_def)

lemma points_outside:
  assumes "points d q as" "outside d d' W" "q + 2 * length as \<le> length d" "{q..<q + 2 * length as} \<inter> W = {}"
  shows "points d' q as"
  unfolding points_def
proof (intro allI impI)
  fix i assume i: "i < length as"
  have "g2 d' (q + 2 * i) = g2 d (q + 2 * i)"
    by (rule outside_g2 [OF assms(2)]) (use assms(3,4) i in \<open>auto simp: disjoint_iff\<close>)
  then show "g2 d' (q + 2 * i) = as ! i" using assms(1) i by (simp add: points_def)
qed

lemma stored_outside:
  assumes "stored_at d cs" "outside d d' W" "\<forall>(a, n)\<in>set (regions cs). a + n \<le> length d \<and> {a..<a + n} \<inter> W = {}"
  shows "stored_at d' cs"
  unfolding stored_at_def
proof clarify
  fix a c assume m: "(a, c) \<in> set cs"
  have "bytes d' a (length c) = bytes d a (length c)"
    by (rule outside_bytes [OF assms(2)]) (use assms(3) in_regions [OF m] in auto)
  then show "bytes d' a (length c) = c" using assms(1) m by (auto simp: stored_at_def)
qed

lemma cell_fits_fields:
  "xCellSize pg' = xCellSize pg \<Longrightarrow> minLocal pg' = minLocal pg \<Longrightarrow> maxLocal pg' = maxLocal pg \<Longrightarrow>
   usable pg' = usable pg \<Longrightarrow> cellSize pg' c = cellSize pg c"
proof -
  assume a: "xCellSize pg' = xCellSize pg" "minLocal pg' = minLocal pg" "maxLocal pg' = maxLocal pg" "usable pg' = usable pg"
  then have "spilled_size pg' = spilled_size pg" by (intro ext) (simp add: spilled_size_def)
  then show ?thesis using a
    by (cases "xCellSize pg") (simp_all add: cellSize_def cellSize_index_interior_def cellSize_index_leaf_def
      cellSize_table_leaf_def cellSize_table_interior_def cong: if_cong)
qed

lemma cellSize_upd [simp]:
  "cellSize (pg\<lparr>aData := d\<rparr>) c = cellSize pg c" "cellSize (pg\<lparr>nFree := f\<rparr>) c = cellSize pg c"
  "cellSize (pg\<lparr>nCell := n\<rparr>) c = cellSize pg c" "cellSize (pg\<lparr>overflow := v\<rparr>) c = cellSize pg c"
  by (rule cell_fits_fields; simp)+

lemma cell_fits_upd [simp]:
  "cell_fits (pg\<lparr>aData := d\<rparr>) c = cell_fits pg c" "cell_fits (pg\<lparr>nFree := f\<rparr>) c = cell_fits pg c"
  "cell_fits (pg\<lparr>nCell := n\<rparr>) c = cell_fits pg c" "cell_fits (pg\<lparr>overflow := v\<rparr>) c = cell_fits pg c"
  by (simp_all add: cell_fits_def)

lemma decode_upd:
  "decodeFlags (pg\<lparr>aData := d\<rparr>) k = (case decodeFlags pg k of (rc, p) \<Rightarrow> (rc, p\<lparr>aData := d\<rparr>))"
  "decodeFlags (pg\<lparr>nFree := f\<rparr>) k = (case decodeFlags pg k of (rc, p) \<Rightarrow> (rc, p\<lparr>nFree := f\<rparr>))"
  "decodeFlags (pg\<lparr>nCell := n\<rparr>) k = (case decodeFlags pg k of (rc, p) \<Rightarrow> (rc, p\<lparr>nCell := n\<rparr>))"
  "decodeFlags (pg\<lparr>overflow := v\<rparr>) k = (case decodeFlags pg k of (rc, p) \<Rightarrow> (rc, p\<lparr>overflow := v\<rparr>))"
  by (simp_all add: decodeFlags_def Let_def)

lemma flags_ok_upd:
  "flags_ok pg \<Longrightarrow> d ! hdrOffset pg = aData pg ! hdrOffset pg \<Longrightarrow> flags_ok (pg\<lparr>aData := d\<rparr>)"
  "flags_ok pg \<Longrightarrow> flags_ok (pg\<lparr>nFree := f\<rparr>)" "flags_ok pg \<Longrightarrow> flags_ok (pg\<lparr>nCell := n\<rparr>)"
  "flags_ok pg \<Longrightarrow> flags_ok (pg\<lparr>overflow := v\<rparr>)"
  by (simp_all add: flags_ok_def decode_upd)

section \<open>Defragmentation\<close>

subsection \<open>The end: one gap\<close>

lemma defragment_out_ok:
  assumes h: "hdrOffset pg = h" and g: "gap_of pg = g" and U: "usable pg = U"
    and geo: "h + 8 \<le> g" "g \<le> c" "c \<le> U" "U \<le> length d" "U \<le> 65536" "0 < c"
    and fr: "int (unat (d ! (h + 7))) + int c - int g = nFree pg" "unat (d ! (h + 7)) \<le> 60"
    and used: "\<forall>(a, n)\<in>set used. 4 \<le> n \<and> c \<le> a \<and> a + n \<le> U" "sorted_wrt apart used"
      "c + sumlen used + unat (d ! (h + 7)) = U"
  shows "\<exists>d'. defragment_out pg (int c) d = Inr (PageOK, pg\<lparr>aData := d'\<rparr>) \<and> layout d' h g U [] used \<and>
    outside d d' ({h + 1, h + 2, h + 5, h + 6} \<union> {g..<c}) \<and> content d' h = c"
proof -
  define d1 where "d1 = put2 d (h + 5) c"
  define d2 where "d2 = d1[h + 1 := 0, h + 2 := 0]"
  define d' where "d' = blit d2 g (replicate (c - g) 0)"
  define W where "W = {h + 1, h + 2, h + 5, h + 6} \<union> {g..<c}"
  have hlen: "h + 7 < length d" using geo used by linarith
  have z: "zero_bytes d2 g (int c - int g) = Inr d'"
  proof -
    have "nat (int c - int g) = c - g" using geo(2) by simp
    then show ?thesis using geo by (simp add: zero_bytes_def d'_def d2_def d1_def)
  qed
  have run: "defragment_out pg (int c) d = Inr (PageOK, pg\<lparr>aData := d'\<rparr>)"
  proof -
    have "length d1 = length d" by (simp add: d1_def)
    then show ?thesis using hlen fr(1) z unfolding defragment_out_def Let_def h gap_of_def [symmetric] g
      by (simp add: d1_def [symmetric] d2_def)
  qed
  have out: "outside d d' W"
  proof -
    have o1: "outside d d1 W" unfolding d1_def by (intro outside_put2 outside_refl) (simp_all add: W_def)
    have o2: "outside d d2 W" unfolding d2_def by (intro outside_upd o1) (simp_all add: W_def)
    show ?thesis unfolding d'_def
      by (rule outside_blit [OF o2]) (use geo in \<open>auto simp: W_def d2_def d1_def\<close>)
  qed
  have g5: "g2 d' (h + 5) = g2 d1 (h + 5)"
  proof -
    have "Suc (h + 5) < length d" using hlen by simp
    then show ?thesis using geo by (simp add: g2_def d'_def d2_def d1_def nth_blit)
  qed
  have ct: "content d' h = c"
  proof -
    have "content d1 h = c" unfolding d1_def by (rule content_put) (use hlen geo in simp_all)
    then show ?thesis using g5 by (simp add: content_def split: if_splits)
  qed
  have h1: "g2 d' (h + 1) = 0" using geo hlen by (simp add: g2_def d'_def d2_def d1_def nth_blit)
  have f7: "d' ! (h + 7) = d ! (h + 7)"
    by (rule outside_nth [OF out hlen]) (use geo in \<open>simp add: W_def\<close>)
  have "layout d' h g U [] used"
    unfolding layout_def ct using geo h1 used fr(2) f7 outside_length [OF out] by simp
  then show ?thesis using run out ct unfolding W_def by blast
qed

subsection \<open>The slow path: the cells are packed at the end\<close>

fun packed :: "nat \<Rightarrow> u8 list list \<Rightarrow> placed" where
  "packed e [] = []"
| "packed e (c # cs) = (e - length c, c) # packed (e - length c) cs"

lemma packed_length [simp]: "length (packed e cs) = length cs" "map snd (packed e cs) = cs"
  by (induction e cs rule: packed.induct) auto

lemma packed_sum [simp]: "sumlen (regions (packed e cs)) = sum_list (map length cs)"
  by (induction e cs rule: packed.induct) auto

lemma packed_bounds:
  "(a, n) \<in> set (regions (packed e cs)) \<Longrightarrow> lo + sum_list (map length cs) \<le> e \<Longrightarrow>
   e - sum_list (map length cs) \<le> a \<and> a + n \<le> e"
proof (induction e cs arbitrary: rule: packed.induct)
  case (2 e c cs)
  from "2.prems"(1) consider "a = e - length c" "n = length c" | "(a, n) \<in> set (regions (packed (e - length c) cs))"
    by auto
  then show ?case
  proof cases
    case 2
    have "lo + sum_list (map length cs) \<le> e - length c" using \<open>lo + _ \<le> e\<close> by simp
    from "2.IH" [OF 2 this] show ?thesis by auto
  qed (use "2.prems"(2) in auto)
qed simp

lemma packed_apart: "lo + sum_list (map length cs) \<le> e \<Longrightarrow> sorted_wrt apart (regions (packed e cs))"
proof (induction e cs rule: packed.induct)
  case (2 e c cs)
  have l: "lo + sum_list (map length cs) \<le> e - length c" using "2.prems" by simp
  have "apart (e - length c, length c) r" if "r \<in> set (regions (packed (e - length c) cs))" for r
    using packed_bounds [of "fst r" "snd r" "e - length c" cs, OF _ l] that by (cases r) auto
  then show ?case using "2.IH" [OF l] by simp
qed simp

lemma drop_bytes: "a + n \<le> length d \<Longrightarrow> bytes d a n = c \<Longrightarrow> drop a d = c @ drop (a + n) d"
  by (metis append_take_drop_id bytes_def drop_drop add.commute)

lemma bytes_blit_same: "i + length bs \<le> length d \<Longrightarrow> bytes (blit d i bs) i (length bs) = bs"
  by (rule nth_equalityI) (simp_all add: nth_bytes nth_blit)

lemma pack_cells_ok:
  assumes "hdrOffset pg = h" "cellOffset pg = q" "usable pg = U"
    and "\<forall>(a, c)\<in>set cs. a + length c \<le> U \<and> bytes src a (length c) = c \<and> cell_fits pg c" "U \<le> length src"
    and "\<forall>k<length cs. g2 d (q + 2 * (i + k)) = fst (cs ! k)" "q + 2 * (i + length cs) \<le> t"
    and "t + sumlen (regions cs) \<le> e" "e \<le> length d" "U \<le> 65536" "e \<le> U"
  shows "\<exists>d'. pack_cells (length cs) i pg src t (int e) d =
      Inr (PageOK, int (e - sumlen (regions cs)), d') \<and>
    outside d d' ({q + 2 * i..<q + 2 * (i + length cs)} \<union> {e - sumlen (regions cs)..<e}) \<and>
    (\<forall>k<length cs. g2 d' (q + 2 * (i + k)) = fst (packed e (map snd cs) ! k)) \<and>
    stored_at d' (packed e (map snd cs))"
  using assms(4-)
proof (induction cs arbitrary: i d e)
  case Nil
  then show ?case by (simp add: stored_at_def)
next
  case (Cons f cs)
  obtain a c where f: "f = (a, c)" by (cases f)
  define n where "n = length c"
  define Z where "Z = sumlen (regions cs)"
  have c: "a + n \<le> U" "bytes src a n = c" "cellSize pg c = Inr n" "4 \<le> n"
    using Cons.prems(1) f by (auto simp: n_def cell_fits_def)
  have sz: "cellSize pg (drop a src) = Inr n"
    using cellSize_append [OF c(3)] drop_bytes [of a n src c] c(1,2) Cons.prems(2) by simp
  have ptr: "g2 d (q + 2 * i) = a" using Cons.prems(3) f by (auto dest: spec [of _ 0])
  have e: "t + n + Z \<le> e" using Cons.prems(5) f by (simp add: n_def Z_def)
  have qt: "q + 2 * i + 2 \<le> t" "q + 2 * (Suc i + length cs) \<le> t" using Cons.prems(4) by simp_all
  define d1 where "d1 = put2 d (q + 2 * i) (e - n)"
  define d2 where "d2 = blit d1 (e - n) c"
  define W where "W = {q + 2 * i..<q + 2 * (i + length (f # cs))} \<union> {e - (n + Z)..<e}"
  have l1: "length d1 = length d" by (simp add: d1_def)
  have l2: "length d2 = length d" using e Cons.prems(6) l1 n_def by (simp add: d2_def)
  have o2: "outside d d2 ({q + 2 * i, Suc (q + 2 * i)} \<union> {e - n..<e})"
    unfolding d2_def
  proof (rule outside_blit)
    show "outside d d1 ({q + 2 * i, Suc (q + 2 * i)} \<union> {e - n..<e})"
      unfolding d1_def by (intro outside_put2 outside_refl) simp_all
  qed (use e Cons.prems(6) l1 n_def in auto)
  have "\<exists>d'. pack_cells (length cs) (Suc i) pg src t (int (e - n)) d2 = Inr (PageOK, int (e - n - Z), d') \<and>
    outside d2 d' ({q + 2 * Suc i..<q + 2 * (Suc i + length cs)} \<union> {e - n - Z..<e - n}) \<and>
    (\<forall>k<length cs. g2 d' (q + 2 * (Suc i + k)) = fst (packed (e - n) (map snd cs) ! k)) \<and>
    stored_at d' (packed (e - n) (map snd cs))"
    unfolding Z_def
  proof (rule Cons.IH)
    show "\<forall>k<length cs. g2 d2 (q + 2 * (Suc i + k)) = fst (cs ! k)"
    proof (intro allI impI)
      fix k assume k: "k < length cs"
      have "g2 d2 (q + 2 * (Suc i + k)) = g2 d (q + 2 * (Suc i + k))"
        by (rule outside_g2 [OF o2]) (use k qt e Cons.prems(6) in auto)
      also have "\<dots> = fst (cs ! k)" using Cons.prems(3) k by (auto dest: spec [of _ "Suc k"])
      finally show "g2 d2 (q + 2 * (Suc i + k)) = fst (cs ! k)" .
    qed
    show "t + sumlen (regions cs) \<le> e - n" using e by (simp add: Z_def)
  qed (use Cons.prems qt l2 in auto)
  then obtain d' where d': "pack_cells (length cs) (Suc i) pg src t (int (e - n)) d2 = Inr (PageOK, int (e - n - Z), d')"
    "outside d2 d' ({q + 2 * Suc i..<q + 2 * (Suc i + length cs)} \<union> {e - n - Z..<e - n})"
    "\<forall>k<length cs. g2 d' (q + 2 * (Suc i + k)) = fst (packed (e - n) (map snd cs) ! k)"
    "stored_at d' (packed (e - n) (map snd cs))" by blast
  have run: "pack_cells (length (f # cs)) i pg src t (int e) d = Inr (PageOK, int (e - n - Z), d')"
  proof -
    have g: "get2byte d (q + i * 2) = Inr a" using ptr qt e Cons.prems(6) by (simp add: mult.commute)
    have a4: "\<not> int U - 4 < int a" using c(1,4) by simp
    have cb: "int e - int n = int (e - n)" "\<not> int (e - n) < int t" "\<not> U < a + n" "nat (int (e - n)) = e - n" using e c(1) by simp_all
    have p: "put2byte d (q + i * 2) (e - n) = Inr d1"
      using qt e Cons.prems(6) by (simp add: d1_def mult.commute)
    have r: "read_bytes src a n = Inr c" using c(1,2) Cons.prems(2) by simp
    have w: "put_bytes d1 (e - n) c = Inr d2" using e Cons.prems(6) l1 n_def by (simp add: d2_def)
    show ?thesis
      unfolding list.size add_0_right add_Suc_right pack_cells.simps assms(2,3) Let_def g bind_res_Inr sz cb(1)
      using a4 cb(2-4) p r w d'(1) by (simp del: of_nat_diff)
  qed
  have g0: "g2 d' (q + 2 * i) = e - n"
  proof -
    have "g2 d' (q + 2 * i) = g2 d2 (q + 2 * i)"
      by (rule outside_g2 [OF d'(2)]) (use qt e Cons.prems(6) l2 in auto)
    also have "\<dots> = g2 d1 (q + 2 * i)"
    proof -
      have "outside d1 d2 {e - n..<e}" unfolding d2_def
        by (rule outside_blit [OF outside_refl]) (use e Cons.prems(6) l1 n_def in auto)
      then show ?thesis by (rule outside_g2) (use qt e Cons.prems(6) l1 in auto)
    qed
    also have "\<dots> = (e - n) mod 65536" unfolding d1_def by (rule g2_put2_same) (use qt e Cons.prems(6) in simp)
    also have "\<dots> = e - n" using c(4) Cons.prems(7,8) by simp
    finally show ?thesis .
  qed
  have st: "bytes d' (e - n) n = c"
  proof -
    have "bytes d' (e - n) n = bytes d2 (e - n) n"
      by (rule outside_bytes [OF d'(2)]) (use qt e Cons.prems(6) l2 in auto)
    also have "\<dots> = c" unfolding d2_def n_def
      by (rule bytes_blit_same) (use e Cons.prems(6) l1 n_def in simp)
    finally show ?thesis .
  qed
  have out: "outside d d' W"
    by (rule outside_trans [OF outside_mono [OF o2] outside_mono [OF d'(2)]])
      (use e in \<open>auto simp: W_def\<close>)
  show ?case
  proof (intro exI conjI)
    show "pack_cells (length (f # cs)) i pg src t (int e) d =
        Inr (PageOK, int (e - sumlen (regions (f # cs))), d')"
      using run f by (simp add: n_def Z_def)
    show "outside d d' ({q + 2 * i..<q + 2 * (i + length (f # cs))} \<union> {e - sumlen (regions (f # cs))..<e})"
      using out f by (simp add: W_def n_def Z_def)
    show "\<forall>k<length (f # cs). g2 d' (q + 2 * (i + k)) = fst (packed e (map snd (f # cs)) ! k)"
    proof (intro allI impI)
      fix k assume k: "k < length (f # cs)"
      show "g2 d' (q + 2 * (i + k)) = fst (packed e (map snd (f # cs)) ! k)"
      proof (cases k)
        case 0
        then show ?thesis using g0 f by (simp add: n_def)
      next
        case (Suc k')
        then show ?thesis using d'(3) k f by (auto simp: n_def dest: spec [of _ k'])
      qed
    qed
    show "stored_at d' (packed e (map snd (f # cs)))"
      using d'(4) st f by (simp add: stored_at_def n_def)
  qed
qed

lemma page_holdsD:
  assumes "page_holds pg cs fl"
  shows "flags_ok pg" "hdrOffset pg \<in> {0, 100}" "cellOffset pg = hdrOffset pg + 8 + childPtrSize pg"
    "480 \<le> usable pg" "usable pg \<le> bt_pageSize (pBt pg)" "nCell pg = length cs"
    "g2 (aData pg) (hdrOffset pg + 3) = length cs"
    "layout (aData pg) (hdrOffset pg) (gap_of pg) (usable pg) fl (regions cs)"
    "points (aData pg) (cellOffset pg) (map fst cs)" "stored_at (aData pg) cs"
    "(a, c) \<in> set cs \<Longrightarrow> cell_fits pg c"
    "nFree pg = int (usable pg) - int (gap_of pg) - int (sumlen (regions cs))"
    "gap_of pg = cellOffset pg + 2 * length cs"
  using assms unfolding page_holds_def gap_of_def by auto

text \<open>The same page with other bytes, when the cells have moved.\<close>

lemma page_moved:
  assumes hold: "page_holds pg cs fl" and same: "map snd cs' = map snd cs"
    and out: "outside (aData pg) d' W" "hdrOffset pg \<notin> W" "hdrOffset pg + 3 \<notin> W" "hdrOffset pg + 4 \<notin> W"
    and lay: "layout d' (hdrOffset pg) (gap_of pg) (usable pg) fl' (regions cs')"
    and pts: "points d' (cellOffset pg) (map fst cs')" "stored_at d' cs'"
  shows "page_holds (pg\<lparr>aData := d'\<rparr>) cs' fl'"
proof -
  note p = page_holdsD [OF hold]
  have len: "length cs' = length cs" using same map_eq_imp_length_eq by blast
  have hl: "hdrOffset pg + 8 < length (aData pg)" using layoutD(1-4) [OF p(8)] p(4,13,3) p(2)
    by auto
  have e: "Suc (hdrOffset pg + 3) = hdrOffset pg + 4" by simp
  have "g2 d' (hdrOffset pg + 3) = g2 (aData pg) (hdrOffset pg + 3)"
    by (rule outside_g2 [OF out(1) _ out(3)]) (unfold e, use hl out(4) in simp_all)
  moreover have "d' ! hdrOffset pg = aData pg ! hdrOffset pg" by (rule outside_nth [OF out(1) _ out(2)]) (use hl in simp)
  moreover have "sumlen (regions cs') = sumlen (regions cs)"
  proof -
    have "map (length \<circ> snd) cs' = map (length \<circ> snd) cs" using arg_cong [OF same, of "map length"] by simp
    then show ?thesis by (simp add: sumlen_regions)
  qed
  moreover have "cell_fits pg c" if "(a, c) \<in> set cs'" for a c
  proof -
    have "c \<in> set (map snd cs)" using same [symmetric] that by force
    then show ?thesis using p(11) by auto
  qed
  ultimately show ?thesis
    using p len lay pts flags_ok_upd(1) [OF p(1)] unfolding page_holds_def gap_of_def by auto
qed

lemma pack_page_ok:
  assumes hold: "page_holds pg cs fl" and gap: "gap_of pg \<le> usable pg"
  shows "\<exists>d' cs'. pack_page pg temp = Inr (PageOK, pg\<lparr>aData := d'\<rparr>) \<and> map snd cs' = map snd cs \<and>
    page_holds (pg\<lparr>aData := d'\<rparr>) cs' [] \<and> d' ! (hdrOffset pg + 7) = 0"
proof -
  define d where "d = aData pg"
  define h where "h = hdrOffset pg"
  define q where "q = cellOffset pg"
  define U where "U = usable pg"
  define g where "g = gap_of pg"
  define t where "t = content d h"
  define Z where "Z = sumlen (regions cs)"
  define new where "new = packed U (map snd cs)"
  note p = page_holdsD [OF hold, folded d_def h_def q_def U_def g_def]
  note l = layoutD [OF p(8), folded t_def]
  have Zm: "sum_list (map length (map snd cs)) = Z" by (simp add: Z_def sumlen_regions)
  have hlen: "h + 8 < length d" using l(1,4) gap p(3,4) p(2) by (auto simp: U_def)
  have tZ: "t + Z \<le> U" "g \<le> U - Z" using l(14,2,3) by (simp_all add: Z_def)
  have apt: "sorted_wrt apart (regions new)" unfolding new_def using packed_apart [of t "map snd cs" U] Zm tZ by simp
  have bounds: "U - Z \<le> a \<and> a + n \<le> U \<and> 4 \<le> n" if m: "(a, n) \<in> set (regions new)" for a n
  proof -
    obtain c where c: "(a, c) \<in> set new" "n = length c" using m by (rule in_regionsE)
    have "c \<in> set (map snd new)" using c(1) by force
    then have "c \<in> set (map snd cs)" unfolding new_def packed_length(2) .
    then have "4 \<le> n" using p(11) c(2) by (auto simp: cell_fits_def)
    then show ?thesis using packed_bounds [of a n U "map snd cs" t] m Zm tZ unfolding new_def by simp
  qed
  have get: "get2byte d (h + 5) = Inr (g2 d (h + 5))" using hlen by simp
  obtain d1 where d1: "(if 0 < nCell pg
      then bind_res (read_bytes d 0 U) (\<lambda>bs. pack_cells (nCell pg) 0 pg (bs @ drop U temp) (g2 d (h + 5)) (int U) d)
      else Inr (PageOK, int U, d)) = Inr (PageOK, int (U - Z), d1)"
    "outside d d1 ({q..<q + 2 * length cs} \<union> {U - Z..<U})" "points d1 q (map fst new)" "stored_at d1 new"
  proof (cases "cs = []")
    case True
    then show thesis using that [of d] p(6) by (simp add: new_def points_def stored_at_def Z_def)
  next
    case False
    then have "0 < length (regions cs)" by simp
    then obtain a n where an: "(a, n) \<in> set (regions cs)" by (cases "regions cs") auto
    then have "t < 65536" using l(10) [OF an] l(5) by simp
    then have g5: "g2 d (h + 5) = t" by (simp add: t_def content_def split: if_splits)
    define src where "src = bytes d 0 U @ drop U temp"
    have rd: "read_bytes d 0 U = Inr (bytes d 0 U)" using l(4) by simp
    have lb: "length (bytes d 0 U) = U" using l(4) by simp
    have "\<exists>d'. pack_cells (length cs) 0 pg src t (int U) d = Inr (PageOK, int (U - sumlen (regions cs)), d') \<and>
      outside d d' ({q + 2 * 0..<q + 2 * (0 + length cs)} \<union> {U - sumlen (regions cs)..<U}) \<and>
      (\<forall>k<length cs. g2 d' (q + 2 * (0 + k)) = fst (packed U (map snd cs) ! k)) \<and>
      stored_at d' (packed U (map snd cs))"
    proof (rule pack_cells_ok)
      show "hdrOffset pg = h" "cellOffset pg = q" "usable pg = U" by (simp_all add: h_def q_def U_def)
      show "\<forall>(a, c)\<in>set cs. a + length c \<le> U \<and> bytes src a (length c) = c \<and> cell_fits pg c"
      proof clarify
        fix a c assume m: "(a, c) \<in> set cs"
        have b: "a + length c \<le> U" using l(10) [OF in_regions [OF m]] by simp
        have "bytes src a (length c) = bytes d a (length c)"
          using b l(4) by (intro nth_equalityI) (simp_all add: src_def nth_bytes nth_append)
        then show "a + length c \<le> U \<and> bytes src a (length c) = c \<and> cell_fits pg c"
          using b p(10) m p(11) [OF m] by (auto simp: stored_at_def)
      qed
      show "U \<le> length src" using lb by (simp add: src_def)
      show "\<forall>k<length cs. g2 d (q + 2 * (0 + k)) = fst (cs ! k)" using p(9) by (simp add: points_def)
      show "q + 2 * (0 + length cs) \<le> t" using l(2) p(13) by simp
      show "t + sumlen (regions cs) \<le> U" using tZ by (simp add: Z_def)
    qed (use l(4,5) in simp_all)
    then obtain d' where r: "pack_cells (length cs) 0 pg src t (int U) d = Inr (PageOK, int (U - Z), d')"
      "outside d d' ({q..<q + 2 * length cs} \<union> {U - Z..<U})"
      "\<forall>k<length cs. g2 d' (q + 2 * k) = fst (packed U (map snd cs) ! k)" "stored_at d' (packed U (map snd cs))"
      by (auto simp: Z_def)
    show thesis
    proof (rule that [OF _ r(2) _ r(4) [folded new_def]])
      show "points d' q (map fst new)" using r(3) by (simp add: points_def new_def)
      show "(if 0 < nCell pg
        then bind_res (read_bytes d 0 U) (\<lambda>bs. pack_cells (nCell pg) 0 pg (bs @ drop U temp) (g2 d (h + 5)) (int U) d)
        else Inr (PageOK, int U, d)) = Inr (PageOK, int (U - Z), d')"
        using False r(1) rd g5 p(6) by (simp add: src_def)
    qed
  qed
  have qg: "q + 2 * length cs = g" using p(13) by simp
  define d2 where "d2 = d1[h + 7 := 0]"
  have len1: "length d1 = length d" by (rule outside_length [OF d1(2)])
  have hq: "h + 8 \<le> q" using p(3) by simp
  have Zeq: "nFree pg = int U - int g - int Z" using p(12) by (simp add: Z_def)
  have "\<exists>d'. defragment_out pg (int (U - Z)) d2 = Inr (PageOK, pg\<lparr>aData := d'\<rparr>) \<and> layout d' h g U [] (regions new) \<and>
    outside d2 d' ({h + 1, h + 2, h + 5, h + 6} \<union> {g..<U - Z}) \<and> content d' h = U - Z"
  proof (rule defragment_out_ok)
    show "hdrOffset pg = h" "gap_of pg = g" "usable pg = U" by (simp_all add: h_def g_def U_def)
    have z: "d2 ! (h + 7) = 0" using hlen len1 by (simp add: d2_def)
    show "int (unat (d2 ! (h + 7))) + int (U - Z) - int g = nFree pg" using z Zeq tZ by simp
    show "unat (d2 ! (h + 7)) \<le> 60" using z by simp
    show "\<forall>(a, n)\<in>set (regions new). 4 \<le> n \<and> U - Z \<le> a \<and> a + n \<le> U" using bounds by auto
    show "U - Z + sumlen (regions new) + unat (d2 ! (h + 7)) = U" using z Zm tZ by (simp add: new_def)
  qed (use l(1,4,5) tZ apt len1 hq qg in \<open>simp_all add: d2_def\<close>)
  then obtain d' where d': "defragment_out pg (int (U - Z)) d2 = Inr (PageOK, pg\<lparr>aData := d'\<rparr>)"
    "layout d' h g U [] (regions new)" "outside d2 d' ({h + 1, h + 2, h + 5, h + 6} \<union> {g..<U - Z})" by blast
  have o2: "outside d1 d2 {h + 7}" unfolding d2_def by (rule outside_upd [OF outside_refl]) simp
  define W where "W = {h + 1, h + 2} \<union> {h + 5..<h + 8} \<union> {q..<U}"
  have out: "outside d d' W"
    by (rule outside_trans [OF outside_trans [OF outside_mono [OF d1(2)] outside_mono [OF o2]] outside_mono [OF d'(3)]])
      (use qg tZ in \<open>auto simp: W_def\<close>)
  have o12: "outside d1 d' ({h + 1, h + 2} \<union> {h + 5..<h + 8} \<union> {g..<U - Z})"
    by (rule outside_trans [OF outside_mono [OF o2] outside_mono [OF d'(3)]]) auto
  have hold': "page_holds (pg\<lparr>aData := d'\<rparr>) new []"
  proof (rule page_moved [OF hold])
    show "map snd new = map snd cs" by (simp add: new_def)
    show "outside (aData pg) d' W" using out by (simp add: d_def)
    show "hdrOffset pg \<notin> W" "hdrOffset pg + 3 \<notin> W" "hdrOffset pg + 4 \<notin> W"
      using hq unfolding h_def [symmetric] by (simp_all add: W_def)
    show "layout d' (hdrOffset pg) (gap_of pg) (usable pg) [] (regions new)"
      using d'(2) by (simp add: h_def g_def U_def)
    have "points d' q (map fst new)"
      by (rule points_outside [OF d1(3) o12]) (use hq qg tZ l(4) len1 in \<open>auto simp: new_def\<close>)
    then show "points d' (cellOffset pg) (map fst new)" by (simp add: q_def)
    show "stored_at d' new"
    proof (rule stored_outside [OF d1(4) o12], clarify)
      fix a n assume "(a, n) \<in> set (regions new)"
      from bounds [OF this] show "a + n \<le> length d1 \<and> {a..<a + n} \<inter> ({h + 1, h + 2} \<union> {h + 5..<h + 8} \<union> {g..<U - Z}) = {}"
        using l(4) len1 tZ l(1) by auto
    qed
  qed
  have fr: "d' ! (h + 7) = 0"
  proof -
    have "d' ! (h + 7) = d2 ! (h + 7)"
      by (rule outside_nth [OF d'(3)]) (use hlen len1 l(1) in \<open>simp_all add: d2_def\<close>)
    then show ?thesis using hlen len1 by (simp add: d2_def)
  qed
  have "pack_page pg temp = Inr (PageOK, pg\<lparr>aData := d'\<rparr>)"
    unfolding pack_page_def Let_def d_def [symmetric] h_def [symmetric] U_def [symmetric] get bind_res_Inr d1(1)
    using d'(1) hlen len1 by (simp add: d2_def del: of_nat_diff)
  then show ?thesis using hold' fr packed_length(2) [of U "map snd cs"] unfolding h_def new_def by blast
qed

subsection \<open>The fast path: two blocks of cells slide\<close>

definition slid :: "nat \<Rightarrow> nat \<Rightarrow> nat \<Rightarrow> nat \<Rightarrow> nat \<Rightarrow> nat" where
  "slid b sz b2 sz2 a = (if a < b then a + sz else if a < b2 then a + sz2 else a)"

lemma shift_pointers_ok:
  assumes "points d q as" "q + 2 * length as \<le> length d" "\<forall>a\<in>set as. slid b sz b2 sz2 a < 65536"
  shows "\<exists>d'. shift_pointers (length as) q b sz b2 sz2 d = Inr d' \<and>
    points d' q (map (slid b sz b2 sz2) as) \<and> outside d d' {q..<q + 2 * length as}"
  using assms
proof (induction as arbitrary: q d)
  case Nil
  then show ?case by (simp add: points_def)
next
  case (Cons a as)
  have ptr: "g2 d q = a" using Cons.prems(1) by (auto simp: points_def dest: spec [of _ 0])
  have get: "get2byte d q = Inr a" using ptr Cons.prems(2) by simp
  define d1 where "d1 = (if slid b sz b2 sz2 a = a then d else put2 d q (slid b sz b2 sz2 a))"
  have put: "\<exists>d1. (if a < b then put2byte d q (a + sz) else if a < b2 then put2byte d q (a + sz2) else Inr d) = Inr d1 \<and>
      g2 d1 q = slid b sz b2 sz2 a \<and> outside d d1 {q, Suc q}"
  proof -
    have v: "slid b sz b2 sz2 a < 65536" using Cons.prems(3) by simp
    have o: "outside d (put2 d q x) {q, Suc q}" for x by (intro outside_put2 outside_refl) simp_all
    show ?thesis using v o Cons.prems(2) ptr by (auto simp: slid_def)
  qed
  then obtain d1 where d1: "(if a < b then put2byte d q (a + sz) else if a < b2 then put2byte d q (a + sz2) else Inr d) = Inr d1"
      "g2 d1 q = slid b sz b2 sz2 a" "outside d d1 {q, Suc q}" by blast
  have l1: "length d1 = length d" by (rule outside_length [OF d1(3)])
  have "\<exists>d'. shift_pointers (length as) (q + 2) b sz b2 sz2 d1 = Inr d' \<and>
    points d' (q + 2) (map (slid b sz b2 sz2) as) \<and> outside d1 d' {q + 2..<q + 2 + 2 * length as}"
  proof (rule Cons.IH)
    have "points d (q + 2) as"
      using Cons.prems(1) unfolding points_def by (auto dest: spec [of _ "Suc k" for k])
    then show "points d1 (q + 2) as"
      by (rule points_outside [OF _ d1(3)]) (use Cons.prems(2) in auto)
  qed (use Cons.prems l1 in auto)
  then obtain d' where d': "shift_pointers (length as) (q + 2) b sz b2 sz2 d1 = Inr d'"
    "points d' (q + 2) (map (slid b sz b2 sz2) as)" "outside d1 d' {q + 2..<q + 2 + 2 * length as}" by blast
  have "g2 d' q = slid b sz b2 sz2 a"
    using outside_g2 [OF d'(3), of q] d1(2) l1 Cons.prems(2) by simp
  then have "points d' q (map (slid b sz b2 sz2) (a # as))"
    using d'(2) unfolding points_def by (auto simp: nth_Cons split: nat.splits)
  moreover have "outside d d' {q..<q + 2 * length (a # as)}"
    by (rule outside_trans [OF outside_mono [OF d1(3)] outside_mono [OF d'(3)]]) auto
  moreover have "shift_pointers (length (a # as)) q b sz b2 sz2 d = Inr d'"
    using get d1(1) d'(1) by simp
  ultimately show ?case by blast
qed

lemma bytes_blit_move:
  assumes "i + n \<le> length d" "j + n \<le> length d" "i \<le> a" "a + m \<le> i + n"
  shows "bytes (blit d j (bytes d i n)) (a + j - i) m = bytes d a m"
proof (rule nth_equalityI)
  show "length (bytes (blit d j (bytes d i n)) (a + j - i) m) = length (bytes d a m)" using assms by simp
  fix k assume "k < length (bytes (blit d j (bytes d i n)) (a + j - i) m)"
  then have k: "k < m" using assms by simp
  have e: "a + j - i + k = j + (a - i + k)" "a - i + k < n" using assms k by simp_all
  have "blit d j (bytes d i n) ! (a + j - i + k) = bytes d i n ! (a - i + k)"
    unfolding e(1) using assms(1,2) e(2) by (simp add: nth_blit)
  also have "\<dots> = d ! (a + k)" using assms k by (simp add: nth_bytes)
  finally show "bytes (blit d j (bytes d i n)) (a + j - i) m ! k = bytes d a m ! k"
    using assms k by (simp add: nth_bytes)
qed

lemma slide_common:
  assumes hold: "page_holds pg cs fl"
  defines "h \<equiv> hdrOffset pg" and "q \<equiv> cellOffset pg" and "U \<equiv> usable pg" and "g \<equiv> gap_of pg"
    and "d \<equiv> aData pg" and "t \<equiv> content (aData pg) (hdrOffset pg)"
  assumes geo: "t < b" "b + s \<le> b2" "b2 + s2 \<le> U" "sumlen fl = s + s2"
    and tri: "\<forall>(a, n)\<in>set (regions cs). a + n \<le> b \<or> b + s \<le> a \<and> a + n \<le> b2 \<or> b2 + s2 \<le> a"
    and z: "z = b2 \<or> z = 0 \<and> s2 = 0"
  defines "d1 \<equiv> blit d (b + s + s2) (bytes d (b + s) (b2 - (b + s)))"
  shows "\<exists>d' cs'. bind_res (move_bytes d1 (t + (s + s2)) t (b - t)) (\<lambda>d.
      bind_res (shift_pointers (nCell pg) q b (s + s2) z s2 d) (defragment_out pg (int (t + (s + s2))))) =
      Inr (PageOK, pg\<lparr>aData := d'\<rparr>) \<and> map snd cs' = map snd cs \<and>
    page_holds (pg\<lparr>aData := d'\<rparr>) cs' [] \<and> d' ! (h + 7) = d ! (h + 7)"
proof -
  define sz where "sz = s + s2"
  define \<phi> where "\<phi> = slid b sz b2 s2"
  define new where "new = map (\<lambda>(a, c). (\<phi> a, c)) cs"
  note p = page_holdsD [OF hold, folded d_def h_def q_def U_def g_def]
  note l = layoutD [OF p(8), folded t_def [folded d_def h_def]]
  have td: "t = content d h" by (simp add: t_def d_def h_def)
  note l = layoutD [OF p(8), folded td]
  have hlen: "h + 8 < length d" using l(1-4) geo by linarith
  have qg: "q + 2 * length cs = g" "h + 8 \<le> q" using p(13,3) by simp_all
  have phi: "slid b sz z s2 = \<phi>" using z by (auto simp: \<phi>_def slid_def)
  have tri': "a + n \<le> b \<and> \<phi> a = a + sz \<or> b + s \<le> a \<and> a + n \<le> b2 \<and> \<phi> a = a + s2 \<or> b2 + s2 \<le> a \<and> \<phi> a = a"
    "t \<le> a" "a + n \<le> U" "4 \<le> n" if m: "(a, n) \<in> set (regions cs)" for a n
  proof -
    show x: "t \<le> a" "a + n \<le> U" "4 \<le> n" using l(10) [OF m] by simp_all
    from tri m have "a + n \<le> b \<or> b + s \<le> a \<and> a + n \<le> b2 \<or> b2 + s2 \<le> a" by auto
    then show "a + n \<le> b \<and> \<phi> a = a + sz \<or> b + s \<le> a \<and> a + n \<le> b2 \<and> \<phi> a = a + s2 \<or> b2 + s2 \<le> a \<and> \<phi> a = a"
      using geo(2) x(3) by (auto simp: \<phi>_def slid_def)
  qed
  have len1: "length d1 = length d" using geo l(4) by (simp add: d1_def)
  have o1: "outside d d1 {b + s + s2..<b2 + s2}"
    unfolding d1_def by (rule outside_blit [OF outside_refl]) (use geo l(4) in auto)
  define d2 where "d2 = blit d1 (t + sz) (bytes d1 t (b - t))"
  have len2: "length d2 = length d" using geo l(4) len1 by (simp add: d2_def sz_def)
  have o2: "outside d1 d2 {t + sz..<b + sz}"
    unfolding d2_def by (rule outside_blit [OF outside_refl]) (use geo l(4) len1 in \<open>auto simp: sz_def\<close>)
  have mv: "move_bytes d1 (t + sz) t (b - t) = Inr d2"
    using geo l(4) len1 by (simp add: move_bytes_def d2_def sz_def)
  have kept: "bytes d2 (\<phi> a) n = bytes d a n" if m: "(a, n) \<in> set (regions cs)" for a n
    using tri'(1) [OF m]
  proof (elim disjE conjE)
    assume c: "a + n \<le> b" "\<phi> a = a + sz"
    have "bytes d2 (a + (t + sz) - t) n = bytes d1 a n" unfolding d2_def
      by (rule bytes_blit_move) (use geo l(4) len1 c tri'(2) [OF m] in \<open>simp_all add: sz_def\<close>)
    also have "\<dots> = bytes d a n" by (rule outside_bytes [OF o1]) (use c geo l(4) in auto)
    finally show ?thesis using c by simp
  next
    assume c: "b + s \<le> a" "a + n \<le> b2" "\<phi> a = a + s2"
    have "bytes d2 (a + s2) n = bytes d1 (a + s2) n"
      by (rule outside_bytes [OF o2]) (use c geo l(4) len1 in \<open>auto simp: sz_def\<close>)
    also have "a + s2 = a + (b + s + s2) - (b + s)" using c by simp
    also have "bytes d1 \<dots> n = bytes d a n" unfolding d1_def
      by (rule bytes_blit_move) (use geo l(4) c in simp_all)
    finally show ?thesis using c by simp
  next
    assume c: "b2 + s2 \<le> a" "\<phi> a = a"
    have "bytes d2 a n = bytes d1 a n"
      by (rule outside_bytes [OF o2]) (use c geo l(4) len1 tri'(3) [OF m] in \<open>auto simp: sz_def\<close>)
    also have "\<dots> = bytes d a n" by (rule outside_bytes [OF o1]) (use c geo l(4) tri'(3) [OF m] in auto)
    finally show ?thesis using c by simp
  qed
  have tg: "g \<le> t" by (rule l(2))
  have "\<exists>d'. shift_pointers (length (map fst cs)) q b sz z s2 d2 = Inr d' \<and>
    points d' q (map (slid b sz z s2) (map fst cs)) \<and> outside d2 d' {q..<q + 2 * length (map fst cs)}"
  proof (rule shift_pointers_ok)
    show "points d2 q (map fst cs)"
      by (rule points_outside [OF p(9) outside_trans [OF outside_mono [OF o1] outside_mono [OF o2]], of "{t..<U}"])
        (use geo l(4) tg qg in \<open>auto simp: sz_def\<close>)
    show "q + 2 * length (map fst cs) \<le> length d2" using len2 qg tg geo l(4) by simp
    show "\<forall>a\<in>set (map fst cs). slid b sz z s2 a < 65536"
    proof
      fix a assume "a \<in> set (map fst cs)"
      then obtain c where "(a, c) \<in> set cs" by auto
      then have m: "(a, length c) \<in> set (regions cs)" by (rule in_regions)
      show "slid b sz z s2 a < 65536"
        using tri' [OF m] geo l(5) unfolding phi by (auto simp: sz_def)
    qed
  qed
  then obtain d3 where d3: "shift_pointers (nCell pg) q b sz z s2 d2 = Inr d3" "points d3 q (map fst new)"
    "outside d2 d3 {q..<g}"
    using p(6) qg(1) by (auto simp: phi new_def comp_def split_def)
  have len3: "length d3 = length d" using outside_length [OF d3(3)] len2 by simp
  have regs: "regions new = map (\<lambda>(a, n). (\<phi> a, n)) (regions cs)" by (auto simp: regions_def new_def)
  have sum: "sumlen (regions new) = sumlen (regions cs)" by (simp add: sumlen_regions new_def comp_def split_def)
  have bounds: "4 \<le> n \<and> t + sz \<le> a \<and> a + n \<le> U" if m: "(a, n) \<in> set (regions new)" for a n
  proof -
    obtain a0 where a0: "(a0, n) \<in> set (regions cs)" "a = \<phi> a0" using m unfolding regs by auto
    from tri' [OF a0(1)] geo show ?thesis unfolding a0(2) by (auto simp: sz_def)
  qed
  have apt: "sorted_wrt apart (regions new)"
    unfolding regs sorted_wrt_map
  proof (rule sorted_wrt_mono_rel [OF _ l(11)])
    fix x y assume xy: "x \<in> set (regions cs)" "y \<in> set (regions cs)" "apart x y"
    obtain a n c m where e: "x = (a, n)" "y = (c, m)" by (cases x, cases y)
    from tri' [of a n] tri' [of c m] xy e geo
    show "apart ((\<lambda>(a, n). (\<phi> a, n)) x) ((\<lambda>(a, n). (\<phi> a, n)) y)" by (auto simp: sz_def)
  qed
  have fr3: "d3 ! (h + 7) = d ! (h + 7)"
  proof -
    have "d3 ! (h + 7) = d2 ! (h + 7)" by (rule outside_nth [OF d3(3)]) (use hlen len2 qg(2) in simp_all)
    also have "\<dots> = d1 ! (h + 7)" by (rule outside_nth [OF o2]) (use hlen len1 l(1,2) in simp_all)
    also have "\<dots> = d ! (h + 7)" by (rule outside_nth [OF o1]) (use hlen l(1,2) geo in simp_all)
    finally show ?thesis .
  qed
  have "\<exists>d'. defragment_out pg (int (t + sz)) d3 = Inr (PageOK, pg\<lparr>aData := d'\<rparr>) \<and> layout d' h g U [] (regions new) \<and>
    outside d3 d' ({h + 1, h + 2, h + 5, h + 6} \<union> {g..<t + sz}) \<and> content d' h = t + sz"
  proof (rule defragment_out_ok)
    show "hdrOffset pg = h" "gap_of pg = g" "usable pg = U" by (simp_all add: h_def g_def U_def)
    have tot: "t + sumlen (regions cs) + sz + unat (d ! (h + 7)) = U" using l(14) geo(4) by (simp add: sz_def)
    then show "t + sz + sumlen (regions new) + unat (d3 ! (h + 7)) = U" using fr3 sum by simp
    show "int (unat (d3 ! (h + 7))) + int (t + sz) - int g = nFree pg" unfolding fr3 using tot p(12) by linarith
    show "unat (d3 ! (h + 7)) \<le> 60" using fr3 l(13) by simp
    show "\<forall>(a, n)\<in>set (regions new). 4 \<le> n \<and> t + sz \<le> a \<and> a + n \<le> U" using bounds by auto
  qed (use l(1,4,5) tg geo apt len3 in \<open>simp_all add: sz_def\<close>)
  then obtain d' where d': "defragment_out pg (int (t + sz)) d3 = Inr (PageOK, pg\<lparr>aData := d'\<rparr>)"
    "layout d' h g U [] (regions new)" "outside d3 d' ({h + 1, h + 2, h + 5, h + 6} \<union> {g..<t + sz})" by blast
  define W where "W = {h + 1, h + 2, h + 5, h + 6} \<union> {q..<U}"
  have o3: "outside d d3 ({q..<U})"
    by (rule outside_trans [OF outside_trans [OF outside_mono [OF o1] outside_mono [OF o2]] outside_mono [OF d3(3)]])
      (use qg tg geo in \<open>auto simp: sz_def\<close>)
  have out: "outside d d' W"
    by (rule outside_trans [OF outside_mono [OF o3] outside_mono [OF d'(3)]]) (use qg geo in \<open>auto simp: W_def sz_def\<close>)
  have "page_holds (pg\<lparr>aData := d'\<rparr>) new []"
  proof (rule page_moved [OF hold])
    show "map snd new = map snd cs" by (simp add: new_def comp_def split_def)
    show "outside (aData pg) d' W" using out by (simp add: d_def)
    show "hdrOffset pg \<notin> W" "hdrOffset pg + 3 \<notin> W" "hdrOffset pg + 4 \<notin> W"
      using qg(2) unfolding h_def [symmetric] by (simp_all add: W_def)
    show "layout d' (hdrOffset pg) (gap_of pg) (usable pg) [] (regions new)"
      using d'(2) by (simp add: h_def g_def U_def)
    have "points d' q (map fst new)"
      by (rule points_outside [OF d3(2) d'(3)]) (use qg tg geo l(4) len3 in \<open>auto simp: new_def\<close>)
    then show "points d' (cellOffset pg) (map fst new)" by (simp add: q_def)
    show "stored_at d' new"
      unfolding stored_at_def
    proof clarify
      fix a c assume m: "(a, c) \<in> set new"
      then obtain a0 where a0: "(a0, c) \<in> set cs" "a = \<phi> a0" unfolding new_def by auto
      note b = bounds [OF in_regions [OF m]]
      have "bytes d' a (length c) = bytes d3 a (length c)"
        by (rule outside_bytes [OF d'(3)]) (use b l(1,4) len3 tg in auto)
      also have "\<dots> = bytes d2 a (length c)"
        by (rule outside_bytes [OF d3(3)]) (use b l(4) len2 tg in auto)
      also have "\<dots> = c" using kept [OF in_regions [OF a0(1)]] a0 p(10) by (auto simp: stored_at_def)
      finally show "bytes d' a (length c) = c" .
    qed
  qed
  moreover have "d' ! (h + 7) = d ! (h + 7)"
    using outside_nth [OF d'(3), of "h + 7"] fr3 hlen len3 l(1) by simp
  moreover have "map snd new = map snd cs" by (simp add: new_def comp_def split_def)
  moreover have "bind_res (move_bytes d1 (t + (s + s2)) t (b - t)) (\<lambda>d.
      bind_res (shift_pointers (nCell pg) q b (s + s2) z s2 d) (defragment_out pg (int (t + (s + s2))))) =
      Inr (PageOK, pg\<lparr>aData := d'\<rparr>)"
    using mv d3(1) d'(1) by (simp add: sz_def [symmetric])
  ultimately show ?thesis by blast
qed

lemma slide_cells_ok:
  assumes hold: "page_holds pg cs fl" and fl: "fl = [(b, s)] \<and> z = 0 \<or> (\<exists>s2. fl = [(b, s), (z, s2)])"
  shows "\<exists>d' cs'. slide_cells pg b z = Inr (PageOK, pg\<lparr>aData := d'\<rparr>) \<and> map snd cs' = map snd cs \<and>
    page_holds (pg\<lparr>aData := d'\<rparr>) cs' [] \<and> d' ! (hdrOffset pg + 7) = aData pg ! (hdrOffset pg + 7)"
proof -
  define d where "d = aData pg"
  define h where "h = hdrOffset pg"
  define U where "U = usable pg"
  define t where "t = content d h"
  note p = page_holdsD [OF hold, folded d_def h_def U_def]
  note l = layoutD [OF p(8), folded t_def]
  have b: "b + s \<le> U" "4 \<le> s" "t < b" using l(9) [of b s] fl by auto
  have hlen: "h + 8 < length d" using l(1-4) b by linarith
  have lk: "g2 d (b + 2) = s" using l(7) fl by auto
  have g1: "get2byte d (b + 2) = Inr s" using get2byte_ok [of "b + 2" d] b l(4) lk by simp
  have t5: "g2 d (h + 5) = t" using b l(5) by (simp add: t_def content_def split: if_splits)
  have g5: "get2byte d (h + 5) = Inr t" using hlen t5 by simp
  have ap: "apart r f" if "r \<in> set (regions cs)" "f \<in> set fl" for r f using l(12) that by simp
  have four: "4 \<le> n" if "(a, n) \<in> set (regions cs)" for a n using l(10) [OF that] by simp
  from fl show ?thesis
  proof (elim disjE exE conjE)
    assume one: "fl = [(b, s)]" "z = 0"
    have d1: "blit d (b + s + 0) (bytes d (b + s) (b + s - (b + s))) = d" by (simp add: blit_def bytes_def)
    have tri: "\<forall>(a, n)\<in>set (regions cs). a + n \<le> b \<or> b + s \<le> a \<and> a + n \<le> b + s \<or> b + s + 0 \<le> a"
    proof
      fix r assume "r \<in> set (regions cs)"
      from ap [OF this, of "(b, s)"] one
      show "case r of (a, n) \<Rightarrow> a + n \<le> b \<or> b + s \<le> a \<and> a + n \<le> b + s \<or> b + s + 0 \<le> a" by (cases r) auto
    qed
    have "\<exists>d' cs'. bind_res (move_bytes d (t + (s + 0)) t (b - t)) (\<lambda>d.
      bind_res (shift_pointers (nCell pg) (cellOffset pg) b (s + 0) 0 0 d) (defragment_out pg (int (t + (s + 0))))) =
      Inr (PageOK, pg\<lparr>aData := d'\<rparr>) \<and> map snd cs' = map snd cs \<and>
      page_holds (pg\<lparr>aData := d'\<rparr>) cs' [] \<and> d' ! (h + 7) = d ! (h + 7)"
      using slide_common [OF hold, of b s "b + s" 0 0, folded d_def h_def U_def, folded t_def] b one tri d1 by simp
    then show ?thesis
      using one g1 g5 b unfolding slide_cells_def Let_def d_def [symmetric] h_def [symmetric] U_def [symmetric] by simp
  next
    fix s2 assume two: "fl = [(b, s), (z, s2)]"
    have z: "z + s2 \<le> U" "4 \<le> s2" "b + s + 4 \<le> z" using l(9) [of z s2] l(8) two by simp_all
    have g2z: "get2byte d (z + 2) = Inr s2" using get2byte_ok [of "z + 2" d] z l(4,7) two by simp
    have tri: "\<forall>(a, n)\<in>set (regions cs). a + n \<le> b \<or> b + s \<le> a \<and> a + n \<le> z \<or> z + s2 \<le> a"
    proof
      fix r assume "r \<in> set (regions cs)"
      from ap [OF this, of "(b, s)"] ap [OF this, of "(z, s2)"] two
      show "case r of (a, n) \<Rightarrow> a + n \<le> b \<or> b + s \<le> a \<and> a + n \<le> z \<or> z + s2 \<le> a" by (cases r) auto
    qed
    define d1 where "d1 = blit d (b + s + s2) (bytes d (b + s) (z - (b + s)))"
    have mv: "move_bytes d (b + s + s2) (b + s) (z - (b + s)) = Inr d1"
      using z l(4) by (simp add: move_bytes_def d1_def)
    have "\<exists>d' cs'. bind_res (move_bytes d1 (t + (s + s2)) t (b - t)) (\<lambda>d.
      bind_res (shift_pointers (nCell pg) (cellOffset pg) b (s + s2) z s2 d) (defragment_out pg (int (t + (s + s2))))) =
      Inr (PageOK, pg\<lparr>aData := d'\<rparr>) \<and> map snd cs' = map snd cs \<and>
      page_holds (pg\<lparr>aData := d'\<rparr>) cs' [] \<and> d' ! (h + 7) = d ! (h + 7)"
      using slide_common [OF hold, of b s z s2 z, folded d_def h_def U_def, folded t_def d1_def] b z two tri by simp
    then show ?thesis
      using g1 g5 g2z mv b z unfolding slide_cells_def Let_def d_def [symmetric] h_def [symmetric] U_def [symmetric] by simp
  qed
qed

lemma defragmentPage_ok:
  assumes hold: "page_holds pg cs fl"
  shows "\<exists>d' cs'. defragmentPage pg m temp = Inr (PageOK, pg\<lparr>aData := d'\<rparr>) \<and> map snd cs' = map snd cs \<and>
    page_holds (pg\<lparr>aData := d'\<rparr>) cs' [] \<and>
    (d' ! (hdrOffset pg + 7) = 0 \<or> int (unat (d' ! (hdrOffset pg + 7))) \<le> m)"
proof -
  define d where "d = aData pg"
  define h where "h = hdrOffset pg"
  note p = page_holdsD [OF hold, folded d_def h_def]
  note l = layoutD [OF p(8)]
  have "gap_of pg \<le> usable pg" using l(2,3) by simp
  note pk = pack_page_ok [OF hold this, of temp]
  have pk': ?thesis if "defragmentPage pg m temp = pack_page pg temp" using pk that by metis
  have hlen: "h + 8 \<le> length d" using l(1-4) by linarith
  have n7: "nth_res d (h + 7) = Inr (d ! (h + 7))" using hlen by simp
  have gh: "get2byte d (h + 1) = Inr (head fl 0)" using hlen l(6) by simp
  show ?thesis
  proof (cases "int (unat (d ! (h + 7))) \<le> m")
    case False
    then show ?thesis using n7 by (intro pk') (simp add: defragmentPage_def Let_def d_def h_def)
  next
    case frag: True
    show ?thesis
    proof (cases fl)
      case Nil
      then show ?thesis using n7 gh p(4) by (intro pk') (simp add: defragmentPage_def Let_def d_def h_def)
    next
      case (Cons f fl')
      obtain b s where f: "f = (b, s)" by (cases f)
      have b: "b + s \<le> usable pg" "4 \<le> s" "b \<noteq> 0" using l(9) [of b s] l(7) Cons f by simp_all
      have gb: "get2byte d b = Inr (head fl' 0)"
        using get2byte_ok [of b d] b l(4) l(7) Cons f by simp
      show ?thesis
      proof (cases fl')
        case Nil
        have "defragmentPage pg m temp = slide_cells pg b 0"
          using n7 gh gb frag b Cons f Nil by (simp add: defragmentPage_def Let_def d_def h_def)
        moreover have "fl = [(b, s)] \<and> 0 = (0 :: nat) \<or> (\<exists>s2. fl = [(b, s), (0, s2)])" using Cons f Nil by simp
        ultimately show ?thesis using slide_cells_ok [OF hold, of b s 0] frag unfolding d_def h_def by metis
      next
        case snd: (Cons f2 fl'')
        obtain b2 s2 where f2: "f2 = (b2, s2)" by (cases f2)
        have b2: "b2 + s2 \<le> usable pg" "4 \<le> s2" "b2 \<noteq> 0" using l(9) [of b2 s2] l(7) Cons f snd f2 by simp_all
        have gb2: "get2byte d b2 = Inr (head fl'' 0)"
          using get2byte_ok [of b2 d] b2 l(4) l(7) Cons f snd f2 by simp
        show ?thesis
        proof (cases "fl'' = []")
          case True
          have "defragmentPage pg m temp = slide_cells pg b b2"
            using n7 gh gb gb2 frag b b2 Cons f snd f2 True by (simp add: defragmentPage_def Let_def d_def h_def)
          moreover have "fl = [(b, s)] \<and> b2 = (0 :: nat) \<or> (\<exists>s2. fl = [(b, s), (b2, s2)])" using Cons f snd f2 True by simp
          ultimately show ?thesis using slide_cells_ok [OF hold, of b s b2] frag unfolding d_def h_def by metis
        next
          case False
          then obtain b3 s3 r where f3: "fl'' = (b3, s3) # r" by (cases fl'') auto
          have "b3 \<noteq> 0" using l(7) Cons f snd f2 f3 by simp
          then show ?thesis using n7 gh gb gb2 frag b b2 Cons f snd f2 f3
            by (intro pk') (simp add: defragmentPage_def Let_def d_def h_def)
        qed
      qed
    qed
  qed
qed

section \<open>Allocation\<close>

text \<open>The space for a cell of \<open>n\<close> bytes has been found at \<open>a\<close>: it is a region of its own,
  the pointer array can grow, and the cells are where their pointers say.\<close>

definition reserved :: "mem_page \<Rightarrow> placed \<Rightarrow> (nat \<times> nat) list \<Rightarrow> nat \<Rightarrow> nat \<Rightarrow> bool" where
  "reserved pg cs fl a n \<longleftrightarrow>
     flags_ok pg \<and> nCell pg = length cs \<and> g2 (aData pg) (hdrOffset pg + 3) = length cs \<and>
     layout (aData pg) (hdrOffset pg) (gap_of pg + 2) (usable pg) fl ((a, n) # regions cs) \<and>
     points (aData pg) (cellOffset pg) (map fst cs) \<and> stored_at (aData pg) cs"

lemma layout_gap: "layout d h g U fl used \<Longrightarrow> h + 8 \<le> g' \<Longrightarrow> g' \<le> content d h \<Longrightarrow> layout d h g' U fl used"
  by (simp add: layout_def)

lemma spare_regions: "(a, n) \<in> set (regions cs) \<Longrightarrow> h + 8 \<le> t \<Longrightarrow> t \<le> a \<Longrightarrow> {a..<a + n} \<inter> spare h t U (regions cs) = {}"
proof -
  assume a: "(a, n) \<in> set (regions cs)" "h + 8 \<le> t" "t \<le> a"
  have "{a..<a + n} \<subseteq> covered (regions cs)" using a(1) by (auto simp: covered_def intro!: bexI [of _ "(a, n)"])
  then show ?thesis using a(2,3) by (auto simp: spare_def)
qed

lemma reserved_frame:
  assumes hold: "page_holds pg cs fl" and n: "4 \<le> n"
    and lay: "layout d' (hdrOffset pg) (gap_of pg + 2) (usable pg) fl' ((a, n) # regions cs)"
    and out: "outside (aData pg) d' (spare (hdrOffset pg) (content (aData pg) (hdrOffset pg)) (usable pg) (regions cs))"
  shows "reserved (pg\<lparr>aData := d'\<rparr>) cs fl' a n"
proof -
  define h where "h = hdrOffset pg"
  define d where "d = aData pg"
  define t where "t = content d h"
  note p = page_holdsD [OF hold, folded d_def h_def]
  note l = layoutD [OF p(8), folded t_def]
  note out' = out [folded d_def h_def, folded t_def]
  have hlen: "h + 8 \<le> length d" using l(1-4) by linarith
  have sp: "k \<notin> spare h t (usable pg) (regions cs)" if "k < t" "k \<notin> {h + 1, h + 2, h + 5, h + 6, h + 7}" for k
    using that by (auto simp: spare_def)
  have "d' ! h = d ! h" by (rule outside_nth [OF out']) (use hlen sp [of h] l(1,2) in simp_all)
  moreover have "g2 d' (h + 3) = g2 d (h + 3)"
    by (rule outside_g2 [OF out']) (use hlen sp [of "h + 3"] sp [of "Suc (h + 3)"] l(1,2) in simp_all)
  moreover have "points d' (cellOffset pg) (map fst cs)"
    by (rule points_outside [OF p(9) out']) (use l(2-4) p(13,3) sp in \<open>auto simp: disjoint_iff\<close>)
  moreover have "stored_at d' cs"
  proof (rule stored_outside [OF p(10) out'], clarify)
    fix b k assume m: "(b, k) \<in> set (regions cs)"
    show "b + k \<le> length d \<and> {b..<b + k} \<inter> spare h t (usable pg) (regions cs) = {}"
      using l(10) [OF m] l(1-4) spare_regions [OF m, of h t "usable pg"] by simp
  qed
  ultimately show ?thesis
    using p lay flags_ok_upd(1) [OF p(1)] unfolding reserved_def h_def d_def gap_of_def by simp
qed

lemma allocate_gap_ok:
  assumes hold: "page_holds pg cs fl" and n: "4 \<le> n" and room: "int (n + 2) \<le> nFree pg"
  shows "\<exists>a d' cs' fl'. allocate_gap pg n (content (aData pg) (hdrOffset pg)) temp = Inr (PageOK, a, pg\<lparr>aData := d'\<rparr>) \<and>
    map snd cs' = map snd cs \<and> reserved (pg\<lparr>aData := d'\<rparr>) cs' fl' a n"
proof -
  define h where "h = hdrOffset pg"
  define g where "g = gap_of pg"
  have take: "\<exists>a d2. take_from_gap (pg\<lparr>aData := d1\<rparr>) n (content d1 h) = Inr (PageOK, a, pg\<lparr>aData := d2\<rparr>) \<and>
      reserved (pg\<lparr>aData := d2\<rparr>) cs1 fl1 a n"
    if hold1: "page_holds (pg\<lparr>aData := d1\<rparr>) cs1 fl1" and fit: "g + 2 + n \<le> content d1 h" for d1 cs1 fl1
  proof -
    note p = page_holdsD [OF hold1]
    have lay: "layout d1 h g (usable pg) fl1 (regions cs1)" using p(8) by (simp add: h_def g_def gap_of_def)
    note l = layoutD [OF lay]
    have lay2: "layout d1 h (g + 2) (usable pg) fl1 (regions cs1)" by (rule layout_gap [OF lay]) (use l(1) fit in simp_all)
    from take_from_gap_ok [of "pg\<lparr>aData := d1\<rparr>" h "g + 2" "usable pg" fl1 "regions cs1" n] lay2 n fit
    obtain d2 where d2: "take_from_gap (pg\<lparr>aData := d1\<rparr>) n (content d1 h) = Inr (PageOK, content d1 h - n, pg\<lparr>aData := d2\<rparr>)"
      "layout d2 h (g + 2) (usable pg) fl1 ((content d1 h - n, n) # regions cs1)" "outside d1 d2 {h + 5, h + 6}"
      by (auto simp: h_def)
    have "reserved (pg\<lparr>aData := d1\<rparr>\<lparr>aData := d2\<rparr>) cs1 fl1 (content d1 h - n) n"
    proof (rule reserved_frame [OF hold1 n])
      show "outside (aData (pg\<lparr>aData := d1\<rparr>)) d2 (spare (hdrOffset (pg\<lparr>aData := d1\<rparr>))
          (content (aData (pg\<lparr>aData := d1\<rparr>)) (hdrOffset (pg\<lparr>aData := d1\<rparr>))) (usable (pg\<lparr>aData := d1\<rparr>)) (regions cs1))"
        using outside_mono [OF d2(3), of "spare h (content d1 h) (usable pg) (regions cs1)"]
        by (simp add: h_def spare_def)
    qed (use d2(2) in \<open>simp add: h_def g_def gap_of_def\<close>)
    then show ?thesis using d2(1) by auto
  qed
  show ?thesis
  proof (cases "content (aData pg) h < g + 2 + n")
    case False
    then show ?thesis using take [of "aData pg" cs fl] hold
      by (auto simp: allocate_gap_def Let_def gap_of_def [symmetric] g_def [symmetric] h_def [symmetric])
  next
    case True
    obtain d1 cs1 where d1: "defragmentPage pg (min 4 (nFree pg - int (2 + n))) temp = Inr (PageOK, pg\<lparr>aData := d1\<rparr>)"
      "map snd cs1 = map snd cs" "page_holds (pg\<lparr>aData := d1\<rparr>) cs1 []"
      "d1 ! (h + 7) = 0 \<or> int (unat (d1 ! (h + 7))) \<le> min 4 (nFree pg - int (2 + n))"
      using defragmentPage_ok [OF hold, of "min 4 (nFree pg - int (2 + n))" temp] unfolding h_def by blast
    note p = page_holdsD [OF d1(3)]
    have lay: "layout d1 h g (usable pg) [] (regions cs1)" using p(8) by (simp add: h_def g_def gap_of_def)
    note l = layoutD [OF lay]
    have fr: "int (unat (d1 ! (h + 7))) \<le> nFree pg - int (2 + n)" using d1(4) room by auto
    have "nFree pg = int (usable pg) - int g - int (sumlen (regions cs1))" using p(12) by (simp add: g_def gap_of_def)
    then have fit: "g + 2 + n \<le> content d1 h" using l(14) [unfolded sumlen_simps] fr by linarith
    have gt: "get2byteNotZero d1 (h + 5) = Inr (content d1 h)"
      using l(1-4) by (simp add: get2byteNotZero_def content_def)
    obtain a d2 where "take_from_gap (pg\<lparr>aData := d1\<rparr>) n (content d1 h) = Inr (PageOK, a, pg\<lparr>aData := d2\<rparr>)"
      "reserved (pg\<lparr>aData := d2\<rparr>) cs1 [] a n" using take [OF d1(3) fit] by blast
    then show ?thesis using d1(1,2) gt True
      by (auto simp: allocate_gap_def Let_def gap_of_def [symmetric] g_def [symmetric] h_def [symmetric])
  qed
qed

lemma allocateSpace_ok:
  assumes hold: "page_holds pg cs fl" and n: "4 \<le> n" and room: "int (n + 2) \<le> nFree pg"
  shows "\<exists>a d' cs' fl'. allocateSpace pg n temp = Inr (PageOK, a, pg\<lparr>aData := d'\<rparr>) \<and>
    map snd cs' = map snd cs \<and> reserved (pg\<lparr>aData := d'\<rparr>) cs' fl' a n"
proof -
  define d where "d = aData pg"
  define h where "h = hdrOffset pg"
  define g where "g = gap_of pg"
  define U where "U = usable pg"
  define t where "t = content d h"
  note p = page_holdsD [OF hold, folded d_def h_def g_def U_def]
  note l = layoutD [OF p(8), folded t_def]
  have hlen: "h + 8 \<le> length d" using l(1-4) by linarith
  have g5: "get2byte d (h + 5) = Inr (g2 d (h + 5))" "get2byte d (h + 1) = Inr (head fl 0)" using hlen l(6) by simp_all
  have sel: "(if g2 d (h + 5) < g then Inr (if g2 d (h + 5) = 0 \<and> U = 65536 then Some 65536 else None)
         else if U < g2 d (h + 5) then Inr None else Inr (Some (g2 d (h + 5)))) = (Inr (Some t) :: nat option res)"
    using l(1-3,5) by (auto simp: t_def content_def split: if_splits)
  have gap: "\<exists>a d' cs' fl'. allocate_gap pg n t temp = Inr (PageOK, a, pg\<lparr>aData := d'\<rparr>) \<and>
    map snd cs' = map snd cs \<and> reserved (pg\<lparr>aData := d'\<rparr>) cs' fl' a n"
    using allocate_gap_ok [OF hold n room, of temp] by (simp add: t_def d_def h_def)
  show ?thesis
  proof (cases "head fl 0 \<noteq> 0 \<and> g + 2 \<le> t")
    case False
    then have "allocateSpace pg n temp = allocate_gap pg n t temp"
      unfolding allocateSpace_def Let_def gap_of_def [symmetric] g_def [symmetric] d_def [symmetric] h_def [symmetric]
        U_def [symmetric] g5 bind_res_Inr sel by auto
    then show ?thesis using gap by simp
  next
    case True
    then have fl: "fl \<noteq> []" by auto
    have run: "allocateSpace pg n temp =
        bind_res (pageFindSlot pg n) (\<lambda>(slot, rc, pg). case slot of
                 Some a \<Rightarrow> if a \<le> g then Inr (PageCorrupt, a, pg) else Inr (PageOK, a, pg)
               | None \<Rightarrow> if rc \<noteq> PageOK then Inr (rc, 0, pg) else allocate_gap pg n t temp)"
      unfolding allocateSpace_def Let_def gap_of_def [symmetric] g_def [symmetric] d_def [symmetric] h_def [symmetric]
        U_def [symmetric] g5 bind_res_Inr sel using True by simp
    from pageFindSlot_ok [OF p(8) [unfolded d_def] h_def [symmetric] U_def [symmetric] n fl]
    show ?thesis
    proof (elim disjE exE conjE)
      assume "pageFindSlot pg n = Inr (None, PageOK, pg)"
      then show ?thesis using run gap by simp
    next
      fix a d' fl'
      assume f: "pageFindSlot pg n = Inr (Some a, PageOK, pg\<lparr>aData := d'\<rparr>)"
        "layout d' h g U fl' ((a, n) # regions cs)" "outside (aData pg) d' (spare h (content (aData pg) h) U (regions cs))"
        "content d' h = content (aData pg) h" "content (aData pg) h < a"
      have "layout d' h (g + 2) U fl' ((a, n) # regions cs)"
        by (rule layout_gap [OF f(2)]) (use True l(1) f(4) in \<open>simp_all add: t_def d_def\<close>)
      then have "reserved (pg\<lparr>aData := d'\<rparr>) cs fl' a n"
        using f(3) by (intro reserved_frame [OF hold n]) (simp_all add: h_def g_def U_def)
      moreover have "allocateSpace pg n temp = Inr (PageOK, a, pg\<lparr>aData := d'\<rparr>)"
        using run f(1,5) l(2) by (simp add: t_def d_def)
      ultimately show ?thesis by blast
    qed
  qed
qed

section \<open>Insertion\<close>

lemma layout_move: "layout d h g U fl (pre @ x # post) \<longleftrightarrow> layout d h g U fl (x # pre @ post)"
proof -
  have "sumlen (pre @ x # post) = sumlen (x # pre @ post)" by (cases x) simp
  moreover have "set (pre @ x # post) = set (x # pre @ post)" by simp
  ultimately show ?thesis unfolding layout_def sorted_wrt_apart_move [of pre x post] by simp
qed

lemma layout_outside:
  assumes lay: "layout d h g U fl used" and out: "outside d d' W"
    and W: "{h + 1, h + 2, h + 5, h + 6, h + 7} \<inter> W = {}" "\<forall>(b, s)\<in>set fl. {b..<b + 4} \<inter> W = {}"
  shows "layout d' h g U fl used"
proof (cases "h + 8 \<le> length d")
  case True
  note l = layoutD [OF lay]
  have ct: "content d' h = content d h" by (rule content_outside [OF out]) (use True W(1) in auto)
  have "g2 d' (h + 1) = g2 d (h + 1)" by (rule outside_g2 [OF out]) (use True W(1) in auto)
  moreover have "d' ! (h + 7) = d ! (h + 7)" by (rule outside_nth [OF out]) (use True W(1) in auto)
  moreover have "linked d' fl 0"
  proof (rule linked_outside [OF l(7) out])
    show "\<forall>(b, s)\<in>set fl. b + 4 \<le> length d \<and> {b..<b + 4} \<inter> W = {}"
    proof
      fix f assume m: "f \<in> set fl"
      from W(2) m l(9) [of "fst f" "snd f"] l(4)
      show "case f of (b, s) \<Rightarrow> b + 4 \<le> length d \<and> {b..<b + 4} \<inter> W = {}" by (cases f) auto
    qed
  qed
  ultimately show ?thesis using lay outside_length [OF out] unfolding layout_def ct by simp
next
  case False
  then show ?thesis using layoutD(1-4) [OF lay] by linarith
qed

text \<open>The pointers behind the \<open>i\<close>-th make room for a new one.\<close>

lemma points_insert:
  assumes pts: "points d q as" and i: "i \<le> length as" and len: "q + 2 * length as + 2 \<le> length d" and a: "a < 65536"
  defines "d' \<equiv> put2 (blit d (q + 2 * i + 2) (bytes d (q + 2 * i) (2 * (length as - i)))) (q + 2 * i) a"
  shows "points d' q (take i as @ a # drop i as)"
proof -
  define m where "m = 2 * (length as - i)"
  define d1 where "d1 = blit d (q + 2 * i + 2) (bytes d (q + 2 * i) m)"
  have d'e: "d' = put2 d1 (q + 2 * i) a" unfolding d'_def d1_def m_def ..
  have fit: "q + 2 * i + m \<le> length d" "q + 2 * i + 2 + m \<le> length d" "q + 2 * i + 2 \<le> length d"
    using len i by (simp_all add: m_def)
  have l1: "length d1 = length d" using fit by (simp add: d1_def)
  have n1: "d1 ! k = (if q + 2 * i + 2 \<le> k \<and> k < q + 2 * i + 2 + m then d ! (k - 2) else d ! k)" if "k < length d" for k
  proof (cases "q + 2 * i + 2 \<le> k \<and> k < q + 2 * i + 2 + m")
    case True
    have e: "k - (q + 2 * i + 2) < m" "q + 2 * i + (k - (q + 2 * i + 2)) = k - 2" using True by linarith+
    have "d1 ! k = bytes d (q + 2 * i) m ! (k - (q + 2 * i + 2))"
      unfolding d1_def using True that fit by (subst nth_blit) simp_all
    also have "\<dots> = d ! (k - 2)" by (subst nth_bytes [OF e(1) fit(1)]) (simp only: e(2))
    finally show ?thesis using True by simp
  next
    case False
    then show ?thesis unfolding d1_def using that fit by (subst nth_blit) auto
  qed
  have old: "g2 d (q + 2 * j) = as ! j" if "j < length as" for j using pts that by (simp add: points_def)
  show ?thesis
    unfolding points_def
  proof (intro allI impI)
    fix j assume j: "j < length (take i as @ a # drop i as)"
    then have j': "j \<le> length as" using i by simp
    consider "j < i" | "j = i" | "i < j" by linarith
    then show "g2 d' (q + 2 * j) = (take i as @ a # drop i as) ! j"
    proof cases
      case 1
      have "g2 d' (q + 2 * j) = g2 d (q + 2 * j)"
        using 1 fit l1 n1 [of "q + 2 * j"] n1 [of "Suc (q + 2 * j)"]
        by (simp add: d'e g2_def nth_put2)
      then show ?thesis using 1 i old [of j] by (simp add: nth_append)
    next
      case 2
      then show ?thesis using a i fit l1
        by (simp add: d'e nth_append)
    next
      case 3
      then obtain k where k: "j = Suc k" "i \<le> k" "k < length as" using j' by (cases j) auto
      have e: "Suc (2 * k) < 2 * i + 2 * (length as - i)" "2 * k < 2 * i + 2 * (length as - i)" using k by arith+
      have "g2 d' (q + 2 * j) = g2 d1 (q + 2 * j)"
        using 3 fit l1 len j' by (simp add: d'e)
      also have "\<dots> = g2 d (q + 2 * k)"
        using k e fit len n1 [of "q + 2 * j"] n1 [of "Suc (q + 2 * j)"] by (simp add: g2_def m_def)
      finally show ?thesis using k i old [of k] by (simp add: nth_append)
    qed
  qed
qed

text \<open>The sixteen-bit counter in the header is incremented byte by byte.\<close>

lemma count_up:
  assumes "Suc i < length d" "g2 d i < 65535"
  defines "lo \<equiv> d ! Suc i"
  defines "d' \<equiv> (if lo + 1 = 0 then (d[Suc i := lo + 1])[i := d ! i + 1] else d[Suc i := lo + 1])"
  shows "g2 d' i = g2 d i + 1"
proof -
  have b: "unat (d ! i) < 256" "unat lo < 256"
    using unsigned_less [of "d ! i", where 'a = nat] unsigned_less [of lo, where 'a = nat] by simp_all
  show ?thesis
  proof (cases "lo + 1 = 0")
    case True
    have "unat (lo + 1) = (unat lo + 1) mod 256" by (simp add: unat_word_ariths)
    then have "unat lo = 255" using True b by (simp add: mod_Suc split: if_splits)
    moreover have "unat (d ! i + 1) = unat (d ! i) + 1"
      using assms(2) \<open>unat lo = 255\<close> b(1) by (simp add: unat_word_ariths g2_def lo_def)
    ultimately show ?thesis using True assms(1) by (simp add: d'_def g2_def lo_def)
  next
    case False
    have "unat lo \<noteq> 255"
    proof
      assume "unat lo = 255"
      then have "lo = 255" by (intro word_unat_eq_iff [THEN iffD2]) simp
      then show False using False by simp
    qed
    then have "unat (lo + 1) = unat lo + 1" using b(2) by (simp add: unat_word_ariths)
    then show ?thesis using False assms(1) by (simp add: d'_def g2_def lo_def)
  qed
qed

end
