(* ===== verification/SqliteBtOps.thy ===== *)
theory SqliteBtOps
  imports SqliteBtRefine
begin

text \<open>
  The operations on the cells of a page: insertion, removal, the empty page, the recount of the
  free space and the reading of the page header, each on a page that holds a list of cells; and
  runs of them.
\<close>

unbundle bit_operations_syntax

lemma page_holdsI:
  assumes "flags_ok pg" "hdrOffset pg \<in> {0, 100}" "cellOffset pg = hdrOffset pg + 8 + childPtrSize pg"
    and "480 \<le> usable pg" "usable pg \<le> bt_pageSize (pBt pg)" "nCell pg = length cs"
    and "g2 (aData pg) (hdrOffset pg + 3) = length cs"
    and "layout (aData pg) (hdrOffset pg) (gap_of pg) (usable pg) fl (regions cs)"
    and "points (aData pg) (cellOffset pg) (map fst cs)" "stored_at (aData pg) cs"
    and "\<And>a c. (a, c) \<in> set cs \<Longrightarrow> cell_fits pg c"
    and "nFree pg = int (usable pg) - int (gap_of pg) - int (sumlen (regions cs))"
  shows "page_holds pg cs fl"
  using assms unfolding page_holds_def by auto

lemma gap_of_upd [simp]:
  "gap_of (pg\<lparr>aData := d\<rparr>) = gap_of pg" "gap_of (pg\<lparr>nFree := f\<rparr>) = gap_of pg"
  by (simp_all add: gap_of_def)

text \<open>What a change of the cells leaves as it was.\<close>

definition page_frame :: "mem_page \<Rightarrow> mem_page" where
  "page_frame pg = pg\<lparr>aData := [], nFree := 0, nCell := 0\<rparr>"

lemma page_frame_upd [simp]:
  "page_frame (pg\<lparr>aData := d\<rparr>) = page_frame pg" "page_frame (pg\<lparr>nFree := f\<rparr>) = page_frame pg"
  "page_frame (pg\<lparr>nCell := n\<rparr>) = page_frame pg"
  by (simp_all add: page_frame_def)

lemma page_frameD:
  assumes "page_frame pg' = page_frame pg"
  shows "overflow pg' = overflow pg" "pBt pg' = pBt pg" "maskPage pg' = maskPage pg" "isInit pg' = isInit pg"
    "hdrOffset pg' = hdrOffset pg" "cellOffset pg' = cellOffset pg" "childPtrSize pg' = childPtrSize pg"
    "xCellSize pg' = xCellSize pg" "minLocal pg' = minLocal pg" "maxLocal pg' = maxLocal pg"
  using assms [THEN arg_cong, of overflow] assms [THEN arg_cong, of pBt] assms [THEN arg_cong, of maskPage]
    assms [THEN arg_cong, of isInit] assms [THEN arg_cong, of hdrOffset] assms [THEN arg_cong, of cellOffset]
    assms [THEN arg_cong, of childPtrSize] assms [THEN arg_cong, of xCellSize] assms [THEN arg_cong, of minLocal]
    assms [THEN arg_cong, of maxLocal]
  by (simp_all add: page_frame_def)

section \<open>Insertion\<close>

lemma zip_points: "map fst (take i cs @ (a, c) # drop i cs) = take i (map fst cs) @ a # drop i (map fst cs)"
  by (simp add: take_map drop_map)

lemma nCell_bound:
  assumes "reserved pg cs fl a n" and "8 \<le> cellOffset pg"
  shows "2 * length cs + 10 < 65536"
proof -
  have lay: "layout (aData pg) (hdrOffset pg) (gap_of pg + 2) (usable pg) fl ((a, n) # regions cs)" "nCell pg = length cs"
    using assms(1) by (simp_all add: reserved_def)
  note l = layoutD [OF lay(1)]
  have "a + n \<le> usable pg" "4 \<le> n" "gap_of pg + 2 \<le> a" using l(10) [of a n] l(2) by auto
  then show ?thesis using l(5) lay(2) assms(2) unfolding gap_of_def by linarith
qed

lemma insert_pointer_ok:
  assumes res: "reserved pg cs fl a (length c)" and i: "i \<le> length cs" and fits: "cell_fits pg c"
    and hdr: "hdrOffset pg \<in> {0, 100}" "cellOffset pg = hdrOffset pg + 8 + childPtrSize pg"
      "480 \<le> usable pg" "usable pg \<le> bt_pageSize (pBt pg)" "\<forall>(b, x)\<in>set cs. cell_fits pg x"
    and free: "nFree pg = int (usable pg) - int (gap_of pg + 2) - int (sumlen (regions cs)) - int (length c)"
    and d2: "outside (aData pg) d2 {a..<a + length c}" "bytes d2 a (length c) = c"
  shows "\<exists>d'. insert_pointer pg i a d2 ptrmap =
      Inr (if bt_autoVacuum (pBt pg) \<and> ptrmap \<noteq> 0 then PageError ptrmap else PageOK,
           pg\<lparr>aData := d', nCell := nCell pg + 1\<rparr>) \<and>
    page_holds (pg\<lparr>aData := d', nCell := nCell pg + 1\<rparr>) (take i cs @ (a, c) # drop i cs) fl"
proof -
  define d where "d = aData pg"
  define h where "h = hdrOffset pg"
  define q where "q = cellOffset pg"
  define U where "U = usable pg"
  define N where "N = length cs"
  note r = res [unfolded reserved_def, folded d_def h_def q_def U_def N_def]
  have n: "flags_ok pg" "nCell pg = N" "g2 d (h + 3) = N" "points d q (map fst cs)" "stored_at d cs" using r by simp_all
  have gq: "gap_of pg = q + 2 * N" using n(2) by (simp add: gap_of_def q_def)
  have lay: "layout d h (q + 2 * N + 2) U fl ((a, length c) # regions cs)" using r gq by simp
  note l = layoutD [OF lay]
  have hq: "h + 8 \<le> q" using hdr(2) by (simp add: h_def q_def)
  have a: "4 \<le> length c" "content d h \<le> a" "a + length c \<le> U" using l(10) [of a "length c"] by simp_all
  have len2: "length d2 = length d" using outside_length [OF d2(1)] by (simp add: d_def)
  have hlen: "h + 8 < length d" "q + 2 * N + 2 < length d" using l(1-4) a hq by linarith+
  have i': "i \<le> N" using i by (simp add: N_def)
  have a16: "a < 65536" using a l(5) by linarith
  have o2: "outside d d2 {a..<a + length c}" using d2(1) by (simp add: d_def)
  have pts2: "points d2 q (map fst cs)"
    by (rule points_outside [OF n(4) o2]) (use hlen a l(2) in \<open>auto simp: N_def\<close>)
  define d3 where "d3 = blit d2 (q + 2 * i + 2) (bytes d2 (q + 2 * i) (2 * (N - i)))"
  define d4 where "d4 = put2 d3 (q + 2 * i) a"
  define lo where "lo = d4 ! Suc (h + 3)"
  define d5 where "d5 = d4[Suc (h + 3) := lo + 1]"
  define d6 where "d6 = (if lo + 1 = 0 then d5[h + 3 := d4 ! (h + 3) + 1] else d5)"
  have fit: "q + 2 * i + 2 * (N - i) = q + 2 * N" using i' by simp
  have mv: "move_bytes d2 (q + 2 * i + 2) (q + 2 * i) (2 * (N - i)) = Inr d3"
    using fit hlen len2 by (simp add: move_bytes_def d3_def)
  have len: "length d3 = length d" "length d4 = length d" "length d5 = length d" "length d6 = length d"
    using fit hlen len2 by (simp_all add: d3_def d4_def d5_def d6_def)
  have run: "insert_pointer pg i a d2 ptrmap =
      Inr (if bt_autoVacuum (pBt pg) \<and> ptrmap \<noteq> 0 then PageError ptrmap else PageOK, pg\<lparr>aData := d6, nCell := nCell pg + 1\<rparr>)"
  proof -
    have e: "h + 4 = Suc (h + 3)" by simp
    have p: "put2byte d3 (q + 2 * i) a = Inr d4" using len fit hlen by (simp add: d4_def)
    have g: "nth_res d4 (Suc (h + 3)) = Inr lo" using len hlen by (simp add: lo_def)
    have u: "upd_res d4 (Suc (h + 3)) (lo + 1) = Inr d5" using len hlen by (simp add: d5_def)
    have x: "(if lo + 1 = 0 then bind_res (nth_res d5 (h + 3)) (\<lambda>hi. upd_res d5 (h + 3) (hi + 1)) else Inr d5) = Inr d6"
    proof -
      have "d5 ! (h + 3) = d4 ! (h + 3)" by (simp add: d5_def)
      then show ?thesis using len hlen by (simp add: d6_def)
    qed
    show ?thesis
      unfolding insert_pointer_def Let_def q_def [symmetric] h_def [symmetric] n(2) mult.commute [of i 2] mv bind_res_Inr p e g u x
      by simp
  qed
  have pts4: "points d4 q (take i (map fst cs) @ a # drop i (map fst cs))"
    unfolding d4_def d3_def using points_insert [OF pts2 _ _ a16, of i] i len2 hlen by (simp add: N_def)
  have o4: "outside d2 d4 {q..<q + 2 * N + 2}"
    unfolding d4_def d3_def
    by (rule outside_put2 [OF outside_blit [OF outside_refl]]) (use fit hlen len2 i' in auto)
  have o6: "outside d4 d6 {h + 3, Suc (h + 3)}"
    unfolding d6_def d5_def by (auto intro!: outside_upd)
  have cnt4: "g2 d4 (h + 3) = N"
  proof -
    have "g2 d4 (h + 3) = g2 d2 (h + 3)" by (rule outside_g2 [OF o4]) (use hlen hq len2 in auto)
    also have "\<dots> = g2 d (h + 3)" by (rule outside_g2 [OF o2]) (use hlen hq l(1,2) a in auto)
    finally show ?thesis using n(3) by simp
  qed
  have N: "2 * N + 10 < 65536" using nCell_bound [OF res] hq unfolding q_def N_def by simp
  have cnt6: "g2 d6 (h + 3) = N + 1"
  proof -
    have "d6 = (if d4 ! Suc (h + 3) + 1 = 0 then (d4[Suc (h + 3) := d4 ! Suc (h + 3) + 1])[h + 3 := d4 ! (h + 3) + 1]
        else d4[Suc (h + 3) := d4 ! Suc (h + 3) + 1])" by (simp add: d6_def d5_def lo_def)
    then show ?thesis using count_up [of "h + 3" d4] cnt4 N len hlen by simp
  qed
  define W where "W = {a..<a + length c} \<union> {q..<q + 2 * N + 2} \<union> {h + 3, Suc (h + 3)}"
  have out: "outside d d6 W"
    by (rule outside_trans [OF outside_trans [OF outside_mono [OF o2] outside_mono [OF o4]] outside_mono [OF o6]])
      (auto simp: W_def)
  have o46: "outside d2 d6 ({q..<q + 2 * N + 2} \<union> {h + 3, Suc (h + 3)})"
    by (rule outside_trans [OF outside_mono [OF o4] outside_mono [OF o6]]) auto
  have lay6: "layout d6 h (q + 2 * N + 2) U fl ((a, length c) # regions cs)"
  proof (rule layout_outside [OF lay out])
    show "{h + 1, h + 2, h + 5, h + 6, h + 7} \<inter> W = {}" using hq l(1,2) a by (auto simp: W_def)
    show "\<forall>(b, s)\<in>set fl. {b..<b + 4} \<inter> W = {}"
    proof
      fix f assume m: "f \<in> set fl"
      obtain b s where f: "f = (b, s)" by (cases f)
      have "b + s \<le> U" "4 \<le> s" "content d h < b" using l(9) m f by auto
      moreover have "apart (a, length c) (b, s)" using l(12) [of "(a, length c)" "(b, s)"] m f by simp
      ultimately show "case f of (b, s) \<Rightarrow> {b..<b + 4} \<inter> W = {}" using f a(1) hq l(2) by (auto simp: W_def)
    qed
  qed
  have regs: "regions (take i cs @ (a, c) # drop i cs) = take i (regions cs) @ (a, length c) # drop i (regions cs)"
    by (simp add: regions_def take_map drop_map)
  have lay7: "layout d6 h (q + 2 * N + 2) U fl (regions (take i cs @ (a, c) # drop i cs))"
    unfolding regs layout_move using lay6 by simp
  have sum: "sumlen (regions (take i cs @ (a, c) # drop i cs)) = sumlen (regions cs) + length c"
  proof -
    have "sumlen (regions cs) = sumlen (take i (regions cs) @ drop i (regions cs))" by simp
    then show ?thesis unfolding regs by (simp del: append_take_drop_id)
  qed
  have st: "stored_at d6 (take i cs @ (a, c) # drop i cs)"
  proof -
    have "stored_at d6 cs"
    proof (rule stored_outside [OF n(5) out])
      show "\<forall>(b, k)\<in>set (regions cs). b + k \<le> length d \<and> {b..<b + k} \<inter> W = {}"
      proof
        fix f assume m: "f \<in> set (regions cs)"
        obtain b k where f: "f = (b, k)" by (cases f)
        have "4 \<le> k" "content d h \<le> b" "b + k \<le> U" using l(10) [of b k] m f by simp_all
        moreover have "apart (a, length c) (b, k)" using l(11) m f by (simp del: apart.simps)
        ultimately show "case f of (b, k) \<Rightarrow> b + k \<le> length d \<and> {b..<b + k} \<inter> W = {}"
          using f a hq l(2,4) by (auto simp: W_def)
      qed
    qed
    moreover have "bytes d6 a (length c) = c"
    proof -
      have "bytes d6 a (length c) = bytes d2 a (length c)"
        by (rule outside_bytes [OF o46]) (use a hq l(2,4) len2 in auto)
      then show ?thesis using d2(2) by simp
    qed
    ultimately show ?thesis by (auto simp: stored_at_def dest: in_set_takeD in_set_dropD)
  qed
  have "page_holds (pg\<lparr>aData := d6, nCell := nCell pg + 1\<rparr>) (take i cs @ (a, c) # drop i cs) fl"
  proof -
    define pg' where "pg' = pg\<lparr>aData := d6, nCell := nCell pg + 1\<rparr>"
    have fl0: "d6 ! h = d ! h" by (rule outside_nth [OF out]) (use hlen hq l(1,2) a in \<open>auto simp: W_def\<close>)
    have "flags_ok (pg\<lparr>aData := d6\<rparr>)" by (rule flags_ok_upd(1) [OF n(1)]) (use fl0 in \<open>simp add: h_def d_def\<close>)
    then have "flags_ok pg'" unfolding pg'_def by (rule flags_ok_upd(3))
    moreover have "gap_of pg' = q + 2 * N + 2" using n(2) by (simp add: gap_of_def pg'_def q_def)
    moreover have "length (take i cs @ (a, c) # drop i cs) = N + 1" using i' by (simp add: N_def)
    moreover have "cell_fits pg' x" if "(b, x) \<in> set (take i cs @ (a, c) # drop i cs)" for b x
    proof -
      have "x = c \<or> (b, x) \<in> set cs" using that by (auto dest: in_set_takeD in_set_dropD)
      then show ?thesis using fits hdr(5) by (auto simp: pg'_def)
    qed
    moreover have "nFree pg' = int (usable pg') - int (gap_of pg') - int (sumlen (regions (take i cs @ (a, c) # drop i cs)))"
      using free gq sum calculation(2) by (simp add: pg'_def)
    moreover have "points d6 q (map fst (take i cs @ (a, c) # drop i cs))"
      unfolding zip_points by (rule points_outside [OF pts4 o6]) (use i' hlen len hq in \<open>auto simp: N_def\<close>)
    moreover have "hdrOffset pg' = h" "cellOffset pg' = q" "usable pg' = U" "aData pg' = d6" "nCell pg' = N + 1"
      "childPtrSize pg' = childPtrSize pg" "pBt pg' = pBt pg"
      using n(2) by (simp_all add: pg'_def h_def q_def U_def)
    ultimately show ?thesis using hdr cnt6 lay7 st
      unfolding pg'_def [symmetric] by (intro page_holdsI) (simp_all add: h_def q_def U_def)
  qed
  then show ?thesis using run by blast
qed

text \<open>The write of the cell and of its pointer, once the space is there.\<close>

lemma insert_reserved:
  assumes hold: "page_holds pg cs0 fl0" and same: "map snd cs = map snd cs0"
    and res: "reserved (pg\<lparr>aData := d1\<rparr>) cs fl a (length c)" and i: "i \<le> length cs" and fits: "cell_fits pg c"
    and room: "int (length c + 2) \<le> nFree pg"
    and d2: "outside d1 d2 {a..<a + length c}" "bytes d2 a (length c) = c"
  shows "\<exists>pg'. insert_pointer (pg\<lparr>aData := d1, nFree := nFree pg - int ((2 + length c) mod 65536)\<rparr>) i a d2 ptrmap =
      Inr (if bt_autoVacuum (pBt pg) \<and> ptrmap \<noteq> 0 then PageError ptrmap else PageOK, pg') \<and>
    page_holds pg' (take i cs @ (a, c) # drop i cs) fl \<and> page_frame pg' = page_frame pg"
proof -
  define pg1 where "pg1 = pg\<lparr>aData := d1, nFree := nFree pg - int ((2 + length c) mod 65536)\<rparr>"
  note p = page_holdsD [OF hold]
  have len: "length cs = length cs0" using same map_eq_imp_length_eq by blast
  have "nFree pg \<le> int (usable pg)" using p(12) by linarith
  then have "2 + length c < 65536" using room layoutD(1,2,5) [OF p(8)] p(12,13,3) by linarith
  then have md: "(2 + length c) mod 65536 = 2 + length c" by simp
  have sum: "sumlen (regions cs) = sumlen (regions cs0)"
  proof -
    have "map (length \<circ> snd) cs = map (length \<circ> snd) cs0" using arg_cong [OF same, of "map length"] by simp
    then show ?thesis by (simp add: sumlen_regions)
  qed
  have ga: "gap_of pg1 = gap_of pg" "nCell pg = length cs0" using p(6) by (simp_all add: gap_of_def pg1_def)
  have "\<exists>d'. insert_pointer pg1 i a d2 ptrmap =
      Inr (if bt_autoVacuum (pBt pg1) \<and> ptrmap \<noteq> 0 then PageError ptrmap else PageOK,
           pg1\<lparr>aData := d', nCell := nCell pg1 + 1\<rparr>) \<and>
    page_holds (pg1\<lparr>aData := d', nCell := nCell pg1 + 1\<rparr>) (take i cs @ (a, c) # drop i cs) fl"
  proof (rule insert_pointer_ok)
    have "flags_ok (pg\<lparr>aData := d1\<rparr>)" using res by (simp add: reserved_def)
    then have "flags_ok pg1" unfolding pg1_def by (rule flags_ok_upd(2))
    then show "reserved pg1 cs fl a (length c)"
      using res unfolding reserved_def by (simp add: pg1_def)
    show "\<forall>(b, x)\<in>set cs. cell_fits pg1 x"
    proof clarify
      fix b x assume "(b, x) \<in> set cs"
      then have "x \<in> set (map snd cs0)" using same [symmetric] by force
      then show "cell_fits pg1 x" using p(11) by (auto simp: pg1_def)
    qed
    show "nFree pg1 = int (usable pg1) - int (gap_of pg1 + 2) - int (sumlen (regions cs)) - int (length c)"
      using p(12) ga(1) sum md by (simp add: pg1_def)
    show "cell_fits pg1 c" using fits by (simp add: pg1_def)
  qed (use p i d2 in \<open>simp_all add: pg1_def\<close>)
  then show ?thesis unfolding pg1_def by auto
qed

lemma placed_insert:
  "map snd (take i cs @ (a, c) # drop i cs) = take i (map snd cs) @ c # drop i (map snd cs)"
  by (simp add: take_map drop_map)

lemma insertCellFast_ok:
  assumes hold: "page_holds pg cs fl" and i: "i \<le> length cs" and fits: "cell_fits pg c"
    and room: "int (length c + 2) \<le> nFree pg"
  shows "\<exists>pg' a cs' fl'. insertCellFast 0 ptrmap temp pg i c (length c) =
      Inr (if bt_autoVacuum (pBt pg) \<and> ptrmap \<noteq> 0 then PageError ptrmap else PageOK, pg') \<and>
    page_holds pg' (take i cs' @ (a, c) # drop i cs') fl' \<and> map snd cs' = map snd cs \<and>
    page_frame pg' = page_frame pg"
proof -
  have n: "4 \<le> length c" using fits by (simp add: cell_fits_def)
  obtain a d1 cs1 fl1 where al: "allocateSpace pg (length c) temp = Inr (PageOK, a, pg\<lparr>aData := d1\<rparr>)"
    "map snd cs1 = map snd cs" "reserved (pg\<lparr>aData := d1\<rparr>) cs1 fl1 a (length c)"
    using allocateSpace_ok [OF hold n room, of temp] by blast
  have lay: "layout d1 (hdrOffset pg) (gap_of pg + 2) (usable pg) fl1 ((a, length c) # regions cs1)"
    using al(3) by (simp add: reserved_def)
  have fit: "a + length c \<le> length d1" using layoutD(10) [OF lay, of a "length c"] layoutD(4) [OF lay] by simp
  define d2 where "d2 = blit d1 a c"
  have o: "outside d1 d2 {a..<a + length c}" unfolding d2_def by (rule outside_blit [OF outside_refl]) (use fit in simp_all)
  have b: "bytes d2 a (length c) = c" unfolding d2_def by (rule bytes_blit_same [OF fit])
  have i1: "i \<le> length cs1" using i map_eq_imp_length_eq [OF al(2)] by simp
  obtain pg' where "insert_pointer (pg\<lparr>aData := d1, nFree := nFree pg - int ((2 + length c) mod 65536)\<rparr>) i a d2 ptrmap =
      Inr (if bt_autoVacuum (pBt pg) \<and> ptrmap \<noteq> 0 then PageError ptrmap else PageOK, pg')"
    "page_holds pg' (take i cs1 @ (a, c) # drop i cs1) fl1" "page_frame pg' = page_frame pg"
    using insert_reserved [OF hold al(2,3) i1 fits room o b] by blast
  moreover have "bytes c 0 (length c) = c" by (simp add: bytes_def)
  moreover have "\<not> nFree pg < int (length c + 2)" using room by simp
  ultimately have "insertCellFast 0 ptrmap temp pg i c (length c) =
      Inr (if bt_autoVacuum (pBt pg) \<and> ptrmap \<noteq> 0 then PageError ptrmap else PageOK, pg') \<and>
    page_holds pg' (take i cs1 @ (a, c) # drop i cs1) fl1 \<and> map snd cs1 = map snd cs \<and>
    page_frame pg' = page_frame pg"
    using al fit unfolding insertCellFast_def by (simp add: Let_def d2_def)
  then show ?thesis by blast
qed

text \<open>The child pointer in front of the cells of an interior page.\<close>

definition child_bytes :: "u32 \<Rightarrow> u8 list" where
  "child_bytes v = [ucast (drop_bit 24 v), ucast (drop_bit 16 v), ucast (drop_bit 8 v), ucast v]"

definition with_child :: "u32 \<Rightarrow> u8 list \<Rightarrow> u8 list" where
  "with_child v c = child_bytes v @ drop 4 c"

lemma length_child_bytes [simp]: "length (child_bytes v) = 4"
  by (simp add: child_bytes_def)

lemma length_with_child [simp]: "4 \<le> length c \<Longrightarrow> length (with_child v c) = length c"
  by (simp add: with_child_def)

lemma put4_at_ok:
  assumes "i + 4 \<le> length d"
  shows "put4_at d i v = Inr (blit d i (child_bytes v))"
proof -
  have "4 \<le> length (drop i d)" using assms by simp
  from four_bytes_roundtrip [OF this, of v] obtain q where q: "sqlite3Put4byte (drop i d) v = Inr q"
    "drop 4 q = drop 4 (drop i d)"
    "take 4 q = [ucast (drop_bit 24 v), ucast (drop_bit 16 v), ucast (drop_bit 8 v), ucast v]" by blast
  have "take 4 q = child_bytes v" unfolding q(3) child_bytes_def ..
  then have "q = child_bytes v @ drop (i + 4) d"
    using q(2) append_take_drop_id [of 4 q] by (simp add: add.commute)
  then show ?thesis using q(1) by (simp add: put4_at_def blit_def with_child_def)
qed

lemma put4_at_start: "4 \<le> length c \<Longrightarrow> put4_at c 0 v = Inr (with_child v c)"
  using put4_at_ok [of 0 c v] by (simp add: blit_def with_child_def)

lemma skip_varint_cong:
  "(\<And>j. i \<le> j \<Longrightarrow> nth_res p j = nth_res p' j) \<Longrightarrow> skip_varint k p i = skip_varint k p' i"
proof (induction k p i rule: skip_varint.induct)
  case (1 k p i)
  have e: "nth_res p i = nth_res p' i" by (rule "1.prems") simp
  show ?case unfolding skip_varint.simps [of k p i] skip_varint.simps [of k p' i] e
  proof (rule bind_res_cong [OF refl])
    fix b assume b: "nth_res p' i = Inr b"
    show "(if b AND 128 \<noteq> 0 \<and> 1 < k then skip_varint (k - 1) p (Suc i) else Inr (Suc i)) =
        (if b AND 128 \<noteq> 0 \<and> 1 < k then skip_varint (k - 1) p' (Suc i) else Inr (Suc i))"
      using "1.IH" [of b] b e "1.prems" by auto
  qed
qed

lemma with_child_fits:
  assumes kind: "page_kind pg" "childPtrSize pg = 4" and fits: "cell_fits pg c"
  shows "cell_fits pg (with_child v c)"
proof -
  have l: "4 \<le> length c" using fits by (simp add: cell_fits_def)
  have d: "drop 4 (with_child v c) = drop 4 c" by (simp add: with_child_def)
  have n: "nth_res (with_child v c) j = nth_res c j" if j: "4 \<le> j" for j
  proof -
    obtain k where k: "j = 4 + k" using j by (metis le_Suc_ex)
    have "nth_res x j = nth_res (drop 4 x) k" if "4 \<le> length x" for x :: "u8 list"
      using that k by (auto simp: nth_res_def)
    from this [OF l] this [of "with_child v c"] l d show ?thesis by simp
  qed
  have "xCellSize pg = cellSizePtr \<or> xCellSize pg = cellSizePtrNoPayload"
    using kind by (auto simp: page_kind_def)
  then have "cellSize pg (with_child v c) = cellSize pg c"
  proof
    assume "xCellSize pg = cellSizePtr"
    then show ?thesis by (simp add: cellSize_def cellSize_index_interior_def d)
  next
    assume "xCellSize pg = cellSizePtrNoPayload"
    then show ?thesis using skip_varint_cong [of 4 "with_child v c" c 9] n
      by (simp add: cellSize_def cellSize_table_interior_def)
  qed
  then show ?thesis using fits l by (simp add: cell_fits_def)
qed

lemma insertCell_ok:
  assumes hold: "page_holds pg cs fl" and i: "i \<le> length cs" and fits: "cell_fits pg c"
    and inner: "childPtrSize pg = 4" and room: "int (length c + 2) \<le> nFree pg" and ov: "overflow pg = []"
  shows "\<exists>pg' a cs' fl'. insertCell 0 ptrmap temp pg i c (length c) iChild =
      Inr (if bt_autoVacuum (pBt pg) \<and> ptrmap \<noteq> 0 then PageError ptrmap else PageOK, pg') \<and>
    page_holds pg' (take i cs' @ (a, with_child iChild c) # drop i cs') fl' \<and> map snd cs' = map snd cs \<and>
    page_frame pg' = page_frame pg"
proof -
  define c' where "c' = with_child iChild c"
  have n: "4 \<le> length c" using fits by (simp add: cell_fits_def)
  have lc: "length c' = length c" using n by (simp add: c'_def)
  have kind: "page_kind pg" using page_holdsD(1) [OF hold] decode_page_kind by (auto simp: flags_ok_def)
  have fits': "cell_fits pg c'" unfolding c'_def by (rule with_child_fits [OF kind inner fits])
  obtain a d1 cs1 fl1 where al: "allocateSpace pg (length c) temp = Inr (PageOK, a, pg\<lparr>aData := d1\<rparr>)"
    "map snd cs1 = map snd cs" "reserved (pg\<lparr>aData := d1\<rparr>) cs1 fl1 a (length c)"
    using allocateSpace_ok [OF hold n room, of temp] by blast
  have lay: "layout d1 (hdrOffset pg) (gap_of pg + 2) (usable pg) fl1 ((a, length c) # regions cs1)"
    using al(3) by (simp add: reserved_def)
  have fit: "a + length c \<le> length d1" using layoutD(10) [OF lay, of a "length c"] layoutD(4) [OF lay] by simp
  define e where "e = blit d1 (a + 4) (drop 4 c)"
  define d2 where "d2 = blit e a (child_bytes iChild)"
  have l4: "length (child_bytes iChild) = 4" by simp
  have le: "length e = length d1" using fit n by (simp add: e_def)
  have o: "outside d1 d2 {a..<a + length c}"
  proof -
    have "outside d1 e {a..<a + length c}" unfolding e_def
      by (rule outside_blit [OF outside_refl]) (use fit n in auto)
    then show ?thesis unfolding d2_def by (rule outside_blit) (use fit n le l4 in auto)
  qed
  have b: "bytes d2 a (length c) = c'"
  proof (rule nth_equalityI)
    show "length (bytes d2 a (length c)) = length c'" using fit outside_length [OF o] lc by simp
    fix k assume "k < length (bytes d2 a (length c))"
    then have k: "k < length c" using fit outside_length [OF o] by simp
    have 1: "bytes d2 a (length c) ! k = d2 ! (a + k)" using k fit outside_length [OF o] by (simp add: nth_bytes)
    show "bytes d2 a (length c) ! k = c' ! k"
    proof (cases "k < 4")
      case True
      then have "d2 ! (a + k) = child_bytes iChild ! k"
        unfolding d2_def using fit n le l4 by (simp add: nth_blit)
      then show ?thesis using 1 True by (simp add: c'_def with_child_def nth_append)
    next
      case False
      then have "d2 ! (a + k) = e ! (a + k)" unfolding d2_def using fit n le l4 k by (simp add: nth_blit)
      also have "\<dots> = c ! k" unfolding e_def using False fit n k by (simp add: nth_blit)
      finally show ?thesis using 1 False k by (simp add: c'_def with_child_def nth_append)
    qed
  qed
  have i1: "i \<le> length cs1" using i map_eq_imp_length_eq [OF al(2)] by simp
  obtain pg' where "insert_pointer (pg\<lparr>aData := d1, nFree := nFree pg - int ((2 + length c) mod 65536)\<rparr>) i a d2 ptrmap =
      Inr (if bt_autoVacuum (pBt pg) \<and> ptrmap \<noteq> 0 then PageError ptrmap else PageOK, pg')"
    "page_holds pg' (take i cs1 @ (a, c') # drop i cs1) fl1" "page_frame pg' = page_frame pg"
    using insert_reserved [OF hold al(2) _ i1 fits', of d1 fl1 a d2 ptrmap] al(3) room o b lc by auto
  moreover have "bytes c 4 (length c - 4) = drop 4 c" by (simp add: bytes_def)
  moreover have "put4_at e a iChild = Inr d2" using put4_at_ok [of a e iChild] fit n le by (simp add: d2_def)
  moreover have "put_bytes d1 (a + 4) (drop 4 c) = Inr e" using fit n by (simp add: e_def)
  moreover have "\<not> nFree pg < int (length c + 2)" using room by simp
  ultimately have "insertCell 0 ptrmap temp pg i c (length c) iChild =
      Inr (if bt_autoVacuum (pBt pg) \<and> ptrmap \<noteq> 0 then PageError ptrmap else PageOK, pg') \<and>
    page_holds pg' (take i cs1 @ (a, c') # drop i cs1) fl1 \<and> map snd cs1 = map snd cs \<and>
    page_frame pg' = page_frame pg"
    using al n ov unfolding insertCell_def by (simp add: Let_def)
  then show ?thesis unfolding c'_def by blast
qed

section \<open>Removal\<close>

lemma points_delete:
  assumes pts: "points d q as" and i: "i < length as" and len: "q + 2 * length as \<le> length d"
  defines "d' \<equiv> blit d (q + 2 * i) (bytes d (q + 2 * i + 2) (2 * (length as - 1 - i)))"
  shows "points d' q (take i as @ drop (Suc i) as)" and "outside d d' {q..<q + 2 * length as}"
proof -
  define m where "m = 2 * (length as - 1 - i)"
  have fit: "q + 2 * i + 2 + m = q + 2 * length as" using i by (simp add: m_def)
  have d'e: "d' = blit d (q + 2 * i) (bytes d (q + 2 * i + 2) m)" unfolding d'_def m_def ..
  have lb: "length (bytes d (q + 2 * i + 2) m) = m" using fit len by simp
  show "outside d d' {q..<q + 2 * length as}"
    unfolding d'e by (rule outside_blit [OF outside_refl]) (use fit len lb in auto)
  have n1: "d' ! k = (if q + 2 * i \<le> k \<and> k < q + 2 * i + m then d ! (k + 2) else d ! k)" if "k < length d" for k
  proof (cases "q + 2 * i \<le> k \<and> k < q + 2 * i + m")
    case True
    have e: "k - (q + 2 * i) < m" "q + 2 * i + 2 + (k - (q + 2 * i)) = k + 2" using True by linarith+
    have "d' ! k = bytes d (q + 2 * i + 2) m ! (k - (q + 2 * i))"
      unfolding d'e using True that fit len lb by (subst nth_blit) simp_all
    also have "\<dots> = d ! (k + 2)" by (subst nth_bytes [OF e(1)]) (use fit len e(2) in simp_all)
    finally show ?thesis using True by simp
  next
    case False
    then show ?thesis unfolding d'e using that fit len lb by (subst nth_blit) auto
  qed
  have old: "g2 d (q + 2 * j) = as ! j" if "j < length as" for j using pts that by (simp add: points_def)
  show "points d' q (take i as @ drop (Suc i) as)"
    unfolding points_def
  proof (intro allI impI)
    fix j assume "j < length (take i as @ drop (Suc i) as)"
    then have j: "j < length as - 1" using i by simp
    show "g2 d' (q + 2 * j) = (take i as @ drop (Suc i) as) ! j"
    proof (cases "j < i")
      case True
      have "g2 d' (q + 2 * j) = g2 d (q + 2 * j)"
        using True i len n1 [of "q + 2 * j"] n1 [of "Suc (q + 2 * j)"] by (simp add: g2_def)
      then show ?thesis using True i old [of j] by (simp add: nth_append)
    next
      case False
      have e: "q + 2 * j < q + 2 * i + m" "Suc (q + 2 * j) < q + 2 * i + m" using False j fit by linarith+
      have "g2 d' (q + 2 * j) = g2 d (q + 2 * Suc j)"
        using False j len e n1 [of "q + 2 * j"] n1 [of "Suc (q + 2 * j)"] by (simp add: g2_def)
      then show ?thesis using False i j old [of "Suc j"] by (simp add: nth_append)
    qed
  qed
qed

lemma empty_layout:
  assumes "h + 8 \<le> g" "g \<le> U" "U \<le> length d" "U \<le> 65536" "content d h = U" "g2 d (h + 1) = 0" "d ! (h + 7) = 0"
  shows "layout d h g U [] []"
  using assms by (simp add: layout_def)

lemma dropCell_ok:
  assumes hold: "page_holds pg (pre @ (a, c) # post) fl"
  shows "\<exists>pg' fl'. dropCell pg (length pre) (length c) PageOK = Inr (PageOK, pg') \<and> page_holds pg' (pre @ post) fl' \<and>
    page_frame pg' = page_frame pg"
proof -
  define d where "d = aData pg"
  define h where "h = hdrOffset pg"
  define q where "q = cellOffset pg"
  define U where "U = usable pg"
  define t where "t = content d h"
  define n where "n = length c"
  define i where "i = length pre"
  define N where "N = length pre + length post"
  define cs where "cs = pre @ post"
  note p = page_holdsD [OF hold, folded d_def h_def q_def U_def]
  have gq: "gap_of pg = q + 2 * Suc N" using p(13) by (simp add: N_def)
  have lay0: "layout d h (q + 2 * Suc N) U fl ((a, n) # regions cs)"
    using p(8) gq layout_move [of d h _ U fl "regions pre" "(a, n)" "regions post"] by (simp add: n_def cs_def)
  note l = layoutD [OF lay0, folded t_def]
  have hq: "h + 8 \<le> q" using p(3) by simp
  have an: "4 \<le> n" "t \<le> a" "a + n \<le> U" using l(10) [of a n] by simp_all
  have n16: "n mod 65536 = n" "a < 65536" using an l(1,2,5) by simp_all
  have ptr: "g2 d (q + 2 * i) = a" using p(9) by (auto simp: points_def i_def nth_append dest: spec [of _ "length pre"])
  have hlen: "h + 8 < length d" "q + 2 * Suc N < length d" using l(1-4) an by linarith+
  have get: "get2byte d (q + 2 * i) = Inr a" using ptr hlen by (simp add: i_def N_def)
  from freeSpace_ok [OF lay0 [unfolded d_def] h_def [symmetric] U_def [symmetric]]
  obtain d1 fl1 where fs: "freeSpace pg a n = Inr (PageOK, pg\<lparr>aData := d1, nFree := nFree pg + int n\<rparr>)"
    "layout d1 h (q + 2 * Suc N) U fl1 (regions cs)" "outside d d1 (spare h t U (regions cs))"
    unfolding t_def d_def by blast
  note l1 = layoutD [OF fs(2)]
  have len1: "length d1 = length d" by (rule outside_length [OF fs(3)])
  have sp: "k \<notin> spare h t U (regions cs)" if "k < t" "k \<notin> {h + 1, h + 2, h + 5, h + 6, h + 7}" for k
    using that by (auto simp: spare_def)
  have pts1: "points d1 q (map fst (pre @ (a, c) # post))"
    by (rule points_outside [OF p(9) fs(3)]) (use l(2) hlen hq sp in \<open>auto simp: disjoint_iff N_def\<close>)
  have d1h: "d1 ! h = d ! h" by (rule outside_nth [OF fs(3)]) (use sp [of h] hlen l(1,2) in auto)
  have st1: "stored_at d1 cs"
  proof -
    have "stored_at d cs" using p(10) by (auto simp: stored_at_def cs_def)
    then show ?thesis
    proof (rule stored_outside [OF _ fs(3)], intro ballI)
      fix f assume m: "f \<in> set (regions cs)"
      obtain b k where f: "f = (b, k)" by (cases f)
      have "b + k \<le> U" "t \<le> b" "(b, k) \<in> set (regions cs)" using l(10) [of b k] m f by simp_all
      then show "case f of (b, k) \<Rightarrow> b + k \<le> length d \<and> {b..<b + k} \<inter> spare h t U (regions cs) = {}"
        using f spare_regions [of b k cs h t U] l(1,2,4) by simp
    qed
  qed
  have sum: "sumlen (regions (pre @ (a, c) # post)) = sumlen (regions cs) + n" by (simp add: cs_def n_def)
  have run: "dropCell pg i n PageOK =
      (let pg = pg\<lparr>aData := d1, nFree := nFree pg + int n, nCell := N\<rparr> in
        if N = 0 then
          bind_res (zero_bytes d1 (h + 1) 4) (\<lambda>d.
          bind_res (upd_res d (h + 7) 0) (\<lambda>d.
          bind_res (put2byte d (h + 5) U) (\<lambda>d.
          Inr (PageOK, pg\<lparr>aData := d, nFree := int U - int h - int (childPtrSize pg) - 8\<rparr>))))
        else
          bind_res (move_bytes d1 (q + 2 * i) (q + 2 * i + 2) (2 * (N - i))) (\<lambda>d.
          bind_res (put2byte d (h + 3) N) (\<lambda>d.
          Inr (PageOK, pg\<lparr>aData := d, nFree := nFree pg + 2\<rparr>))))"
    unfolding dropCell_def Let_def q_def [symmetric] h_def [symmetric] d_def [symmetric] get bind_res_Inr
      U_def [symmetric] n16(1) fs(1)
    using an(3) p(6) by (simp add: N_def U_def)
  have fits: "cell_fits pg x" if "(b, x) \<in> set cs" for b x using p(11) [of b x] that by (auto simp: cs_def)
  show ?thesis
  proof (cases "N = 0")
    case True
    then have nil: "cs = []" "pre = []" "post = []" by (simp_all add: cs_def N_def)
    define d2 where "d2 = blit d1 (h + 1) (replicate 4 0)"
    define d4 where "d4 = put2 (d2[h + 7 := 0]) (h + 5) U"
    have len: "length d2 = length d" "length d4 = length d" using hlen len1 by (simp_all add: d2_def d4_def)
    have z: "zero_bytes d1 (h + 1) 4 = Inr d2" using hlen len1 by (simp add: zero_bytes_def d2_def)
    define pg' where "pg' = pg\<lparr>aData := d4, nFree := int U - int h - int (childPtrSize pg) - 8, nCell := 0\<rparr>"
    have r: "dropCell pg i n PageOK = Inr (PageOK, pg')"
      using run True z len hlen by (simp add: Let_def d4_def pg'_def)
    have o: "outside d1 d4 ({h + 1..<h + 8})"
      unfolding d4_def d2_def
      by (intro outside_put2 outside_upd outside_blit outside_refl) (use hlen len1 in auto)
    have g0: "g2 d4 (h + 1) = 0" "g2 d4 (h + 3) = 0" "d4 ! (h + 7) = 0"
      using hlen len len1 by (simp_all add: d4_def d2_def g2_def nth_put2 nth_blit)
    have ct: "content d4 h = U" unfolding d4_def by (rule content_put) (use hlen len l(5) an in simp_all)
    have "page_holds pg' [] []"
    proof (rule page_holdsI)
      have "d4 ! h = d1 ! h" by (rule outside_nth [OF o]) (use hlen len1 in auto)
      then have "flags_ok (pg\<lparr>aData := d4\<rparr>)" using d1h by (intro flags_ok_upd(1) [OF p(1)]) (simp add: h_def d_def)
      then show "flags_ok pg'" unfolding pg'_def by (rule flags_ok_upd(3) [OF flags_ok_upd(2)])
      have "layout d4 h q U [] []" by (rule empty_layout) (use hq hlen len l(1-5) ct g0 in simp_all)
      then show "layout (aData pg') (hdrOffset pg') (gap_of pg') (usable pg') [] (regions [])"
        by (simp add: pg'_def gap_of_def h_def q_def U_def)
      show "nFree pg' = int (usable pg') - int (gap_of pg') - int (sumlen (regions []))"
        using p(3) by (simp add: pg'_def gap_of_def h_def q_def U_def)
    qed (use p g0 in \<open>simp_all add: pg'_def h_def q_def U_def points_def stored_at_def\<close>)
    then show ?thesis using r nil cs_def by (auto simp: i_def n_def pg'_def)
  next
    case False
    define d2 where "d2 = blit d1 (q + 2 * i) (bytes d1 (q + 2 * i + 2) (2 * (N - i)))"
    define d4 where "d4 = put2 d2 (h + 3) N"
    define as where "as = map fst (pre @ (a, c) # post)"
    have asl: "length as = Suc N" "i < length as" "length as - 1 - i = N - i" by (simp_all add: as_def N_def i_def)
    have del: "take i as @ drop (Suc i) as = map fst cs" by (simp add: as_def i_def cs_def)
    have pd: "points d2 q (map fst cs)" "outside d1 d2 {q..<q + 2 * Suc N}"
      using points_delete [OF pts1 [folded as_def] asl(2)] asl hlen len1 unfolding del d2_def by simp_all
    have len: "length d2 = length d" "length d4 = length d" using outside_length [OF pd(2)] len1 by (simp_all add: d4_def)
    have fit: "q + 2 * i + 2 + 2 * (N - i) = q + 2 * Suc N" by (simp add: N_def i_def)
    have mv: "move_bytes d1 (q + 2 * i) (q + 2 * i + 2) (2 * (N - i)) = Inr d2"
      using fit hlen len1 by (simp add: move_bytes_def d2_def)
    define pg' where "pg' = pg\<lparr>aData := d4, nFree := nFree pg + int n + 2, nCell := N\<rparr>"
    have r: "dropCell pg i n PageOK = Inr (PageOK, pg')"
      using run False mv len hlen by (simp add: Let_def d4_def pg'_def)
    define W where "W = {q..<q + 2 * Suc N} \<union> {h + 3, h + 4}"
    have o: "outside d1 d4 W"
      unfolding d4_def W_def by (intro outside_put2 outside_mono [OF pd(2)]) auto
    have N16: "N < 65536" using l(2,3,5) an by simp
    have lay4: "layout d4 h (q + 2 * N) U fl1 (regions cs)"
    proof (rule layout_outside [OF layout_gap [OF fs(2)] o])
      show "{h + 1, h + 2, h + 5, h + 6, h + 7} \<inter> W = {}" using hq by (auto simp: W_def)
      show "\<forall>(b, s)\<in>set fl1. {b..<b + 4} \<inter> W = {}"
      proof
        fix f assume m: "f \<in> set fl1"
        obtain b s where f: "f = (b, s)" by (cases f)
        have "content d1 h < b" using l1(9) [of b s] m f by simp
        then show "case f of (b, s) \<Rightarrow> {b..<b + 4} \<inter> W = {}" using f l1(2) hq by (auto simp: W_def)
      qed
    qed (use hq l1(2) in simp_all)
    have "page_holds pg' cs fl1"
    proof (rule page_holdsI)
      have "d4 ! h = d1 ! h" by (rule outside_nth [OF o]) (use hlen len1 hq in \<open>auto simp: W_def\<close>)
      then have "flags_ok (pg\<lparr>aData := d4\<rparr>)" using d1h by (intro flags_ok_upd(1) [OF p(1)]) (simp add: h_def d_def)
      then show "flags_ok pg'" unfolding pg'_def by (rule flags_ok_upd(3) [OF flags_ok_upd(2)])
      show "nCell pg' = length cs" by (simp add: pg'_def N_def cs_def)
      have "g2 d4 (h + 3) = N" using hlen len N16 by (simp add: d4_def)
      then show "g2 (aData pg') (hdrOffset pg' + 3) = length cs" by (simp add: pg'_def h_def N_def cs_def)
      show "layout (aData pg') (hdrOffset pg') (gap_of pg') (usable pg') fl1 (regions cs)"
        using lay4 by (simp add: pg'_def gap_of_def h_def q_def U_def)
      have "points d4 q (map fst cs)"
      proof (rule points_outside [OF pd(1)])
        show "outside d2 d4 {h + 3, h + 4}" unfolding d4_def by (intro outside_put2 outside_refl) simp_all
      qed (use hq hlen len in \<open>auto simp: cs_def N_def\<close>)
      then show "points (aData pg') (cellOffset pg') (map fst cs)" by (simp add: pg'_def q_def)
      have "stored_at d4 cs"
      proof (rule stored_outside [OF st1 o], intro ballI)
        fix f assume m: "f \<in> set (regions cs)"
        obtain b k where f: "f = (b, k)" by (cases f)
        have "b + k \<le> U" "content d1 h \<le> b" using l1(10) [of b k] m f by simp_all
        then show "case f of (b, k) \<Rightarrow> b + k \<le> length d1 \<and> {b..<b + k} \<inter> W = {}"
          using f l1(2,4) hq by (auto simp: W_def)
      qed
      then show "stored_at (aData pg') cs" by (simp add: pg'_def)
      show "cell_fits pg' x" if "(b, x) \<in> set cs" for b x using fits [OF that] by (simp add: pg'_def)
      show "nFree pg' = int (usable pg') - int (gap_of pg') - int (sumlen (regions cs))"
        using p(12) gq sum by (simp add: pg'_def gap_of_def U_def q_def)
    qed (use p in \<open>simp_all add: pg'_def h_def q_def U_def\<close>)
    then show ?thesis using r by (auto simp: i_def n_def pg'_def cs_def)
  qed
qed

section \<open>The empty page\<close>

lemma decode_more_upd:
  "decodeFlags (pg\<lparr>cellOffset := o1\<rparr>) k = (case decodeFlags pg k of (rc, p) \<Rightarrow> (rc, p\<lparr>cellOffset := o1\<rparr>))"
  "decodeFlags (pg\<lparr>maskPage := m\<rparr>) k = (case decodeFlags pg k of (rc, p) \<Rightarrow> (rc, p\<lparr>maskPage := m\<rparr>))"
  "decodeFlags (pg\<lparr>isInit := b\<rparr>) k = (case decodeFlags pg k of (rc, p) \<Rightarrow> (rc, p\<lparr>isInit := b\<rparr>))"
  by (simp_all add: decodeFlags_def Let_def)

lemma decode_fields [simp]:
  "aData (snd (decodeFlags pg k)) = aData pg" "hdrOffset (snd (decodeFlags pg k)) = hdrOffset pg"
  "pBt (snd (decodeFlags pg k)) = pBt pg" "nFree (snd (decodeFlags pg k)) = nFree pg"
  "overflow (snd (decodeFlags pg k)) = overflow pg" "nCell (snd (decodeFlags pg k)) = nCell pg"
  "maskPage (snd (decodeFlags pg k)) = maskPage pg" "cellOffset (snd (decodeFlags pg k)) = cellOffset pg"
  "isInit (snd (decodeFlags pg k)) = isInit pg"
  by (simp_all add: decodeFlags_def Let_def)

lemma decode_again:
  "k \<in> {2, 5, 10, 13} \<Longrightarrow> decodeFlags (snd (decodeFlags pg k)) k = (PageOK, snd (decodeFlags pg k))"
  by (elim insertE emptyE) (simp_all add: decodeFlags_def Let_def ptf_values)

lemma decode_child:
  "k \<in> {2, 5, 10, 13} \<Longrightarrow> childPtrSize (snd (decodeFlags pg k)) = (if k AND PTF_LEAF = 0 then 4 else 0)"
  by (elim insertE emptyE) (simp_all add: decodeFlags_def Let_def ptf_values)

definition page_shape :: "mem_page \<Rightarrow> bool" where
  "page_shape pg \<longleftrightarrow> hdrOffset pg \<in> {0, 100} \<and> 480 \<le> usable pg \<and> usable pg \<le> bt_pageSize (pBt pg) \<and>
     bt_pageSize (pBt pg) \<le> SQLITE_MAX_PAGE_SIZE \<and> usable pg \<le> length (aData pg)"

lemma zeroPage_ok:
  assumes shape: "page_shape pg" and fl: "flags \<in> {2, 5, 10, 13}"
  shows "\<exists>pg'. zeroPage pg flags = Inr pg' \<and> page_holds pg' [] [] \<and> overflow pg' = [] \<and> pBt pg' = pBt pg \<and>
    maskPage pg' = of_nat (bt_pageSize (pBt pg) - 1) \<and> isInit pg' \<and> hdrOffset pg' = hdrOffset pg \<and> length (aData pg') = length (aData pg)"
proof -
  define h where "h = hdrOffset pg"
  define U where "U = usable pg"
  define d where "d = aData pg"
  have s: "h \<in> {0, 100}" "480 \<le> U" "U \<le> bt_pageSize (pBt pg)" "U \<le> 65536" "U \<le> length d"
    using shape by (auto simp: page_shape_def h_def U_def d_def SQLITE_MAX_PAGE_SIZE_def)
  have h100: "h \<le> 100" using s(1) by auto
  define first where "first = h + (if flags AND PTF_LEAF = 0 then 12 else 8)"
  define d0 where "d0 = (if fast_secure (pBt pg) then blit d h (replicate (U - h) 0) else d)"
  have z0: "(if fast_secure (pBt pg) then zero_bytes d h (int U - int h) else Inr d) = Inr d0"
  proof -
    have "nat (int U - int h) = U - h" using s h100 by simp
    then show ?thesis using s h100 by (simp add: d0_def zero_bytes_def)
  qed
  have l0: "length d0 = length d" using s h100 by (simp add: d0_def)
  define d1 where "d1 = d0[h := of_nat flags]"
  define d2 where "d2 = blit d1 (h + 1) (replicate 4 0)"
  define d3 where "d3 = d2[h + 7 := 0]"
  define d4 where "d4 = put2 d3 (h + 5) U"
  have len: "length d1 = length d" "length d2 = length d" "length d3 = length d" "length d4 = length d"
    using l0 s h100 by (simp_all add: d1_def d2_def d3_def d4_def)
  have hl: "h + 8 < length d" using s h100 by linarith
  have z1: "zero_bytes d1 (h + 1) 4 = Inr d2" using hl len by (simp add: zero_bytes_def d2_def)
  define pg1 where "pg1 = snd (decodeFlags (pg\<lparr>aData := d4, nFree := (int U - int first) mod 65536\<rparr>) flags)"
  define pg' where "pg' = pg1\<lparr>cellOffset := first, overflow := [], maskPage := of_nat (bt_pageSize (pBt pg) - 1),
                nCell := 0, isInit := True\<rparr>"
  have run: "zeroPage pg flags = Inr pg'"
    unfolding zeroPage_def Let_def h_def [symmetric] U_def [symmetric] d_def [symmetric] first_def [symmetric] z0 bind_res_Inr
    using hl len l0 z1
    by (simp add: d1_def [symmetric] d3_def [symmetric] d4_def [symmetric] pg1_def [symmetric] pg'_def)
  have f8: "d4 ! h = of_nat flags"
    using hl len l0 by (simp add: d4_def d3_def d2_def d1_def nth_put2 nth_blit)
  have un: "unat (of_nat flags :: u8) = flags" using fl by auto
  have g0: "g2 d4 (h + 1) = 0" "g2 d4 (h + 3) = 0" "d4 ! (h + 7) = 0"
    using hl len l0 by (simp_all add: d4_def d3_def d2_def g2_def nth_put2 nth_blit)
  have ct: "content d4 h = U" unfolding d4_def by (rule content_put) (use hl len s in simp_all)
  have ch: "childPtrSize pg1 = (if flags AND PTF_LEAF = 0 then 4 else 0)"
    unfolding pg1_def by (rule decode_child [OF fl])
  have fs: "first = h + 8 + childPtrSize pg1" using ch by (simp add: first_def)
  have fU: "first \<le> U" using fs ch h100 s(2) by simp
  have "page_holds pg' [] []"
  proof (rule page_holdsI)
    have "aData pg1 = d4" "hdrOffset pg1 = h" by (simp_all add: pg1_def h_def)
    moreover have "decodeFlags pg1 flags = (PageOK, pg1)" unfolding pg1_def by (rule decode_again [OF fl])
    ultimately show "flags_ok pg'"
      using f8 un by (simp add: flags_ok_def pg'_def decode_more_upd decode_upd)
    have "layout d4 h first U [] []" by (rule empty_layout) (use fs fU len s ct g0 in simp_all)
    then show "layout (aData pg') (hdrOffset pg') (gap_of pg') (usable pg') [] (regions [])"
      by (simp add: pg'_def gap_of_def pg1_def h_def U_def)
    have "(int U - int first) mod 65536 = int U - int first" using fU fs s(4) by (intro mod_pos_pos_trivial) simp_all
    then show "nFree pg' = int (usable pg') - int (gap_of pg') - int (sumlen (regions []))"
      by (simp add: pg'_def gap_of_def pg1_def U_def)
  qed (use s g0 fs in \<open>simp_all add: pg'_def pg1_def h_def U_def points_def stored_at_def\<close>)
  then show ?thesis using run len by (auto simp: pg'_def pg1_def h_def d_def)
qed

section \<open>The recount and the reload\<close>

lemma free_blocks_ok:
  assumes "linked (aData pg) fl 0" "spaced lo fl" "fl \<noteq> []" "\<forall>(b, s)\<in>set fl. b + s \<le> usable pg"
    "usable pg \<le> length (aData pg)"
  shows "\<exists>b s. free_blocks pg (head fl 0) n = Inr (Some (0, s, b, n + int (sumlen fl))) \<and> (b, s) \<in> set fl"
  using assms(1-4)
proof (induction fl arbitrary: lo n)
  case (Cons f fl)
  obtain b s where f: "f = (b, s)" by (cases f)
  have b: "b + s \<le> usable pg" "4 \<le> s" "g2 (aData pg) b = head fl 0" "g2 (aData pg) (b + 2) = s" using Cons.prems f by auto
  have g: "get2byte (aData pg) b = Inr (head fl 0)" "get2byte (aData pg) (b + 2) = Inr s"
    using get2byte_ok [of b "aData pg"] get2byte_ok [of "b + 2" "aData pg"] b assms(5) by simp_all
  have i: "\<not> int (usable pg) - 4 < int b" using b by simp
  show ?case
  proof (cases "fl = []")
    case True
    then have "free_blocks pg b n = Inr (Some (0, s, b, n + int s))"
      using g i by (simp add: free_blocks.simps [of pg b])
    then show ?thesis using f True by auto
  next
    case False
    have sp: "spaced (b + s + 4) fl" using Cons.prems(2) f by simp
    then have "b + s + 4 \<le> head fl 0" using False by (cases fl) auto
    then have step: "free_blocks pg b n = free_blocks pg (head fl 0) (n + int s)"
      using g i by (simp add: free_blocks.simps [of pg b])
    have "\<exists>b' s'. free_blocks pg (head fl 0) (n + int s) = Inr (Some (0, s', b', n + int s + int (sumlen fl))) \<and> (b', s') \<in> set fl"
      by (rule Cons.IH) (use Cons.prems f sp False in auto)
    then show ?thesis using step f by auto
  qed
qed simp

lemma computeFreeSpace_ok:
  assumes hold: "page_holds pg cs fl" and same: "aData pg' = aData pg" "hdrOffset pg' = hdrOffset pg" "pBt pg' = pBt pg"
    "childPtrSize pg' = childPtrSize pg" "nCell pg' = nCell pg"
  shows "btreeComputeFreeSpace pg' = Inr (PageOK, pg'\<lparr>nFree := nFree pg\<rparr>)"
proof -
  define d where "d = aData pg"
  define h where "h = hdrOffset pg"
  define U where "U = usable pg"
  define g where "g = gap_of pg"
  define t where "t = content d h"
  define frag where "frag = d ! (h + 7)"
  note p = page_holdsD [OF hold, folded d_def h_def U_def g_def]
  note l = layoutD [OF p(8), folded t_def frag_def]
  have hl: "h + 8 \<le> length d" using l(1-4) by linarith
  have gt: "get2byteNotZero d (h + 5) = Inr t" using hl by (simp add: get2byteNotZero_def t_def content_def)
  have gh: "get2byte d (h + 1) = Inr (head fl 0)" using hl l(6) by simp
  have nf: "nth_res d (h + 7) = Inr frag" using hl by (simp add: frag_def)
  have ge: "h + 8 + childPtrSize pg + 2 * nCell pg = g" using p(3) by (simp add: g_def gap_of_def)
  have nFree: "nFree pg = int U - int g - int (sumlen (regions cs))" by (rule p(12))
  have tot: "int (unat frag) + int t + int (sumlen fl) = int U - int (sumlen (regions cs))" using l(14) by linarith
  define n where "n = int (unat frag) + int t"
  have blocks: "(if 0 < head fl 0 then
           if head fl 0 < t then Inr None
           else
             bind_res (free_blocks pg' (head fl 0) n) (\<lambda>r. case r of None \<Rightarrow> Inr None
             | Some (nxt, sz, pc, n) \<Rightarrow>
                 if 0 < nxt then Inr None
                 else if U < pc + sz then Inr None
                 else Inr (Some n))
         else Inr (Some n)) = (Inr (Some (n + int (sumlen fl))) :: int option res)"
  proof (cases "fl = []")
    case False
    have h0: "t < head fl 0"
    proof (cases fl)
      case (Cons f fl')
      then show ?thesis using l(9) [of "fst f" "snd f"] by (cases f) simp
    qed (use False in simp)
    have "\<exists>b s. free_blocks pg' (head fl 0) n = Inr (Some (0, s, b, n + int (sumlen fl))) \<and> (b, s) \<in> set fl"
      by (rule free_blocks_ok [OF _ l(8) False]) (use l(4,7,9) same in \<open>auto simp: d_def U_def\<close>)
    then obtain b s where fb: "free_blocks pg' (head fl 0) n = Inr (Some (0, s, b, n + int (sumlen fl)))" "(b, s) \<in> set fl"
      by blast
    then show ?thesis using h0 l(9) [OF fb(2)] by simp
  qed simp
  have "n + int (sumlen fl) \<le> int U" "int g \<le> n + int (sumlen fl)" unfolding n_def using tot l(2) by linarith+
  then have bound: "\<not> (int U < n + int (sumlen fl) \<or> n + int (sumlen fl) < int g)" by simp
  have val: "(n + int (sumlen fl) - int g) mod 65536 = nFree pg"
  proof -
    have "n + int (sumlen fl) - int g = nFree pg" unfolding n_def using tot nFree by linarith
    moreover have "0 \<le> nFree pg" "nFree pg < 65536" using bound calculation l(1,5) nFree by linarith+
    ultimately show ?thesis by (simp add: mod_pos_pos_trivial)
  qed
  have s': "aData pg' = d" "hdrOffset pg' = h" "usable pg' = U" using same by (simp_all add: d_def h_def U_def)
  show ?thesis
    unfolding btreeComputeFreeSpace_def Let_def s' same(4,5) ge gt gh nf bind_res_Inr n_def [symmetric] blocks
    using bound val by simp
qed

text \<open>The shared data once the first page of the file is read.\<close>

definition bt_ready :: "bt_shared \<Rightarrow> bool" where
  "bt_ready B \<longleftrightarrow> local_limits B = B \<and> bt_pageSize B \<in> (\<lambda>k. 2 ^ k) ` {9..16} \<and>
     480 \<le> bt_usableSize B \<and> bt_usableSize B \<le> bt_pageSize B"

lemma bt_readyD:
  assumes "bt_ready B"
  shows "local_limits B = B" "480 \<le> bt_usableSize B" "bt_usableSize B \<le> bt_pageSize B"
    "bt_pageSize B \<le> 65536" "bt_usableSize B \<le> SQLITE_MAX_PAGE_SIZE" "\<exists>k\<le>16. bt_pageSize B = 2 ^ k"
proof -
  show "local_limits B = B" "480 \<le> bt_usableSize B" "bt_usableSize B \<le> bt_pageSize B" using assms by (simp_all add: bt_ready_def)
  obtain k where k: "9 \<le> k" "k \<le> 16" "bt_pageSize B = 2 ^ k" using assms by (auto simp: bt_ready_def)
  then show "\<exists>k\<le>16. bt_pageSize B = 2 ^ k" by blast
  have "(2 :: nat) ^ k \<le> 2 ^ 16" by (rule power_increasing) (use k in simp_all)
  then show "bt_pageSize B \<le> 65536" using k(3) by simp
  then show "bt_usableSize B \<le> SQLITE_MAX_PAGE_SIZE" using assms by (simp add: bt_ready_def SQLITE_MAX_PAGE_SIZE_def)
qed

lemma interior_cells:
  assumes hold: "page_holds pg cs fl" and B: "bt_ready (pBt pg)" and inner: "\<not> leaf pg" and m: "(a, c) \<in> set cs"
  shows "5 \<le> length c"
proof -
  note p = page_holdsD [OF hold]
  note b = bt_readyD [OF B]
  have dec: "decodeFlags pg (unat (aData pg ! hdrOffset pg)) = (PageOK, pg)" using p(1) by (simp add: flags_ok_def)
  have kind: "page_kind pg" by (rule decode_page_kind [OF dec])
  have lim: "page_limits pg" and mm: "unat (minLocal pg) \<le> unat (maxLocal pg)"
    using decode_page_limits [OF dec b(1) [symmetric] b(2,5)] decode_min_le_max [OF dec b(1) [symmetric] b(2,5)] by simp_all
  have sz: "cellSize pg c = Inr (length c)" using p(11) [OF m] by (simp add: cell_fits_def)
  have "xCellSize pg = cellSizePtr \<or> xCellSize pg = cellSizePtrNoPayload" using kind inner by (auto simp: page_kind_def)
  then show ?thesis
  proof
    assume x: "xCellSize pg = cellSizePtr"
    then obtain n k where nk: "cell_payload (drop 4 c) = Inr (n, k)"
      "length c = unat (ucast (if n \<le> ucast (maxLocal pg) then n + of_nat (4 + k)
         else spilled_size pg n (ucast (ucast (of_nat (4 + k) :: u32) :: u16))) :: u16)"
      using sz by (auto simp: cellSize_def cellSize_index_interior_def bind_res_eq_Inr Let_def simp del: of_nat_add)
    define h where "h = 4 + k"
    have h: "5 \<le> h" "h \<le> 13" using cell_payload_count [OF nk(1)] by (simp_all add: h_def)
    have hu: "unat (of_nat h :: u32) = h" using h by (simp add: unat_of_nat)
    have e: "(ucast (ucast (of_nat h :: u32) :: u16) :: u32) = of_nat h"
    proof -
      have "unat (ucast (of_nat h :: u32) :: u16) = h" using h hu by (simp add: unsigned_ucast_eq take_bit_nat_eq_self)
      then show ?thesis using hu by (intro word_unat_eq_iff [THEN iffD2]) (simp add: u16_le_u32)
    qed
    show ?thesis
    proof (cases "n \<le> ucast (maxLocal pg)")
      case True
      then have "unat n \<le> 65501" using lim by (simp add: word_le_nat_alt u16_le_u32 page_limits_def)
      then have "unat (n + of_nat h) = unat n + h" "unat n + h < 65536" using h hu by (simp_all add: unat_word_ariths)
      then have "unat (ucast (n + of_nat h) :: u16) = unat n + h" by (simp add: unsigned_ucast_eq take_bit_nat_eq_self)
      then show ?thesis using nk(2) True h unfolding h_def [symmetric] by simp
    next
      case False
      define minL where "minL = (ucast (minLocal pg) :: u32)"
      define s where "s = minL + (n - minL) mod (of_nat (usable pg) - 4)"
      define s' where "s' = (if ucast (maxLocal pg) < s then minL else s)"
      have s': "unat s' \<le> 65501"
        using mm lim by (auto simp: s'_def minL_def word_less_nat_alt u16_le_u32 page_limits_def)
      have "unat (s' + (4 + of_nat h)) = unat s' + (4 + h)" using s' h hu by (simp add: unat_word_ariths)
      moreover have "unat s' + (4 + h) < 65536" using s' h by simp
      ultimately have "unat (ucast (s' + (4 + of_nat h)) :: u16) = unat s' + (4 + h)"
        by (simp add: unsigned_ucast_eq take_bit_nat_eq_self)
      moreover have "spilled_size pg n (of_nat h) = s' + (4 + of_nat h)"
        unfolding spilled_size_def Let_def s'_def s_def minL_def ..
      ultimately show ?thesis using nk(2) False h unfolding h_def [symmetric] e by simp
    qed
  next
    assume "xCellSize pg = cellSizePtrNoPayload"
    then obtain i where i: "skip_varint 9 c 4 = Inr i" "length c = unat (of_nat i :: u16)"
      using sz by (auto simp: cellSize_def cellSize_table_interior_def bind_res_eq_Inr)
    have "i' < j \<and> j \<le> i' + max 1 k" if "skip_varint k p i' = Inr j" for k p i' j
      using that
    proof (induction k p i' rule: skip_varint.induct)
      case (1 k p i')
      from "1.prems" obtain b where b: "nth_res p i' = Inr b" by (auto simp: skip_varint.simps [of k p] bind_res_eq_Inr)
      show ?case
      proof (cases "b AND 0x80 \<noteq> 0 \<and> 1 < k")
        case True
        with "1.prems" b have "skip_varint (k - 1) p (Suc i') = Inr j" by (simp add: skip_varint.simps [of k p i'])
        from "1.IH" [OF b True this] True show ?thesis by auto
      next
        case False
        with "1.prems" b have "j = Suc i'" by (auto simp: skip_varint.simps [of k p i'])
        then show ?thesis by simp
      qed
    qed
    from this [OF i(1)] have "5 \<le> i" "i \<le> 13" by simp_all
    then show ?thesis using i(2) by (simp add: unat_of_nat)
  qed
qed

lemma cell_size_check_ok:
  assumes hold: "page_holds pg cs fl" and B: "bt_ready (pBt pg)" and i: "i + k = length cs"
    and same: "aData r = aData pg" "cellOffset r = cellOffset pg" "nCell r = nCell pg" "pBt r = pBt pg" "leaf r = leaf pg"
      "xCellSize r = xCellSize pg" "minLocal r = minLocal pg" "maxLocal r = maxLocal pg"
  shows "cell_size_check k i r = Inr PageOK"
  using i
proof (induction k arbitrary: i)
  case (Suc k)
  note p = page_holdsD [OF hold]
  note l = layoutD [OF p(8)]
  obtain a c where ac: "cs ! i = (a, c)" by (cases "cs ! i")
  have m: "(a, c) \<in> set cs" using ac Suc.prems nth_mem [of i cs] by simp
  have r: "4 \<le> length c" "content (aData pg) (hdrOffset pg) \<le> a" "a + length c \<le> usable pg"
    using l(10) [OF in_regions [OF m]] by simp_all
  have ptr: "g2 (aData pg) (cellOffset pg + i * 2) = a"
    using p(9) Suc.prems ac by (auto simp: points_def mult.commute)
  have get: "get2byte (aData r) (cellOffset r + i * 2) = Inr a"
    using ptr same l(2-4) p(13) Suc.prems r by simp
  have b: "bytes (aData pg) a (length c) = c" using p(10) m by (auto simp: stored_at_def)
  have sz: "cellSize r (drop a (aData r)) = Inr (length c)"
  proof -
    have "cellSize pg c = Inr (length c)" using p(11) [OF m] by (simp add: cell_fits_def)
    then have "cellSize pg (drop a (aData pg)) = Inr (length c)"
      using cellSize_append drop_bytes [OF _ b] r l(4) by simp
    then show ?thesis using cell_fits_fields [of r pg] same by simp
  qed
  have five: "leaf pg \<or> 5 \<le> length c" using interior_cells [OF hold B _ m] by blast
  have "cell_size_check k (Suc i) r = Inr PageOK" using Suc by simp
  then show ?case using get sz r five l(2) same p(13) by (auto simp: Let_def gap_of_def)
qed simp

lemma decode_same:
  assumes d: "decodeFlags pg k = (PageOK, pg)" and B: "pBt r = pBt pg"
  shows "decodeFlags r k = (PageOK, r\<lparr>max1bytePayload := max1bytePayload pg, childPtrSize := childPtrSize pg, leaf := leaf pg,
    intKeyLeaf := intKeyLeaf pg, xCellSize := xCellSize pg, xParseCell := xParseCell pg, intKey := intKey pg,
    maxLocal := maxLocal pg, minLocal := minLocal pg\<rparr>)"
proof -
  have k: "k = 2 \<or> k = 5 \<or> k = 10 \<or> k = 13" using d decode_flags_OK [of pg k] by simp
  define pg' where "pg' = snd (decodeFlags pg k)"
  have "pg' = pg" using d by (simp add: pg'_def)
  moreover have "decodeFlags r k = (PageOK, r\<lparr>max1bytePayload := max1bytePayload pg', childPtrSize := childPtrSize pg', leaf := leaf pg',
    intKeyLeaf := intKeyLeaf pg', xCellSize := xCellSize pg', xParseCell := xParseCell pg', intKey := intKey pg',
    maxLocal := maxLocal pg', minLocal := minLocal pg'\<rparr>)"
    using k B unfolding pg'_def by (elim disjE) (simp_all add: decodeFlags_def Let_def ptf_values)
  ultimately show ?thesis by simp
qed

lemma btreeInitPage_ok:
  assumes hold: "page_holds pg cs fl" and B: "bt_ready (pBt pg)"
    and mask: "maskPage pg = of_nat (bt_pageSize (pBt pg) - 1)"
    and same: "aData r = aData pg" "hdrOffset r = hdrOffset pg" "pBt r = pBt pg"
  shows "btreeInitPage r = Inr (PageOK, pg\<lparr>nFree := -1, overflow := [], isInit := True\<rparr>)"
proof -
  define h where "h = hdrOffset pg"
  note p = page_holdsD [OF hold]
  note l = layoutD [OF p(8)]
  note b = bt_readyD [OF B]
  have hl: "h + 8 \<le> length (aData pg)" using l(1-4) by (simp add: h_def)
  define f where "f = unat (aData pg ! h)"
  have dec: "decodeFlags pg f = (PageOK, pg)" using p(1) by (simp add: flags_ok_def f_def h_def)
  define r1 where "r1 = r\<lparr>max1bytePayload := max1bytePayload pg, childPtrSize := childPtrSize pg, leaf := leaf pg,
    intKeyLeaf := intKeyLeaf pg, xCellSize := xCellSize pg, xParseCell := xParseCell pg, intKey := intKey pg,
    maxLocal := maxLocal pg, minLocal := minLocal pg\<rparr>"
  have dr: "decodeFlags r f = (PageOK, r1)" unfolding r1_def by (rule decode_same [OF dec same(3)])
  have e: "r1\<lparr>maskPage := of_nat (bt_pageSize (pBt pg) - 1), overflow := [], cellOffset := h + 8 + childPtrSize pg,
      nCell := length cs, nFree := -1, isInit := True\<rparr> = pg\<lparr>nFree := -1, overflow := [], isInit := True\<rparr>"
    by (rule mem_page.equality) (use p(3,6) mask same in \<open>simp_all add: r1_def h_def\<close>)
  have MX: "\<not> MX_CELL (pBt pg) < length cs"
  proof -
    have "4 * length cs \<le> sumlen (regions cs)"
    proof -
      have "sum_list (map (\<lambda>_. 4) cs) \<le> sum_list (map (length \<circ> snd) cs)"
        by (rule sum_list_mono) (use p(11) in \<open>auto simp: cell_fits_def\<close>)
      then show ?thesis by (simp add: sumlen_regions sum_list_triv mult.commute)
    qed
    then have "8 + 6 * length cs \<le> bt_pageSize (pBt pg)" using l(2,14) p(3,5,13) by linarith
    then show ?thesis by (simp add: MX_CELL_def)
  qed
  define pg1 where "pg1 = pg\<lparr>nFree := -1, overflow := [], isInit := True\<rparr>"
  have chk: "btreeCellSizeCheck pg1 = Inr PageOK"
    unfolding btreeCellSizeCheck_def by (rule cell_size_check_ok [OF hold B]) (use p(6) in \<open>simp_all add: pg1_def\<close>)
  have nth: "nth_res (aData r) (hdrOffset r) = Inr (aData pg ! h)" using hl same by (simp add: h_def)
  have get: "get2byte (aData pg) (h + 3) = Inr (length cs)" using hl p(7) by (simp add: h_def)
  have f1: "pBt r1 = pBt pg" "hdrOffset r1 = h" "aData r1 = aData pg" "childPtrSize r1 = childPtrSize pg"
    using same by (simp_all add: r1_def h_def)
  show ?thesis
    unfolding btreeInitPage_def nth bind_res_Inr f_def [symmetric] dr prod.case page_rc.case Let_def
    using f1 get MX chk e unfolding pg1_def by simp
qed

end
