(* ===== verification/SqliteBtRun.thy ===== *)
theory SqliteBtRun
  imports SqliteBtOps
begin

text \<open>
  Runs of operations on a b-tree page, and what a page promises: it is a list of cells of a
  bounded total size, with the cells that did not fit on the side.  The clients are the
  cursors and the balancing of btree.c, which call the operations one after the other.
\<close>

unbundle bit_operations_syntax

section \<open>Reading back\<close>

text \<open>What the operations leave behind is what is read from the bytes again: the page is
  forgotten and read with \<open>btreeInitPage\<close> and \<open>btreeComputeFreeSpace\<close>.\<close>

definition reload :: "mem_page \<Rightarrow> (page_rc \<times> mem_page) res" where
  "reload pg = bind_res (btreeInitPage (pg\<lparr>isInit := False\<rparr>)) (\<lambda>(rc, pg).
     if rc \<noteq> PageOK then Inr (rc, pg) else btreeComputeFreeSpace pg)"

definition page_ready :: "mem_page \<Rightarrow> bool" where
  "page_ready pg \<longleftrightarrow> bt_ready (pBt pg) \<and> maskPage pg = of_nat (bt_pageSize (pBt pg) - 1) \<and> isInit pg"

lemma reload_ok:
  assumes hold: "page_holds pg cs fl" and ready: "page_ready pg" and ov: "overflow pg = []"
  shows "reload pg = Inr (PageOK, pg)"
proof -
  have B: "bt_ready (pBt pg)" and mask: "maskPage pg = of_nat (bt_pageSize (pBt pg) - 1)" and init: "isInit pg"
    using ready by (simp_all add: page_ready_def)
  define q where "q = pg\<lparr>nFree := -1, overflow := [], isInit := True\<rparr>"
  have 1: "btreeInitPage (pg\<lparr>isInit := False\<rparr>) = Inr (PageOK, q)"
    unfolding q_def by (rule btreeInitPage_ok [OF hold B mask]) simp_all
  have 2: "btreeComputeFreeSpace q = Inr (PageOK, q\<lparr>nFree := nFree pg\<rparr>)"
    by (rule computeFreeSpace_ok [OF hold]) (simp_all add: q_def)
  have 3: "q\<lparr>nFree := nFree pg\<rparr> = pg" by (rule mem_page.equality) (use ov init in \<open>simp_all add: q_def\<close>)
  show ?thesis unfolding reload_def 1 by (simp add: 2 3)
qed

lemma mask_offset:
  assumes "k \<le> 16" "a < 2 ^ k"
  shows "unat ((of_nat (2 ^ k - 1) :: u16) AND of_nat a) = a"
proof -
  have "(2 :: nat) ^ k \<le> 2 ^ 16" by (rule power_increasing) (use assms in simp_all)
  moreover define m where "m = (2 :: nat) ^ k - 1"
  ultimately have a: "a < 65536" "m < 65536" using assms by simp_all
  then have "unat ((of_nat m :: u16) AND of_nat a) = m AND a" by (simp add: unsigned_and_eq unat_of_nat)
  then have "unat ((of_nat (2 ^ k - 1) :: u16) AND of_nat a) = (2 ^ k - 1) AND a" unfolding m_def .
  also have "\<dots> = take_bit k a" by (simp add: and.commute [of _ a] take_bit_eq_mask mask_eq_exp_minus_1)
  finally show ?thesis using assms by (simp add: take_bit_nat_eq_self)
qed

lemma findCell_ok:
  assumes hold: "page_holds pg cs fl" and ready: "page_ready pg" and i: "i < length cs"
  shows "\<exists>r. findCell pg i = Inr (snd (cs ! i) @ r)" "cell_fits pg (snd (cs ! i))"
proof -
  note p = page_holdsD [OF hold]
  note l = layoutD [OF p(8)]
  obtain a c where ac: "cs ! i = (a, c)" by (cases "cs ! i")
  have m: "(a, c) \<in> set cs" using ac i nth_mem [of i cs] by simp
  have r: "4 \<le> length c" "content (aData pg) (hdrOffset pg) \<le> a" "a + length c \<le> usable pg"
    using l(10) [OF in_regions [OF m]] by simp_all
  have ptr: "g2 (aData pg) (cellOffset pg + 2 * i) = a" using p(9) i ac by (auto simp: points_def)
  have get: "get2byte (aData pg) (cellOffset pg + 2 * i) = Inr a" using ptr l(2-4) p(13) i r by simp
  have b: "bytes (aData pg) a (length c) = c" using p(10) m by (auto simp: stored_at_def)
  obtain k where k: "k \<le> 16" "bt_pageSize (pBt pg) = 2 ^ k"
    using bt_readyD(6) ready unfolding page_ready_def by blast
  have "a < 2 ^ k" using r p(5) k(2) by linarith
  then have "unat (maskPage pg AND of_nat a) = a" using mask_offset [OF k(1)] ready k(2) by (simp add: page_ready_def)
  then have "findCell pg i = Inr (drop a (aData pg))" by (simp add: findCell_def get)
  moreover have "drop a (aData pg) = c @ drop (a + length c) (aData pg)" by (rule drop_bytes [OF _ b]) (use r l(4) in simp)
  ultimately show "\<exists>r. findCell pg i = Inr (snd (cs ! i) @ r)" using ac by auto
  show "cell_fits pg (snd (cs ! i))" using p(11) [OF m] ac by simp
qed

section \<open>The operations as steps\<close>

datatype page_op =
    PInsert nat "u8 list"
  | PInsertChild nat "u8 list" u32
  | PDrop nat
  | PDefragment int
  | PReload
  | PRead nat

datatype page_out = PDone page_rc | PCell "u8 list"

text \<open>The size that a removal passes on is the one its caller computes, \<open>xCellSize\<close>.  The
  page is writable and no pointer-map entry fails.\<close>

definition page_done :: "(page_rc \<times> mem_page) res \<Rightarrow> (mem_page \<times> page_out) res" where
  "page_done r = bind_res r (\<lambda>(rc, pg). Inr (pg, PDone rc))"

fun page_step :: "u8 list \<Rightarrow> mem_page \<Rightarrow> page_op \<Rightarrow> (mem_page \<times> page_out) res" where
  "page_step temp pg (PInsert i c) = page_done (insertCellFast 0 0 temp pg i c (length c))"
| "page_step temp pg (PInsertChild i c v) = page_done (insertCell 0 0 temp pg i c (length c) v)"
| "page_step temp pg (PDrop i) =
     bind_res (findCell pg i) (\<lambda>c. bind_res (cellSize pg c) (\<lambda>sz. page_done (dropCell pg i sz PageOK)))"
| "page_step temp pg (PDefragment m) = page_done (defragmentPage pg m temp)"
| "page_step temp pg PReload = page_done (reload pg)"
| "page_step temp pg (PRead i) =
     bind_res (findCell pg i) (\<lambda>c. bind_res (cellSize pg c) (\<lambda>sz. bind_res (read_bytes c 0 sz) (\<lambda>bs. Inr (pg, PCell bs))))"

text \<open>The assertions of the routines.  That the cells put on the side have ascending places is
  asserted too, and not needed here.\<close>

fun page_allowed :: "mem_page \<Rightarrow> page_op \<Rightarrow> bool" where
  "page_allowed pg (PInsert i c) \<longleftrightarrow> overflow pg = [] \<and> i \<le> nCell pg \<and> cell_fits pg c"
| "page_allowed pg (PInsertChild i c v) \<longleftrightarrow>
     i \<le> nCell pg + length (overflow pg) \<and> length (overflow pg) < 3 \<and> cell_fits pg c \<and> childPtrSize pg = 4"
| "page_allowed pg (PDrop i) \<longleftrightarrow> i < nCell pg"
| "page_allowed pg (PDefragment m) \<longleftrightarrow> overflow pg = []"
| "page_allowed pg PReload \<longleftrightarrow> overflow pg = []"
| "page_allowed pg (PRead i) \<longleftrightarrow> i < nCell pg"

section \<open>What a page promises\<close>

text \<open>The room for cells and their pointers, the cells, and the cells that did not fit with the
  places they belong to.\<close>

record page_model =
  pm_room :: nat
  pm_cells :: "u8 list list"
  pm_over :: "(nat \<times> u8 list) list"

definition pm_used :: "page_model \<Rightarrow> nat" where
  "pm_used M = sum_list (map (\<lambda>c. length c + 2) (pm_cells M))"

definition pm_insert :: "page_model \<Rightarrow> nat \<Rightarrow> u8 list \<Rightarrow> page_model" where
  "pm_insert M i c = M\<lparr>pm_cells := take i (pm_cells M) @ c # drop i (pm_cells M)\<rparr>"

definition pm_keep :: "page_model \<Rightarrow> nat \<Rightarrow> u8 list \<Rightarrow> page_model" where
  "pm_keep M i c = M\<lparr>pm_over := pm_over M @ [(i, c)]\<rparr>"

fun page_spec :: "page_model \<Rightarrow> page_op \<Rightarrow> page_model \<times> page_out" where
  "page_spec M (PInsert i c) =
     (if pm_used M + length c + 2 \<le> pm_room M then pm_insert M i c else pm_keep M i c, PDone PageOK)"
| "page_spec M (PInsertChild i c v) =
     (if pm_over M = [] \<and> pm_used M + length c + 2 \<le> pm_room M then pm_insert M i (with_child v c)
      else pm_keep M i (with_child v c), PDone PageOK)"
| "page_spec M (PDrop i) =
     (M\<lparr>pm_cells := take i (pm_cells M) @ drop (Suc i) (pm_cells M)\<rparr>, PDone PageOK)"
| "page_spec M (PDefragment m) = (M, PDone PageOK)"
| "page_spec M PReload = (M, PDone PageOK)"
| "page_spec M (PRead i) = (M, PCell (pm_cells M ! i))"

definition page_rep :: "mem_page \<Rightarrow> page_model \<Rightarrow> bool" where
  "page_rep pg M \<longleftrightarrow> page_ready pg \<and> page_stores pg (pm_cells M) \<and> overflow pg = pm_over M \<and>
     pm_room M = usable pg - cellOffset pg"

lemma page_repI:
  assumes "page_holds pg' cs fl" "map snd cs = pm_cells M'" "page_frame pg' = page_frame pg" "page_rep pg M"
    and "pm_over M' = pm_over M" "pm_room M' = pm_room M"
  shows "page_rep pg' M'"
  using assms page_frameD [OF assms(3)] by (auto simp: page_rep_def page_ready_def page_stores_def)

lemma page_holds_over:
  assumes "page_holds pg cs fl" shows "page_holds (pg\<lparr>overflow := v\<rparr>) cs fl"
proof -
  note p = page_holdsD [OF assms]
  have g: "gap_of (pg\<lparr>overflow := v\<rparr>) = gap_of pg" by (simp add: gap_of_def)
  show ?thesis by (rule page_holdsI) (unfold g, use p flags_ok_upd(4) [OF p(1)] in simp_all)
qed

lemma page_rep_over: "page_rep pg M \<Longrightarrow> page_rep (pg\<lparr>overflow := overflow pg @ [(i, c)]\<rparr>) (pm_keep M i c)"
  unfolding page_rep_def pm_keep_def page_ready_def page_stores_def using page_holds_over by fastforce

lemma page_repE:
  assumes "page_rep pg M"
  obtains cs fl where "page_holds pg cs fl" "map snd cs = pm_cells M" "page_ready pg" "overflow pg = pm_over M"
    "nCell pg = length cs" "length (pm_cells M) = length cs"
    "nFree pg = int (pm_room M) - int (pm_used M)"
proof -
  obtain cs fl where cs: "page_holds pg cs fl" "map snd cs = pm_cells M" "page_ready pg" "overflow pg = pm_over M"
    "pm_room M = usable pg - cellOffset pg"
    using assms by (auto simp: page_rep_def page_stores_def)
  note p = page_holdsD [OF cs(1)]
  have "cellOffset pg \<le> usable pg" using p(2,3,4) layoutD(2,3) [OF p(8)] layoutD(14) [OF p(8)] p(13) by linarith
  moreover have "pm_used M = sumlen (regions cs) + 2 * length cs"
  proof -
    have "pm_used M = sum_list (map (\<lambda>(a, c). length c + 2) cs)"
      using cs(2) [symmetric] by (simp add: pm_used_def comp_def case_prod_unfold)
    also have "\<dots> = sumlen (regions cs) + 2 * length cs" by (induction cs) auto
    finally show ?thesis .
  qed
  ultimately have "nFree pg = int (pm_room M) - int (pm_used M)" using p(12,13) cs(5) by linarith
  moreover have "length (pm_cells M) = length cs" using cs(2) [symmetric] by simp
  ultimately show ?thesis using that cs p(6) by blast
qed

text \<open>The steps, one lemma for each kind.\<close>

lemma step_insert:
  assumes rep: "page_rep pg M" and ok: "page_allowed pg (PInsert i c)"
  shows "\<exists>pg'. page_step temp pg (PInsert i c) = Inr (pg', snd (page_spec M (PInsert i c))) \<and>
    page_rep pg' (fst (page_spec M (PInsert i c)))"
proof -
  obtain cs fl where cs: "page_holds pg cs fl" "map snd cs = pm_cells M" "page_ready pg" "overflow pg = pm_over M"
    "nCell pg = length cs" "length (pm_cells M) = length cs"
    "nFree pg = int (pm_room M) - int (pm_used M)"
    using page_repE [OF rep] .
  have room: "int (n + 2) \<le> nFree pg \<longleftrightarrow> pm_used M + n + 2 \<le> pm_room M" for n using cs(7) by linarith
  show ?thesis
  proof (cases "int (length c + 2) \<le> nFree pg")
    case True
    have "i \<le> length cs" "cell_fits pg c" using ok cs(5) by simp_all
    from insertCellFast_ok [OF cs(1) this True, of 0 temp] obtain pg' a cs' fl' where
      pg': "insertCellFast 0 0 temp pg i c (length c) = Inr (PageOK, pg')"
        "page_holds pg' (take i cs' @ (a, c) # drop i cs') fl'" "map snd cs' = map snd cs" "page_frame pg' = page_frame pg"
      by auto
    have "page_rep pg' (pm_insert M i c)"
      by (rule page_repI [OF pg'(2) _ pg'(4) rep]) (simp_all only: placed_insert pg'(3) cs(2), simp_all add: pm_insert_def)
    then show ?thesis using pg'(1) True room by (simp add: page_done_def)
  next
    case False
    then have "nFree pg < int (length c + 2)" "\<not> pm_used M + length c + 2 \<le> pm_room M" using cs(7) by linarith+
    then show ?thesis using page_rep_over [OF rep] by (simp add: page_done_def insertCellFast_def)
  qed
qed

lemma step_insert_child:
  assumes rep: "page_rep pg M" and ok: "page_allowed pg (PInsertChild i c v)"
  shows "\<exists>pg'. page_step temp pg (PInsertChild i c v) = Inr (pg', snd (page_spec M (PInsertChild i c v))) \<and>
    page_rep pg' (fst (page_spec M (PInsertChild i c v)))"
proof -
  obtain cs fl where cs: "page_holds pg cs fl" "map snd cs = pm_cells M" "page_ready pg" "overflow pg = pm_over M"
    "nCell pg = length cs" "length (pm_cells M) = length cs"
    "nFree pg = int (pm_room M) - int (pm_used M)"
    using page_repE [OF rep] .
  have room: "int (n + 2) \<le> nFree pg \<longleftrightarrow> pm_used M + n + 2 \<le> pm_room M" for n using cs(7) by linarith
  show ?thesis
  proof (cases "overflow pg = [] \<and> int (length c + 2) \<le> nFree pg")
    case True
    have "i \<le> length cs" "cell_fits pg c" "childPtrSize pg = 4" using ok cs(5) True by simp_all
    from insertCell_ok [OF cs(1) this, of 0 temp v] True obtain pg' a cs' fl' where
      pg': "insertCell 0 0 temp pg i c (length c) v = Inr (PageOK, pg')"
        "page_holds pg' (take i cs' @ (a, with_child v c) # drop i cs') fl'" "map snd cs' = map snd cs"
        "page_frame pg' = page_frame pg"
      by auto
    have "page_rep pg' (pm_insert M i (with_child v c))"
      by (rule page_repI [OF pg'(2) _ pg'(4) rep]) (simp_all only: placed_insert pg'(3) cs(2), simp_all add: pm_insert_def)
    then show ?thesis using pg'(1) True cs(4) room by (simp add: page_done_def)
  next
    case False
    have "4 \<le> length c" using ok by (simp add: cell_fits_def)
    moreover have "overflow pg \<noteq> [] \<or> nFree pg < int (length c + 2)"
      "\<not> (pm_over M = [] \<and> pm_used M + length c + 2 \<le> pm_room M)"
      using False cs(4,7) by (metis not_less, metis room)
    ultimately show ?thesis using page_rep_over [OF rep]
      unfolding page_step.simps page_spec.simps insertCell_def by (simp only: if_True if_False put4_at_start page_done_def) simp
  qed
qed

lemma step_at_cell:
  assumes rep: "page_rep pg M" and i: "i < nCell pg"
  obtains cs fl a c r where "page_holds pg cs fl" "map snd cs = pm_cells M" "cs ! i = (a, c)" "i < length cs"
    "findCell pg i = Inr (c @ r)" "cellSize pg (c @ r) = Inr (length c)"
proof -
  obtain cs fl where cs: "page_holds pg cs fl" "map snd cs = pm_cells M" "page_ready pg" "nCell pg = length cs"
    using page_repE [OF rep] by blast
  have i': "i < length cs" using i cs(4) by simp
  obtain a c where ac: "cs ! i = (a, c)" by (cases "cs ! i")
  obtain r where r: "findCell pg i = Inr (c @ r)" "cell_fits pg c"
    using findCell_ok [OF cs(1,3) i'] ac by auto
  moreover have "cellSize pg (c @ r) = Inr (length c)" using r(2) by (simp add: cell_fits_def cellSize_append)
  ultimately show ?thesis using that cs ac i' by blast
qed

lemma step_drop:
  assumes rep: "page_rep pg M" and ok: "page_allowed pg (PDrop i)"
  shows "\<exists>pg'. page_step temp pg (PDrop i) = Inr (pg', snd (page_spec M (PDrop i))) \<and>
    page_rep pg' (fst (page_spec M (PDrop i)))"
proof -
  have "i < nCell pg" using ok by simp
  from step_at_cell [OF rep this] obtain cs fl a c r where cs: "page_holds pg cs fl" "map snd cs = pm_cells M"
    "cs ! i = (a, c)" "i < length cs" "findCell pg i = Inr (c @ r)" "cellSize pg (c @ r) = Inr (length c)" .
  have split: "cs = take i cs @ (a, c) # drop (Suc i) cs" using id_take_nth_drop [OF cs(4)] cs(3) by simp
  have hold: "page_holds pg (take i cs @ (a, c) # drop (Suc i) cs) fl" using cs(1) by (subst (asm) split)
  have "length (take i cs) = i" using cs(4) by simp
  with dropCell_ok [OF hold] obtain pg' fl' where pg': "dropCell pg i (length c) PageOK = Inr (PageOK, pg')"
    "page_holds pg' (take i cs @ drop (Suc i) cs) fl'" "page_frame pg' = page_frame pg" by auto
  have "page_rep pg' (fst (page_spec M (PDrop i)))"
    by (rule page_repI [OF pg'(2) _ pg'(3) rep]) (simp_all add: cs(2) [symmetric] take_map drop_map)
  then show ?thesis using pg'(1) cs(5,6) by (simp add: page_done_def)
qed

lemma step_read:
  assumes rep: "page_rep pg M" and ok: "page_allowed pg (PRead i)"
  shows "page_step temp pg (PRead i) = Inr (pg, PCell (pm_cells M ! i))"
proof -
  have "i < nCell pg" using ok by simp
  from step_at_cell [OF rep this] obtain cs fl a c r where cs: "page_holds pg cs fl" "map snd cs = pm_cells M"
    "cs ! i = (a, c)" "i < length cs" "findCell pg i = Inr (c @ r)" "cellSize pg (c @ r) = Inr (length c)" .
  then show ?thesis by (simp add: read_bytes_def cs(2) [symmetric])
qed

lemma step_defragment:
  assumes rep: "page_rep pg M"
  shows "\<exists>pg'. page_step temp pg (PDefragment m) = Inr (pg', PDone PageOK) \<and> page_rep pg' M"
proof -
  obtain cs fl where cs: "page_holds pg cs fl" "map snd cs = pm_cells M" using page_repE [OF rep] by blast
  obtain d' cs' where d': "defragmentPage pg m temp = Inr (PageOK, pg\<lparr>aData := d'\<rparr>)" "map snd cs' = map snd cs"
    "page_holds (pg\<lparr>aData := d'\<rparr>) cs' []"
    using defragmentPage_ok [OF cs(1)] by blast
  have "page_rep (pg\<lparr>aData := d'\<rparr>) M" by (rule page_repI [OF d'(3) _ _ rep]) (simp_all add: d'(2) cs(2))
  then show ?thesis using d'(1) by (simp add: page_done_def)
qed

interpretation page_sim: simulated page_rep page_allowed "page_step temp" page_spec
proof unfold_locales
  fix pg M p assume a: "page_rep pg M" "page_allowed pg p"
  show "\<exists>pg'. page_step temp pg p = Inr (pg', snd (page_spec M p)) \<and> page_rep pg' (fst (page_spec M p))"
  proof (cases p)
    case (PInsert i c)
    then show ?thesis using step_insert a by blast
  next
    case (PInsertChild i c v)
    then show ?thesis using step_insert_child a by blast
  next
    case (PDrop i)
    then show ?thesis using step_drop a by blast
  next
    case (PDefragment m)
    then show ?thesis using step_defragment [OF a(1)] by simp
  next
    case PReload
    obtain cs fl where "page_holds pg cs fl" "page_ready pg" using page_repE [OF a(1)] by blast
    then show ?thesis using reload_ok a PReload by (simp add: page_done_def)
  next
    case (PRead i)
    then show ?thesis using step_read [of pg M i temp] a by simp
  qed
qed

section \<open>Properties\<close>

lemma zero_page_rep:
  assumes "page_shape pg0" "bt_ready (pBt pg0)" "flags \<in> {2, 5, 10, 13}" "zeroPage pg0 flags = Inr pg"
  shows "page_rep pg \<lparr>pm_room = usable pg - cellOffset pg, pm_cells = [], pm_over = []\<rparr>"
proof -
  from zeroPage_ok [OF assms(1,3)] assms(4) have pg: "page_holds pg [] []" "overflow pg = []" "pBt pg = pBt pg0"
    "maskPage pg = of_nat (bt_pageSize (pBt pg0) - 1)" "isInit pg" by auto
  then show ?thesis using assms(2) by (auto simp: page_rep_def page_ready_def page_stores_def)
qed

text \<open>C28. A page is a list of cells.  From \<open>zeroPage\<close> on, whatever sequence of insertions,
  removals, defragmentations, reloads and reads the assertions allow, no access leaves the page,
  no routine reports corruption, every read yields the cell that was put there, and a cell is
  put on the page exactly when its bytes and a pointer of two bytes fit into what the other
  cells leave of the page; fragmentation never refuses a cell.\<close>

theorem page_runs:
  assumes "page_shape pg0" "bt_ready (pBt pg0)" "flags \<in> {2, 5, 10, 13}" "zeroPage pg0 flags = Inr pg"
    and "run_allowed page_allowed (page_step temp) pg ops"
  defines "M \<equiv> \<lparr>pm_room = usable pg - cellOffset pg, pm_cells = [], pm_over = []\<rparr>"
  shows "\<exists>pg'. run_ops (page_step temp) pg ops = Inr (pg', snd (run_spec page_spec M ops)) \<and>
    page_rep pg' (fst (run_spec page_spec M ops))"
  unfolding M_def by (rule page_sim.run_sim [OF zero_page_rep [OF assms(1-4)] assms(5)])

definition sample_cell :: "nat \<Rightarrow> u8 list" where
  "sample_cell n = [of_nat n, 1] @ replicate n 7"

lemma sample_ready: "page_shape sample_page" "bt_ready (pBt sample_page)"
proof -
  have "(9 :: nat) \<in> {9..16}" by simp
  then have "(512 :: nat) \<in> (\<lambda>k. 2 ^ k) ` {9..16}" by (rule rev_image_eqI) simp
  then show "page_shape sample_page" "bt_ready (pBt sample_page)"
    by (simp_all add: page_shape_def bt_ready_def sample_page_def sample_bt_def local_limits_def Let_def SQLITE_MAX_PAGE_SIZE_def)
qed

lemma zeroPage_fields:
  assumes "zeroPage pg flags = Inr pg'"
  shows "xCellSize pg' = xCellSize (snd (decodeFlags pg flags))" "maxLocal pg' = maxLocal (snd (decodeFlags pg flags))"
    "minLocal pg' = minLocal (snd (decodeFlags pg flags))" "nCell pg' = 0" "pBt pg' = pBt pg" "overflow pg' = []"
    "cellOffset pg' = hdrOffset pg + (if flags AND PTF_LEAF = 0 then 12 else 8)"
  using assms by (auto simp: zeroPage_def Let_def bind_res_eq_Inr decode_upd case_prod_unfold)

lemma sample_cell_9: "sample_cell 9 = [9, 1, 7, 7, 7, 7, 7, 7, 7, 7, 7]"
  by code_simp

lemma sample_fits:
  assumes "zeroPage sample_page 13 = Inr pg"
  shows "page_allowed pg (PInsert 0 (sample_cell 9))"
proof -
  have "xCellSize pg = cellSizePtrTableLeaf" "maxLocal pg = 477"
    using zeroPage_fields [OF assms] by (simp_all add: decodeFlags_def ptf_values sample_page_def sample_bt_def local_limits_def Let_def)
  moreover have sk: "skip_key 8 [9, 1, 7, 7, 7, 7, 7, 7, 7, 7, 7] 1 = Inr 2" by code_simp
  ultimately have "cell_fits pg (sample_cell 9)"
    using sk by (simp add: sample_cell_9 cell_fits_def cellSize_def cellSize_table_leaf_def cell_payload_def Let_def)
  then show ?thesis using zeroPage_fields [OF assms] by simp
qed

lemma run_allowed_step:
  assumes "page_rep pg M" "page_allowed pg p"
    and "\<And>pg'. page_rep pg' (fst (page_spec M p)) \<Longrightarrow> run_allowed page_allowed (page_step temp) pg' ops"
  shows "run_allowed page_allowed (page_step temp) pg (p # ops)"
  using page_sim.step_sim [OF assms(1,2), of temp] assms(2,3) by auto

lemma page_rep_counts: "page_rep pg M \<Longrightarrow> nCell pg = length (pm_cells M) \<and> overflow pg = pm_over M"
  using page_repE by metis

definition sample_page_ops :: "page_op list" where
  "sample_page_ops = [PInsert 0 (sample_cell 9), PDefragment 0, PRead 0, PDrop 0, PReload]"

lemma sample_room:
  assumes "zeroPage sample_page 13 = Inr pg"
  shows "pm_used \<lparr>pm_room = r, pm_cells = [], pm_over = []\<rparr> + length (sample_cell 9) + 2 \<le> usable pg - cellOffset pg"
  using zeroPage_fields(5,7) [OF assms]
  by (simp add: pm_used_def sample_cell_9 ptf_values sample_page_def sample_bt_def local_limits_def Let_def)

lemma sample_page_allowed:
  assumes "zeroPage sample_page 13 = Inr pg"
  shows "run_allowed page_allowed (page_step temp) pg sample_page_ops"
proof -
  have rep: "page_rep pg \<lparr>pm_room = usable pg - cellOffset pg, pm_cells = [], pm_over = []\<rparr>"
    by (rule zero_page_rep [OF sample_ready _ assms]) simp
  define R where "R = usable pg - cellOffset pg"
  have 5: "run_allowed page_allowed (page_step temp) q [PReload]"
    if "page_rep q \<lparr>pm_room = R, pm_cells = [], pm_over = []\<rparr>" for q
    by (rule run_allowed_step [OF that]) (use page_rep_counts [OF that] in simp_all)
  have 4: "run_allowed page_allowed (page_step temp) q [PDrop 0, PReload]"
    if "page_rep q \<lparr>pm_room = R, pm_cells = [sample_cell 9], pm_over = []\<rparr>" for q
    by (rule run_allowed_step [OF that]) (use page_rep_counts [OF that] 5 in simp_all)
  have 3: "run_allowed page_allowed (page_step temp) q [PRead 0, PDrop 0, PReload]"
    if "page_rep q \<lparr>pm_room = R, pm_cells = [sample_cell 9], pm_over = []\<rparr>" for q
    by (rule run_allowed_step [OF that]) (use page_rep_counts [OF that] 4 in simp_all)
  have 2: "run_allowed page_allowed (page_step temp) q [PDefragment 0, PRead 0, PDrop 0, PReload]"
    if "page_rep q \<lparr>pm_room = R, pm_cells = [sample_cell 9], pm_over = []\<rparr>" for q
    by (rule run_allowed_step [OF that]) (use page_rep_counts [OF that] 3 in simp_all)
  show ?thesis unfolding sample_page_ops_def
    by (rule run_allowed_step [OF rep sample_fits [OF assms]])
      (use sample_room [OF assms] 2 in \<open>simp add: pm_insert_def R_def\<close>)
qed

theorem page_runs_witness:
  "\<exists>pg pg'. zeroPage sample_page 13 = Inr pg \<and>
     run_ops (page_step []) pg sample_page_ops =
       Inr (pg', [PDone PageOK, PDone PageOK, PCell (sample_cell 9), PDone PageOK, PDone PageOK])"
proof -
  obtain pg where pg: "zeroPage sample_page 13 = Inr pg" using zeroPage_ok [OF sample_ready(1), of 13] by auto
  have "\<exists>pg'. run_ops (page_step []) pg sample_page_ops = Inr (pg', snd (run_spec page_spec
      \<lparr>pm_room = usable pg - cellOffset pg, pm_cells = [], pm_over = []\<rparr> sample_page_ops))"
    using page_runs [OF sample_ready _ pg sample_page_allowed [OF pg]] by auto
  then show ?thesis using pg sample_room [OF pg] by (auto simp: sample_page_ops_def pm_insert_def)
qed

text \<open>C29. After any allowed run, a page without waiting cells that is forgotten and read from
  its bytes again, by \<open>btreeInitPage\<close> with the check of every cell and by
  \<open>btreeComputeFreeSpace\<close>, is the same page in every field, the count of its free bytes
  included.\<close>

theorem page_reload:
  assumes "page_rep pg M" "run_allowed page_allowed (page_step temp) pg ops"
    and "run_ops (page_step temp) pg ops = Inr (pg', outs)" "overflow pg' = []"
  shows "reload pg' = Inr (PageOK, pg')"
proof -
  have "page_rep pg' (fst (run_spec page_spec M ops))" using page_sim.run_sim [OF assms(1,2)] assms(3) by auto
  then obtain cs fl where "page_holds pg' cs fl" "page_ready pg'" using page_repE by blast
  then show ?thesis using reload_ok assms(4) by blast
qed

theorem page_reload_witness:
  "\<exists>pg pg' outs. zeroPage sample_page 13 = Inr pg \<and>
     run_ops (page_step []) pg [PInsert 0 (sample_cell 9)] = Inr (pg', outs) \<and> nCell pg' = 1 \<and> reload pg' = Inr (PageOK, pg')"
proof -
  obtain pg where pg: "zeroPage sample_page 13 = Inr pg" using zeroPage_ok [OF sample_ready(1), of 13] by auto
  have rep: "page_rep pg \<lparr>pm_room = usable pg - cellOffset pg, pm_cells = [], pm_over = []\<rparr>"
    by (rule zero_page_rep [OF sample_ready _ pg]) simp
  have al: "run_allowed page_allowed (page_step []) pg [PInsert 0 (sample_cell 9)]"
    by (rule run_allowed_step [OF rep sample_fits [OF pg]]) simp
  obtain pg' where pg': "run_ops (page_step []) pg [PInsert 0 (sample_cell 9)] = Inr (pg', [PDone PageOK])"
    "page_rep pg' \<lparr>pm_room = usable pg - cellOffset pg, pm_cells = [sample_cell 9], pm_over = []\<rparr>"
    using page_sim.run_sim [OF rep al] sample_room [OF pg] by (auto simp: pm_insert_def)
  from page_rep_counts [OF pg'(2)] have n: "nCell pg' = 1" "overflow pg' = []" by simp_all
  show ?thesis using page_reload [OF rep al pg'(1) n(2)] pg pg'(1) n(1) by blast
qed

end
