(* ===== verification/SqliteBtSafe.thy ===== *)
theory SqliteBtSafe
  imports SqliteBtSpace
begin

text \<open>
  The space of a page whose bytes are arbitrary, a corrupt file: the search for a slot and the
  release of space end, stay within the page and answer with a result code.
\<close>

text \<open>What a routine that only changes the bytes between the flags and the end of the usable
  part answers.\<close>

definition stays :: "mem_page \<Rightarrow> page_rc \<Rightarrow> mem_page \<Rightarrow> bool" where
  "stays pg rc pg' \<longleftrightarrow> rc \<in> {PageOK, PageCorrupt} \<and> pg' = pg\<lparr>aData := aData pg', nFree := nFree pg'\<rparr> \<and>
     outside (aData pg) (aData pg') {hdrOffset pg + 1..<usable pg}"

lemma stays_refl [simp]: "rc \<in> {PageOK, PageCorrupt} \<Longrightarrow> stays pg rc pg"
  by (simp add: stays_def)

lemma staysI:
  "outside (aData pg) d {hdrOffset pg + 1..<usable pg} \<Longrightarrow> rc \<in> {PageOK, PageCorrupt} \<Longrightarrow> stays pg rc (pg\<lparr>aData := d\<rparr>)"
  "outside (aData pg) d {hdrOffset pg + 1..<usable pg} \<Longrightarrow> rc \<in> {PageOK, PageCorrupt} \<Longrightarrow>
   stays pg rc (pg\<lparr>aData := d, nFree := f\<rparr>)"
  by (simp_all add: stays_def)

lemma stays_from: "outside (aData pg) d {hdrOffset pg + 1..<usable pg} \<Longrightarrow> stays (pg\<lparr>aData := d\<rparr>) rc pg' \<Longrightarrow> stays pg rc pg'"
  using outside_trans by (auto simp: stays_def)

section \<open>Release\<close>

lemma find_place_safe:
  assumes "iPtr < iStart" "iStart < length d"
  shows "find_place d iStart iPtr = Inr None \<or>
    (\<exists>q b. find_place d iStart iPtr = Inr (Some (q, b)) \<and> iPtr \<le> q \<and> q < iStart)"
  using assms
proof (induction d iStart iPtr rule: find_place.induct)
  case (1 d iStart iPtr)
  have g: "get2byte d iPtr = Inr (g2 d iPtr)" using "1.prems" by simp
  show ?case
  proof (cases "iPtr < g2 d iPtr \<and> g2 d iPtr < iStart")
    case True
    then show ?thesis using "1.IH" [OF g] "1.prems" g by (simp add: find_place.simps [of d iStart iPtr]) auto
  next
    case False
    then show ?thesis using "1.prems" g by (auto simp: find_place.simps [of d iStart iPtr])
  qed
qed

lemma join_next_safe:
  assumes "iEnd \<le> usable pg" "usable pg \<le> length (aData pg)" "b + 4 \<le> usable pg"
  shows "join_next pg iStart iEnd b = Inr None \<or>
    (\<exists>e b' f. join_next pg iStart iEnd b = Inr (Some (e, b', f)) \<and> iEnd \<le> e \<and> e \<le> usable pg)"
  using assms by (auto simp: join_next_def)

lemma join_previous_safe:
  assumes "hdrOffset pg + 1 \<le> iPtr" "iPtr < iStart" "iStart + 3 < length (aData pg)"
  shows "join_previous pg iPtr iStart = Inr None \<or>
    (\<exists>s f. join_previous pg iPtr iStart = Inr (Some (s, f)) \<and> hdrOffset pg + 1 \<le> s \<and> s \<le> iStart)"
  using assms by (auto simp: join_previous_def)

lemma release_block_safe:
  assumes q: "hdrOffset pg + 1 \<le> iPtr" "iPtr + 2 \<le> usable pg" and s: "hdrOffset pg + 1 \<le> iStart" "iStart + 4 \<le> iEnd"
    and U: "iEnd \<le> usable pg" "usable pg \<le> length (aData pg)" "hdrOffset pg + 8 \<le> usable pg"
  shows "\<exists>rc pg'. release_block pg iPtr iStart iEnd b n = Inr (rc, pg') \<and> stays pg rc pg'"
proof -
  define W where "W = {hdrOffset pg + 1..<usable pg}"
  have m: "(iEnd - iStart) mod 65536 \<le> iEnd - iStart" by simp
  define d where "d = (if fast_secure (pBt pg) then blit (aData pg) iStart (replicate ((iEnd - iStart) mod 65536) 0) else aData pg)"
  have z: "(if fast_secure (pBt pg) then zero_bytes (aData pg) iStart (int ((iEnd - iStart) mod 65536)) else Inr (aData pg)) = Inr d"
    using m s U by (simp add: d_def zero_bytes_def)
  have o: "outside (aData pg) d W"
    unfolding d_def using m s U by (auto intro!: outside_blit simp: W_def)
  have l: "length d = length (aData pg)" by (rule outside_length [OF o])
  have g: "get2byte (aData pg) (hdrOffset pg + 5) = Inr (g2 (aData pg) (hdrOffset pg + 5))" using U by simp
  have o1: "outside (aData pg) (put2 (put2 d (hdrOffset pg + 1) b) (hdrOffset pg + 5) iEnd) W"
    by (intro outside_put2 o) (use U in \<open>simp_all add: W_def\<close>)
  have o2: "outside (aData pg) (put2 (put2 (put2 d iPtr iStart) iStart b) (iStart + 2) ((iEnd - iStart) mod 65536)) W"
    by (intro outside_put2 o) (use q s U in \<open>simp_all add: W_def\<close>)
  note I = staysI [of pg, folded W_def]
  show ?thesis
    unfolding release_block_def Let_def g z bind_res_Inr
    using o o1 o2 l q s U by (auto intro!: I)
qed

lemma freeSpace_safe:
  assumes s: "hdrOffset pg + 2 \<le> iStart" "4 \<le> iSize" "iStart + iSize \<le> usable pg"
    and U: "usable pg \<le> length (aData pg)" "hdrOffset pg + 8 \<le> usable pg"
  shows "\<exists>rc pg'. freeSpace pg iStart iSize = Inr (rc, pg') \<and> stays pg rc pg'"
proof -
  define d where "d = aData pg"
  define h where "h = hdrOffset pg"
  have g: "get2byte d (h + 1) = Inr (g2 d (h + 1))" "nth_res d (h + 7) = Inr (d ! (h + 7))"
    using U by (simp_all add: d_def h_def)
  have corrupt: "stays pg PageCorrupt pg" by simp
  have rel: "\<exists>rc pg'. release_block (pg\<lparr>aData := d'\<rparr>) iPtr iStart' iEnd b iSize = Inr (rc, pg') \<and> stays pg rc pg'"
    if o: "outside d d' {h + 1..<usable pg}" and q: "h + 1 \<le> iPtr" "iPtr < iStart" "h + 1 \<le> iStart'"
      "iStart' \<le> iStart" "iStart + iSize \<le> iEnd" "iEnd \<le> usable pg" for d' iPtr iStart' iEnd b
  proof -
    have "\<exists>rc pg'. release_block (pg\<lparr>aData := d'\<rparr>) iPtr iStart' iEnd b iSize = Inr (rc, pg') \<and> stays (pg\<lparr>aData := d'\<rparr>) rc pg'"
      by (rule release_block_safe) (use q s U outside_length [OF o] in \<open>simp_all add: h_def d_def\<close>)
    then show ?thesis using stays_from [OF o [unfolded d_def h_def]] by blast
  qed
  show ?thesis
  proof (cases "g2 d (h + 1) = 0")
    case True
    have "\<exists>rc pg'. release_block (pg\<lparr>aData := d\<rparr>) (h + 1) iStart (iStart + iSize) 0 iSize = Inr (rc, pg') \<and> stays pg rc pg'"
      by (rule rel) (use s in \<open>simp_all add: h_def\<close>)
    then show ?thesis using True g by (simp add: freeSpace_def Let_def d_def h_def)
  next
    case False
    have "find_place d iStart (h + 1) = Inr None \<or>
        (\<exists>q b. find_place d iStart (h + 1) = Inr (Some (q, b)) \<and> h + 1 \<le> q \<and> q < iStart)"
      by (rule find_place_safe) (use s U in \<open>simp_all add: h_def d_def\<close>)
    then consider "find_place d iStart (h + 1) = Inr None"
      | (found) q b where "find_place d iStart (h + 1) = Inr (Some (q, b))" "h + 1 \<le> q" "q < iStart" by blast
    then show ?thesis
    proof cases
      case 1
      then show ?thesis using False g corrupt by (simp add: freeSpace_def Let_def d_def h_def)
    next
      case found
      show ?thesis
      proof (cases "int (usable pg) - 4 < int b")
        case True
        then show ?thesis using False g corrupt found(1) by (simp add: freeSpace_def Let_def d_def h_def)
      next
        case b: False
        have n: "join_next pg iStart (iStart + iSize) b = Inr None \<or>
          (\<exists>e b' f. join_next pg iStart (iStart + iSize) b = Inr (Some (e, b', f)) \<and> iStart + iSize \<le> e \<and> e \<le> usable pg)"
          by (rule join_next_safe) (use s U b in simp_all)
        have p: "join_previous pg q iStart = Inr None \<or>
          (\<exists>s f. join_previous pg q iStart = Inr (Some (s, f)) \<and> hdrOffset pg + 1 \<le> s \<and> s \<le> iStart)"
          by (rule join_previous_safe) (use s U found in \<open>simp_all add: h_def\<close>)
        from n show ?thesis
        proof (elim disjE exE conjE)
          assume "join_next pg iStart (iStart + iSize) b = Inr None"
          then show ?thesis using False g b corrupt found(1) by (simp add: freeSpace_def Let_def d_def h_def)
        next
          fix e b' f1 assume n: "join_next pg iStart (iStart + iSize) b = Inr (Some (e, b', f1))" "iStart + iSize \<le> e" "e \<le> usable pg"
          from p show ?thesis
          proof (elim disjE exE conjE)
            assume "join_previous pg q iStart = Inr None"
            then show ?thesis using False g b corrupt found(1) n(1) by (simp add: freeSpace_def Let_def d_def h_def)
          next
            fix s' f2 assume p: "join_previous pg q iStart = Inr (Some (s', f2))" "hdrOffset pg + 1 \<le> s'" "s' \<le> iStart"
            define d' where "d' = d[h + 7 := d ! (h + 7) - of_nat (f1 + f2)]"
            have o: "outside d d' {h + 1..<usable pg}" unfolding d'_def by (rule outside_upd) (use U in \<open>simp_all add: h_def\<close>)
            have u: "upd_res d (h + 7) (d ! (h + 7) - of_nat (f1 + f2)) = Inr d'"
              using U by (simp add: d'_def d_def h_def)
            have e: "freeSpace pg iStart iSize = (if unat (d ! (h + 7)) < f1 + f2 then Inr (PageCorrupt, pg)
                else release_block (pg\<lparr>aData := d'\<rparr>) q s' e b' iSize)"
              unfolding freeSpace_def Let_def h_def [symmetric] d_def [symmetric] g(1) bind_res_Inr found(1)
              using False b n(1) p(1) g(2) u by simp
            have "\<exists>rc pg'. release_block (pg\<lparr>aData := d'\<rparr>) q s' e b' iSize = Inr (rc, pg') \<and> stays pg rc pg'"
              by (rule rel [OF o]) (use found p n in \<open>simp_all add: h_def\<close>)
            then show ?thesis using e corrupt by simp
          qed
        qed
      qed
    qed
  qed
qed

section \<open>The search for a slot\<close>

text \<open>A corrupt list may lead into the header of the page and in front of it, so the bytes
  that the search can change are all those of the page.\<close>

lemma find_slot_safe:
  assumes "usable pg \<le> length (aData pg)" "hdrOffset pg + 8 \<le> usable pg" "4 \<le> nByte" "iAddr + 2 \<le> usable pg"
  shows "\<exists>slot rc pg'. find_slot pg nByte iAddr pc = Inr (slot, rc, pg') \<and> rc \<in> {PageOK, PageCorrupt} \<and>
    pg' = pg\<lparr>aData := aData pg'\<rparr> \<and> outside (aData pg) (aData pg') {..<usable pg} \<and>
    (\<forall>s. slot = Some s \<longrightarrow> rc = PageOK \<and> s + nByte \<le> usable pg)"
  using assms
proof (induction pg nByte iAddr pc rule: find_slot.induct)
  case (1 pg nByte iAddr pc)
  define d where "d = aData pg"
  define h where "h = hdrOffset pg"
  note U = "1.prems"
  show ?case
  proof (cases "int pc \<le> int (usable pg) - int nByte")
    case False
    then show ?thesis by (simp add: find_slot.simps [of pg nByte iAddr pc] Let_def)
  next
    case fits: True
    then have pc: "pc + nByte \<le> usable pg" by linarith
    have g: "get2byte d (pc + 2) = Inr (g2 d (pc + 2))" "get2byte d pc = Inr (g2 d pc)" "nth_res d (h + 7) = Inr (d ! (h + 7))"
      using U pc by (simp_all add: d_def h_def)
    show ?thesis
    proof (cases "nByte \<le> g2 d (pc + 2)")
      case True
      define x where "x = g2 d (pc + 2) - nByte"
      define d1 where "d1 = put2 d iAddr (g2 d pc)"
      define d2 where "d2 = d1[h + 7 := d1 ! (h + 7) + of_nat x]"
      define d3 where "d3 = put2 d (pc + 2) x"
      have m: "move_bytes d iAddr pc 2 = Inr d1" unfolding d1_def by (rule move_two) (use U pc in \<open>simp_all add: d_def\<close>)
      have l: "length d1 = length d" by (simp add: d1_def)
      have n: "nth_res d1 (h + 7) = Inr (d1 ! (h + 7))" "upd_res d1 (h + 7) (d1 ! (h + 7) + of_nat x) = Inr d2"
        using U l by (simp_all add: d_def h_def d2_def)
      have p: "put2byte d (pc + 2) x = Inr d3" using U pc by (simp add: d_def d3_def)
      have o: "outside d d2 {..<usable pg}" "outside d d3 {..<usable pg}"
        unfolding d1_def d2_def d3_def by (intro outside_put2 outside_upd outside_refl; use U pc in \<open>simp add: h_def\<close>)+
      have e: "find_slot pg nByte iAddr pc =
          (if x < 4 then if 57 < d ! (h + 7) then Inr (None, PageOK, pg) else Inr (Some pc, PageOK, pg\<lparr>aData := d2\<rparr>)
           else if int (usable pg) - int nByte < int (x + pc) then Inr (None, PageCorrupt, pg)
           else Inr (Some (pc + x), PageOK, pg\<lparr>aData := d3\<rparr>))"
        unfolding find_slot.simps [of pg nByte iAddr pc] Let_def d_def [symmetric] h_def [symmetric] g bind_res_Inr
          x_def [symmetric] m n p
        using fits True by simp
      show ?thesis using e o pc by (auto simp: d_def)
    next
      case False
      show ?thesis
      proof (cases "g2 d pc \<le> pc")
        case True
        then show ?thesis using fits False g by (simp add: find_slot.simps [of pg nByte iAddr pc] Let_def d_def h_def)
      next
        case up: False
        have e: "find_slot pg nByte iAddr pc = find_slot pg nByte pc (g2 d pc)"
          unfolding find_slot.simps [of pg nByte iAddr pc] Let_def d_def [symmetric] g bind_res_Inr
          using fits False up by simp
        show ?thesis unfolding e
          by (rule "1.IH"; (unfold d_def [symmetric])?; (rule refl | rule fits | rule g | rule False | rule up | rule U
              | (use U pc in \<open>simp add: d_def; fail\<close>)))
      qed
    qed
  qed
qed

lemma pageFindSlot_safe:
  assumes "usable pg \<le> length (aData pg)" "hdrOffset pg + 8 \<le> usable pg" "4 \<le> nByte"
  shows "\<exists>slot rc pg'. pageFindSlot pg nByte = Inr (slot, rc, pg') \<and> rc \<in> {PageOK, PageCorrupt} \<and>
    pg' = pg\<lparr>aData := aData pg'\<rparr> \<and> outside (aData pg) (aData pg') {..<usable pg} \<and>
    (\<forall>s. slot = Some s \<longrightarrow> rc = PageOK \<and> s + nByte \<le> usable pg)"
proof -
  have "get2byte (aData pg) (hdrOffset pg + 1) = Inr (g2 (aData pg) (hdrOffset pg + 1))" using assms by simp
  then show ?thesis
    unfolding pageFindSlot_def using find_slot_safe [of pg nByte "hdrOffset pg + 1"] assms by simp
qed

section \<open>Properties\<close>

text \<open>C30. Whatever the bytes of a page are, those of a corrupt file included, the release of a
  region that lies behind the page header and within the page, and the search for a slot, end,
  read and write only inside the page, and answer \<open>SQLITE_OK\<close> or \<open>SQLITE_CORRUPT\<close>; the
  release never touches the flags byte or what stands in front of it, the slot found lies within
  the page, and no field of the page other than its bytes and the count of free bytes changes.\<close>

theorem corrupt_page_safe:
  assumes "hdrOffset pg + 2 \<le> iStart" "4 \<le> iSize" "iStart + iSize \<le> usable pg"
    and "usable pg \<le> length (aData pg)" "hdrOffset pg + 8 \<le> usable pg" "4 \<le> nByte"
  shows "(\<exists>rc d f. freeSpace pg iStart iSize = Inr (rc, pg\<lparr>aData := d, nFree := f\<rparr>) \<and> rc \<in> {PageOK, PageCorrupt} \<and>
      outside (aData pg) d {hdrOffset pg + 1..<usable pg}) \<and>
    (\<exists>slot rc d. pageFindSlot pg nByte = Inr (slot, rc, pg\<lparr>aData := d\<rparr>) \<and> rc \<in> {PageOK, PageCorrupt} \<and>
      outside (aData pg) d {..<usable pg} \<and> (\<forall>s. slot = Some s \<longrightarrow> rc = PageOK \<and> s + nByte \<le> usable pg))"
proof (rule conjI)
  obtain rc pg' where f: "freeSpace pg iStart iSize = Inr (rc, pg')" "stays pg rc pg'"
    using freeSpace_safe [OF assms(1-5)] by blast
  then have "pg' = pg\<lparr>aData := aData pg', nFree := nFree pg'\<rparr>" by (simp add: stays_def)
  then show "\<exists>rc d f. freeSpace pg iStart iSize = Inr (rc, pg\<lparr>aData := d, nFree := f\<rparr>) \<and> rc \<in> {PageOK, PageCorrupt} \<and>
      outside (aData pg) d {hdrOffset pg + 1..<usable pg}"
    using f by (metis stays_def)
  show "\<exists>slot rc d. pageFindSlot pg nByte = Inr (slot, rc, pg\<lparr>aData := d\<rparr>) \<and> rc \<in> {PageOK, PageCorrupt} \<and>
      outside (aData pg) d {..<usable pg} \<and> (\<forall>s. slot = Some s \<longrightarrow> rc = PageOK \<and> s + nByte \<le> usable pg)"
    using pageFindSlot_safe [OF assms(4-6)] by metis
qed

text \<open>A page whose list of free blocks starts in its own header.\<close>

theorem corrupt_page_safe_witness:
  "\<exists>rc d f. freeSpace (sample_page\<lparr>aData := replicate 512 7\<rparr>) 100 20 =
     Inr (rc, sample_page\<lparr>aData := d, nFree := f\<rparr>) \<and> rc \<in> {PageOK, PageCorrupt} \<and> length d = 512"
proof -
  have u: "bt_usableSize sample_bt = 512" "pBt sample_page = sample_bt" "hdrOffset sample_page = 0"
    by (simp_all add: sample_page_def sample_bt_def local_limits_def Let_def)
  from corrupt_page_safe [of "sample_page\<lparr>aData := replicate 512 7\<rparr>" 100 20 4] u
  obtain rc d f where "freeSpace (sample_page\<lparr>aData := replicate 512 7\<rparr>) 100 20 = Inr (rc, sample_page\<lparr>aData := d, nFree := f\<rparr>)"
    "rc \<in> {PageOK, PageCorrupt}" "outside (replicate 512 7) d {1..<512}" by auto
  then show ?thesis using outside_length by fastforce
qed

end
