(* ===== verification/Spec2Isabelle.thy ===== *)
theory Spec2Isabelle
  imports BankSystem SqlitePrng SysArch VirtioNet SqliteVarint SqliteHash SqliteInt SqliteRowSet SqlComplete LedgerSchema SqliteColumn SqliteBitvec
    SqliteCompare SqliteBtRun SqliteBtSafe
begin

text \<open>
  A verification development for the seL4/CAmkES banking demonstration.

  \<^bold>\<open>The program.\<close>  Six CAmkES components, each a thread with its own memory, assembled by
  src/banking_system.camkes.  The client (components/Client/src/client.c) writes a line into a
  buffer it shares with the gateway and signals; the gateway (components/APIGateway/src/gateway.c)
  cuts the line into words, calls the authentication server (components/AuthServer/src/auth.c) or
  the ledger (components/Ledger/src/ledger.c) by RPC and writes the answer into the same buffer.
  The ledger keeps its accounts and its audit trail in an SQLite database (the amalgamation
  components/Ledger/src/sqlite3.c), whose files it maps, through a virtual file system of its own,
  to the storage component (components/Storage/src/storage.c), a one-megabyte disk in memory.
  Beside them a network component (components/NetworkStack) drives a virtio network card for lwIP.

  \<^bold>\<open>Conventions.\<close>  An operation is a function from the state to a result and a new state.  What C
  leaves undefined (an access outside an array, a null pointer, signed overflow, text without a
  terminator) is the left side of a sum type, a value of \<open>fault\<close> (Prelude); error codes are values
  as in the code.  An \<open>int\<close> of C is an integer whose operations check the 32-bit range; unsigned
  integers are words and wrap; sizes that stay far below the machine's are natural numbers.
  Definitions keep the names of the C functions; a loop or a branch of a long function that is a
  definition of its own says so in the text before it.  What the code calls but the repository does not
  hold (the heap, lwIP, the generated parser, the conversion of an integer to a double) is an argument.

  \<^bold>\<open>The theories, bottom up.\<close>

  \<^item> Prelude: machine types, faults, checked indexing and arithmetic, list and ring lemmas, and the
    contract \<open>simulated\<close>: operations that each simulate a step of an abstract machine do so over any
    run.  CString: the string functions of the C library the components call, strtok included.
    ByteFile: the contract of a zero-extended byte file, for the layers of the storage path.

  \<^item> AuthServer (auth.c): the table of 50 users and the token counter.  It refines an abstract table of
    credentials; tokens increase; both \<open>strcpy\<close>s into 32-byte buffers can overflow, and where is stated.

  \<^item> StorageDisk (storage.c), LedgerVfs (the sel4_x functions of ledger.c), SqliteOs (os.c of SQLite):
    the disk refines a bounded byte file; the virtual file system over the disk refines one byte file,
    and all names are that file; the list of file systems behaves as a list without duplicates.

  \<^item> Ledger (ledger.c): initialisation, the row callback, console redirection and
    \<open>bank_execute_transaction\<close>, over an SQL engine given by the calls \<open>sqlite3_exec\<close> makes of it.
    SqliteExec (legacy.c): \<open>sqlite3_exec\<close> itself, which refines the run of a script up to its first
    failure.  LedgerSql: the statements of ledger.c as SQLite's tokenizer reads them, with and without
    quotes in the names.  LedgerSchema: what those statements write and which columns they name, against
    the columns the schema of \<open>pre_init\<close> declares, on an engine that checks names.

  \<^item> Gateway (gateway.c), ClientApp (client.c), BankSystem: one iteration of the gateway, the client's
    accesses, and their interleavings over the shared buffer, as an inductive step relation whose
    steps are copies of a whole buffer; an invariant of all reachable states, from which neither thread
    faults and each can go on, and the race by which the gateway reads its own reply.

  \<^item> SysArch (sys_arch.h) and VirtioNet (network_stack.c, virtio_mmio.h): mailboxes as bounded queues;
    the device handshake, transmit path and interrupt handler over rings that the device also writes,
    each with the state it leaves; a frame that its first lwIP buffer does not hold overflows it.

  \<^item> Parts of SQLite the ledger's statements run through, each from the section of sqlite3.c that its
    own theory names: SqlTokens, SqlKeywords, SqlTokenizer (the tokens, the perfect hash of keywords,
    \<open>sqlite3GetToken\<close>), SqlParse (\<open>sqlite3RunParser\<close>), SqlComplete (\<open>sqlite3_complete\<close>), SqliteCtype,
    SqliteInt (integers in text, 64-bit arithmetic), SqlitePrng (random numbers), SqliteHash (symbol
    tables), SqliteRowSet (sets of row numbers), SqliteVarint (integers of the file format),
    SqliteRecord (\<open>OP_MakeRecord\<close>, serial types, \<open>sqlite3VdbeRecordUnpack\<close>), SqliteColumn (\<open>OP_Column\<close>
    and its two caches), SqliteBitvec (the sets of journalled pages), SqliteCompare
    (the order of values, doubles included, and of records and keys).

  \<^item> The pages of SQLite's b-trees: SqliteBtCell (the kinds of page, the size and the parse of a cell,
    the page header), SqliteBtPage (free blocks, allocation, release, defragmentation, insertion and
    removal of cells), all on the bytes of a page, the two method pointers being data.  SqliteBtSpace
    states that regions in use, free blocks and fragments tile a page and proves it of release and
    search; SqliteBtRefine does so for defragmentation and allocation, SqliteBtOps for insertion,
    removal, the empty page and the reading of a page; SqliteBtRun composes them into runs;
    SqliteBtSafe is about pages of arbitrary bytes.

  \<^bold>\<open>What the groups of lemmas show.\<close>  Refinement, by a representation relation preserved by every
  operation and an interpretation of a contract: authentication, disk, file system, mailbox, hash
  table, row set, bit vector, column cache, b-tree page.  Equivalence with a simple definition: word dispatch, keyword search,
  varint reader, case-insensitive order, complete statements, the size of a cell with its parse, the faster
  comparisons of records with the general one and with the check of the debug build.  Order: values by the numbers
  and bytes they stand for, records as their rows.  Round trips: varints, printed tokens,
  records, a page and its bytes.  Safety: a corrupt page is refused or changed, never left.  Types, bounds, errors: tokens inside their text, typed values from any record, integers
  exact or refused, and for each unchecked copy of the bank's own code the inputs it fails on.

  \<^bold>\<open>Bounds and fuel.\<close>  The receive loop of the driver is bounded by 65536 iterations, because the
  16-bit indices it compares are never further apart.
  The counters of the hash table are 32 bits, so its theorem asks for fewer entries than that; the
  merge of a row set has 40 buckets, enough for fewer than \<open>2 ^ 40\<close> values; a record has
  fewer than \<open>2 ^ 28\<close> fields, a row read by column at most \<open>SQLITE_MAX_COLUMN\<close>, and the counters that
  guard its caches do not come round; setting a bit of a vector takes at most nine nested calls, two for
  each of the four times that 32 bits can be divided into 62 parts.  Everything else terminates on every input, by structure or by a
  measure; scripts run by \<open>sqlite3_exec\<close>, whose loop an engine could keep going for ever, are
  a partial function and the theorem says exactly when it returns.

  \<^bold>\<open>Assumptions on the environment.\<close>  A copy into or out of the shared buffer is one step; the
  notification is binary; the SQL engine is one on which scripts end (\<open>engine_total\<close>) or one that
  checks names and creates tables as SQLite documents it (\<open>schema_engine\<close>), where a theorem says so,
  each met by a small engine in a witness; pointers and sizes are those of a 64-bit little-endian target; the build is
  the default one of the amalgamation (no SQLITE_DEBUG, no EBCDIC, no null trimming); \<open>vdbeRecordCompareDebug\<close>, which
  only a debug build has, is the one exception.

  \<^bold>\<open>Not modelled.\<close>  The rest of SQLite (grammar actions, code generator, the other opcodes, the cursors and
  the balancing of the b-tree, pager, write-ahead log, floating point, printf, extensions): vendored code of a quarter of a million
  lines that stands behind \<open>sqlite3_exec\<close> as an argument of the ledger.  Of \<open>OP_Column\<close>, what the
  b-tree decides (moved cursors, deferred seeks, its errors).  The lwIP configuration headers and
  cc.h, which only set options of a library outside the repository; the generated CAmkES glue; what
  components print for the user to see.
\<close>

end
